(* ===== verification/Prelude.thy ===== *)
theory Prelude
  imports Complex_Main "HOL-Library.Word" "HOL-Library.AList" "HOL-Library.Char_ord"
    "HOL-Library.List_Lexorder" "HOL-Library.Multiset" "HOL-Library.Sublist"
begin

text \<open>
  Shared vocabulary of the development: the result type of code that throws a
  \<open>ProtocolError\<close>, the ordered \<open>Map\<close> and \<open>Set\<close> of the source language, byte strings,
  positional numerals, and the contract of a three-way comparator with the lemmas that
  every place which picks a least element or sorts by one relies on.
\<close>

named_theorems result_simps \<open>inversion rules of the result type\<close>
named_theorems ordered_simps \<open>lookups in ordered maps and sets after an update\<close>

section \<open>Results\<close>

text \<open>
  The codes of \<open>src/types/errors.ts\<close>. Callers branch on the code and never on the message,
  so the message is not part of the model.
\<close>

datatype protocol_error =
    malformed_encoding | non_canonical_encoding | size_exceeded | invalid_shape
  | invalid_cid | cid_mismatch | content_unavailable | invalid_public_key
  | invalid_private_key | test_key_refused | invalid_fingerprint | invalid_library_name
  | invalid_library_address | library_rejected | library_unopenable | unsupported_ac_type
  | invalid_operation | invalid_signature | unauthorised_writer | invalid_clock
  | capability_denied | capability_expired | capability_revoked | duplicate_entry
  | topic_too_long

type_synonym 'a result = "protocol_error + 'a"

definition and_then :: "'e + 'a \<Rightarrow> ('a \<Rightarrow> 'e + 'b) \<Rightarrow> 'e + 'b" where
  "and_then r f = (case r of Inl e \<Rightarrow> Inl e | Inr x \<Rightarrow> f x)"

lemma and_then_simps [simp]:
  "and_then (Inl e) f = Inl e"
  "and_then (Inr x) f = f x"
  by (simp_all add: and_then_def)

lemma and_then_cong [fundef_cong]:
  "r = r' \<Longrightarrow> (\<And>x. r' = Inr x \<Longrightarrow> f x = g x) \<Longrightarrow> and_then r f = and_then r' g"
  by (cases r') auto

lemma and_then_Inr_iff [result_simps]:
  "and_then r f = Inr y \<longleftrightarrow> (\<exists>x. r = Inr x \<and> f x = Inr y)"
  by (cases r) auto

lemma and_then_Inl_iff [result_simps]:
  "and_then r f = Inl e \<longleftrightarrow> r = Inl e \<or> (\<exists>x. r = Inr x \<and> f x = Inl e)"
  by (cases r) auto

text \<open>\<open>values.map(f)\<close> where \<open>f\<close> may throw: the first error ends the loop.\<close>

fun map_result :: "('a \<Rightarrow> 'e + 'b) \<Rightarrow> 'a list \<Rightarrow> 'e + 'b list" where
  "map_result f [] = Inr []"
| "map_result f (x # xs) =
     and_then (f x) (\<lambda>y. and_then (map_result f xs) (\<lambda>ys. Inr (y # ys)))"

lemma map_result_Inr_iff [result_simps]:
  "map_result f xs = Inr ys \<longleftrightarrow> list_all2 (\<lambda>x y. f x = Inr y) xs ys"
  by (induction xs arbitrary: ys) (auto simp: result_simps list_all2_Cons1)

section \<open>Ordered maps and sets\<close>

text \<open>
  A JavaScript \<open>Map\<close> or \<open>Set\<close> iterates in insertion order. A map is an association list with
  distinct keys: \<open>set\<close> on a key it holds replaces the value in place, on a new key it appends,
  which is what \<open>AList.update\<close> does. A set is a list without repetition.
\<close>

type_synonym ('k, 'v) omap = "('k \<times> 'v) list"
type_synonym 'a oset = "'a list"

abbreviation omap_get :: "('k, 'v) omap \<Rightarrow> 'k \<Rightarrow> 'v option" where
  "omap_get m k \<equiv> map_of m k"

abbreviation omap_has :: "('k, 'v) omap \<Rightarrow> 'k \<Rightarrow> bool" where
  "omap_has m k \<equiv> map_of m k \<noteq> None"

abbreviation omap_set :: "'k \<Rightarrow> 'v \<Rightarrow> ('k, 'v) omap \<Rightarrow> ('k, 'v) omap" where
  "omap_set k v m \<equiv> AList.update k v m"

abbreviation omap_delete :: "'k \<Rightarrow> ('k, 'v) omap \<Rightarrow> ('k, 'v) omap" where
  "omap_delete k m \<equiv> AList.delete k m"

abbreviation omap_keys :: "('k, 'v) omap \<Rightarrow> 'k list" where
  "omap_keys m \<equiv> map fst m"

abbreviation omap_values :: "('k, 'v) omap \<Rightarrow> 'v list" where
  "omap_values m \<equiv> map snd m"

definition oset_add :: "'a \<Rightarrow> 'a oset \<Rightarrow> 'a oset" where
  "oset_add x xs = (if x \<in> set xs then xs else xs @ [x])"

definition oset_delete :: "'a \<Rightarrow> 'a oset \<Rightarrow> 'a oset" where
  "oset_delete x xs = removeAll x xs"

text \<open>\<open>new Set(values)\<close>: each value once, at its first position.\<close>

definition oset_of :: "'a list \<Rightarrow> 'a oset" where
  "oset_of xs = fold oset_add xs []"

lemma set_oset_add [simp]: "set (oset_add x xs) = insert x (set xs)"
  by (auto simp: oset_add_def)

lemma distinct_oset_add [simp]: "distinct xs \<Longrightarrow> distinct (oset_add x xs)"
  by (auto simp: oset_add_def)

lemma set_oset_delete [simp]: "set (oset_delete x xs) = set xs - {x}"
  by (auto simp: oset_delete_def)

lemma distinct_oset_delete [simp]: "distinct xs \<Longrightarrow> distinct (oset_delete x xs)"
  by (simp add: oset_delete_def distinct_removeAll)

lemma set_fold_oset_add: "set (fold oset_add xs ys) = set xs \<union> set ys"
  by (induction xs arbitrary: ys) auto

lemma distinct_fold_oset_add: "distinct ys \<Longrightarrow> distinct (fold oset_add xs ys)"
  by (induction xs arbitrary: ys) auto

lemma set_oset_of [simp]: "set (oset_of xs) = set xs"
  by (simp add: oset_of_def set_fold_oset_add)

lemma distinct_oset_of [simp]: "distinct (oset_of xs)"
  by (simp add: oset_of_def distinct_fold_oset_add)

lemma length_oset_of_le: "length (oset_of xs) \<le> length xs"
  by (metis card_length distinct_card distinct_oset_of set_oset_of)

lemma length_oset_of_eq_iff: "length (oset_of xs) = length xs \<longleftrightarrow> distinct xs"
  by (metis card_distinct distinct_card distinct_oset_of set_oset_of)

lemma omap_get_set [ordered_simps]:
  "map_of (omap_set k v m) k' = (if k' = k then Some v else map_of m k')"
  by (simp add: update_conv')

lemma omap_get_delete [ordered_simps]:
  "map_of (omap_delete k m) k' = (if k' = k then None else map_of m k')"
  by (simp add: delete_conv')

lemma omap_has_iff: "map_of m k \<noteq> None \<longleftrightarrow> k \<in> fst ` set m"
  by (metis map_of_eq_None_iff)

lemma length_omap_set: "length (omap_set k v m) \<le> Suc (length m)"
  by (induction m) auto

lemma dom_omap_set [ordered_simps]: "dom (map_of (omap_set k v m)) = insert k (dom (map_of m))"
  by (simp add: update_conv')

lemma omap_values_set_new:
  "map_of m k = None \<Longrightarrow> omap_values (omap_set k v m) = omap_values m @ [v]"
  by (induction m) (auto split: if_splits)

lemma omap_set_new: "map_of m k = None \<Longrightarrow> omap_set k v m = m @ [(k, v)]"
  by (induction m) (auto split: if_splits)

lemma omap_value_in: "map_of m k = Some v \<Longrightarrow> v \<in> set (omap_values m)"
  by (force dest: map_of_SomeD)

lemma omap_value_ex:
  "distinct (omap_keys m) \<Longrightarrow> v \<in> set (omap_values m) \<Longrightarrow> \<exists>k. map_of m k = Some v"
  by (auto simp: map_of_eq_Some_iff)

text \<open>The elements a partial function keeps.\<close>

lemma set_map_filter_eq: "set (List.map_filter f xs) = {y. \<exists>x \<in> set xs. f x = Some y}"
  by (induction xs) (auto simp: List.map_filter_simps split: option.splits)

section \<open>Byte strings and positional numerals\<close>

type_synonym byte = "8 word"
type_synonym bytes = "8 word list"

text \<open>The number a list of digits denotes, most significant digit first.\<close>

fun be_val :: "nat \<Rightarrow> nat list \<Rightarrow> nat" where
  "be_val b [] = 0"
| "be_val b (d # ds) = d * b ^ length ds + be_val b ds"

lemma be_val_append: "be_val b (xs @ ys) = be_val b xs * b ^ length ys + be_val b ys"
  by (induction xs) (simp_all add: power_add algebra_simps)

lemma be_val_snoc [simp]: "be_val b (xs @ [d]) = be_val b xs * b + d"
  by (simp add: be_val_append)

lemma be_val_bound: "\<forall>d \<in> set ds. d < b \<Longrightarrow> be_val b ds < b ^ length ds"
proof (induction ds)
  case (Cons d ds)
  from Cons have "be_val b ds < b ^ length ds" and "d + 1 \<le> b" by simp_all
  moreover from \<open>d + 1 \<le> b\<close> have "(d + 1) * b ^ length ds \<le> b * b ^ length ds"
    by (rule mult_le_mono1)
  ultimately show ?case by simp
qed simp

lemma be_val_replicate_0 [simp]: "be_val b (replicate n 0) = 0"
  by (induction n) simp_all

lemma be_val_ge: "ds \<noteq> [] \<Longrightarrow> hd ds \<noteq> 0 \<Longrightarrow> 0 < b \<Longrightarrow> b ^ (length ds - 1) \<le> be_val b ds"
  by (cases ds) (auto intro: trans_le_add1)

lemma be_val_inj_length:
  assumes "\<forall>d \<in> set xs. d < b" "\<forall>d \<in> set ys. d < b" "length xs = length ys"
    and "be_val b xs = be_val b ys"
  shows "xs = ys"
  using assms(3,1,2,4)
proof (induction xs ys rule: list_induct2)
  case (Cons x xs y ys)
  have "be_val b xs < b ^ length xs" "be_val b ys < b ^ length ys"
    using Cons.prems by (auto intro!: be_val_bound)
  moreover have eq: "x * b ^ length xs + be_val b xs = y * b ^ length xs + be_val b ys"
    using Cons by simp
  ultimately have "x = y"
    using Cons.hyps
    by (metis add.commute div_mult_self1 div_less add_0 less_nat_zero_code
        mult.commute mod_mult_self1 mod_less power_eq_0_iff gr0I)
  with eq Cons show ?case by simp
qed simp

text \<open>A digit list with no leading zero is determined by its value.\<close>

lemma be_val_inj:
  assumes "\<forall>d \<in> set xs. d < b" "\<forall>d \<in> set ys. d < b" "1 < b"
    and "xs = [] \<or> hd xs \<noteq> 0" "ys = [] \<or> hd ys \<noteq> 0"
    and eq: "be_val b xs = be_val b ys"
  shows "xs = ys"
proof -
  have len: "length us \<le> length vs"
    if "\<forall>d \<in> set vs. d < b" "us = [] \<or> hd us \<noteq> 0" "be_val b us = be_val b vs" for us vs
  proof (cases "us = []")
    case False
    with that assms(3) have "b ^ (length us - 1) \<le> be_val b vs"
      by (metis be_val_ge less_trans zero_less_one)
    also have "\<dots> < b ^ length vs" using that(1) by (rule be_val_bound)
    finally have "length us - 1 < length vs"
      using assms(3) by simp
    then show ?thesis by arith
  qed simp
  from len[OF assms(2,4) eq] len[OF assms(1,5) eq[symmetric]] have "length xs = length ys"
    by simp
  with assms show ?thesis by (blast intro: be_val_inj_length)
qed

lemma unat_byte_bound [simp]: "unat (b :: byte) < 256"
  using unsigned_less[of b] by simp

lemma be_val_map_unat_bound: "be_val 256 (map unat (bs :: bytes)) < 256 ^ length bs"
  using be_val_bound[of "map unat bs" 256] by simp

lemma map_unat_inj: "map unat (xs :: bytes) = map unat ys \<longleftrightarrow> xs = ys"
  by (rule inj_map_eq_map) (auto intro: injI)

section \<open>Three-way comparators\<close>

text \<open>
  The contract of a \<open>compare(a, b)\<close> function, as \<open>Array.prototype.sort\<close> and the resolution loops
  use it: a total preorder, negative when \<open>a\<close> comes first and zero exactly for values that agree on
  a key.
\<close>

locale comparator =
  fixes cmp :: "'a \<Rightarrow> 'a \<Rightarrow> 'b :: linordered_idom" and key :: "'a \<Rightarrow> 'k"
  assumes cmp_zero: "cmp x y = 0 \<longleftrightarrow> key x = key y"
    and cmp_antisym: "cmp x y < 0 \<longleftrightarrow> 0 < cmp y x"
    and cmp_trans: "cmp x y \<le> 0 \<Longrightarrow> cmp y z \<le> 0 \<Longrightarrow> cmp x z \<le> 0"
begin

lemma cmp_not_less: "\<not> cmp x y < 0 \<longleftrightarrow> cmp y x \<le> 0"
  using cmp_antisym[of x y] by auto

lemma cmp_refl: "cmp x x = 0"
  by (simp add: cmp_zero)

lemma cmp_eq: "cmp x y \<le> 0 \<Longrightarrow> cmp y x \<le> 0 \<Longrightarrow> key x = key y"
  using cmp_zero cmp_antisym[of x y] by (metis leD order_le_less)

lemma least_unique:
  assumes "x \<in> T" "y \<in> T" "inj_on key T" "\<forall>z \<in> T. cmp x z \<le> 0" "\<forall>z \<in> T. cmp y z \<le> 0"
  shows "x = y"
  using assms cmp_eq by (meson inj_onD)

end

text \<open>
  The loop \<open>for (const x of xs) if (least === undefined || compare(x, least) < 0) least = x\<close>.
\<close>

fun least_by :: "('a \<Rightarrow> 'a \<Rightarrow> 'b :: linordered_idom) \<Rightarrow> 'a option \<Rightarrow> 'a list \<Rightarrow> 'a option" where
  "least_by c acc [] = acc"
| "least_by c acc (x # xs) =
     least_by c (case acc of None \<Rightarrow> Some x | Some y \<Rightarrow> if c x y < 0 then Some x else Some y) xs"

lemma least_by_None_iff: "least_by c acc xs = None \<longleftrightarrow> acc = None \<and> xs = []"
  by (induction xs arbitrary: acc) (auto split: option.splits)

lemma least_by_in: "least_by c acc xs = Some x \<Longrightarrow> acc = Some x \<or> x \<in> set xs"
  by (induction xs arbitrary: acc) (auto split: option.splits if_splits)

context comparator begin

lemma least_by_least:
  "least_by cmp acc xs = Some x \<Longrightarrow> z \<in> set xs \<union> set_option acc \<Longrightarrow> cmp x z \<le> 0"
proof (induction xs arbitrary: acc z)
  case Nil
  then show ?case by (auto simp: cmp_refl)
next
  case (Cons y ys)
  define acc' where "acc' = (case acc of None \<Rightarrow> Some y | Some a \<Rightarrow> if cmp y a < 0 then Some y else Some a)"
  have run: "least_by cmp acc' ys = Some x" using Cons.prems(1) by (simp add: acc'_def)
  show ?case
  proof (cases "z \<in> set ys")
    case True
    then show ?thesis using Cons.IH[OF run] by blast
  next
    case False
    with Cons.prems(2) have "z = y \<or> acc = Some z" by auto
    moreover have "\<not> cmp y a < 0 \<Longrightarrow> cmp a y \<le> 0" for a using cmp_not_less by blast
    ultimately have "\<exists>w. acc' = Some w \<and> cmp w z \<le> 0"
      by (cases acc) (auto simp: acc'_def cmp_refl)
    then obtain w where w: "acc' = Some w" "cmp w z \<le> 0" by blast
    with Cons.IH[OF run, of w] show ?thesis using cmp_trans by auto
  qed
qed

text \<open>Resolution does not depend on the order the candidates are met in.\<close>

lemma least_by_set_cong:
  assumes "set xs = set ys" "inj_on key (set xs)"
  shows "least_by cmp None xs = least_by cmp None ys"
proof (cases "least_by cmp None xs")
  case None
  then show ?thesis using assms by (auto simp: least_by_None_iff)
next
  case (Some x)
  moreover from Some have "least_by cmp None ys \<noteq> None"
    using assms by (auto simp: least_by_None_iff dest: least_by_in)
  then obtain y where "least_by cmp None ys = Some y" by blast
  moreover have "x = y"
  proof (rule least_unique[of _ "set xs"])
    show "x \<in> set xs" "y \<in> set xs" using calculation assms by (auto dest: least_by_in)
    show "\<forall>z \<in> set xs. cmp x z \<le> 0" using least_by_least[OF calculation(1)] by auto
    show "\<forall>z \<in> set xs. cmp y z \<le> 0" using least_by_least[OF calculation(2)] assms by auto
  qed (use assms in auto)
  ultimately show ?thesis by simp
qed

end

text \<open>\<open>xs.sort(compare)\<close>: the sort of the language is stable, as insertion sort is.\<close>

fun insert_by :: "('a \<Rightarrow> 'a \<Rightarrow> 'b :: linordered_idom) \<Rightarrow> 'a \<Rightarrow> 'a list \<Rightarrow> 'a list" where
  "insert_by c x [] = [x]"
| "insert_by c x (y # ys) = (if c x y \<le> 0 then x # y # ys else y # insert_by c x ys)"

definition sort_by :: "('a \<Rightarrow> 'a \<Rightarrow> 'b :: linordered_idom) \<Rightarrow> 'a list \<Rightarrow> 'a list" where
  "sort_by c xs = foldr (insert_by c) xs []"

lemma sort_by_simps [simp]:
  "sort_by c [] = []"
  "sort_by c (x # xs) = insert_by c x (sort_by c xs)"
  by (simp_all add: sort_by_def)

lemma set_insert_by [simp]: "set (insert_by c x xs) = insert x (set xs)"
  by (induction xs) auto

lemma set_sort_by [simp]: "set (sort_by c xs) = set xs"
  by (induction xs) auto

lemma mset_insert_by [simp]: "mset (insert_by c x xs) = add_mset x (mset xs)"
  by (induction xs) auto

lemma mset_sort_by [simp]: "mset (sort_by c xs) = mset xs"
  by (induction xs) auto

lemma distinct_sort_by [simp]: "distinct (sort_by c xs) = distinct xs"
  by (metis mset_sort_by mset_eq_imp_distinct_iff)

lemma length_sort_by [simp]: "length (sort_by c xs) = length xs"
  by (metis mset_sort_by size_mset)

context comparator begin

lemma sorted_insert_by:
  assumes "sorted_wrt (\<lambda>a b. cmp a b \<le> 0) xs"
  shows "sorted_wrt (\<lambda>a b. cmp a b \<le> 0) (insert_by cmp x xs)"
  using assms
proof (induction xs)
  case (Cons y ys)
  have tr: "cmp x z \<le> 0" if "cmp x y \<le> 0" "cmp y z \<le> 0" for z
    using that by (rule cmp_trans)
  have "cmp y x \<le> 0" if "\<not> cmp x y \<le> 0"
    using that cmp_antisym[of y x] by auto
  with Cons tr show ?case by auto
qed simp

lemma sorted_sort_by: "sorted_wrt (\<lambda>a b. cmp a b \<le> 0) (sort_by cmp xs)"
  by (induction xs) (auto intro!: sorted_insert_by)

lemma sorted_unique:
  "sorted_wrt (\<lambda>a b. cmp a b \<le> 0) us \<Longrightarrow> sorted_wrt (\<lambda>a b. cmp a b \<le> 0) vs \<Longrightarrow>
     set us = set vs \<Longrightarrow> distinct us \<Longrightarrow> distinct vs \<Longrightarrow> inj_on key (set us) \<Longrightarrow> us = vs"
proof (induction us arbitrary: vs)
  case (Cons u us)
  then obtain v vs' where vs: "vs = v # vs'" by (cases vs) auto
  have "u = v"
  proof (rule least_unique[of _ "set (u # us)"])
    show "\<forall>z \<in> set (u # us). cmp u z \<le> 0" using Cons.prems(1) by (auto simp: cmp_refl)
    show "\<forall>z \<in> set (u # us). cmp v z \<le> 0" using Cons.prems(2,3) vs by (auto simp: cmp_refl)
  qed (use Cons.prems vs in auto)
  with Cons.prems vs have "set us = set vs'" by auto
  with Cons vs \<open>u = v\<close> show ?case by (auto simp: inj_on_def)
qed auto

text \<open>Two distinct lists with the same elements sort to the same list.\<close>

lemma sort_by_set_cong:
  assumes "set xs = set ys" "distinct xs" "distinct ys" "inj_on key (set xs)"
  shows "sort_by cmp xs = sort_by cmp ys"
  by (rule sorted_unique) (use assms sorted_sort_by in auto)

end

end
