(* ===== verification/Base58.thy ===== *)
theory Base58
  imports Prelude "HOL-Library.Signed_Division"
begin

unbundle bit_operations_syntax

text \<open>
  The base58btc codec of \<open>src/encoding/base58.ts\<close>: three digits per step, in 32-bit integer
  arithmetic. The model keeps the 32-bit truncations and the 8-bit array stores of the source
  written out; the lemmas show that none of them ever loses a bit, that the decoder's array is
  always long enough, and that the two directions are inverse to each other, so that every byte
  string has exactly one spelling.
\<close>

section \<open>Alphabet and digits\<close>

definition ALPHABET :: string where
  "ALPHABET = ''123456789ABCDEFGHJKLMNPQRSTUVWXYZabcdefghijkmnopqrstuvwxyz''"

definition CHUNK_BASE :: int where
  "CHUNK_BASE = 58 ^ 3"

text \<open>\<open>DIGIT_OF\<close> is \<open>-1\<close> for a character outside the alphabet.\<close>

definition DIGIT_OF :: "char \<Rightarrow> int" where
  "DIGIT_OF c = (case List.find (\<lambda>i. ALPHABET ! i = c) [0..<length ALPHABET] of
     None \<Rightarrow> -1 | Some i \<Rightarrow> int i)"

text \<open>\<open>x | 0\<close>: the value as a signed 32-bit integer.\<close>

definition int32 :: "int \<Rightarrow> int" where
  "int32 x = signed_take_bit 31 x"

definition uint32 :: "int \<Rightarrow> int" where
  "uint32 x = take_bit 32 x"

section \<open>Encoding\<close>

text \<open>
  One pass of the long division by \<open>58 ^ 3\<close> over \<open>number[start ..]\<close>: the quotient bytes,
  stored back into the array, and the remainder.
\<close>

fun divide_pass :: "int \<Rightarrow> bytes \<Rightarrow> bytes \<times> int" where
  "divide_pass remainder [] = ([], remainder)"
| "divide_pass remainder (b # bs) =
     (let accumulated = int32 (push_bit 8 remainder) OR uint b;
          quotient = int32 (accumulated sdiv CHUNK_BASE);
          (qs, r) = divide_pass (accumulated - quotient * CHUNK_BASE) bs
      in (word_of_int quotient # qs, r))"

definition chunk_digits :: "int \<Rightarrow> string" where
  "chunk_digits remainder =
     [ALPHABET ! nat (remainder mod 58),
      ALPHABET ! nat (int32 (remainder sdiv 58) mod 58),
      ALPHABET ! nat (int32 (remainder sdiv 3364))]"

lemma ALPHABET_length [simp]: "length ALPHABET = 58"
  by (simp add: ALPHABET_def)

lemma ALPHABET_distinct: "distinct ALPHABET"
  by (simp add: ALPHABET_def)

lemma CHUNK_BASE_val [simp]: "CHUNK_BASE = 195112"
  by (simp add: CHUNK_BASE_def)

lemma int32_id: "0 \<le> x \<Longrightarrow> x < 2 ^ 31 \<Longrightarrow> int32 x = x"
  by (simp add: int32_def signed_take_bit_int_eq_self_iff)

lemma sdiv_nonneg: "0 \<le> a \<Longrightarrow> 0 < b \<Longrightarrow> (a :: int) sdiv b = a div b"
  by (cases "a = 0") (simp_all add: signed_divide_int_def)

text \<open>The bits of the shifted remainder and of the byte do not overlap.\<close>

lemma accumulated_eq:
  assumes "0 \<le> r" "r < CHUNK_BASE"
  shows "int32 (push_bit 8 r) OR uint (b :: byte) = r * 256 + uint b"
proof -
  have b: "0 \<le> uint b" "uint b < 256"
    using uint_lt2p[of b] by simp_all
  have "int32 (push_bit 8 r) = push_bit 8 r"
    using assms by (intro int32_id) (simp_all add: push_bit_eq_mult)
  moreover have "push_bit 8 r OR uint b = push_bit 8 r + uint b"
  proof (rule disjunctive_add[symmetric])
    fix n show "\<not> bit (push_bit 8 r) n \<or> \<not> bit (uint b) n"
      by (cases "n < 8") (auto simp: bit_push_bit_iff bit_uint_iff)
  qed
  ultimately show ?thesis by (simp add: push_bit_eq_mult)
qed

text \<open>Every intermediate value of a pass stays below \<open>2 ^ 26\<close>, and each quotient is a byte.\<close>

lemma divide_step:
  fixes b :: byte
  assumes "0 \<le> r" "r < CHUNK_BASE"
  defines "acc \<equiv> int32 (push_bit 8 r) OR uint b"
  shows "acc = r * 256 + uint b" and "0 \<le> acc" and "acc < 2 ^ 26"
    and "int32 (acc sdiv CHUNK_BASE) = acc div CHUNK_BASE"
    and "0 \<le> acc div CHUNK_BASE" and "acc div CHUNK_BASE < 256"
    and "acc - acc div CHUNK_BASE * CHUNK_BASE = acc mod CHUNK_BASE"
proof -
  have b: "0 \<le> uint b" "uint b < 256"
    using uint_lt2p[of b] by simp_all
  show eq: "acc = r * 256 + uint b"
    unfolding acc_def by (rule accumulated_eq[OF assms(1,2)])
  then show nn: "0 \<le> acc" and "acc < 2 ^ 26" using b assms(1,2) by simp_all
  have lt: "acc < 195112 * 256" using eq b assms(1,2) by simp
  then show q: "acc div CHUNK_BASE < 256" by simp
  show q0: "0 \<le> acc div CHUNK_BASE" using nn by simp
  show "int32 (acc sdiv CHUNK_BASE) = acc div CHUNK_BASE"
    using nn q q0 by (simp add: sdiv_nonneg int32_id)
  show "acc - acc div CHUNK_BASE * CHUNK_BASE = acc mod CHUNK_BASE"
    by (simp add: minus_div_mult_eq_mod)
qed

lemma unat_word_of_int_byte: "0 \<le> q \<Longrightarrow> q < 256 \<Longrightarrow> unat (word_of_int q :: byte) = nat q"
  by (simp add: unat_eq_nat_uint uint_word_of_int)

lemma divide_pass_length: "length (fst (divide_pass r bs)) = length bs"
  by (induction bs arbitrary: r) (simp_all add: Let_def split: prod.splits, metis fst_conv)

text \<open>A pass is division with remainder of the number the bytes denote.\<close>

lemma divide_pass_correct:
  assumes "0 \<le> r" "r < CHUNK_BASE" "divide_pass r bs = (qs, r')"
  shows "0 \<le> r' \<and> r' < CHUNK_BASE \<and>
    nat r * 256 ^ length bs + be_val 256 (map unat bs) =
      be_val 256 (map unat qs) * 195112 + nat r'"
  using assms
proof (induction bs arbitrary: r qs)
  case (Cons b bs)
  define acc where "acc = int32 (push_bit 8 r) OR uint b"
  note step = divide_step[OF Cons.prems(1,2), of b, folded acc_def]
  obtain qs' where rec: "divide_pass (acc mod CHUNK_BASE) bs = (qs', r')"
    and qs: "qs = word_of_int (acc div CHUNK_BASE) # qs'"
    using Cons.prems(3) step(4,7) by (auto simp: Let_def acc_def[symmetric] split: prod.splits)
  have len: "length qs' = length bs" using divide_pass_length[of _ bs] rec by (metis fst_conv)
  have IH: "0 \<le> r' \<and> r' < CHUNK_BASE \<and>
    nat (acc mod CHUNK_BASE) * 256 ^ length bs + be_val 256 (map unat bs) =
      be_val 256 (map unat qs') * 195112 + nat r'"
    by (rule Cons.IH[OF _ _ rec]) simp_all
  have split: "nat acc = nat (acc div CHUNK_BASE) * 195112 + nat (acc mod CHUNK_BASE)"
    using step(2) by (simp add: nat_div_distrib nat_mod_distrib)
  have acc: "nat acc = nat r * 256 + unat b"
    using step(1) Cons.prems(1) by (simp add: nat_add_distrib nat_mult_distrib)
  have head: "unat (word_of_int (acc div CHUNK_BASE) :: byte) = nat (acc div CHUNK_BASE)"
    by (rule unat_word_of_int_byte[OF step(5,6)])
  have "nat r * 256 ^ length (b # bs) + be_val 256 (map unat (b # bs)) =
      nat acc * 256 ^ length bs + be_val 256 (map unat bs)"
    by (simp add: acc algebra_simps)
  also have "\<dots> = nat (acc div CHUNK_BASE) * 195112 * 256 ^ length bs +
      (nat (acc mod CHUNK_BASE) * 256 ^ length bs + be_val 256 (map unat bs))"
    by (simp add: split algebra_simps)
  also have "\<dots> = be_val 256 (map unat qs) * 195112 + nat r'"
    using IH head by (simp add: qs len algebra_simps)
  finally show ?case using IH by simp
qed simp

lemma divide_pass_value:
  assumes "divide_pass 0 bs = (qs, r)"
  shows "be_val 256 (map unat qs) = be_val 256 (map unat bs) div 195112"
    and "nat r = be_val 256 (map unat bs) mod 195112" and "0 \<le> r" and "r < CHUNK_BASE"
proof -
  from divide_pass_correct[OF _ _ assms] have
    eq: "be_val 256 (map unat bs) = be_val 256 (map unat qs) * 195112 + nat r"
    and r: "0 \<le> r" "r < CHUNK_BASE" by simp_all
  from eq r show "be_val 256 (map unat qs) = be_val 256 (map unat bs) div 195112"
    and "nat r = be_val 256 (map unat bs) mod 195112" by simp_all
  from r show "0 \<le> r" "r < CHUNK_BASE" .
qed

lemma be_val_dropWhile_0: "be_val b (dropWhile ((=) 0) ds) = be_val b ds"
  by (induction ds) auto

lemma map_unat_dropWhile: "map unat (dropWhile ((=) 0) (bs :: bytes)) = dropWhile ((=) 0) (map unat bs)"
  by (induction bs) (auto simp: unat_eq_0)

lemma be_val_0_dropWhile: "1 < b \<Longrightarrow> be_val b ds = 0 \<Longrightarrow> dropWhile ((=) 0) ds = []"
  by (induction ds) auto

text \<open>The outer loop: digits, least significant first, until the number is used up.\<close>

function encode_digits :: "bytes \<Rightarrow> string \<Rightarrow> string" where
  "encode_digits number digits =
     (if number = [] then digits
      else let (quotients, remainder) = divide_pass 0 number
           in encode_digits (dropWhile ((=) 0) quotients) (digits @ chunk_digits remainder))"
  by pat_completeness auto
termination
proof (relation "measures [\<lambda>(n, d). be_val 256 (map unat n), \<lambda>(n, d). length n]", simp)
  fix number digits and p :: "bytes \<times> int" and quotients remainder
  assume ne: "number \<noteq> []" and p: "p = divide_pass 0 number" "(quotients, remainder) = p"
  let ?v = "be_val 256 (map unat number)"
  from p have q: "be_val 256 (map unat quotients) = ?v div 195112"
    by (metis divide_pass_value(1))
  have v': "be_val 256 (map unat (dropWhile ((=) 0) quotients)) = ?v div 195112"
    by (simp add: map_unat_dropWhile be_val_dropWhile_0 q)
  have "?v div 195112 < ?v \<or> ?v = 0 \<and> dropWhile ((=) 0) quotients = []"
  proof (cases "?v = 0")
    case True
    then have "dropWhile ((=) 0) (map unat quotients) = []"
      using q by (intro be_val_0_dropWhile[of 256]) simp_all
    then show ?thesis using True by (simp flip: map_unat_dropWhile)
  qed simp
  then show "((dropWhile ((=) 0) quotients, digits @ chunk_digits remainder), number, digits)
      \<in> measures [\<lambda>(n, d). be_val 256 (map unat n), \<lambda>(n, d). length n]"
    using ne v' by (auto simp del: dropWhile_eq_Nil_conv)
qed

declare encode_digits.simps [simp del]

definition encode_base58btc :: "bytes \<Rightarrow> string" where
  "encode_base58btc bs =
     (let zeros = length (takeWhile ((=) 0) bs);
          digits = encode_digits (drop zeros bs) [];
          significant = rev (dropWhile ((=) CHR ''1'') (rev digits))
      in replicate zeros CHR ''1'' @ rev significant)"

section \<open>Decoding\<close>

text \<open>
  The decoder ends with the bytes, with \<open>undefined\<close> for a character outside the alphabet, or,
  if the array it multiplies in were too short, with a lost store. The last is a value of the
  model only so that it can be proved never to happen.
\<close>

datatype base58_failure = Bad_character | Array_overrun

text \<open>The value of one chunk of up to three digits.\<close>

fun chunk_value :: "int \<Rightarrow> string \<Rightarrow> base58_failure + int" where
  "chunk_value value [] = Inr value"
| "chunk_value value (c # cs) =
     (let digit = DIGIT_OF c
      in if digit < 0 then Inl Bad_character else chunk_value (value * 58 + digit) cs)"

text \<open>\<open>number[index] = accumulated & 255; carry = accumulated >>> 8\<close> over the bytes in use.\<close>

fun multiply_add :: "int \<Rightarrow> int \<Rightarrow> bytes \<Rightarrow> bytes \<times> int" where
  "multiply_add multiplier carry [] = ([], carry)"
| "multiply_add multiplier carry (b # bs) =
     (let accumulated = uint b * multiplier + carry;
          (bs', carry') = multiply_add multiplier (drop_bit 8 (uint32 accumulated)) bs
      in (word_of_int (accumulated AND 255) # bs', carry'))"

text \<open>\<open>while (carry > 0) { number[length++] = carry & 255; carry >>>= 8 }\<close>.\<close>

function push_carry :: "nat \<Rightarrow> int \<Rightarrow> bytes \<Rightarrow> base58_failure + bytes" where
  "push_carry capacity carry number =
     (if carry > 0
      then if length number < capacity
        then push_carry capacity (drop_bit 8 (uint32 carry)) (number @ [word_of_int (carry AND 255)])
        else Inl Array_overrun
      else Inr number)"
  by pat_completeness auto
termination
proof (relation "measure (\<lambda>(c, k, n). nat k)", simp)
  fix capacity :: nat and carry :: int and number :: bytes
  assume "carry > 0"
  have "drop_bit 8 (take_bit 32 carry) \<le> take_bit 32 carry div 256"
    by (simp add: drop_bit_eq_div)
  also have "take_bit 32 carry \<le> carry"
    using \<open>carry > 0\<close> by (simp add: take_bit_int_less_eq_self_iff)
  then have "take_bit 32 carry div 256 < carry" using \<open>carry > 0\<close> by auto
  finally show "((capacity, drop_bit 8 (uint32 carry), number @ [word_of_int (carry AND 255)]), capacity, carry, number)
      \<in> measure (\<lambda>(c, k, n). nat k)"
    using \<open>carry > 0\<close> by (simp add: uint32_def)
qed

declare push_carry.simps [simp del]

text \<open>The loop over the chunks; \<open>width\<close> is the width of the next one.\<close>

function decode_chunks :: "nat \<Rightarrow> nat \<Rightarrow> string \<Rightarrow> bytes \<Rightarrow> base58_failure + bytes" where
  "decode_chunks capacity width text number =
     (if text = [] \<or> width = 0 then Inr number
      else and_then (chunk_value 0 (take width text)) (\<lambda>value.
        let (number', carry) = multiply_add (58 ^ width) value number
        in and_then (push_carry capacity carry number') (\<lambda>number''.
          decode_chunks capacity 3 (drop width text) number'')))"
  by pat_completeness auto
termination
  by (relation "measure (\<lambda>(c, w, t, n). length t)") auto

declare decode_chunks.simps [simp del]

text \<open>
  \<open>Math.ceil((text.length - zeros) * 0.733) + 1\<close>. The product is never an integer unless the
  length is a multiple of 1000, and rounding in the product can only lengthen the array there,
  by one byte the decoder leaves unused.
\<close>

definition decode_capacity :: "nat \<Rightarrow> nat" where
  "decode_capacity n = (n * 733 + 999) div 1000 + 1"

definition decode_base58btc_full :: "string \<Rightarrow> base58_failure + bytes" where
  "decode_base58btc_full text =
     (let zeros = length (takeWhile ((=) CHR ''1'') text);
          rest = drop zeros text;
          capacity = decode_capacity (length rest);
          first = (if length rest mod 3 = 0 then 3 else length rest mod 3)
      in and_then (decode_chunks capacity first rest []) (\<lambda>number.
        Inr (replicate zeros 0 @ rev number)))"

definition decode_base58btc :: "string \<Rightarrow> bytes option" where
  "decode_base58btc text = (case decode_base58btc_full text of Inl _ \<Rightarrow> None | Inr bs \<Rightarrow> Some bs)"

section \<open>Digits of the alphabet\<close>

abbreviation digit :: "char \<Rightarrow> nat" where
  "digit c \<equiv> nat (DIGIT_OF c)"

lemma DIGIT_OF_ALPHABET [simp]: "i < 58 \<Longrightarrow> DIGIT_OF (ALPHABET ! i) = int i"
proof -
  assume i: "i < 58"
  have "List.find (\<lambda>j. ALPHABET ! j = ALPHABET ! i) [0..<58] = Some i"
    using i ALPHABET_distinct
    by (auto simp: find_Some_iff nth_eq_iff_index_eq intro!: exI[of _ i])
  then show ?thesis by (simp add: DIGIT_OF_def)
qed

lemma DIGIT_OF_cases:
  "c \<in> set ALPHABET \<and> 0 \<le> DIGIT_OF c \<and> DIGIT_OF c < 58 \<and> ALPHABET ! digit c = c \<or>
   c \<notin> set ALPHABET \<and> DIGIT_OF c = -1"
proof (cases "c \<in> set ALPHABET")
  case True
  then obtain i where "i < 58" "c = ALPHABET ! i" by (auto simp: in_set_conv_nth)
  with True show ?thesis by simp
next
  case False
  then have "List.find (\<lambda>i. ALPHABET ! i = c) [0..<length ALPHABET] = None"
    by (auto simp: find_None_iff)
  then show ?thesis using False by (simp add: DIGIT_OF_def)
qed

lemma digit_bound: "c \<in> set ALPHABET \<Longrightarrow> digit c < 58"
  using DIGIT_OF_cases[of c] by auto

lemma digit_inj: "c \<in> set ALPHABET \<Longrightarrow> d \<in> set ALPHABET \<Longrightarrow> digit c = digit d \<Longrightarrow> c = d"
  using DIGIT_OF_cases[of c] DIGIT_OF_cases[of d] by metis

lemma digit_ALPHABET [simp]: "i < 58 \<Longrightarrow> digit (ALPHABET ! i) = i"
  by simp

lemma ALPHABET_nth_in [simp]: "i < 58 \<Longrightarrow> ALPHABET ! i \<in> set ALPHABET"
  by simp

lemma DIGIT_OF_1 [simp]: "DIGIT_OF CHR ''1'' = 0"
  using DIGIT_OF_ALPHABET[of 0] by (simp add: ALPHABET_def)

lemma digit_0_iff: "c \<in> set ALPHABET \<Longrightarrow> digit c = 0 \<longleftrightarrow> c = CHR ''1''"
  using digit_inj[of c "CHR ''1''"] ALPHABET_nth_in[of 0] by (auto simp: ALPHABET_def)

lemma map_digit_inj:
  "set xs \<subseteq> set ALPHABET \<Longrightarrow> set ys \<subseteq> set ALPHABET \<Longrightarrow> map digit xs = map digit ys \<Longrightarrow> xs = ys"
  by (intro map_inj_on[of digit]) (auto intro!: inj_onI digit_inj)

section \<open>What the encoder writes\<close>

lemma chunk_digits_value:
  assumes "0 \<le> r" "r < CHUNK_BASE"
  shows "set (chunk_digits r) \<subseteq> set ALPHABET"
    and "length (chunk_digits r) = 3"
    and "be_val 58 (map digit (rev (chunk_digits r))) = nat r"
proof -
  obtain a b c where abc: "r mod 58 = int a" "r div 58 mod 58 = int b" "r div 3364 = int c"
    and rng: "a < 58" "b < 58" "c < 58"
  proof
    show "r mod 58 = int (nat (r mod 58))" "r div 58 mod 58 = int (nat (r div 58 mod 58))"
      "r div 3364 = int (nat (r div 3364))" using assms(1) by simp_all
    show "nat (r mod 58) < 58" "nat (r div 58 mod 58) < 58" "nat (r div 3364) < 58"
      using assms by (simp_all add: nat_less_iff)
  qed
  have eq: "chunk_digits r = [ALPHABET ! a, ALPHABET ! b, ALPHABET ! c]"
    using assms rng by (simp add: chunk_digits_def sdiv_nonneg int32_id abc)
  show "set (chunk_digits r) \<subseteq> set ALPHABET" "length (chunk_digits r) = 3"
    using rng by (simp_all add: eq)
  have "r div 3364 = r div 58 div 58" using zdiv_zmult2_eq[of 58 r 58] by simp
  then have "r div 58 = int c * 58 + int b" "r = r div 58 * 58 + int a"
    using div_mult_mod_eq[of "r div 58" 58] div_mult_mod_eq[of r 58] abc by metis+
  then have "r = int (c * 3364 + b * 58 + a)" by simp
  then have "nat r = c * 3364 + b * 58 + a" by (simp only: nat_int)
  then show "be_val 58 (map digit (rev (chunk_digits r))) = nat r"
    using rng by (simp add: eq)
qed

lemma encode_digits_value:
  "\<exists>es. encode_digits number digits = digits @ es \<and> set es \<subseteq> set ALPHABET \<and>
     be_val 58 (map digit (rev es)) = be_val 256 (map unat number)"
proof (induction number digits rule: encode_digits.induct)
  case (1 number digits)
  show ?case
  proof (cases "number = []")
    case True
    then show ?thesis by (simp add: encode_digits.simps)
  next
    case False
    obtain qs r where p: "divide_pass 0 number = (qs, r)" by fastforce
    note v = divide_pass_value[OF p]
    note c = chunk_digits_value[OF v(3,4)]
    from 1[OF False p[symmetric] refl] obtain es where es:
      "encode_digits (dropWhile ((=) 0) qs) (digits @ chunk_digits r) = (digits @ chunk_digits r) @ es"
      "set es \<subseteq> set ALPHABET"
      "be_val 58 (map digit (rev es)) = be_val 256 (map unat (dropWhile ((=) 0) qs))" by blast
    have "be_val 58 (map digit (rev (chunk_digits r @ es))) = be_val 256 (map unat number)"
      using c(2,3) v(1,2)
      by (simp add: be_val_append es(3) map_unat_dropWhile be_val_dropWhile_0)
    then show ?thesis
      using False p es(1,2) c(1) by (auto simp: encode_digits.simps[of number digits])
  qed
qed

lemma be_val_digit_dropWhile:
  "set cs \<subseteq> set ALPHABET \<Longrightarrow>
   be_val 58 (map digit (dropWhile ((=) CHR ''1'') cs)) = be_val 58 (map digit cs)"
  by (induction cs) (auto simp: digit_0_iff)

lemma takeWhile_0: "takeWhile ((=) (0::byte)) bs = replicate (length (takeWhile ((=) 0) bs)) 0"
  by (induction bs) auto

lemma takeWhile_1: "takeWhile ((=) CHR ''1'') t = replicate (length (takeWhile ((=) CHR ''1'') t)) CHR ''1''"
  by (induction t) auto

lemma encode_base58btc_spelling:
  defines "zeros bs \<equiv> length (takeWhile ((=) (0::byte)) bs)"
  shows "\<exists>ds. encode_base58btc bs = replicate (zeros bs) CHR ''1'' @ ds \<and> set ds \<subseteq> set ALPHABET \<and>
     (ds = [] \<or> hd ds \<noteq> CHR ''1'') \<and>
     be_val 58 (map digit ds) = be_val 256 (map unat (drop (zeros bs) bs))"
proof -
  obtain es where es: "encode_digits (drop (zeros bs) bs) [] = es" "set es \<subseteq> set ALPHABET"
    "be_val 58 (map digit (rev es)) = be_val 256 (map unat (drop (zeros bs) bs))"
    using encode_digits_value[of "drop (zeros bs) bs" "[]"] by auto
  let ?ds = "dropWhile ((=) CHR ''1'') (rev es)"
  have "encode_base58btc bs = replicate (zeros bs) CHR ''1'' @ ?ds"
    by (simp add: encode_base58btc_def zeros_def[symmetric] es(1))
  moreover have "set ?ds \<subseteq> set ALPHABET" using es(2) set_dropWhileD by fastforce
  moreover have "?ds = [] \<or> hd ?ds \<noteq> CHR ''1''" using hd_dropWhile[of "(=) CHR ''1''" "rev es"] by metis
  moreover have "be_val 58 (map digit ?ds) = be_val 256 (map unat (drop (zeros bs) bs))"
    using es(2,3) by (simp add: be_val_digit_dropWhile)
  ultimately show ?thesis by blast
qed

lemma encode_base58btc_length: "length (encode_base58btc bs) \<le> 8 * length bs"
proof -
  define z where "z = length (takeWhile ((=) (0::byte)) bs)"
  obtain ds where ds: "encode_base58btc bs = replicate z CHR ''1'' @ ds" "set ds \<subseteq> set ALPHABET" "ds = [] \<or> hd ds \<noteq> CHR ''1''"
    "be_val 58 (map digit ds) = be_val 256 (map unat (drop z bs))"
    using encode_base58btc_spelling[of bs] unfolding z_def by blast
  have z: "z \<le> length bs" unfolding z_def by (rule length_takeWhile_le)
  have "length ds \<le> 8 * length (drop z bs)"
  proof (cases "ds = []")
    case False
    then have "hd (map digit ds) \<noteq> 0" using ds(2,3) digit_0_iff by (cases ds) auto
    have "(2::nat) ^ (length ds - 1) \<le> 58 ^ (length ds - 1)" by (rule power_mono) simp_all
    also have "\<dots> \<le> be_val 58 (map digit ds)" using be_val_ge[of "map digit ds" 58] False \<open>hd (map digit ds) \<noteq> 0\<close> by simp
    also have "\<dots> < 256 ^ length (drop z bs)" unfolding ds(4) by (rule be_val_map_unat_bound)
    also have "\<dots> = (2::nat) ^ (8 * length (drop z bs))" by (simp add: power_mult)
    finally have "length ds - 1 < 8 * length (drop z bs)" by simp
    then show ?thesis by simp
  qed simp
  then show ?thesis using z by (simp add: ds(1))
qed

section \<open>What the decoder computes\<close>

lemma chunk_value_eq:
  "chunk_value v cs =
     (if set cs \<subseteq> set ALPHABET
      then Inr (v * 58 ^ length cs + int (be_val 58 (map digit cs))) else Inl Bad_character)"
proof (induction cs arbitrary: v)
  case (Cons c cs)
  then show ?case using DIGIT_OF_cases[of c] by (auto simp: Let_def algebra_simps)
qed simp

text \<open>The number held by the array, which stores its least significant byte first.\<close>

abbreviation le_val :: "bytes \<Rightarrow> nat" where
  "le_val bs \<equiv> be_val 256 (map unat (rev bs))"

lemma le_val_bound: "le_val bs < 256 ^ length bs"
  using be_val_map_unat_bound[of "rev bs"] by simp

lemma and_255: "(x :: int) AND 255 = x mod 256"
  using take_bit_eq_mask[of 8 x] by (simp add: mask_eq_exp_minus_1 take_bit_eq_mod)

text \<open>\<open>accumulated\<close> fits in 32 bits at every step, so \<open>&\<close> and \<open>>>>\<close> lose nothing.\<close>

lemma multiply_step:
  fixes b :: byte
  assumes "0 \<le> carry" "carry < multiplier" "multiplier \<le> CHUNK_BASE"
  defines "acc \<equiv> uint b * multiplier + carry"
  shows "0 \<le> acc" and "acc < 2 ^ 26" and "drop_bit 8 (uint32 acc) = acc div 256"
    and "acc AND 255 = acc mod 256" and "acc div 256 < multiplier"
proof -
  have b: "0 \<le> uint b" "uint b \<le> 255" using uint_lt2p[of b] by simp_all
  have le: "uint b * multiplier \<le> 255 * multiplier"
    using b assms(1,2) by (intro mult_right_mono) simp_all
  show nn: "0 \<le> acc" using b assms(1,2) by (simp add: acc_def)
  from le assms(2) have lt: "acc < 256 * multiplier" by (simp add: acc_def)
  then show bound: "acc < 2 ^ 26" using assms(3) by simp
  from nn bound have "uint32 acc = acc" by (simp add: uint32_def take_bit_int_eq_self)
  then show "drop_bit 8 (uint32 acc) = acc div 256" by (simp add: drop_bit_eq_div)
  show "acc AND 255 = acc mod 256" by (rule and_255)
  from lt show "acc div 256 < multiplier" by simp
qed

lemma multiply_add_value:
  assumes "0 \<le> carry" "carry < multiplier" "multiplier \<le> CHUNK_BASE"
    and "multiply_add multiplier carry bs = (bs', carry')"
  shows "length bs' = length bs \<and> 0 \<le> carry' \<and> carry' < multiplier \<and>
    le_val bs' + nat carry' * 256 ^ length bs = le_val bs * nat multiplier + nat carry"
  using assms
proof (induction bs arbitrary: carry bs')
  case (Cons b bs)
  define acc where "acc = uint b * multiplier + carry"
  note step = multiply_step[OF Cons.prems(1-3), of b, folded acc_def]
  obtain bs'' where rec: "multiply_add multiplier (acc div 256) bs = (bs'', carry')"
    and bs': "bs' = word_of_int (acc mod 256) # bs''"
    using Cons.prems(4) step(3,4) by (auto simp: Let_def acc_def[symmetric] split: prod.splits)
  have IH: "length bs'' = length bs \<and> 0 \<le> carry' \<and> carry' < multiplier \<and>
    le_val bs'' + nat carry' * 256 ^ length bs = le_val bs * nat multiplier + nat (acc div 256)"
    using step by (intro Cons.IH[OF _ _ Cons.prems(3) rec]) simp_all
  have low: "unat (word_of_int (acc mod 256) :: byte) = nat (acc mod 256)"
    by (rule unat_word_of_int_byte) simp_all
  have acc: "nat (acc div 256) * 256 + nat (acc mod 256) = unat b * nat multiplier + nat carry"
  proof -
    have "int (nat (acc div 256) * 256 + nat (acc mod 256)) = int (unat b * nat multiplier + nat carry)"
      using step(1) Cons.prems(1,2) by (simp add: acc_def)
    then show ?thesis by (simp only: of_nat_eq_iff)
  qed
  have "le_val bs' + nat carry' * 256 ^ length (b # bs) =
      (le_val bs'' + nat carry' * 256 ^ length bs) * 256 + nat (acc mod 256)"
    by (simp add: bs' low algebra_simps)
  also have "\<dots> = le_val bs * nat multiplier * 256 + (nat (acc div 256) * 256 + nat (acc mod 256))"
    using IH by (simp add: algebra_simps)
  also have "\<dots> = le_val (b # bs) * nat multiplier + nat carry"
    by (simp only: acc) (simp add: algebra_simps)
  finally show ?case using IH bs' by simp
qed simp

lemma push_carry_value:
  assumes "0 \<le> carry" "carry < 2 ^ 32"
    and "le_val number + nat carry * 256 ^ length number < 256 ^ capacity"
  shows "\<exists>extra. push_carry capacity carry number = Inr (number @ extra) \<and>
    (extra \<noteq> [] \<longrightarrow> last extra \<noteq> 0) \<and> (extra = [] \<longleftrightarrow> carry = 0) \<and>
    le_val (number @ extra) = le_val number + nat carry * 256 ^ length number"
  using assms
proof (induction capacity carry number rule: push_carry.induct)
  case (1 capacity carry number)
  show ?case
  proof (cases "carry > 0")
    case True
    let ?b = "word_of_int (carry AND 255) :: byte" and ?c = "carry div 256"
    have shift: "drop_bit 8 (uint32 carry) = ?c"
      using "1.prems"(1,2) by (simp add: uint32_def take_bit_int_eq_self drop_bit_eq_div)
    have mask: "carry AND 255 = carry mod 256" by (rule and_255)
    have b: "unat ?b = nat (carry mod 256)"
      unfolding mask by (rule unat_word_of_int_byte) simp_all
    have carry: "nat carry = nat ?c * 256 + nat (carry mod 256)"
      using "1.prems"(1) by (simp add: nat_div_distrib nat_mod_distrib)
    have len: "length number < capacity"
    proof (rule ccontr)
      assume "\<not> length number < capacity"
      then have "(256::nat) ^ capacity \<le> 256 ^ length number" by (simp add: power_increasing)
      also have "\<dots> \<le> nat carry * 256 ^ length number" using True by simp
      finally show False using "1.prems"(3) by simp
    qed
    have val: "le_val (number @ [?b]) + nat ?c * 256 ^ length (number @ [?b]) =
        le_val number + nat carry * 256 ^ length number"
      by (simp add: b carry algebra_simps)
    have less: "le_val (number @ [?b]) + nat ?c * 256 ^ length (number @ [?b]) < 256 ^ capacity"
      unfolding val by (rule "1.prems"(3))
    obtain extra where extra:
      "push_carry capacity ?c (number @ [?b]) = Inr ((number @ [?b]) @ extra)"
      "extra \<noteq> [] \<longrightarrow> last extra \<noteq> 0" "extra = [] \<longleftrightarrow> ?c = 0"
      "le_val ((number @ [?b]) @ extra) = le_val (number @ [?b]) + nat ?c * 256 ^ length (number @ [?b])"
      using "1.IH"[OF True len, unfolded shift, OF _ _ less] True "1.prems"(2) by fastforce
    have "last ([?b] @ extra) \<noteq> 0"
    proof (cases "extra = []")
      case True
      with extra(3) have "?c = 0" by simp
      with \<open>carry > 0\<close> carry b have "unat ?b \<noteq> 0" by simp
      with True show ?thesis by (auto simp: unat_eq_0)
    qed (use extra(2) in simp)
    moreover have "push_carry capacity carry number = Inr (number @ [?b] @ extra)"
      using True len extra(1) by (subst push_carry.simps) (simp add: shift)
    ultimately show ?thesis
      using extra(4) val True by (intro exI[of _ "[?b] @ extra"]) simp
  next
    case False
    with "1.prems"(1) show ?thesis by (simp add: push_carry.simps)
  qed
qed

section \<open>The array is long enough\<close>

lemma power_58_256: "(58::nat) ^ 71 \<le> 256 ^ 52"
  by simp

lemma decode_capacity_enough: "(58::nat) ^ n < 256 ^ decode_capacity n"
proof -
  let ?k = "(n * 733 + 999) div 1000"
  have "n * 733 + 999 < 1000 + 1000 * ?k" by (rule dividend_less_times_div) simp
  moreover have "n * 733 + 999 < 1000 + 1000 * k \<Longrightarrow> 52 * n \<le> 71 * k" for k by linarith
  ultimately have k: "52 * n \<le> 71 * ?k" by blast
  have "((58::nat) ^ n) ^ 71 = (58 ^ 71) ^ n" by (metis power_mult mult.commute)
  also have "\<dots> \<le> (256 ^ 52) ^ n" using power_58_256 by (rule power_mono) (rule zero_le)
  also have "\<dots> = 256 ^ (52 * n)" by (rule power_mult[symmetric])
  also have "\<dots> \<le> 256 ^ (71 * ?k)" using k by (rule power_increasing) simp
  also have "\<dots> = (256 ^ ?k) ^ 71" by (metis power_mult mult.commute)
  finally have "((58::nat) ^ n) ^ Suc 70 \<le> (256 ^ ?k) ^ Suc 70" by simp
  then have "(58::nat) ^ n \<le> 256 ^ ?k" by (rule power_le_imp_le_base) (rule zero_le)
  also have "\<dots> < 256 ^ decode_capacity n"
    by (rule power_strict_increasing) (simp_all add: decode_capacity_def)
  finally show ?thesis .
qed

lemma le_val_ge_iff: "xs \<noteq> [] \<Longrightarrow> last xs = 0 \<Longrightarrow> le_val xs < 256 ^ (length xs - 1)"
proof (induction xs rule: rev_induct)
  case (snoc x xs)
  then show ?case using le_val_bound[of xs] by simp
qed simp

lemma le_val_last: "xs \<noteq> [] \<Longrightarrow> last xs \<noteq> 0 \<Longrightarrow> 256 ^ (length xs - 1) \<le> le_val xs"
  using be_val_ge[of "map unat (rev xs)" 256] by (simp add: hd_map hd_rev unat_eq_0)

text \<open>
  The chunk loop, on a text in the alphabet whose length agrees with the chunk widths, evaluates
  the text in base 58, ends with a significant top byte, and never runs past the array.
\<close>

lemma decode_chunks_value:
  assumes "set cs \<subseteq> set ALPHABET" "width \<in> {1, 2, 3}" "cs \<noteq> [] \<Longrightarrow> width \<le> length cs"
    and "cs \<noteq> [] \<Longrightarrow> 3 dvd length cs - width"
    and "number = [] \<or> last number \<noteq> 0"
    and "le_val number * 58 ^ length cs + be_val 58 (map digit cs) < 256 ^ capacity"
  shows "\<exists>bs. decode_chunks capacity width cs number = Inr bs \<and> (bs = [] \<or> last bs \<noteq> 0) \<and>
    le_val bs = le_val number * 58 ^ length cs + be_val 58 (map digit cs)"
  using assms
proof (induction capacity width cs number rule: decode_chunks.induct)
  case (1 capacity width cs number)
  show ?case
  proof (cases "cs = []")
    case True
    with "1.prems" show ?thesis by (simp add: decode_chunks.simps)
  next
    case False
    let ?chunk = "take width cs" and ?rest = "drop width cs" and ?m = "58 ^ width :: int"
    let ?v = "be_val 58 (map digit ?chunk)"
    have len: "length ?chunk = width" using False "1.prems"(3) by simp
    have chunk: "set ?chunk \<subseteq> set ALPHABET" "set ?rest \<subseteq> set ALPHABET"
      using "1.prems"(1) set_take_subset set_drop_subset by fastforce+
    have chunk_val: "chunk_value 0 ?chunk = Inr (int ?v)" using chunk by (simp add: chunk_value_eq)
    have m: "?m \<le> CHUNK_BASE" "nat ?m = 58 ^ width" using "1.prems"(2) by auto
    have "?v < 58 ^ length ?chunk"
      using chunk digit_bound be_val_bound[of "map digit ?chunk" 58] by auto
    then have v: "int ?v < ?m" using len by simp
    obtain number' carry where ma: "multiply_add ?m (int ?v) number = (number', carry)" by fastforce
    note mv = multiply_add_value[OF _ v m(1) ma, simplified]
    have total: "le_val number * 58 ^ length cs + be_val 58 (map digit cs) =
        (le_val number * 58 ^ width + ?v) * 58 ^ length ?rest + be_val 58 (map digit ?rest)"
    proof -
      have "be_val 58 (map digit cs) = ?v * 58 ^ length ?rest + be_val 58 (map digit ?rest)"
        by (metis append_take_drop_id map_append be_val_append length_map)
      moreover have "(58::nat) ^ length cs = 58 ^ width * 58 ^ length ?rest"
        using False "1.prems"(3) by (simp flip: power_add)
      ultimately show ?thesis by (simp only: distrib_right mult.assoc add.assoc)
    qed
    have grown: "le_val number' + nat carry * 256 ^ length number' = le_val number * 58 ^ width + ?v"
      using mv m(2) by simp
    have "le_val number * 58 ^ width + ?v \<le> (le_val number * 58 ^ width + ?v) * 58 ^ length ?rest"
      by simp
    then have fits: "le_val number' + nat carry * 256 ^ length number' < 256 ^ capacity"
      using grown total "1.prems"(6) by linarith
    obtain extra where ex: "push_carry capacity carry number' = Inr (number' @ extra)"
      "extra \<noteq> [] \<longrightarrow> last extra \<noteq> 0" "extra = [] \<longleftrightarrow> carry = 0"
      "le_val (number' @ extra) = le_val number * 58 ^ width + ?v"
      using push_carry_value[OF _ _ fits] mv m(1) grown by fastforce
    have top: "number' @ extra = [] \<or> last (number' @ extra) \<noteq> 0"
    proof (cases "extra = [] \<and> number' \<noteq> []")
      case True
      then have "256 ^ (length number - 1) \<le> le_val number"
        using mv "1.prems"(5) le_val_last by (metis length_0_conv)
      also have "\<dots> \<le> le_val number * 58 ^ width + ?v" by (rule trans_le_add1) simp
      finally show ?thesis using True ex(4) mv le_val_ge_iff[of number'] by auto
    qed (use ex(2) in auto)
    have "\<exists>bs. decode_chunks capacity 3 ?rest (number' @ extra) = Inr bs \<and> (bs = [] \<or> last bs \<noteq> 0) \<and>
      le_val bs = le_val (number' @ extra) * 58 ^ length ?rest + be_val 58 (map digit ?rest)"
    proof (rule "1.IH"[OF _ chunk_val ma[symmetric] refl ex(1)])
      show "\<not> (cs = [] \<or> width = 0)" using False "1.prems"(2) by auto
      show "3 \<le> length ?rest" if "?rest \<noteq> []"
        using that "1.prems"(4) False by (simp add: dvd_imp_le)
      then show "3 dvd length ?rest - 3" if "?rest \<noteq> []"
        using that "1.prems"(4) False dvd_diff_nat[of 3 "length ?rest" 3] by simp
    qed (use chunk top "1.prems"(6) total ex(4) in simp_all)
    then obtain bs where "decode_chunks capacity 3 ?rest (number' @ extra) = Inr bs"
      "bs = [] \<or> last bs \<noteq> 0"
      "le_val bs = le_val number * 58 ^ length cs + be_val 58 (map digit cs)"
      using ex(4) total by metis
    moreover have "decode_chunks capacity width cs number =
        decode_chunks capacity 3 ?rest (number' @ extra)"
      using False "1.prems"(2) chunk_val ma ex(1) by (subst decode_chunks.simps) auto
    ultimately show ?thesis by metis
  qed
qed

lemma first_width:
  fixes n :: nat
  defines "w \<equiv> if n mod 3 = 0 then 3 else n mod 3"
  shows "w \<in> {1, 2, 3}" and "n \<noteq> 0 \<Longrightarrow> w \<le> n" and "n \<noteq> 0 \<Longrightarrow> 3 dvd n - w"
proof -
  have "n mod 3 < 3" by simp
  then show "w \<in> {1, 2, 3}" by (auto simp: w_def)
  show "w \<le> n" if "n \<noteq> 0" using that by (auto simp: w_def intro: dvd_imp_le)
  show "3 dvd n - w" if "n \<noteq> 0" by (auto simp: w_def intro: dvd_minus_mod dvd_diff_nat)
qed

lemma decode_base58btc_full_value:
  assumes "set text \<subseteq> set ALPHABET"
  defines "zeros \<equiv> length (takeWhile ((=) CHR ''1'') text)"
  shows "\<exists>bs. decode_base58btc_full text = Inr (replicate zeros 0 @ bs) \<and> (bs = [] \<or> hd bs \<noteq> 0) \<and>
    be_val 256 (map unat bs) = be_val 58 (map digit (drop zeros text))"
proof -
  let ?rest = "drop zeros text" and ?n = "length (drop zeros text)"
  let ?w = "if ?n mod 3 = 0 then 3 else ?n mod 3"
  have rest: "set ?rest \<subseteq> set ALPHABET" using assms(1) set_drop_subset by fastforce
  have "be_val 58 (map digit ?rest) < 58 ^ ?n"
    using rest digit_bound be_val_bound[of "map digit ?rest" 58] by auto
  also have "\<dots> < 256 ^ decode_capacity ?n" by (rule decode_capacity_enough)
  finally have fits: "le_val [] * 58 ^ ?n + be_val 58 (map digit ?rest) < 256 ^ decode_capacity ?n"
    by simp
  obtain bs where "decode_chunks (decode_capacity ?n) ?w ?rest [] = Inr bs" "bs = [] \<or> last bs \<noteq> 0"
    "le_val bs = be_val 58 (map digit ?rest)"
    using decode_chunks_value[OF rest first_width(1)[of ?n] _ _ _ fits] first_width(2,3)[of ?n]
    by auto
  then show ?thesis
    by (intro exI[of _ "rev bs"])
      (auto simp: decode_base58btc_full_def zeros_def[symmetric] Let_def hd_rev)
qed

text \<open>A character outside the alphabet is found in whichever chunk holds it.\<close>

lemma decode_chunks_bad:
  assumes "\<not> set cs \<subseteq> set ALPHABET" "width \<in> {1, 2, 3}" "width \<le> length cs"
    and "3 dvd length cs - width" "number = [] \<or> last number \<noteq> 0"
    and "le_val number < 58 ^ k" "58 ^ (k + length cs) \<le> (256::nat) ^ capacity"
  shows "decode_chunks capacity width cs number = Inl Bad_character"
  using assms
proof (induction cs arbitrary: width number k rule: length_induct)
  case (1 cs)
  let ?chunk = "take width cs" and ?rest = "drop width cs"
  have cs: "cs \<noteq> []" "width \<noteq> 0" using "1.prems"(1,2) by auto
  show ?case
  proof (cases "set ?chunk \<subseteq> set ALPHABET")
    case False
    then show ?thesis using cs by (subst decode_chunks.simps) (simp add: chunk_value_eq)
  next
    case True
    let ?v = "be_val 58 (map digit ?chunk)"
    have bad: "\<not> set ?rest \<subseteq> set ALPHABET"
      using True "1.prems"(1) by (metis append_take_drop_id set_append Un_least)
    have "?v < 58 ^ length ?chunk"
      using True digit_bound be_val_bound[of "map digit ?chunk" 58] by auto
    then have v: "?v < 58 ^ width" using "1.prems"(3) by simp
    have "le_val number + 1 \<le> 58 ^ k" using "1.prems"(6) by simp
    then have "(le_val number + 1) * 58 ^ width \<le> 58 ^ k * 58 ^ width" by (rule mult_le_mono1)
    with v have lt: "le_val number * 58 ^ width + ?v < 58 ^ (k + width)" by (simp add: power_add)
    note lt
    also have "(58::nat) ^ (k + width) \<le> 58 ^ (k + length cs)"
      using "1.prems"(3) by (intro power_increasing) simp_all
    also note "1.prems"(7)
    finally have fits: "le_val number * 58 ^ length ?chunk + ?v < 256 ^ capacity"
      using "1.prems"(3) by simp
    obtain bs where bs: "decode_chunks capacity width ?chunk number = Inr bs" "bs = [] \<or> last bs \<noteq> 0"
      "le_val bs = le_val number * 58 ^ width + ?v"
      using decode_chunks_value[OF True "1.prems"(2) _ _ "1.prems"(5) fits] "1.prems"(3) by auto
    obtain number' carry where ma: "multiply_add (58 ^ width) (int ?v) number = (number', carry)"
      by fastforce
    have chunk: "chunk_value 0 ?chunk = Inr (int ?v)" using True by (simp add: chunk_value_eq)
    with bs(1) ma have "push_carry capacity carry number' = Inr bs"
      using cs "1.prems"(3)
      by (subst (asm) decode_chunks.simps) (auto simp: result_simps decode_chunks.simps[of _ _ "[]"])
    then have step: "decode_chunks capacity width cs number = decode_chunks capacity 3 ?rest bs"
      using cs ma chunk by (subst decode_chunks.simps) simp
    have three: "?rest \<noteq> []" using bad by auto
    have "decode_chunks capacity 3 ?rest bs = Inl Bad_character"
    proof (rule "1.IH"[rule_format])
      show "length ?rest < length cs" using cs by simp
      show "3 \<le> length ?rest" using three "1.prems"(4) by (simp add: dvd_imp_le)
      then show "3 dvd length ?rest - 3"
        using "1.prems"(4) dvd_diff_nat[of 3 "length ?rest" 3] by simp
      show "le_val bs < 58 ^ (k + width)" using bs(3) lt by simp
      show "58 ^ (k + width + length ?rest) \<le> (256::nat) ^ capacity"
        using "1.prems"(3,7) by (simp add: add.assoc)
    qed (use bad bs(2) in simp_all)
    then show ?thesis by (simp add: step)
  qed
qed

lemma decode_base58btc_full_bad:
  assumes "\<not> set s \<subseteq> set ALPHABET"
  shows "decode_base58btc_full s = Inl Bad_character"
proof -
  let ?zeros = "length (takeWhile ((=) CHR ''1'') s)"
  let ?rest = "drop ?zeros s" and ?n = "length (drop (length (takeWhile ((=) CHR ''1'') s)) s)"
  have "CHR ''1'' \<in> set ALPHABET" by (simp add: ALPHABET_def)
  then have "set (take ?zeros s) \<subseteq> set ALPHABET"
    using takeWhile_eq_take[of "(=) CHR ''1''" s] by (auto dest: set_takeWhileD)
  then have bad: "\<not> set ?rest \<subseteq> set ALPHABET"
    using assms by (metis append_take_drop_id set_append Un_least)
  then have "?rest \<noteq> []" by auto
  moreover have "58 ^ (0 + ?n) \<le> (256::nat) ^ decode_capacity ?n"
    using decode_capacity_enough[of ?n] by simp
  ultimately have "decode_chunks (decode_capacity ?n) (if ?n mod 3 = 0 then 3 else ?n mod 3) ?rest [] =
      Inl Bad_character"
    using first_width[of ?n] by (intro decode_chunks_bad[OF bad, where k = 0]) auto
  then show ?thesis by (simp add: decode_base58btc_full_def Let_def)
qed

section \<open>The codec\<close>

lemma takeWhile_replicate_append:
  "ds = [] \<or> hd ds \<noteq> a \<Longrightarrow> takeWhile ((=) a) (replicate n a @ ds) = replicate n a"
  by (induction n) (cases ds, auto)

lemma zeros_split: "bs = replicate (length (takeWhile ((=) (0::byte)) bs)) 0 @ dropWhile ((=) 0) bs"
  by (metis takeWhile_0 takeWhile_dropWhile_id)

lemma drop_zeros: "drop (length (takeWhile P xs)) xs = dropWhile P xs"
  by (simp add: dropWhile_eq_drop)

lemma decode_encode: "decode_base58btc (encode_base58btc bs) = Some bs"
proof -
  let ?z = "length (takeWhile ((=) (0::byte)) bs)"
  obtain ds where ds: "encode_base58btc bs = replicate ?z CHR ''1'' @ ds" "set ds \<subseteq> set ALPHABET"
    "ds = [] \<or> hd ds \<noteq> CHR ''1''"
    "be_val 58 (map digit ds) = be_val 256 (map unat (dropWhile ((=) 0) bs))"
    using encode_base58btc_spelling[of bs] by (auto simp: drop_zeros)
  have tw: "takeWhile ((=) CHR ''1'') (encode_base58btc bs) = replicate ?z CHR ''1''"
    unfolding ds(1) by (rule takeWhile_replicate_append[OF ds(3)])
  have alpha: "set (encode_base58btc bs) \<subseteq> set ALPHABET"
    using ds(1,2) ALPHABET_nth_in[of 0] by (auto simp: ALPHABET_def)
  obtain ns where ns: "decode_base58btc_full (encode_base58btc bs) = Inr (replicate ?z 0 @ ns)"
    "ns = [] \<or> hd ns \<noteq> 0" "be_val 256 (map unat ns) = be_val 58 (map digit ds)"
    using decode_base58btc_full_value[OF alpha] unfolding tw by (auto simp: ds(1))
  have "map unat ns = map unat (dropWhile ((=) 0) bs)"
  proof (rule be_val_inj[of _ 256])
    show "map unat ns = [] \<or> hd (map unat ns) \<noteq> 0"
      using ns(2) by (cases ns) (auto simp: unat_eq_0)
    show "map unat (dropWhile ((=) 0) bs) = [] \<or> hd (map unat (dropWhile ((=) 0) bs)) \<noteq> 0"
      using hd_dropWhile[of "(=) 0" bs] by (cases "dropWhile ((=) 0) bs") (auto simp: unat_eq_0)
  qed (use ns(3) ds(4) in auto)
  then have "ns = dropWhile ((=) 0) bs" by (simp only: map_unat_inj)
  then show ?thesis using ns(1) zeros_split[of bs] by (simp add: decode_base58btc_def)
qed

lemma encode_decode:
  assumes "decode_base58btc s = Some bs"
  shows "encode_base58btc bs = s"
proof -
  let ?z = "length (takeWhile ((=) CHR ''1'') s)"
  let ?rest = "dropWhile ((=) CHR ''1'') s"
  from assms have alpha: "set s \<subseteq> set ALPHABET"
    using decode_base58btc_full_bad[of s] by (auto simp: decode_base58btc_def split: sum.splits)
  obtain ns where ns: "bs = replicate ?z 0 @ ns" "ns = [] \<or> hd ns \<noteq> 0"
    "be_val 256 (map unat ns) = be_val 58 (map digit ?rest)"
    using decode_base58btc_full_value[OF alpha] assms
    by (auto simp: decode_base58btc_def drop_zeros split: sum.splits)
  have tw: "takeWhile ((=) 0) bs = replicate ?z 0"
    unfolding ns(1) by (rule takeWhile_replicate_append[OF ns(2)])
  obtain ds where ds: "encode_base58btc bs = replicate ?z CHR ''1'' @ ds" "set ds \<subseteq> set ALPHABET"
    "ds = [] \<or> hd ds \<noteq> CHR ''1''" "be_val 58 (map digit ds) = be_val 256 (map unat ns)"
    using encode_base58btc_spelling[of bs] unfolding tw by (auto simp: ns(1))
  have rest: "set ?rest \<subseteq> set ALPHABET" using alpha by (auto dest: set_dropWhileD)
  have top: "hd (map digit xs) \<noteq> 0" if "xs \<noteq> []" "hd xs \<noteq> CHR ''1''" "set xs \<subseteq> set ALPHABET" for xs
    using that digit_0_iff[of "hd xs"] by (cases xs) auto
  have "map digit ds = map digit ?rest"
  proof (rule be_val_inj[of _ 58])
    show "map digit ds = [] \<or> hd (map digit ds) \<noteq> 0"
      using ds(2,3) top[of ds] by (metis list.map_disc_iff)
    show "map digit ?rest = [] \<or> hd (map digit ?rest) \<noteq> 0"
      using hd_dropWhile[of "(=) CHR ''1''" s] rest top[of ?rest] by (metis list.map_disc_iff)
  qed (use ds(2,4) rest ns(3) digit_bound in auto)
  then have "ds = ?rest" using ds(2) rest by (blast intro: map_digit_inj)
  then show ?thesis using ds(1) by (metis takeWhile_1 takeWhile_dropWhile_id)
qed

lemma decode_base58btc_Some_iff: "decode_base58btc s = Some bs \<longleftrightarrow> s = encode_base58btc bs"
  using decode_encode encode_decode by auto

lemma encode_base58btc_inj [simp]: "encode_base58btc a = encode_base58btc b \<longleftrightarrow> a = b"
  by (metis decode_encode option.inject)

lemma decode_base58btc_None_iff: "decode_base58btc s = None \<longleftrightarrow> \<not> set s \<subseteq> set ALPHABET"
  using decode_base58btc_full_value[of s] decode_base58btc_full_bad[of s]
  by (cases "set s \<subseteq> set ALPHABET") (auto simp: decode_base58btc_def)

section \<open>Properties\<close>

text \<open>C24: The encoding is base58btc and the decoder its inverse. A byte string is spelled as one \<open>1\<close> per leading zero
  byte followed by the base-58 numeral of its big-endian value, most significant digit first, with no
  leading zero digit, in the letters \<open>1\<close> to \<open>9\<close>, \<open>A\<close> to \<open>Z\<close> without \<open>I\<close> and \<open>O\<close> and \<open>a\<close> to \<open>z\<close> without \<open>l\<close>; and a
  string decodes to a byte string exactly when it is that byte string's spelling.\<close>

theorem base58btc_codec:
  "(decode_base58btc s = Some bs \<longleftrightarrow> s = encode_base58btc bs) \<and>
   (\<exists>ds. encode_base58btc bs = replicate (length (takeWhile ((=) 0) bs)) CHR ''1'' @
        map ((!) ''123456789ABCDEFGHJKLMNPQRSTUVWXYZabcdefghijkmnopqrstuvwxyz'') ds \<and>
      (\<forall>d \<in> set ds. d < 58) \<and> (ds = [] \<or> hd ds \<noteq> 0) \<and> be_val 58 ds = be_val 256 (map unat bs))"
proof
  show "decode_base58btc s = Some bs \<longleftrightarrow> s = encode_base58btc bs" by (rule decode_base58btc_Some_iff)
  obtain cs where cs: "encode_base58btc bs = replicate (length (takeWhile ((=) 0) bs)) CHR ''1'' @ cs" "set cs \<subseteq> set ALPHABET"
    "cs = [] \<or> hd cs \<noteq> CHR ''1''" "be_val 58 (map digit cs) = be_val 256 (map unat (dropWhile ((=) 0) bs))"
    using encode_base58btc_spelling[of bs] by (auto simp: drop_zeros)
  have "ALPHABET ! digit c = c" if "c \<in> set cs" for c using that cs(2) DIGIT_OF_cases[of c] by auto
  then have "map ((!) ALPHABET) (map digit cs) = cs" by (simp add: map_idI)
  moreover have "cs = [] \<or> hd (map digit cs) \<noteq> 0" using cs(2,3) digit_0_iff[of "hd cs"] by (cases cs) auto
  ultimately show "\<exists>ds. encode_base58btc bs = replicate (length (takeWhile ((=) 0) bs)) CHR ''1'' @
        map ((!) ''123456789ABCDEFGHJKLMNPQRSTUVWXYZabcdefghijkmnopqrstuvwxyz'') ds \<and>
      (\<forall>d \<in> set ds. d < 58) \<and> (ds = [] \<or> hd ds \<noteq> 0) \<and> be_val 58 ds = be_val 256 (map unat bs)"
    using cs(1,2,4) digit_bound unfolding ALPHABET_def[symmetric]
    by (intro exI[of _ "map digit cs"]) (auto simp: map_unat_dropWhile be_val_dropWhile_0)
qed

theorem base58btc_codec_witness:
  "decode_base58btc (encode_base58btc [0, 58]) = Some [0, 58] \<and>
   (\<exists>ds. encode_base58btc [0, 58] = ''1'' @ map ((!) ''123456789ABCDEFGHJKLMNPQRSTUVWXYZabcdefghijkmnopqrstuvwxyz'') ds \<and>
      be_val 58 ds = 58)"
proof -
  have "replicate (length (takeWhile ((=) 0) [0, 58 :: byte])) CHR ''1'' = ''1''" "be_val 256 (map unat [0, 58 :: byte]) = 58" by simp_all
  with base58btc_codec[of "encode_base58btc [0, 58]" "[0, 58]"] show ?thesis by metis
qed

text \<open>The decoder fails exactly on a string with a character outside the alphabet, and it
  never writes past the array it sized at 0.733 bytes per digit plus one.\<close>

lemma base58btc_decoder_failure:
  "decode_base58btc_full s \<noteq> Inl Array_overrun \<and>
   (decode_base58btc_full s = Inl Bad_character) = (\<not> set s \<subseteq> set ALPHABET)"
  using decode_base58btc_full_value[of s] decode_base58btc_full_bad[of s]
  by (cases "set s \<subseteq> set ALPHABET") auto

text \<open>The encoder's arithmetic stays in range: from a remainder below \<open>58 ^ 3\<close>, the value
  accumulated with the next byte is below \<open>2 ^ 26\<close>, so no 32-bit truncation loses a bit, the
  quotient fits the byte it is stored in, and the new remainder is again below \<open>58 ^ 3\<close>.\<close>

lemma base58btc_int32_steps:
  fixes b :: byte
  assumes "0 \<le> r" "r < CHUNK_BASE"
  defines "acc \<equiv> int32 (push_bit 8 r) OR uint b"
  shows "acc = r * 256 + uint b \<and> acc < 2 ^ 26 \<and>
    uint (word_of_int (int32 (acc sdiv CHUNK_BASE)) :: byte) = acc div CHUNK_BASE \<and>
    acc - int32 (acc sdiv CHUNK_BASE) * CHUNK_BASE \<in> {0..<CHUNK_BASE} \<and>
    divide_pass r [b] = ([word_of_int (acc div CHUNK_BASE)], acc mod CHUNK_BASE)"
proof -
  note step = divide_step[OF assms(1,2), of b, folded acc_def]
  have "uint (word_of_int (acc div CHUNK_BASE) :: byte) = acc div CHUNK_BASE"
    using step(5,6) by (simp add: uint_word_of_int)
  moreover have "divide_pass r [b] = ([word_of_int (acc div CHUNK_BASE)], acc mod CHUNK_BASE)"
    using step(4,7) by (simp add: Let_def acc_def[symmetric])
  ultimately show ?thesis using step by simp
qed

end
