(* ===== verification/Js_Value.thy ===== *)
theory Js_Value
  imports Prelude
begin

text \<open>
  The values the code receives as \<open>unknown\<close> (a decoded dag-cbor block, a parsed JSON message or
  a caller's argument) and the structural guards of \<open>src/types/guards.ts\<close> it applies to them.

  Strings are modelled by their UTF-8 bytes, so \<open>length\<close> is the byte length that the size
  bounds of the protocol count; the strings whose length the code counts in characters are
  restricted to ASCII before it does. Numbers are the finite doubles: \<open>JInt\<close> is an integral
  one, \<open>JFloat\<close> any other, and \<open>JBig\<close> the \<open>bigint\<close> a decoder returns outside the safe range.
  A byte string and a CID link are objects too, so \<open>is_record\<close> holds for them. Properties
  inherited from a prototype are not part of the model.
\<close>

datatype jsval =
    JUndefined
  | JNull
  | JBool bool
  | JInt int
  | JFloat rat
  | JBig int
  | JStr string
  | JBytes bytes
  | JLink bytes
  | JArr "jsval list"
  | JObj "(string \<times> jsval) list"

definition is_record :: "jsval \<Rightarrow> bool" where
  "is_record v = (case v of JObj _ \<Rightarrow> True | JBytes _ \<Rightarrow> True | JLink _ \<Rightarrow> True | _ \<Rightarrow> False)"

text \<open>The fields of a link are those the CID class sets on an instance.\<close>

definition digit_char :: "nat \<Rightarrow> char" where
  "digit_char n = char_of (48 + n)"

fun index_name :: "nat \<Rightarrow> string" where
  "index_name n = (if n < 10 then [digit_char n] else index_name (n div 10) @ [digit_char (n mod 10)])"

declare index_name.simps [simp del]

definition own_fields :: "jsval \<Rightarrow> (string \<times> jsval) list" where
  "own_fields v = (case v of
     JObj fs \<Rightarrow> fs
   | JBytes bs \<Rightarrow> map (\<lambda>(i, b). (index_name i, JInt (uint b))) (enumerate 0 bs)
   | JLink bs \<Rightarrow> map (\<lambda>n. (n, JBytes bs)) [''code'', ''version'', ''multihash'', ''bytes'', ''/'']
   | _ \<Rightarrow> [])"

text \<open>\<open>Object.keys(value)\<close>, \<open>name in value\<close> and \<open>value[name]\<close>.\<close>

definition keys :: "jsval \<Rightarrow> string list" where
  "keys v = map fst (own_fields v)"

definition has :: "string \<Rightarrow> jsval \<Rightarrow> bool" where
  "has k v = (k \<in> set (keys v))"

definition get :: "string \<Rightarrow> jsval \<Rightarrow> jsval" where
  "get k v = (case map_of (own_fields v) k of None \<Rightarrow> JUndefined | Some w \<Rightarrow> w)"

lemma is_record_simps [simp]:
  "is_record (JObj fs)" "\<not> is_record JUndefined" "\<not> is_record JNull" "\<not> is_record (JStr s)"
  "\<not> is_record (JArr xs)" "\<not> is_record (JInt i)" "\<not> is_record (JBool b)" "\<not> is_record (JFloat r)"
  "\<not> is_record (JBig i)"
  by (simp_all add: is_record_def)

lemma get_JObj [simp]:
  "get k (JObj fs) = (case map_of fs k of None \<Rightarrow> JUndefined | Some w \<Rightarrow> w)"
  by (simp add: get_def own_fields_def)

lemma keys_JObj [simp]: "keys (JObj fs) = map fst fs"
  by (simp add: keys_def own_fields_def)

lemma has_JObj [simp]: "has k (JObj fs) \<longleftrightarrow> k \<in> fst ` set fs"
  by (simp add: has_def)

lemma get_not_has: "\<not> has k v \<Longrightarrow> get k v = JUndefined"
  by (simp add: has_def get_def keys_def map_of_eq_None_iff split: option.split)
     (metis map_of_eq_None_iff option.distinct(1) image_set)

section \<open>Typed reads\<close>

definition as_string :: "jsval \<Rightarrow> string option" where
  "as_string v = (case v of JStr s \<Rightarrow> Some s | _ \<Rightarrow> None)"

definition is_string :: "jsval \<Rightarrow> bool" where
  "is_string v = (case v of JStr s \<Rightarrow> True | _ \<Rightarrow> False)"

definition as_array :: "jsval \<Rightarrow> jsval list option" where
  "as_array v = (case v of JArr xs \<Rightarrow> Some xs | _ \<Rightarrow> None)"

lemma is_string_iff: "is_string v \<longleftrightarrow> (\<exists>s. v = JStr s)"
  by (cases v) (simp_all add: is_string_def)

lemma as_string_Some_iff [simp]: "as_string v = Some s \<longleftrightarrow> v = JStr s"
  by (cases v) (simp_all add: as_string_def)

lemma as_string_simps [simp]: "as_string (JStr s) = Some s" "as_string JUndefined = None"
  by (simp_all add: as_string_def)

lemma as_array_Some_iff [simp]: "as_array v = Some xs \<longleftrightarrow> v = JArr xs"
  by (cases v) (simp_all add: as_array_def)

lemma as_array_simps [simp]: "as_array (JArr xs) = Some xs" "as_array JUndefined = None"
  by (simp_all add: as_array_def)

definition MAX_SAFE_INTEGER :: int where
  "MAX_SAFE_INTEGER = 2 ^ 53 - 1"

text \<open>\<open>is_uint\<close>: \<open>Number.isSafeInteger(value) && value >= 0\<close>, with the number it holds.\<close>

definition as_uint :: "jsval \<Rightarrow> nat option" where
  "as_uint v = (case v of
     JInt i \<Rightarrow> if 0 \<le> i \<and> i \<le> MAX_SAFE_INTEGER then Some (nat i) else None | _ \<Rightarrow> None)"

definition is_uint :: "jsval \<Rightarrow> bool" where
  "is_uint v = (as_uint v \<noteq> None)"

lemma as_uint_Some_iff:
  "as_uint v = Some n \<longleftrightarrow> v = JInt (int n) \<and> int n \<le> MAX_SAFE_INTEGER"
  by (cases v) (auto simp: as_uint_def)

lemma as_uint_JInt [simp]: "as_uint (JInt (int n)) = (if int n \<le> MAX_SAFE_INTEGER then Some n else None)"
  by (simp add: as_uint_def)

definition is_number :: "jsval \<Rightarrow> bool" where
  "is_number v = (case v of JInt _ \<Rightarrow> True | JFloat _ \<Rightarrow> True | _ \<Rightarrow> False)"

text \<open>The value of a number; comparisons and sign tests on finite doubles are exact.\<close>

definition number_value :: "jsval \<Rightarrow> rat" where
  "number_value v = (case v of JInt i \<Rightarrow> of_int i | JFloat r \<Rightarrow> r | _ \<Rightarrow> 0)"

section \<open>Exact field sets\<close>

definition has_extra_fields :: "jsval \<Rightarrow> string list \<Rightarrow> bool" where
  "has_extra_fields node fields = list_ex (\<lambda>field. field \<notin> set fields) (keys node)"

definition has_exact_fields :: "jsval \<Rightarrow> string list \<Rightarrow> bool" where
  "has_exact_fields v fields =
     (length (keys v) = length fields \<and> list_all (\<lambda>field. field \<in> set (keys v)) fields)"

text \<open>With distinct names on both sides the count and the inclusion pin the set.\<close>

lemma has_exact_fields_set:
  assumes "has_exact_fields v fields" "distinct fields"
  shows "set (keys v) = set fields" and "distinct (keys v)"
proof -
  from assms have len: "length (keys v) = length fields" and sub: "set fields \<subseteq> set (keys v)"
    by (auto simp: has_exact_fields_def list_all_iff)
  have card: "card (set fields) = length (keys v)"
    using assms(2) len by (simp add: distinct_card)
  then show eq: "set (keys v) = set fields"
    using sub card_length[of "keys v"] by (metis List.finite_set card_seteq)
  then show "distinct (keys v)" using card by (metis card_distinct)
qed

section \<open>Character classes\<close>

definition is_lower_hex :: "char \<Rightarrow> bool" where
  "is_lower_hex c = (c \<in> set ''0123456789abcdef'')"

text \<open>\<open>/^[0-9a-f]{64}$/\<close>, the pattern of a track id.\<close>

definition is_track_id :: "string \<Rightarrow> bool" where
  "is_track_id s = (length s = 64 \<and> list_all is_lower_hex s)"

text \<open>\<open>startsWith\<close> and \<open>slice(length)\<close>.\<close>

definition strip_prefix :: "string \<Rightarrow> string \<Rightarrow> string option" where
  "strip_prefix p s = (if take (length p) s = p then Some (drop (length p) s) else None)"

lemma strip_prefix_Some_iff: "strip_prefix p s = Some r \<longleftrightarrow> s = p @ r"
  by (auto simp: strip_prefix_def) (metis append_take_drop_id)

text \<open>UTF-8 bytes of a string: the identity on the model's strings.\<close>

definition utf8ToBytes :: "string \<Rightarrow> bytes" where
  "utf8ToBytes s = map (\<lambda>c. of_nat (of_char c)) s"

lemma length_utf8ToBytes [simp]: "length (utf8ToBytes s) = length s"
  by (simp add: utf8ToBytes_def)

text \<open>
  \<open>/\p{Cc}/u\<close>: a C0 control, DEL, or a C1 control, which UTF-8 spells as the byte C2 followed
  by a byte of 80 to 9F.
\<close>

fun has_control_character :: "string \<Rightarrow> bool" where
  "has_control_character [] = False"
| "has_control_character (c # cs) =
     ((of_char c :: nat) < 32 \<or> (of_char c :: nat) = 127 \<or>
      (of_char c :: nat) = 194 \<and> (case cs of [] \<Rightarrow> False | d # _ \<Rightarrow> 128 \<le> (of_char d :: nat) \<and> (of_char d :: nat) < 160) \<or>
      has_control_character cs)"

section \<open>JSON text of an array of strings\<close>

text \<open>
  \<open>JSON.stringify([a, b, ...])\<close>, which the code uses to make one key out of several strings: each
  string in quotes with the quote, the backslash and the C0 controls escaped.
\<close>

definition hex_digit :: "nat \<Rightarrow> char" where
  "hex_digit n = ''0123456789abcdef'' ! n"

definition json_escape :: "char \<Rightarrow> string" where
  "json_escape c =
     (if c = CHR 0x22 then [CHR 0x5C, CHR 0x22]
      else if c = CHR 0x5C then [CHR 0x5C, CHR 0x5C]
      else if c = CHR 0x08 then [CHR 0x5C, CHR ''b'']
      else if c = CHR 0x09 then [CHR 0x5C, CHR ''t'']
      else if c = CHR 0x0A then [CHR 0x5C, CHR ''n'']
      else if c = CHR 0x0C then [CHR 0x5C, CHR ''f'']
      else if c = CHR 0x0D then [CHR 0x5C, CHR ''r'']
      else if (of_char c :: nat) < 32 then
        [CHR 0x5C, CHR ''u'', CHR ''0'', CHR ''0'', hex_digit (of_char c div 16), hex_digit (of_char c mod 16)]
      else [c])"

definition json_string :: "string \<Rightarrow> string" where
  "json_string s = CHR 0x22 # concat (map json_escape s) @ [CHR 0x22]"

fun json_items :: "string list \<Rightarrow> string" where
  "json_items [] = []"
| "json_items [x] = json_string x"
| "json_items (x # y # ys) = json_string x @ CHR '','' # json_items (y # ys)"

definition json_strings :: "string list \<Rightarrow> string" where
  "json_strings xs = CHR ''['' # json_items xs @ [CHR '']'']"

lemma hex_digit_inj: "m < 16 \<Longrightarrow> n < 16 \<Longrightarrow> hex_digit m = hex_digit n \<Longrightarrow> m = n"
  unfolding hex_digit_def by (subst (asm) nth_eq_iff_index_eq) simp_all

lemma json_escape_control_inj:
  assumes "(of_char c :: nat) < 32" "(of_char d :: nat) < 32"
    and "hex_digit (of_char c div 16) = hex_digit (of_char d div 16)"
    and "hex_digit (of_char c mod 16) = hex_digit (of_char d mod 16)"
  shows "c = d"
proof -
  have "(of_char c :: nat) div 16 = of_char d div 16" using assms by (intro hex_digit_inj) simp_all
  moreover have "(of_char c :: nat) mod 16 = of_char d mod 16" using assms by (intro hex_digit_inj) simp_all
  ultimately have "(of_char c :: nat) = of_char d" by (metis div_mult_mod_eq)
  then show ?thesis by simp
qed

lemma json_escape_prefix_free:
  assumes "json_escape c @ r = json_escape d @ s"
  shows "c = d \<and> r = s"
proof -
  have "c = d" using assms json_escape_control_inj[of c d]
    by (auto simp: json_escape_def split: if_splits)
  with assms show ?thesis by simp
qed

lemma json_escape_not_quote: "json_escape c @ r \<noteq> CHR 0x22 # s"
  by (simp add: json_escape_def)

lemma json_escapes_inj:
  "concat (map json_escape xs) @ CHR 0x22 # r = concat (map json_escape ys) @ CHR 0x22 # s \<Longrightarrow> xs = ys \<and> r = s"
proof (induction xs arbitrary: ys)
  case Nil
  then show ?case by (cases ys) (auto simp: json_escape_not_quote[symmetric] dest: sym)
next
  case (Cons x xs)
  then obtain y ys' where ys: "ys = y # ys'" by (cases ys) (auto simp: json_escape_not_quote)
  from Cons.prems ys have "x = y \<and> concat (map json_escape xs) @ CHR 0x22 # r = concat (map json_escape ys') @ CHR 0x22 # s"
    by (intro json_escape_prefix_free) simp
  with Cons.IH ys show ?case by blast
qed

lemma json_string_inj: "json_string x @ r = json_string y @ s \<longleftrightarrow> x = y \<and> r = s"
  using json_escapes_inj[of x r y s] by (auto simp: json_string_def)

lemma json_items_inj: "length xs = length ys \<Longrightarrow> json_items xs = json_items ys \<longleftrightarrow> xs = ys"
proof (induction xs arbitrary: ys rule: json_items.induct)
  case (2 x)
  then obtain y where "ys = [y]" by (cases ys) auto
  then show ?case using json_string_inj[of x "[]" y "[]"] by simp
next
  case (3 x x' xs)
  then obtain y y' ys' where "ys = y # y' # ys'" by (cases ys rule: json_items.cases) auto
  then show ?case using 3 json_string_inj by auto
qed simp

lemma json_strings_inj: "length xs = length ys \<Longrightarrow> json_strings xs = json_strings ys \<longleftrightarrow> xs = ys"
  by (simp add: json_strings_def json_items_inj)

end
