(* ===== verification/Encoding.thy ===== *)
theory Encoding
  imports Base58 Js_Value
begin

text \<open>
  Canonical encoding, protocol-object CIDs, size bounds and library addresses
  (\<open>src/encoding/\<close>). The dag-cbor codec, the hash functions, the CID library and the signature
  scheme are packages of their own: they are the fields of the record \<open>deps\<close>, the first
  argument of every definition that calls them.
\<close>

section \<open>What the packages provide\<close>

text \<open>
  \<open>cbor_decode\<close> is \<open>None\<close> where \<open>decode\<close> throws. \<open>cbor_encode\<close> is applied to values of the
  dag-cbor data model only; the package throws on others, \<open>undefined\<close> among them, and what the field
  returns there has no meaning. The package sorts the keys of a map, so an object that is encoded and decoded
  stands for its normal form, with its fields in that order. \<open>cid_of_digest\<close> is the byte form of
  \<open>CID.createV1(DAG_CBOR_CODE, create_digest(SHA3_512_CODE, digest))\<close>, and \<open>multihash_of_digest\<close>
  the byte form of its multihash. \<open>cid_parses\<close> tells whether \<open>CID.parse(text, base58btc)\<close>
  returns, and \<open>cid_to_base32\<close> gives \<open>CID.parse(text, base).toV1().toString(base32)\<close>, if it
  returns. \<open>nfc\<close> is \<open>String.prototype.normalize('NFC')\<close>. The signature functions are \<open>None\<close>
  where they throw: \<open>sig_compact\<close> turns a DER signature in hex into its compact bytes,
  \<open>openssl_verify\<close> takes the digest, the key object and the compact signature, and
  \<open>noble_verify\<close> the signature in hex, the digest and the key in hex.
\<close>

record deps =
  cbor_encode :: "jsval \<Rightarrow> bytes"
  cbor_decode :: "bytes \<Rightarrow> jsval option"
  sha256 :: "bytes \<Rightarrow> bytes"
  sha3_512 :: "bytes \<Rightarrow> bytes"
  bytesToHex :: "bytes \<Rightarrow> string"
  cid_of_digest :: "bytes \<Rightarrow> bytes"
  multihash_of_digest :: "bytes \<Rightarrow> bytes"
  cid_parses :: "string \<Rightarrow> bool"
  cid_to_base32 :: "string \<Rightarrow> string option"
  nfc :: "string \<Rightarrow> string"
  native_available :: bool
  spki_public_key :: "string \<Rightarrow> bytes option"
  sig_compact :: "string \<Rightarrow> bytes option"
  openssl_verify :: "bytes \<Rightarrow> bytes \<Rightarrow> bytes \<Rightarrow> bool option"
  noble_verify :: "string \<Rightarrow> bytes \<Rightarrow> string \<Rightarrow> bool option"
  secp_sign :: "bytes \<Rightarrow> bytes \<Rightarrow> bytes"
  secp_public_key :: "bytes \<Rightarrow> bytes"
  secp_valid_secret :: "bytes \<Rightarrow> bool"

section \<open>Canonical bytes\<close>

definition encode_canonical :: "deps \<Rightarrow> jsval \<Rightarrow> bytes" where
  "encode_canonical D value = cbor_encode D value"

text \<open>The byte loop of \<open>bytes_equal\<close>.\<close>

fun bytes_equal_from :: "nat \<Rightarrow> bytes \<Rightarrow> bytes \<Rightarrow> bool" where
  "bytes_equal_from i [] bs = True"
| "bytes_equal_from i (a # as) bs =
     (if i < length bs \<and> bs ! i = a then bytes_equal_from (Suc i) as bs else False)"

definition bytes_equal :: "bytes \<Rightarrow> bytes \<Rightarrow> bool" where
  "bytes_equal a b = (length a = length b \<and> bytes_equal_from 0 a b)"

lemma bytes_equal_from_iff:
  "bytes_equal_from i as bs \<longleftrightarrow> (\<forall>j < length as. i + j < length bs \<and> bs ! (i + j) = as ! j)"
proof (induction as arbitrary: i)
  case (Cons a as)
  then show ?case by (auto simp: All_less_Suc2)
qed simp

lemma bytes_equal_iff [simp]: "bytes_equal a b \<longleftrightarrow> a = b"
  by (auto simp: bytes_equal_def bytes_equal_from_iff list_eq_iff_nth_eq)

definition decode_canonical :: "deps \<Rightarrow> bytes \<Rightarrow> (jsval \<times> bytes) result" where
  "decode_canonical D bs = (case cbor_decode D bs of
     None \<Rightarrow> Inl malformed_encoding
   | Some value \<Rightarrow>
       if \<not> bytes_equal (cbor_encode D value) bs then Inl non_canonical_encoding
       else Inr (value, bs))"

lemma decode_canonical_Inr_iff [result_simps]:
  "decode_canonical D bs = Inr (value, bs') \<longleftrightarrow>
     cbor_decode D bs = Some value \<and> cbor_encode D value = bs \<and> bs' = bs"
  by (auto simp: decode_canonical_def split: option.splits)

section \<open>Protocol-object CIDs\<close>

definition SHA3_512_LENGTH :: nat where "SHA3_512_LENGTH = 64"

definition PROTOCOL_CID_PREFIX :: bytes where
  "PROTOCOL_CID_PREFIX = [0x01, 0x71, 0x14, 0x40]"

definition compute_cid :: "deps \<Rightarrow> bytes \<Rightarrow> bytes" where
  "compute_cid D bs = cid_of_digest D (sha3_512 D bs)"

definition format_protocol_cid :: "bytes \<Rightarrow> string" where
  "format_protocol_cid cid = CHR ''z'' # encode_base58btc cid"

definition compute_cid_string :: "deps \<Rightarrow> bytes \<Rightarrow> string" where
  "compute_cid_string D bs = format_protocol_cid (compute_cid D bs)"

definition is_protocol_cid :: "jsval \<Rightarrow> bool" where
  "is_protocol_cid v = (case as_string v of
     None \<Rightarrow> False
   | Some s \<Rightarrow> (case strip_prefix ''z'' s of
       None \<Rightarrow> False
     | Some rest \<Rightarrow> (case decode_base58btc rest of
         None \<Rightarrow> False
       | Some bs \<Rightarrow> length bs = length PROTOCOL_CID_PREFIX + SHA3_512_LENGTH \<and>
           list_all (\<lambda>i. bs ! i = PROTOCOL_CID_PREFIX ! i) [0..<length PROTOCOL_CID_PREFIX])))"

definition is_cid_string :: "deps \<Rightarrow> jsval \<Rightarrow> bool" where
  "is_cid_string D v = (case as_string v of None \<Rightarrow> False | Some s \<Rightarrow> cid_parses D s)"

text \<open>A protocol CID is the spelling of the fixed prefix and a 64-byte digest, and nothing else.\<close>

lemma strip_prefix_Cons: "strip_prefix [c] (c # s) = Some s"
  by (simp add: strip_prefix_def)

lemma list_all_nth_take:
  "length p \<le> length bs \<Longrightarrow>
     list_all (\<lambda>i. bs ! i = p ! i) [0..<length p] \<longleftrightarrow> take (length p) bs = p"
  unfolding list_all_iff list_eq_iff_nth_eq[of "take (length p) bs" p] by (simp add: Ball_def)

lemma prefix_split:
  "length bs = length p + n \<and> take (length p) bs = p \<longleftrightarrow> (\<exists>d. length d = n \<and> bs = p @ d)"
proof
  assume L: "length bs = length p + n \<and> take (length p) bs = p"
  then have "p @ drop (length p) bs = bs" using append_take_drop_id[of "length p" bs] by simp
  moreover have "length (drop (length p) bs) = n" using L by simp
  ultimately show "\<exists>d. length d = n \<and> bs = p @ d" by (intro exI[of _ "drop (length p) bs"] conjI) simp_all
qed auto

lemma is_protocol_cid_iff:
  "is_protocol_cid v \<longleftrightarrow>
     (\<exists>d. length d = 64 \<and> v = JStr (format_protocol_cid (PROTOCOL_CID_PREFIX @ d)))"
proof -
  let ?p = PROTOCOL_CID_PREFIX
  have "is_protocol_cid v \<longleftrightarrow> (\<exists>bs. v = JStr (format_protocol_cid bs) \<and>
      length bs = length ?p + 64 \<and> list_all (\<lambda>i. bs ! i = ?p ! i) [0..<length ?p])"
    by (auto simp: is_protocol_cid_def strip_prefix_Some_iff decode_base58btc_Some_iff decode_encode
        strip_prefix_Cons format_protocol_cid_def SHA3_512_LENGTH_def split: option.splits)
  also have "\<dots> \<longleftrightarrow> (\<exists>bs. v = JStr (format_protocol_cid bs) \<and>
      length bs = length ?p + 64 \<and> take (length ?p) bs = ?p)"
    by (rule ex_cong1) (auto simp: list_all_nth_take)
  finally show ?thesis unfolding prefix_split by blast
qed

section \<open>Size bounds\<close>

definition SIGNED_ENTRY_MAX_BYTES :: nat where "SIGNED_ENTRY_MAX_BYTES = 256 * 1024"
definition PAYLOAD_MAX_BYTES :: nat where "PAYLOAD_MAX_BYTES = 1024 * 1024"
definition LABEL_MAX_BYTES :: nat where "LABEL_MAX_BYTES = 128"

definition assert_max :: "nat \<Rightarrow> nat \<Rightarrow> unit result" where
  "assert_max bytes_size bound = (if bytes_size > bound then Inl size_exceeded else Inr ())"

definition assert_signed_entry_size :: "bytes \<Rightarrow> unit result" where
  "assert_signed_entry_size bs = assert_max (length bs) SIGNED_ENTRY_MAX_BYTES"

definition assert_payload_size :: "bytes \<Rightarrow> unit result" where
  "assert_payload_size bs = assert_max (length bs) PAYLOAD_MAX_BYTES"

definition assert_label :: "deps \<Rightarrow> jsval \<Rightarrow> string result" where
  "assert_label D v = (case as_string v of
     None \<Rightarrow> Inl invalid_shape
   | Some label \<Rightarrow>
       if length label = 0 then Inl invalid_shape
       else if nfc D label \<noteq> label then Inl invalid_shape
       else if has_control_character label then Inl invalid_shape
       else and_then (assert_max (length (utf8ToBytes label)) LABEL_MAX_BYTES) (\<lambda>_. Inr label))"

lemma assert_max_Inr_iff [result_simps]: "assert_max n m = Inr u \<longleftrightarrow> n \<le> m"
  by (auto simp: assert_max_def)

lemma assert_label_Inr_iff [result_simps]:
  "assert_label D v = Inr label \<longleftrightarrow>
     v = JStr label \<and> 1 \<le> length label \<and> length label \<le> 128 \<and>
     nfc D label = label \<and> \<not> has_control_character label"
  by (auto simp: assert_label_def result_simps LABEL_MAX_BYTES_def Suc_le_eq split: option.splits if_splits)

section \<open>Library addresses\<close>

datatype library_type = recordstore | labels | listens | identity

definition library_type_name :: "library_type \<Rightarrow> string" where
  "library_type_name t = (case t of recordstore \<Rightarrow> ''recordstore'' | labels \<Rightarrow> ''labels''
     | listens \<Rightarrow> ''listens'' | identity \<Rightarrow> ''identity'')"

definition LIBRARY_TYPES :: "library_type list" where
  "LIBRARY_TYPES = [recordstore, labels, listens, identity]"

definition library_type_of :: "jsval \<Rightarrow> library_type option" where
  "library_type_of v = List.find (\<lambda>t. v = JStr (library_type_name t)) LIBRARY_TYPES"

lemma library_type_of_name [simp]: "library_type_of (JStr (library_type_name t)) = Some t"
  by (cases t) (simp_all add: library_type_of_def LIBRARY_TYPES_def library_type_name_def)

definition ADDRESS_PREFIX :: string where "ADDRESS_PREFIX = ''/record/''"
definition DISCRIMINATOR_MAX_LENGTH :: nat where "DISCRIMINATOR_MAX_LENGTH = 64"
definition IDENTITY_LIBRARY_NAME :: string where "IDENTITY_LIBRARY_NAME = ''identity''"

text \<open>\<open>/^[0-9a-zA-Z-]*$/\<close>.\<close>

definition is_library_name :: "string \<Rightarrow> bool" where
  "is_library_name s =
     list_all (\<lambda>c. c \<in> set ''0123456789abcdefghijklmnopqrstuvwxyzABCDEFGHIJKLMNOPQRSTUVWXYZ-'') s"

definition validate_library_name :: "string \<Rightarrow> string result" where
  "validate_library_name name = (if \<not> is_library_name name then Inl invalid_library_name else Inr name)"

definition validate_discriminator :: "string \<Rightarrow> string result" where
  "validate_discriminator name = and_then (validate_library_name name) (\<lambda>_.
     if length name = 0 \<or> length name > DISCRIMINATOR_MAX_LENGTH then Inl invalid_library_name
     else Inr name)"

definition build_library_address :: "string \<Rightarrow> string \<Rightarrow> string" where
  "build_library_address manifest_cid name = ADDRESS_PREFIX @ manifest_cid @ ''/'' @ name"

record ac_chain_object =
  object_cid :: string
  object_bytes :: bytes

record ac_chain_parts =
  part_address :: string
  part_write_list :: ac_chain_object
  part_wrapper :: ac_chain_object
  part_manifest :: ac_chain_object

definition chain_object :: "deps \<Rightarrow> jsval \<Rightarrow> ac_chain_object" where
  "chain_object D value =
     (let bs = encode_canonical D value in \<lparr>object_cid = compute_cid_string D bs, object_bytes = bs\<rparr>)"

definition write_list_value :: "string list \<Rightarrow> jsval" where
  "write_list_value ks = JObj [(''write'', JArr (map JStr ks))]"

definition wrapper_value :: "string \<Rightarrow> jsval" where
  "wrapper_value cid = JObj [(''params'', JObj [(''address'', JStr cid)]), (''type'', JStr ''static'')]"

definition manifest_value :: "string \<Rightarrow> library_type \<Rightarrow> string \<Rightarrow> jsval" where
  "manifest_value name type cid =
     JObj [(''name'', JStr name), (''type'', JStr (library_type_name type)), (''accessController'', JStr cid)]"

definition build_ac_chain :: "deps \<Rightarrow> string \<Rightarrow> library_type \<Rightarrow> string list \<Rightarrow> ac_chain_parts" where
  "build_ac_chain D name type write_keys =
     (let write_list = chain_object D (write_list_value write_keys);
          wrapper = chain_object D (wrapper_value (object_cid write_list));
          manifest = chain_object D (manifest_value name type (object_cid wrapper))
      in \<lparr>part_address = build_library_address (object_cid manifest) name,
          part_write_list = write_list, part_wrapper = wrapper, part_manifest = manifest\<rparr>)"

definition derive_library_address :: "deps \<Rightarrow> string \<Rightarrow> library_type \<Rightarrow> string \<Rightarrow> string" where
  "derive_library_address D key type discriminator =
     part_address (build_ac_chain D discriminator type [key])"

definition identity_library_address :: "deps \<Rightarrow> string \<Rightarrow> string" where
  "identity_library_address D key = derive_library_address D key identity IDENTITY_LIBRARY_NAME"

text \<open>\<open>rest.indexOf('/')\<close> splits at the first separator.\<close>

definition parse_library_address :: "deps \<Rightarrow> string \<Rightarrow> (string \<times> string) result" where
  "parse_library_address D address = (case strip_prefix ADDRESS_PREFIX address of
     None \<Rightarrow> Inl invalid_library_address
   | Some rest \<Rightarrow>
       if CHR ''/'' \<notin> set rest then Inl invalid_library_address
       else let manifest_cid = takeWhile ((\<noteq>) CHR ''/'') rest;
                name = tl (dropWhile ((\<noteq>) CHR ''/'') rest)
            in if \<not> is_cid_string D (JStr manifest_cid) then Inl invalid_library_address
               else if CHR ''/'' \<in> set name then Inl invalid_library_address
               else Inr (manifest_cid, name))"

definition is_library_address :: "deps \<Rightarrow> jsval \<Rightarrow> bool" where
  "is_library_address D v = (case as_string v of
     None \<Rightarrow> False
   | Some s \<Rightarrow> (case parse_library_address D s of Inl _ \<Rightarrow> False | Inr _ \<Rightarrow> True))"

lemma parse_library_address_Inr_iff [result_simps]:
  "parse_library_address D address = Inr (m, n) \<longleftrightarrow>
     address = build_library_address m n \<and> cid_parses D m \<and> CHR ''/'' \<notin> set m \<and> CHR ''/'' \<notin> set n"
proof
  assume L: "parse_library_address D address = Inr (m, n)"
  then obtain rest where r: "address = ADDRESS_PREFIX @ rest" "CHR ''/'' \<in> set rest"
    "m = takeWhile ((\<noteq>) CHR ''/'') rest" "n = tl (dropWhile ((\<noteq>) CHR ''/'') rest)"
    "cid_parses D m" "CHR ''/'' \<notin> set n"
    by (auto simp: parse_library_address_def strip_prefix_Some_iff is_cid_string_def Let_def
        split: option.splits if_splits)
  have "dropWhile ((\<noteq>) CHR ''/'') rest = CHR ''/'' # n"
  proof (cases "dropWhile ((\<noteq>) CHR ''/'') rest")
    case Nil
    then have "\<forall>c \<in> set rest. CHR ''/'' \<noteq> c" by (simp only: dropWhile_eq_Nil_conv)
    then show ?thesis using r(2) by blast
  next
    case (Cons c cs)
    then show ?thesis using hd_dropWhile[of "(\<noteq>) CHR ''/''" rest] r(4) by simp
  qed
  then have "rest = m @ ''/'' @ n" using takeWhile_dropWhile_id[of "(\<noteq>) CHR ''/''" rest] r(3) by simp
  then show "address = build_library_address m n \<and> cid_parses D m \<and> CHR ''/'' \<notin> set m \<and> CHR ''/'' \<notin> set n"
    using r by (auto simp: build_library_address_def dest: set_takeWhileD)
next
  assume R: "address = build_library_address m n \<and> cid_parses D m \<and> CHR ''/'' \<notin> set m \<and> CHR ''/'' \<notin> set n"
  then have "takeWhile ((\<noteq>) CHR ''/'') (m @ ''/'' @ n) = m"
    "dropWhile ((\<noteq>) CHR ''/'') (m @ ''/'' @ n) = ''/'' @ n"
    by (auto simp: takeWhile_append dropWhile_append)
  with R show "parse_library_address D address = Inr (m, n)"
    by (auto simp: parse_library_address_def build_library_address_def strip_prefix_def is_cid_string_def)
qed

section \<open>A sample of the packages\<close>

text \<open>
  A concrete value of \<open>deps\<close>, to show that what the theorems ask of the packages can hold
  together: a tagged serialisation that decodes the values of a table, a digest that pads or cuts its input to
  64 bytes, and a signature that repeats the digest. None of the theorems speaks of it; only their examples do.
\<close>

fun sample_encode :: "jsval \<Rightarrow> bytes" where
  "sample_encode (JInt i) = [1, of_int i]"
| "sample_encode (JStr s) = 2 # utf8ToBytes s @ [0]"
| "sample_encode (JBytes bs) = 3 # bs"
| "sample_encode (JLink bs) = 4 # bs"
| "sample_encode (JArr xs) = 5 # concat (map sample_encode xs) @ [0]"
| "sample_encode (JObj fs) = 6 # concat (map (\<lambda>(k, v). utf8ToBytes k @ 0 # sample_encode v) fs) @ [0]"
| "sample_encode (JBool b) = [if b then 7 else 8]"
| "sample_encode _ = [9]"

definition sample_deps :: "jsval list \<Rightarrow> deps" where
  "sample_deps table = \<lparr>
     cbor_encode = sample_encode,
     cbor_decode = (\<lambda>bs. List.find (\<lambda>v. sample_encode v = bs) table),
     sha256 = take 32,
     sha3_512 = (\<lambda>bs. take 64 (bs @ replicate 64 0)),
     bytesToHex = map (\<lambda>b. char_of (unat b)),
     cid_of_digest = (\<lambda>d. PROTOCOL_CID_PREFIX @ d),
     multihash_of_digest = (\<lambda>d. d),
     cid_parses = (\<lambda>s. True),
     cid_to_base32 = Some,
     nfc = (\<lambda>s. s),
     native_available = True,
     spki_public_key = (\<lambda>hex. Some (utf8ToBytes hex)),
     sig_compact = (\<lambda>sig. Some (utf8ToBytes sig)),
     openssl_verify = (\<lambda>digest key sig_bytes. Some (sig_bytes = digest)),
     noble_verify = (\<lambda>sig digest hex. Some (sig = map (\<lambda>b. char_of (unat b)) digest)),
     secp_sign = (\<lambda>digest key. digest),
     secp_public_key = (\<lambda>key. key),
     secp_valid_secret = (\<lambda>key. length key = 32)\<rparr>"

lemma find_distinct: "distinct (map f xs) \<Longrightarrow> v \<in> set xs \<Longrightarrow> List.find (\<lambda>x. f x = f v) xs = Some v"
  by (induction xs) auto

lemma sample_codec:
  "distinct (map sample_encode table) \<Longrightarrow> v \<in> set table \<Longrightarrow>
     cbor_decode (sample_deps table) (cbor_encode (sample_deps table) v) = Some v"
  by (simp add: sample_deps_def find_distinct)

section \<open>Properties\<close>

text \<open>\<open>is_protocol_cid\<close>, which looks at the decoded bytes only, accepts exactly the canonical
  base58btc spellings of CIDv1, dag-cbor, sha3-512 with a 64-byte digest; since base58btc is
  injective no separate round-trip check is needed.\<close>

lemma is_protocol_cid_exact:
  "is_protocol_cid v \<longleftrightarrow>
     (\<exists>d. length d = 64 \<and> v = JStr (CHR ''z'' # encode_base58btc ([0x01, 0x71, 0x14, 0x40] @ d)))"
  unfolding is_protocol_cid_iff format_protocol_cid_def PROTOCOL_CID_PREFIX_def ..

text \<open>A library address parses to a manifest CID and a name exactly when it is the address built
  from them, the manifest is a CID and neither part holds a separator; so parsing and building
  are inverse, and every other string is refused with \<open>invalid_library_address\<close>.\<close>

lemma library_address_roundtrip:
  "(parse_library_address D address = Inr (m, n) \<longleftrightarrow>
     address = build_library_address m n \<and> cid_parses D m \<and> CHR ''/'' \<notin> set m \<and> CHR ''/'' \<notin> set n) \<and>
   (\<nexists>e. e \<noteq> invalid_library_address \<and> parse_library_address D address = Inl e)"
proof -
  have "\<nexists>e. e \<noteq> invalid_library_address \<and> parse_library_address D address = Inl e"
    by (auto simp: parse_library_address_def Let_def split: option.splits if_splits)
  then show ?thesis using parse_library_address_Inr_iff by blast
qed

end
