(* ===== verification/Filter_Spec.thy ===== *)
theory Filter_Spec
  imports Encoding
begin

text \<open>
  Filter specifications (\<open>src/access-control/filter.ts\<close>): the shape check that tells a well-formed
  node from an unknown and from a malformed one, and the evaluation of a filter on a subject.
\<close>

datatype shape = shape_ok | shape_unknown | shape_malformed

definition MAX_SPEC_DEPTH :: nat where "MAX_SPEC_DEPTH = 16"

definition worst_shape :: "shape list \<Rightarrow> shape" where
  "worst_shape shapes =
     (if shape_malformed \<in> set shapes then shape_malformed
      else if shape_unknown \<in> set shapes then shape_unknown else shape_ok)"

definition is_scalar :: "jsval \<Rightarrow> bool" where
  "is_scalar v = (case v of JNull \<Rightarrow> True | JStr _ \<Rightarrow> True | JInt _ \<Rightarrow> True | JFloat _ \<Rightarrow> True
     | JBool _ \<Rightarrow> True | _ \<Rightarrow> False)"

definition RANGE_BOUNDS :: "string list" where
  "RANGE_BOUNDS = [''gte'', ''gt'', ''lte'', ''lt'']"

definition PREFIX_MAX_BYTES :: nat where "PREFIX_MAX_BYTES = 128"

definition known :: "jsval \<Rightarrow> string list \<Rightarrow> bool \<Rightarrow> shape" where
  "known node names well_formed =
     (if \<not> well_formed then shape_malformed else if has_extra_fields node names then shape_unknown else shape_ok)"

text \<open>\<open>Object.values(node.fields)\<close> where it is a record, and an array's elements, or none.\<close>

definition object_values :: "jsval \<Rightarrow> jsval list" where
  "object_values v = (if is_record v then map snd (own_fields v) else [])"

definition array_elements :: "jsval \<Rightarrow> jsval list" where
  "array_elements v = (case as_array v of None \<Rightarrow> [] | Some xs \<Rightarrow> xs)"

definition array_within :: "nat \<Rightarrow> nat \<Rightarrow> jsval \<Rightarrow> bool" where
  "array_within lo hi v = (case as_array v of None \<Rightarrow> False | Some xs \<Rightarrow> lo \<le> length xs \<and> length xs \<le> hi)"

text \<open>A node deeper than 16 is malformed, so the recursion ends.\<close>

function filter_shape :: "nat \<Rightarrow> jsval \<Rightarrow> shape" where
  "filter_shape depth node =
     (if depth > MAX_SPEC_DEPTH \<or> \<not> is_record node \<or> \<not> is_string (get ''type'' node) then shape_malformed
      else if get ''type'' node = JStr ''match'' then
        (let vs = object_values (get ''fields'' node)
         in known node [''type'', ''fields''] (1 \<le> length vs \<and> length vs \<le> 16 \<and> list_all is_scalar vs))
      else if get ''type'' node = JStr ''any_of'' then
        known node [''type'', ''field'', ''values'']
          (is_string (get ''field'' node) \<and> array_within 1 256 (get ''values'' node) \<and>
           list_all is_scalar (array_elements (get ''values'' node)))
      else if get ''type'' node = JStr ''range'' then
        (let bounds = List.filter (\<lambda>bound. has bound node) RANGE_BOUNDS
         in known node ([''type'', ''field''] @ RANGE_BOUNDS)
              (is_string (get ''field'' node) \<and> 1 \<le> length bounds \<and>
               list_all (\<lambda>bound. is_number (get bound node)) bounds))
      else if get ''type'' node = JStr ''prefix'' then
        known node [''type'', ''field'', ''prefix'']
          (is_string (get ''field'' node) \<and>
           (case as_string (get ''prefix'' node) of None \<Rightarrow> False
            | Some p \<Rightarrow> length p > 0 \<and> length (utf8ToBytes p) \<le> PREFIX_MAX_BYTES))
      else if get ''type'' node = JStr ''and'' \<or> get ''type'' node = JStr ''or'' then
        (let well_formed = array_within 1 64 (get ''filters'' node)
         in worst_shape (known node [''type'', ''filters''] well_formed #
              (if well_formed then map (filter_shape (depth + 1)) (array_elements (get ''filters'' node)) else [])))
      else if get ''type'' node = JStr ''not'' then
        worst_shape [known node [''type'', ''filter''] (has ''filter'' node), filter_shape (depth + 1) (get ''filter'' node)]
      else shape_unknown)"
  by pat_completeness auto
termination
  by (relation "measure (\<lambda>(depth, node). 17 - depth)") (auto simp: MAX_SPEC_DEPTH_def)

declare filter_shape.simps [simp del]

section \<open>Evaluation\<close>

text \<open>\<open>path.split('.')\<close>.\<close>

fun split_at :: "char \<Rightarrow> string \<Rightarrow> string list" where
  "split_at c [] = [[]]"
| "split_at c (x # xs) =
     (if x = c then [] # split_at c xs
      else (x # hd (split_at c xs)) # tl (split_at c xs))"

definition resolve_path :: "jsval \<Rightarrow> string \<Rightarrow> jsval" where
  "resolve_path subject path =
     foldl (\<lambda>current step. if is_record current \<and> has step current then get step current else JUndefined)
       subject (split_at CHR ''.'' path)"

text \<open>\<open>typeof a === typeof b && a === b\<close> against a scalar \<open>b\<close>.\<close>

definition strict_equal :: "jsval \<Rightarrow> jsval \<Rightarrow> bool" where
  "strict_equal a b =
     (is_scalar b \<and> (if is_number a \<and> is_number b then number_value a = number_value b else a = b))"

definition holds :: "jsval \<Rightarrow> jsval \<Rightarrow> bool" where
  "holds resolved value = (case as_array resolved of
     Some elements \<Rightarrow> list_ex (\<lambda>element. strict_equal element value) elements
   | None \<Rightarrow> resolved \<noteq> JUndefined \<and> strict_equal resolved value)"

text \<open>\<open>Array.from(text)\<close>: a UTF-8 lead byte with the continuation bytes after it is one code point.\<close>

definition is_continuation :: "char \<Rightarrow> bool" where
  "is_continuation c = (128 \<le> (of_char c :: nat) \<and> (of_char c :: nat) < 192)"

function code_points :: "string \<Rightarrow> string list" where
  "code_points [] = []"
| "code_points (c # cs) =
     (c # takeWhile is_continuation cs) # code_points (dropWhile is_continuation cs)"
  by pat_completeness auto
termination
  by (relation "measure length") (auto simp: le_imp_less_Suc length_dropWhile_le)

definition starts_with :: "jsval \<Rightarrow> string \<Rightarrow> bool" where
  "starts_with v p = (case as_string v of
     None \<Rightarrow> False
   | Some s \<Rightarrow> let head = code_points s; wanted = code_points p
       in length wanted \<le> length head \<and> list_all (\<lambda>i. head ! i = wanted ! i) [0..<length wanted])"

lemma size_map_of: "map_of fs k = Some v \<Longrightarrow> size v < Suc (size_list (size_prod (\<lambda>_. 0) size) fs)"
  by (induction fs) (auto split: if_splits)

lemma size_member: "v \<in> set xs \<Longrightarrow> size v < Suc (size_list size xs)"
  by (induction xs) auto

text \<open>
  A node without a type, and a value that is no map, falls through to the default of the switch.
  The casts of the source hold on a well-formed tree, which is all \<open>evaluate\<close> is applied to.
\<close>

function evaluate :: "jsval \<Rightarrow> jsval \<Rightarrow> bool" where
  "evaluate (JObj fs) subject =
     (let node = JObj fs
      in if get ''type'' node = JStr ''match'' then
           list_all (\<lambda>(path, value). holds (resolve_path subject path) value) (own_fields (get ''fields'' node))
         else if get ''type'' node = JStr ''any_of'' then
           (case as_string (get ''field'' node) of None \<Rightarrow> False
            | Some field \<Rightarrow> list_ex (\<lambda>value. holds (resolve_path subject field) value) (array_elements (get ''values'' node)))
         else if get ''type'' node = JStr ''range'' then
           (case as_string (get ''field'' node) of None \<Rightarrow> False
            | Some field \<Rightarrow>
                let value = resolve_path subject field
                in is_number value \<and>
                   (has ''gte'' node \<longrightarrow> number_value value \<ge> number_value (get ''gte'' node)) \<and>
                   (has ''gt'' node \<longrightarrow> number_value value > number_value (get ''gt'' node)) \<and>
                   (has ''lte'' node \<longrightarrow> number_value value \<le> number_value (get ''lte'' node)) \<and>
                   (has ''lt'' node \<longrightarrow> number_value value < number_value (get ''lt'' node)))
         else if get ''type'' node = JStr ''prefix'' then
           (case (as_string (get ''field'' node), as_string (get ''prefix'' node)) of
              (Some field, Some p) \<Rightarrow>
                let value = resolve_path subject field
                in (case as_array value of
                      Some elements \<Rightarrow> list_ex (\<lambda>element. starts_with element p) elements
                    | None \<Rightarrow> starts_with value p)
            | _ \<Rightarrow> False)
         else if get ''type'' node = JStr ''and'' then
           (case map_of fs ''filters'' of Some (JArr filters) \<Rightarrow> list_all (\<lambda>f. evaluate f subject) filters | _ \<Rightarrow> False)
         else if get ''type'' node = JStr ''or'' then
           (case map_of fs ''filters'' of Some (JArr filters) \<Rightarrow> list_ex (\<lambda>f. evaluate f subject) filters | _ \<Rightarrow> False)
         else if get ''type'' node = JStr ''not'' then
           (case map_of fs ''filter'' of Some f \<Rightarrow> \<not> evaluate f subject | _ \<Rightarrow> False)
         else False)"
| "evaluate JUndefined subject = False"
| "evaluate JNull subject = False"
| "evaluate (JBool b) subject = False"
| "evaluate (JInt i) subject = False"
| "evaluate (JFloat r) subject = False"
| "evaluate (JBig i) subject = False"
| "evaluate (JStr s) subject = False"
| "evaluate (JBytes bs) subject = False"
| "evaluate (JLink bs) subject = False"
| "evaluate (JArr xs) subject = False"
  by pat_completeness auto
termination
proof (relation "measure (size \<circ> fst)", goal_cases)
  case (2 fs subject node x filters f)
  then show ?case using size_map_of[of fs "''filters''" "JArr filters"] size_member[of f filters] by simp
next
  case (3 fs subject node x filters f)
  then show ?case using size_map_of[of fs "''filters''" "JArr filters"] size_member[of f filters] by simp
next
  case (4 fs subject node x)
  then show ?case using size_map_of[of fs "''filter''" x] by simp
qed simp

declare evaluate.simps(1) [simp del]

definition filter_matches :: "jsval \<Rightarrow> jsval \<Rightarrow> bool" where
  "filter_matches spec subject \<longleftrightarrow>
     spec = JUndefined \<or> filter_shape 1 spec = shape_ok \<and> evaluate spec subject"

section \<open>Shapes of a tree of filters\<close>

definition FILTER_TYPES :: "string list" where
  "FILTER_TYPES = [''match'', ''any_of'', ''range'', ''prefix'', ''and'', ''or'', ''not'']"

text \<open>\<open>filter_node f g\<close>: \<open>g\<close> is a node of the tree of \<open>f\<close>.\<close>

inductive filter_node :: "jsval \<Rightarrow> jsval \<Rightarrow> bool" where
  root: "filter_node f f"
| branch: "get ''type'' f = JStr ''and'' \<or> get ''type'' f = JStr ''or'' \<Longrightarrow>
    x \<in> set (array_elements (get ''filters'' f)) \<Longrightarrow> filter_node x g \<Longrightarrow> filter_node f g"
| negation: "get ''type'' f = JStr ''not'' \<Longrightarrow> filter_node (get ''filter'' f) g \<Longrightarrow> filter_node f g"

lemma worst_shape_ok_iff: "worst_shape shapes = shape_ok \<longleftrightarrow> (\<forall>s \<in> set shapes. s = shape_ok)"
  by (auto simp: worst_shape_def) (metis shape.exhaust)

lemma known_ok_iff: "known node names w = shape_ok \<longleftrightarrow> w \<and> \<not> has_extra_fields node names"
  by (simp add: known_def)

lemma filter_shape_type:
  "filter_shape d f = shape_ok \<Longrightarrow>
     d \<le> 16 \<and> is_record f \<and> (\<exists>t \<in> set FILTER_TYPES. get ''type'' f = JStr t)"
  by (subst (asm) filter_shape.simps)
     (auto simp: MAX_SPEC_DEPTH_def FILTER_TYPES_def split: if_splits)

lemma filter_shape_branch:
  assumes "filter_shape d f = shape_ok" "get ''type'' f = JStr ''and'' \<or> get ''type'' f = JStr ''or''"
    and "x \<in> set (array_elements (get ''filters'' f))"
  shows "filter_shape (Suc d) x = shape_ok"
  using assms by (subst (asm) filter_shape.simps)
    (auto simp: worst_shape_ok_iff known_ok_iff Let_def split: if_splits)

lemma filter_shape_negation:
  assumes "filter_shape d f = shape_ok" "get ''type'' f = JStr ''not''"
  shows "filter_shape (Suc d) (get ''filter'' f) = shape_ok"
  using assms by (subst (asm) filter_shape.simps)
    (auto simp: worst_shape_ok_iff known_ok_iff Let_def split: if_splits)

text \<open>A filter that is fine at some depth is fine nearer the root.\<close>

lemma filter_shape_mono: "filter_shape (Suc d) f = shape_ok \<Longrightarrow> filter_shape d f = shape_ok"
proof (induction "17 - d" arbitrary: d f rule: less_induct)
  case less
  have depth: "Suc d \<le> 16" using filter_shape_type[OF less.prems] by blast
  have sub: "filter_shape (Suc (Suc d)) x = shape_ok \<Longrightarrow> filter_shape (Suc d) x = shape_ok" for x
    using less.hyps[of "Suc d" x] depth by simp
  show ?case
    using less.prems depth
    by (subst filter_shape.simps, subst (asm) filter_shape.simps)
       (auto simp: worst_shape_ok_iff known_ok_iff Let_def MAX_SPEC_DEPTH_def intro: sub split: if_splits)
qed

lemma filter_shape_node: "filter_node f g \<Longrightarrow> filter_shape d f = shape_ok \<Longrightarrow> filter_shape d g = shape_ok"
  by (induction rule: filter_node.induct)
     (use filter_shape_branch filter_shape_negation filter_shape_mono in blast)+

lemma filter_shape_not_undefined: "filter_shape d f = shape_ok \<Longrightarrow> f \<noteq> JUndefined"
  by (auto dest: filter_shape_type)

section \<open>Prefixes by code points\<close>

lemma nth_prefix: "length ps \<le> length xs \<Longrightarrow>
    (\<forall>i < length ps. xs ! i = ps ! i) \<longleftrightarrow> (\<exists>ys. xs = ps @ ys)"
  by (metis (no_types, lifting) append_take_drop_id length_take min.absorb2 nth_append nth_equalityI nth_take)

lemma starts_with_iff: "starts_with (JStr s) p \<longleftrightarrow> (\<exists>xs. code_points s = code_points p @ xs)"
proof -
  have "starts_with (JStr s) p \<longleftrightarrow> length (code_points p) \<le> length (code_points s) \<and>
      (\<forall>i < length (code_points p). code_points s ! i = code_points p ! i)"
    by (simp add: starts_with_def list_all_iff Let_def Ball_def)
  also have "\<dots> \<longleftrightarrow> (\<exists>xs. code_points s = code_points p @ xs)"
    by (metis nth_prefix length_append le_add1)
  finally show ?thesis .
qed

lemma code_points_append:
  "r = [] \<or> \<not> is_continuation (hd r) \<Longrightarrow> code_points (p @ r) = code_points p @ code_points r"
proof (induction p rule: code_points.induct)
  case (2 c cs)
  have "takeWhile is_continuation (cs @ r) = takeWhile is_continuation cs \<and>
      dropWhile is_continuation (cs @ r) = dropWhile is_continuation cs @ r"
    using 2(2) by (cases r) (auto simp: takeWhile_append dropWhile_append takeWhile_eq_all_conv[THEN iffD2])
  with 2 show ?case by simp
qed simp

lemma code_points_prefix:
  "code_points s = code_points p @ xs \<Longrightarrow> p \<noteq> [] \<Longrightarrow> \<exists>r. s = p @ r \<and> (r = [] \<or> \<not> is_continuation (hd r))"
proof (induction p arbitrary: s xs rule: code_points.induct)
  case (2 c cs)
  then obtain ds where s: "s = c # ds" "takeWhile is_continuation ds = takeWhile is_continuation cs"
    "code_points (dropWhile is_continuation ds) = code_points (dropWhile is_continuation cs) @ xs"
    by (cases s) auto
  have split: "ds = takeWhile is_continuation cs @ dropWhile is_continuation ds"
    using s(2) takeWhile_dropWhile_id[of is_continuation ds] by metis
  show ?case
  proof (cases "dropWhile is_continuation cs = []")
    case True
    then have "takeWhile is_continuation cs = cs" by (metis append_Nil2 takeWhile_dropWhile_id)
    moreover have "dropWhile is_continuation ds = [] \<or> \<not> is_continuation (hd (dropWhile is_continuation ds))"
      using hd_dropWhile by blast
    ultimately show ?thesis using s(1) split
      by (intro exI[of _ "dropWhile is_continuation ds"] conjI) (metis append_Cons, blast)
  next
    case False
    from 2(1)[OF s(3) False] obtain r where
      "dropWhile is_continuation ds = dropWhile is_continuation cs @ r" "r = [] \<or> \<not> is_continuation (hd r)"
      by blast
    then show ?thesis using s(1) split takeWhile_dropWhile_id[of is_continuation cs]
      by (intro exI[of _ r]) (metis append.assoc append_Cons)
  qed
qed simp

section \<open>Properties\<close>

text \<open>C27: A filter fails closed: when a filter other than an absent one matches anything, every node of
  its tree, under any nesting of and, or and not, is a record of one of the seven defined types
  and has a well-formed shape with no undefined field. So one unknown or malformed node anywhere
  makes the whole filter match nothing, even under a not.\<close>

theorem filter_fails_closed:
  assumes "filter_matches f subject" "f \<noteq> JUndefined" "filter_node f g"
  shows "filter_shape 1 g = shape_ok \<and> is_record g \<and>
    (\<exists>t \<in> {''match'', ''any_of'', ''range'', ''prefix'', ''and'', ''or'', ''not''}. get ''type'' g = JStr t)"
proof -
  have ok: "filter_shape 1 g = shape_ok"
    using assms filter_shape_node by (auto simp: filter_matches_def)
  then show ?thesis using filter_shape_type[OF ok] by (auto simp: FILTER_TYPES_def)
qed

definition sample_filter :: jsval where
  "sample_filter = JObj [(''type'', JStr ''not''), (''filter'', JObj [(''type'', JStr ''prefix''),
     (''field'', JStr ''tags.artist''), (''prefix'', JStr ''The'')])]"

definition sample_subject :: jsval where
  "sample_subject = JObj [(''tags'', JObj [(''artist'', JStr ''Miles'')])]"

lemma sample_filter_shape:
  "filter_shape 2 (get ''filter'' sample_filter) = shape_ok" "filter_shape 1 sample_filter = shape_ok"
  by (subst filter_shape.simps, simp add: sample_filter_def MAX_SPEC_DEPTH_def known_def has_extra_fields_def
      is_string_def PREFIX_MAX_BYTES_def worst_shape_def filter_shape.simps[of "Suc (Suc 0)"])+

lemma sample_filter_matches: "filter_matches sample_filter sample_subject"
  using sample_filter_shape(2)
  by (simp add: filter_matches_def, simp add: sample_filter_def sample_subject_def evaluate.simps(1) resolve_path_def
      starts_with_def as_array_def is_continuation_def)

theorem filter_fails_closed_witness: "filter_shape 1 (get ''filter'' sample_filter) = shape_ok"
proof -
  have "filter_node sample_filter (get ''filter'' sample_filter)"
    by (rule filter_node.negation) (simp_all add: sample_filter_def filter_node.root)
  from filter_fails_closed[OF sample_filter_matches _ this] show ?thesis
    by (simp add: sample_filter_def)
qed

text \<open>On well-formed operands the connectives are the Boolean ones: and matches what every operand
  matches, or what some operand matches, and not exactly what its operand does not.\<close>

lemma filter_connectives:
  assumes "1 \<le> length fs" "length fs \<le> 64" "\<forall>f \<in> set fs. filter_shape 2 f = shape_ok"
  shows "(filter_matches (JObj [(''type'', JStr ''and''), (''filters'', JArr fs)]) subject \<longleftrightarrow>
      (\<forall>f \<in> set fs. filter_matches f subject)) \<and>
    (filter_matches (JObj [(''type'', JStr ''or''), (''filters'', JArr fs)]) subject \<longleftrightarrow>
      (\<exists>f \<in> set fs. filter_matches f subject)) \<and>
    (\<forall>f \<in> set fs. filter_matches (JObj [(''type'', JStr ''not''), (''filter'', f)]) subject \<longleftrightarrow>
      \<not> filter_matches f subject)"
proof -
  have "filter_shape 1 f = shape_ok \<and> f \<noteq> JUndefined" if "f \<in> set fs" for f
    using that assms(3) filter_shape_mono[of 1 f] filter_shape_not_undefined
    by (metis One_nat_def Suc_1)
  then have sub: "filter_matches f subject \<longleftrightarrow> evaluate f subject" if "f \<in> set fs" for f
    using that by (auto simp: filter_matches_def)
  let ?bin = "\<lambda>t. JObj [(''type'', JStr t), (''filters'', JArr fs)]"
  have shapes: "filter_shape 1 (?bin ''and'') = shape_ok" "filter_shape 1 (?bin ''or'') = shape_ok"
    "\<forall>f \<in> set fs. filter_shape 1 (JObj [(''type'', JStr ''not''), (''filter'', f)]) = shape_ok"
    using assms by (subst filter_shape.simps; force simp: worst_shape_ok_iff known_ok_iff Let_def MAX_SPEC_DEPTH_def
      array_within_def array_elements_def has_extra_fields_def is_string_def numeral_2_eq_2)+
  then show ?thesis
    by (auto simp: filter_matches_def[of "JObj _"] sub evaluate.simps(1) list_all_iff list_ex_iff)
qed

text \<open>A prefix filter compares whole code points: a text starts with a non-empty prefix exactly when
  its bytes do and the prefix does not end inside a character of the text.\<close>

lemma prefix_by_code_points:
  assumes "p \<noteq> []"
  shows "starts_with (JStr s) p \<longleftrightarrow> (\<exists>r. s = p @ r \<and> (r = [] \<or> \<not> is_continuation (hd r)))"
  using assms by (auto simp: starts_with_iff code_points_append dest: code_points_prefix)

end
