(* ===== verification/Identity.thy ===== *)
theory Identity
  imports Encoding
begin

text \<open>
  Key pairs, signing and signature verification (\<open>src/identity/\<close>) and the shapes of unsigned
  and signed entries (\<open>src/types/entry.ts\<close>, \<open>src/entry/build.ts\<close>, \<open>src/entry/signed.ts\<close>).
\<close>

section \<open>Key pairs\<close>

text \<open>\<open>/^0[23][0-9a-f]{64}$/\<close>.\<close>

definition is_compressed_pubkey_string :: "string \<Rightarrow> bool" where
  "is_compressed_pubkey_string s =
     (length s = 66 \<and> s ! 0 = CHR ''0'' \<and> s ! 1 \<in> set ''23'' \<and> list_all is_lower_hex (drop 2 s))"

definition is_compressed_pubkey :: "jsval \<Rightarrow> bool" where
  "is_compressed_pubkey v = (case as_string v of None \<Rightarrow> False | Some s \<Rightarrow> is_compressed_pubkey_string s)"

definition validate_compressed_pubkey :: "jsval \<Rightarrow> string result" where
  "validate_compressed_pubkey v = (case as_string v of
     None \<Rightarrow> Inl invalid_public_key
   | Some s \<Rightarrow> if \<not> is_compressed_pubkey v then Inl invalid_public_key else Inr s)"

record key_pair =
  private_key :: bytes
  public_key :: string

definition compressed_pubkey_from_private :: "deps \<Rightarrow> bytes \<Rightarrow> string" where
  "compressed_pubkey_from_private D k = bytesToHex D (secp_public_key D k)"

definition is_test_vector_key :: "bytes \<Rightarrow> bool" where
  "is_test_vector_key k =
     (length k = 32 \<and> list_all (\<lambda>(i, b). b = (if i = 31 then 1 else 0)) (enumerate 0 k))"

definition key_pair_from_private_key :: "deps \<Rightarrow> bytes \<Rightarrow> key_pair result" where
  "key_pair_from_private_key D k =
     (if \<not> secp_valid_secret D k then Inl invalid_private_key
      else if is_test_vector_key k then Inl test_key_refused
      else Inr \<lparr>private_key = k, public_key = compressed_pubkey_from_private D k\<rparr>)"

lemma is_compressed_pubkey_iff:
  "is_compressed_pubkey v \<longleftrightarrow> (\<exists>s. v = JStr s \<and> is_compressed_pubkey_string s)"
  by (auto simp: is_compressed_pubkey_def split: option.splits)

lemma is_compressed_pubkey_JStr [simp]: "is_compressed_pubkey (JStr s) = is_compressed_pubkey_string s"
  by (simp add: is_compressed_pubkey_def)

lemma validate_compressed_pubkey_Inr_iff [result_simps]:
  "validate_compressed_pubkey v = Inr s \<longleftrightarrow> v = JStr s \<and> is_compressed_pubkey_string s"
  by (auto simp: validate_compressed_pubkey_def split: option.splits)

text \<open>The key refused is the scalar 1, and only it.\<close>

lemma is_test_vector_key_iff: "is_test_vector_key k \<longleftrightarrow> k = replicate 31 0 @ [1]"
proof
  assume L: "is_test_vector_key k"
  then have len: "length k = 32" by (simp add: is_test_vector_key_def)
  from L have "\<forall>i < 32. k ! i = (if i = 31 then 1 else 0)"
    by (auto simp: is_test_vector_key_def list_all_length nth_enumerate_eq)
  with len show "k = replicate 31 0 @ [1]"
    by (auto simp: list_eq_iff_nth_eq[of k] nth_append less_Suc_eq)
next
  assume "k = replicate 31 0 @ [1]"
  then show "is_test_vector_key k"
    by (auto simp: is_test_vector_key_def list_all_length nth_enumerate_eq nth_append less_Suc_eq)
qed

section \<open>Entries\<close>

record lamport_clock =
  clock_id :: string
  clock_time :: nat

text \<open>The six signed fields; \<open>v\<close> is the literal 2.\<close>

record unsigned_entry =
  e_id :: string
  e_payload :: jsval
  e_next :: "string list"
  e_refs :: "string list"
  e_clock :: lamport_clock

record signed_entry = unsigned_entry +
  e_key :: string
  e_sig :: string

definition js_strings :: "string list \<Rightarrow> jsval" where
  "js_strings xs = JArr (map JStr xs)"

definition js_clock :: "lamport_clock \<Rightarrow> jsval" where
  "js_clock c = JObj [(''id'', JStr (clock_id c)), (''time'', JInt (int (clock_time c)))]"

text \<open>\<open>unsigned_fields\<close>: exactly the six signed fields reach the signing bytes.\<close>

definition unsigned_fields :: "'a unsigned_entry_scheme \<Rightarrow> jsval" where
  "unsigned_fields e = JObj
     [(''id'', JStr (e_id e)), (''payload'', e_payload e), (''next'', js_strings (e_next e)),
      (''refs'', js_strings (e_refs e)), (''v'', JInt 2), (''clock'', js_clock (e_clock e))]"

definition signed_fields :: "signed_entry \<Rightarrow> jsval" where
  "signed_fields e = JObj
     [(''id'', JStr (e_id e)), (''payload'', e_payload e), (''next'', js_strings (e_next e)),
      (''refs'', js_strings (e_refs e)), (''v'', JInt 2), (''clock'', js_clock (e_clock e)),
      (''key'', JStr (e_key e)), (''sig'', JStr (e_sig e))]"

section \<open>Signing and verification\<close>

definition signing_digest :: "deps \<Rightarrow> 'a unsigned_entry_scheme \<Rightarrow> bytes" where
  "signing_digest D e = sha256 D (encode_canonical D (unsigned_fields e))"

definition sign_entry :: "deps \<Rightarrow> unsigned_entry \<Rightarrow> bytes \<Rightarrow> signed_entry" where
  "sign_entry D e k = unsigned_entry.extend (unsigned_entry.truncate e)
     (signed_entry.fields (compressed_pubkey_from_private D k)
        (bytesToHex D (secp_sign D (signing_digest D e) k)))"

text \<open>The cache of public key objects, cleared when it is full.\<close>

definition KEY_CACHE_LIMIT :: nat where "KEY_CACHE_LIMIT = 1024"

type_synonym key_cache = "(string, bytes) omap"

text \<open>\<open>None\<close> where \<open>public_key\<close> throws, which leaves the cache as it is after the clearing.\<close>

definition cached_public_key :: "deps \<Rightarrow> key_cache \<Rightarrow> string \<Rightarrow> key_cache \<times> bytes option" where
  "cached_public_key D cache hex = (case omap_get cache hex of
     Some key \<Rightarrow> (cache, Some key)
   | None \<Rightarrow>
       let cleared = (if length cache \<ge> KEY_CACHE_LIMIT then [] else cache)
       in case spki_public_key D hex of
         None \<Rightarrow> (cleared, None)
       | Some key \<Rightarrow> (omap_set hex key cleared, Some key))"

definition verify_native :: "deps \<Rightarrow> key_cache \<Rightarrow> string \<Rightarrow> bytes \<Rightarrow> string \<Rightarrow> key_cache \<times> bool option" where
  "verify_native D cache sig digest key =
     (case sig_compact D sig of
        None \<Rightarrow> (cache, None)
      | Some sig_bytes \<Rightarrow>
          let (cache', key_object) = cached_public_key D cache key
          in (cache', case key_object of None \<Rightarrow> None | Some k \<Rightarrow> openssl_verify D digest k sig_bytes))"

definition verify_entry_signature_cached :: "deps \<Rightarrow> key_cache \<Rightarrow> signed_entry \<Rightarrow> key_cache \<times> bool" where
  "verify_entry_signature_cached D cache e =
     (let digest = signing_digest D e
      in if native_available D \<and> is_compressed_pubkey (JStr (e_key e))
         then let (cache', verdict) = verify_native D cache (e_sig e) digest (e_key e)
              in (cache', verdict = Some True)
         else (cache, noble_verify D (e_sig e) digest (e_key e) = Some True))"

text \<open>The verdict without the cache, which is what every caller sees.\<close>

definition verify_entry_signature :: "deps \<Rightarrow> signed_entry \<Rightarrow> bool" where
  "verify_entry_signature D e =
     (let digest = signing_digest D e
      in if native_available D \<and> is_compressed_pubkey (JStr (e_key e))
         then (case (sig_compact D (e_sig e), spki_public_key D (e_key e)) of
             (Some sig_bytes, Some k) \<Rightarrow> openssl_verify D digest k sig_bytes = Some True
           | _ \<Rightarrow> False)
         else noble_verify D (e_sig e) digest (e_key e) = Some True)"

definition key_cache_ok :: "deps \<Rightarrow> key_cache \<Rightarrow> bool" where
  "key_cache_ok D cache \<longleftrightarrow> length cache \<le> KEY_CACHE_LIMIT \<and>
     list_all (\<lambda>(hex, key). spki_public_key D hex = Some key) cache"

lemma key_cache_ok_get: "key_cache_ok D cache \<Longrightarrow> map_of cache hex = Some key \<Longrightarrow> spki_public_key D hex = Some key"
  by (auto simp: key_cache_ok_def list_all_iff dest!: map_of_SomeD)

lemma cached_public_key_snd: "key_cache_ok D cache \<Longrightarrow> snd (cached_public_key D cache hex) = spki_public_key D hex"
  by (auto simp: cached_public_key_def Let_def key_cache_ok_get split: option.splits)

lemma cached_public_key_ok: "key_cache_ok D cache \<Longrightarrow> key_cache_ok D (fst (cached_public_key D cache hex))"
  by (auto simp: cached_public_key_def Let_def key_cache_ok_def KEY_CACHE_LIMIT_def omap_set_new split: option.splits)

lemma verify_cached:
  assumes "key_cache_ok D cache"
  shows "snd (verify_entry_signature_cached D cache e) = verify_entry_signature D e \<and>
    key_cache_ok D (fst (verify_entry_signature_cached D cache e))"
  using cached_public_key_snd[OF assms, of "e_key e"] cached_public_key_ok[OF assms, of "e_key e"] assms
  by (auto simp: verify_entry_signature_cached_def verify_entry_signature_def verify_native_def Let_def
      split: prod.splits option.splits)

section \<open>Entry shapes\<close>

definition MAX_ENTRY_POINTERS :: nat where "MAX_ENTRY_POINTERS = 256"

definition assert_pointers :: "jsval \<Rightarrow> string list result" where
  "assert_pointers v = (case as_array v of
     None \<Rightarrow> Inl invalid_shape
   | Some xs \<Rightarrow>
       if length xs > MAX_ENTRY_POINTERS then Inl size_exceeded
       else if \<not> list_all is_protocol_cid xs then Inl invalid_shape
       else Inr (List.map_filter as_string xs))"

definition assert_clock_shape :: "jsval \<Rightarrow> lamport_clock result" where
  "assert_clock_shape v =
     (if \<not> is_record v \<or> length (keys v) \<noteq> 2 then Inl invalid_shape
      else case as_string (get ''id'' v) of
        None \<Rightarrow> Inl invalid_shape
      | Some i \<Rightarrow>
          if \<not> is_compressed_pubkey (JStr i) then Inl invalid_shape
          else case as_uint (get ''time'' v) of
            None \<Rightarrow> Inl invalid_shape
          | Some t \<Rightarrow> Inr \<lparr>clock_id = i, clock_time = t\<rparr>)"

definition assert_unsigned_fields :: "jsval \<Rightarrow> unsigned_entry result" where
  "assert_unsigned_fields v = (case as_string (get ''id'' v) of
     None \<Rightarrow> Inl invalid_shape
   | Some i \<Rightarrow>
       if \<not> has ''payload'' v then Inl invalid_shape
       else if get ''v'' v \<noteq> JInt 2 then Inl invalid_shape
       else and_then (assert_pointers (get ''next'' v)) (\<lambda>next_hashes.
            and_then (assert_pointers (get ''refs'' v)) (\<lambda>ref_hashes.
            and_then (assert_clock_shape (get ''clock'' v)) (\<lambda>clock.
              Inr \<lparr>e_id = i, e_payload = get ''payload'' v, e_next = next_hashes,
                   e_refs = ref_hashes, e_clock = clock\<rparr>))))"

text \<open>The typed input carries no \<open>hash\<close>, \<open>key\<close> or \<open>sig\<close> field, so that guard never fires.\<close>

definition build_unsigned_entry ::
  "string \<Rightarrow> jsval \<Rightarrow> string list \<Rightarrow> string list \<Rightarrow> lamport_clock \<Rightarrow> unsigned_entry result" where
  "build_unsigned_entry i payload next_hashes ref_hashes clock =
     assert_unsigned_fields (JObj
       [(''id'', JStr i), (''payload'', payload), (''next'', js_strings next_hashes),
        (''refs'', js_strings ref_hashes), (''clock'', js_clock clock), (''v'', JInt 2)])"

definition SIGNED_ENTRY_FIELDS :: "string list" where
  "SIGNED_ENTRY_FIELDS = [''id'', ''payload'', ''next'', ''refs'', ''v'', ''clock'', ''key'', ''sig'']"

definition assert_signed_entry_shape :: "jsval \<Rightarrow> signed_entry result" where
  "assert_signed_entry_shape v =
     (if \<not> is_record v then Inl invalid_shape
      else if \<not> has_exact_fields v SIGNED_ENTRY_FIELDS then Inl invalid_shape
      else if \<not> is_compressed_pubkey (get ''key'' v) then Inl invalid_public_key
      else case (as_string (get ''key'' v), as_string (get ''sig'' v)) of
        (Some k, Some s) \<Rightarrow>
          and_then (assert_unsigned_fields v) (\<lambda>u.
            Inr (unsigned_entry.extend u (signed_entry.fields k s)))
      | _ \<Rightarrow> Inl invalid_shape)"

record hashed_entry =
  he_hash :: string
  he_multihash :: bytes
  he_bytes :: bytes
  he_entry :: signed_entry

definition with_hash :: "deps \<Rightarrow> signed_entry \<Rightarrow> bytes \<Rightarrow> hashed_entry" where
  "with_hash D e bs =
     \<lparr>he_hash = format_protocol_cid (compute_cid D bs),
      he_multihash = multihash_of_digest D (sha3_512 D bs), he_bytes = bs, he_entry = e\<rparr>"

definition hash_signed_entry :: "deps \<Rightarrow> signed_entry \<Rightarrow> hashed_entry" where
  "hash_signed_entry D e = with_hash D e (encode_canonical D (signed_fields e))"

definition decode_signed_entry :: "deps \<Rightarrow> bytes \<Rightarrow> hashed_entry result" where
  "decode_signed_entry D bs =
     and_then (assert_signed_entry_size bs) (\<lambda>_.
     and_then (decode_canonical D bs) (\<lambda>(value, bs').
     and_then (assert_signed_entry_shape value) (\<lambda>e. Inr (with_hash D e bs'))))"

section \<open>What a well-shaped entry is\<close>

definition pointers_ok :: "string list \<Rightarrow> bool" where
  "pointers_ok hs \<longleftrightarrow> length hs \<le> 256 \<and> list_all (\<lambda>h. is_protocol_cid (JStr h)) hs"

definition unsigned_ok :: "'a unsigned_entry_scheme \<Rightarrow> bool" where
  "unsigned_ok e \<longleftrightarrow> pointers_ok (e_next e) \<and> pointers_ok (e_refs e) \<and>
     is_compressed_pubkey_string (clock_id (e_clock e)) \<and> int (clock_time (e_clock e)) \<le> MAX_SAFE_INTEGER"

definition signed_ok :: "signed_entry \<Rightarrow> bool" where
  "signed_ok e \<longleftrightarrow> unsigned_ok e \<and> is_compressed_pubkey_string (e_key e)"

lemma is_protocol_cid_string: "is_protocol_cid v \<Longrightarrow> \<exists>s. v = JStr s"
  by (auto simp: is_protocol_cid_iff)

lemma map_filter_as_string: "list_all is_protocol_cid xs \<Longrightarrow> map JStr (List.map_filter as_string xs) = xs"
  by (induction xs) (auto simp: List.map_filter_simps dest!: is_protocol_cid_string)

lemma map_filter_as_string_JStr [simp]: "List.map_filter as_string (map JStr xs) = xs"
  by (induction xs) (simp_all add: List.map_filter_simps)

lemma assert_pointers_Inr_iff [result_simps]:
  "assert_pointers v = Inr hs \<longleftrightarrow> v = js_strings hs \<and> pointers_ok hs"
proof
  assume L: "assert_pointers v = Inr hs"
  then obtain xs where xs: "v = JArr xs" "length xs \<le> 256" "list_all is_protocol_cid xs"
    "hs = List.map_filter as_string xs"
    by (auto simp: assert_pointers_def MAX_ENTRY_POINTERS_def split: option.splits if_splits)
  have eq: "xs = map JStr hs" using map_filter_as_string xs(3,4) by simp
  show "v = js_strings hs \<and> pointers_ok hs"
    using xs(1-3) unfolding eq by (simp add: js_strings_def pointers_ok_def list.pred_map comp_def)
next
  assume R: "v = js_strings hs \<and> pointers_ok hs"
  then show "assert_pointers v = Inr hs"
    by (auto simp: assert_pointers_def js_strings_def pointers_ok_def MAX_ENTRY_POINTERS_def list_all_iff)
qed

lemma assert_clock_shape_js [simp]:
  "assert_clock_shape (js_clock c) = Inr c \<longleftrightarrow>
     is_compressed_pubkey_string (clock_id c) \<and> int (clock_time c) \<le> MAX_SAFE_INTEGER"
  by (auto simp: assert_clock_shape_def js_clock_def)

lemma assert_clock_shape_ok:
  "assert_clock_shape v = Inr c \<Longrightarrow>
     is_compressed_pubkey_string (clock_id c) \<and> int (clock_time c) \<le> MAX_SAFE_INTEGER"
  by (auto simp: assert_clock_shape_def as_uint_Some_iff split: if_splits option.splits)

lemma assert_unsigned_fields_ok: "assert_unsigned_fields v = Inr u \<Longrightarrow> unsigned_ok u"
  by (auto simp: assert_unsigned_fields_def result_simps unsigned_ok_def
      dest: assert_clock_shape_ok split: option.splits if_splits)

lemma assert_signed_entry_shape_ok: "assert_signed_entry_shape v = Inr e \<Longrightarrow> signed_ok e"
  by (auto simp: assert_signed_entry_shape_def result_simps signed_ok_def unsigned_entry.defs
      signed_entry.defs unsigned_ok_def dest!: assert_unsigned_fields_ok split: option.splits if_splits)

lemma assert_unsigned_fields_signed:
  "unsigned_ok e \<Longrightarrow> assert_unsigned_fields (signed_fields e) = Inr (unsigned_entry.truncate e)"
proof -
  assume ok: "unsigned_ok e"
  then have "assert_pointers (js_strings (e_next e)) = Inr (e_next e)"
    "assert_pointers (js_strings (e_refs e)) = Inr (e_refs e)"
    "assert_clock_shape (js_clock (e_clock e)) = Inr (e_clock e)"
    by (simp_all add: assert_pointers_Inr_iff unsigned_ok_def)
  then show ?thesis
    by (simp add: assert_unsigned_fields_def signed_fields_def unsigned_entry.defs del: assert_clock_shape_js)
qed

text \<open>Checking an entry again changes nothing: shape validation is the identity on what it accepts.\<close>

lemma assert_signed_entry_shape_signed [simp]:
  "signed_ok e \<Longrightarrow> assert_signed_entry_shape (signed_fields e) = Inr e"
proof -
  assume ok: "signed_ok e"
  have exact: "has_exact_fields (signed_fields e) SIGNED_ENTRY_FIELDS"
    by (simp add: has_exact_fields_def SIGNED_ENTRY_FIELDS_def signed_fields_def)
  have rec: "is_record (signed_fields e)" "get ''key'' (signed_fields e) = JStr (e_key e)"
    "get ''sig'' (signed_fields e) = JStr (e_sig e)" by (simp_all add: signed_fields_def)
  show ?thesis
    using ok exact rec assert_unsigned_fields_signed[of e]
    by (simp add: assert_signed_entry_shape_def signed_ok_def unsigned_entry.defs signed_entry.defs)
qed

lemma decode_signed_entry_Inr:
  "decode_signed_entry D bs = Inr h \<Longrightarrow>
     length bs \<le> SIGNED_ENTRY_MAX_BYTES \<and> signed_ok (he_entry h) \<and> h = with_hash D (he_entry h) bs"
  by (auto simp: decode_signed_entry_def result_simps assert_signed_entry_size_def with_hash_def
      dest: assert_signed_entry_shape_ok)

lemma build_unsigned_entry_Inr_iff:
  "build_unsigned_entry i payload ns rs c = Inr u \<longleftrightarrow>
     u = \<lparr>e_id = i, e_payload = payload, e_next = ns, e_refs = rs, e_clock = c\<rparr> \<and> unsigned_ok u"
proof -
  have str: "js_strings xs = js_strings ys \<longleftrightarrow> xs = ys" for xs ys
    by (auto simp: js_strings_def inj_map_eq_map inj_def)
  have "assert_clock_shape (js_clock c) = Inr d \<longleftrightarrow> d = c \<and> assert_clock_shape (js_clock c) = Inr c" for d
    by (auto simp: assert_clock_shape_def js_clock_def)
  then show ?thesis
    by (auto simp: build_unsigned_entry_def assert_unsigned_fields_def result_simps unsigned_ok_def str)
qed

section \<open>Properties\<close>

definition sample_pubkey :: string where
  "sample_pubkey = ''02'' @ replicate 64 (CHR ''a'')"

definition sample_entry :: signed_entry where
  "sample_entry = \<lparr>e_id = ''/record/z/about'', e_payload = JNull, e_next = [], e_refs = [],
     e_clock = \<lparr>clock_id = sample_pubkey, clock_time = 1\<rparr>, e_key = sample_pubkey, e_sig = ''s''\<rparr>"

lemma sample_entry_ok [simp]: "signed_ok sample_entry"
  by (simp add: signed_ok_def unsigned_ok_def pointers_ok_def sample_entry_def sample_pubkey_def
      is_compressed_pubkey_string_def is_lower_hex_def MAX_SAFE_INTEGER_def list_all_iff)

lemma sample_entry_codec [simp]:
  "cbor_decode (sample_deps [signed_fields sample_entry])
     (cbor_encode (sample_deps [signed_fields sample_entry]) (signed_fields sample_entry)) =
   Some (signed_fields sample_entry)"
  by (simp add: sample_deps_def)

lemma sample_entry_fits [simp]:
  "length (cbor_encode (sample_deps table) (signed_fields sample_entry)) \<le> SIGNED_ENTRY_MAX_BYTES"
  by (simp add: sample_deps_def signed_fields_def sample_entry_def sample_pubkey_def js_strings_def js_clock_def
      SIGNED_ENTRY_MAX_BYTES_def)

text \<open>A well-shaped signed entry survives storage: the bytes \<open>hash_signed_entry\<close> produces decode
  back to the same entry with the same hash, whenever the codec decodes what it encoded and the
  entry is within the 256 KiB bound.\<close>

lemma signed_entry_roundtrip:
  assumes codec: "cbor_decode D (cbor_encode D (signed_fields e)) = Some (signed_fields e)"
    and shape: "signed_ok e" and fits: "length (cbor_encode D (signed_fields e)) \<le> SIGNED_ENTRY_MAX_BYTES"
  shows "decode_signed_entry D (he_bytes (hash_signed_entry D e)) = Inr (hash_signed_entry D e)"
  using assms
  by (simp add: decode_signed_entry_def hash_signed_entry_def with_hash_def encode_canonical_def
      decode_canonical_def assert_signed_entry_size_def assert_max_def)

text \<open>C25: What decodes as a signed entry is within the size bound, names at most 256 entries in next
  and in refs, all of them protocol CIDs, has compressed public keys as its key and clock id and a
  clock that is a safe integer, and its hash and multihash are those of the bytes received.\<close>

theorem decoded_entry_bounds:
  assumes "decode_signed_entry D bs = Inr h"
  shows "length bs \<le> 256 * 1024 \<and> he_bytes h = bs \<and>
    he_hash h = compute_cid_string D bs \<and> he_multihash h = multihash_of_digest D (sha3_512 D bs) \<and>
    length (e_next (he_entry h)) \<le> 256 \<and> length (e_refs (he_entry h)) \<le> 256 \<and>
    (\<forall>p \<in> set (e_next (he_entry h)) \<union> set (e_refs (he_entry h)). is_protocol_cid (JStr p)) \<and>
    is_compressed_pubkey_string (e_key (he_entry h)) \<and>
    is_compressed_pubkey_string (clock_id (e_clock (he_entry h))) \<and>
    clock_time (e_clock (he_entry h)) < 2 ^ 53"
proof -
  note d = decode_signed_entry_Inr[OF assms]
  from d have ok: "signed_ok (he_entry h)" and eq: "h = with_hash D (he_entry h) bs" by blast+
  have fields: "he_bytes h = bs" "he_hash h = compute_cid_string D bs"
    "he_multihash h = multihash_of_digest D (sha3_512 D bs)"
    by (subst eq, simp add: with_hash_def compute_cid_string_def)+
  have "int (clock_time (e_clock (he_entry h))) < 2 ^ 53"
    using ok by (simp add: signed_ok_def unsigned_ok_def MAX_SAFE_INTEGER_def)
  then have time: "clock_time (e_clock (he_entry h)) < 2 ^ 53" by simp
  from ok have shapes: "length (e_next (he_entry h)) \<le> 256" "length (e_refs (he_entry h)) \<le> 256"
    "\<forall>p \<in> set (e_next (he_entry h)) \<union> set (e_refs (he_entry h)). is_protocol_cid (JStr p)"
    "is_compressed_pubkey_string (e_key (he_entry h))"
    "is_compressed_pubkey_string (clock_id (e_clock (he_entry h)))"
    by (auto simp: signed_ok_def unsigned_ok_def pointers_ok_def list_all_iff)
  from d have "length bs \<le> 256 * 1024" by (simp add: SIGNED_ENTRY_MAX_BYTES_def)
  with fields shapes time show ?thesis by blast
qed

lemma sample_decoded:
  "decode_signed_entry (sample_deps [signed_fields sample_entry]) (sample_encode (signed_fields sample_entry)) =
   Inr (with_hash (sample_deps [signed_fields sample_entry]) sample_entry (sample_encode (signed_fields sample_entry)))"
proof -
  have "cbor_encode (sample_deps [signed_fields sample_entry]) = sample_encode" by (simp add: sample_deps_def)
  then show ?thesis
    using sample_entry_codec sample_entry_fits[of "[]"]
    by (simp add: decode_signed_entry_def decode_canonical_def assert_signed_entry_size_def assert_max_def sample_deps_def)
qed

theorem decoded_entry_bounds_witness:
  "length (sample_encode (signed_fields sample_entry)) \<le> 256 * 1024"
  using decoded_entry_bounds[OF sample_decoded] by blast

text \<open>C26: The bounded cache of public key objects is invisible: starting from a cache that holds only
  keys it derived, the cached verdict is the verdict of verification without a cache, and the
  cache stays correct and within its limit of 1024 keys.\<close>

theorem signature_cache_transparent:
  assumes "key_cache_ok D cache"
  shows "snd (verify_entry_signature_cached D cache e) = verify_entry_signature D e \<and>
    key_cache_ok D (fst (verify_entry_signature_cached D cache e)) \<and>
    length (fst (verify_entry_signature_cached D cache e)) \<le> 1024"
  using verify_cached[OF assms, of e] by (simp add: key_cache_ok_def KEY_CACHE_LIMIT_def)

theorem signature_cache_transparent_witness:
  "snd (verify_entry_signature_cached (sample_deps []) [(''k'', utf8ToBytes ''k'')] sample_entry) =
     verify_entry_signature (sample_deps []) sample_entry"
proof -
  have "key_cache_ok (sample_deps []) [(''k'', utf8ToBytes ''k'')]"
    by (simp add: key_cache_ok_def sample_deps_def KEY_CACHE_LIMIT_def)
  from signature_cache_transparent[OF this, of sample_entry] show ?thesis by blast
qed

end
