(* ===== verification/Capability_Record.thy ===== *)
theory Capability_Record
  imports Filter_Spec Identity
begin

text \<open>
  Capability and revocation records (\<open>src/access-control/capability-record.ts\<close>): their shapes, the
  operation key derived from a record, and the grantee and condition checks.
\<close>

definition ACCESS_RECORD_TYPES :: "string list" where
  "ACCESS_RECORD_TYPES = [''capability'', ''revocation'']"

definition ACTIONS :: "string list" where
  "ACTIONS = [''library.append_track'', ''library.write_label'', ''library.update_about'', ''library.grant_capability'']"

definition CAPABILITY_FIELDS :: "string list" where
  "CAPABILITY_FIELDS = [''type'', ''v'', ''timestamp'', ''grantee'', ''actions'', ''filter'', ''conditions'']"

definition REVOCATION_FIELDS :: "string list" where
  "REVOCATION_FIELDS = [''type'', ''v'', ''timestamp'', ''revokes'']"

definition is_access_record_type :: "jsval \<Rightarrow> bool" where
  "is_access_record_type v = (v \<in> JStr ` set ACCESS_RECORD_TYPES)"

definition record_key :: "deps \<Rightarrow> jsval \<Rightarrow> string" where
  "record_key D v = bytesToHex D (sha256 D (encode_canonical D v))"

definition grantee_shape :: "jsval \<Rightarrow> shape" where
  "grantee_shape grantee =
     (if \<not> is_record grantee \<or> \<not> is_string (get ''type'' grantee) then shape_malformed
      else if get ''type'' grantee = JStr ''key'' then
        if \<not> is_compressed_pubkey (get ''key'' grantee) then shape_malformed
        else if has_extra_fields grantee [''type'', ''key''] then shape_unknown else shape_ok
      else if get ''type'' grantee = JStr ''key_set'' then
        if \<not> array_within 1 256 (get ''keys'' grantee) \<or>
           \<not> list_all is_compressed_pubkey (array_elements (get ''keys'' grantee)) then shape_malformed
        else if has_extra_fields grantee [''type'', ''keys''] then shape_unknown else shape_ok
      else shape_unknown)"

definition condition_shape :: "jsval \<Rightarrow> shape" where
  "condition_shape condition =
     (if \<not> is_record condition \<or> \<not> is_string (get ''type'' condition) then shape_malformed
      else if get ''type'' condition = JStr ''expires_at'' then
        if \<not> is_uint (get ''at'' condition) then shape_malformed
        else if has_extra_fields condition [''type'', ''at''] then shape_unknown else shape_ok
      else shape_unknown)"

text \<open>\<open>value ?? []\<close>.\<close>

definition or_empty :: "jsval \<Rightarrow> jsval" where
  "or_empty v = (if v = JUndefined \<or> v = JNull then JArr [] else v)"

definition capability_shape :: "jsval \<Rightarrow> shape" where
  "capability_shape r =
     (let conditions = or_empty (get ''conditions'' r)
      in if \<not> (get ''v'' r = JInt 1 \<and> is_uint (get ''timestamp'' r) \<and>
               array_within 1 16 (get ''actions'' r) \<and> list_all is_string (array_elements (get ''actions'' r)) \<and>
               array_within 0 16 conditions) then shape_malformed
         else worst_shape
           ([if has_extra_fields r CAPABILITY_FIELDS then shape_unknown else shape_ok,
             grantee_shape (get ''grantee'' r),
             if get ''filter'' r = JUndefined then shape_ok else filter_shape 1 (get ''filter'' r)] @
            map condition_shape (array_elements conditions)))"

definition revocation_well_formed :: "jsval \<Rightarrow> bool" where
  "revocation_well_formed r =
     (get ''v'' r = JInt 1 \<and> is_uint (get ''timestamp'' r) \<and> is_string (get ''revokes'' r) \<and>
      \<not> has_extra_fields r REVOCATION_FIELDS)"

definition validate_access_record :: "deps \<Rightarrow> string \<Rightarrow> jsval \<Rightarrow> unit result" where
  "validate_access_record D key value =
     (if key \<noteq> record_key D value then Inl invalid_shape
      else if \<not> (if get ''type'' value = JStr ''capability'' then capability_shape value \<noteq> shape_malformed
                  else revocation_well_formed value) then Inl invalid_shape
      else Inr ())"

definition grantee_matches :: "jsval \<Rightarrow> string \<Rightarrow> bool" where
  "grantee_matches grantee key =
     (if grantee_shape grantee \<noteq> shape_ok then False
      else if get ''type'' grantee = JStr ''key'' then get ''key'' grantee = JStr key
      else JStr key \<in> set (array_elements (get ''keys'' grantee)))"

definition expires_at :: "jsval \<Rightarrow> rat" where
  "expires_at condition = number_value (get ''at'' condition)"

definition conditions_hold :: "jsval \<Rightarrow> nat \<Rightarrow> bool" where
  "conditions_hold conditions timestamp =
     list_all (\<lambda>condition. condition_shape condition = shape_ok \<and> of_nat timestamp \<le> expires_at condition)
       (array_elements (or_empty conditions))"

definition capability_fails_closed :: "jsval \<Rightarrow> bool" where
  "capability_fails_closed r = has_extra_fields r CAPABILITY_FIELDS"

definition assert_issuable_capability :: "jsval \<Rightarrow> unit result" where
  "assert_issuable_capability r =
     (if capability_shape r \<noteq> shape_ok then Inl invalid_shape
      else if List.filter (\<lambda>action. action \<notin> JStr ` set ACTIONS) (array_elements (get ''actions'' r)) \<noteq> []
      then Inl invalid_shape else Inr ())"

definition build_capability_record ::
  "nat \<Rightarrow> jsval \<Rightarrow> string list \<Rightarrow> jsval \<Rightarrow> jsval list option \<Rightarrow> jsval" where
  "build_capability_record timestamp grantee actions spec conditions = JObj
     ([(''type'', JStr ''capability''), (''v'', JInt 1), (''timestamp'', JInt (int timestamp)),
       (''grantee'', grantee), (''actions'', js_strings actions)] @
      (if spec = JUndefined then [] else [(''filter'', spec)]) @
      (case conditions of None \<Rightarrow> [] | Some cs \<Rightarrow> if length cs = 0 then [] else [(''conditions'', JArr cs)]))"

definition build_revocation_record :: "nat \<Rightarrow> string \<Rightarrow> jsval" where
  "build_revocation_record timestamp revokes = JObj
     [(''type'', JStr ''revocation''), (''v'', JInt 1), (''timestamp'', JInt (int timestamp)), (''revokes'', JStr revokes)]"

section \<open>Shapes and what they promise\<close>

lemma is_uint_iff: "is_uint v \<longleftrightarrow> (\<exists>n. v = JInt (int n) \<and> int n \<le> MAX_SAFE_INTEGER)"
  by (auto simp: is_uint_def as_uint_Some_iff)

lemma condition_shape_ok_iff:
  "condition_shape c = shape_ok \<longleftrightarrow> is_record c \<and> get ''type'' c = JStr ''expires_at'' \<and>
     is_uint (get ''at'' c) \<and> \<not> has_extra_fields c [''type'', ''at'']"
  by (auto simp: condition_shape_def is_string_def)

lemma capability_shape_not_malformed:
  "capability_shape r \<noteq> shape_malformed \<Longrightarrow>
     get ''v'' r = JInt 1 \<and> is_uint (get ''timestamp'' r) \<and> array_within 1 16 (get ''actions'' r) \<and>
     array_within 0 16 (or_empty (get ''conditions'' r))"
  by (auto simp: capability_shape_def Let_def split: if_split_asm)

lemma capability_shape_ok_iff:
  "capability_shape r = shape_ok \<longleftrightarrow>
     get ''v'' r = JInt 1 \<and> is_uint (get ''timestamp'' r) \<and>
     array_within 1 16 (get ''actions'' r) \<and> list_all is_string (array_elements (get ''actions'' r)) \<and>
     array_within 0 16 (or_empty (get ''conditions'' r)) \<and>
     \<not> has_extra_fields r CAPABILITY_FIELDS \<and> grantee_shape (get ''grantee'' r) = shape_ok \<and>
     (get ''filter'' r = JUndefined \<or> filter_shape 1 (get ''filter'' r) = shape_ok) \<and>
     (\<forall>c \<in> set (array_elements (or_empty (get ''conditions'' r))). condition_shape c = shape_ok)"
  by (auto simp: capability_shape_def Let_def worst_shape_ok_iff)

lemma validate_access_record_Inr_iff [result_simps]:
  "validate_access_record D key value = Inr u \<longleftrightarrow> key = record_key D value \<and>
     (if get ''type'' value = JStr ''capability'' then capability_shape value \<noteq> shape_malformed
      else revocation_well_formed value)"
  by (auto simp: validate_access_record_def)

lemma keys_build_capability_record:
  "set (keys (build_capability_record t g actions spec cs)) \<subseteq> set CAPABILITY_FIELDS"
  by (auto simp: build_capability_record_def CAPABILITY_FIELDS_def split: option.splits if_splits)

lemma get_build_capability_record [simp]:
  "get ''type'' (build_capability_record t g actions spec cs) = JStr ''capability''"
  "get ''v'' (build_capability_record t g actions spec cs) = JInt 1"
  "get ''timestamp'' (build_capability_record t g actions spec cs) = JInt (int t)"
  "get ''grantee'' (build_capability_record t g actions spec cs) = g"
  "get ''actions'' (build_capability_record t g actions spec cs) = js_strings actions"
  "get ''filter'' (build_capability_record t g actions spec cs) = spec"
  "get ''conditions'' (build_capability_record t g actions spec cs) =
     (case cs of None \<Rightarrow> JUndefined | Some xs \<Rightarrow> if xs = [] then JUndefined else JArr xs)"
  by (simp_all add: build_capability_record_def split: option.splits)

lemma array_elements_js_strings [simp]: "array_elements (js_strings xs) = map JStr xs"
  by (simp add: array_elements_def js_strings_def)

lemma array_within_js_strings [simp]: "array_within lo hi (js_strings xs) \<longleftrightarrow> lo \<le> length xs \<and> length xs \<le> hi"
  by (simp add: array_within_def js_strings_def)

section \<open>Properties\<close>

text \<open>A capability built from a well-formed grantee, one to sixteen defined actions, an absent or
  well-formed filter and at most sixteen well-formed conditions is issuable, is accepted as an
  access record under the key derived from it, and is not one that fails closed; and its
  conditions hold at exactly the timestamps up to every expiry.\<close>

lemma built_capability_accepted:
  assumes "int t \<le> MAX_SAFE_INTEGER" "grantee_shape g = shape_ok"
    and "1 \<le> length actions" "length actions \<le> 16" "set actions \<subseteq> set ACTIONS"
    and "spec = JUndefined \<or> filter_shape 1 spec = shape_ok"
    and "length cs \<le> 16" "\<forall>c \<in> set cs. condition_shape c = shape_ok"
  defines "r \<equiv> build_capability_record t g actions spec (Some cs)"
  shows "assert_issuable_capability r = Inr () \<and> validate_access_record D (record_key D r) r = Inr () \<and>
    \<not> capability_fails_closed r \<and>
    (conditions_hold (get ''conditions'' r) now \<longleftrightarrow> (\<forall>c \<in> set cs. of_nat now \<le> expires_at c))"
proof -
  have extra: "\<not> has_extra_fields r CAPABILITY_FIELDS"
    using keys_build_capability_record[of t g actions spec "Some cs"]
    by (auto simp: has_extra_fields_def list_ex_iff r_def)
  have conds: "array_elements (or_empty (get ''conditions'' r)) = cs" "array_within 0 16 (or_empty (get ''conditions'' r))"
    using assms(7) by (auto simp: r_def or_empty_def array_elements_def array_within_def)
  have "capability_shape r = shape_ok"
    using assms extra conds by (auto simp: capability_shape_ok_iff is_uint_def is_string_def list_all_iff r_def)
  moreover have "List.filter (\<lambda>action. action \<notin> JStr ` set ACTIONS) (array_elements (get ''actions'' r)) = []"
    using assms(5) by (auto simp: filter_empty_conv r_def)
  moreover have "get ''type'' r = JStr ''capability''" by (simp add: r_def)
  ultimately show ?thesis
    using extra conds assms(8)
    by (auto simp: assert_issuable_capability_def validate_access_record_def capability_fails_closed_def
        conditions_hold_def list_all_iff)
qed

definition sample_grantee :: jsval where
  "sample_grantee = JObj [(''type'', JStr ''key''), (''key'', JStr sample_pubkey)]"

definition sample_condition :: jsval where
  "sample_condition = JObj [(''type'', JStr ''expires_at''), (''at'', JInt 99)]"

lemma sample_pubkey_ok [simp]: "is_compressed_pubkey_string sample_pubkey"
  by (simp add: sample_pubkey_def is_compressed_pubkey_string_def is_lower_hex_def list_all_iff)

lemma sample_grantee_shape [simp]: "grantee_shape sample_grantee = shape_ok"
  by (simp add: grantee_shape_def sample_grantee_def is_string_def has_extra_fields_def)

lemma sample_condition_shape [simp]: "condition_shape sample_condition = shape_ok"
  by (simp add: condition_shape_def sample_condition_def is_string_def has_extra_fields_def is_uint_def as_uint_def
      MAX_SAFE_INTEGER_def)

end
