(* ===== verification/Records.thy ===== *)
theory Records
  imports Capability_Record
begin

text \<open>
  The values an operation carries: track envelopes, label and About records, listen payloads,
  track payload objects and identity records (\<open>src/entry/envelope.ts\<close>, \<open>records.ts\<close>, \<open>id.ts\<close>,
  \<open>listen.ts\<close>, \<open>payload.ts\<close>, \<open>identity-record.ts\<close>). A validator returns the read view of what it
  accepts. A builder's default timestamp, the current time, is an argument.
\<close>

section \<open>Ids\<close>

definition sha256_hex :: "deps \<Rightarrow> string \<Rightarrow> string" where
  "sha256_hex D s = bytesToHex D (sha256 D (utf8ToBytes s))"

definition compute_track_id :: "deps \<Rightarrow> string \<Rightarrow> string result" where
  "compute_track_id D fingerprint =
     (if length fingerprint = 0 then Inl invalid_fingerprint else Inr (sha256_hex D fingerprint))"

definition compute_log_id :: "deps \<Rightarrow> string \<Rightarrow> string" where
  "compute_log_id D address = sha256_hex D address"

section \<open>Track envelopes\<close>

record envelope =
  env_id :: string
  env_timestamp :: nat
  env_content :: string

definition validate_envelope :: "jsval \<Rightarrow> envelope result" where
  "validate_envelope v =
     (if \<not> is_record v then Inl invalid_shape
      else case as_string (get ''id'' v) of
        None \<Rightarrow> Inl invalid_shape
      | Some i \<Rightarrow>
          if \<not> is_track_id i then Inl invalid_shape
          else case as_uint (get ''timestamp'' v) of
            None \<Rightarrow> Inl invalid_shape
          | Some t \<Rightarrow>
              if get ''v'' v \<noteq> JInt 1 then Inl invalid_shape
              else if get ''type'' v \<noteq> JStr ''track'' then Inl invalid_shape
              else case as_string (get ''content'' v) of
                None \<Rightarrow> Inl invalid_shape
              | Some content \<Rightarrow>
                  if \<not> is_protocol_cid (JStr content) then Inl invalid_shape
                  else Inr \<lparr>env_id = i, env_timestamp = t, env_content = content\<rparr>)"

definition envelope_value :: "envelope \<Rightarrow> jsval" where
  "envelope_value e = JObj [(''id'', JStr (env_id e)), (''timestamp'', JInt (int (env_timestamp e))),
     (''v'', JInt 1), (''type'', JStr ''track''), (''content'', JStr (env_content e))]"

definition build_track_envelope :: "string \<Rightarrow> string \<Rightarrow> nat \<Rightarrow> envelope result" where
  "build_track_envelope i content_cid timestamp =
     validate_envelope (JObj [(''id'', JStr i), (''timestamp'', JInt (int timestamp)), (''v'', JInt 1),
       (''type'', JStr ''track''), (''content'', JStr content_cid)])"

definition envelope_ok :: "envelope \<Rightarrow> bool" where
  "envelope_ok e \<longleftrightarrow> is_track_id (env_id e) \<and> int (env_timestamp e) \<le> MAX_SAFE_INTEGER \<and>
     is_protocol_cid (JStr (env_content e))"

lemma validate_envelope_ok: "validate_envelope v = Inr e \<Longrightarrow>
    envelope_ok e \<and> get ''type'' v = JStr ''track'' \<and> get ''id'' v = JStr (env_id e) \<and>
    get ''timestamp'' v = JInt (int (env_timestamp e)) \<and> get ''content'' v = JStr (env_content e)"
  by (auto simp: validate_envelope_def envelope_ok_def as_uint_Some_iff split: if_splits option.splits)

lemma validate_envelope_value [simp]: "envelope_ok e \<Longrightarrow> validate_envelope (envelope_value e) = Inr e"
  by (simp add: validate_envelope_def envelope_value_def envelope_ok_def)

section \<open>Label and About records\<close>

type_synonym label_pair = "string \<times> string"

record labels_record =
  lr_timestamp :: nat
  lr_set :: "label_pair list"
  lr_unset :: "label_pair list"

record about_record =
  ar_timestamp :: nat
  ar_name :: string

definition ABOUT_KEY :: "deps \<Rightarrow> string" where "ABOUT_KEY D = sha256_hex D ''about''"
definition ABOUT_NAME_MAX_BYTES :: nat where "ABOUT_NAME_MAX_BYTES = 128"

definition LABELS_FIELDS :: "string list" where
  "LABELS_FIELDS = [''type'', ''v'', ''timestamp'', ''set'', ''unset'']"

definition ABOUT_FIELDS :: "string list" where
  "ABOUT_FIELDS = [''type'', ''v'', ''timestamp'', ''name'']"

definition assert_fields :: "jsval \<Rightarrow> string list \<Rightarrow> unit result" where
  "assert_fields v names =
     (let extra = List.filter (\<lambda>field. field \<notin> set names) (keys v)
      in if length extra > 0 then Inl invalid_shape else Inr ())"

definition LABEL_KEY_PREFIX :: string where "LABEL_KEY_PREFIX = ''label:''"

definition label_state_key :: "label_pair \<Rightarrow> string" where
  "label_state_key p = (case p of (track_id, label) \<Rightarrow> ''label:'' @ track_id @ '':'' @ label)"

definition LABEL_KEY_TRACK_END :: nat where
  "LABEL_KEY_TRACK_END = length LABEL_KEY_PREFIX + 64"

definition is_label_key :: "string \<Rightarrow> bool" where
  "is_label_key key = (strip_prefix LABEL_KEY_PREFIX key \<noteq> None)"

definition label_pair_of :: "string \<Rightarrow> label_pair" where
  "label_pair_of key =
     (take (LABEL_KEY_TRACK_END - length LABEL_KEY_PREFIX) (drop (length LABEL_KEY_PREFIX) key),
      drop (LABEL_KEY_TRACK_END + 1) key)"

text \<open>The weak map in front of the key set of a record is a memo of a pure function.\<close>

definition applies_label :: "labels_record \<Rightarrow> string \<Rightarrow> bool" where
  "applies_label r key = (key \<in> set (oset_of (map label_state_key (lr_set r))))"

definition validate_pair :: "deps \<Rightarrow> jsval \<Rightarrow> label_pair result" where
  "validate_pair D v = (case as_array v of
     Some [track_id, label] \<Rightarrow> (case as_string track_id of
         None \<Rightarrow> Inl invalid_shape
       | Some i \<Rightarrow> if \<not> is_track_id i then Inl invalid_shape
           else and_then (assert_label D label) (\<lambda>l. Inr (i, l)))
   | _ \<Rightarrow> Inl invalid_shape)"

definition validate_pairs :: "deps \<Rightarrow> jsval \<Rightarrow> label_pair list result" where
  "validate_pairs D v = (case as_array v of
     None \<Rightarrow> Inl invalid_shape
   | Some pairs \<Rightarrow> map_result (validate_pair D) pairs)"

definition validate_labels_record :: "deps \<Rightarrow> string \<Rightarrow> jsval \<Rightarrow> labels_record result" where
  "validate_labels_record D key v =
     (if \<not> is_record v \<or> get ''type'' v \<noteq> JStr ''labels'' then Inl invalid_shape
      else and_then (assert_fields v LABELS_FIELDS) (\<lambda>_.
        if get ''v'' v \<noteq> JInt 1 then Inl invalid_shape
        else case as_uint (get ''timestamp'' v) of
          None \<Rightarrow> Inl invalid_shape
        | Some t \<Rightarrow>
            and_then (validate_pairs D (get ''set'' v)) (\<lambda>set_pairs.
            and_then (validate_pairs D (get ''unset'' v)) (\<lambda>unset_pairs.
              if length set_pairs + length unset_pairs = 0 then Inl invalid_shape
              else if length (oset_of (map label_state_key (set_pairs @ unset_pairs))) \<noteq>
                      length set_pairs + length unset_pairs then Inl invalid_shape
              else if key \<noteq> record_key D v then Inl invalid_shape
              else Inr \<lparr>lr_timestamp = t, lr_set = set_pairs, lr_unset = unset_pairs\<rparr>))))"

definition validate_about_record :: "deps \<Rightarrow> string \<Rightarrow> jsval \<Rightarrow> about_record result" where
  "validate_about_record D key v =
     (if \<not> is_record v \<or> get ''type'' v \<noteq> JStr ''about'' then Inl invalid_shape
      else and_then (assert_fields v ABOUT_FIELDS) (\<lambda>_.
        if get ''v'' v \<noteq> JInt 1 then Inl invalid_shape
        else case as_uint (get ''timestamp'' v) of
          None \<Rightarrow> Inl invalid_shape
        | Some t \<Rightarrow> (case as_string (get ''name'' v) of
              None \<Rightarrow> Inl invalid_shape
            | Some name \<Rightarrow>
                if length name = 0 \<or> length (utf8ToBytes name) > ABOUT_NAME_MAX_BYTES then Inl invalid_shape
                else if key \<noteq> ABOUT_KEY D then Inl invalid_shape
                else Inr \<lparr>ar_timestamp = t, ar_name = name\<rparr>)))"

definition pair_value :: "label_pair \<Rightarrow> jsval" where
  "pair_value p = JArr [JStr (fst p), JStr (snd p)]"

definition labels_value :: "labels_record \<Rightarrow> jsval" where
  "labels_value r = JObj [(''type'', JStr ''labels''), (''v'', JInt 1), (''timestamp'', JInt (int (lr_timestamp r))),
     (''set'', JArr (map pair_value (lr_set r))), (''unset'', JArr (map pair_value (lr_unset r)))]"

definition about_value :: "about_record \<Rightarrow> jsval" where
  "about_value r = JObj [(''type'', JStr ''about''), (''v'', JInt 1), (''timestamp'', JInt (int (ar_timestamp r))),
     (''name'', JStr (ar_name r))]"

definition build_labels_record :: "deps \<Rightarrow> label_pair list \<Rightarrow> label_pair list \<Rightarrow> nat \<Rightarrow> labels_record result" where
  "build_labels_record D set_pairs unset_pairs timestamp =
     (let value = labels_value \<lparr>lr_timestamp = timestamp, lr_set = set_pairs, lr_unset = unset_pairs\<rparr>
      in validate_labels_record D (record_key D value) value)"

definition build_about_record :: "deps \<Rightarrow> string \<Rightarrow> nat \<Rightarrow> about_record result" where
  "build_about_record D name timestamp =
     validate_about_record D (ABOUT_KEY D) (about_value \<lparr>ar_timestamp = timestamp, ar_name = name\<rparr>)"

text \<open>What a validated label record is, and that validation accepts every such record.\<close>

definition label_pair_ok :: "deps \<Rightarrow> label_pair \<Rightarrow> bool" where
  "label_pair_ok D p \<longleftrightarrow> is_track_id (fst p) \<and> 1 \<le> length (snd p) \<and> length (snd p) \<le> 128 \<and>
     nfc D (snd p) = snd p \<and> \<not> has_control_character (snd p)"

definition labels_ok :: "deps \<Rightarrow> labels_record \<Rightarrow> bool" where
  "labels_ok D r \<longleftrightarrow> int (lr_timestamp r) \<le> MAX_SAFE_INTEGER \<and> lr_set r @ lr_unset r \<noteq> [] \<and>
     distinct (lr_set r @ lr_unset r) \<and> (\<forall>p \<in> set (lr_set r @ lr_unset r). label_pair_ok D p)"

lemma is_track_id_length: "is_track_id s \<Longrightarrow> length s = 64"
  by (simp add: is_track_id_def)

lemma label_pair_of_state_key [simp]: "length (fst p) = 64 \<Longrightarrow> label_pair_of (label_state_key p) = p"
  by (cases p) (simp add: label_pair_of_def label_state_key_def LABEL_KEY_PREFIX_def LABEL_KEY_TRACK_END_def)

lemma inj_on_label_state_key: "inj_on label_state_key {p. length (fst p) = 64}"
  by (rule inj_on_inverseI[of _ label_pair_of]) simp

lemma is_label_key_state_key [simp]: "is_label_key (label_state_key p)"
  by (cases p) (simp add: is_label_key_def label_state_key_def LABEL_KEY_PREFIX_def strip_prefix_def)

lemma validate_pair_Inr_iff [result_simps]:
  "validate_pair D v = Inr p \<longleftrightarrow> v = pair_value p \<and> label_pair_ok D p"
proof (cases p)
  case (Pair i l)
  then show ?thesis
    by (auto simp: validate_pair_def pair_value_def label_pair_ok_def result_simps
        split: option.splits list.splits if_splits)
qed

lemma validate_pairs_Inr_iff [result_simps]:
  "validate_pairs D v = Inr ps \<longleftrightarrow> v = JArr (map pair_value ps) \<and> (\<forall>p \<in> set ps. label_pair_ok D p)"
proof -
  have "list_all2 (\<lambda>x y. validate_pair D x = Inr y) xs ps \<longleftrightarrow>
      xs = map pair_value ps \<and> (\<forall>p \<in> set ps. label_pair_ok D p)" for xs
    unfolding validate_pair_Inr_iff
    by (induction ps arbitrary: xs) (auto simp: list_all2_Cons2)
  then show ?thesis by (auto simp: validate_pairs_def result_simps split: option.splits)
qed

lemma distinct_state_keys:
  "\<forall>p \<in> set ps. label_pair_ok D p \<Longrightarrow> length (oset_of (map label_state_key ps)) = length ps \<longleftrightarrow> distinct ps"
proof -
  assume "\<forall>p \<in> set ps. label_pair_ok D p"
  then have "inj_on label_state_key (set ps)"
    using inj_on_label_state_key by (rule_tac inj_on_subset) (auto simp: label_pair_ok_def is_track_id_def)
  then show ?thesis
    using length_oset_of_eq_iff[of "map label_state_key ps"] by (simp add: distinct_map)
qed

lemma assert_fields_Inr_iff [result_simps]: "assert_fields v names = Inr u \<longleftrightarrow> set (keys v) \<subseteq> set names"
  by (auto simp: assert_fields_def filter_empty_conv)

lemma validate_labels_record_Inr:
  assumes "validate_labels_record D key v = Inr r"
  shows "labels_ok D r \<and> key = record_key D v \<and> set (keys v) \<subseteq> set LABELS_FIELDS \<and>
    get ''type'' v = JStr ''labels'' \<and> get ''timestamp'' v = JInt (int (lr_timestamp r)) \<and>
    get ''set'' v = JArr (map pair_value (lr_set r)) \<and> get ''unset'' v = JArr (map pair_value (lr_unset r))"
proof -
  from assms obtain t s u where
    r: "as_uint (get ''timestamp'' v) = Some t" "validate_pairs D (get ''set'' v) = Inr s"
      "validate_pairs D (get ''unset'' v) = Inr u" "length s + length u \<noteq> 0"
      "length (oset_of (map label_state_key (s @ u))) = length s + length u"
      "r = \<lparr>lr_timestamp = t, lr_set = s, lr_unset = u\<rparr>"
    and rest: "key = record_key D v" "set (keys v) \<subseteq> set LABELS_FIELDS" "get ''type'' v = JStr ''labels''"
    unfolding validate_labels_record_def and_then_Inr_iff assert_fields_Inr_iff
    by (auto simp: and_then_Inr_iff assert_fields_Inr_iff split: if_splits option.splits)
  from r(2,3) have pairs: "\<forall>p \<in> set (s @ u). label_pair_ok D p" by (auto simp: result_simps)
  then have "distinct (s @ u)" using distinct_state_keys[of "s @ u" D] r(5) by simp
  then have "labels_ok D r" using r(1,4,6) pairs by (auto simp: labels_ok_def as_uint_Some_iff)
  then show ?thesis using r rest by (auto simp: result_simps as_uint_Some_iff)
qed

lemma validate_labels_value:
  assumes "labels_ok D r"
  shows "validate_labels_record D (record_key D (labels_value r)) (labels_value r) = Inr r"
proof -
  have pairs: "validate_pairs D (JArr (map pair_value (lr_set r))) = Inr (lr_set r)"
    "validate_pairs D (JArr (map pair_value (lr_unset r))) = Inr (lr_unset r)"
    using assms by (simp_all add: labels_ok_def result_simps)
  have "length (oset_of (map label_state_key (lr_set r @ lr_unset r))) = length (lr_set r @ lr_unset r)"
    using assms distinct_state_keys[of "lr_set r @ lr_unset r" D] by (simp add: labels_ok_def)
  moreover have "assert_fields (labels_value r) LABELS_FIELDS = Inr ()"
    by (simp add: assert_fields_def labels_value_def LABELS_FIELDS_def)
  ultimately show ?thesis
    using assms pairs by (auto simp: validate_labels_record_def labels_value_def labels_ok_def)
qed

definition about_ok :: "about_record \<Rightarrow> bool" where
  "about_ok r \<longleftrightarrow> int (ar_timestamp r) \<le> MAX_SAFE_INTEGER \<and> 1 \<le> length (ar_name r) \<and> length (ar_name r) \<le> 128"

lemma validate_about_record_Inr:
  "validate_about_record D key v = Inr r \<Longrightarrow>
     about_ok r \<and> key = ABOUT_KEY D \<and> get ''type'' v = JStr ''about'' \<and> get ''timestamp'' v = JInt (int (ar_timestamp r))"
  by (auto simp: validate_about_record_def result_simps about_ok_def ABOUT_NAME_MAX_BYTES_def as_uint_Some_iff Suc_le_eq
      split: if_splits option.splits)

lemma validate_about_value:
  "about_ok r \<Longrightarrow> validate_about_record D (ABOUT_KEY D) (about_value r) = Inr r"
  by (auto simp: validate_about_record_def about_value_def assert_fields_def ABOUT_FIELDS_def about_ok_def
      ABOUT_NAME_MAX_BYTES_def)

end
