(* ===== verification/Identity_Record.thy ===== *)
theory Identity_Record
  imports Records
begin

text \<open>
  Listen payloads, track payload objects and identity-library records (\<open>src/entry/listen.ts\<close>,
  \<open>payload.ts\<close>, \<open>identity-record.ts\<close>).
\<close>

section \<open>Listens\<close>

record listen_payload =
  li_track_id :: string
  li_address :: string
  li_timestamp :: nat

definition validate_listen_payload :: "jsval \<Rightarrow> listen_payload result" where
  "validate_listen_payload v =
     (if \<not> is_record v then Inl invalid_operation
      else if has ''op'' v then Inl invalid_operation
      else case as_string (get ''trackId'' v) of
        None \<Rightarrow> Inl invalid_operation
      | Some track_id \<Rightarrow>
          if length track_id = 0 then Inl invalid_operation
          else case as_string (get ''address'' v) of
            None \<Rightarrow> Inl invalid_operation
          | Some address \<Rightarrow> (case as_uint (get ''timestamp'' v) of
                None \<Rightarrow> Inl invalid_operation
              | Some t \<Rightarrow> Inr \<lparr>li_track_id = track_id, li_address = address, li_timestamp = t\<rparr>))"

definition listen_value :: "listen_payload \<Rightarrow> jsval" where
  "listen_value l = JObj [(''trackId'', JStr (li_track_id l)), (''address'', JStr (li_address l)),
     (''timestamp'', JInt (int (li_timestamp l)))]"

definition build_listen_payload :: "string \<Rightarrow> string \<Rightarrow> nat \<Rightarrow> listen_payload result" where
  "build_listen_payload track_id address timestamp =
     validate_listen_payload (listen_value \<lparr>li_track_id = track_id, li_address = address, li_timestamp = timestamp\<rparr>)"

definition listen_ok :: "listen_payload \<Rightarrow> bool" where
  "listen_ok l \<longleftrightarrow> li_track_id l \<noteq> [] \<and> int (li_timestamp l) \<le> MAX_SAFE_INTEGER"

lemma validate_listen_payload_ok: "validate_listen_payload v = Inr l \<Longrightarrow> listen_ok l \<and> is_record v \<and> \<not> has ''op'' v"
  by (auto simp: validate_listen_payload_def listen_ok_def as_uint_Some_iff split: if_splits option.splits)

lemma validate_listen_value [simp]: "listen_ok l \<Longrightarrow> validate_listen_payload (listen_value l) = Inr l"
  by (simp add: validate_listen_payload_def listen_value_def listen_ok_def)

section \<open>Track payload objects\<close>

definition decode_payload :: "deps \<Rightarrow> bytes \<Rightarrow> jsval result" where
  "decode_payload D bs =
     and_then (assert_payload_size bs) (\<lambda>_. and_then (decode_canonical D bs) (\<lambda>(value, _). Inr value))"

definition resolver_key :: "string \<Rightarrow> string \<Rightarrow> string" where
  "resolver_key extractor i = json_strings [extractor, i]"

definition validate_resolver_entry :: "jsval \<Rightarrow> (string \<times> string) result" where
  "validate_resolver_entry v =
     (if \<not> is_record v then Inl invalid_shape
      else case (as_string (get ''extractor'' v), as_string (get ''id'' v)) of
        (Some extractor, Some i) \<Rightarrow> if has ''url'' v then Inl invalid_shape else Inr (extractor, i)
      | _ \<Rightarrow> Inl invalid_shape)"

fun validate_resolver_loop :: "string oset \<Rightarrow> jsval list \<Rightarrow> unit result" where
  "validate_resolver_loop seen [] = Inr ()"
| "validate_resolver_loop seen (element # elements) =
     and_then (validate_resolver_entry element) (\<lambda>(extractor, i).
       let key = resolver_key extractor i
       in if key \<in> set seen then Inl invalid_shape
          else validate_resolver_loop (oset_add key seen) elements)"

definition validate_resolver_entries :: "jsval \<Rightarrow> unit result" where
  "validate_resolver_entries v = (case as_array v of
     None \<Rightarrow> Inl invalid_shape | Some elements \<Rightarrow> validate_resolver_loop [] elements)"

definition validate_track_content :: "deps \<Rightarrow> jsval \<Rightarrow> jsval result" where
  "validate_track_content D v =
     (if \<not> is_record v then Inl invalid_shape
      else if \<not> is_cid_string D (get ''hash'' v) then Inl invalid_shape
      else if \<not> is_uint (get ''size'' v) then Inl invalid_shape
      else if \<not> is_record (get ''tags'' v) then Inl invalid_shape
      else case as_string (get ''acoustid_fingerprint'' (get ''tags'' v)) of
        None \<Rightarrow> Inl invalid_shape
      | Some fingerprint \<Rightarrow>
          if length fingerprint = 0 then Inl invalid_shape
          else if \<not> is_record (get ''audio'' v) then Inl invalid_shape
          else case as_array (get ''artwork'' v) of
            None \<Rightarrow> Inl invalid_shape
          | Some artwork \<Rightarrow>
              if \<not> list_all (is_cid_string D) artwork then Inl invalid_shape
              else and_then (validate_resolver_entries (get ''resolver'' v)) (\<lambda>_. Inr v))"

lemma resolver_key_inj: "resolver_key e i = resolver_key e' i' \<longleftrightarrow> e = e' \<and> i = i'"
  by (simp add: resolver_key_def json_strings_inj)

lemma validate_resolver_loop_Inr_iff:
  "validate_resolver_loop seen xs = Inr u \<longleftrightarrow>
     (\<exists>ps. list_all2 (\<lambda>x p. validate_resolver_entry x = Inr p) xs ps \<and>
        distinct ps \<and> (\<forall>p \<in> set ps. resolver_key (fst p) (snd p) \<notin> set seen))"
proof (induction xs arbitrary: seen)
  case (Cons x xs)
  show ?case
  proof (cases "validate_resolver_entry x")
    case (Inr p)
    show ?thesis
    proof (cases "resolver_key (fst p) (snd p) \<in> set seen")
      case True
      then show ?thesis using Inr by (auto simp: list_all2_Cons1 split: prod.splits)
    next
      case False
      then have "validate_resolver_loop seen (x # xs) = Inr u \<longleftrightarrow>
          validate_resolver_loop (oset_add (resolver_key (fst p) (snd p)) seen) xs = Inr u"
        using Inr by (auto simp: Let_def split: prod.splits)
      also have "\<dots> \<longleftrightarrow> (\<exists>ps. list_all2 (\<lambda>x p. validate_resolver_entry x = Inr p) xs ps \<and> distinct ps \<and>
          (\<forall>q \<in> set ps. resolver_key (fst q) (snd q) \<notin> set seen \<and> q \<noteq> p))"
        unfolding Cons.IH set_oset_add by (auto simp: resolver_key_inj prod_eq_iff)
      also have "\<dots> \<longleftrightarrow> (\<exists>ps. list_all2 (\<lambda>x p. validate_resolver_entry x = Inr p) (x # xs) (p # ps) \<and> distinct (p # ps) \<and>
          (\<forall>q \<in> set (p # ps). resolver_key (fst q) (snd q) \<notin> set seen))"
        using Inr False by auto
      also have "\<dots> \<longleftrightarrow> (\<exists>qs. list_all2 (\<lambda>x p. validate_resolver_entry x = Inr p) (x # xs) qs \<and> distinct qs \<and>
          (\<forall>q \<in> set qs. resolver_key (fst q) (snd q) \<notin> set seen))"
        using Inr unfolding list_all2_Cons1 by (metis Inr_inject)
      finally show ?thesis .
    qed
  qed (auto simp: list_all2_Cons1)
qed simp

section \<open>Identity records\<close>

datatype identity_record_type = library_t | link_t | pin_t | profile_t

definition identity_type_name :: "identity_record_type \<Rightarrow> string" where
  "identity_type_name t = (case t of library_t \<Rightarrow> ''library'' | link_t \<Rightarrow> ''link'' | pin_t \<Rightarrow> ''pin'' | profile_t \<Rightarrow> ''profile'')"

definition IDENTITY_RECORD_TYPES :: "identity_record_type list" where
  "IDENTITY_RECORD_TYPES = [library_t, link_t, pin_t, profile_t]"

definition identity_type_of :: "jsval \<Rightarrow> identity_record_type option" where
  "identity_type_of v = List.find (\<lambda>t. v = JStr (identity_type_name t)) IDENTITY_RECORD_TYPES"

definition is_identity_record_type :: "jsval \<Rightarrow> bool" where
  "is_identity_record_type v = (identity_type_of v \<noteq> None)"

datatype identity_record =
    LibraryRecord nat string
  | LinkRecord nat string "string option"
  | PinRecord nat string
  | ProfileRecord nat "string option" "string option" "string option"

definition identity_record_type_of :: "identity_record \<Rightarrow> identity_record_type" where
  "identity_record_type_of r = (case r of LibraryRecord _ _ \<Rightarrow> library_t | LinkRecord _ _ _ \<Rightarrow> link_t
     | PinRecord _ _ \<Rightarrow> pin_t | ProfileRecord _ _ _ _ \<Rightarrow> profile_t)"

definition ALIAS_MAX_BYTES :: nat where "ALIAS_MAX_BYTES = 128"
definition PROFILE_NAME_MAX_BYTES :: nat where "PROFILE_NAME_MAX_BYTES = 128"
definition PROFILE_BIO_MAX_BYTES :: nat where "PROFILE_BIO_MAX_BYTES = 1024"

definition PROFILE_KEY :: "deps \<Rightarrow> string" where "PROFILE_KEY D = sha256_hex D ''profile''"

text \<open>\<open>RECORD_FIELDS\<close>: the required and the optional fields of each type but profile.\<close>

definition record_fields_required :: "identity_record_type \<Rightarrow> string list" where
  "record_fields_required t = [''type'', ''v'', ''timestamp''] @ (if t = pin_t then [''cid''] else [''address''])"

definition record_fields_optional :: "identity_record_type \<Rightarrow> string list" where
  "record_fields_optional t = (if t = link_t then [''alias''] else [])"

definition canonical_cid :: "deps \<Rightarrow> string \<Rightarrow> string result" where
  "canonical_cid D cid = (case cid_to_base32 D cid of None \<Rightarrow> Inl invalid_cid | Some text \<Rightarrow> Inr text)"

definition identity_record_key :: "deps \<Rightarrow> identity_record \<Rightarrow> string" where
  "identity_record_key D r = (case r of
     ProfileRecord _ _ _ _ \<Rightarrow> PROFILE_KEY D
   | PinRecord _ cid \<Rightarrow> sha256_hex D cid
   | LibraryRecord _ address \<Rightarrow> sha256_hex D address
   | LinkRecord _ address _ \<Rightarrow> sha256_hex D address)"

definition is_bounded_string :: "jsval \<Rightarrow> nat \<Rightarrow> nat \<Rightarrow> bool" where
  "is_bounded_string v min_bytes max_bytes = (case as_string v of
     None \<Rightarrow> False
   | Some s \<Rightarrow> min_bytes \<le> length (utf8ToBytes s) \<and> length (utf8ToBytes s) \<le> max_bytes)"

definition is_canonical_cid :: "deps \<Rightarrow> jsval \<Rightarrow> bool" where
  "is_canonical_cid D v = (case as_string v of
     None \<Rightarrow> False
   | Some s \<Rightarrow> (case canonical_cid D s of Inl _ \<Rightarrow> False | Inr text \<Rightarrow> text = s))"

definition validate_profile :: "deps \<Rightarrow> jsval \<Rightarrow> identity_record result" where
  "validate_profile D v = (case as_uint (get ''timestamp'' v) of
     None \<Rightarrow> Inl invalid_shape
   | Some t \<Rightarrow>
       let name = get ''name'' v; bio = get ''bio'' v; avatar = get ''avatar'' v
       in if name \<noteq> JUndefined \<and> \<not> is_bounded_string name 1 PROFILE_NAME_MAX_BYTES then Inl invalid_shape
          else if bio \<noteq> JUndefined \<and> \<not> is_bounded_string bio 0 PROFILE_BIO_MAX_BYTES then Inl invalid_shape
          else if avatar \<noteq> JUndefined \<and> \<not> is_canonical_cid D avatar then Inl invalid_shape
          else Inr (ProfileRecord t (as_string name) (as_string bio) (as_string avatar)))"

definition is_later_profile :: "jsval \<Rightarrow> bool" where
  "is_later_profile v = (get ''type'' v = JStr ''profile'' \<and>
     (case get ''v'' v of JInt n \<Rightarrow> \<bar>n\<bar> \<le> MAX_SAFE_INTEGER \<and> n > 1 | _ \<Rightarrow> False))"

definition validate_record :: "deps \<Rightarrow> identity_record_type \<Rightarrow> jsval \<Rightarrow> identity_record result" where
  "validate_record D type v =
     (if type = profile_t then
        if get ''v'' v \<noteq> JInt 1 then Inl invalid_shape else validate_profile D v
      else if \<not> list_all (\<lambda>field. field \<in> set (keys v)) (record_fields_required type) \<or>
              list_ex (\<lambda>field. field \<notin> set (record_fields_required type) \<and> field \<notin> set (record_fields_optional type)) (keys v)
      then Inl invalid_shape
      else if get ''v'' v \<noteq> JInt 1 then Inl invalid_shape
      else case as_uint (get ''timestamp'' v) of
        None \<Rightarrow> Inl invalid_shape
      | Some t \<Rightarrow>
          if type = pin_t then
            (case as_string (get ''cid'' v) of
               None \<Rightarrow> Inl invalid_shape
             | Some cid \<Rightarrow> and_then (canonical_cid D cid) (\<lambda>text.
                 if text \<noteq> cid then Inl invalid_shape else Inr (PinRecord t cid)))
          else case as_string (get ''address'' v) of
            None \<Rightarrow> Inl invalid_shape
          | Some address \<Rightarrow>
              if \<not> is_library_address D (JStr address) then Inl invalid_shape
              else if type = library_t then Inr (LibraryRecord t address)
              else if get ''alias'' v = JUndefined then Inr (LinkRecord t address None)
              else case as_string (get ''alias'' v) of
                None \<Rightarrow> Inl invalid_shape
              | Some alias \<Rightarrow>
                  if length (utf8ToBytes alias) > ALIAS_MAX_BYTES then Inl invalid_shape
                  else Inr (LinkRecord t address (Some alias)))"

text \<open>The object a record is, as the builders hand it to an entry.\<close>

definition optional_field :: "string \<Rightarrow> string option \<Rightarrow> (string \<times> jsval) list" where
  "optional_field name v = (case v of None \<Rightarrow> [] | Some s \<Rightarrow> [(name, JStr s)])"

definition identity_value :: "identity_record \<Rightarrow> jsval" where
  "identity_value r =
     (let head = \<lambda>t. [(''type'', JStr (identity_type_name (identity_record_type_of r))), (''v'', JInt 1),
                      (''timestamp'', JInt (int t))]
      in JObj (case r of
           LibraryRecord t address \<Rightarrow> head t @ [(''address'', JStr address)]
         | LinkRecord t address alias \<Rightarrow> head t @ [(''address'', JStr address)] @ optional_field ''alias'' alias
         | PinRecord t cid \<Rightarrow> head t @ [(''cid'', JStr cid)]
         | ProfileRecord t name bio avatar \<Rightarrow> head t @ optional_field ''name'' name @ optional_field ''bio'' bio @
             optional_field ''avatar'' avatar))"

definition identity_ok :: "deps \<Rightarrow> identity_record \<Rightarrow> bool" where
  "identity_ok D r = (case r of
     LibraryRecord t address \<Rightarrow> int t \<le> MAX_SAFE_INTEGER \<and> is_library_address D (JStr address)
   | LinkRecord t address alias \<Rightarrow> int t \<le> MAX_SAFE_INTEGER \<and> is_library_address D (JStr address) \<and>
       (\<forall>a \<in> set_option alias. length a \<le> 128)
   | PinRecord t cid \<Rightarrow> int t \<le> MAX_SAFE_INTEGER \<and> cid_to_base32 D cid = Some cid
   | ProfileRecord t name bio avatar \<Rightarrow> int t \<le> MAX_SAFE_INTEGER \<and>
       (\<forall>s \<in> set_option name. 1 \<le> length s \<and> length s \<le> 128) \<and>
       (\<forall>s \<in> set_option bio. length s \<le> 1024) \<and>
       (\<forall>s \<in> set_option avatar. cid_to_base32 D s = Some s))"

lemma identity_type_of_name [simp]: "identity_type_of (JStr (identity_type_name t)) = Some t"
  by (cases t) (simp_all add: identity_type_of_def IDENTITY_RECORD_TYPES_def identity_type_name_def)

lemma identity_type_of_Some_iff: "identity_type_of v = Some t \<longleftrightarrow> v = JStr (identity_type_name t)"
  by (cases t) (auto simp: identity_type_of_def IDENTITY_RECORD_TYPES_def identity_type_name_def)

lemma is_bounded_string_iff: "is_bounded_string v lo hi \<longleftrightarrow> (\<exists>s. v = JStr s \<and> lo \<le> length s \<and> length s \<le> hi)"
  by (auto simp: is_bounded_string_def split: option.splits)

lemma is_canonical_cid_iff: "is_canonical_cid D v \<longleftrightarrow> (\<exists>s. v = JStr s \<and> cid_to_base32 D s = Some s)"
  by (auto simp: is_canonical_cid_def canonical_cid_def split: option.splits sum.splits)

lemma validate_profile_ok: "validate_profile D v = Inr r \<Longrightarrow> identity_ok D r \<and> identity_record_type_of r = profile_t"
  by (auto simp: validate_profile_def identity_ok_def identity_record_type_of_def as_uint_Some_iff Let_def is_bounded_string_iff
      is_canonical_cid_iff PROFILE_NAME_MAX_BYTES_def PROFILE_BIO_MAX_BYTES_def Suc_le_eq
      split: option.splits if_splits)

lemma validate_record_ok: "validate_record D type v = Inr r \<Longrightarrow> identity_ok D r \<and> identity_record_type_of r = type"
proof (cases "type = profile_t")
  case True
  assume "validate_record D type v = Inr r"
  with True show ?thesis by (auto simp: validate_record_def validate_profile_ok split: if_splits)
next
  case False
  assume "validate_record D type v = Inr r"
  with False show ?thesis
    by (cases type) (auto simp: validate_record_def identity_ok_def identity_record_type_of_def as_uint_Some_iff result_simps
        canonical_cid_def ALIAS_MAX_BYTES_def split: option.splits if_splits)
qed

lemma validate_identity_value:
  assumes "identity_ok D r"
  shows "validate_record D (identity_record_type_of r) (identity_value r) = Inr r"
proof (cases r)
  case (ProfileRecord t name bio avatar)
  with assms show ?thesis
    by (cases name; cases bio; cases avatar)
       (simp_all add: validate_record_def validate_profile_def identity_record_type_of_def identity_value_def
         identity_ok_def optional_field_def is_bounded_string_iff is_canonical_cid_iff PROFILE_NAME_MAX_BYTES_def PROFILE_BIO_MAX_BYTES_def)
next
  case (LinkRecord t address al)
  with assms show ?thesis
    by (cases al)
       (simp_all add: validate_record_def identity_record_type_of_def identity_value_def identity_ok_def optional_field_def
         record_fields_required_def record_fields_optional_def ALIAS_MAX_BYTES_def)
qed (use assms in \<open>simp_all add: validate_record_def identity_record_type_of_def identity_value_def identity_ok_def
  record_fields_required_def record_fields_optional_def canonical_cid_def\<close>)

section \<open>Properties\<close>

text \<open>The resolver list of a track payload is accepted exactly when every element is a map with
  string extractor and id and without a url, and no source pointer (extractor, id) appears twice;
  joining the two strings as JSON text never confuses different pointers.\<close>

lemma resolver_entries_distinct:
  "validate_resolver_entries (JArr xs) = Inr () \<longleftrightarrow>
     (\<exists>ps. map validate_resolver_entry xs = map Inr ps \<and> distinct ps)"
  by (simp add: validate_resolver_entries_def validate_resolver_loop_Inr_iff list_all2_conv_all_nth list_eq_iff_nth_eq
      conj_commute) (metis (no_types, lifting) length_map nth_map)

end
