(* ===== verification/Operations.thy ===== *)
theory Operations
  imports Identity_Record
begin

text \<open>
  PUT and DEL operations and the payload check of each library type (\<open>src/entry/operations.ts\<close>, the
  operation part of \<open>src/entry/identity-record.ts\<close> and the operation types of \<open>src/types/entry.ts\<close>).
\<close>

datatype op = PUT | DEL

definition op_name :: "op \<Rightarrow> string" where
  "op_name o' = (case o' of PUT \<Rightarrow> ''PUT'' | DEL \<Rightarrow> ''DEL'')"

text \<open>\<open>EntryPayload\<close>; the optional string is the \<open>capability_id\<close> the operation is written under.\<close>

datatype entry_payload =
    PutOperation string envelope "string option"
  | DelOperation string nat "string option"
  | LabelsPut string labels_record "string option"
  | AboutPut string about_record "string option"
  | AccessRecordPut string jsval "string option"
  | OpaqueOperation op string jsval "string option"
  | IdentityPut string identity_record
  | IdentityDel string identity_record_type nat
  | ListenPayload listen_payload

fun with_capability :: "entry_payload \<Rightarrow> string option \<Rightarrow> entry_payload" where
  "with_capability (PutOperation key v c) (Some i) = PutOperation key v (Some i)"
| "with_capability (DelOperation key v c) (Some i) = DelOperation key v (Some i)"
| "with_capability (LabelsPut key v c) (Some i) = LabelsPut key v (Some i)"
| "with_capability (AboutPut key v c) (Some i) = AboutPut key v (Some i)"
| "with_capability (AccessRecordPut key v c) (Some i) = AccessRecordPut key v (Some i)"
| "with_capability (OpaqueOperation o' key v c) (Some i) = OpaqueOperation o' key v (Some i)"
| "with_capability p _ = p"

definition build_put_operation :: "envelope \<Rightarrow> string option \<Rightarrow> entry_payload" where
  "build_put_operation e capability_id = with_capability (PutOperation (env_id e) e None) capability_id"

definition build_record_put_operation :: "string \<Rightarrow> jsval \<Rightarrow> string option \<Rightarrow> entry_payload" where
  "build_record_put_operation key value capability_id = with_capability (AccessRecordPut key value None) capability_id"

definition build_labels_put ::
  "deps \<Rightarrow> label_pair list \<Rightarrow> label_pair list \<Rightarrow> nat \<Rightarrow> string option \<Rightarrow> entry_payload result" where
  "build_labels_put D set_pairs unset_pairs timestamp capability_id =
     and_then (build_labels_record D set_pairs unset_pairs timestamp) (\<lambda>r.
       Inr (with_capability (LabelsPut (record_key D (labels_value r)) r None) capability_id))"

definition build_about_put :: "deps \<Rightarrow> string \<Rightarrow> nat \<Rightarrow> string option \<Rightarrow> entry_payload result" where
  "build_about_put D name timestamp capability_id =
     and_then (build_about_record D name timestamp) (\<lambda>r.
       Inr (with_capability (AboutPut (ABOUT_KEY D) r None) capability_id))"

definition DEL_VALUE_FIELDS :: "string list" where
  "DEL_VALUE_FIELDS = [''type'', ''timestamp'']"

definition validate_del_value :: "jsval \<Rightarrow> nat result" where
  "validate_del_value v =
     (if \<not> is_record v then Inl invalid_operation
      else if length (keys v) \<noteq> length DEL_VALUE_FIELDS \<or>
              \<not> list_all (\<lambda>field. field \<in> set (keys v)) DEL_VALUE_FIELDS then Inl invalid_operation
      else if get ''type'' v \<noteq> JStr ''track'' then Inl invalid_operation
      else case as_uint (get ''timestamp'' v) of None \<Rightarrow> Inl invalid_operation | Some t \<Rightarrow> Inr t)"

definition del_value :: "string \<Rightarrow> nat \<Rightarrow> jsval" where
  "del_value type t = JObj [(''type'', JStr type), (''timestamp'', JInt (int t))]"

definition build_del_operation :: "string \<Rightarrow> nat \<Rightarrow> entry_payload result" where
  "build_del_operation key timestamp =
     and_then (validate_del_value (del_value ''track'' timestamp)) (\<lambda>t. Inr (DelOperation key t None))"

definition build_identity_put :: "deps \<Rightarrow> identity_record \<Rightarrow> entry_payload" where
  "build_identity_put D r = IdentityPut (identity_record_key D r) r"

definition build_identity_del :: "identity_record_type \<Rightarrow> string \<Rightarrow> nat \<Rightarrow> entry_payload" where
  "build_identity_del type key timestamp = IdentityDel key type timestamp"

section \<open>Validation\<close>

definition V1_ENVELOPE_TYPES :: "string list" where
  "V1_ENVELOPE_TYPES = [''log'', ''about'']"

definition is_v1_envelope :: "jsval \<Rightarrow> bool" where
  "is_v1_envelope v = (get ''type'' v \<in> JStr ` set V1_ENVELOPE_TYPES \<and> is_string (get ''id'' v) \<and>
     is_string (get ''content'' v) \<and> get ''v'' v = JInt 1 \<and> is_uint (get ''timestamp'' v))"

text \<open>The type parameter \<open>'recordstore' | 'labels'\<close> is the flag \<open>is_recordstore\<close>.\<close>

definition ADMITTED_PUTS :: "bool \<Rightarrow> string list" where
  "ADMITTED_PUTS is_recordstore =
     (if is_recordstore then [''track'', ''labels'', ''about'', ''capability'', ''revocation''] else [''labels'', ''about''])"

definition validate_record_put :: "deps \<Rightarrow> string \<Rightarrow> jsval \<Rightarrow> bool \<Rightarrow> bool \<Rightarrow> entry_payload result" where
  "validate_record_put D key value is_recordstore write_list_signer =
     (let type = get ''type'' value
      in if is_recordstore \<and> write_list_signer \<and> is_v1_envelope value then Inr (OpaqueOperation PUT key value None)
         else if is_recordstore \<and> type \<notin> JStr ` set (ADMITTED_PUTS True) then
           if \<not> is_string type then Inl invalid_shape else Inr (OpaqueOperation PUT key value None)
         else if type \<notin> JStr ` set (ADMITTED_PUTS is_recordstore) then Inl invalid_operation
         else if type = JStr ''labels'' then
           and_then (validate_labels_record D key value) (\<lambda>r. Inr (LabelsPut key r None))
         else if type = JStr ''about'' then
           and_then (validate_about_record D key value) (\<lambda>r. Inr (AboutPut key r None))
         else if is_access_record_type type then
           and_then (validate_access_record D key value) (\<lambda>_. Inr (AccessRecordPut key value None))
         else and_then (validate_envelope value) (\<lambda>e.
           if key \<noteq> env_id e then Inl invalid_operation else Inr (PutOperation key e None)))"

definition validate_record_operation :: "deps \<Rightarrow> jsval \<Rightarrow> bool \<Rightarrow> bool \<Rightarrow> entry_payload result" where
  "validate_record_operation D payload is_recordstore write_list_signer =
     (if \<not> is_record payload then Inl invalid_operation
      else case as_string (get ''key'' payload) of
        None \<Rightarrow> Inl invalid_operation
      | Some key \<Rightarrow>
          if \<not> is_recordstore \<and> has ''capability_id'' payload then Inl invalid_operation
          else let capability_id = as_string (get ''capability_id'' payload); value = get ''value'' payload
            in if get ''op'' payload = JStr ''PUT'' then
                 if \<not> is_record value then Inl invalid_shape
                 else and_then (validate_record_put D key value is_recordstore write_list_signer)
                        (\<lambda>operation. Inr (with_capability operation capability_id))
               else if get ''op'' payload = JStr ''DEL'' then
                 if \<not> is_recordstore then Inl invalid_operation
                 else if write_list_signer \<and> is_record value \<and> get ''type'' value = JStr ''log'' then
                   Inr (OpaqueOperation DEL key value None)
                 else if \<not> is_track_id key then Inl invalid_operation
                 else and_then (validate_del_value value) (\<lambda>t.
                   Inr (with_capability (DelOperation key t None) capability_id))
               else Inl invalid_operation)"

definition validate_identity_operation :: "deps \<Rightarrow> jsval \<Rightarrow> entry_payload result" where
  "validate_identity_operation D payload =
     (if \<not> is_record payload then Inl invalid_operation
      else if has ''capability_id'' payload then Inl invalid_operation
      else case as_string (get ''key'' payload) of
        None \<Rightarrow> Inl invalid_operation
      | Some key \<Rightarrow>
          let value = get ''value'' payload
          in if \<not> is_record value \<or> \<not> is_string (get ''type'' value) then Inl invalid_shape
             else if get ''op'' payload = JStr ''PUT'' then
               (case identity_type_of (get ''type'' value) of
                  None \<Rightarrow> Inr (OpaqueOperation PUT key value None)
                | Some type \<Rightarrow>
                    if is_later_profile value then Inr (OpaqueOperation PUT key value None)
                    else and_then (validate_record D type value) (\<lambda>r.
                      if key \<noteq> identity_record_key D r then Inl invalid_shape else Inr (IdentityPut key r)))
             else if get ''op'' payload = JStr ''DEL'' then
               if length (keys value) \<noteq> 2 \<or> ''timestamp'' \<notin> set (keys value) then Inl invalid_shape
               else case as_uint (get ''timestamp'' value) of
                 None \<Rightarrow> Inl invalid_shape
               | Some t \<Rightarrow> (case identity_type_of (get ''type'' value) of
                     None \<Rightarrow> Inr (OpaqueOperation DEL key value None)
                   | Some type \<Rightarrow> if type = profile_t then Inl invalid_shape else Inr (IdentityDel key type t))
             else Inl invalid_operation)"

definition validate_operation :: "deps \<Rightarrow> jsval \<Rightarrow> library_type \<Rightarrow> bool \<Rightarrow> entry_payload result" where
  "validate_operation D payload type write_list_signer =
     (if type = identity then validate_identity_operation D payload
      else if type = recordstore \<or> type = labels then
        validate_record_operation D payload (type = recordstore) write_list_signer
      else if is_record payload \<and> has ''capability_id'' payload then Inl invalid_operation
      else and_then (validate_listen_payload payload) (\<lambda>l. Inr (ListenPayload l)))"

section \<open>Kinds of operation\<close>

definition is_opaque :: "entry_payload \<Rightarrow> bool" where
  "is_opaque p = (case p of OpaqueOperation _ _ _ _ \<Rightarrow> True | _ \<Rightarrow> False)"

definition is_put :: "entry_payload \<Rightarrow> bool" where
  "is_put p = (case p of PutOperation _ _ _ \<Rightarrow> True | _ \<Rightarrow> False)"

definition is_labels_put :: "entry_payload \<Rightarrow> bool" where
  "is_labels_put p = (case p of LabelsPut _ _ _ \<Rightarrow> True | _ \<Rightarrow> False)"

definition is_about_put :: "entry_payload \<Rightarrow> bool" where
  "is_about_put p = (case p of AboutPut _ _ _ \<Rightarrow> True | _ \<Rightarrow> False)"

definition is_envelope_operation :: "entry_payload \<Rightarrow> bool" where
  "is_envelope_operation p = (is_put p \<or> (case p of DelOperation _ _ _ \<Rightarrow> True | _ \<Rightarrow> False))"

definition is_access_record :: "entry_payload \<Rightarrow> bool" where
  "is_access_record p = (case p of AccessRecordPut _ _ _ \<Rightarrow> True | _ \<Rightarrow> False)"

definition is_identity_operation :: "entry_payload \<Rightarrow> bool" where
  "is_identity_operation p = (case p of IdentityPut _ _ \<Rightarrow> True | IdentityDel _ _ _ \<Rightarrow> True | _ \<Rightarrow> False)"

text \<open>The fields \<open>op\<close>, \<open>key\<close> and \<open>capability_id\<close>, where the operation has them.\<close>

definition op_of :: "entry_payload \<Rightarrow> op option" where
  "op_of p = (case p of PutOperation _ _ _ \<Rightarrow> Some PUT | DelOperation _ _ _ \<Rightarrow> Some DEL | LabelsPut _ _ _ \<Rightarrow> Some PUT
     | AboutPut _ _ _ \<Rightarrow> Some PUT | AccessRecordPut _ _ _ \<Rightarrow> Some PUT | OpaqueOperation o' _ _ _ \<Rightarrow> Some o'
     | IdentityPut _ _ \<Rightarrow> Some PUT | IdentityDel _ _ _ \<Rightarrow> Some DEL | ListenPayload _ \<Rightarrow> None)"

definition key_of :: "entry_payload \<Rightarrow> string" where
  "key_of p = (case p of PutOperation k _ _ \<Rightarrow> k | DelOperation k _ _ \<Rightarrow> k | LabelsPut k _ _ \<Rightarrow> k
     | AboutPut k _ _ \<Rightarrow> k | AccessRecordPut k _ _ \<Rightarrow> k | OpaqueOperation _ k _ _ \<Rightarrow> k
     | IdentityPut k _ \<Rightarrow> k | IdentityDel k _ _ \<Rightarrow> k | ListenPayload _ \<Rightarrow> [])"

definition cited_capability :: "entry_payload \<Rightarrow> string option" where
  "cited_capability p = (case p of PutOperation _ _ c \<Rightarrow> c | DelOperation _ _ c \<Rightarrow> c | LabelsPut _ _ c \<Rightarrow> c
     | AboutPut _ _ c \<Rightarrow> c | AccessRecordPut _ _ c \<Rightarrow> c | OpaqueOperation _ _ _ c \<Rightarrow> c | _ \<Rightarrow> None)"

text \<open>The object of a built operation, which becomes the payload of an entry.\<close>

definition operation_value :: "op \<Rightarrow> string \<Rightarrow> jsval \<Rightarrow> string option \<Rightarrow> jsval" where
  "operation_value o' key v c = JObj ([(''op'', JStr (op_name o')), (''key'', JStr key), (''value'', v)] @
     optional_field ''capability_id'' c)"

definition payload_value :: "entry_payload \<Rightarrow> jsval" where
  "payload_value p = (case p of
     PutOperation k e c \<Rightarrow> operation_value PUT k (envelope_value e) c
   | DelOperation k t c \<Rightarrow> operation_value DEL k (del_value ''track'' t) c
   | LabelsPut k r c \<Rightarrow> operation_value PUT k (labels_value r) c
   | AboutPut k r c \<Rightarrow> operation_value PUT k (about_value r) c
   | AccessRecordPut k v c \<Rightarrow> operation_value PUT k v c
   | OpaqueOperation o' k v c \<Rightarrow> operation_value o' k v c
   | IdentityPut k r \<Rightarrow> operation_value PUT k (identity_value r) None
   | IdentityDel k t ts \<Rightarrow> operation_value DEL k (del_value (identity_type_name t) ts) None
   | ListenPayload l \<Rightarrow> listen_value l)"

section \<open>Well-formed operations of a library type\<close>

definition payload_ok :: "deps \<Rightarrow> library_type \<Rightarrow> entry_payload \<Rightarrow> bool" where
  "payload_ok D type p = (case p of
     PutOperation k e c \<Rightarrow> type = recordstore \<and> envelope_ok e \<and> k = env_id e
   | DelOperation k t c \<Rightarrow> type = recordstore \<and> is_track_id k \<and> int t \<le> MAX_SAFE_INTEGER
   | LabelsPut k r c \<Rightarrow> (type = recordstore \<or> type = labels \<and> c = None) \<and> labels_ok D r \<and> k = record_key D (labels_value r)
   | AboutPut k r c \<Rightarrow> (type = recordstore \<or> type = labels \<and> c = None) \<and> about_ok r \<and> k = ABOUT_KEY D
   | AccessRecordPut k v c \<Rightarrow> type = recordstore \<and> is_record v \<and> is_access_record_type (get ''type'' v) \<and>
       validate_access_record D k v = Inr ()
   | OpaqueOperation o' k v c \<Rightarrow> False
   | IdentityPut k r \<Rightarrow> type = identity \<and> identity_ok D r \<and> k = identity_record_key D r
   | IdentityDel k t ts \<Rightarrow> type = identity \<and> t \<noteq> profile_t \<and> int ts \<le> MAX_SAFE_INTEGER
   | ListenPayload l \<Rightarrow> type = listens \<and> listen_ok l)"

lemma operation_value_reads [simp]:
  "is_record (operation_value o' k v c)"
  "get ''op'' (operation_value o' k v c) = JStr (op_name o')"
  "get ''key'' (operation_value o' k v c) = JStr k"
  "get ''value'' (operation_value o' k v c) = v"
  "as_string (get ''capability_id'' (operation_value o' k v c)) = c"
  "has ''capability_id'' (operation_value o' k v c) \<longleftrightarrow> c \<noteq> None"
  by (auto simp: operation_value_def optional_field_def split: option.splits)

lemma op_name_simps [simp]: "op_name PUT = ''PUT''" "op_name DEL = ''DEL''"
  by (simp_all add: op_name_def)

lemma value_reads [simp]:
  "is_record (envelope_value e)" "get ''type'' (envelope_value e) = JStr ''track''"
  "is_record (labels_value r)" "get ''type'' (labels_value r) = JStr ''labels''"
  "is_record (about_value a)" "get ''type'' (about_value a) = JStr ''about''" "get ''id'' (about_value a) = JUndefined"
  "is_record (del_value t n)" "get ''type'' (del_value t n) = JStr t" "get ''timestamp'' (del_value t n) = JInt (int n)"
  "keys (del_value t n) = [''type'', ''timestamp'']"
  by (simp_all add: envelope_value_def labels_value_def about_value_def del_value_def)

lemma identity_value_reads [simp]:
  "is_record (identity_value r)" "get ''type'' (identity_value r) = JStr (identity_type_name (identity_record_type_of r))"
  "get ''v'' (identity_value r) = JInt 1"
  by (simp_all add: identity_value_def Let_def split: identity_record.splits)

lemma identity_value_not_later [simp]: "\<not> is_later_profile (identity_value r)"
  by (simp add: is_later_profile_def)

lemma validate_del_value_track [simp]:
  "int t \<le> MAX_SAFE_INTEGER \<Longrightarrow> validate_del_value (del_value ''track'' t) = Inr t"
  by (simp add: validate_del_value_def DEL_VALUE_FIELDS_def)

lemma validate_record_put_values:
  "envelope_ok e \<Longrightarrow> validate_record_put D (env_id e) (envelope_value e) True ws = Inr (PutOperation (env_id e) e None)"
  "labels_ok D r \<Longrightarrow> validate_record_put D (record_key D (labels_value r)) (labels_value r) rs ws =
     Inr (LabelsPut (record_key D (labels_value r)) r None)"
  "about_ok a \<Longrightarrow> validate_record_put D (ABOUT_KEY D) (about_value a) rs ws = Inr (AboutPut (ABOUT_KEY D) a None)"
  "is_access_record_type (get ''type'' v) \<Longrightarrow> validate_access_record D k v = Inr () \<Longrightarrow>
     validate_record_put D k v True ws = Inr (AccessRecordPut k v None)"
  by (auto simp: validate_record_put_def ADMITTED_PUTS_def V1_ENVELOPE_TYPES_def is_v1_envelope_def is_access_record_type_def
      ACCESS_RECORD_TYPES_def validate_labels_value validate_about_value is_string_def)

lemma validate_operation_payload_value:
  assumes "payload_ok D type p"
  shows "validate_operation D (payload_value p) type ws = Inr p"
proof (cases p)
  case (IdentityPut k r)
  with assms show ?thesis
    by (simp add: payload_ok_def payload_value_def validate_operation_def validate_identity_operation_def
        is_string_def validate_identity_value)
next
  case (IdentityDel k t ts)
  with assms show ?thesis
    by (simp add: payload_ok_def payload_value_def validate_operation_def validate_identity_operation_def is_string_def)
next
  case (ListenPayload l)
  with assms show ?thesis
    by (simp add: payload_ok_def payload_value_def validate_operation_def)
       (simp add: listen_value_def)
next
  case (LabelsPut k r c)
  with assms show ?thesis
    by (cases c) (auto simp: payload_ok_def payload_value_def validate_operation_def validate_record_operation_def
        validate_record_put_values)
next
  case (AboutPut k r c)
  with assms show ?thesis
    by (cases c) (auto simp: payload_ok_def payload_value_def validate_operation_def validate_record_operation_def
        validate_record_put_values)
next
  case (PutOperation k e c)
  with assms show ?thesis
    by (cases c) (simp_all add: payload_ok_def payload_value_def validate_operation_def validate_record_operation_def
        validate_record_put_values)
next
  case (DelOperation k t c)
  with assms show ?thesis
    by (cases c) (simp_all add: payload_ok_def payload_value_def validate_operation_def validate_record_operation_def)
next
  case (AccessRecordPut k v c)
  with assms show ?thesis
    by (cases c) (simp_all add: payload_ok_def payload_value_def validate_operation_def validate_record_operation_def
        validate_record_put_values)
qed (use assms in \<open>simp add: payload_ok_def\<close>)

lemma build_labels_put_ok:
  "build_labels_put D s u t c = Inr p \<Longrightarrow> payload_ok D recordstore p \<and> (c = None \<longrightarrow> payload_ok D labels p)"
  by (cases c) (auto simp: build_labels_put_def build_labels_record_def result_simps payload_ok_def Let_def
      dest: validate_labels_record_Inr)

lemma build_about_put_ok:
  "build_about_put D n t c = Inr p \<Longrightarrow> payload_ok D recordstore p \<and> (c = None \<longrightarrow> payload_ok D labels p)"
  by (cases c) (auto simp: build_about_put_def build_about_record_def result_simps payload_ok_def Let_def
      dest: validate_about_record_Inr)

lemma build_put_ok: "envelope_ok e \<Longrightarrow> payload_ok D recordstore (build_put_operation e c)"
  by (cases c) (simp_all add: build_put_operation_def payload_ok_def)

lemma build_track_envelope_Inr:
  "build_track_envelope i content t = Inr e \<Longrightarrow> envelope_ok e"
  unfolding build_track_envelope_def by (drule validate_envelope_ok) simp

section \<open>Properties\<close>

text \<open>Where a builder does not check what it is given, the validation decides.\<close>

lemma del_accepted_iff:
  assumes "build_del_operation k t = Inr d"
  shows "validate_operation D (payload_value d) recordstore ws = Inr d \<longleftrightarrow> is_track_id k"
proof -
  from assms have "d = DelOperation k t None" "int t \<le> MAX_SAFE_INTEGER"
    by (auto simp: build_del_operation_def result_simps validate_del_value_def as_uint_Some_iff split: if_splits option.splits)
  then show ?thesis by (simp add: payload_value_def validate_operation_def validate_record_operation_def)
qed

lemma record_put_accepted_iff:
  assumes "is_record v" "is_access_record_type (get ''type'' v)"
  shows "validate_operation D (payload_value (build_record_put_operation k v c)) recordstore ws = Inr (build_record_put_operation k v c) \<longleftrightarrow>
    validate_access_record D k v = Inr ()"
proof -
  have built: "build_record_put_operation k v c = AccessRecordPut k v c" by (cases c) (simp_all add: build_record_put_operation_def)
  have "validate_record_put D k v True ws = and_then (validate_access_record D k v) (\<lambda>_. Inr (AccessRecordPut k v None))"
    using assms(2) by (auto simp: validate_record_put_def ADMITTED_PUTS_def V1_ENVELOPE_TYPES_def is_v1_envelope_def is_access_record_type_def
        ACCESS_RECORD_TYPES_def)
  then show ?thesis unfolding built using assms(1)
    by (cases "validate_access_record D k v"; cases c) (simp_all add: payload_value_def validate_operation_def validate_record_operation_def)
qed

lemma identity_put_accepted_iff:
  "validate_operation D (payload_value (build_identity_put D r)) identity ws = Inr (build_identity_put D r) \<longleftrightarrow> identity_ok D r"
proof
  assume "validate_operation D (payload_value (build_identity_put D r)) identity ws = Inr (build_identity_put D r)"
  then have "validate_record D (identity_record_type_of r) (identity_value r) = Inr r"
    by (auto simp: build_identity_put_def payload_value_def validate_operation_def validate_identity_operation_def is_string_def result_simps
        split: if_splits)
  then show "identity_ok D r" by (rule validate_record_ok[THEN conjunct1])
qed (intro validate_operation_payload_value, simp add: build_identity_put_def payload_ok_def)

lemma identity_del_accepted_iff:
  "validate_operation D (payload_value (build_identity_del ty k t)) identity ws = Inr (build_identity_del ty k t) \<longleftrightarrow>
     ty \<noteq> profile_t \<and> int t \<le> MAX_SAFE_INTEGER"
  by (auto simp: build_identity_del_def payload_value_def validate_operation_def validate_identity_operation_def is_string_def as_uint_Some_iff
      split: option.splits)

lemma capability_put_accepted:
  assumes "assert_issuable_capability (build_capability_record t g actions spec cs) = Inr ()"
  defines "v \<equiv> build_capability_record t g actions spec cs"
  shows "validate_operation D (payload_value (build_record_put_operation (record_key D v) v c)) recordstore ws =
    Inr (build_record_put_operation (record_key D v) v c)"
proof -
  have "is_record v" by (simp add: v_def build_capability_record_def)
  moreover have "is_access_record_type (get ''type'' v)" by (simp add: v_def is_access_record_type_def ACCESS_RECORD_TYPES_def)
  moreover have "capability_shape v = shape_ok" using assms(1) by (simp add: v_def assert_issuable_capability_def split: if_splits)
  then have "validate_access_record D (record_key D v) v = Inr ()" by (simp add: validate_access_record_Inr_iff v_def)
  ultimately show ?thesis using record_put_accepted_iff by blast
qed

lemma revocation_put_accepted_iff:
  fixes t :: nat and revokes :: string
  defines "v \<equiv> build_revocation_record t revokes"
  shows "validate_operation D (payload_value (build_record_put_operation (record_key D v) v c)) recordstore ws =
      Inr (build_record_put_operation (record_key D v) v c) \<longleftrightarrow>
    int t \<le> MAX_SAFE_INTEGER"
proof -
  have "is_record v" "is_access_record_type (get ''type'' v)"
    by (simp_all add: v_def build_revocation_record_def is_access_record_type_def ACCESS_RECORD_TYPES_def)
  moreover have "validate_access_record D (record_key D v) v = Inr () \<longleftrightarrow> int t \<le> MAX_SAFE_INTEGER"
    by (simp add: validate_access_record_Inr_iff)
       (auto simp: v_def build_revocation_record_def revocation_well_formed_def is_uint_iff is_string_def has_extra_fields_def REVOCATION_FIELDS_def)
  ultimately show ?thesis using record_put_accepted_iff by blast
qed

text \<open>C28: What the builders build, the validation of the library types it is written to accepts and reads back as
  the same operation, capability id included, whoever signs it: a track PUT made from a built
  envelope, built label and About PUTs, a PUT of an issuable capability, and built listens, always; a track DEL
  exactly when its key is a track id, a revocation exactly when its timestamp is safe, an
  identity PUT exactly when its record is within the bounds of its type, and an identity DEL
  exactly when it is not of a profile and its timestamp is safe, which these builders do not check.\<close>

theorem built_operations_accepted:
  "(build_track_envelope i content t = Inr e \<longrightarrow>
      validate_operation D (payload_value (build_put_operation e c)) recordstore ws = Inr (build_put_operation e c)) \<and>
   (build_labels_put D s u t c = Inr p \<longrightarrow> validate_operation D (payload_value p) recordstore ws = Inr p \<and>
      (c = None \<longrightarrow> validate_operation D (payload_value p) labels ws = Inr p)) \<and>
   (build_about_put D n t c = Inr q \<longrightarrow> validate_operation D (payload_value q) recordstore ws = Inr q \<and>
      (c = None \<longrightarrow> validate_operation D (payload_value q) labels ws = Inr q)) \<and>
   (build_del_operation k t = Inr d \<longrightarrow> (validate_operation D (payload_value d) recordstore ws = Inr d \<longleftrightarrow> is_track_id k)) \<and>
   (v = build_capability_record t g actions spec cs \<and> assert_issuable_capability v = Inr () \<longrightarrow>
      validate_operation D (payload_value (build_record_put_operation (record_key D v) v c)) recordstore ws =
        Inr (build_record_put_operation (record_key D v) v c)) \<and>
   (w = build_revocation_record t revokes \<longrightarrow>
      (validate_operation D (payload_value (build_record_put_operation (record_key D w) w c)) recordstore ws =
         Inr (build_record_put_operation (record_key D w) w c) \<longleftrightarrow> int t \<le> MAX_SAFE_INTEGER)) \<and>
   (validate_operation D (payload_value (build_identity_put D r)) identity ws = Inr (build_identity_put D r) \<longleftrightarrow> identity_ok D r) \<and>
   (validate_operation D (payload_value (build_identity_del ty k t)) identity ws = Inr (build_identity_del ty k t) \<longleftrightarrow>
      ty \<noteq> profile_t \<and> int t \<le> MAX_SAFE_INTEGER) \<and>
   (build_listen_payload i content t = Inr l \<longrightarrow>
      validate_operation D (payload_value (ListenPayload l)) listens ws = Inr (ListenPayload l))"
proof (intro conjI)
  show "build_track_envelope i content t = Inr e \<longrightarrow>
      validate_operation D (payload_value (build_put_operation e c)) recordstore ws = Inr (build_put_operation e c)"
    by (intro impI validate_operation_payload_value build_put_ok) (rule build_track_envelope_Inr)
  show "v = build_capability_record t g actions spec cs \<and> assert_issuable_capability v = Inr () \<longrightarrow>
      validate_operation D (payload_value (build_record_put_operation (record_key D v) v c)) recordstore ws =
        Inr (build_record_put_operation (record_key D v) v c)"
    using capability_put_accepted by blast
  show "build_listen_payload i content t = Inr l \<longrightarrow>
      validate_operation D (payload_value (ListenPayload l)) listens ws = Inr (ListenPayload l)"
    by (intro impI validate_operation_payload_value)
      (auto simp: payload_ok_def build_listen_payload_def dest: validate_listen_payload_ok)
qed (auto intro!: validate_operation_payload_value dest: build_labels_put_ok build_about_put_ok
    simp: del_accepted_iff revocation_put_accepted_iff identity_put_accepted_iff identity_del_accepted_iff)

definition sample_track_id :: string where
  "sample_track_id = replicate 64 (CHR ''b'')"

lemma sample_track_id_ok [simp]: "is_track_id sample_track_id"
  by (simp add: sample_track_id_def is_track_id_def is_lower_hex_def list_all_iff)

definition sample_labels :: labels_record where
  "sample_labels = \<lparr>lr_timestamp = 7, lr_set = [(sample_track_id, ''jazz'')], lr_unset = []\<rparr>"

definition sample_labels_op :: entry_payload where
  "sample_labels_op = LabelsPut (record_key (sample_deps []) (labels_value sample_labels)) sample_labels (Some ''cap'')"

lemma sample_labels_put:
  "build_labels_put (sample_deps []) [(sample_track_id, ''jazz'')] [] 7 (Some ''cap'') = Inr sample_labels_op"
proof -
  have "labels_ok (sample_deps []) sample_labels"
    by (simp add: labels_ok_def label_pair_ok_def MAX_SAFE_INTEGER_def sample_deps_def sample_labels_def)
  from validate_labels_value[OF this] show ?thesis
    by (simp add: build_labels_put_def build_labels_record_def sample_labels_op_def sample_labels_def Let_def)
qed

theorem built_operations_accepted_witness:
  "validate_operation (sample_deps []) (payload_value sample_labels_op) recordstore False = Inr sample_labels_op"
  using built_operations_accepted[where D = "sample_deps []" and s = "[(sample_track_id, ''jazz'')]" and u = "[]"
      and t = 7 and c = "Some ''cap''" and p = sample_labels_op and ws = False] sample_labels_put
  by blast

text \<open>C29: Each library type admits its own operations only. A labels library admits label and About
  records without a capability, a listens library listens, an identity library identity records
  and opaque ones without a capability, and a recordstore everything else; a DEL in a recordstore
  tombstones a track id, an opaque DEL is a write-list signer's version 1 one, and an opaque PUT has a type this
  version does not define unless a write-list signer wrote it.\<close>

theorem operations_admitted:
  assumes "validate_operation D payload type ws = Inr p"
  shows "(type = labels \<longrightarrow> (is_labels_put p \<or> is_about_put p) \<and> cited_capability p = None) \<and>
    (type = listens \<longrightarrow> (\<exists>l. p = ListenPayload l \<and> listen_ok l)) \<and>
    (type = identity \<longrightarrow> (is_identity_operation p \<or> is_opaque p) \<and> cited_capability p = None) \<and>
    (type = recordstore \<longrightarrow>
       is_envelope_operation p \<or> is_labels_put p \<or> is_about_put p \<or> is_access_record p \<or> is_opaque p) \<and>
    (\<forall>k t c. p = DelOperation k t c \<longrightarrow> is_track_id k \<and> int t \<le> MAX_SAFE_INTEGER) \<and>
    (\<forall>o' k v c. type = recordstore \<and> p = OpaqueOperation o' k v c \<longrightarrow> ws \<or>
       o' = PUT \<and> get ''type'' v \<notin> JStr ` {''track'', ''labels'', ''about'', ''capability'', ''revocation''})"
proof -
  have put_facts: "is_put q \<or> is_labels_put q \<or> is_about_put q \<or> is_access_record q \<or> is_opaque q"
    "cited_capability q = None" "\<nexists>k t c. q = DelOperation k t c"
    "\<not> rs \<Longrightarrow> is_labels_put q \<or> is_about_put q"
    "q = OpaqueOperation o' k w d \<Longrightarrow> ws \<or>
       o' = PUT \<and> get ''type'' w \<notin> JStr ` {''track'', ''labels'', ''about'', ''capability'', ''revocation''}"
    if "validate_record_put D key v rs ws = Inr q" for key v rs q o' k w d
    using that by (auto simp: validate_record_put_def ADMITTED_PUTS_def result_simps Let_def is_put_def is_labels_put_def
      is_about_put_def is_access_record_def is_opaque_def cited_capability_def split: if_splits)
  have cap: "with_capability q None = q" for q by (cases q) simp_all
  have kinds [simp]: "is_put (with_capability q c) = is_put q" "is_labels_put (with_capability q c) = is_labels_put q"
    "is_about_put (with_capability q c) = is_about_put q" "is_access_record (with_capability q c) = is_access_record q"
    "is_opaque (with_capability q c) = is_opaque q" for q c
    by (cases q; cases c; simp add: is_put_def is_labels_put_def is_about_put_def is_access_record_def is_opaque_def)+
  have strip: "(\<exists>c. with_capability q e = DelOperation k t c) \<Longrightarrow> \<exists>c. q = DelOperation k t c"
    "with_capability q e = OpaqueOperation o' k v c \<Longrightarrow> \<exists>c. q = OpaqueOperation o' k v c" for q e o' k v c t
    by (cases q; cases e; auto)+
  have none: "\<not> has ''capability_id'' payload \<Longrightarrow> as_string (get ''capability_id'' payload) = None"
    using get_not_has by fastforce
  show ?thesis
  proof (cases type)
    case recordstore
    have "with_capability (DelOperation k t None) c = DelOperation k t c" for k t c by (cases c) simp_all
    with recordstore assms consider (put) key v q c where "validate_record_put D key v True ws = Inr q" "p = with_capability q c"
      | (opaque) k v where "p = OpaqueOperation DEL k v None" "ws"
      | (del) k t c where "p = DelOperation k t c" "is_track_id k" "int t \<le> MAX_SAFE_INTEGER"
      by (auto simp: validate_operation_def validate_record_operation_def result_simps Let_def
          validate_del_value_def as_uint_Some_iff split: if_splits option.splits)
    then show ?thesis
    proof cases
      case put
      with recordstore show ?thesis
        using put_facts(1,3,5)[OF put(1)] strip[of q c] by (auto simp: is_envelope_operation_def)
    qed (use recordstore in \<open>simp_all add: is_opaque_def is_envelope_operation_def\<close>)
  next
    case labels
    with assms none show ?thesis
      by (auto simp: validate_operation_def validate_record_operation_def result_simps Let_def cap
          dest: put_facts split: if_splits option.splits)
  next
    case listens
    with assms show ?thesis
      by (auto simp: validate_operation_def result_simps dest: validate_listen_payload_ok split: if_splits)
  next
    case identity
    with assms show ?thesis
      by (auto simp: validate_operation_def validate_identity_operation_def result_simps Let_def is_identity_operation_def
          is_opaque_def cited_capability_def split: if_splits option.splits)
  qed
qed

theorem operations_admitted_witness:
  "validate_operation (sample_deps []) (payload_value (DelOperation sample_track_id 9 (Some ''cap''))) recordstore False =
     Inr (DelOperation sample_track_id 9 (Some ''cap'')) \<and> is_track_id sample_track_id"
proof -
  have "validate_operation (sample_deps []) (payload_value (DelOperation sample_track_id 9 (Some ''cap''))) recordstore False =
      Inr (DelOperation sample_track_id 9 (Some ''cap''))"
    by (rule validate_operation_payload_value) (simp add: payload_ok_def MAX_SAFE_INTEGER_def)
  with operations_admitted[OF this] show ?thesis by blast
qed

end
