(* ===== verification/Content_Store.thy ===== *)
theory Content_Store
  imports Encoding
begin

text \<open>
  Block handling (\<open>src/fabric/block.ts\<close>) and the map-backed content store
  (\<open>src/adapter/memory/content-store.ts\<close>), with the interface of \<open>src/types/library.ts\<close> and
  \<open>src/fabric/content-store.ts\<close> as a locale. CID parsing and the dag-pb codec are packages: the
  fields of \<open>cid_lib\<close>.
\<close>

record cid =
  cid_version :: nat
  cid_code :: nat
  cid_mh_code :: nat
  cid_digest :: bytes

text \<open>
  \<open>cid_parse\<close> is \<open>CID.parse\<close>, \<open>None\<close> where it throws; \<open>cid_format\<close> is \<open>cid.toString(base58btc)\<close>;
  \<open>cid_of_bytes\<close> is the CID a dag-cbor link holds; \<open>dag_pb_links\<close> are the links of a decoded
  dag-pb block, \<open>None\<close> where decoding throws.
\<close>

record cid_lib =
  cid_parse :: "string \<Rightarrow> cid option"
  cid_format :: "cid \<Rightarrow> string"
  cid_of_bytes :: "bytes \<Rightarrow> cid"
  dag_pb_links :: "bytes \<Rightarrow> cid list option"

text \<open>\<open>cid.multihash.bytes\<close>: the hash code and the digest.\<close>

definition multihash :: "cid \<Rightarrow> nat \<times> bytes" where
  "multihash c = (cid_mh_code c, cid_digest c)"

definition SHA2_256_CODE :: nat where "SHA2_256_CODE = 0x12"
definition SHA3_512_CODE :: nat where "SHA3_512_CODE = 0x14"
definition RAW_CODE :: nat where "RAW_CODE = 0x55"
definition DAG_PB_CODE :: nat where "DAG_PB_CODE = 0x70"
definition DAG_CBOR_CODE :: nat where "DAG_CBOR_CODE = 0x71"

definition DIGESTS :: "deps \<Rightarrow> nat \<Rightarrow> (bytes \<Rightarrow> bytes) option" where
  "DIGESTS D code = (if code = SHA2_256_CODE then Some (sha256 D)
     else if code = SHA3_512_CODE then Some (sha3_512 D) else None)"

definition parse_content_cid :: "cid_lib \<Rightarrow> string \<Rightarrow> cid result" where
  "parse_content_cid C s = (case cid_parse C s of None \<Rightarrow> Inl invalid_cid | Some c \<Rightarrow> Inr c)"

definition format_cid :: "cid_lib \<Rightarrow> cid \<Rightarrow> string" where
  "format_cid C c = cid_format C c"

definition verify_block :: "deps \<Rightarrow> cid \<Rightarrow> bytes \<Rightarrow> unit result" where
  "verify_block D c bs = (case DIGESTS D (cid_mh_code c) of
     None \<Rightarrow> Inl invalid_cid
   | Some digest \<Rightarrow> if digest bs \<noteq> cid_digest c then Inl cid_mismatch else Inr ())"

lemma verify_block_Inr_iff [result_simps]:
  "verify_block D c bs = Inr u \<longleftrightarrow> (\<exists>digest. DIGESTS D (cid_mh_code c) = Some digest \<and> digest bs = cid_digest c)"
  by (auto simp: verify_block_def split: option.splits)

section \<open>The memory store\<close>

type_synonym blocks = "(string, bytes) omap"

definition memory_get :: "cid_lib \<Rightarrow> blocks \<Rightarrow> string \<Rightarrow> bytes option result" where
  "memory_get C blocks s = and_then (parse_content_cid C s) (\<lambda>c. Inr (omap_get blocks (format_cid C c)))"

definition memory_put :: "deps \<Rightarrow> cid_lib \<Rightarrow> string \<Rightarrow> bytes \<Rightarrow> blocks \<Rightarrow> blocks result" where
  "memory_put D C s bs blocks =
     and_then (parse_content_cid C s) (\<lambda>parsed.
     and_then (verify_block D parsed bs) (\<lambda>_. Inr (omap_set (format_cid C parsed) bs blocks)))"

definition memory_has :: "cid_lib \<Rightarrow> blocks \<Rightarrow> string \<Rightarrow> bool result" where
  "memory_has C blocks s = and_then (parse_content_cid C s) (\<lambda>c. Inr (omap_has blocks (format_cid C c)))"

text \<open>A string the store reads as itself: a CID in its base58btc spelling.\<close>

definition canonical_spelling :: "cid_lib \<Rightarrow> string \<Rightarrow> bool" where
  "canonical_spelling C s = (case cid_parse C s of None \<Rightarrow> False | Some c \<Rightarrow> cid_format C c = s)"

section \<open>The interface the core relies on\<close>

text \<open>
  What creating and resolving an access-control chain needs of a \<open>BlockStore\<close>: a block read after
  it was put is the block, another one is left alone, and a put either stores the block or leaves
  the store. \<open>get\<close> may also throw.
\<close>

locale block_store =
  fixes get_block :: "'s \<Rightarrow> string \<Rightarrow> bytes option result"
    and put_block :: "string \<Rightarrow> bytes \<Rightarrow> 's \<Rightarrow> 's result"
    and key :: "string \<Rightarrow> bool"
  assumes get_put_same: "key c \<Longrightarrow> put_block c bs s = Inr s' \<Longrightarrow> get_block s' c = Inr (Some bs)"
    and get_put_other: "key c \<Longrightarrow> key c' \<Longrightarrow> c' \<noteq> c \<Longrightarrow> put_block c bs s = Inr s' \<Longrightarrow>
      get_block s' c' = get_block s c'"

text \<open>\<open>for (const { cid, bytes } of objects) await block_store.put(cid, bytes)\<close>.\<close>

fun put_all :: "(string \<Rightarrow> bytes \<Rightarrow> 's \<Rightarrow> 's result) \<Rightarrow> ac_chain_object list \<Rightarrow> 's \<Rightarrow> 's result" where
  "put_all put [] s = Inr s"
| "put_all put (x # xs) s = and_then (put (object_cid x) (object_bytes x) s) (\<lambda>s'. put_all put xs s')"

context block_store begin

lemma get_put_all_other:
  "put_all put_block xs s = Inr s' \<Longrightarrow> key c \<Longrightarrow> \<forall>x \<in> set xs. key (object_cid x) \<and> object_cid x \<noteq> c \<Longrightarrow>
     get_block s' c = get_block s c"
  by (induction xs arbitrary: s) (auto simp: result_simps dest: get_put_other)

lemma get_put_all:
  assumes "put_all put_block xs s = Inr s'" "\<forall>x \<in> set xs. key (object_cid x)" "distinct (map object_cid xs)"
    and "x \<in> set xs"
  shows "get_block s' (object_cid x) = Inr (Some (object_bytes x))"
  using assms
proof (induction xs arbitrary: s)
  case (Cons y ys)
  then obtain s1 where s1: "put_block (object_cid y) (object_bytes y) s = Inr s1" "put_all put_block ys s1 = Inr s'"
    by (auto simp: result_simps)
  show ?case
  proof (cases "x = y")
    case True
    have "\<forall>z \<in> set ys. key (object_cid z) \<and> object_cid z \<noteq> object_cid y"
      using Cons.prems by (auto simp: image_iff eq_commute)
    with s1 Cons.prems True show ?thesis
      using get_put_all_other[of ys s1 s' "object_cid y"] get_put_same[of "object_cid y"] by simp
  next
    case False
    with Cons s1 show ?thesis by auto
  qed
qed simp

end

interpretation memory_store: block_store "memory_get C" "memory_put D C" "canonical_spelling C"
  by unfold_locales
     (auto simp: memory_get_def memory_put_def parse_content_cid_def canonical_spelling_def format_cid_def result_simps
       ordered_simps split: option.splits)

inductive memory_reachable :: "deps \<Rightarrow> cid_lib \<Rightarrow> blocks \<Rightarrow> bool" for D C where
  empty: "memory_reachable D C []"
| put: "memory_reachable D C b \<Longrightarrow> memory_put D C s bs b = Inr b' \<Longrightarrow> memory_reachable D C b'"

lemma memory_reachable_verified:
  "memory_reachable D C b \<Longrightarrow> omap_get b k = Some bs \<Longrightarrow> \<exists>c. format_cid C c = k \<and> verify_block D c bs = Inr ()"
proof (induction rule: memory_reachable.induct)
  case (put b s bs' b')
  then show ?case
    by (auto simp: memory_put_def and_then_Inr_iff ordered_simps split: if_splits)
qed simp

section \<open>A sample of the CID package\<close>

text \<open>
  Protocol CIDs parse and print as the package does it; any other CID has an injective spelling of
  its own. Only examples use it.
\<close>

definition is_protocol_profile :: "cid \<Rightarrow> bool" where
  "is_protocol_profile c = (cid_version c = 1 \<and> cid_code c = DAG_CBOR_CODE \<and> cid_mh_code c = SHA3_512_CODE)"

definition protocol_cid :: "bytes \<Rightarrow> cid" where
  "protocol_cid d = \<lparr>cid_version = 1, cid_code = DAG_CBOR_CODE, cid_mh_code = SHA3_512_CODE, cid_digest = d\<rparr>"

definition sample_cid_lib :: cid_lib where
  "sample_cid_lib = \<lparr>
     cid_parse = (\<lambda>s. case strip_prefix ''z'' s of None \<Rightarrow> None
       | Some rest \<Rightarrow> (case decode_base58btc rest of None \<Rightarrow> None
         | Some bs \<Rightarrow> if take 4 bs = PROTOCOL_CID_PREFIX then Some (protocol_cid (drop 4 bs)) else None)),
     cid_format = (\<lambda>c. if is_protocol_profile c then format_protocol_cid (PROTOCOL_CID_PREFIX @ cid_digest c)
       else json_strings [replicate (cid_version c) (CHR ''v''), replicate (cid_code c) (CHR ''c''),
         replicate (cid_mh_code c) (CHR ''m''), map (\<lambda>b. char_of (unat b)) (cid_digest c)]),
     cid_of_bytes = protocol_cid,
     dag_pb_links = (\<lambda>bs. Some [])\<rparr>"

lemma map_char_of_unat_inj: "map (\<lambda>b. char_of (unat b)) xs = map (\<lambda>b. char_of (unat b)) (ys :: bytes) \<longleftrightarrow> xs = (ys :: bytes)"
proof (rule inj_map_eq_map, rule injI)
  fix a b :: byte
  assume "(char_of (unat a) :: char) = char_of (unat b)"
  then have "(of_char (char_of (unat a) :: char) :: nat) = of_char (char_of (unat b) :: char)" by simp
  then show "a = b" using unat_byte_bound[of a] unat_byte_bound[of b] by (simp add: of_char_of) (metis unsigned_word_eqI)
qed

lemma cid_format_inj: "inj (cid_format sample_cid_lib)"
proof (rule injI)
  fix a b :: cid
  assume eq: "cid_format sample_cid_lib a = cid_format sample_cid_lib b"
  then have same: "is_protocol_profile a \<longleftrightarrow> is_protocol_profile b"
    by (auto simp: sample_cid_lib_def format_protocol_cid_def json_strings_def split: if_splits)
  show "a = b"
  proof (cases "is_protocol_profile a")
    case True
    with eq same show ?thesis
      by (intro cid.equality) (auto simp: sample_cid_lib_def is_protocol_profile_def format_protocol_cid_def)
  next
    case False
    with eq same show ?thesis
      by (intro cid.equality) (auto simp: sample_cid_lib_def json_strings_inj map_char_of_unat_inj replicate_eq_replicate)
  qed
qed

lemma sample_parse_protocol [simp]:
  "cid_parse sample_cid_lib (format_protocol_cid (PROTOCOL_CID_PREFIX @ d)) = Some (protocol_cid d)"
  by (simp add: sample_cid_lib_def format_protocol_cid_def strip_prefix_Cons decode_encode PROTOCOL_CID_PREFIX_def)

lemma sample_format_protocol [simp]:
  "cid_format sample_cid_lib (protocol_cid d) = format_protocol_cid (PROTOCOL_CID_PREFIX @ d)"
  by (simp add: sample_cid_lib_def is_protocol_profile_def protocol_cid_def)

lemma sample_compute_cid: "compute_cid_string (sample_deps t) bs = format_protocol_cid (PROTOCOL_CID_PREFIX @ sha3_512 (sample_deps t) bs)"
  by (simp add: compute_cid_string_def compute_cid_def sample_deps_def)

lemma sample_canonical [simp]: "canonical_spelling sample_cid_lib (compute_cid_string (sample_deps t) bs)"
  by (simp add: canonical_spelling_def sample_compute_cid)

lemma sample_verify [simp]: "verify_block (sample_deps t) (protocol_cid (sha3_512 (sample_deps t) bs)) bs = Inr ()"
  by (simp add: verify_block_def protocol_cid_def DIGESTS_def SHA3_512_CODE_def SHA2_256_CODE_def)

lemma sample_memory_put: "memory_put (sample_deps t) sample_cid_lib (compute_cid_string (sample_deps t) bs) bs b =
    Inr (omap_set (compute_cid_string (sample_deps t) bs) bs b)"
  by (simp add: memory_put_def parse_content_cid_def sample_compute_cid format_cid_def)

section \<open>Properties\<close>

text \<open>The memory store serves verified blocks only: in every store reached from the empty one by
  puts, the bytes a CID reads are bytes that hash to that CID, given that different CIDs have
  different base58btc spellings.\<close>

lemma memory_store_verified:
  assumes "memory_reachable D C b" "inj (cid_format C)" "memory_get C b s = Inr (Some bs)"
  shows "\<exists>c. parse_content_cid C s = Inr c \<and> verify_block D c bs = Inr ()"
proof -
  from assms(3) obtain c where c: "parse_content_cid C s = Inr c" "omap_get b (format_cid C c) = Some bs"
    by (auto simp: memory_get_def result_simps)
  with memory_reachable_verified[OF assms(1)] obtain c' where
    "format_cid C c' = format_cid C c" "verify_block D c' bs = Inr ()" by blast
  with assms(2) c(1) show ?thesis by (auto simp: format_cid_def inj_eq)
qed

end
