(* ===== verification/Ac_Chain.thy ===== *)
theory Ac_Chain
  imports Content_Store Identity
begin

text \<open>
  Creating and resolving the access-control chain of a library: write list, wrapper and manifest
  (\<open>src/access-control/create.ts\<close>, \<open>resolve.ts\<close>). Both take a block store; the lemmas on them are
  proved for every store that keeps the interface of \<open>block_store\<close>.
\<close>

record ac_chain_cids =
  cid_manifest :: string
  cid_wrapper :: string
  cid_write_list :: string

record resolved_chain =
  chain_address :: string
  chain_name :: string
  chain_type :: library_type
  chain_write_list :: "string list"
  chain_cids :: ac_chain_cids

definition create_ac_chain ::
  "deps \<Rightarrow> (string \<Rightarrow> bytes \<Rightarrow> 's \<Rightarrow> 's result) \<Rightarrow> string \<Rightarrow> library_type \<Rightarrow> string list \<Rightarrow> 's \<Rightarrow>
     (string \<times> ac_chain_cids \<times> 's) result" where
  "create_ac_chain D put name type write_keys store =
     and_then (validate_library_name name) (\<lambda>_.
     and_then (map_result (\<lambda>k. validate_compressed_pubkey (JStr k)) write_keys) (\<lambda>ks.
       let parts = build_ac_chain D name type ks
       in and_then (put_all put [part_write_list parts, part_wrapper parts, part_manifest parts] store) (\<lambda>store'.
         Inr (part_address parts,
           \<lparr>cid_manifest = object_cid (part_manifest parts), cid_wrapper = object_cid (part_wrapper parts),
            cid_write_list = object_cid (part_write_list parts)\<rparr>, store'))))"

definition fetch_object :: "deps \<Rightarrow> ('s \<Rightarrow> string \<Rightarrow> bytes option result) \<Rightarrow> 's \<Rightarrow> string \<Rightarrow> jsval result" where
  "fetch_object D get_block store cid = (case get_block store cid of
     Inr (Some bs) \<Rightarrow> (case decode_canonical D bs of Inr (value, _) \<Rightarrow> Inr value | Inl _ \<Rightarrow> Inl library_rejected)
   | _ \<Rightarrow> Inl library_unopenable)"

definition resolve_ac_chain ::
  "deps \<Rightarrow> ('s \<Rightarrow> string \<Rightarrow> bytes option result) \<Rightarrow> string \<Rightarrow> 's \<Rightarrow> resolved_chain result" where
  "resolve_ac_chain D get_block library_address store =
     and_then (parse_library_address D library_address) (\<lambda>(manifest_cid, name).
     and_then (fetch_object D get_block store manifest_cid) (\<lambda>manifest.
       if \<not> is_record manifest \<or> \<not> has_exact_fields manifest [''name'', ''type'', ''accessController'']
       then Inl library_rejected
       else case (as_string (get ''name'' manifest), library_type_of (get ''type'' manifest),
                  as_string (get ''accessController'' manifest)) of
         (Some manifest_name, Some type, Some wrapper_cid) \<Rightarrow>
           if manifest_name \<noteq> name then Inl library_rejected
           else and_then (fetch_object D get_block store wrapper_cid) (\<lambda>wrapper.
             if \<not> is_record wrapper \<or> \<not> has_exact_fields wrapper [''params'', ''type''] then Inl library_rejected
             else case as_string (get ''type'' wrapper) of
               None \<Rightarrow> Inl library_rejected
             | Some wrapper_type \<Rightarrow>
                 if \<not> is_record (get ''params'' wrapper) \<or> \<not> has_exact_fields (get ''params'' wrapper) [''address'']
                 then Inl library_rejected
                 else case as_string (get ''address'' (get ''params'' wrapper)) of
                   None \<Rightarrow> Inl library_rejected
                 | Some write_list_cid \<Rightarrow>
                     if wrapper_type \<noteq> ''static'' then Inl unsupported_ac_type
                     else and_then (fetch_object D get_block store write_list_cid) (\<lambda>write_list.
                       if \<not> is_record write_list \<or> \<not> has_exact_fields write_list [''write''] then Inl library_rejected
                       else case as_array (get ''write'' write_list) of
                         None \<Rightarrow> Inl library_rejected
                       | Some elements \<Rightarrow>
                           if \<not> list_all is_compressed_pubkey elements then Inl library_rejected
                           else Inr \<lparr>chain_address = library_address, chain_name = name, chain_type = type,
                             chain_write_list = List.map_filter as_string elements,
                             chain_cids = \<lparr>cid_manifest = manifest_cid, cid_wrapper = wrapper_cid,
                               cid_write_list = write_list_cid\<rparr>\<rparr>))
       | _ \<Rightarrow> Inl library_rejected))"

section \<open>Resolving what was created\<close>

definition chain_objects :: "ac_chain_parts \<Rightarrow> ac_chain_object list" where
  "chain_objects parts = [part_write_list parts, part_wrapper parts, part_manifest parts]"

text \<open>The values the three objects of a chain encode, write list first.\<close>

definition chain_values :: "deps \<Rightarrow> string \<Rightarrow> library_type \<Rightarrow> string list \<Rightarrow> jsval list" where
  "chain_values D name type ks =
     [write_list_value ks, wrapper_value (object_cid (part_write_list (build_ac_chain D name type ks))),
      manifest_value name type (object_cid (part_wrapper (build_ac_chain D name type ks)))]"

lemma chain_objects_values:
  "chain_objects (build_ac_chain D name type ks) = map (chain_object D) (chain_values D name type ks)"
  by (simp add: chain_objects_def chain_values_def build_ac_chain_def Let_def)

lemma validate_pubkeys: "map_result (\<lambda>k. validate_compressed_pubkey (JStr k)) xs = Inr ys \<longleftrightarrow>
    ys = xs \<and> (\<forall>k \<in> set xs. is_compressed_pubkey_string k)"
  by (induction xs arbitrary: ys) (auto simp: result_simps)

lemma validate_library_name_Inr_iff [result_simps]: "validate_library_name n = Inr u \<longleftrightarrow> u = n \<and> is_library_name n"
  by (auto simp: validate_library_name_def)

lemma is_library_name_no_slash: "is_library_name n \<Longrightarrow> CHR ''/'' \<notin> set n"
proof
  assume "is_library_name n" "CHR ''/'' \<in> set n"
  then have "CHR ''/'' \<in> set ''0123456789abcdefghijklmnopqrstuvwxyzABCDEFGHIJKLMNOPQRSTUVWXYZ-''"
    unfolding is_library_name_def list_all_iff by (rule bspec)
  then show False by simp
qed

text \<open>Reading the three objects, however they came into the store, gives the chain back.\<close>

lemma resolve_of_objects:
  fixes get_block :: "'s \<Rightarrow> string \<Rightarrow> bytes option result"
  assumes read: "\<forall>x \<in> set (chain_objects (build_ac_chain D name type ks)).
      get_block store (object_cid x) = Inr (Some (object_bytes x))"
    and codec: "\<forall>v \<in> set (chain_values D name type ks). cbor_decode D (cbor_encode D v) = Some v"
    and keys: "\<forall>k \<in> set ks. is_compressed_pubkey_string k"
    and parses: "parse_library_address D (part_address (build_ac_chain D name type ks)) =
      Inr (object_cid (part_manifest (build_ac_chain D name type ks)), name)"
  shows "resolve_ac_chain D get_block (part_address (build_ac_chain D name type ks)) store =
    Inr \<lparr>chain_address = part_address (build_ac_chain D name type ks), chain_name = name, chain_type = type,
      chain_write_list = ks, chain_cids = \<lparr>cid_manifest = object_cid (part_manifest (build_ac_chain D name type ks)),
        cid_wrapper = object_cid (part_wrapper (build_ac_chain D name type ks)),
        cid_write_list = object_cid (part_write_list (build_ac_chain D name type ks))\<rparr>\<rparr>"
proof -
  let ?P = "build_ac_chain D name type ks"
  have fetch: "fetch_object D get_block store (object_cid (chain_object D v)) = Inr v"
    if "v \<in> set (chain_values D name type ks)" for v
  proof -
    have "get_block store (object_cid (chain_object D v)) = Inr (Some (encode_canonical D v))"
      using that read by (simp add: chain_objects_values) (simp add: chain_object_def Let_def)
    then show ?thesis using that codec
      by (simp add: fetch_object_def decode_canonical_def encode_canonical_def)
  qed
  have objects: "part_manifest ?P = chain_object D (manifest_value name type (object_cid (part_wrapper ?P)))"
    "part_wrapper ?P = chain_object D (wrapper_value (object_cid (part_write_list ?P)))"
    "part_write_list ?P = chain_object D (write_list_value ks)"
    by (simp_all add: build_ac_chain_def Let_def)
  have "fetch_object D get_block store (object_cid (part_manifest ?P)) = Inr (manifest_value name type (object_cid (part_wrapper ?P)))"
    "fetch_object D get_block store (object_cid (part_wrapper ?P)) = Inr (wrapper_value (object_cid (part_write_list ?P)))"
    "fetch_object D get_block store (object_cid (part_write_list ?P)) = Inr (write_list_value ks)"
    using fetch by (simp_all add: objects chain_values_def)
  then show ?thesis
    using keys parses
    by (simp add: resolve_ac_chain_def manifest_value_def wrapper_value_def write_list_value_def has_exact_fields_def
        list.pred_map comp_def list_all_iff)
qed

context block_store begin

lemma resolve_created:
  assumes created: "create_ac_chain D put_block name type ks s = Inr (address, cids, s')"
    and codec: "\<forall>v \<in> set (chain_values D name type ks). cbor_decode D (cbor_encode D v) = Some v"
    and keys: "\<forall>x \<in> set (chain_objects (build_ac_chain D name type ks)). key (object_cid x)"
    and distinct_cids: "distinct (map object_cid (chain_objects (build_ac_chain D name type ks)))"
    and cid: "cid_parses D (object_cid (part_manifest (build_ac_chain D name type ks)))"
      "CHR ''/'' \<notin> set (object_cid (part_manifest (build_ac_chain D name type ks)))"
  shows "resolve_ac_chain D get_block address s' =
    Inr \<lparr>chain_address = address, chain_name = name, chain_type = type, chain_write_list = ks, chain_cids = cids\<rparr>"
proof -
  let ?P = "build_ac_chain D name type ks"
  from created have c: "put_all put_block (chain_objects ?P) s = Inr s'" "address = part_address ?P"
    "cids = \<lparr>cid_manifest = object_cid (part_manifest ?P), cid_wrapper = object_cid (part_wrapper ?P),
       cid_write_list = object_cid (part_write_list ?P)\<rparr>"
    "\<forall>k \<in> set ks. is_compressed_pubkey_string k" "is_library_name name"
    by (auto simp: create_ac_chain_def and_then_Inr_iff validate_pubkeys validate_library_name_Inr_iff Let_def chain_objects_def
        simp del: put_all.simps)
  have "CHR ''/'' \<notin> set name" by (rule is_library_name_no_slash) (rule c(5))
  then have "parse_library_address D (part_address ?P) = Inr (object_cid (part_manifest ?P), name)"
    using cid by (simp add: parse_library_address_Inr_iff) (simp add: build_ac_chain_def Let_def)
  moreover have "\<forall>x \<in> set (chain_objects ?P). get_block s' (object_cid x) = Inr (Some (object_bytes x))"
    using get_put_all[OF c(1) keys distinct_cids] by blast
  ultimately show ?thesis using resolve_of_objects[of D name type ks get_block s'] c(2-4) codec by blast
qed

end

lemma map_filter_pubkeys:
  "list_all is_compressed_pubkey xs \<Longrightarrow> k \<in> set (List.map_filter as_string xs) \<Longrightarrow> is_compressed_pubkey_string k"
  by (induction xs) (auto simp: List.map_filter_simps is_compressed_pubkey_iff)

lemma resolve_ac_chain_Inr:
  "resolve_ac_chain D get_block address s = Inr chain \<Longrightarrow>
     chain_address chain = address \<and> (\<forall>k \<in> set (chain_write_list chain). is_compressed_pubkey_string k) \<and>
     address = build_library_address (cid_manifest (chain_cids chain)) (chain_name chain)"
  by (auto simp: resolve_ac_chain_def and_then_Inr_iff parse_library_address_Inr_iff
      dest: map_filter_pubkeys split: if_splits option.splits)

lemma encode_base58btc_alphabet: "set (encode_base58btc bs) \<subseteq> set ALPHABET"
  using decode_base58btc_None_iff[of "encode_base58btc bs"] decode_encode[of bs] by auto

lemma protocol_cid_no_slash: "CHR ''/'' \<notin> set (format_protocol_cid bs)"
  using encode_base58btc_alphabet[of bs] by (auto simp: format_protocol_cid_def ALPHABET_def)

lemma object_cid_chain: "object_cid (part_manifest (build_ac_chain D name type ks)) =
    format_protocol_cid (compute_cid D (object_bytes (part_manifest (build_ac_chain D name type ks))))"
  by (simp add: build_ac_chain_def chain_object_def compute_cid_string_def Let_def)

section \<open>Properties\<close>

text \<open>What \<open>create_ac_chain\<close> puts into the content store resolves: from the address it returns,
  \<open>resolve_ac_chain\<close> reads back the same name, type, write list and CIDs. The codec decodes what it
  encoded, the CID package reads the three CIDs in the spelling it prints, and they differ.\<close>

lemma created_chain_resolves:
  assumes "create_ac_chain D (memory_put D C) name type ks b = Inr (address, cids, b')"
    and "\<forall>v \<in> set (chain_values D name type ks). cbor_decode D (cbor_encode D v) = Some v"
    and "\<forall>x \<in> set (chain_objects (build_ac_chain D name type ks)). canonical_spelling C (object_cid x)"
    and "distinct (map object_cid (chain_objects (build_ac_chain D name type ks)))"
    and "cid_parses D (object_cid (part_manifest (build_ac_chain D name type ks)))"
  shows "resolve_ac_chain D (memory_get C) address b' =
    Inr \<lparr>chain_address = address, chain_name = name, chain_type = type, chain_write_list = ks, chain_cids = cids\<rparr>"
  using assms by (intro memory_store.resolve_created) (simp_all add: object_cid_chain protocol_cid_no_slash)

definition sample_chain_deps :: deps where
  "sample_chain_deps = sample_deps (chain_values (sample_deps []) ''about'' recordstore [sample_pubkey])"

lemma sample_deps_fields [simp]:
  "cbor_encode (sample_deps t) = sample_encode" "cid_parses (sample_deps t) c" "sha3_512 (sample_deps t) bs = take 64 (bs @ replicate 64 0)"
  "cid_of_digest (sample_deps t) d = PROTOCOL_CID_PREFIX @ d"
  by (simp_all add: sample_deps_def)

lemma sample_chain_object: "chain_object (sample_deps t) v = chain_object (sample_deps []) v"
  by (simp add: chain_object_def compute_cid_string_def compute_cid_def encode_canonical_def)

lemma sample_chain: "build_ac_chain (sample_deps t) n ty ks = build_ac_chain (sample_deps []) n ty ks"
  by (simp only: build_ac_chain_def sample_chain_object[of t])

lemma sample_chain_values: "chain_values (sample_deps t) n ty ks = chain_values (sample_deps []) n ty ks"
  by (simp only: chain_values_def sample_chain[of t])

lemma sample_chain_cids_distinct:
  "distinct (map object_cid (chain_objects (build_ac_chain (sample_deps t) n ty ks)))"
proof -
  have second: "(sample_encode v @ replicate 64 0) ! 1 = (sample_encode w @ replicate 64 0) ! 1"
    if "object_cid (chain_object (sample_deps t) v) = object_cid (chain_object (sample_deps t) w)" for v w
  proof -
    from that have "take 64 (sample_encode v @ replicate 64 0) = take 64 (sample_encode w @ replicate 64 0)"
      by (simp add: chain_object_def compute_cid_string_def compute_cid_def format_protocol_cid_def encode_canonical_def Let_def)
    then show ?thesis by (metis nth_take one_less_numeral_iff semiring_norm(76))
  qed
  show ?thesis
    unfolding chain_objects_values chain_values_def
    by (auto dest!: second simp: write_list_value_def wrapper_value_def manifest_value_def utf8ToBytes_def)
qed

lemma sample_chain_created:
  "\<exists>address cids b. create_ac_chain sample_chain_deps (memory_put sample_chain_deps sample_cid_lib) ''about'' recordstore
     [sample_pubkey] [] = Inr (address, cids, b)"
proof -
  have put: "memory_put (sample_deps t) sample_cid_lib (object_cid (chain_object (sample_deps t) v))
      (object_bytes (chain_object (sample_deps t) v)) b =
    Inr (omap_set (object_cid (chain_object (sample_deps t) v)) (object_bytes (chain_object (sample_deps t) v)) b)" for t v b
    using sample_memory_put[of t "sample_encode v" b] by (simp add: chain_object_def encode_canonical_def Let_def)
  have "is_library_name ''about''" by (simp add: is_library_name_def)
  moreover have "is_compressed_pubkey_string sample_pubkey"
    by (simp add: sample_pubkey_def is_compressed_pubkey_string_def is_lower_hex_def list_all_iff)
  ultimately show ?thesis
    using put unfolding create_ac_chain_def sample_chain_deps_def
    by (simp add: validate_library_name_def validate_compressed_pubkey_def build_ac_chain_def Let_def)
qed

end
