(* ===== verification/Oplog.thy ===== *)
theory Oplog
  imports Operations Ac_Chain
begin

text \<open>
  The state of a library's entry DAG (\<open>src/oplog/dag.ts\<close>, \<open>accept.ts\<close>), heads (\<open>heads.ts\<close>), the
  causal past (\<open>causal.ts\<close>), current-state order (\<open>current-state.ts\<close>) and duplicate keys
  (\<open>duplicate-key.ts\<close>).
\<close>

section \<open>State\<close>

record verified_entry = hashed_entry +
  ve_operation :: entry_payload
  ve_state_keys :: "string list"

type_synonym entry_map = "(string, verified_entry) omap"

record oplog =
  ol_chain :: resolved_chain
  ol_entries :: entry_map
  ol_heads :: "string oset"
  ol_referenced :: "string oset"
  ol_key_entries :: "(string, string oset) omap"
  ol_current :: "(string, verified_entry) omap"
  ol_capabilities :: entry_map
  ol_revocations :: entry_map
  ol_delegated :: "string oset"
  ol_effective :: "string oset"
  ol_inert :: "string oset"

definition create_oplog :: "resolved_chain \<Rightarrow> oplog" where
  "create_oplog chain = \<lparr>ol_chain = chain, ol_entries = [], ol_heads = [], ol_referenced = [], ol_key_entries = [],
     ol_current = [], ol_capabilities = [], ol_revocations = [], ol_delegated = [], ol_effective = [], ol_inert = []\<rparr>"

abbreviation e_time :: "'a hashed_entry_scheme \<Rightarrow> nat" where
  "e_time e \<equiv> clock_time (e_clock (he_entry e))"

abbreviation parents :: "'a hashed_entry_scheme \<Rightarrow> string list" where
  "parents e \<equiv> e_next (he_entry e)"

section \<open>Heads\<close>

definition compute_heads :: "'a hashed_entry_scheme list \<Rightarrow> string oset" where
  "compute_heads entries =
     (let referenced = oset_of (concat (map parents entries))
      in oset_of (List.filter (\<lambda>h. h \<notin> set referenced) (map he_hash entries)))"

lemma set_compute_heads: "set (compute_heads es) = he_hash ` set es - (\<Union>e \<in> set es. set (parents e))"
  by (auto simp: compute_heads_def Let_def)

section \<open>Causal past\<close>

text \<open>
  The loop of \<open>in_causal_past\<close>. The top of the stack is the head of the list: \<open>push(...next)\<close>
  leaves the last element of \<open>next\<close> on top.
\<close>

function causal_walk ::
  "(string, 'a hashed_entry_scheme) omap \<Rightarrow> string \<Rightarrow> nat \<Rightarrow> string oset \<Rightarrow> string list \<Rightarrow> bool" where
  "causal_walk entries ancestor floor_time seen [] = False"
| "causal_walk entries ancestor floor_time seen (h # stack) =
     (if h = ancestor then True
      else if h \<in> set seen then causal_walk entries ancestor floor_time seen stack
      else causal_walk entries ancestor floor_time (oset_add h seen)
        ((case omap_get entries h of
            None \<Rightarrow> []
          | Some e \<Rightarrow> if e_time e > floor_time then rev (parents e) else []) @ stack))"
  by pat_completeness auto
termination
proof (relation "inv_image (less_than <*lex*> less_than)
    (\<lambda>(entries, ancestor, floor_time, seen, stack). (card (dom (map_of entries) - set seen), length stack))", goal_cases)
  case (3 entries ancestor floor_time seen h stack)
  have fin: "finite (dom (map_of entries) - set seen)" by (simp add: finite_dom_map_of)
  show ?case
  proof (cases "map_of entries h")
    case None
    then have "dom (map_of entries) - insert h (set seen) = dom (map_of entries) - set seen" by auto
    with None show ?thesis by simp
  next
    case (Some e)
    then have "dom (map_of entries) - insert h (set seen) \<subset> dom (map_of entries) - set seen"
      using 3 by auto
    from psubset_card_mono[OF fin this] show ?thesis by simp
  qed
qed auto

definition in_causal_past :: "(string, 'a hashed_entry_scheme) omap \<Rightarrow> string \<Rightarrow> string list \<Rightarrow> bool" where
  "in_causal_past entries ancestor next_hashes = (case omap_get entries ancestor of
     None \<Rightarrow> False
   | Some e \<Rightarrow> causal_walk entries ancestor (e_time e) [] (rev next_hashes))"

text \<open>The specification: reachability along next.\<close>

definition parent_rel :: "(string \<Rightarrow> 'a hashed_entry_scheme option) \<Rightarrow> (string \<times> string) set" where
  "parent_rel es = {(h, p). \<exists>e. es h = Some e \<and> p \<in> set (parents e)}"

definition past_of :: "(string \<Rightarrow> 'a hashed_entry_scheme option) \<Rightarrow> string list \<Rightarrow> string set" where
  "past_of es next_hashes = (parent_rel es)\<^sup>* `` set next_hashes"

text \<open>Every entry names its parents in the map, with smaller clocks.\<close>

definition dag_ok :: "(string \<Rightarrow> 'a hashed_entry_scheme option) \<Rightarrow> bool" where
  "dag_ok es \<longleftrightarrow> (\<forall>h e. es h = Some e \<longrightarrow> he_hash e = h \<and>
     (\<forall>p \<in> set (parents e). \<exists>e'. es p = Some e' \<and> e_time e' < e_time e))"

lemma dag_okD:
  "dag_ok es \<Longrightarrow> es h = Some e \<Longrightarrow> he_hash e = h"
  "dag_ok es \<Longrightarrow> es h = Some e \<Longrightarrow> p \<in> set (parents e) \<Longrightarrow> \<exists>e'. es p = Some e' \<and> e_time e' < e_time e"
  unfolding dag_ok_def by blast+

text \<open>Paths that avoid a set, along a successor function.\<close>

inductive avoids :: "(string \<Rightarrow> string set) \<Rightarrow> string set \<Rightarrow> string \<Rightarrow> string \<Rightarrow> bool" for f where
  here: "a \<notin> S \<Longrightarrow> avoids f S a a"
| step: "h \<notin> S \<Longrightarrow> p \<in> f h \<Longrightarrow> avoids f S p a \<Longrightarrow> avoids f S h a"

lemma avoids_start: "avoids f S h a \<Longrightarrow> h \<notin> S"
  by (cases rule: avoids.cases) auto

lemma avoids_insert:
  "avoids f S x a \<Longrightarrow> h \<noteq> a \<Longrightarrow> avoids f (insert h S) x a \<or> (\<exists>p \<in> f h. avoids f (insert h S) p a)"
proof (induction rule: avoids.induct)
  case (step x S p a)
  then show ?case by (metis avoids.step insert_iff)
qed (auto intro: avoids.here)

lemma avoids_mono: "avoids f T x a \<Longrightarrow> S \<subseteq> T \<Longrightarrow> avoids f S x a"
  by (induction rule: avoids.induct) (auto intro: avoids.intros)

lemma avoids_empty: "avoids f {} x a \<longleftrightarrow> (x, a) \<in> {(h, p). p \<in> f h}\<^sup>*"
proof
  assume "avoids f {} x a"
  then show "(x, a) \<in> {(h, p). p \<in> f h}\<^sup>*"
    by (induction "{} :: string set" x a rule: avoids.induct) (auto intro: converse_rtrancl_into_rtrancl)
next
  assume "(x, a) \<in> {(h, p). p \<in> f h}\<^sup>*"
  then show "avoids f {} x a"
    by (induction rule: converse_rtrancl_induct) (auto intro: avoids.intros)
qed

definition walk_succ :: "(string, 'a hashed_entry_scheme) omap \<Rightarrow> nat \<Rightarrow> string \<Rightarrow> string set" where
  "walk_succ entries f h = (case omap_get entries h of
     None \<Rightarrow> {} | Some e \<Rightarrow> if e_time e > f then set (parents e) else {})"

lemma causal_walk_iff:
  "a \<notin> set seen \<Longrightarrow> causal_walk entries a f seen stack \<longleftrightarrow>
     (\<exists>h \<in> set stack. avoids (walk_succ entries f) (set seen) h a)"
proof (induction entries a f seen stack rule: causal_walk.induct)
  case (2 entries a f seen h stack)
  let ?s = "walk_succ entries f"
  consider "h = a" | "h \<noteq> a" "h \<in> set seen" | "h \<noteq> a" "h \<notin> set seen" by blast
  then show ?case
  proof cases
    case 1
    then show ?thesis using 2(3) by (auto intro: avoids.here)
  next
    case 2
    then show ?thesis using "2.IH"(1)[OF 2] "2.prems" by (auto dest: avoids_start)
  next
    case 3
    let ?new = "(case omap_get entries h of None \<Rightarrow> [] | Some e \<Rightarrow> if e_time e > f then rev (parents e) else [])"
    have new: "set ?new = ?s h" by (auto simp: walk_succ_def split: option.splits)
    have "causal_walk entries a f seen (h # stack) \<longleftrightarrow>
        (\<exists>x \<in> ?s h \<union> set stack. avoids ?s (insert h (set seen)) x a)"
      using 3 "2.prems" "2.IH"(2)[OF 3] new by (simp add: Bex_def disj_commute Un_iff)
    also have "\<dots> \<longleftrightarrow> (\<exists>x \<in> set (h # stack). avoids ?s (set seen) x a)" (is "?L \<longleftrightarrow> ?R")
    proof
      assume ?L
      then show ?R using 3 avoids_mono[of ?s "insert h (set seen)" _ a "set seen"]
        by (metis UnE avoids.step list.set_intros(1,2) subset_insertI)
    next
      assume ?R
      then obtain x where x: "x \<in> set (h # stack)" "avoids ?s (set seen) x a" by blast
      from avoids_insert[OF x(2) 3(1)] show ?L
      proof
        assume av: "avoids ?s (insert h (set seen)) x a"
        then have "x \<noteq> h" using avoids_start by blast
        with x(1) av show ?L by auto
      qed blast
    qed
    finally show ?thesis .
  qed
qed simp

text \<open>Below the ancestor's clock nothing leads to it, so the pruned walk misses nothing.\<close>

lemma reach_time:
  assumes "dag_ok es" "(h, a) \<in> (parent_rel es)\<^sup>*" "es a = Some ea" "h \<noteq> a"
  shows "\<exists>e. es h = Some e \<and> e_time ea < e_time e"
  using assms(2,4)
proof (induction rule: converse_rtrancl_induct)
  case (step h p)
  from step.hyps(1) obtain e where e: "es h = Some e" "p \<in> set (parents e)" by (auto simp: parent_rel_def)
  from dag_okD(2)[OF assms(1) e] obtain e' where e': "es p = Some e'" "e_time e' < e_time e" by blast
  show ?case
  proof (cases "p = a")
    case True
    with e e' assms(3) show ?thesis by auto
  next
    case False
    with step.IH e e' show ?thesis by auto
  qed
qed simp

lemma pruned_reach:
  assumes "dag_ok (map_of es)" "map_of es a = Some ea"
  shows "(h, a) \<in> {(x, p). p \<in> walk_succ es (e_time ea) x}\<^sup>* \<longleftrightarrow> (h, a) \<in> (parent_rel (map_of es))\<^sup>*"
proof
  have "{(x, p). p \<in> walk_succ es (e_time ea) x} \<subseteq> parent_rel (map_of es)"
    by (auto simp: walk_succ_def parent_rel_def split: option.splits if_splits)
  then show "(h, a) \<in> {(x, p). p \<in> walk_succ es (e_time ea) x}\<^sup>* \<Longrightarrow> (h, a) \<in> (parent_rel (map_of es))\<^sup>*"
    using rtrancl_mono by blast
next
  assume "(h, a) \<in> (parent_rel (map_of es))\<^sup>*"
  then show "(h, a) \<in> {(x, p). p \<in> walk_succ es (e_time ea) x}\<^sup>*"
  proof (induction rule: converse_rtrancl_induct)
    case (step h p)
    show ?case
    proof (cases "h = a")
      case False
      from step.hyps have "(h, a) \<in> (parent_rel (map_of es))\<^sup>*" by (rule converse_rtrancl_into_rtrancl)
      from reach_time[OF assms(1) this assms(2) False] obtain e where
        "map_of es h = Some e" "e_time ea < e_time e" by blast
      with step have "p \<in> walk_succ es (e_time ea) h" by (auto simp: walk_succ_def parent_rel_def)
      with step.IH show ?thesis by (blast intro: converse_rtrancl_into_rtrancl)
    qed simp
  qed simp
qed

lemma in_causal_past_iff:
  assumes "dag_ok (map_of es)"
  shows "in_causal_past es a ns \<longleftrightarrow> map_of es a \<noteq> None \<and> a \<in> past_of (map_of es) ns"
proof (cases "map_of es a")
  case (Some ea)
  then have "in_causal_past es a ns \<longleftrightarrow> (\<exists>h \<in> set ns. avoids (walk_succ es (e_time ea)) {} h a)"
    by (simp add: in_causal_past_def causal_walk_iff)
  also have "\<dots> \<longleftrightarrow> (\<exists>h \<in> set ns. (h, a) \<in> (parent_rel (map_of es))\<^sup>*)"
    unfolding avoids_empty pruned_reach[OF assms Some] ..
  finally show ?thesis using Some by (auto simp: past_of_def)
qed (simp add: in_causal_past_def)

section \<open>Current-state order\<close>

text \<open>\<open>a || b\<close> on numbers.\<close>

definition js_or :: "rat \<Rightarrow> rat \<Rightarrow> rat" where
  "js_or a b = (if a \<noteq> 0 then a else b)"

fun compare_bytes :: "bytes \<Rightarrow> bytes \<Rightarrow> int" where
  "compare_bytes (a # as) (b # bs) =
     (let difference = uint a - uint b in if difference \<noteq> 0 then difference else compare_bytes as bs)"
| "compare_bytes as bs = int (length as) - int (length bs)"

definition envelope_timestamp :: "'a hashed_entry_scheme \<Rightarrow> rat" where
  "envelope_timestamp e =
     (let payload = e_payload (he_entry e);
          value = (if is_record payload then get ''value'' payload else JUndefined)
      in if is_record value \<and> is_number (get ''timestamp'' value) then number_value (get ''timestamp'' value) else 0)"

definition compare_current_state :: "'a hashed_entry_scheme \<Rightarrow> 'a hashed_entry_scheme \<Rightarrow> rat" where
  "compare_current_state a b =
     js_or (of_nat (e_time b) - of_nat (e_time a))
       (js_or (envelope_timestamp b - envelope_timestamp a)
         (of_int (compare_bytes (he_multihash a) (he_multihash b))))"

definition resolve_current_state :: "'a hashed_entry_scheme list \<Rightarrow> 'a hashed_entry_scheme option" where
  "resolve_current_state entries = least_by compare_current_state None entries"

text \<open>The order the effective revocations are searched in.\<close>

definition compare_revocations :: "'a hashed_entry_scheme \<Rightarrow> 'a hashed_entry_scheme \<Rightarrow> rat" where
  "compare_revocations a b =
     js_or (of_nat (e_time a) - of_nat (e_time b))
       (js_or (envelope_timestamp a - envelope_timestamp b)
         (of_int (compare_bytes (he_multihash a) (he_multihash b))))"

lemma uint_byte_eq: "uint (a :: byte) = uint b \<longleftrightarrow> a = b"
  by (auto intro: unsigned_word_eqI)

lemma compare_bytes_zero: "compare_bytes a b = 0 \<longleftrightarrow> a = b"
  by (induction a b rule: compare_bytes.induct) (auto simp: Let_def uint_byte_eq)

lemma compare_bytes_antisym: "compare_bytes a b < 0 \<longleftrightarrow> 0 < compare_bytes b a"
  by (induction a b rule: compare_bytes.induct) (auto simp: Let_def)

lemma compare_bytes_trans: "compare_bytes a b \<le> 0 \<Longrightarrow> compare_bytes b c \<le> 0 \<Longrightarrow> compare_bytes a c \<le> 0"
proof (induction a b arbitrary: c rule: compare_bytes.induct, goal_cases)
  case (1 a as b bs c)
  then show ?case by (cases c) (auto simp: Let_def split: if_splits)
next
  case (2 bs c)
  then show ?case by (cases c) auto
next
  case 3
  then show ?case by auto
qed

interpretation bytes_order: comparator compare_bytes "\<lambda>a. a"
  by unfold_locales (rule compare_bytes_zero, rule compare_bytes_antisym, rule compare_bytes_trans)

text \<open>Chaining two comparators with \<open>||\<close> gives a comparator.\<close>

lemma js_or_neg: "js_or a b < 0 \<longleftrightarrow> a < 0 \<or> a = 0 \<and> b < 0"
  "0 < js_or a b \<longleftrightarrow> 0 < a \<or> a = 0 \<and> 0 < b" "js_or a b = 0 \<longleftrightarrow> a = 0 \<and> b = 0"
  "js_or a b \<le> 0 \<longleftrightarrow> a < 0 \<or> a = 0 \<and> b \<le> 0"
  by (auto simp: js_or_def)

definition state_key :: "'a hashed_entry_scheme \<Rightarrow> nat \<times> rat \<times> bytes" where
  "state_key e = (e_time e, envelope_timestamp e, he_multihash e)"

interpretation current_order: comparator compare_current_state state_key
proof
  fix x y z :: "'a hashed_entry_scheme"
  note defs = compare_current_state_def js_or_neg
  show "compare_current_state x y = 0 \<longleftrightarrow> state_key x = state_key y"
    by (auto simp: defs compare_bytes_zero state_key_def)
  show "compare_current_state x y < 0 \<longleftrightarrow> 0 < compare_current_state y x"
    using compare_bytes_antisym[of "he_multihash x" "he_multihash y"] by (auto simp: defs)
  show "compare_current_state x z \<le> 0" if "compare_current_state x y \<le> 0" "compare_current_state y z \<le> 0"
    using that compare_bytes_trans[of "he_multihash x" "he_multihash y" "he_multihash z"] by (auto simp: defs)
qed

interpretation revocation_order: comparator compare_revocations state_key
proof
  fix x y z :: "'a hashed_entry_scheme"
  note defs = compare_revocations_def js_or_neg
  show "compare_revocations x y = 0 \<longleftrightarrow> state_key x = state_key y"
    by (auto simp: defs compare_bytes_zero state_key_def)
  show "compare_revocations x y < 0 \<longleftrightarrow> 0 < compare_revocations y x"
    using compare_bytes_antisym[of "he_multihash x" "he_multihash y"] by (auto simp: defs)
  show "compare_revocations x z \<le> 0" if "compare_revocations x y \<le> 0" "compare_revocations y z \<le> 0"
    using that compare_bytes_trans[of "he_multihash x" "he_multihash y" "he_multihash z"] by (auto simp: defs)
qed

section \<open>Duplicate keys\<close>

definition duplicate_key :: "string \<Rightarrow> envelope \<Rightarrow> string" where
  "duplicate_key library_address e = json_strings [library_address, env_id e, env_content e]"

lemma duplicate_key_inj: "duplicate_key a e = duplicate_key b f \<longleftrightarrow>
    a = b \<and> env_id e = env_id f \<and> env_content e = env_content f"
  by (simp add: duplicate_key_def json_strings_inj)

end
