(* ===== verification/Capability.thy ===== *)
theory Capability
  imports Oplog
begin

text \<open>
  Capability verification and revocation (\<open>src/access-control/capability.ts\<close>): the chain of a
  capability, inert entries, the effective revocations, and the authorisation of an entry.
\<close>

definition MAX_CHAIN_LENGTH :: nat where "MAX_CHAIN_LENGTH = 8"

definition is_write_list_key :: "oplog \<Rightarrow> string \<Rightarrow> bool" where
  "is_write_list_key ol key = (key \<in> set (chain_write_list (ol_chain ol)))"

definition capability_record :: "verified_entry option \<Rightarrow> jsval option" where
  "capability_record entry = (case entry of
     None \<Rightarrow> None
   | Some e \<Rightarrow> (case ve_operation e of
       AccessRecordPut _ v _ \<Rightarrow> if get ''type'' v = JStr ''capability'' then Some v else None
     | _ \<Rightarrow> None))"

text \<open>
  The loop of \<open>capability_chain\<close> with a bound on its rounds; \<open>None\<close> when the bound is too small. A
  chain visits an entry at most once in an oplog whose entries were accepted, so one more round
  than there are entries is enough (\<open>chain_steps_enough\<close> below).
\<close>

fun chain_steps :: "nat \<Rightarrow> oplog \<Rightarrow> string option \<Rightarrow> string list option" where
  "chain_steps fuel ol None = Some []"
| "chain_steps 0 ol (Some h) = None"
| "chain_steps (Suc fuel) ol (Some h) = (case omap_get (ol_entries ol) h of
     None \<Rightarrow> Some []
   | Some e \<Rightarrow>
       if capability_record (Some e) = None then Some []
       else if is_write_list_key ol (e_key (he_entry e)) then Some [h]
       else map_option ((#) h) (chain_steps fuel ol (cited_capability (ve_operation e))))"

definition capability_chain :: "oplog \<Rightarrow> string option \<Rightarrow> string list" where
  "capability_chain ol capability_id =
     (case chain_steps (Suc (length (ol_entries ol))) ol capability_id of None \<Rightarrow> [] | Some xs \<Rightarrow> xs)"

definition dependencies :: "oplog \<Rightarrow> verified_entry \<Rightarrow> string list" where
  "dependencies ol e =
     (if is_write_list_key ol (e_key (he_entry e)) then [] else capability_chain ol (cited_capability (ve_operation e)))"

definition revoked_capability :: "verified_entry \<Rightarrow> jsval" where
  "revoked_capability r = (case ve_operation r of AccessRecordPut _ v _ \<Rightarrow> get ''revokes'' v | _ \<Rightarrow> JUndefined)"

definition inert_under :: "oplog \<Rightarrow> verified_entry \<Rightarrow> verified_entry list \<Rightarrow> bool" where
  "inert_under ol e eff =
     (let chain = dependencies ol e
      in length chain > 0 \<and>
         list_ex (\<lambda>r. revoked_capability r \<in> JStr ` set chain \<and>
                      \<not> in_causal_past (ol_entries ol) (he_hash e) (parents r)) eff)"

definition self_referential :: "oplog \<Rightarrow> verified_entry \<Rightarrow> bool" where
  "self_referential ol r =
     (revoked_capability r \<in> JStr ` set (capability_chain ol (cited_capability (ve_operation r))))"

text \<open>The loop over the delegated revocations in order.\<close>

fun add_effective :: "oplog \<Rightarrow> verified_entry list \<Rightarrow> verified_entry list \<Rightarrow> verified_entry list" where
  "add_effective ol eff [] = eff"
| "add_effective ol eff (r # rs) =
     add_effective ol (if \<not> self_referential ol r \<and> \<not> inert_under ol r eff then eff @ [r] else eff) rs"

definition effective_revocations :: "oplog \<Rightarrow> verified_entry list \<Rightarrow> verified_entry list" where
  "effective_revocations ol revocations =
     (let eff = List.filter (\<lambda>r. is_write_list_key ol (e_key (he_entry r))) revocations;
          delegated = sort_by compare_revocations
            (List.filter (\<lambda>r. \<not> is_write_list_key ol (e_key (he_entry r))) revocations)
      in add_effective ol eff delegated)"

definition strings :: "jsval \<Rightarrow> string list" where
  "strings v = List.map_filter as_string (array_elements v)"

definition covering_action :: "jsval \<Rightarrow> string option" where
  "covering_action value =
     (if get ''type'' value = JStr ''track'' then Some ''library.append_track''
      else if get ''type'' value = JStr ''labels'' then Some ''library.write_label''
      else if get ''type'' value = JStr ''about'' then Some ''library.update_about''
      else if get ''type'' value = JStr ''capability'' then Some ''library.grant_capability''
      else None)"

text \<open>The subject of one label pair; \<open>[track_id, label]\<close> takes the first two elements.\<close>

definition element :: "jsval \<Rightarrow> nat \<Rightarrow> jsval" where
  "element v i = (if i < length (array_elements v) then array_elements v ! i else JUndefined)"

definition label_subject :: "string \<Rightarrow> jsval \<Rightarrow> jsval" where
  "label_subject kind pair = JObj [(''type'', JStr ''label''), (''op'', JStr kind),
     (''track_id'', element pair 0), (''label'', element pair 1)]"

definition filter_subjects :: "jsval \<Rightarrow> jsval list" where
  "filter_subjects value =
     (if get ''type'' value = JStr ''track'' \<or> get ''type'' value = JStr ''about'' then [value]
      else if get ''type'' value \<noteq> JStr ''labels'' then []
      else map (label_subject ''set'') (array_elements (get ''set'' value)) @
           map (label_subject ''unset'') (array_elements (get ''unset'' value)))"

datatype condition_verdict = expired | unrecognised

definition condition_failure :: "jsval \<Rightarrow> rat \<Rightarrow> condition_verdict option" where
  "condition_failure conditions timestamp =
     (let list = array_elements conditions
      in if list_ex (\<lambda>c. condition_shape c \<noteq> shape_ok) list then Some unrecognised
         else if list_ex (\<lambda>c. timestamp > expires_at c) list then Some expired else None)"

text \<open>Step 5, against every capability of the chain, in order.\<close>

fun check_chain :: "oplog \<Rightarrow> jsval \<Rightarrow> string list \<Rightarrow> unit result" where
  "check_chain ol value [] = Inr ()"
| "check_chain ol value (h # hs) =
     (let capability = (case capability_record (omap_get (ol_entries ol) h) of None \<Rightarrow> JUndefined | Some v \<Rightarrow> v)
      in if capability_fails_closed capability then Inl capability_denied
         else if (case covering_action value of None \<Rightarrow> True
                  | Some action \<Rightarrow> action \<notin> set (strings (get ''actions'' capability))) then Inl capability_denied
         else if \<not> list_all (\<lambda>subject. filter_matches (get ''filter'' capability) subject) (filter_subjects value)
         then Inl capability_denied
         else case condition_failure (get ''conditions'' capability) (number_value (get ''timestamp'' value)) of
           Some expired \<Rightarrow> Inl capability_expired
         | Some unrecognised \<Rightarrow> Inl capability_denied
         | None \<Rightarrow> check_chain ol value hs)"

definition past_revocations :: "oplog \<Rightarrow> string list \<Rightarrow> verified_entry list" where
  "past_revocations ol next_hashes =
     List.filter (\<lambda>r. in_causal_past (ol_entries ol) (he_hash r) next_hashes) (omap_values (ol_revocations ol))"

definition authorise_entry :: "oplog \<Rightarrow> 'a hashed_entry_scheme \<Rightarrow> entry_payload \<Rightarrow> unit result" where
  "authorise_entry ol hashed operation =
     (let key = e_key (he_entry hashed); next_hashes = parents hashed; payload = e_payload (he_entry hashed)
      in if is_write_list_key ol key then Inr ()
         else if chain_type (ol_chain ol) \<noteq> recordstore then Inl unauthorised_writer
         else if op_of operation \<noteq> Some PUT then Inl unauthorised_writer
         else case cited_capability operation of
           None \<Rightarrow> Inl unauthorised_writer
         | Some capability_id \<Rightarrow>
             (case capability_record (omap_get (ol_entries ol) capability_id) of
                None \<Rightarrow> Inl capability_denied
              | Some capability \<Rightarrow>
                  if \<not> in_causal_past (ol_entries ol) capability_id next_hashes then Inl capability_denied
                  else if \<not> grantee_matches (get ''grantee'' capability) key then Inl capability_denied
                  else
                    let chain = capability_chain ol (Some capability_id)
                    in if length chain > MAX_CHAIN_LENGTH then Inl capability_denied
                       else if list_ex (\<lambda>r. revoked_capability r \<in> JStr ` set chain)
                              (effective_revocations ol (past_revocations ol next_hashes)) then Inl capability_revoked
                       else
                         let value = get ''value'' payload
                         in if get ''type'' value = JStr ''revocation'' then
                              (case as_string (get ''revokes'' value) of
                                 None \<Rightarrow> Inl capability_denied
                               | Some target \<Rightarrow>
                                   if capability_record (omap_get (ol_entries ol) target) \<noteq> None \<and>
                                      in_causal_past (ol_entries ol) target next_hashes \<and>
                                      list_ex (\<lambda>h. case omap_get (ol_entries ol) h of None \<Rightarrow> False
                                          | Some e \<Rightarrow> e_key (he_entry e) = key) (capability_chain ol (Some target))
                                   then Inr () else Inl capability_denied)
                            else check_chain ol value chain))"

end
