(* ===== verification/Dag.thy ===== *)
theory Dag
  imports Capability
begin

text \<open>
  Verification of one entry (\<open>src/oplog/accept.ts\<close>), insertion, the refresh of access and current
  state and local append (\<open>src/oplog/dag.ts\<close>), and merging (\<open>src/oplog/merge.ts\<close>).
\<close>

section \<open>Accepting an entry\<close>

definition check_entry :: "deps \<Rightarrow> resolved_chain \<Rightarrow> hashed_entry \<Rightarrow> entry_payload result" where
  "check_entry D chain hashed =
     and_then (assert_signed_entry_size (he_bytes hashed)) (\<lambda>_.
     and_then (assert_signed_entry_shape (signed_fields (he_entry hashed))) (\<lambda>_.
       let write_list_signer = (e_key (he_entry hashed) \<in> set (chain_write_list chain))
       in and_then (validate_operation D (e_payload (he_entry hashed)) (chain_type chain) write_list_signer) (\<lambda>operation.
            if \<not> verify_entry_signature D (he_entry hashed) then Inl invalid_signature
            else if chain_type chain \<noteq> recordstore \<and> \<not> write_list_signer then Inl unauthorised_writer
            else Inr operation)))"

definition state_keys_of :: "entry_payload \<Rightarrow> string list" where
  "state_keys_of operation = (case operation of
     IdentityPut k r \<Rightarrow> [identity_type_name (identity_record_type_of r) @ '':'' @ k]
   | IdentityDel k t ts \<Rightarrow> [identity_type_name t @ '':'' @ k]
   | LabelsPut k r c \<Rightarrow> map label_state_key (lr_set r @ lr_unset r)
   | PutOperation k e c \<Rightarrow> [k]
   | DelOperation k t c \<Rightarrow> [k]
   | AboutPut k r c \<Rightarrow> [k]
   | _ \<Rightarrow> [])"

fun max_time :: "entry_map \<Rightarrow> nat \<Rightarrow> string list \<Rightarrow> nat option" where
  "max_time entries m [] = Some m"
| "max_time entries m (h # hs) = (case omap_get entries h of
     None \<Rightarrow> None | Some parent \<Rightarrow> max_time entries (max m (e_time parent)) hs)"

definition expected_clock_time :: "oplog \<Rightarrow> string list \<Rightarrow> nat option" where
  "expected_clock_time ol next_hashes = map_option Suc (max_time (ol_entries ol) 0 next_hashes)"

definition assert_clock :: "oplog \<Rightarrow> 'a hashed_entry_scheme \<Rightarrow> unit result" where
  "assert_clock ol hashed = (case expected_clock_time ol (parents hashed) of
     None \<Rightarrow> Inl invalid_clock
   | Some expected \<Rightarrow> if e_time hashed \<noteq> expected then Inl invalid_clock else Inr ())"

definition as_verified :: "hashed_entry \<Rightarrow> entry_payload \<Rightarrow> verified_entry" where
  "as_verified hashed operation = hashed_entry.extend hashed (verified_entry.fields operation (state_keys_of operation))"

definition verify_entry :: "deps \<Rightarrow> oplog \<Rightarrow> hashed_entry \<Rightarrow> verified_entry result" where
  "verify_entry D ol hashed =
     and_then (check_entry D (ol_chain ol) hashed) (\<lambda>operation.
     and_then (assert_clock ol hashed) (\<lambda>_.
     and_then (authorise_entry ol hashed operation) (\<lambda>_.
       Inr (as_verified hashed operation))))"

definition restore_entry :: "deps \<Rightarrow> oplog \<Rightarrow> hashed_entry \<Rightarrow> verified_entry result" where
  "restore_entry D ol hashed =
     (let write_list_signer = (e_key (he_entry hashed) \<in> set (chain_write_list (ol_chain ol)))
      in and_then (validate_operation D (e_payload (he_entry hashed)) (chain_type (ol_chain ol)) write_list_signer) (\<lambda>operation.
         and_then (assert_clock ol hashed) (\<lambda>_.
           Inr (as_verified hashed operation))))"

section \<open>Inserting an entry\<close>

text \<open>The loops of \<open>insert_entry\<close>: over the parents, and over the state keys.\<close>

fun reference_parents :: "string list \<Rightarrow> string oset \<Rightarrow> string oset \<Rightarrow> string oset \<times> string oset" where
  "reference_parents [] referenced heads = (referenced, heads)"
| "reference_parents (p # ps) referenced heads = reference_parents ps (oset_add p referenced) (oset_delete p heads)"

fun index_keys :: "string \<Rightarrow> string list \<Rightarrow> (string, string oset) omap \<Rightarrow> (string, string oset) omap" where
  "index_keys h [] m = m"
| "index_keys h (k # ks) m =
     index_keys h ks (omap_set k (oset_add h (case omap_get m k of None \<Rightarrow> [] | Some hs \<Rightarrow> hs)) m)"

definition is_capability_entry :: "verified_entry \<Rightarrow> bool" where
  "is_capability_entry e = (case ve_operation e of
     AccessRecordPut _ v _ \<Rightarrow> get ''type'' v = JStr ''capability'' | _ \<Rightarrow> False)"

definition is_revocation_entry :: "verified_entry \<Rightarrow> bool" where
  "is_revocation_entry e = (is_access_record (ve_operation e) \<and> \<not> is_capability_entry e)"

definition insert_entry :: "oplog \<Rightarrow> verified_entry \<Rightarrow> oplog \<times> bool" where
  "insert_entry ol e =
     (if omap_has (ol_entries ol) (he_hash e) then (ol, False)
      else
        let (referenced, heads) = reference_parents (parents e) (ol_referenced ol) (ol_heads ol)
        in (ol\<lparr>ol_entries := omap_set (he_hash e) e (ol_entries ol),
              ol_referenced := referenced,
              ol_heads := (if he_hash e \<notin> set referenced then oset_add (he_hash e) heads else heads),
              ol_key_entries := index_keys (he_hash e) (ve_state_keys e) (ol_key_entries ol),
              ol_capabilities := (if is_access_record (ve_operation e) \<and> is_capability_entry e
                then omap_set (he_hash e) e (ol_capabilities ol) else ol_capabilities ol),
              ol_revocations := (if is_revocation_entry e
                then omap_set (he_hash e) e (ol_revocations ol) else ol_revocations ol),
              ol_delegated := (if \<not> is_write_list_key ol (e_key (he_entry e))
                then oset_add (he_hash e) (ol_delegated ol) else ol_delegated ol)\<rparr>, True))"

section \<open>Refreshing derived state\<close>

definition live_hashes :: "oplog \<Rightarrow> string \<Rightarrow> string list" where
  "live_hashes ol key =
     List.filter (\<lambda>h. h \<notin> set (ol_inert ol)) (case omap_get (ol_key_entries ol) key of None \<Rightarrow> [] | Some hs \<Rightarrow> hs)"

definition resolve_key :: "oplog \<Rightarrow> string \<Rightarrow> verified_entry option" where
  "resolve_key ol key = resolve_current_state (List.map_filter (omap_get (ol_entries ol)) (live_hashes ol key))"

fun refresh_current_state :: "oplog \<Rightarrow> string list \<Rightarrow> oplog" where
  "refresh_current_state ol [] = ol"
| "refresh_current_state ol (key # ks) =
     refresh_current_state (ol\<lparr>ol_current := (case resolve_key ol key of
         None \<Rightarrow> omap_delete key (ol_current ol)
       | Some current \<Rightarrow> omap_set key current (ol_current ol))\<rparr>) ks"

record access_change =
  ac_inert :: "verified_entry list"
  ac_keys :: "string oset"

definition judge :: "oplog \<Rightarrow> verified_entry list \<Rightarrow> verified_entry \<Rightarrow> bool" where
  "judge ol eff e =
     (if omap_has (ol_revocations ol) (he_hash e) then he_hash e \<notin> set (ol_effective ol) else inert_under ol e eff)"

text \<open>The loop over the judged entries.\<close>

fun judge_all :: "oplog \<Rightarrow> verified_entry list \<Rightarrow> string list \<Rightarrow> string oset \<times> access_change \<Rightarrow> string oset \<times> access_change" where
  "judge_all ol eff [] acc = acc"
| "judge_all ol eff (h # hs) (inert, change) =
     (case omap_get (ol_entries ol) h of
        None \<Rightarrow> judge_all ol eff hs (inert, change)
      | Some e \<Rightarrow>
          let is_inert = judge ol eff e
          in if is_inert = (h \<in> set inert) then judge_all ol eff hs (inert, change)
             else judge_all ol eff hs
               (if is_inert then oset_add h inert else oset_delete h inert,
                \<lparr>ac_inert = (if is_inert then ac_inert change @ [e] else ac_inert change),
                 ac_keys = fold oset_add (ve_state_keys e) (ac_keys change)\<rparr>))"

definition refresh_effective :: "oplog \<Rightarrow> oplog" where
  "refresh_effective ol =
     ol\<lparr>ol_effective := fold oset_add (map he_hash (effective_revocations ol (omap_values (ol_revocations ol)))) []\<rparr>"

definition refresh_access_state :: "oplog \<Rightarrow> verified_entry list \<Rightarrow> oplog \<times> access_change" where
  "refresh_access_state ol added =
     (let revocation_added = list_ex (\<lambda>e. omap_has (ol_revocations ol) (he_hash e)) added;
          ol1 = (if revocation_added then refresh_effective ol else ol)
      in if \<not> revocation_added \<and> length (ol_effective ol1) = 0 \<and> length (ol_inert ol1) = 0
         then (ol1, \<lparr>ac_inert = [], ac_keys = []\<rparr>)
         else
           let eff = List.map_filter (omap_get (ol_entries ol1)) (ol_effective ol1);
               judged = (if revocation_added then ol_delegated ol1
                 else map he_hash (List.filter (\<lambda>e. he_hash e \<in> set (ol_delegated ol1)) added));
               (inert, change) = judge_all ol1 eff judged (ol_inert ol1, \<lparr>ac_inert = [], ac_keys = []\<rparr>)
           in (ol1\<lparr>ol_inert := inert\<rparr>, change))"

section \<open>Local append\<close>

definition get_live_entry :: "oplog \<Rightarrow> string \<Rightarrow> verified_entry option" where
  "get_live_entry ol key = (case omap_get (ol_current ol) key of
     None \<Rightarrow> None
   | Some current \<Rightarrow> if op_of (ve_operation current) = Some PUT then Some current else None)"

definition assert_not_duplicate :: "deps \<Rightarrow> oplog \<Rightarrow> jsval \<Rightarrow> unit result" where
  "assert_not_duplicate D ol payload =
     (if chain_type (ol_chain ol) \<noteq> recordstore then Inr ()
      else and_then (validate_operation D payload recordstore False) (\<lambda>operation. case operation of
        PutOperation key envelope _ \<Rightarrow>
          (case get_live_entry ol key of
             None \<Rightarrow> Inr ()
           | Some live \<Rightarrow> (case ve_operation live of
               PutOperation _ live_envelope _ \<Rightarrow>
                 if duplicate_key (chain_address (ol_chain ol)) live_envelope =
                    duplicate_key (chain_address (ol_chain ol)) envelope
                 then Inl duplicate_entry else Inr ()
             | _ \<Rightarrow> Inr ()))
      | _ \<Rightarrow> Inr ()))"

definition MAX_CITED_HEADS :: nat where "MAX_CITED_HEADS = 256"

definition clock_of :: "oplog \<Rightarrow> string \<Rightarrow> nat" where
  "clock_of ol h = (case omap_get (ol_entries ol) h of None \<Rightarrow> 0 | Some e \<Rightarrow> e_time e)"

definition compare_strings :: "string \<Rightarrow> string \<Rightarrow> int" where
  "compare_strings a b = (if a < b then -1 else if a > b then 1 else 0)"

text \<open>The order the heads are cited in; two different heads never compare equal.\<close>

definition compare_heads :: "oplog \<Rightarrow> string \<Rightarrow> string \<Rightarrow> int" where
  "compare_heads ol a b =
     (let d = int (clock_of ol b) - int (clock_of ol a) in if d \<noteq> 0 then d else if a < b then -1 else 1)"

definition select_next :: "oplog \<Rightarrow> string option \<Rightarrow> string list" where
  "select_next ol capability_id =
     (let heads = sort_by (compare_heads ol) (ol_heads ol);
          cited = take MAX_CITED_HEADS heads;
          reaches = (\<lambda>h. case capability_id of None \<Rightarrow> True
            | Some c \<Rightarrow> h = c \<or> in_causal_past (ol_entries ol) c [h]);
          chosen = (if length heads > MAX_CITED_HEADS \<and> \<not> list_ex reaches cited
            then (case List.find reaches (drop MAX_CITED_HEADS heads) of
                None \<Rightarrow> cited | Some h \<Rightarrow> cited[length cited - 1 := h])
            else cited)
      in sort_by compare_strings chosen)"

definition sign_local_entry :: "deps \<Rightarrow> oplog \<Rightarrow> jsval \<Rightarrow> key_pair \<Rightarrow> verified_entry result" where
  "sign_local_entry D ol payload kp =
     and_then (assert_not_duplicate D ol payload) (\<lambda>_.
       let capability_id = (if is_record payload then as_string (get ''capability_id'' payload) else None);
           next_hashes = select_next ol capability_id;
           time = foldl (\<lambda>m h. max m (clock_of ol h)) 0 next_hashes + 1
       in and_then (build_unsigned_entry (chain_address (ol_chain ol)) payload next_hashes []
            \<lparr>clock_id = public_key kp, clock_time = time\<rparr>) (\<lambda>unsigned.
            verify_entry D ol (hash_signed_entry D (sign_entry D unsigned (private_key kp)))))"

definition append_entry_with_access ::
  "deps \<Rightarrow> oplog \<Rightarrow> jsval \<Rightarrow> key_pair \<Rightarrow> (oplog \<times> verified_entry \<times> access_change) result" where
  "append_entry_with_access D ol payload kp =
     and_then (sign_local_entry D ol payload kp) (\<lambda>e.
       let ol1 = fst (insert_entry ol e);
           (ol2, access) = refresh_access_state ol1 [e]
       in Inr (refresh_current_state ol2 (oset_of (ac_keys access @ ve_state_keys e)), e, access))"

definition append_entry :: "deps \<Rightarrow> oplog \<Rightarrow> jsval \<Rightarrow> key_pair \<Rightarrow> (oplog \<times> verified_entry) result" where
  "append_entry D ol payload kp =
     and_then (append_entry_with_access D ol payload kp) (\<lambda>(ol', e, access). Inr (ol', e))"

section \<open>Merging\<close>

record merge_result =
  mr_merged :: "verified_entry list"
  mr_rejected :: "(string \<times> protocol_error) list"
  mr_access :: access_change

fun decode_blocks :: "deps \<Rightarrow> oplog \<Rightarrow> bytes list \<Rightarrow> (string \<times> protocol_error) list \<times> hashed_entry list" where
  "decode_blocks D ol [] = ([], [])"
| "decode_blocks D ol (b # bs) =
     (let (rejected, decoded) = decode_blocks D ol bs
      in case decode_signed_entry D b of
           Inl err \<Rightarrow> ((compute_cid_string D b, err) # rejected, decoded)
         | Inr hashed \<Rightarrow> if omap_has (ol_entries ol) (he_hash hashed) then (rejected, decoded)
             else (rejected, hashed # decoded))"

definition compare_merge :: "'a hashed_entry_scheme \<Rightarrow> 'a hashed_entry_scheme \<Rightarrow> int" where
  "compare_merge a b =
     (let d = int (e_time a) - int (e_time b) in if d \<noteq> 0 then d else compare_strings (he_hash a) (he_hash b))"

fun admit_all ::
  "(oplog \<Rightarrow> hashed_entry \<Rightarrow> verified_entry result) \<Rightarrow> oplog \<Rightarrow> hashed_entry list \<Rightarrow>
     oplog \<times> verified_entry list \<times> (string \<times> protocol_error) list" where
  "admit_all admit ol [] = (ol, [], [])"
| "admit_all admit ol (hashed # rest) =
     (if omap_has (ol_entries ol) (he_hash hashed) then admit_all admit ol rest
      else case admit ol hashed of
        Inl err \<Rightarrow>
          (let (ol', merged, rejected) = admit_all admit ol rest in (ol', merged, (he_hash hashed, err) # rejected))
      | Inr e \<Rightarrow>
          (let (ol', merged, rejected) = admit_all admit (fst (insert_entry ol e)) rest in (ol', e # merged, rejected)))"

definition insert_blocks ::
  "deps \<Rightarrow> (oplog \<Rightarrow> hashed_entry \<Rightarrow> verified_entry result) \<Rightarrow> oplog \<Rightarrow> bytes list \<Rightarrow> oplog \<times> merge_result" where
  "insert_blocks D admit ol blocks =
     (let (undecodable, decoded) = decode_blocks D ol blocks;
          (ol1, merged, refused) = admit_all admit ol (sort_by compare_merge decoded);
          (ol2, access) = refresh_access_state ol1 merged;
          ks = fold oset_add (concat (map ve_state_keys merged)) (ac_keys access)
      in (refresh_current_state ol2 ks,
          \<lparr>mr_merged = merged, mr_rejected = undecodable @ refused, mr_access = access\<rparr>))"

definition merge_entries :: "deps \<Rightarrow> oplog \<Rightarrow> bytes list \<Rightarrow> oplog \<times> merge_result" where
  "merge_entries D ol blocks = insert_blocks D (verify_entry D) ol blocks"

definition restore_entries :: "deps \<Rightarrow> oplog \<Rightarrow> bytes list \<Rightarrow> oplog \<times> merge_result" where
  "restore_entries D ol blocks = insert_blocks D (restore_entry D) ol blocks"

end
