(* ===== verification/Oplog_Structure.thy ===== *)
theory Oplog_Structure
  imports Dag
begin

text \<open>
  The structural invariant of an oplog (parents present, clocks growing, indices equal to what the
  entries say) and the locality of everything that is judged over a causal past: two oplogs that
  agree on a parent-closed set of entries agree on causal pasts, capability chains, inertness and
  effective revocations within it.
\<close>

abbreviation entries_of :: "oplog \<Rightarrow> string \<Rightarrow> verified_entry option" where
  "entries_of ol \<equiv> map_of (ol_entries ol)"

abbreviation write_list :: "oplog \<Rightarrow> string set" where
  "write_list ol \<equiv> set (chain_write_list (ol_chain ol))"

section \<open>Parent-closed sets\<close>

definition parent_closed :: "(string \<Rightarrow> 'a hashed_entry_scheme option) \<Rightarrow> string set \<Rightarrow> bool" where
  "parent_closed es P \<longleftrightarrow> (\<forall>h \<in> P. \<forall>e. es h = Some e \<longrightarrow> set (parents e) \<subseteq> P)"

lemma parent_closed_reach: "(h, a) \<in> (parent_rel es)\<^sup>* \<Longrightarrow> parent_closed es P \<Longrightarrow> h \<in> P \<Longrightarrow> a \<in> P"
  by (induction rule: converse_rtrancl_induct)
     (auto simp: parent_closed_def parent_rel_def)

lemma past_of_subset: "parent_closed es P \<Longrightarrow> set ns \<subseteq> P \<Longrightarrow> past_of es ns \<subseteq> P"
  using parent_closed_reach by (fastforce simp: past_of_def)

lemma parent_closed_past: "parent_closed es (past_of es ns)"
  by (auto simp: parent_closed_def past_of_def parent_rel_def) (metis (mono_tags, lifting) ImageI case_prodI mem_Collect_eq rtrancl.rtrancl_into_rtrancl)

lemma past_of_self: "set ns \<subseteq> past_of es ns"
  by (auto simp: past_of_def)

lemma parent_closed_dom: "dag_ok es \<Longrightarrow> parent_closed es (dom es)"
  unfolding parent_closed_def by (auto dest: dag_okD(2))

lemma reach_agree:
  assumes "parent_closed es P" "\<forall>h \<in> P. es h = es' h"
  shows "h \<in> P \<Longrightarrow> (h, a) \<in> (parent_rel es)\<^sup>* \<longleftrightarrow> (h, a) \<in> (parent_rel es')\<^sup>*"
proof -
  have one: "(h, a) \<in> (parent_rel f)\<^sup>* \<Longrightarrow> h \<in> P \<Longrightarrow> (h, a) \<in> (parent_rel g)\<^sup>*"
    if "parent_closed f P" "\<forall>h \<in> P. f h = g h" for f g :: "string \<Rightarrow> 'a hashed_entry_scheme option" and h
  proof (induction rule: converse_rtrancl_induct)
    case (step h p)
    then have "(h, p) \<in> parent_rel g" "p \<in> P" using that by (auto simp: parent_rel_def parent_closed_def)
    with step.IH show ?case by (meson converse_rtrancl_into_rtrancl)
  qed simp
  have "parent_closed es' P" using assms by (simp add: parent_closed_def)
  with one[of es es' h] one[of es' es h] assms show "h \<in> P \<Longrightarrow> (h, a) \<in> (parent_rel es)\<^sup>* \<longleftrightarrow> (h, a) \<in> (parent_rel es')\<^sup>*"
    by auto
qed

lemma past_of_agree:
  assumes "parent_closed es P" "\<forall>h \<in> P. es h = es' h" "set ns \<subseteq> P"
  shows "past_of es ns = past_of es' ns"
  using reach_agree[OF assms(1,2)] assms(3) by (auto simp: past_of_def Image_iff)

lemma in_causal_past_agree:
  assumes "dag_ok (map_of es)" "dag_ok (map_of es')" "parent_closed (map_of es) P" "\<forall>h \<in> P. map_of es h = map_of es' h"
    and "set ns \<subseteq> P"
  shows "in_causal_past es a ns = in_causal_past es' a ns"
proof -
  have "past_of (map_of es) ns = past_of (map_of es') ns" by (rule past_of_agree[OF assms(3-5)])
  moreover have "a \<in> past_of (map_of es) ns \<Longrightarrow> map_of es a = map_of es' a"
    using past_of_subset[OF assms(3,5)] assms(4) by blast
  ultimately show ?thesis unfolding in_causal_past_iff[OF assms(1)] in_causal_past_iff[OF assms(2)] by metis
qed

lemma past_time:
  assumes "dag_ok es" "es h = Some e" "a \<in> past_of es (parents e)" "es a = Some ea"
  shows "e_time ea < e_time e"
proof -
  from assms(3) obtain p where p: "p \<in> set (parents e)" "(p, a) \<in> (parent_rel es)\<^sup>*" by (auto simp: past_of_def)
  from dag_okD(2)[OF assms(1,2) p(1)] obtain ep where ep: "es p = Some ep" "e_time ep < e_time e" by blast
  show ?thesis
  proof (cases "p = a")
    case True
    then show ?thesis using ep assms(4) by simp
  next
    case False
    from reach_time[OF assms(1) p(2) assms(4) False] ep show ?thesis by auto
  qed
qed

section \<open>Entries that cite a capability in their past\<close>

text \<open>
  What acceptance establishes for an entry signed outside the write list: it cites a capability
  record in its causal past.
\<close>

definition cites_ok :: "oplog \<Rightarrow> bool" where
  "cites_ok ol \<longleftrightarrow> (\<forall>h e. entries_of ol h = Some e \<and> e_key (he_entry e) \<notin> write_list ol \<longrightarrow>
     (\<exists>c. cited_capability (ve_operation e) = Some c \<and> capability_record (entries_of ol c) \<noteq> None \<and>
        c \<in> past_of (entries_of ol) (parents e)))"

lemma cites_okD:
  assumes "cites_ok ol" "entries_of ol h = Some e" "e_key (he_entry e) \<notin> write_list ol"
  obtains c where "cited_capability (ve_operation e) = Some c" "capability_record (entries_of ol c) \<noteq> None"
    "c \<in> past_of (entries_of ol) (parents e)"
  using assms unfolding cites_ok_def by blast

lemma chain_steps_mono: "chain_steps n ol c = Some xs \<Longrightarrow> n \<le> m \<Longrightarrow> chain_steps m ol c = Some xs"
proof (induction n ol c arbitrary: m xs rule: chain_steps.induct)
  case (3 fuel ol h)
  then obtain m' where m: "m = Suc m'" "fuel \<le> m'" by (cases m) auto
  show ?case
  proof (cases "entries_of ol h")
    case (Some e)
    then show ?thesis
    proof (cases "capability_record (Some e) = None \<or> is_write_list_key ol (e_key (he_entry e))")
      case False
      with "3.prems" Some obtain ys where "chain_steps fuel ol (cited_capability (ve_operation e)) = Some ys" "xs = h # ys"
        by auto
      with "3.IH"[OF Some _ _ _ m(2)] False Some m(1) show ?thesis by auto
    qed (use "3.prems" Some m in auto)
  qed (use "3.prems" m in auto)
qed auto

lemma chain_steps_rank:
  assumes "dag_ok (entries_of ol)" "cites_ok ol"
  shows "entries_of ol h = Some e \<Longrightarrow> card {x \<in> dom (entries_of ol). e_time (the (entries_of ol x)) < e_time e} < n \<Longrightarrow>
    chain_steps n ol (Some h) \<noteq> None"
proof (induction n arbitrary: h e)
  case (Suc n)
  show ?case
  proof (cases "e_key (he_entry e) \<in> write_list ol \<or> capability_record (Some e) = None")
    case True
    with Suc.prems show ?thesis by (auto simp: is_write_list_key_def)
  next
    case False
    then obtain c where c: "cited_capability (ve_operation e) = Some c" "capability_record (entries_of ol c) \<noteq> None"
      "c \<in> past_of (entries_of ol) (parents e)"
      using cites_okD[OF assms(2) Suc.prems(1)] by blast
    then obtain ec where ec: "entries_of ol c = Some ec" by (auto simp: capability_record_def split: option.splits)
    have less: "e_time ec < e_time e" using past_time[OF assms(1) Suc.prems(1) c(3) ec] .
    have "{x \<in> dom (entries_of ol). e_time (the (entries_of ol x)) < e_time ec} \<subset>
        {x \<in> dom (entries_of ol). e_time (the (entries_of ol x)) < e_time e}"
    proof
      show "{x \<in> dom (entries_of ol). e_time (the (entries_of ol x)) < e_time ec} \<subseteq>
          {x \<in> dom (entries_of ol). e_time (the (entries_of ol x)) < e_time e}" using less by auto
      have "c \<in> {x \<in> dom (entries_of ol). e_time (the (entries_of ol x)) < e_time e}"
        "c \<notin> {x \<in> dom (entries_of ol). e_time (the (entries_of ol x)) < e_time ec}" using less ec by auto
      then show "{x \<in> dom (entries_of ol). e_time (the (entries_of ol x)) < e_time ec} \<noteq>
          {x \<in> dom (entries_of ol). e_time (the (entries_of ol x)) < e_time e}" by metis
    qed
    from psubset_card_mono[OF _ this] Suc.prems(2)
    have "card {x \<in> dom (entries_of ol). e_time (the (entries_of ol x)) < e_time ec} < n"
      by (simp add: finite_dom_map_of)
    from Suc.IH[OF ec this] show ?thesis using Suc.prems(1) False c(1) by (auto simp: is_write_list_key_def)
  qed
qed simp

lemma chain_steps_enough:
  assumes "dag_ok (entries_of ol)" "cites_ok ol"
  shows "chain_steps (Suc (length (ol_entries ol))) ol c \<noteq> None"
proof (cases c)
  case (Some h)
  show ?thesis
  proof (cases "entries_of ol h")
    case None
    then show ?thesis using Some by simp
  next
    case (Some e)
    have "card {x \<in> dom (entries_of ol). e_time (the (entries_of ol x)) < e_time e} \<le> card (dom (entries_of ol))"
      by (rule card_mono) (auto simp: finite_dom_map_of)
    also have "\<dots> \<le> length (ol_entries ol)"
      by (metis card_length dom_map_of_conv_image_fst length_map list.set_map)
    finally show ?thesis using chain_steps_rank[OF assms Some] \<open>c = Some h\<close> by (simp add: less_Suc_eq_le del: chain_steps.simps)
  qed
qed simp

lemma capability_chain_eq:
  assumes "dag_ok (entries_of ol)" "cites_ok ol" "chain_steps n ol c = Some xs"
  shows "capability_chain ol c = xs"
proof -
  obtain ys where ys: "chain_steps (Suc (length (ol_entries ol))) ol c = Some ys"
    using chain_steps_enough[OF assms(1,2)] by blast
  have "xs = ys" using chain_steps_mono[OF assms(3), of "max n (Suc (length (ol_entries ol)))"]
      chain_steps_mono[OF ys, of "max n (Suc (length (ol_entries ol)))"] by simp
  then show ?thesis using ys by (simp add: capability_chain_def)
qed

text \<open>The chain unfolds as the loop does, without the bound.\<close>

lemma capability_chain_unfold:
  assumes "dag_ok (entries_of ol)" "cites_ok ol"
  shows "capability_chain ol (Some h) = (case entries_of ol h of
     None \<Rightarrow> []
   | Some e \<Rightarrow> if capability_record (Some e) = None then []
       else if e_key (he_entry e) \<in> write_list ol then [h]
       else h # capability_chain ol (cited_capability (ve_operation e)))"
proof (cases "entries_of ol h")
  case (Some e)
  obtain ys where ys: "chain_steps (Suc (length (ol_entries ol))) ol (cited_capability (ve_operation e)) = Some ys"
    using chain_steps_enough[OF assms] by blast
  then have "capability_chain ol (cited_capability (ve_operation e)) = ys"
    by (simp add: capability_chain_def)
  moreover have "chain_steps (Suc (Suc (length (ol_entries ol)))) ol (Some h) =
      (if capability_record (Some e) = None then Some []
       else if e_key (he_entry e) \<in> write_list ol then Some [h] else Some (h # ys))"
    using Some ys by (simp add: is_write_list_key_def)
  ultimately show ?thesis using Some capability_chain_eq[OF assms, of "Suc (Suc (length (ol_entries ol)))"]
    by (auto split: if_splits)
qed (simp add: capability_chain_def)

lemma capability_chain_None [simp]: "capability_chain ol None = []"
  by (simp add: capability_chain_def)

section \<open>Agreement on a parent-closed set\<close>

text \<open>
  Two oplogs of one library, both well formed, that hold the same entries within a set which is
  closed under parents.
\<close>

definition agree_on :: "oplog \<Rightarrow> oplog \<Rightarrow> string set \<Rightarrow> bool" where
  "agree_on ol ol' P \<longleftrightarrow> ol_chain ol = ol_chain ol' \<and> dag_ok (entries_of ol) \<and> dag_ok (entries_of ol') \<and>
     cites_ok ol \<and> cites_ok ol' \<and> parent_closed (entries_of ol) P \<and> (\<forall>h \<in> P. entries_of ol h = entries_of ol' h)"

lemma agree_on_sym: "agree_on ol ol' P \<Longrightarrow> agree_on ol' ol P"
  by (auto simp: agree_on_def parent_closed_def)

lemma agree_causal: "agree_on ol ol' P \<Longrightarrow> set ns \<subseteq> P \<Longrightarrow>
    in_causal_past (ol_entries ol) a ns = in_causal_past (ol_entries ol') a ns"
  unfolding agree_on_def using in_causal_past_agree by blast

lemma agree_write_list: "agree_on ol ol' P \<Longrightarrow> is_write_list_key ol k = is_write_list_key ol' k"
  by (simp add: agree_on_def is_write_list_key_def)

lemma agree_cite:
  assumes "agree_on ol ol' P" "h \<in> P" "entries_of ol h = Some e" "e_key (he_entry e) \<notin> write_list ol"
  obtains c where "cited_capability (ve_operation e) = Some c" "c \<in> P"
proof -
  from assms(1) have ok: "cites_ok ol" "parent_closed (entries_of ol) P" by (auto simp: agree_on_def)
  from cites_okD[OF ok(1) assms(3,4)] obtain c where c: "cited_capability (ve_operation e) = Some c"
    "c \<in> past_of (entries_of ol) (parents e)" by blast
  have "set (parents e) \<subseteq> P" using ok(2) assms(2,3) by (auto simp: parent_closed_def)
  from past_of_subset[OF ok(2) this] c that show thesis by blast
qed

lemma agree_chain_steps:
  "agree_on ol ol' P \<Longrightarrow> set_option c \<subseteq> P \<Longrightarrow> chain_steps n ol c = chain_steps n ol' c"
proof (induction n arbitrary: c)
  case 0
  then show ?case by (cases c) simp_all
next
  case (Suc n)
  show ?case
  proof (cases c)
    case (Some h)
    with Suc.prems have h: "h \<in> P" "entries_of ol h = entries_of ol' h" by (auto simp: agree_on_def)
    show ?thesis
    proof (cases "entries_of ol h")
      case (Some e)
      then have e': "entries_of ol' h = Some e" using h(2) by simp
      have wl: "is_write_list_key ol = is_write_list_key ol'" using agree_write_list[OF Suc.prems(1)] by blast
      show ?thesis
      proof (cases "e_key (he_entry e) \<in> write_list ol")
        case True
        then have "is_write_list_key ol (e_key (he_entry e))" by (simp add: is_write_list_key_def)
        then show ?thesis using \<open>c = Some h\<close> Some e' wl by simp
      next
        case False
        obtain d where "cited_capability (ve_operation e) = Some d" "d \<in> P"
          using agree_cite[OF Suc.prems(1) h(1) Some False] .
        with Suc.IH[OF Suc.prems(1), of "Some d"] show ?thesis
          using \<open>c = Some h\<close> Some e' wl by simp
      qed
    qed (use \<open>c = Some h\<close> h in simp)
  qed simp
qed

lemma agree_chain:
  assumes "agree_on ol ol' P" "set_option c \<subseteq> P"
  shows "capability_chain ol c = capability_chain ol' c"
proof -
  have ok: "dag_ok (entries_of ol)" "cites_ok ol" "dag_ok (entries_of ol')" "cites_ok ol'"
    using assms(1) by (auto simp: agree_on_def)
  obtain xs where xs: "chain_steps (Suc (length (ol_entries ol))) ol c = Some xs"
    using chain_steps_enough[OF ok(1,2)] by blast
  then have "chain_steps (Suc (length (ol_entries ol))) ol' c = Some xs" using agree_chain_steps[OF assms] by simp
  from capability_chain_eq[OF ok(3,4) this] capability_chain_eq[OF ok(1,2) xs] show ?thesis by simp
qed

text \<open>The members of a chain are capability records of the set.\<close>

lemma chain_steps_members:
  "chain_steps n ol c = Some xs \<Longrightarrow> agree_on ol ol' P \<Longrightarrow> set_option c \<subseteq> P \<Longrightarrow> h \<in> set xs \<Longrightarrow>
     h \<in> P \<and> capability_record (entries_of ol h) \<noteq> None"
proof (induction n ol c arbitrary: xs rule: chain_steps.induct)
  case (3 n ol g)
  then obtain e where e: "entries_of ol g = Some e" "capability_record (Some e) \<noteq> None"
    by (auto split: option.splits if_splits)
  show ?case
  proof (cases "e_key (he_entry e) \<in> write_list ol")
    case True
    then show ?thesis using 3 e by (auto simp: is_write_list_key_def)
  next
    case False
    obtain d where d: "cited_capability (ve_operation e) = Some d" "d \<in> P"
      using agree_cite[OF "3.prems"(2) _ e(1) False] "3.prems"(3) by auto
    from "3.prems"(1) e False d obtain ys where "xs = g # ys" "chain_steps n ol (Some d) = Some ys"
      by (auto simp: is_write_list_key_def)
    then show ?thesis using "3.IH"[OF e(1)] 3 e False d by (auto simp: is_write_list_key_def)
  qed
qed simp_all

lemma chain_members:
  assumes "agree_on ol ol' P" "set_option c \<subseteq> P" "h \<in> set (capability_chain ol c)"
  shows "h \<in> P" "capability_record (entries_of ol h) \<noteq> None"
proof -
  obtain xs where "chain_steps (Suc (length (ol_entries ol))) ol c = Some xs"
    using chain_steps_enough assms(1) unfolding agree_on_def by blast
  moreover from this have "h \<in> set xs" using assms(3) by (simp add: capability_chain_def)
  ultimately show "h \<in> P" "capability_record (entries_of ol h) \<noteq> None"
    using chain_steps_members assms(1,2) by blast+
qed

text \<open>Entries of the set, as the values of the map.\<close>

definition held_in :: "oplog \<Rightarrow> string set \<Rightarrow> verified_entry \<Rightarrow> bool" where
  "held_in ol P e \<longleftrightarrow> he_hash e \<in> P \<and> entries_of ol (he_hash e) = Some e"

lemma held_in_parents: "agree_on ol ol' P \<Longrightarrow> held_in ol P e \<Longrightarrow> set (parents e) \<subseteq> P"
  unfolding agree_on_def held_in_def parent_closed_def by blast

lemma held_in_agree: "agree_on ol ol' P \<Longrightarrow> held_in ol P e \<Longrightarrow> held_in ol' P e"
  unfolding agree_on_def held_in_def by metis

lemma held_in_cite:
  assumes "agree_on ol ol' P" "held_in ol P e" "e_key (he_entry e) \<notin> write_list ol"
  shows "set_option (cited_capability (ve_operation e)) \<subseteq> P"
  using agree_cite[OF assms(1) _ _ assms(3)] assms(2) unfolding held_in_def
  by (metis option.set_intros option.simps(15) empty_subsetI insert_subset subsetI)

lemma agree_dependencies:
  assumes "agree_on ol ol' P" "held_in ol P e"
  shows "dependencies ol e = dependencies ol' e"
proof (cases "e_key (he_entry e) \<in> write_list ol")
  case True
  then show ?thesis using agree_write_list[OF assms(1)] by (simp add: dependencies_def is_write_list_key_def)
next
  case False
  then show ?thesis using agree_write_list[OF assms(1)] agree_chain[OF assms(1) held_in_cite[OF assms False]]
    by (simp add: dependencies_def is_write_list_key_def)
qed

lemma agree_inert:
  assumes "agree_on ol ol' P" "held_in ol P e" "set eff = set eff'" "\<forall>r \<in> set eff. held_in ol P r"
  shows "inert_under ol e eff = inert_under ol' e eff'"
proof -
  have "in_causal_past (ol_entries ol) (he_hash e) (parents r) = in_causal_past (ol_entries ol') (he_hash e) (parents r)"
    if "r \<in> set eff" for r
    using agree_causal[OF assms(1)] held_in_parents[OF assms(1)] that assms(4) by blast
  then show ?thesis
    unfolding inert_under_def Let_def agree_dependencies[OF assms(1,2)] list_ex_iff using assms(3) by blast
qed

lemma agree_self_referential:
  assumes "agree_on ol ol' P" "held_in ol P r" "e_key (he_entry r) \<notin> write_list ol"
  shows "self_referential ol r = self_referential ol' r"
  unfolding self_referential_def agree_chain[OF assms(1) held_in_cite[OF assms]] ..

lemma set_add_effective: "set (add_effective ol eff ds) \<subseteq> set eff \<union> set ds"
proof (induction ds arbitrary: eff)
  case (Cons d ds)
  show ?case using Cons.IH[of eff] Cons.IH[of "eff @ [d]"] by auto
qed simp

lemma add_effective_keeps: "set eff \<subseteq> set (add_effective ol eff ds)"
proof (induction ds arbitrary: eff)
  case (Cons d ds)
  show ?case using Cons.IH[of eff] Cons.IH[of "eff @ [d]"] by auto
qed simp

lemma agree_add_effective:
  assumes "agree_on ol ol' P"
  shows "set eff = set eff' \<Longrightarrow> \<forall>r \<in> set eff \<union> set ds. held_in ol P r \<Longrightarrow>
    \<forall>r \<in> set ds. e_key (he_entry r) \<notin> write_list ol \<Longrightarrow>
    set (add_effective ol eff ds) = set (add_effective ol' eff' ds)"
proof (induction ds arbitrary: eff eff')
  case (Cons d ds)
  have "self_referential ol d = self_referential ol' d" using agree_self_referential[OF assms] Cons.prems by simp
  moreover have "inert_under ol d eff = inert_under ol' d eff'" using agree_inert[OF assms] Cons.prems by simp
  ultimately show ?case
    using Cons.IH[of eff eff'] Cons.IH[of "eff @ [d]" "eff' @ [d]"] Cons.prems by auto
qed simp

lemma set_effective_revocations: "set (effective_revocations ol rs) \<subseteq> set rs"
  using set_add_effective by (fastforce simp: effective_revocations_def Let_def)

lemma agree_effective:
  assumes agree: "agree_on ol ol' P" and same: "set rs = set rs'" "distinct rs" "distinct rs'" "inj_on state_key (set rs)"
    and held: "\<forall>r \<in> set rs. held_in ol P r"
  shows "set (effective_revocations ol rs) = set (effective_revocations ol' rs')"
proof -
  let ?wl = "\<lambda>r :: verified_entry. is_write_list_key ol (e_key (he_entry r))"
  have wl: "is_write_list_key ol' = is_write_list_key ol" using agree_write_list[OF agree] by blast
  have "sort_by compare_revocations (filter (\<lambda>r. \<not> ?wl r) rs) = sort_by compare_revocations (filter (\<lambda>r. \<not> ?wl r) rs')"
    by (rule revocation_order.sort_by_set_cong) (use same in \<open>auto intro: inj_on_subset\<close>)
  moreover have "set (add_effective ol (filter ?wl rs) (sort_by compare_revocations (filter (\<lambda>r. \<not> ?wl r) rs))) =
      set (add_effective ol' (filter ?wl rs') (sort_by compare_revocations (filter (\<lambda>r. \<not> ?wl r) rs)))"
    by (rule agree_add_effective[OF agree]) (use same held in \<open>auto simp: is_write_list_key_def\<close>)
  ultimately show ?thesis by (simp add: effective_revocations_def Let_def wl)
qed

section \<open>Indices\<close>

text \<open>The revocation index holds the revocation entries, each once.\<close>

definition revocations_ok :: "oplog \<Rightarrow> bool" where
  "revocations_ok ol \<longleftrightarrow> distinct (omap_keys (ol_revocations ol)) \<and>
     (\<forall>h. map_of (ol_revocations ol) h =
        (case entries_of ol h of None \<Rightarrow> None | Some e \<Rightarrow> if is_revocation_entry e then Some e else None))"

lemma revocation_values:
  assumes "revocations_ok ol" "dag_ok (entries_of ol)"
  shows "set (omap_values (ol_revocations ol)) = {e. entries_of ol (he_hash e) = Some e \<and> is_revocation_entry e}"
    and "distinct (omap_values (ol_revocations ol))"
proof -
  have mem: "(h, e) \<in> set (ol_revocations ol) \<longleftrightarrow> entries_of ol h = Some e \<and> is_revocation_entry e" for h e
    using assms(1) unfolding revocations_ok_def
    by (subst map_of_eq_Some_iff[symmetric]) (auto split: option.splits)
  have hash: "entries_of ol h = Some e \<Longrightarrow> he_hash e = h" for h e using dag_okD(1)[OF assms(2)] .
  show "set (omap_values (ol_revocations ol)) = {e. entries_of ol (he_hash e) = Some e \<and> is_revocation_entry e}"
  proof (intro equalityI subsetI)
    fix e assume "e \<in> set (omap_values (ol_revocations ol))"
    then obtain h where "(h, e) \<in> set (ol_revocations ol)" by auto
    with mem hash show "e \<in> {e. entries_of ol (he_hash e) = Some e \<and> is_revocation_entry e}" by auto
  next
    fix e assume "e \<in> {e. entries_of ol (he_hash e) = Some e \<and> is_revocation_entry e}"
    with mem[of "he_hash e" e] show "e \<in> set (omap_values (ol_revocations ol))" by force
  qed
  have "distinct (map fst (ol_revocations ol))" using assms(1) by (simp add: revocations_ok_def)
  moreover have "inj_on snd (set (ol_revocations ol))"
  proof (rule inj_onI)
    fix x y assume "x \<in> set (ol_revocations ol)" "y \<in> set (ol_revocations ol)" "snd x = snd y"
    with mem[of "fst x" "snd x"] mem[of "fst y" "snd y"] have "fst x = fst y" using hash by (metis prod.collapse)
    with \<open>snd x = snd y\<close> show "x = y" by (simp add: prod_eq_iff)
  qed
  ultimately show "distinct (omap_values (ol_revocations ol))" by (metis distinct_map)
qed

section \<open>Acceptance depends on the causal past only\<close>

lemma past_revocations_agree:
  assumes agree: "agree_on ol ol' P" and rev: "revocations_ok ol" "revocations_ok ol'" and ns: "set ns \<subseteq> P"
  shows "set (past_revocations ol ns) = set (past_revocations ol' ns)" "distinct (past_revocations ol ns)"
    "distinct (past_revocations ol' ns)" "\<forall>r \<in> set (past_revocations ol ns). held_in ol P r"
proof -
  have ok: "dag_ok (entries_of ol)" "dag_ok (entries_of ol')" and eq: "\<forall>h \<in> P. entries_of ol h = entries_of ol' h"
    and closed: "parent_closed (entries_of ol) P"
    using agree by (auto simp: agree_on_def)
  note vals = revocation_values[OF rev(1) ok(1)] revocation_values[OF rev(2) ok(2)]
  have in_P: "in_causal_past (ol_entries ol) h ns \<Longrightarrow> h \<in> P" for h
    using in_causal_past_iff[OF ok(1)] past_of_subset[OF closed ns] by blast
  show "set (past_revocations ol ns) = set (past_revocations ol' ns)"
    unfolding past_revocations_def set_filter vals(1,3)
    using in_P agree_causal[OF agree ns] eq by auto
  show "distinct (past_revocations ol ns)" "distinct (past_revocations ol' ns)"
    using vals by (auto simp: past_revocations_def)
  show "\<forall>r \<in> set (past_revocations ol ns). held_in ol P r"
    unfolding past_revocations_def set_filter vals(1) held_in_def using in_P by blast
qed

lemma check_chain_agree:
  assumes "agree_on ol ol' P"
  shows "set hs \<subseteq> P \<Longrightarrow> check_chain ol value hs = check_chain ol' value hs"
proof (induction hs)
  case (Cons h hs)
  then have "entries_of ol h = entries_of ol' h" using assms by (auto simp: agree_on_def)
  moreover have "check_chain ol value hs = check_chain ol' value hs" using Cons by simp
  ultimately show ?case by (simp only: check_chain.simps)
qed simp

lemma max_time_agree: "\<forall>h \<in> set ns. map_of es h = map_of es' h \<Longrightarrow> max_time es m ns = max_time es' m ns"
  by (induction ns arbitrary: m) (auto split: option.splits)

lemma authorise_agree:
  assumes agree: "agree_on ol ol' P" and rev: "revocations_ok ol" "revocations_ok ol'"
    and ns: "set (parents hashed) \<subseteq> P" and inj: "inj_on state_key (set (past_revocations ol (parents hashed)))"
  shows "authorise_entry ol hashed operation = authorise_entry ol' hashed operation"
proof -
  have chain: "ol_chain ol = ol_chain ol'" and wl: "is_write_list_key ol = is_write_list_key ol'"
    and eq: "\<forall>h \<in> P. entries_of ol h = entries_of ol' h" and ok: "dag_ok (entries_of ol)" and closed: "parent_closed (entries_of ol) P"
    using agree agree_write_list[OF agree] by (auto simp: agree_on_def)
  have causal: "in_causal_past (ol_entries ol) a (parents hashed) = in_causal_past (ol_entries ol') a (parents hashed)" for a
    by (rule agree_causal[OF agree ns])
  have in_P: "in_causal_past (ol_entries ol) a (parents hashed) \<Longrightarrow> a \<in> P" for a
    using in_causal_past_iff[OF ok] past_of_subset[OF closed ns] by blast
  note past = past_revocations_agree[OF agree rev ns]
  have eff: "set (effective_revocations ol (past_revocations ol (parents hashed))) =
      set (effective_revocations ol' (past_revocations ol' (parents hashed)))"
    by (rule agree_effective[OF agree past(1-3) inj past(4)])
  have chains: "capability_chain ol (Some a) = capability_chain ol' (Some a)" if "a \<in> P" for a
    using agree_chain[OF agree, of "Some a"] that by simp
  have members: "set (capability_chain ol (Some a)) \<subseteq> P" if "a \<in> P" for a
    using chain_members(1)[OF agree, of "Some a"] that by auto
  have scope: "list_ex (\<lambda>h. case entries_of ol h of None \<Rightarrow> False | Some e \<Rightarrow> e_key (he_entry e) = k) (capability_chain ol (Some a)) =
      list_ex (\<lambda>h. case entries_of ol' h of None \<Rightarrow> False | Some e \<Rightarrow> e_key (he_entry e) = k) (capability_chain ol' (Some a))"
    if "a \<in> P" for a k
    using members[OF that] eq unfolding chains[OF that, symmetric] list_ex_iff by (metis (no_types, lifting) subsetD)
  show ?thesis
  proof (cases "is_write_list_key ol (e_key (he_entry hashed)) \<or> chain_type (ol_chain ol) \<noteq> recordstore \<or>
      op_of operation \<noteq> Some PUT \<or> cited_capability operation = None")
    case True
    then show ?thesis unfolding authorise_entry_def Let_def by (auto simp: chain wl)
  next
    case False
    then obtain c where c: "cited_capability operation = Some c" by blast
    show ?thesis
    proof (cases "in_causal_past (ol_entries ol) c (parents hashed)")
      case outside: False
      then have outside': "\<not> in_causal_past (ol_entries ol') c (parents hashed)" using causal by simp
      show ?thesis unfolding authorise_entry_def Let_def using False c outside outside' chain wl
        by (auto split: option.splits)
    next
      case True
      have cP: "c \<in> P" by (rule in_P[OF True])
      have target: "(capability_record (entries_of ol a) \<noteq> None \<and> in_causal_past (ol_entries ol') a (parents hashed) \<and>
          list_ex (\<lambda>h. case entries_of ol h of None \<Rightarrow> False | Some e \<Rightarrow> e_key (he_entry e) = k) (capability_chain ol (Some a))) =
        (capability_record (entries_of ol' a) \<noteq> None \<and> in_causal_past (ol_entries ol') a (parents hashed) \<and>
          list_ex (\<lambda>h. case entries_of ol' h of None \<Rightarrow> False | Some e \<Rightarrow> e_key (he_entry e) = k) (capability_chain ol' (Some a)))"
        for a k using in_P[of a] causal[of a] eq scope[of a k] by metis
      have revoked: "list_ex (\<lambda>r. revoked_capability r \<in> X) (effective_revocations ol (past_revocations ol (parents hashed))) =
          list_ex (\<lambda>r. revoked_capability r \<in> X) (effective_revocations ol' (past_revocations ol' (parents hashed)))" for X
        unfolding list_ex_iff eff ..
      have checked: "check_chain ol v (capability_chain ol (Some c)) = check_chain ol' v (capability_chain ol (Some c))" for v
        by (rule check_chain_agree[OF agree members[OF cP]])
      have entry: "entries_of ol c = entries_of ol' c" using eq cP by blast
      show ?thesis
        unfolding authorise_entry_def Let_def chain wl c option.case entry causal chains[OF cP, symmetric] revoked target checked ..
    qed
  qed
qed

lemma verify_agree:
  assumes agree: "agree_on ol ol' P" and rev: "revocations_ok ol" "revocations_ok ol'"
    and ns: "set (parents hashed) \<subseteq> P" and inj: "inj_on state_key (set (past_revocations ol (parents hashed)))"
  shows "verify_entry D ol hashed = verify_entry D ol' hashed"
proof -
  have eq: "\<forall>h \<in> set (parents hashed). entries_of ol h = entries_of ol' h" and chain: "ol_chain ol = ol_chain ol'"
    using agree ns by (auto simp: agree_on_def)
  have "assert_clock ol hashed = assert_clock ol' hashed"
    unfolding assert_clock_def expected_clock_time_def max_time_agree[OF eq] ..
  then show ?thesis
    unfolding verify_entry_def chain authorise_agree[OF agree rev ns inj] by simp
qed

end
