(* ===== verification/Oplog_Invariant.thy ===== *)
theory Oplog_Invariant
  imports Oplog_Structure
begin

text \<open>
  The invariant of an oplog and its preservation by insertion, refresh, append and merge: the
  indices are those of the entries, and the access and current state are what a computation from
  scratch over all entries gives.
\<close>

section \<open>The invariant\<close>

definition hash_ok :: "deps \<Rightarrow> 'a hashed_entry_scheme \<Rightarrow> bool" where
  "hash_ok D e \<longleftrightarrow> he_hash e = compute_cid_string D (he_bytes e) \<and>
     he_multihash e = multihash_of_digest D (sha3_512 D (he_bytes e))"

definition key_hashes :: "(string, string oset) omap \<Rightarrow> string \<Rightarrow> string oset" where
  "key_hashes m k = (case omap_get m k of None \<Rightarrow> [] | Some hs \<Rightarrow> hs)"

definition structure_ok :: "deps \<Rightarrow> oplog \<Rightarrow> bool" where
  "structure_ok D ol \<longleftrightarrow>
     dag_ok (entries_of ol) \<and> cites_ok ol \<and> revocations_ok ol \<and>
     (\<forall>h e. entries_of ol h = Some e \<longrightarrow> hash_ok D e) \<and>
     set (ol_referenced ol) = (\<Union>e \<in> ran (entries_of ol). set (parents e)) \<and>
     set (ol_heads ol) = dom (entries_of ol) - (\<Union>e \<in> ran (entries_of ol). set (parents e)) \<and>
     distinct (ol_heads ol) \<and>
     (\<forall>k. set (key_hashes (ol_key_entries ol) k) = {h. \<exists>e. entries_of ol h = Some e \<and> k \<in> set (ve_state_keys e)}) \<and>
     (\<forall>h. map_of (ol_capabilities ol) h =
        (case entries_of ol h of None \<Rightarrow> None | Some e \<Rightarrow> if is_capability_entry e then Some e else None)) \<and>
     set (ol_delegated ol) = {h. \<exists>e. entries_of ol h = Some e \<and> e_key (he_entry e) \<notin> write_list ol}"

lemma structure_okD:
  assumes "structure_ok D ol"
  shows "dag_ok (entries_of ol)" "cites_ok ol" "revocations_ok ol"
    "entries_of ol h = Some e \<Longrightarrow> hash_ok D e" "entries_of ol h = Some e \<Longrightarrow> he_hash e = h"
    "set (ol_delegated ol) = {h. \<exists>e. entries_of ol h = Some e \<and> e_key (he_entry e) \<notin> write_list ol}"
    "set (key_hashes (ol_key_entries ol) k) = {h. \<exists>e. entries_of ol h = Some e \<and> k \<in> set (ve_state_keys e)}"
proof -
  show dag: "dag_ok (entries_of ol)" and "cites_ok ol" "revocations_ok ol"
    using assms unfolding structure_ok_def by simp_all
  show "entries_of ol h = Some e \<Longrightarrow> hash_ok D e" using assms unfolding structure_ok_def by simp
  show "entries_of ol h = Some e \<Longrightarrow> he_hash e = h" by (rule dag_okD(1)[OF dag])
  show "set (ol_delegated ol) = {h. \<exists>e. entries_of ol h = Some e \<and> e_key (he_entry e) \<notin> write_list ol}"
    "set (key_hashes (ol_key_entries ol) k) = {h. \<exists>e. entries_of ol h = Some e \<and> k \<in> set (ve_state_keys e)}"
    using assms unfolding structure_ok_def by simp_all
qed

text \<open>Entries of one oplog differ in their multihash, since different digests do.\<close>

lemma hash_ok_inj:
  assumes "inj (multihash_of_digest D)" "hash_ok D e" "hash_ok D e'" "he_multihash e = he_multihash e'"
  shows "he_hash e = he_hash e'"
  using assms by (auto simp: hash_ok_def compute_cid_string_def compute_cid_def inj_eq)

lemma structure_inj:
  assumes "structure_ok D ol" "inj (multihash_of_digest D)" "\<forall>e \<in> X. entries_of ol (he_hash e) = Some e"
  shows "inj_on state_key X"
proof (rule inj_onI)
  fix x y assume xy: "x \<in> X" "y \<in> X" "state_key x = state_key y"
  then have "hash_ok D x" "hash_ok D y" "he_multihash x = he_multihash y"
    using structure_okD(4)[OF assms(1)] assms(3) by (auto simp: state_key_def)
  then have "he_hash x = he_hash y" by (rule hash_ok_inj[OF assms(2)])
  with xy assms(3) show "x = y" by (metis option.inject)
qed

section \<open>Insertion\<close>

lemma reference_parents_eq:
  "set (fst (reference_parents ps r hs)) = set ps \<union> set r"
  "set (snd (reference_parents ps r hs)) = set hs - set ps"
  "distinct hs \<Longrightarrow> distinct (snd (reference_parents ps r hs))"
  by (induction ps arbitrary: r hs) auto

lemma key_hashes_set: "key_hashes (omap_set k v m) k' = (if k' = k then v else key_hashes m k')"
  by (simp add: key_hashes_def ordered_simps)

lemma set_index_keys:
  "set (key_hashes (index_keys h ks m) k) = (if k \<in> set ks then insert h (set (key_hashes m k)) else set (key_hashes m k))"
proof (induction ks arbitrary: m)
  case (Cons k' ks)
  have "index_keys h (k' # ks) m = index_keys h ks (omap_set k' (oset_add h (key_hashes m k')) m)"
    by (simp add: key_hashes_def)
  then show ?case using Cons.IH by (auto simp: key_hashes_set)
qed simp

lemma max_time_Some:
  "max_time es m ns = Some t \<Longrightarrow> m \<le> t \<and> (\<forall>p \<in> set ns. \<exists>e. map_of es p = Some e \<and> e_time e \<le> t)"
  by (induction ns arbitrary: m) (fastforce split: option.splits)+

lemma assert_clock_parents:
  "assert_clock ol e = Inr u \<Longrightarrow> p \<in> set (parents e) \<Longrightarrow> \<exists>e'. entries_of ol p = Some e' \<and> e_time e' < e_time e"
  by (auto simp: assert_clock_def expected_clock_time_def split: option.splits if_splits dest!: max_time_Some)

text \<open>What an entry about to be inserted satisfies.\<close>

definition insertable :: "deps \<Rightarrow> oplog \<Rightarrow> verified_entry \<Rightarrow> bool" where
  "insertable D ol e \<longleftrightarrow> entries_of ol (he_hash e) = None \<and> hash_ok D e \<and>
     (\<forall>p \<in> set (parents e). \<exists>e'. entries_of ol p = Some e' \<and> e_time e' < e_time e) \<and>
     (e_key (he_entry e) \<notin> write_list ol \<longrightarrow> (\<exists>c. cited_capability (ve_operation e) = Some c \<and>
        capability_record (entries_of ol c) \<noteq> None \<and> c \<in> past_of (entries_of ol) (parents e)))"

lemma map_of_snoc: "map_of m k = None \<Longrightarrow> [k \<mapsto> v] ++ map_of m = (map_of m)(k \<mapsto> v)"
  by (auto simp: fun_eq_iff map_add_def split: option.splits)

lemma insert_entry_fields:
  assumes "entries_of ol (he_hash e) = None"
  defines "ol' \<equiv> fst (insert_entry ol e)"
  shows "entries_of ol' = (entries_of ol)(he_hash e \<mapsto> e)" "ol_chain ol' = ol_chain ol"
    "ol_effective ol' = ol_effective ol" "ol_inert ol' = ol_inert ol" "ol_current ol' = ol_current ol"
    "ol_entries ol' = ol_entries ol @ [(he_hash e, e)]"
  using assms by (simp_all add: insert_entry_def Let_def case_prod_unfold update_conv' omap_set_new map_of_snoc)

lemma insertable_agree:
  assumes ok: "structure_ok D ol" and ins: "insertable D ol e"
  defines "ol' \<equiv> fst (insert_entry ol e)"
  shows "agree_on ol ol' (dom (entries_of ol))"
proof -
  have new: "entries_of ol (he_hash e) = None" using ins by (simp add: insertable_def)
  note f = insert_entry_fields[OF new, folded ol'_def]
  note d = structure_okD(1,2)[OF ok]
  have closed: "parent_closed (entries_of ol) (dom (entries_of ol))" by (rule parent_closed_dom[OF d(1)])
  have eq: "\<forall>h \<in> dom (entries_of ol). entries_of ol h = entries_of ol' h" using new by (auto simp: f(1))
  have dag: "dag_ok (entries_of ol')"
    unfolding dag_ok_def f(1) using d(1) ins new by (auto simp: insertable_def dest: dag_okD)
  have keep: "past_of (entries_of ol) ns = past_of (entries_of ol') ns" if "set ns \<subseteq> dom (entries_of ol)" for ns
    by (rule past_of_agree[OF closed eq that])
  have parents_dom: "set (parents x) \<subseteq> dom (entries_of ol)" if "entries_of ol' h = Some x" for h x
    using that ins d(1) by (auto simp: f(1) insertable_def split: if_splits dest: dag_okD(2))
  have "cites_ok ol'"
    unfolding cites_ok_def f(2)
  proof (intro allI impI, elim conjE)
    fix h x assume x: "entries_of ol' h = Some x" "e_key (he_entry x) \<notin> write_list ol"
    have "\<exists>c. cited_capability (ve_operation x) = Some c \<and> capability_record (entries_of ol c) \<noteq> None \<and>
        c \<in> past_of (entries_of ol) (parents x)"
    proof (cases "h = he_hash e")
      case True
      then show ?thesis using x ins by (auto simp: f(1) insertable_def)
    next
      case False
      then show ?thesis using x d(2) unfolding cites_ok_def f(1) by auto
    qed
    then obtain c where c: "cited_capability (ve_operation x) = Some c" "capability_record (entries_of ol c) \<noteq> None"
      "c \<in> past_of (entries_of ol) (parents x)" by blast
    have "entries_of ol' c = entries_of ol c" using c(2) new by (auto simp: f(1) capability_record_def)
    with c keep[OF parents_dom[OF x(1)]] show "\<exists>c. cited_capability (ve_operation x) = Some c \<and>
        capability_record (entries_of ol' c) \<noteq> None \<and> c \<in> past_of (entries_of ol') (parents x)" by auto
  qed
  with d dag closed eq f(2) show ?thesis by (simp add: agree_on_def)
qed

text \<open>The heads are the entries no entry names.\<close>

definition heads_ok :: "oplog \<Rightarrow> bool" where
  "heads_ok ol \<longleftrightarrow> dag_ok (entries_of ol) \<and> set (ol_referenced ol) = (\<Union>e \<in> ran (entries_of ol). set (parents e)) \<and>
     set (ol_heads ol) = dom (entries_of ol) - (\<Union>e \<in> ran (entries_of ol). set (parents e)) \<and> distinct (ol_heads ol)"

lemma insert_entry_heads:
  assumes ok: "heads_ok ol" and new: "entries_of ol (he_hash e) = None"
    and parents: "\<forall>p \<in> set (parents e). \<exists>x. entries_of ol p = Some x \<and> e_time x < e_time e"
  shows "heads_ok (fst (insert_entry ol e))"
proof -
  let ?ol = "fst (insert_entry ol e)" and ?h = "he_hash e"
  note f = insert_entry_fields[OF new]
  have ran: "ran (entries_of ?ol) = insert e (ran (entries_of ol))" using new by (simp add: f(1))
  have not_self: "?h \<notin> set (parents e)" using parents new by auto
  have not_parent: "?h \<notin> set (parents x)" if "x \<in> ran (entries_of ol)" for x
    using that dag_okD(2) ok new by (fastforce simp: ran_def heads_ok_def)
  have "dag_ok (entries_of ?ol)"
    unfolding dag_ok_def f(1) using ok parents new by (auto simp: heads_ok_def dest: dag_okD)
  moreover have "set (ol_referenced ?ol) = (\<Union>x \<in> ran (entries_of ?ol). set (parents x))"
    using ok new unfolding heads_ok_def ran by (auto simp: insert_entry_def Let_def case_prod_unfold reference_parents_eq)
  moreover have "set (ol_heads ?ol) = dom (entries_of ?ol) - (\<Union>x \<in> ran (entries_of ?ol). set (parents x))" "distinct (ol_heads ?ol)"
    using ok new not_self not_parent unfolding heads_ok_def ran f(1)
    by (auto simp: insert_entry_def Let_def case_prod_unfold reference_parents_eq)
  ultimately show ?thesis by (simp add: heads_ok_def)
qed

lemma structure_heads: "structure_ok D ol \<Longrightarrow> heads_ok ol"
  by (simp add: structure_ok_def heads_ok_def)

lemma insert_entry_ok:
  assumes ok: "structure_ok D ol" and ins: "insertable D ol e"
  shows "structure_ok D (fst (insert_entry ol e))"
proof -
  let ?ol = "fst (insert_entry ol e)" and ?h = "he_hash e"
  have new: "entries_of ol ?h = None" using ins by (simp add: insertable_def)
  note f = insert_entry_fields[OF new]
  from insertable_agree[OF ok ins] have dag: "dag_ok (entries_of ?ol)" and cites: "cites_ok ?ol"
    by (auto simp: agree_on_def)
  have heads: "heads_ok ?ol"
    by (rule insert_entry_heads[OF structure_heads[OF ok] new]) (use ins in \<open>simp add: insertable_def\<close>)
  have revs: "revocations_ok ?ol"
    using structure_okD(3)[OF ok] new unfolding revocations_ok_def f(1)
    by (auto simp: insert_entry_def Let_def case_prod_unfold update_conv' distinct_update split: if_splits)
  have caps: "\<forall>h. map_of (ol_capabilities ?ol) h =
      (case entries_of ?ol h of None \<Rightarrow> None | Some x \<Rightarrow> if is_capability_entry x then Some x else None)"
    using ok new unfolding structure_ok_def f(1)
    by (auto simp: insert_entry_def Let_def case_prod_unfold update_conv' is_capability_entry_def is_access_record_def
        split: entry_payload.splits)
  have index: "set (key_hashes (ol_key_entries ?ol) k) = {h. \<exists>x. entries_of ?ol h = Some x \<and> k \<in> set (ve_state_keys x)}" for k
    using structure_okD(7)[OF ok, of k] new unfolding f(1)
    by (auto simp: insert_entry_def Let_def case_prod_unfold set_index_keys)
  have deleg: "set (ol_delegated ?ol) = {h. \<exists>x. entries_of ?ol h = Some x \<and> e_key (he_entry x) \<notin> write_list ?ol}"
    using structure_okD(6)[OF ok] new unfolding f(1,2)
    by (auto simp: insert_entry_def Let_def case_prod_unfold is_write_list_key_def)
  have "\<forall>h x. entries_of ?ol h = Some x \<longrightarrow> hash_ok D x"
    using structure_okD(4)[OF ok] ins by (auto simp: f(1) insertable_def)
  with dag cites revs caps heads index deleg show ?thesis by (simp add: structure_ok_def heads_ok_def)
qed

section \<open>Access state from scratch\<close>

definition effective_spec :: "oplog \<Rightarrow> verified_entry set" where
  "effective_spec ol = set (effective_revocations ol (omap_values (ol_revocations ol)))"

definition inert_spec :: "oplog \<Rightarrow> string set" where
  "inert_spec ol = {h. \<exists>e. entries_of ol h = Some e \<and> e_key (he_entry e) \<notin> write_list ol \<and>
     (if is_revocation_entry e then e \<notin> effective_spec ol
      else inert_under ol e (effective_revocations ol (omap_values (ol_revocations ol))))}"

definition access_ok :: "oplog \<Rightarrow> bool" where
  "access_ok ol \<longleftrightarrow> set (ol_effective ol) = he_hash ` effective_spec ol \<and> set (ol_inert ol) = inert_spec ol"

lemma inert_under_set_cong: "set eff = set eff' \<Longrightarrow> inert_under ol e eff = inert_under ol e eff'"
  by (simp add: inert_under_def list_ex_iff Let_def)

lemma effective_spec_held:
  assumes "structure_ok D ol" "r \<in> effective_spec ol"
  shows "entries_of ol (he_hash r) = Some r" "is_revocation_entry r"
  using revocation_values(1)[OF structure_okD(3,1)[OF assms(1)]] set_effective_revocations[of ol "omap_values (ol_revocations ol)"] assms(2)
  unfolding effective_spec_def by blast+

lemma effective_spec_agree:
  assumes ok: "structure_ok D ol" "structure_ok D ol'" and inj: "inj (multihash_of_digest D)" and agree: "agree_on ol ol' P"
    and inside: "\<forall>h e. (entries_of ol h = Some e \<or> entries_of ol' h = Some e) \<and> is_revocation_entry e \<longrightarrow> h \<in> P"
  shows "effective_spec ol = effective_spec ol'"
proof -
  note vals = revocation_values[OF structure_okD(3,1)[OF ok(1)]] revocation_values[OF structure_okD(3,1)[OF ok(2)]]
  have eq: "\<forall>h \<in> P. entries_of ol h = entries_of ol' h" using agree by (simp add: agree_on_def)
  show ?thesis unfolding effective_spec_def
  proof (rule agree_effective[OF agree])
    show "set (omap_values (ol_revocations ol)) = set (omap_values (ol_revocations ol'))"
      unfolding vals(1,3) using inside eq by (auto 0 3)
    show "inj_on state_key (set (omap_values (ol_revocations ol)))"
      by (rule structure_inj[OF ok(1) inj]) (unfold vals(1), blast)
    show "\<forall>r \<in> set (omap_values (ol_revocations ol)). held_in ol P r"
      unfolding vals(1) held_in_def using inside by blast
  qed (use vals in blast)+
qed

lemma inert_spec_agree:
  assumes ok: "structure_ok D ol" "structure_ok D ol'" and inj: "inj (multihash_of_digest D)" and agree: "agree_on ol ol' P"
    and inside: "\<forall>h e. (entries_of ol h = Some e \<or> entries_of ol' h = Some e) \<and> is_revocation_entry e \<longrightarrow> h \<in> P"
    and h: "h \<in> P"
  shows "h \<in> inert_spec ol \<longleftrightarrow> h \<in> inert_spec ol'"
proof (cases "entries_of ol h")
  case None
  then show ?thesis using agree h by (auto simp: inert_spec_def agree_on_def)
next
  case (Some e)
  then have e': "entries_of ol' h = Some e" using agree h by (auto simp: agree_on_def)
  have held: "held_in ol P e" using Some h structure_okD(5)[OF ok(1) Some] by (simp add: held_in_def)
  note eff = effective_spec_agree[OF ok inj agree inside]
  have "\<forall>r \<in> effective_spec ol. held_in ol P r"
    using effective_spec_held[OF ok(1)] inside unfolding held_in_def by blast
  then have "inert_under ol e (effective_revocations ol (omap_values (ol_revocations ol))) =
      inert_under ol' e (effective_revocations ol' (omap_values (ol_revocations ol')))"
    using eff unfolding effective_spec_def by (intro agree_inert[OF agree held]) simp_all
  moreover have "write_list ol = write_list ol'" using agree by (simp add: agree_on_def)
  ultimately show ?thesis using Some e' eff by (auto simp: inert_spec_def)
qed

lemma same_entries_agree:
  assumes "structure_ok D ol" "ol_chain ol = ol_chain ol'" "entries_of ol = entries_of ol'"
  shows "agree_on ol ol' UNIV"
proof -
  have "cites_ok ol'" using structure_okD(2)[OF assms(1)] assms(2,3) by (simp add: cites_ok_def)
  then show ?thesis using assms structure_okD(1,2)[OF assms(1)] by (simp add: agree_on_def parent_closed_def)
qed

text \<open>Fields that are not part of the structure.\<close>

lemma structure_ok_update [simp]:
  "structure_ok D (ol\<lparr>ol_effective := x\<rparr>) = structure_ok D ol"
  "structure_ok D (ol\<lparr>ol_inert := x\<rparr>) = structure_ok D ol"
  "structure_ok D (ol\<lparr>ol_current := y\<rparr>) = structure_ok D ol"
  by (simp_all add: structure_ok_def cites_ok_def revocations_ok_def)

lemma spec_cong:
  assumes "structure_ok D ol" "structure_ok D ol'" "inj (multihash_of_digest D)" "ol_chain ol = ol_chain ol'" "entries_of ol = entries_of ol'"
  shows "effective_spec ol = effective_spec ol'" "inert_spec ol = inert_spec ol'"
  using effective_spec_agree[OF assms(1-3) same_entries_agree[OF assms(1,4,5)]]
    inert_spec_agree[OF assms(1-3) same_entries_agree[OF assms(1,4,5)]] by blast+

section \<open>Refreshing the access state\<close>

text \<open>The judging loop sets the membership of every judged entry and records the keys it changed.\<close>

lemma judge_all_inert:
  "set (fst (judge_all ol eff hs acc)) = (set (fst acc) - {h \<in> set hs. entries_of ol h \<noteq> None}) \<union>
     {h \<in> set hs. \<exists>e. entries_of ol h = Some e \<and> judge ol eff e}"
proof (induction hs arbitrary: acc)
  case (Cons h hs)
  obtain inert change where acc: "acc = (inert, change)" by (cases acc)
  show ?case
  proof (cases "entries_of ol h")
    case None
    then show ?thesis using Cons.IH by (auto simp: acc)
  next
    case (Some e)
    then show ?thesis using Cons.IH by (cases "judge ol eff e") (auto simp: acc Let_def)
  qed
qed auto

lemma judge_all_keys_grow: "set (ac_keys (snd acc)) \<subseteq> set (ac_keys (snd (judge_all ol eff hs acc)))"
proof (induction hs arbitrary: acc)
  case (Cons h hs)
  obtain inert change where acc: "acc = (inert, change)" by (cases acc)
  show ?case
  proof (cases "entries_of ol h")
    case None
    then show ?thesis using Cons.IH[of "(inert, change)"] by (simp add: acc)
  next
    case (Some e)
    show ?thesis
      using Cons.IH[of "(inert, change)"]
        Cons.IH[of "(if judge ol eff e then oset_add h inert else oset_delete h inert,
                \<lparr>ac_inert = (if judge ol eff e then ac_inert change @ [e] else ac_inert change),
                 ac_keys = fold oset_add (ve_state_keys e) (ac_keys change)\<rparr>)"] Some
      by (auto simp: acc Let_def set_fold_oset_add)
  qed
qed simp

lemma judge_all_keys:
  "h \<in> set hs \<Longrightarrow> entries_of ol h = Some e \<Longrightarrow> judge ol eff e \<noteq> (h \<in> set (fst acc)) \<Longrightarrow>
     set (ve_state_keys e) \<subseteq> set (ac_keys (snd (judge_all ol eff hs acc)))"
proof (induction hs arbitrary: acc)
  case (Cons g hs)
  obtain inert change where acc: "acc = (inert, change)" by (cases acc)
  show ?case
  proof (cases "g = h")
    case True
    let ?acc = "(if judge ol eff e then oset_add h inert else oset_delete h inert,
                \<lparr>ac_inert = (if judge ol eff e then ac_inert change @ [e] else ac_inert change),
                 ac_keys = fold oset_add (ve_state_keys e) (ac_keys change)\<rparr>)"
    have "judge_all ol eff (g # hs) acc = judge_all ol eff hs ?acc"
      using True Cons.prems acc by (simp add: Let_def)
    moreover have "set (ve_state_keys e) \<subseteq> set (ac_keys (snd ?acc))" by (simp add: set_fold_oset_add)
    ultimately show ?thesis using judge_all_keys_grow[of ?acc ol eff hs] by auto
  next
    case False
    then have h: "h \<in> set hs" using Cons.prems(1) by simp
    show ?thesis
      using Cons.IH[OF h Cons.prems(2)] Cons.prems(3) False
      by (cases "entries_of ol g") (auto simp: acc Let_def)
  qed
qed simp

lemma judge_iff:
  assumes "structure_ok D ol" "entries_of ol h = Some e"
    and "set (ol_effective ol) = he_hash ` effective_spec ol" "set eff = effective_spec ol"
  shows "judge ol eff e \<longleftrightarrow> (if is_revocation_entry e then e \<notin> effective_spec ol
      else inert_under ol e (effective_revocations ol (omap_values (ol_revocations ol))))"
proof -
  have hash: "he_hash e = h" by (rule structure_okD(5)[OF assms(1,2)])
  have "omap_has (ol_revocations ol) h \<longleftrightarrow> is_revocation_entry e"
    using structure_okD(3)[OF assms(1)] assms(2) by (auto simp: revocations_ok_def)
  moreover have "h \<in> he_hash ` effective_spec ol \<longleftrightarrow> e \<in> effective_spec ol"
  proof
    assume "h \<in> he_hash ` effective_spec ol"
    then obtain r where r: "r \<in> effective_spec ol" "h = he_hash r" by blast
    with effective_spec_held(1)[OF assms(1) r(1)] assms(2) show "e \<in> effective_spec ol" by simp
  qed (use hash in blast)
  moreover have "inert_under ol e eff = inert_under ol e (effective_revocations ol (omap_values (ol_revocations ol)))"
    using assms(4) by (intro inert_under_set_cong) (simp add: effective_spec_def)
  ultimately show ?thesis using hash assms(3) by (simp add: judge_def)
qed

lemma effective_list:
  assumes "structure_ok D ol" "set (ol_effective ol) = he_hash ` effective_spec ol"
  shows "set (List.map_filter (entries_of ol) (ol_effective ol)) = effective_spec ol"
proof -
  have "set (List.map_filter (entries_of ol) (ol_effective ol)) = {e. \<exists>r \<in> effective_spec ol. entries_of ol (he_hash r) = Some e}"
    unfolding set_map_filter_eq assms(2) by blast
  then show ?thesis using effective_spec_held(1)[OF assms(1)] by auto
qed

text \<open>An oplog after some entries were inserted and before the derived state is refreshed.\<close>

definition extended :: "deps \<Rightarrow> oplog \<Rightarrow> oplog \<Rightarrow> verified_entry list \<Rightarrow> bool" where
  "extended D ol ol' added \<longleftrightarrow> structure_ok D ol \<and> structure_ok D ol' \<and> agree_on ol ol' (dom (entries_of ol)) \<and>
     (\<forall>e \<in> set added. entries_of ol' (he_hash e) = Some e \<and> entries_of ol (he_hash e) = None) \<and>
     dom (entries_of ol') = dom (entries_of ol) \<union> he_hash ` set added \<and>
     ol_effective ol' = ol_effective ol \<and> ol_inert ol' = ol_inert ol \<and> ol_current ol' = ol_current ol"

lemma extendedD:
  assumes "extended D ol ol' added"
  shows "structure_ok D ol" "structure_ok D ol'" "agree_on ol ol' (dom (entries_of ol))"
    "e \<in> set added \<Longrightarrow> entries_of ol' (he_hash e) = Some e" "e \<in> set added \<Longrightarrow> entries_of ol (he_hash e) = None"
    "entries_of ol' h = Some x \<Longrightarrow> entries_of ol h = Some x \<or> entries_of ol h = None \<and> x \<in> set added"
    "entries_of ol h = Some x \<Longrightarrow> entries_of ol' h = Some x"
    "ol_effective ol' = ol_effective ol" "ol_inert ol' = ol_inert ol" "ol_current ol' = ol_current ol"
proof -
  have agree: "\<forall>h \<in> dom (entries_of ol). entries_of ol h = entries_of ol' h"
    using assms by (simp add: extended_def agree_on_def)
  show "entries_of ol h = Some x \<Longrightarrow> entries_of ol' h = Some x" using agree by (metis domI)
  show "entries_of ol' h = Some x \<Longrightarrow> entries_of ol h = Some x \<or> entries_of ol h = None \<and> x \<in> set added"
  proof (cases "entries_of ol h")
    case None
    assume x: "entries_of ol' h = Some x"
    have "h \<in> dom (entries_of ol) \<union> he_hash ` set added"
      using x assms unfolding extended_def by blast
    with None obtain y where "y \<in> set added" "h = he_hash y" by blast
    moreover from this have "entries_of ol' h = Some y" using assms unfolding extended_def by blast
    ultimately show ?thesis using x None by simp
  next
    case (Some y)
    assume "entries_of ol' h = Some x"
    with Some agree show ?thesis by (metis domI)
  qed
qed (use assms in \<open>simp_all add: extended_def\<close>)

lemma inert_spec_delegated:
  assumes "structure_ok D ol"
  shows "inert_spec ol \<subseteq> set (ol_delegated ol)"
  unfolding structure_okD(6)[OF assms] by (auto simp: inert_spec_def)

lemma revocation_added_iff:
  assumes "extended D ol ol' added"
  shows "list_ex (\<lambda>e. omap_has (ol_revocations ol') (he_hash e)) added \<longleftrightarrow> (\<exists>e \<in> set added. is_revocation_entry e)"
proof -
  have "omap_has (ol_revocations ol') (he_hash e) \<longleftrightarrow> is_revocation_entry e" if "e \<in> set added" for e
    using structure_okD(3)[OF extendedD(2)[OF assms]] extendedD(4)[OF assms that] by (auto simp: revocations_ok_def)
  then show ?thesis by (auto simp: list_ex_iff)
qed

text \<open>Without a new revocation, nothing old changes its standing.\<close>

lemma extended_no_revocation:
  assumes ext: "extended D ol ol' added" and inj: "inj (multihash_of_digest D)" and none: "\<forall>e \<in> set added. \<not> is_revocation_entry e"
  shows "effective_spec ol' = effective_spec ol"
    and "h \<in> dom (entries_of ol) \<Longrightarrow> h \<in> inert_spec ol' \<longleftrightarrow> h \<in> inert_spec ol"
proof -
  note e = extendedD[OF ext]
  have inside: "\<forall>h x. (entries_of ol h = Some x \<or> entries_of ol' h = Some x) \<and> is_revocation_entry x \<longrightarrow> h \<in> dom (entries_of ol)"
    using e(6) none by blast
  show "effective_spec ol' = effective_spec ol"
    using effective_spec_agree[OF e(1,2) inj e(3) inside] by simp
  show "h \<in> dom (entries_of ol) \<Longrightarrow> h \<in> inert_spec ol' \<longleftrightarrow> h \<in> inert_spec ol"
    using inert_spec_agree[OF e(1,2) inj e(3) inside] by simp
qed

lemma judged_inert_spec:
  assumes ok: "structure_ok D ol" and eff: "set (ol_effective ol) = he_hash ` effective_spec ol" "set es = effective_spec ol"
    and deleg: "set hs \<subseteq> set (ol_delegated ol)"
  shows "{h \<in> set hs. \<exists>e. entries_of ol h = Some e \<and> judge ol es e} = inert_spec ol \<inter> set hs"
proof -
  have "(\<exists>e. entries_of ol h = Some e \<and> judge ol es e) \<longleftrightarrow> h \<in> inert_spec ol" if "h \<in> set hs" for h
  proof -
    from that deleg obtain e where "entries_of ol h = Some e" "e_key (he_entry e) \<notin> write_list ol"
      using structure_okD(6)[OF ok] by blast
    then show ?thesis using judge_iff[OF ok _ eff] by (auto simp: inert_spec_def)
  qed
  then show ?thesis by blast
qed

text \<open>The core of both branches of the refresh: judging some entries settles the inert set.\<close>

lemma judge_all_access_ok:
  assumes ok: "structure_ok D ol" and inj: "inj (multihash_of_digest D)"
    and eff: "set (ol_effective ol) = he_hash ` effective_spec ol"
    and hs: "set hs \<subseteq> set (ol_delegated ol)"
    and rest: "set (ol_inert ol) - set hs = inert_spec ol - set hs"
    and res: "judge_all ol (List.map_filter (entries_of ol) (ol_effective ol)) hs (ol_inert ol, c) = (inert, change)"
  shows "access_ok (ol\<lparr>ol_inert := inert\<rparr>)"
    and "h \<in> set hs \<Longrightarrow> entries_of ol h = Some e \<Longrightarrow> (h \<in> set inert) \<noteq> (h \<in> set (ol_inert ol)) \<Longrightarrow>
      set (ve_state_keys e) \<subseteq> set (ac_keys change)"
    and "h \<notin> set hs \<Longrightarrow> h \<in> set inert \<longleftrightarrow> h \<in> set (ol_inert ol)"
proof -
  let ?es = "List.map_filter (entries_of ol) (ol_effective ol)"
  have es: "set ?es = effective_spec ol" by (rule effective_list[OF ok eff])
  have known: "{h \<in> set hs. entries_of ol h \<noteq> None} = set hs" using hs structure_okD(6)[OF ok] by auto
  have inert: "set inert = (set (ol_inert ol) - set hs) \<union> (inert_spec ol \<inter> set hs)"
    using judge_all_inert[of ol ?es hs "(ol_inert ol, c)"] judged_inert_spec[OF ok eff es hs] known res by simp
  with rest have spec: "set inert = inert_spec ol" by blast
  show "h \<notin> set hs \<Longrightarrow> h \<in> set inert \<longleftrightarrow> h \<in> set (ol_inert ol)" using inert by blast
  have "structure_ok D (ol\<lparr>ol_inert := inert\<rparr>)" using ok by simp
  from spec_cong[OF ok this inj] spec eff show "access_ok (ol\<lparr>ol_inert := inert\<rparr>)" by (simp add: access_ok_def)
  show "set (ve_state_keys e) \<subseteq> set (ac_keys change)"
    if "h \<in> set hs" "entries_of ol h = Some e" "(h \<in> set inert) \<noteq> (h \<in> set (ol_inert ol))"
  proof -
    have "h \<in> {h \<in> set hs. \<exists>e. entries_of ol h = Some e \<and> judge ol ?es e} \<longleftrightarrow> h \<in> inert_spec ol \<inter> set hs"
      by (simp only: judged_inert_spec[OF ok eff es hs])
    then have "h \<in> set inert \<longleftrightarrow> judge ol ?es e" using inert that(1,2) by simp
    with judge_all_keys[OF that(1,2), of ?es "(ol_inert ol, c)"] that(3) res show ?thesis by simp
  qed
qed

lemma refresh_effective_ok:
  assumes "structure_ok D ol" "inj (multihash_of_digest D)"
  shows "set (ol_effective (refresh_effective ol)) = he_hash ` effective_spec (refresh_effective ol)"
    "structure_ok D (refresh_effective ol)"
proof -
  show ok: "structure_ok D (refresh_effective ol)" using assms(1) by (simp add: refresh_effective_def)
  have "effective_spec (refresh_effective ol) = effective_spec ol"
    using spec_cong(1)[OF ok assms(1,2)] by (simp add: refresh_effective_def)
  then show "set (ol_effective (refresh_effective ol)) = he_hash ` effective_spec (refresh_effective ol)"
    by (simp add: refresh_effective_def set_fold_oset_add effective_spec_def)
qed

lemma refresh_effective_fields [simp]:
  "ol_entries (refresh_effective ol) = ol_entries ol" "ol_chain (refresh_effective ol) = ol_chain ol"
  "ol_inert (refresh_effective ol) = ol_inert ol" "ol_current (refresh_effective ol) = ol_current ol"
  "ol_delegated (refresh_effective ol) = ol_delegated ol" "ol_key_entries (refresh_effective ol) = ol_key_entries ol"
  by (simp_all add: refresh_effective_def)

lemma refresh_access_fields:
  "ol_entries (fst (refresh_access_state ol added)) = ol_entries ol"
  "ol_chain (fst (refresh_access_state ol added)) = ol_chain ol"
  "ol_current (fst (refresh_access_state ol added)) = ol_current ol"
  "ol_key_entries (fst (refresh_access_state ol added)) = ol_key_entries ol"
  "structure_ok D (fst (refresh_access_state ol added)) = structure_ok D ol"
  by (auto simp: refresh_access_state_def Let_def case_prod_unfold)
     (simp_all add: refresh_effective_def)

lemma refresh_access_ok:
  assumes ext: "extended D ol0 ol added" and inj: "inj (multihash_of_digest D)" and acc: "access_ok ol0"
    and res: "refresh_access_state ol added = (ol', change)"
  shows "access_ok ol'"
    and "entries_of ol0 h = Some e \<Longrightarrow> (h \<in> set (ol_inert ol')) \<noteq> (h \<in> set (ol_inert ol0)) \<Longrightarrow>
      set (ve_state_keys e) \<subseteq> set (ac_keys change)"
proof -
  note e = extendedD[OF ext]
  let ?rev = "\<exists>e \<in> set added. is_revocation_entry e"
  have rev: "list_ex (\<lambda>e. omap_has (ol_revocations ol) (he_hash e)) added \<longleftrightarrow> ?rev"
    by (rule revocation_added_iff[OF ext])
  have inert0: "set (ol_inert ol) = inert_spec ol0" "inert_spec ol0 \<subseteq> set (ol_delegated ol)"
  proof -
    show "set (ol_inert ol) = inert_spec ol0" using acc e(9) by (simp add: access_ok_def)
    have "set (ol_delegated ol0) \<subseteq> set (ol_delegated ol)"
      using e(3,7) unfolding structure_okD(6)[OF e(1)] structure_okD(6)[OF e(2)] by (auto simp: agree_on_def)
    then show "inert_spec ol0 \<subseteq> set (ol_delegated ol)" using inert_spec_delegated[OF e(1)] by blast
  qed
  have "access_ok ol' \<and> (\<forall>h e. entries_of ol0 h = Some e \<longrightarrow> (h \<in> set (ol_inert ol')) \<noteq> (h \<in> set (ol_inert ol0)) \<longrightarrow>
      set (ve_state_keys e) \<subseteq> set (ac_keys change))"
  proof (cases ?rev)
    case True
    define ol1 where "ol1 = refresh_effective ol"
    note eff = refresh_effective_ok[OF e(2) inj, folded ol1_def]
    have f: "ol_delegated ol1 = ol_delegated ol" "ol_inert ol1 = ol_inert ol" "entries_of ol1 = entries_of ol"
      by (simp_all add: ol1_def)
    obtain inert where run: "judge_all ol1 (List.map_filter (entries_of ol1) (ol_effective ol1)) (ol_delegated ol1)
        (ol_inert ol1, \<lparr>ac_inert = [], ac_keys = []\<rparr>) = (inert, change)" and ol': "ol' = ol1\<lparr>ol_inert := inert\<rparr>"
    proof -
      obtain inert c where run: "judge_all ol1 (List.map_filter (entries_of ol1) (ol_effective ol1)) (ol_delegated ol1)
          (ol_inert ol1, \<lparr>ac_inert = [], ac_keys = []\<rparr>) = (inert, c)" by (meson surj_pair)
      then have "(ol1\<lparr>ol_inert := inert\<rparr>, c) = (ol', change)"
        using res rev True unfolding refresh_access_state_def Let_def by (simp add: ol1_def)
      with run that show thesis by blast
    qed
    have rest: "set (ol_inert ol1) - set (ol_delegated ol1) = inert_spec ol1 - set (ol_delegated ol1)"
    proof -
      have "set (ol_inert ol1) \<subseteq> set (ol_delegated ol1)" using inert0 f(1,2) by simp
      moreover have "inert_spec ol1 \<subseteq> set (ol_delegated ol1)" by (rule inert_spec_delegated[OF eff(2)])
      ultimately show ?thesis by (metis Diff_eq_empty_iff)
    qed
    note j = judge_all_access_ok[OF eff(2) inj eff(1) order_refl rest run]
    have "set (ve_state_keys x) \<subseteq> set (ac_keys change)"
      if "entries_of ol0 h = Some x" "(h \<in> set (ol_inert ol')) \<noteq> (h \<in> set (ol_inert ol0))" for h x
    proof -
      have "entries_of ol1 h = Some x" using e(7)[OF that(1)] f(3) by simp
      moreover have changed: "(h \<in> set inert) \<noteq> (h \<in> set (ol_inert ol1))" using that(2) e(9) f(2) ol' by simp
      moreover have "h \<in> set (ol_delegated ol1)" using j(3)[of h] changed by blast
      ultimately show ?thesis using j(2) by blast
    qed
    with j(1) ol' show ?thesis by blast
  next
    case False
    then have none: "\<forall>e \<in> set added. \<not> is_revocation_entry e" by blast
    note same = extended_no_revocation[OF ext inj none]
    have eff: "set (ol_effective ol) = he_hash ` effective_spec ol" using acc e(8) same(1) by (simp add: access_ok_def)
    let ?hs = "map he_hash (List.filter (\<lambda>e. he_hash e \<in> set (ol_delegated ol)) added)"
    have new: "inert_spec ol - set ?hs = inert_spec ol0"
    proof (intro equalityI subsetI)
      fix h assume h: "h \<in> inert_spec ol - set ?hs"
      then obtain x where x: "entries_of ol h = Some x" by (auto simp: inert_spec_def)
      have "h \<in> set (ol_delegated ol)" using h inert_spec_delegated[OF e(2)] by blast
      with h have "x \<notin> set added" using structure_okD(5)[OF e(2) x] by auto
      with e(6)[OF x] have "h \<in> dom (entries_of ol0)" by auto
      then show "h \<in> inert_spec ol0" using same(2) h by blast
    next
      fix h assume h: "h \<in> inert_spec ol0"
      then have d: "h \<in> dom (entries_of ol0)" by (auto simp: inert_spec_def)
      then have "h \<notin> set ?hs" using e(5) by auto
      then show "h \<in> inert_spec ol - set ?hs" using same(2)[OF d] h by blast
    qed
    have disj: "inert_spec ol0 \<inter> set ?hs = {}" using new by blast
    have nokey: "h \<notin> set ?hs" if "entries_of ol0 h = Some x" for h x using e(5) that by auto
    show ?thesis
    proof (cases "ol_effective ol = [] \<and> ol_inert ol = []")
      case True
      then have ol': "ol' = ol" using res rev False by (auto simp: refresh_access_state_def Let_def split: if_splits)
      have none_eff: "effective_spec ol = {}" using eff True by simp
      have "inert_spec ol = inert_spec ol0"
      proof -
        have "h \<in> inert_spec ol0" if "h \<in> inert_spec ol" for h
        proof -
          from that obtain x where x: "entries_of ol h = Some x" by (auto simp: inert_spec_def)
          show ?thesis
          proof (cases "h \<in> dom (entries_of ol0)")
            case True
            then show ?thesis using same(2) that by blast
          next
            case False
            with e(6)[OF x] none have "\<not> is_revocation_entry x" by auto
            with that x have "inert_under ol x (effective_revocations ol (omap_values (ol_revocations ol)))"
              by (auto simp: inert_spec_def)
            then show ?thesis using none_eff by (simp add: effective_spec_def inert_under_def Let_def)
          qed
        qed
        then show ?thesis using new by blast
      qed
      then show ?thesis using eff inert0(1) ol' e(9) by (simp add: access_ok_def)
    next
      case notempty: False
      obtain inert where run: "judge_all ol (List.map_filter (entries_of ol) (ol_effective ol)) ?hs
          (ol_inert ol, \<lparr>ac_inert = [], ac_keys = []\<rparr>) = (inert, change)" and ol': "ol' = ol\<lparr>ol_inert := inert\<rparr>"
      proof -
        obtain inert c where run: "judge_all ol (List.map_filter (entries_of ol) (ol_effective ol)) ?hs
            (ol_inert ol, \<lparr>ac_inert = [], ac_keys = []\<rparr>) = (inert, c)" by (meson surj_pair)
        then have "(ol\<lparr>ol_inert := inert\<rparr>, c) = (ol', change)"
          using res rev False notempty unfolding refresh_access_state_def Let_def by (simp split: if_splits)
        with run that show thesis by blast
      qed
      have hs: "set ?hs \<subseteq> set (ol_delegated ol)" by auto
      have rest: "set (ol_inert ol) - set ?hs = inert_spec ol - set ?hs" using new inert0(1) disj by blast
      note j = judge_all_access_ok[OF e(2) inj eff hs rest run]
      show ?thesis using j(1,3) nokey ol' e(9) by auto
    qed
  qed
  then show "access_ok ol'" "entries_of ol0 h = Some e \<Longrightarrow> (h \<in> set (ol_inert ol')) \<noteq> (h \<in> set (ol_inert ol0)) \<Longrightarrow>
      set (ve_state_keys e) \<subseteq> set (ac_keys change)" by blast+
qed

section \<open>Current state\<close>

definition current_ok :: "oplog \<Rightarrow> bool" where
  "current_ok ol \<longleftrightarrow> (\<forall>k. omap_get (ol_current ol) k = resolve_key ol k)"

text \<open>The candidates of a key: its entries that are not inert.\<close>

definition live_set :: "oplog \<Rightarrow> string \<Rightarrow> verified_entry set" where
  "live_set ol k = {e. entries_of ol (he_hash e) = Some e \<and> k \<in> set (ve_state_keys e) \<and> he_hash e \<notin> set (ol_inert ol)}"

lemma resolve_key_candidates:
  assumes "structure_ok D ol"
  shows "set (List.map_filter (entries_of ol) (live_hashes ol k)) = live_set ol k"
proof -
  have "set (live_hashes ol k) = {h. \<exists>e. entries_of ol h = Some e \<and> k \<in> set (ve_state_keys e)} - set (ol_inert ol)"
    using structure_okD(7)[OF assms, of k] by (auto simp: live_hashes_def key_hashes_def)
  then show ?thesis using structure_okD(5)[OF assms] by (auto simp: set_map_filter_eq live_set_def)
qed

lemma resolve_key_cong:
  assumes "structure_ok D ol" "structure_ok D ol'" "inj (multihash_of_digest D)" "live_set ol k = live_set ol' k"
  shows "resolve_key ol k = resolve_key ol' k"
  unfolding resolve_key_def resolve_current_state_def
proof (rule current_order.least_by_set_cong)
  show "set (List.map_filter (entries_of ol) (live_hashes ol k)) = set (List.map_filter (entries_of ol') (live_hashes ol' k))"
    by (simp only: resolve_key_candidates[OF assms(1)] resolve_key_candidates[OF assms(2)] assms(4))
  show "inj_on state_key (set (List.map_filter (entries_of ol) (live_hashes ol k)))"
    unfolding resolve_key_candidates[OF assms(1)]
    by (rule structure_inj[OF assms(1,3)]) (simp add: live_set_def)
qed

lemma resolve_key_current [simp]: "resolve_key (ol\<lparr>ol_current := c\<rparr>) k = resolve_key ol k"
  by (simp add: resolve_key_def live_hashes_def)

lemma refresh_current_fields:
  "ol_entries (refresh_current_state ol ks) = ol_entries ol" "ol_chain (refresh_current_state ol ks) = ol_chain ol"
  "ol_inert (refresh_current_state ol ks) = ol_inert ol" "ol_effective (refresh_current_state ol ks) = ol_effective ol"
  "structure_ok D (refresh_current_state ol ks) = structure_ok D ol"
  "resolve_key (refresh_current_state ol ks) k = resolve_key ol k"
  by (induction ks arbitrary: ol) simp_all

lemma refresh_current_get:
  "omap_get (ol_current (refresh_current_state ol ks)) k = (if k \<in> set ks then resolve_key ol k else omap_get (ol_current ol) k)"
  by (induction ks arbitrary: ol) (auto simp: ordered_simps split: option.splits)

section \<open>Preservation\<close>

definition oplog_ok :: "deps \<Rightarrow> oplog \<Rightarrow> bool" where
  "oplog_ok D ol \<longleftrightarrow> structure_ok D ol \<and> access_ok ol \<and> current_ok ol"

lemma refresh_ok:
  assumes ext: "extended D ol0 ol added" and inj: "inj (multihash_of_digest D)" and ok: "oplog_ok D ol0"
    and res: "refresh_access_state ol added = (ol1, change)"
    and ks: "set (ac_keys change) \<union> (\<Union>e \<in> set added. set (ve_state_keys e)) \<subseteq> set ks"
  shows "oplog_ok D (refresh_current_state ol1 ks)"
proof -
  note e = extendedD[OF ext]
  note f = refresh_access_fields[where ol = ol and added = added, unfolded res fst_conv]
  from ok have acc: "access_ok ol0" and cur: "current_ok ol0" by (simp_all add: oplog_ok_def)
  note r = refresh_access_ok[OF ext inj acc res]
  let ?ol = "refresh_current_state ol1 ks"
  have st: "structure_ok D ol1" "structure_ok D ?ol" using f(5) e(2) by (simp_all add: refresh_current_fields)
  have "access_ok ?ol"
    using r(1) spec_cong[OF st(2,1) inj] by (simp add: access_ok_def refresh_current_fields)
  moreover have "omap_get (ol_current ?ol) k = resolve_key ?ol k" for k
  proof (cases "k \<in> set ks")
    case True
    then show ?thesis by (simp add: refresh_current_get refresh_current_fields)
  next
    case False
    have "live_set ol1 k = live_set ol0 k"
    proof (intro equalityI subsetI)
      fix x assume "x \<in> live_set ol1 k"
      then have x: "entries_of ol (he_hash x) = Some x" "k \<in> set (ve_state_keys x)" "he_hash x \<notin> set (ol_inert ol1)"
        by (auto simp: live_set_def f(1))
      with False ks have "x \<notin> set added" "\<not> set (ve_state_keys x) \<subseteq> set (ac_keys change)" by blast+
      with e(6)[OF x(1)] r(2) x show "x \<in> live_set ol0 k" by (auto simp: live_set_def)
    next
      fix x assume "x \<in> live_set ol0 k"
      then have x: "entries_of ol0 (he_hash x) = Some x" "k \<in> set (ve_state_keys x)" "he_hash x \<notin> set (ol_inert ol0)"
        by (auto simp: live_set_def)
      with False ks have "\<not> set (ve_state_keys x) \<subseteq> set (ac_keys change)" by blast
      with e(7)[OF x(1)] r(2)[OF x(1)] x show "x \<in> live_set ol1 k" by (auto simp: live_set_def f(1))
    qed
    from resolve_key_cong[OF st(1) e(1) inj this] show ?thesis
      using cur False e(10) f(3) by (simp add: current_ok_def refresh_current_get refresh_current_fields)
  qed
  ultimately show ?thesis using st(2) by (simp add: oplog_ok_def current_ok_def)
qed

lemma as_verified_fields [simp]:
  "he_hash (as_verified h p) = he_hash h" "he_bytes (as_verified h p) = he_bytes h"
  "he_multihash (as_verified h p) = he_multihash h" "he_entry (as_verified h p) = he_entry h"
  "ve_operation (as_verified h p) = p" "ve_state_keys (as_verified h p) = state_keys_of p"
  by (simp_all add: as_verified_def hashed_entry.defs verified_entry.defs)

lemma authorise_cites:
  assumes "authorise_entry ol hashed operation = Inr u" "e_key (he_entry hashed) \<notin> write_list ol"
  shows "\<exists>c. cited_capability operation = Some c \<and> capability_record (entries_of ol c) \<noteq> None \<and>
    in_causal_past (ol_entries ol) c (parents hashed)"
  using assms by (auto simp: authorise_entry_def is_write_list_key_def Let_def split: if_splits option.splits)

lemma verify_entry_Inr:
  "verify_entry D ol hashed = Inr e \<longleftrightarrow> (\<exists>operation. check_entry D (ol_chain ol) hashed = Inr operation \<and>
     assert_clock ol hashed = Inr () \<and> authorise_entry ol hashed operation = Inr () \<and> e = as_verified hashed operation)"
  by (auto simp: verify_entry_def result_simps)

lemma verify_insertable:
  assumes ok: "structure_ok D ol" and v: "verify_entry D ol hashed = Inr e" and h: "hash_ok D hashed"
    and new: "entries_of ol (he_hash hashed) = None"
  shows "insertable D ol e"
proof -
  from v obtain p where p: "assert_clock ol hashed = Inr ()" "authorise_entry ol hashed p = Inr ()" "e = as_verified hashed p"
    by (auto simp: verify_entry_Inr)
  have "\<exists>c. cited_capability p = Some c \<and> capability_record (entries_of ol c) \<noteq> None \<and>
      c \<in> past_of (entries_of ol) (parents hashed)" if "e_key (he_entry hashed) \<notin> write_list ol"
    using authorise_cites[OF p(2) that] in_causal_past_iff[OF structure_okD(1)[OF ok]] by blast
  then show ?thesis
    using p h new assert_clock_parents[OF p(1)] by (auto simp: insertable_def hash_ok_def)
qed

lemma agree_on_trans:
  "agree_on a b P \<Longrightarrow> agree_on b c Q \<Longrightarrow> P \<subseteq> Q \<Longrightarrow> agree_on a c P"
  unfolding agree_on_def by (metis subsetD)

lemma extended_refl: "structure_ok D ol \<Longrightarrow> extended D ol ol []"
  using structure_okD(1,2)[of D ol] parent_closed_dom[of "entries_of ol"] by (simp add: extended_def agree_on_def)

lemma extended_insert:
  assumes ok: "structure_ok D ol" and ins: "insertable D ol e" and ext: "extended D (fst (insert_entry ol e)) ol' added"
  shows "extended D ol ol' (e # added)"
proof -
  let ?ol = "fst (insert_entry ol e)"
  have new: "entries_of ol (he_hash e) = None" using ins by (simp add: insertable_def)
  note f = insert_entry_fields[OF new] and x = extendedD[OF ext]
  have agree: "agree_on ol ol' (dom (entries_of ol))"
    by (rule agree_on_trans[OF insertable_agree[OF ok ins] x(3)]) (simp add: f(1) subset_insertI)
  have "entries_of ol' (he_hash e) = Some e" by (rule x(7)) (simp add: f(1))
  moreover have "dom (entries_of ol') = dom (entries_of ol) \<union> he_hash ` set (e # added)"
    using ext by (auto simp: extended_def f(1))
  moreover have "entries_of ol (he_hash a) = None" if "a \<in> set added" for a
    using x(5)[OF that] by (auto simp: f(1) split: if_splits)
  ultimately show ?thesis
    using ok agree x new f by (simp add: extended_def)
qed

lemma admit_all_extended:
  "structure_ok D ol \<Longrightarrow> \<forall>h \<in> set hs. hash_ok D h \<Longrightarrow> admit_all (verify_entry D) ol hs = (ol', merged, rejected) \<Longrightarrow>
     extended D ol ol' merged"
proof (induction hs arbitrary: ol merged rejected)
  case (Cons h hs)
  show ?case
  proof (cases "entries_of ol (he_hash h)")
    case new: None
    show ?thesis
    proof (cases "verify_entry D ol h")
      case (Inl err)
      with new Cons show ?thesis by (auto split: prod.splits)
    next
      case (Inr e)
      have ins: "insertable D ol e" by (rule verify_insertable[OF Cons.prems(1) Inr _ new]) (use Cons.prems in simp)
      from Cons.prems(3) new Inr obtain merged' where m: "merged = e # merged'"
        "admit_all (verify_entry D) (fst (insert_entry ol e)) hs = (ol', merged', rejected)"
        by (auto split: prod.splits)
      have "extended D (fst (insert_entry ol e)) ol' merged'"
        by (rule Cons.IH[OF insert_entry_ok[OF Cons.prems(1) ins] _ m(2)]) (use Cons.prems in simp)
      then show ?thesis using extended_insert[OF Cons.prems(1) ins] m(1) by simp
    qed
  qed (use Cons in auto)
qed (auto intro: extended_refl)

lemma decode_hash_ok: "decode_signed_entry D bs = Inr h \<Longrightarrow> hash_ok D h"
  by (auto dest!: decode_signed_entry_Inr simp: hash_ok_def with_hash_def compute_cid_string_def)
     (metis hashed_entry.select_convs)+

lemma set_decode_blocks:
  "set (snd (decode_blocks D ol bs)) = {h. \<exists>b \<in> set bs. decode_signed_entry D b = Inr h \<and> entries_of ol (he_hash h) = None}"
  by (induction bs) (auto simp: Let_def case_prod_unfold split: sum.splits if_splits)

lemma insert_blocks_ok:
  assumes ok: "oplog_ok D ol" and inj: "inj (multihash_of_digest D)"
  shows "oplog_ok D (fst (merge_entries D ol blocks))"
    and "\<exists>ol1. extended D ol ol1 (mr_merged (snd (merge_entries D ol blocks))) \<and>
      entries_of ol1 = entries_of (fst (merge_entries D ol blocks)) \<and> ol_chain ol1 = ol_chain (fst (merge_entries D ol blocks))"
proof -
  obtain undecodable decoded where d: "decode_blocks D ol blocks = (undecodable, decoded)" by (meson surj_pair)
  obtain ol1 merged refused where a: "admit_all (verify_entry D) ol (sort_by compare_merge decoded) = (ol1, merged, refused)"
    by (meson prod_cases3)
  obtain ol2 access where r: "refresh_access_state ol1 merged = (ol2, access)" by (meson surj_pair)
  let ?ks = "fold oset_add (concat (map ve_state_keys merged)) (ac_keys access)"
  have eq: "merge_entries D ol blocks = (refresh_current_state ol2 ?ks,
      \<lparr>mr_merged = merged, mr_rejected = undecodable @ refused, mr_access = access\<rparr>)"
    by (simp add: merge_entries_def insert_blocks_def d a r)
  have "\<forall>h \<in> set decoded. hash_ok D h"
    using set_decode_blocks[of D ol blocks] d by (auto dest: decode_hash_ok)
  then have ext: "extended D ol ol1 merged"
    using ok by (intro admit_all_extended[OF _ _ a]) (simp_all add: oplog_ok_def)
  have "oplog_ok D (refresh_current_state ol2 ?ks)"
    by (rule refresh_ok[OF ext inj ok r]) (auto simp: set_fold_oset_add)
  then show "oplog_ok D (fst (merge_entries D ol blocks))" by (simp add: eq)
  show "\<exists>ol1. extended D ol ol1 (mr_merged (snd (merge_entries D ol blocks))) \<and>
      entries_of ol1 = entries_of (fst (merge_entries D ol blocks)) \<and> ol_chain ol1 = ol_chain (fst (merge_entries D ol blocks))"
    using ext refresh_access_fields[where ol = ol1 and added = merged] r by (auto simp: eq refresh_current_fields)
qed

end
