(* ===== verification/Convergence.thy ===== *)
theory Convergence
  imports Oplog_Invariant
begin

text \<open>
  What the invariant gives for every oplog a peer can reach by creating, appending and merging: the
  incremental state is the state computed from scratch, replicas with the same entries agree, and
  acceptance and merging do not depend on the order entries arrive in.
\<close>

section \<open>Reachable oplogs\<close>

text \<open>
  A local append is signed over the current heads, so its hash is new; were it not, two different
  signed entries would share a sha3-512 digest.
\<close>

inductive reachable :: "deps \<Rightarrow> oplog \<Rightarrow> bool" for D where
  created: "reachable D (create_oplog chain)"
| appended: "reachable D ol \<Longrightarrow> append_entry_with_access D ol payload kp = Inr (ol', e, access) \<Longrightarrow>
    omap_get (ol_entries ol) (he_hash e) = None \<Longrightarrow> reachable D ol'"
| merged: "reachable D ol \<Longrightarrow> reachable D (fst (merge_entries D ol blocks))"

inductive_cases reachable_elim: "reachable D ol"

lemma create_oplog_ok: "oplog_ok D (create_oplog chain)"
  by (auto simp: oplog_ok_def structure_ok_def access_ok_def current_ok_def create_oplog_def dag_ok_def cites_ok_def
      revocations_ok_def key_hashes_def effective_spec_def inert_spec_def effective_revocations_def resolve_key_def
      live_hashes_def resolve_current_state_def map_filter_simps Let_def)

lemma hash_signed_entry_ok: "hash_ok D (hash_signed_entry D e)"
  by (simp add: hash_ok_def hash_signed_entry_def with_hash_def compute_cid_string_def)

lemma sign_local_entry_verified:
  "sign_local_entry D ol payload kp = Inr e \<Longrightarrow> \<exists>hashed. hash_ok D hashed \<and> verify_entry D ol hashed = Inr e"
  by (auto simp: sign_local_entry_def result_simps Let_def intro: hash_signed_entry_ok)

lemma append_Inr:
  assumes "append_entry_with_access D ol payload kp = Inr (ol', e, access)"
  obtains ol2 where "sign_local_entry D ol payload kp = Inr e" "refresh_access_state (fst (insert_entry ol e)) [e] = (ol2, access)"
    "ol' = refresh_current_state ol2 (oset_of (ac_keys access @ ve_state_keys e))"
proof -
  from assms obtain e' where e': "sign_local_entry D ol payload kp = Inr e'"
    by (auto simp: append_entry_with_access_def result_simps)
  obtain ol2 acc where r: "refresh_access_state (fst (insert_entry ol e')) [e'] = (ol2, acc)" by (meson surj_pair)
  have "(refresh_current_state ol2 (oset_of (ac_keys acc @ ve_state_keys e')), e', acc) = (ol', e, access)"
    using assms e' r by (auto simp: append_entry_with_access_def Let_def)
  then have "e' = e" "acc = access" "ol' = refresh_current_state ol2 (oset_of (ac_keys acc @ ve_state_keys e'))" by auto
  with that e' r show thesis by simp
qed

lemma append_ok:
  assumes ok: "oplog_ok D ol" and inj: "inj (multihash_of_digest D)"
    and app: "append_entry_with_access D ol payload kp = Inr (ol', e, access)"
    and new: "omap_get (ol_entries ol) (he_hash e) = None"
  shows "oplog_ok D ol'" "extended D ol (fst (insert_entry ol e)) [e]"
    "entries_of ol' = (entries_of ol)(he_hash e \<mapsto> e)" "ol_chain ol' = ol_chain ol"
proof -
  from append_Inr[OF app] obtain ol2 where a: "sign_local_entry D ol payload kp = Inr e"
    "refresh_access_state (fst (insert_entry ol e)) [e] = (ol2, access)"
    "ol' = refresh_current_state ol2 (oset_of (ac_keys access @ ve_state_keys e))" by blast
  from sign_local_entry_verified[OF a(1)] obtain hashed where h: "hash_ok D hashed" "verify_entry D ol hashed = Inr e" by blast
  then have "he_hash hashed = he_hash e" by (auto simp: verify_entry_Inr)
  then have ins: "insertable D ol e" using verify_insertable[OF _ h(2,1)] ok new by (simp add: oplog_ok_def)
  have st: "structure_ok D ol" using ok by (simp add: oplog_ok_def)
  show ext: "extended D ol (fst (insert_entry ol e)) [e]"
    by (rule extended_insert[OF st ins extended_refl[OF insert_entry_ok[OF st ins]]])
  show "oplog_ok D ol'" unfolding a(3) by (rule refresh_ok[OF ext inj ok a(2)]) auto
  show "entries_of ol' = (entries_of ol)(he_hash e \<mapsto> e)" "ol_chain ol' = ol_chain ol"
    using insert_entry_fields[OF new] refresh_access_fields[where ol = "fst (insert_entry ol e)" and added = "[e]"] a(2,3)
    by (simp_all add: refresh_current_fields)
qed

lemma reachable_ok: "reachable D ol \<Longrightarrow> inj (multihash_of_digest D) \<Longrightarrow> oplog_ok D ol"
  by (induction rule: reachable.induct) (auto intro: create_oplog_ok append_ok insert_blocks_ok)

lemma merge_chain: "oplog_ok D ol \<Longrightarrow> inj (multihash_of_digest D) \<Longrightarrow> ol_chain (fst (merge_entries D ol blocks)) = ol_chain ol"
  using insert_blocks_ok(2)[of D ol blocks] by (auto simp: extended_def agree_on_def)

section \<open>Order of a merge\<close>

lemma compare_strings_laws:
  "compare_strings a b = 0 \<longleftrightarrow> a = b" "compare_strings a b < 0 \<longleftrightarrow> 0 < compare_strings b a"
  "compare_strings a b \<le> 0 \<longleftrightarrow> a \<le> b"
  by (auto simp: compare_strings_def)

interpretation string_order: comparator compare_strings "\<lambda>a. a"
  by unfold_locales (auto simp: compare_strings_laws)

interpretation merge_order: comparator compare_merge "\<lambda>e. (e_time e, he_hash e)"
  by unfold_locales
     (auto simp: compare_merge_def Let_def compare_strings_laws split: if_splits)

text \<open>Two heads are ordered by clock, latest first, and then by hash; equal ones are never compared.\<close>

lemma decode_blocks_cong:
  assumes "set bs = set bs'"
  shows "set (snd (decode_blocks D ol bs)) = set (snd (decode_blocks D ol bs'))"
  using assms by (simp add: set_decode_blocks)

text \<open>Admitting a sorted list with repetitions admits each entry once.\<close>

lemma admit_all_twice:
  assumes "\<And>ol h e. admit ol h = Inr e \<Longrightarrow> he_hash e = he_hash h"
  shows "fst (admit_all admit ol (x # x # xs)) = fst (admit_all admit ol (x # xs))"
    "fst (snd (admit_all admit ol (x # x # xs))) = fst (snd (admit_all admit ol (x # xs)))"
proof -
  have ins: "omap_has (ol_entries (fst (insert_entry ol e))) (he_hash e)" for e
    by (simp add: insert_entry_def Let_def case_prod_unfold ordered_simps)
  have "fst (admit_all admit ol (x # x # xs)) = fst (admit_all admit ol (x # xs)) \<and>
      fst (snd (admit_all admit ol (x # x # xs))) = fst (snd (admit_all admit ol (x # xs)))"
  proof (cases "omap_has (ol_entries ol) (he_hash x)")
    case False
    show ?thesis
    proof (cases "admit ol x")
      case (Inr e)
      then show ?thesis using False ins[of e] assms[OF Inr] by (simp add: Let_def case_prod_unfold)
    qed (use False in \<open>simp add: Let_def case_prod_unfold\<close>)
  qed simp
  then show "fst (admit_all admit ol (x # x # xs)) = fst (admit_all admit ol (x # xs))"
    "fst (snd (admit_all admit ol (x # x # xs))) = fst (snd (admit_all admit ol (x # xs)))" by blast+
qed

lemma admit_all_cong_tail:
  assumes "\<And>ol. fst (admit_all admit ol xs) = fst (admit_all admit ol ys) \<and>
    fst (snd (admit_all admit ol xs)) = fst (snd (admit_all admit ol ys))"
  shows "fst (admit_all admit ol (x # xs)) = fst (admit_all admit ol (x # ys)) \<and>
    fst (snd (admit_all admit ol (x # xs))) = fst (snd (admit_all admit ol (x # ys)))"
  using assms by (cases "admit ol x") (simp_all add: Let_def case_prod_unfold)

lemma admit_all_remdups_adj:
  assumes "\<And>ol h e. admit ol h = Inr e \<Longrightarrow> he_hash e = he_hash h"
  shows "fst (admit_all admit ol hs) = fst (admit_all admit ol (remdups_adj hs)) \<and>
    fst (snd (admit_all admit ol hs)) = fst (snd (admit_all admit ol (remdups_adj hs)))"
proof (induction hs arbitrary: ol rule: remdups_adj.induct)
  case (3 x y xs)
  show ?case
  proof (cases "x = y")
    case True
    then show ?thesis using "3.IH"(1)[OF True] admit_all_twice[OF assms, where x = y and xs = xs] by auto
  next
    case False
    then show ?thesis using admit_all_cong_tail[OF "3.IH"(2)[OF False]] by simp
  qed
qed auto

context comparator begin

lemma sorted_remdups_adj: "sorted_wrt (\<lambda>a b. cmp a b \<le> 0) xs \<Longrightarrow> sorted_wrt (\<lambda>a b. cmp a b \<le> 0) (remdups_adj xs)"
  by (induction xs rule: remdups_adj.induct) auto

lemma distinct_remdups_adj_sorted:
  "sorted_wrt (\<lambda>a b. cmp a b \<le> 0) xs \<Longrightarrow> inj_on key (set xs) \<Longrightarrow> distinct (remdups_adj xs)"
proof (induction xs rule: remdups_adj.induct)
  case (3 x y xs)
  show ?case
  proof (cases "x = y")
    case False
    have "x \<notin> set (y # xs)"
    proof
      assume "x \<in> set (y # xs)"
      with 3(3) False have "cmp x y \<le> 0" "cmp y x \<le> 0" by auto
      then have "key x = key y" by (rule cmp_eq)
      with 3(4) False show False by (auto dest: inj_onD)
    qed
    moreover have "distinct (remdups_adj (y # xs))"
      by (rule 3(2)[OF False]) (use 3(3,4) in \<open>auto intro: inj_on_subset\<close>)
    ultimately show ?thesis using False by simp
  qed (use 3 in \<open>auto simp: inj_on_def\<close>)
qed auto

lemma sort_remdups_cong:
  assumes "set xs = set ys" "inj_on key (set xs)"
  shows "remdups_adj (sort_by cmp xs) = remdups_adj (sort_by cmp ys)"
  by (rule sorted_unique)
     (use assms in \<open>auto intro!: sorted_remdups_adj sorted_sort_by distinct_remdups_adj_sorted\<close>)

end

lemma verify_hash: "verify_entry D ol h = Inr e \<Longrightarrow> he_hash e = he_hash h"
  by (auto simp: verify_entry_Inr)

lemma merge_cong:
  assumes "set bs = set bs'" "inj_on he_hash (set (snd (decode_blocks D ol bs)))"
  shows "fst (merge_entries D ol bs) = fst (merge_entries D ol bs')"
    "mr_merged (snd (merge_entries D ol bs)) = mr_merged (snd (merge_entries D ol bs'))"
    "mr_access (snd (merge_entries D ol bs)) = mr_access (snd (merge_entries D ol bs'))"
proof -
  let ?s = "\<lambda>bs. sort_by compare_merge (snd (decode_blocks D ol bs))"
  have "inj_on (\<lambda>e. (e_time e, he_hash e)) (set (snd (decode_blocks D ol bs)))"
    using assms(2) by (auto simp: inj_on_def)
  from merge_order.sort_remdups_cong[OF decode_blocks_cong[OF assms(1)] this]
  have "remdups_adj (?s bs) = remdups_adj (?s bs')" .
  with admit_all_remdups_adj[of "verify_entry D" ol "?s bs"] admit_all_remdups_adj[of "verify_entry D" ol "?s bs'"] verify_hash
  have "fst (admit_all (verify_entry D) ol (?s bs)) = fst (admit_all (verify_entry D) ol (?s bs'))"
    "fst (snd (admit_all (verify_entry D) ol (?s bs))) = fst (snd (admit_all (verify_entry D) ol (?s bs')))" by auto
  then show "fst (merge_entries D ol bs) = fst (merge_entries D ol bs')"
    "mr_merged (snd (merge_entries D ol bs)) = mr_merged (snd (merge_entries D ol bs'))"
    "mr_access (snd (merge_entries D ol bs)) = mr_access (snd (merge_entries D ol bs'))"
    by (simp_all add: merge_entries_def insert_blocks_def Let_def case_prod_unfold)
qed

section \<open>Acceptance depends on the causal past only\<close>

lemma agree_intro:
  assumes "structure_ok D a" "structure_ok D b" "ol_chain a = ol_chain b" "\<forall>h \<in> P. entries_of a h = entries_of b h"
    "parent_closed (entries_of a) P"
  shows "agree_on a b P"
  using assms structure_okD(1,2) unfolding agree_on_def by blast

lemma verify_local:
  assumes ok: "structure_ok D ol" "structure_ok D ol'" and inj: "inj (multihash_of_digest D)"
    and agree: "agree_on ol ol' P" and ns: "set (parents hashed) \<subseteq> P"
  shows "verify_entry D ol hashed = verify_entry D ol' hashed"
proof (rule verify_agree[OF agree structure_okD(3)[OF ok(1)] structure_okD(3)[OF ok(2)] ns])
  have "\<forall>r \<in> set (past_revocations ol (parents hashed)). entries_of ol (he_hash r) = Some r"
    using past_revocations_agree(4)[OF agree structure_okD(3)[OF ok(1)] structure_okD(3)[OF ok(2)] ns]
    by (auto simp: held_in_def)
  then show "inj_on state_key (set (past_revocations ol (parents hashed)))" by (rule structure_inj[OF ok(1) inj])
qed

end
