(* ===== verification/Replicas.thy ===== *)
theory Replicas
  imports Convergence
begin

text \<open>
  Replicas of one library: entries one replica accepted are accepted by every other, whatever it
  holds already, so replicas that exchange their entries hold the same entries and compute the same
  state, complete batches commute, and a restart restores what was held.
\<close>

section \<open>Accepting what another replica accepted\<close>

lemma common_agree:
  assumes "structure_ok D s" "structure_ok D a" "ol_chain s = ol_chain a"
    "\<forall>h x y. entries_of s h = Some x \<and> entries_of a h = Some y \<longrightarrow> x = y"
  shows "agree_on s a (dom (entries_of s) \<inter> dom (entries_of a))"
proof (rule agree_intro[OF assms(1,2,3)])
  show same: "\<forall>h \<in> dom (entries_of s) \<inter> dom (entries_of a). entries_of s h = entries_of a h"
    using assms(4) by (metis IntE domD)
  show "parent_closed (entries_of s) (dom (entries_of s) \<inter> dom (entries_of a))"
    unfolding parent_closed_def
  proof (intro ballI allI impI subsetI)
    fix h e p assume h: "h \<in> dom (entries_of s) \<inter> dom (entries_of a)" "entries_of s h = Some e" "p \<in> set (parents e)"
    then have "entries_of a h = Some e" using bspec[OF same h(1)] by simp
    then show "p \<in> dom (entries_of s) \<inter> dom (entries_of a)"
      using dag_okD(2)[OF structure_okD(1)[OF assms(1)] h(2,3)] dag_okD(2)[OF structure_okD(1)[OF assms(2)] _ h(3)] by blast
  qed
qed

text \<open>
  The entries a run is about to admit: verified against the replica they come from, in merge order,
  and with what is held already closing the replica's entries.
\<close>

definition offered :: "deps \<Rightarrow> oplog \<Rightarrow> oplog \<Rightarrow> hashed_entry list \<Rightarrow> bool" where
  "offered D a s hs \<longleftrightarrow>
     (\<forall>h \<in> set hs. hash_ok D h \<and> (\<exists>e. verify_entry D a h = Inr e \<and> entries_of a (he_hash h) = Some e)) \<and>
     sorted_wrt (\<lambda>x y. compare_merge x y \<le> 0) hs \<and>
     dom (entries_of a) \<subseteq> dom (entries_of s) \<union> he_hash ` set hs"

lemma offered_parents:
  assumes "offered D a s (h # hs)"
  shows "set (parents h) \<subseteq> dom (entries_of s) \<inter> dom (entries_of a)"
proof
  fix p assume p: "p \<in> set (parents h)"
  from assms obtain e where "verify_entry D a h = Inr e" by (auto simp: offered_def)
  then have "assert_clock a h = Inr ()" by (auto simp: verify_entry_Inr)
  from assert_clock_parents[OF this p] obtain ep where ep: "entries_of a p = Some ep" "e_time ep < e_time h" by blast
  have "p \<notin> he_hash ` set (h # hs)"
  proof
    assume "p \<in> he_hash ` set (h # hs)"
    then obtain g where g: "g \<in> set (h # hs)" "p = he_hash g" by blast
    then obtain x where "verify_entry D a g = Inr x" "entries_of a p = Some x" using assms by (auto simp: offered_def)
    then have "e_time g < e_time h" using ep by (auto simp: verify_entry_Inr)
    moreover have "e_time h \<le> e_time g"
      using assms g(1) by (auto simp: offered_def compare_merge_def Let_def split: if_splits)
    ultimately show False by simp
  qed
  with ep(1) assms show "p \<in> dom (entries_of s) \<inter> dom (entries_of a)" by (auto simp: offered_def)
qed

lemma offered_tail:
  "offered D a s (h # hs) \<Longrightarrow> insert (he_hash h) (dom (entries_of s)) \<subseteq> dom (entries_of s') \<Longrightarrow> offered D a s' hs"
  by (simp add: offered_def) blast

lemma admit_complete:
  assumes inj: "inj (multihash_of_digest D)" and a: "structure_ok D a"
    and admit: "\<And>s h e. verify_entry D s h = Inr e \<Longrightarrow> admit s h = Inr e"
  shows "structure_ok D s \<Longrightarrow> ol_chain s = ol_chain a \<Longrightarrow>
    \<forall>h x y. entries_of s h = Some x \<and> entries_of a h = Some y \<longrightarrow> x = y \<Longrightarrow> offered D a s hs \<Longrightarrow>
    \<exists>s1 m. admit_all admit s hs = (s1, m, []) \<and> extended D s s1 m \<and> entries_of s1 = entries_of a ++ entries_of s"
proof (induction hs arbitrary: s)
  case Nil
  have "dom (entries_of a) \<subseteq> dom (entries_of s)" using Nil.prems(4) by (simp add: offered_def)
  then have "entries_of a ++ entries_of s = entries_of s" by (auto simp: fun_eq_iff map_add_def split: option.splits)
  with extended_refl[OF Nil.prems(1)] show ?case by simp
next
  case (Cons h hs)
  show ?case
  proof (cases "entries_of s (he_hash h)")
    case (Some e)
    have "offered D a s hs" by (rule offered_tail[OF Cons.prems(4)]) (use Some in auto)
    from Cons.IH[OF Cons.prems(1-3) this] show ?thesis using Some by simp
  next
    case None
    from Cons.prems(4) obtain e where e: "hash_ok D h" "verify_entry D a h = Inr e" "entries_of a (he_hash h) = Some e"
      by (auto simp: offered_def)
    have he: "he_hash e = he_hash h" by (rule verify_hash[OF e(2)])
    have v: "verify_entry D s h = Inr e"
      using verify_local[OF Cons.prems(1) a inj common_agree[OF Cons.prems(1) a Cons.prems(2,3)] offered_parents[OF Cons.prems(4)]]
        e(2) by simp
    have ins: "insertable D s e" by (rule verify_insertable[OF Cons.prems(1) v e(1) None])
    have new: "entries_of s (he_hash e) = None" using None he by simp
    let ?s = "fst (insert_entry s e)"
    note f = insert_entry_fields[OF new] and ok = insert_entry_ok[OF Cons.prems(1) ins]
    have "offered D a ?s hs" by (rule offered_tail[OF Cons.prems(4)]) (simp add: f(1) he)
    moreover have "\<forall>h x y. entries_of ?s h = Some x \<and> entries_of a h = Some y \<longrightarrow> x = y"
      using Cons.prems(3) e(3) he by (simp add: f(1))
    ultimately obtain s1 m where r: "admit_all admit ?s hs = (s1, m, [])" "extended D ?s s1 m"
      "entries_of s1 = entries_of a ++ entries_of ?s" using Cons.IH[OF ok] Cons.prems(2) by (auto simp: f(2))
    have "entries_of s1 = entries_of a ++ entries_of s"
      using r(3) e(3) he new by (auto simp: f(1) fun_eq_iff map_add_def split: option.splits)
    then show ?thesis using r(1) admit[OF v] None extended_insert[OF Cons.prems(1) ins r(2)] by simp
  qed
qed

section \<open>What a merge adds\<close>

lemma verify_extended:
  assumes "extended D s s1 m" "inj (multihash_of_digest D)" "verify_entry D s h = Inr e"
  shows "verify_entry D s1 h = Inr e"
proof -
  have "assert_clock s h = Inr ()" using assms(3) by (auto simp: verify_entry_Inr)
  then have "set (parents h) \<subseteq> dom (entries_of s)" using assert_clock_parents by blast
  from verify_local[OF extendedD(1,2)[OF assms(1)] assms(2) extendedD(3)[OF assms(1)] this] assms(3) show ?thesis by simp
qed

text \<open>Every admitted entry comes from one of the offered ones and verifies against the result.\<close>

lemma admit_all_origin:
  assumes inj: "inj (multihash_of_digest D)"
  shows "structure_ok D s \<Longrightarrow> \<forall>h \<in> set hs. hash_ok D h \<Longrightarrow> admit_all (verify_entry D) s hs = (s1, m, rejected) \<Longrightarrow> e \<in> set m \<Longrightarrow>
     \<exists>h \<in> set hs. verify_entry D s1 h = Inr e"
proof (induction hs arbitrary: s m rejected)
  case (Cons h hs)
  consider (skip) rejected' where "admit_all (verify_entry D) s hs = (s1, m, rejected')"
    | (admit) x m' where "verify_entry D s h = Inr x" "entries_of s (he_hash h) = None" "m = x # m'"
      "admit_all (verify_entry D) (fst (insert_entry s x)) hs = (s1, m', rejected)"
    using Cons.prems(3) by (auto split: if_splits sum.splits prod.splits)
  then show ?case
  proof cases
    case skip
    with Cons.IH[OF Cons.prems(1) _ skip Cons.prems(4)] Cons.prems(2) show ?thesis by auto
  next
    case admit
    have ins: "insertable D s x" by (rule verify_insertable[OF Cons.prems(1) admit(1) _ admit(2)]) (use Cons.prems(2) in simp)
    note ok = insert_entry_ok[OF Cons.prems(1) ins]
    have rest: "\<forall>h \<in> set hs. hash_ok D h" using Cons.prems(2) by simp
    show ?thesis
    proof (cases "e = x")
      case True
      have "extended D s s1 m" using extended_insert[OF Cons.prems(1) ins admit_all_extended[OF ok rest admit(4)]] admit(3) by simp
      from verify_extended[OF this inj admit(1)] True show ?thesis by auto
    next
      case False
      then have "e \<in> set m'" using Cons.prems(4) admit(3) by simp
      from Cons.IH[OF ok rest admit(4) this] show ?thesis by auto
    qed
  qed
qed simp

text \<open>A merge or a restore, in the parts its caller can see.\<close>

lemma insert_blocks_parts:
  assumes "admit_all admit s (sort_by compare_merge (snd (decode_blocks D s bs))) = (s1, m, refused)"
  shows "entries_of (fst (insert_blocks D admit s bs)) = entries_of s1" "ol_chain (fst (insert_blocks D admit s bs)) = ol_chain s1"
    "mr_merged (snd (insert_blocks D admit s bs)) = m"
    "mr_rejected (snd (insert_blocks D admit s bs)) = fst (decode_blocks D s bs) @ refused"
  using assms by (simp_all add: insert_blocks_def case_prod_unfold Let_def refresh_current_fields refresh_access_fields)

lemma insert_blocks_refreshed:
  assumes "admit_all admit s (sort_by compare_merge (snd (decode_blocks D s bs))) = (s1, m, refused)"
    "extended D s s1 m" "inj (multihash_of_digest D)" "oplog_ok D s"
  shows "oplog_ok D (fst (insert_blocks D admit s bs))"
proof -
  obtain s2 access where r: "refresh_access_state s1 m = (s2, access)" by (meson surj_pair)
  have "oplog_ok D (refresh_current_state s2 (fold oset_add (concat (map ve_state_keys m)) (ac_keys access)))"
    by (rule refresh_ok[OF assms(2-4) r]) (auto simp: set_fold_oset_add)
  then show ?thesis using assms(1) r by (simp add: insert_blocks_def case_prod_unfold Let_def)
qed

lemma insert_blocks_complete:
  assumes inj: "inj (multihash_of_digest D)" and a: "structure_ok D a" and s: "oplog_ok D s" "ol_chain s = ol_chain a"
    and admit: "\<And>s h e. verify_entry D s h = Inr e \<Longrightarrow> admit s h = Inr e"
    and compat: "\<forall>h x y. entries_of s h = Some x \<and> entries_of a h = Some y \<longrightarrow> x = y"
    and dec: "fst (decode_blocks D s bs) = []" and off: "offered D a s (sort_by compare_merge (snd (decode_blocks D s bs)))"
  shows "entries_of (fst (insert_blocks D admit s bs)) = entries_of a ++ entries_of s"
    and "mr_rejected (snd (insert_blocks D admit s bs)) = []" and "oplog_ok D (fst (insert_blocks D admit s bs))"
    and "ol_chain (fst (insert_blocks D admit s bs)) = ol_chain s"
proof -
  have st: "structure_ok D s" using s(1) by (simp add: oplog_ok_def)
  from admit_complete[where admit = admit, OF inj a admit st s(2) compat off] obtain s1 m where
    r: "admit_all admit s (sort_by compare_merge (snd (decode_blocks D s bs))) = (s1, m, [])" "extended D s s1 m"
      "entries_of s1 = entries_of a ++ entries_of s" by auto
  note p = insert_blocks_parts[OF r(1)]
  show "entries_of (fst (insert_blocks D admit s bs)) = entries_of a ++ entries_of s"
    "mr_rejected (snd (insert_blocks D admit s bs)) = []" using p(1,4) r(3) dec by simp_all
  show "ol_chain (fst (insert_blocks D admit s bs)) = ol_chain s"
    using p(2) extendedD(3)[OF r(2)] by (simp add: agree_on_def)
  show "oplog_ok D (fst (insert_blocks D admit s bs))" by (rule insert_blocks_refreshed[OF r(1,2) inj s(1)])
qed

lemma merge_parts:
  obtains s1 m refused where
    "admit_all (verify_entry D) ol (sort_by compare_merge (snd (decode_blocks D ol bs))) = (s1, m, refused)"
    "entries_of (fst (merge_entries D ol bs)) = entries_of s1" "ol_chain (fst (merge_entries D ol bs)) = ol_chain s1"
    "mr_merged (snd (merge_entries D ol bs)) = m"
    "mr_rejected (snd (merge_entries D ol bs)) = fst (decode_blocks D ol bs) @ refused"
proof -
  obtain s1 m refused where a: "admit_all (verify_entry D) ol (sort_by compare_merge (snd (decode_blocks D ol bs))) = (s1, m, refused)"
    by (meson prod_cases3)
  from that[OF a] insert_blocks_parts[OF a] show thesis by (simp add: merge_entries_def)
qed

lemma decoded_hash_ok: "h \<in> set (sort_by compare_merge (snd (decode_blocks D ol bs))) \<Longrightarrow> hash_ok D h"
  using set_decode_blocks[of D ol bs] decode_hash_ok by auto

lemma merge_agrees:
  assumes ok: "oplog_ok D ol" and inj: "inj (multihash_of_digest D)"
  shows "agree_on ol (fst (merge_entries D ol bs)) (dom (entries_of ol))"
proof -
  note m = insert_blocks_ok[OF ok inj, of bs]
  from m(2) obtain ol1 where e: "extended D ol ol1 (mr_merged (snd (merge_entries D ol bs)))"
    "entries_of ol1 = entries_of (fst (merge_entries D ol bs))" "ol_chain ol1 = ol_chain (fst (merge_entries D ol bs))" by blast
  show ?thesis
    by (rule agree_intro[of D]) (use ok m(1) e extendedD(3)[OF e(1)] in \<open>auto simp: oplog_ok_def agree_on_def\<close>)
qed

lemma merge_origin:
  assumes ok: "oplog_ok D ol" and inj: "inj (multihash_of_digest D)"
    and e: "entries_of (fst (merge_entries D ol bs)) h = Some e" "entries_of ol h = None"
  shows "\<exists>b \<in> set bs. \<exists>hx. decode_signed_entry D b = Inr hx \<and> he_hash hx = h \<and>
    verify_entry D (fst (merge_entries D ol bs)) hx = Inr e"
proof -
  from insert_blocks_ok[OF ok inj, of bs] obtain ol1 where x: "extended D ol ol1 (mr_merged (snd (merge_entries D ol bs)))"
    "entries_of ol1 = entries_of (fst (merge_entries D ol bs))" "oplog_ok D (fst (merge_entries D ol bs))" by blast
  obtain s1 m refused where p: "admit_all (verify_entry D) ol (sort_by compare_merge (snd (decode_blocks D ol bs))) = (s1, m, refused)"
    "entries_of (fst (merge_entries D ol bs)) = entries_of s1" "ol_chain (fst (merge_entries D ol bs)) = ol_chain s1"
    "mr_merged (snd (merge_entries D ol bs)) = m" using merge_parts[of D ol bs] by metis
  have st: "structure_ok D ol" using ok by (simp add: oplog_ok_def)
  have s1: "structure_ok D s1" using extendedD(2)[OF admit_all_extended[OF st _ p(1)]] decoded_hash_ok by blast
  have "e \<in> set m" using extendedD(6)[OF x(1), of h e] e x(2) p(4) by simp
  from admit_all_origin[OF inj st _ p(1) this] decoded_hash_ok obtain hx where
    hx: "hx \<in> set (snd (decode_blocks D ol bs))" "verify_entry D s1 hx = Inr e" by auto
  have "agree_on s1 (fst (merge_entries D ol bs)) UNIV"
    by (rule same_entries_agree[OF s1]) (simp_all add: p)
  from verify_local[OF s1 _ inj this] x(3) hx(2) have v: "verify_entry D (fst (merge_entries D ol bs)) hx = Inr e"
    by (simp add: oplog_ok_def)
  have "he_hash hx = h" using structure_okD(5)[of D "fst (merge_entries D ol bs)"] x(3) e(1) verify_hash[OF v] by (simp add: oplog_ok_def)
  with v hx(1) set_decode_blocks[of D ol bs] show ?thesis by blast
qed

lemma decode_hash: "decode_signed_entry D b = Inr hx \<Longrightarrow> he_hash hx = compute_cid_string D b"
  using decode_hash_ok decode_signed_entry_Inr unfolding hash_ok_def with_hash_def by (metis hashed_entry.select_convs(3))

lemma decode_blocks_rejected: "fst (decode_blocks D ol bs) = fst (decode_blocks D ol' bs)"
  by (induction bs) (auto simp: Let_def case_prod_unfold split: sum.splits)

lemma insert_entry_dom: "dom (entries_of (fst (insert_entry s e))) = insert (he_hash e) (dom (entries_of s))"
proof (cases "entries_of s (he_hash e)")
  case (Some x)
  then have "fst (insert_entry s e) = s" by (simp add: insert_entry_def)
  with Some show ?thesis by (auto simp: insert_absorb)
qed (simp add: insert_entry_fields(1))

lemma admit_all_dom: "admit_all admit s hs = (s1, m, rejected) \<Longrightarrow> dom (entries_of s) \<subseteq> dom (entries_of s1)"
proof (induction hs arbitrary: s m rejected)
  case (Cons h hs)
  consider rejected' where "admit_all admit s hs = (s1, m, rejected')"
    | e m' where "admit_all admit (fst (insert_entry s e)) hs = (s1, m', rejected)"
    using Cons.prems by (auto split: if_splits sum.splits prod.splits)
  then show ?case
  proof cases
    case 2
    from Cons.IH[OF this] show ?thesis by (simp add: insert_entry_dom)
  qed (rule Cons.IH)
qed simp

lemma admit_all_held:
  "admit_all (verify_entry D) s hs = (s1, m, []) \<Longrightarrow> h \<in> set hs \<Longrightarrow> he_hash h \<in> dom (entries_of s1)"
proof (induction hs arbitrary: s m)
  case (Cons x hs)
  consider (held) "he_hash x \<in> dom (entries_of s)" "admit_all (verify_entry D) s hs = (s1, m, [])"
    | (new) e m' where "verify_entry D s x = Inr e" "admit_all (verify_entry D) (fst (insert_entry s e)) hs = (s1, m', [])"
    using Cons.prems(1) by (auto split: if_splits sum.splits prod.splits)
  then show ?case
  proof cases
    case held
    then show ?thesis using Cons.IH[OF held(2)] Cons.prems(2) admit_all_dom[OF held(2)] by auto
  next
    case new
    then have "he_hash x \<in> dom (entries_of s1)" using admit_all_dom[OF new(2)] by (simp add: insert_entry_dom verify_hash)
    then show ?thesis using Cons.IH[OF new(2)] Cons.prems(2) by auto
  qed
qed simp

text \<open>Merging a complete batch after another one adds exactly its entries and rejects nothing.\<close>

lemma merge_complete_held:
  assumes ok: "oplog_ok D ol" and inj: "inj (multihash_of_digest D)" and hash: "inj_on (compute_cid_string D) (set cs)"
    and complete: "mr_rejected (snd (merge_entries D ol cs)) = []"
    and h: "c \<in> set cs" "decode_signed_entry D c = Inr h" "entries_of ol (he_hash h) = None"
  shows "\<exists>e. verify_entry D (fst (merge_entries D ol cs)) h = Inr e \<and> entries_of (fst (merge_entries D ol cs)) (he_hash h) = Some e"
proof -
  obtain s1 m where run: "admit_all (verify_entry D) ol (sort_by compare_merge (snd (decode_blocks D ol cs))) = (s1, m, [])"
    "entries_of (fst (merge_entries D ol cs)) = entries_of s1"
    using complete merge_parts[of D ol cs] by (metis append_is_Nil_conv)
  have "h \<in> set (sort_by compare_merge (snd (decode_blocks D ol cs)))" using h set_decode_blocks[of D ol cs] by auto
  from admit_all_held[OF run(1) this] obtain e where e: "entries_of (fst (merge_entries D ol cs)) (he_hash h) = Some e"
    using run(2) by auto
  from merge_origin[OF ok inj e h(3)] obtain b hx where b: "b \<in> set cs" "decode_signed_entry D b = Inr hx"
    "he_hash hx = he_hash h" "verify_entry D (fst (merge_entries D ol cs)) hx = Inr e" by blast
  have "b = c" using inj_onD[OF hash, of b c] b h decode_hash by simp
  with b h e show ?thesis by auto
qed

lemma merge_compatible:
  assumes ok: "oplog_ok D ol" and inj: "inj (multihash_of_digest D)"
    and hash: "inj_on (compute_cid_string D) (set bs \<union> set cs)"
    and x: "entries_of (fst (merge_entries D ol bs)) h = Some x" and y: "entries_of (fst (merge_entries D ol cs)) h = Some y"
  shows "x = y"
proof (cases "entries_of ol h")
  case None
  note chain = merge_chain[OF ok inj]
  obtain b hb where b: "b \<in> set bs" "decode_signed_entry D b = Inr hb" "he_hash hb = h"
    "verify_entry D (fst (merge_entries D ol bs)) hb = Inr x" using merge_origin[OF ok inj x None] by blast
  obtain c hc where c: "c \<in> set cs" "decode_signed_entry D c = Inr hc" "he_hash hc = h"
    "verify_entry D (fst (merge_entries D ol cs)) hc = Inr y" using merge_origin[OF ok inj y None] by blast
  have "b = c" using inj_onD[OF hash, of b c] b c decode_hash by simp
  with b c chain show ?thesis by (auto simp: verify_entry_Inr)
next
  case (Some z)
  then have "\<forall>bs. entries_of (fst (merge_entries D ol bs)) h = Some z"
    using merge_agrees[OF ok inj] unfolding agree_on_def by (metis domI)
  with x y show ?thesis by simp
qed

lemma merge_after:
  assumes ok: "oplog_ok D ol" and inj: "inj (multihash_of_digest D)"
    and hash: "inj_on (compute_cid_string D) (set bs \<union> set cs)"
    and complete: "mr_rejected (snd (merge_entries D ol cs)) = []"
  defines "ol1 \<equiv> fst (merge_entries D ol bs)" and "ol2 \<equiv> fst (merge_entries D ol cs)"
  shows "entries_of (fst (merge_entries D ol1 cs)) = entries_of ol2 ++ entries_of ol1"
    and "mr_rejected (snd (merge_entries D ol1 cs)) = []"
proof -
  have ok12: "oplog_ok D ol1" "oplog_ok D ol2" unfolding ol1_def ol2_def by (rule insert_blocks_ok(1)[OF ok inj])+
  have chain: "ol_chain ol1 = ol_chain ol2" using merge_chain[OF ok inj] by (simp add: ol1_def ol2_def)
  have sub: "dom (entries_of ol) \<subseteq> dom (entries_of ol1)"
    using merge_agrees[OF ok inj, of bs] unfolding agree_on_def ol1_def by (metis domIff subsetI)
  have dec: "fst (decode_blocks D ol1 cs) = []"
    using complete merge_parts[of D ol cs] decode_blocks_rejected[of D ol1 cs ol] by (metis append_is_Nil_conv)
  have compat: "\<forall>h x y. entries_of ol1 h = Some x \<and> entries_of ol2 h = Some y \<longrightarrow> x = y"
    using merge_compatible[OF ok inj hash] unfolding ol1_def ol2_def by blast
  have "offered D ol2 ol1 (sort_by compare_merge (snd (decode_blocks D ol1 cs)))"
    unfolding offered_def
  proof (intro conjI ballI merge_order.sorted_sort_by subsetI)
    fix h assume h: "h \<in> set (sort_by compare_merge (snd (decode_blocks D ol1 cs)))"
    then show "hash_ok D h" by (rule decoded_hash_ok)
    from h obtain c where "c \<in> set cs" "decode_signed_entry D c = Inr h" "entries_of ol (he_hash h) = None"
      using set_decode_blocks[of D ol1 cs] sub by auto
    from merge_complete_held[OF ok inj inj_on_subset[OF hash] complete this]
    show "\<exists>e. verify_entry D ol2 h = Inr e \<and> entries_of ol2 (he_hash h) = Some e" by (simp add: ol2_def)
  next
    fix h assume h: "h \<in> dom (entries_of ol2)"
    show "h \<in> dom (entries_of ol1) \<union> he_hash ` set (sort_by compare_merge (snd (decode_blocks D ol1 cs)))"
    proof (cases "entries_of ol1 h")
      case None
      then have "entries_of ol h = None" using sub by blast
      with h obtain b hx where "b \<in> set cs" "decode_signed_entry D b = Inr hx" "he_hash hx = h"
        using merge_origin[OF ok inj] unfolding ol2_def by blast
      with None show ?thesis using set_decode_blocks[of D ol1 cs] by auto
    qed auto
  qed
  from insert_blocks_complete[OF inj _ ok12(1) chain _ compat dec this] ok12(2)
  show "entries_of (fst (merge_entries D ol1 cs)) = entries_of ol2 ++ entries_of ol1"
    "mr_rejected (snd (merge_entries D ol1 cs)) = []" by (simp_all add: merge_entries_def oplog_ok_def)
qed

lemma merge_commutes:
  assumes ok: "oplog_ok D ol" and inj: "inj (multihash_of_digest D)"
    and hash: "inj_on (compute_cid_string D) (set bs \<union> set cs)"
    and complete: "mr_rejected (snd (merge_entries D ol bs)) = []" "mr_rejected (snd (merge_entries D ol cs)) = []"
  shows "entries_of (fst (merge_entries D (fst (merge_entries D ol bs)) cs)) =
    entries_of (fst (merge_entries D (fst (merge_entries D ol cs)) bs))"
proof -
  have hash': "inj_on (compute_cid_string D) (set cs \<union> set bs)" using hash by (simp add: Un_commute)
  show ?thesis
    unfolding merge_after(1)[OF ok inj hash complete(2)] merge_after(1)[OF ok inj hash' complete(1)]
    using merge_compatible[OF ok inj hash] by (auto simp: fun_eq_iff map_add_def split: option.splits)
qed

text \<open>The state a replica computes from a set of entries: two oplogs over the same entries agree in it.\<close>

definition same_state :: "oplog \<Rightarrow> oplog \<Rightarrow> bool" where
  "same_state a b \<longleftrightarrow> set (ol_heads a) = set (ol_heads b) \<and> (\<forall>k. omap_get (ol_current a) k = omap_get (ol_current b) k) \<and>
     set (ol_effective a) = set (ol_effective b) \<and> set (ol_inert a) = set (ol_inert b) \<and>
     set (ol_delegated a) = set (ol_delegated b) \<and>
     (\<forall>h. omap_get (ol_capabilities a) h = omap_get (ol_capabilities b) h)"

lemma same_entries_same_state:
  assumes ok: "oplog_ok D a" "oplog_ok D b" and inj: "inj (multihash_of_digest D)"
    and eq: "ol_chain a = ol_chain b" "entries_of a = entries_of b"
  shows "same_state a b"
proof -
  have st: "structure_ok D a" "structure_ok D b" and cur: "current_ok a" "current_ok b"
    and acc: "access_ok a" "access_ok b" using ok by (simp_all add: oplog_ok_def)
  have inert: "set (ol_inert a) = set (ol_inert b)" "set (ol_effective a) = set (ol_effective b)"
    using acc spec_cong[OF st inj eq] by (simp_all add: access_ok_def)
  have "live_set a k = live_set b k" for k using eq inert by (simp add: live_set_def)
  then have "resolve_key a k = resolve_key b k" for k by (rule resolve_key_cong[OF st inj])
  then have "omap_get (ol_current a) k = omap_get (ol_current b) k" for k using cur by (simp add: current_ok_def)
  moreover have "set (ol_heads a) = set (ol_heads b)" "set (ol_delegated a) = set (ol_delegated b)"
    "\<forall>h. omap_get (ol_capabilities a) h = omap_get (ol_capabilities b) h"
    using st eq by (simp_all add: structure_ok_def)
  ultimately show ?thesis using inert by (simp add: same_state_def)
qed

section \<open>Every held entry is stored as it was accepted\<close>

text \<open>An entry a peer holds was decoded from its bytes or signed by the peer itself.\<close>

definition stored :: "deps \<Rightarrow> hashed_entry \<Rightarrow> bool" where
  "stored D h \<longleftrightarrow> decode_signed_entry D (he_bytes h) = Inr h \<or> h = hash_signed_entry D (he_entry h)"

definition accepted :: "deps \<Rightarrow> oplog \<Rightarrow> bool" where
  "accepted D ol \<longleftrightarrow> (\<forall>g e. entries_of ol g = Some e \<longrightarrow> (\<exists>h. stored D h \<and> verify_entry D ol h = Inr e))"

text \<open>What an entry was accepted from stays so while the oplog grows.\<close>

lemma origin_extend:
  assumes acc: "\<forall>g e. entries_of ol g = Some e \<longrightarrow> (\<exists>h. Q e h \<and> verify_entry D ol h = Inr e)"
    and ok: "structure_ok D ol" "structure_ok D ol'" and inj: "inj (multihash_of_digest D)"
    and agree: "agree_on ol ol' (dom (entries_of ol))"
    and new: "\<And>g e. entries_of ol' g = Some e \<Longrightarrow> entries_of ol g = None \<Longrightarrow> \<exists>h. Q e h \<and> verify_entry D ol' h = Inr e"
  shows "\<forall>g e. entries_of ol' g = Some e \<longrightarrow> (\<exists>h. Q e h \<and> verify_entry D ol' h = Inr e)"
proof (intro allI impI)
  fix g e assume g: "entries_of ol' g = Some e"
  show "\<exists>h. Q e h \<and> verify_entry D ol' h = Inr e"
  proof (cases "entries_of ol g")
    case (Some x)
    then have "x = e" using g agree unfolding agree_on_def by (metis domI option.inject)
    with Some acc obtain h where h: "Q e h" "verify_entry D ol h = Inr e" by blast
    then have "set (parents h) \<subseteq> dom (entries_of ol)" using assert_clock_parents by (fastforce simp: verify_entry_Inr)
    from verify_local[OF ok inj agree this] h show ?thesis by auto
  qed (rule new[OF g])
qed

lemma decoded_stored: "decode_signed_entry D b = Inr h \<Longrightarrow> stored D h"
  using decode_signed_entry_Inr[of D b h] unfolding stored_def with_hash_def by (metis hashed_entry.select_convs(3))

lemma append_origin:
  assumes ok: "oplog_ok D ol" and inj: "inj (multihash_of_digest D)"
    and app: "append_entry_with_access D ol payload kp = Inr (ol', e, access)" and new: "omap_get (ol_entries ol) (he_hash e) = None"
    and acc: "\<forall>g e. entries_of ol g = Some e \<longrightarrow> (\<exists>h. Q e h \<and> verify_entry D ol h = Inr e)"
    and own: "\<And>u. verify_entry D ol (hash_signed_entry D u) = Inr e \<Longrightarrow> Q e (hash_signed_entry D u)"
  shows "\<forall>g e. entries_of ol' g = Some e \<longrightarrow> (\<exists>h. Q e h \<and> verify_entry D ol' h = Inr e)"
proof -
  note a = append_ok[OF ok inj app new]
  have st: "structure_ok D ol" "structure_ok D ol'" using ok a(1) by (simp_all add: oplog_ok_def)
  have agree: "agree_on ol ol' (dom (entries_of ol))"
    by (rule agree_intro[OF st a(4)[symmetric] _ parent_closed_dom[OF structure_okD(1)[OF st(1)]]])
       (use new a(3) in auto)
  obtain u where h: "verify_entry D ol (hash_signed_entry D u) = Inr e"
    using append_Inr[OF app] by (auto simp: sign_local_entry_def result_simps Let_def)
  then have "set (parents (hash_signed_entry D u)) \<subseteq> dom (entries_of ol)"
    using assert_clock_parents by (fastforce simp: verify_entry_Inr)
  from verify_local[OF st inj agree this] h have "verify_entry D ol' (hash_signed_entry D u) = Inr e" by simp
  with own[OF h] show ?thesis
    by (intro origin_extend[OF acc st inj agree]) (use a(3) in \<open>auto split: if_splits\<close>)
qed

lemma merge_origin_extend:
  assumes ok: "oplog_ok D ol" and inj: "inj (multihash_of_digest D)"
    and acc: "\<forall>g e. entries_of ol g = Some e \<longrightarrow> (\<exists>h. Q e h \<and> verify_entry D ol h = Inr e)"
    and own: "\<And>b h e. b \<in> set blocks \<Longrightarrow> decode_signed_entry D b = Inr h \<Longrightarrow> he_bytes e = he_bytes h \<Longrightarrow> Q e h"
  shows "\<forall>g e. entries_of (fst (merge_entries D ol blocks)) g = Some e \<longrightarrow> (\<exists>h. Q e h \<and> verify_entry D (fst (merge_entries D ol blocks)) h = Inr e)"
proof -
  have st: "structure_ok D ol" "structure_ok D (fst (merge_entries D ol blocks))"
    using ok insert_blocks_ok(1)[OF ok inj] by (simp_all add: oplog_ok_def)
  show ?thesis
  proof (rule origin_extend[OF acc st inj merge_agrees[OF ok inj]])
    fix g e assume "entries_of (fst (merge_entries D ol blocks)) g = Some e" "entries_of ol g = None"
    from merge_origin[OF ok inj this] obtain b h where h: "b \<in> set blocks" "decode_signed_entry D b = Inr h"
      "verify_entry D (fst (merge_entries D ol blocks)) h = Inr e" by blast
    then have "he_bytes e = he_bytes h" by (auto simp: verify_entry_Inr)
    with own[OF h(1,2)] h(3) show "\<exists>h. Q e h \<and> verify_entry D (fst (merge_entries D ol blocks)) h = Inr e" by blast
  qed
qed

lemma reachable_accepted: "reachable D ol \<Longrightarrow> inj (multihash_of_digest D) \<Longrightarrow> accepted D ol"
proof (induction rule: reachable.induct)
  case (created chain)
  show ?case by (simp add: accepted_def create_oplog_def)
next
  case (appended ol payload kp ol' e access)
  have "stored D (hash_signed_entry D u)" for u by (simp add: stored_def hash_signed_entry_def with_hash_def)
  then show ?case unfolding accepted_def
    by (intro append_origin[OF reachable_ok[OF appended.hyps(1) appended.prems] appended.prems appended.hyps(2,3)])
       (use appended.IH[OF appended.prems] in \<open>simp_all add: accepted_def\<close>)
next
  case (merged ol blocks)
  show ?case unfolding accepted_def
    by (rule merge_origin_extend[OF reachable_ok[OF merged.hyps merged.prems] merged.prems])
       (use merged.IH[OF merged.prems] decoded_stored in \<open>auto simp: accepted_def\<close>)
qed

text \<open>The blocks a replica stores, and that the codec decodes what it encodes of them (the payload of an entry read as
  the normal form of its objects, in which the codec returns it).\<close>

definition blocks_of :: "oplog \<Rightarrow> bytes list" where
  "blocks_of ol = map he_bytes (omap_values (ol_entries ol))"

definition codec_ok :: "deps \<Rightarrow> oplog \<Rightarrow> bool" where
  "codec_ok D ol \<longleftrightarrow> (\<forall>e \<in> set (omap_values (ol_entries ol)).
     cbor_decode D (cbor_encode D (signed_fields (he_entry e))) = Some (signed_fields (he_entry e)))"

lemma shape_signed_ok: "assert_signed_entry_shape (signed_fields e) = Inr u \<Longrightarrow> signed_ok e"
proof -
  assume a: "assert_signed_entry_shape (signed_fields e) = Inr u"
  have "js_strings xs = js_strings ys \<longleftrightarrow> xs = ys" for xs ys by (auto simp: js_strings_def inj_map_eq_map inj_def)
  moreover have "is_compressed_pubkey_string (clock_id c) \<and> int (clock_time c) \<le> MAX_SAFE_INTEGER"
    if "assert_clock_shape (js_clock c) = Inr d" for c d
  proof -
    have "d = c" using that by (auto simp: assert_clock_shape_def js_clock_def as_uint_Some_iff split: if_splits option.splits)
    with assert_clock_shape_ok[OF that] show ?thesis by simp
  qed
  ultimately show ?thesis using a
    by (auto simp: assert_signed_entry_shape_def signed_fields_def assert_unsigned_fields_def result_simps signed_ok_def unsigned_ok_def
        split: if_splits option.splits)
qed

lemma stored_decodes:
  assumes "stored D h" "check_entry D chain h = Inr p"
    and codec: "cbor_decode D (cbor_encode D (signed_fields (he_entry h))) = Some (signed_fields (he_entry h))"
  shows "decode_signed_entry D (he_bytes h) = Inr h"
proof (cases "decode_signed_entry D (he_bytes h) = Inr h")
  case False
  then have hs: "h = hash_signed_entry D (he_entry h)" using assms(1) by (simp add: stored_def)
  from assms(2) have "assert_signed_entry_size (he_bytes h) = Inr ()" "signed_ok (he_entry h)"
    by (auto simp: check_entry_def result_simps dest: shape_signed_ok)
  moreover have bytes: "he_bytes h = cbor_encode D (signed_fields (he_entry h))"
    by (subst hs) (simp add: hash_signed_entry_def with_hash_def encode_canonical_def)
  moreover have "h = with_hash D (he_entry h) (he_bytes h)"
    using hs unfolding hash_signed_entry_def bytes by (simp add: encode_canonical_def)
  ultimately show ?thesis using codec by (simp add: decode_signed_entry_def decode_canonical_def)
qed simp

lemma held_decodes:
  assumes "accepted D ol" "codec_ok D ol" "entries_of ol g = Some e"
  shows "\<exists>h. decode_signed_entry D (he_bytes e) = Inr h \<and> verify_entry D ol h = Inr e"
proof -
  from assms(1,3) obtain h where h: "stored D h" "verify_entry D ol h = Inr e" by (auto simp: accepted_def)
  then obtain p where eq: "he_bytes e = he_bytes h" "he_entry e = he_entry h" "check_entry D (ol_chain ol) h = Inr p"
    by (auto simp: verify_entry_Inr)
  have "cbor_decode D (cbor_encode D (signed_fields (he_entry h))) = Some (signed_fields (he_entry h))"
    using assms(2,3) eq(2) by (force simp: codec_ok_def dest!: map_of_SomeD)
  from stored_decodes[OF h(1) eq(3) this] h(2) eq(1) show ?thesis by auto
qed

section \<open>Exchanging everything\<close>

text \<open>A replica whose blocks can be read again by whoever receives them.\<close>

definition replica_ok :: "deps \<Rightarrow> oplog \<Rightarrow> bool" where
  "replica_ok D ol \<longleftrightarrow> oplog_ok D ol \<and> distinct (omap_keys (ol_entries ol)) \<and>
     (\<forall>g e. entries_of ol g = Some e \<longrightarrow> (\<exists>h. decode_signed_entry D (he_bytes e) = Inr h \<and> verify_entry D ol h = Inr e))"

lemma insert_entry_distinct: "distinct (omap_keys (ol_entries s)) \<Longrightarrow> distinct (omap_keys (ol_entries (fst (insert_entry s e))))"
  by (simp add: insert_entry_def Let_def case_prod_unfold distinct_update)

lemma admit_all_distinct:
  "admit_all admit s hs = (s1, m, rejected) \<Longrightarrow> distinct (omap_keys (ol_entries s)) \<Longrightarrow> distinct (omap_keys (ol_entries s1))"
  by (induction hs arbitrary: s m rejected)
     (auto split: if_splits sum.splits prod.splits intro: insert_entry_distinct)

lemma append_distinct:
  assumes "append_entry_with_access D ol payload kp = Inr (ol', e, access)" "distinct (omap_keys (ol_entries ol))"
  shows "distinct (omap_keys (ol_entries ol'))"
  using append_Inr[OF assms(1)] insert_entry_distinct[OF assms(2), of e]
    refresh_access_fields(1)[of "fst (insert_entry ol e)" "[e]"] by (metis fst_conv refresh_current_fields(1))

lemma merge_distinct:
  assumes "distinct (omap_keys (ol_entries ol))"
  shows "distinct (omap_keys (ol_entries (fst (merge_entries D ol blocks))))"
proof -
  obtain s1 m refused where r: "admit_all (verify_entry D) ol (sort_by compare_merge (snd (decode_blocks D ol blocks))) = (s1, m, refused)"
    by (meson prod_cases3)
  have "ol_entries (fst (merge_entries D ol blocks)) = ol_entries s1"
    using r by (simp add: merge_entries_def insert_blocks_def case_prod_unfold Let_def refresh_current_fields refresh_access_fields)
  with admit_all_distinct[OF r assms] show ?thesis by simp
qed

lemma reachable_distinct: "reachable D ol \<Longrightarrow> distinct (omap_keys (ol_entries ol))"
  by (induction rule: reachable.induct) (simp add: create_oplog_def, auto intro: append_distinct merge_distinct)

lemma replica_okI: "reachable D ol \<Longrightarrow> inj (multihash_of_digest D) \<Longrightarrow> codec_ok D ol \<Longrightarrow> replica_ok D ol"
  using held_decodes[OF reachable_accepted] by (auto simp: replica_ok_def reachable_ok reachable_distinct)

lemma replica_entry: "replica_ok D ol \<Longrightarrow> (g, e) \<in> set (ol_entries ol) \<Longrightarrow> map_of (ol_entries ol) g = Some e"
  by (simp add: replica_ok_def)

lemma replica_held:
  assumes "replica_ok D ol" "entries_of ol g = Some e"
  shows "he_bytes e \<in> set (blocks_of ol)" "he_hash e = g" "compute_cid_string D (he_bytes e) = g"
    "\<exists>h. decode_signed_entry D (he_bytes e) = Inr h \<and> he_hash h = g \<and> verify_entry D ol h = Inr e"
proof -
  have ok: "structure_ok D ol" using assms(1) by (simp add: replica_ok_def oplog_ok_def)
  show "he_bytes e \<in> set (blocks_of ol)" using assms(2) by (force simp: blocks_of_def dest!: map_of_SomeD)
  show g: "he_hash e = g" by (rule structure_okD(5)[OF ok assms(2)])
  show "compute_cid_string D (he_bytes e) = g" using structure_okD(4)[OF ok assms(2)] g by (simp add: hash_ok_def)
  from assms obtain h where h: "decode_signed_entry D (he_bytes e) = Inr h" "verify_entry D ol h = Inr e"
    unfolding replica_ok_def by blast
  with verify_hash[OF h(2)] g show "\<exists>h. decode_signed_entry D (he_bytes e) = Inr h \<and> he_hash h = g \<and> verify_entry D ol h = Inr e"
    by auto
qed

lemma replica_block:
  assumes "replica_ok D ol" "b \<in> set (blocks_of ol)" "decode_signed_entry D b = Inr h"
  shows "\<exists>e. verify_entry D ol h = Inr e \<and> entries_of ol (he_hash h) = Some e"
proof -
  from assms(2) obtain g e where ge: "(g, e) \<in> set (ol_entries ol)" "b = he_bytes e" by (auto simp: blocks_of_def)
  have "map_of (ol_entries ol) g = Some e" by (rule replica_entry[OF assms(1) ge(1)])
  from replica_held(4)[OF assms(1) this] this assms(3) ge(2) show ?thesis by auto
qed

lemma replicas_compatible:
  assumes "replica_ok D s" "replica_ok D a" "ol_chain s = ol_chain a"
    "inj_on (compute_cid_string D) (set (blocks_of a) \<union> set (blocks_of s))"
    "entries_of s h = Some x" "entries_of a h = Some y"
  shows "x = y"
proof -
  note x = replica_held[OF assms(1,5)] and y = replica_held[OF assms(2,6)]
  have "he_bytes x = he_bytes y" using inj_onD[OF assms(4), of "he_bytes x" "he_bytes y"] x(1,3) y(1,3) by simp
  moreover from x(4) obtain hx where "decode_signed_entry D (he_bytes x) = Inr hx" "verify_entry D s hx = Inr x" by blast
  moreover from y(4) obtain hy where "decode_signed_entry D (he_bytes y) = Inr hy" "verify_entry D a hy = Inr y" by blast
  ultimately show ?thesis using assms(3) by (simp add: verify_entry_Inr) auto
qed

lemma decode_blocks_all: "\<forall>b \<in> set bs. \<exists>h. decode_signed_entry D b = Inr h \<Longrightarrow> fst (decode_blocks D s bs) = []"
  by (induction bs) (auto simp: Let_def case_prod_unfold split: sum.splits)

lemma replica_insert:
  assumes inj: "inj (multihash_of_digest D)" and a: "replica_ok D a" and s: "replica_ok D s" "ol_chain s = ol_chain a"
    and hash: "inj_on (compute_cid_string D) (set (blocks_of a) \<union> set (blocks_of s))"
    and admit: "\<And>s h e. verify_entry D s h = Inr e \<Longrightarrow> admit s h = Inr e" and bs: "set bs = set (blocks_of a)"
  shows "entries_of (fst (insert_blocks D admit s bs)) = entries_of a ++ entries_of s"
    and "mr_rejected (snd (insert_blocks D admit s bs)) = []" and "oplog_ok D (fst (insert_blocks D admit s bs))"
    and "ol_chain (fst (insert_blocks D admit s bs)) = ol_chain s"
proof -
  have st: "structure_ok D a" "oplog_ok D s" using a s(1) by (simp_all add: replica_ok_def oplog_ok_def)
  have compat: "\<forall>h x y. entries_of s h = Some x \<and> entries_of a h = Some y \<longrightarrow> x = y"
    using replicas_compatible[OF s(1) a s(2) hash] by blast
  have "\<exists>h. decode_signed_entry D b = Inr h" if "b \<in> set bs" for b
  proof -
    from that obtain g e where "(g, e) \<in> set (ol_entries a)" "b = he_bytes e" unfolding bs by (auto simp: blocks_of_def)
    then show ?thesis using replica_held(4)[OF a replica_entry[OF a]] by blast
  qed
  then have dec: "fst (decode_blocks D s bs) = []" by (intro decode_blocks_all) blast
  have off: "offered D a s (sort_by compare_merge (snd (decode_blocks D s bs)))"
    unfolding offered_def
  proof (intro conjI ballI merge_order.sorted_sort_by subsetI)
    fix h assume h: "h \<in> set (sort_by compare_merge (snd (decode_blocks D s bs)))"
    then show "hash_ok D h" by (rule decoded_hash_ok)
    from h obtain b where "b \<in> set (blocks_of a)" "decode_signed_entry D b = Inr h" using set_decode_blocks[of D s bs] bs by auto
    then show "\<exists>e. verify_entry D a h = Inr e \<and> entries_of a (he_hash h) = Some e" by (rule replica_block[OF a])
  next
    fix g assume "g \<in> dom (entries_of a)"
    then obtain e where e: "entries_of a g = Some e" by blast
    then show "g \<in> dom (entries_of s) \<union> he_hash ` set (sort_by compare_merge (snd (decode_blocks D s bs)))"
      using replica_held(1,4)[OF a e] set_decode_blocks[of D s bs] bs by (cases "entries_of s g") auto
  qed
  note r = insert_blocks_complete[where admit = admit, OF inj st(1,2) s(2) admit compat dec off]
  show "entries_of (fst (insert_blocks D admit s bs)) = entries_of a ++ entries_of s"
    "mr_rejected (snd (insert_blocks D admit s bs)) = []" "oplog_ok D (fst (insert_blocks D admit s bs))"
    "ol_chain (fst (insert_blocks D admit s bs)) = ol_chain s" by (rule r; assumption)+
qed

end
