(* ===== verification/Sample_Log.thy ===== *)
theory Sample_Log
  imports Replicas
begin

text \<open>
  Two concrete libraries the properties are evaluated on, over the sample codec and signature
  scheme: one entry of the owner, and a capability of the owner with a write of its grantee.
\<close>

section \<open>Signing\<close>

lemma hex_utf8 [simp]: "map (\<lambda>b. char_of (unat b)) (utf8ToBytes s) = s" "utf8ToBytes (map (\<lambda>b. char_of (unat b)) bs) = bs"
proof -
  have "char_of (unat (of_nat (of_char c) :: byte)) = c" for c :: char
    by (simp add: unat_of_nat of_char_mod_256 char_of_mod_256 take_bit_eq_mod)
  then show "map (\<lambda>b. char_of (unat b)) (utf8ToBytes s) = s" by (simp add: utf8ToBytes_def comp_def)
  have "of_nat (of_char (char_of (unat b) :: char)) = b" for b :: byte
    using unsigned_less[of b, where 'a = nat] by simp
  then show "utf8ToBytes (map (\<lambda>b. char_of (unat b)) bs) = bs" by (simp add: utf8ToBytes_def comp_def)
qed

definition sample_unsigned :: "entry_payload \<Rightarrow> string list \<Rightarrow> nat \<Rightarrow> string \<Rightarrow> unsigned_entry" where
  "sample_unsigned p ns t key = \<lparr>e_id = ''/record/z/about'', e_payload = payload_value p, e_next = ns, e_refs = [],
     e_clock = \<lparr>clock_id = key, clock_time = t\<rparr>\<rparr>"

definition sample_sign :: "entry_payload \<Rightarrow> string list \<Rightarrow> nat \<Rightarrow> string \<Rightarrow> signed_entry" where
  "sample_sign p ns t key = sign_entry (sample_deps []) (sample_unsigned p ns t key) (utf8ToBytes key)"

lemma sample_sign_fields [simp]:
  "e_id (sample_sign p ns t key) = ''/record/z/about''" "e_payload (sample_sign p ns t key) = payload_value p"
  "e_next (sample_sign p ns t key) = ns" "e_refs (sample_sign p ns t key) = []"
  "e_clock (sample_sign p ns t key) = \<lparr>clock_id = key, clock_time = t\<rparr>" "e_key (sample_sign p ns t key) = key"
  "e_sig (sample_sign p ns t key) = map (\<lambda>b. char_of (unat b)) (signing_digest (sample_deps []) (sample_unsigned p ns t key))"
  by (simp_all add: sample_sign_def sign_entry_def sample_unsigned_def unsigned_entry.defs signed_entry.defs
      compressed_pubkey_from_private_def sample_deps_def)

lemma hash_signed_entry_fields [simp]: "he_entry (hash_signed_entry D e) = e" "he_bytes (hash_signed_entry D e) = cbor_encode D (signed_fields e)"
  by (simp_all add: hash_signed_entry_def with_hash_def encode_canonical_def)

lemma sample_sign_verifies: "is_compressed_pubkey_string key \<Longrightarrow> verify_entry_signature (sample_deps table) (sample_sign p ns t key)"
proof -
  have "signing_digest (sample_deps table) (sample_sign p ns t key) = signing_digest (sample_deps []) (sample_unsigned p ns t key)"
    by (simp add: signing_digest_def encode_canonical_def unsigned_fields_def sample_unsigned_def) (simp add: sample_deps_def)
  then show "is_compressed_pubkey_string key \<Longrightarrow> verify_entry_signature (sample_deps table) (sample_sign p ns t key)"
    by (simp add: verify_entry_signature_def) (simp add: sample_deps_def)
qed

lemma sample_checked:
  assumes "is_compressed_pubkey_string key" "pointers_ok ns" "int t \<le> MAX_SAFE_INTEGER" "chain_type chain = recordstore"
    "payload_ok (sample_deps table) recordstore p" "length (sample_encode (signed_fields (sample_sign p ns t key))) \<le> SIGNED_ENTRY_MAX_BYTES"
  shows "check_entry (sample_deps table) chain (hash_signed_entry (sample_deps table) (sample_sign p ns t key)) = Inr p"
proof -
  have "signed_ok (sample_sign p ns t key)" using assms(1-3) by (simp add: signed_ok_def unsigned_ok_def pointers_ok_def)
  with assms sample_sign_verifies[OF assms(1)] validate_operation_payload_value[OF assms(5)] show ?thesis
    by (simp add: check_entry_def assert_signed_entry_size_def assert_max_def)
qed

lemma sample_decoded_block:
  assumes "is_compressed_pubkey_string key" "pointers_ok ns" "int t \<le> MAX_SAFE_INTEGER"
    "length (sample_encode (signed_fields (sample_sign p ns t key))) \<le> SIGNED_ENTRY_MAX_BYTES"
  shows "decode_signed_entry (sample_deps [signed_fields (sample_sign p ns t key)])
     (sample_encode (signed_fields (sample_sign p ns t key))) =
   Inr (hash_signed_entry (sample_deps [signed_fields (sample_sign p ns t key)]) (sample_sign p ns t key))"
proof -
  let ?e = "sample_sign p ns t key" and ?D = "sample_deps [signed_fields (sample_sign p ns t key)]"
  have "signed_ok ?e" using assms(1-3) by (simp add: signed_ok_def unsigned_ok_def pointers_ok_def)
  moreover have "cbor_decode ?D (cbor_encode ?D (signed_fields ?e)) = Some (signed_fields ?e)" by (rule sample_codec) simp_all
  ultimately show ?thesis using assms(4)
    by (simp add: decode_signed_entry_def decode_canonical_def hash_signed_entry_def with_hash_def encode_canonical_def
        assert_signed_entry_size_def assert_max_def)
qed

section \<open>A library of one entry\<close>

text \<open>The oplog that merges one first block whose entry the chain's owner signed.\<close>

lemma merge_first_block:
  assumes "decode_signed_entry D b = Inr h" "check_entry D chain h = Inr p" "parents h = []" "e_time h = 1"
    "e_key (he_entry h) \<in> set (chain_write_list chain)"
  shows "verify_entry D (create_oplog chain) h = Inr (as_verified h p)"
    "entries_of (fst (merge_entries D (create_oplog chain) [b])) = [he_hash h \<mapsto> as_verified h p]"
    "ol_chain (fst (merge_entries D (create_oplog chain) [b])) = chain"
    "mr_rejected (snd (merge_entries D (create_oplog chain) [b])) = []"
proof -
  let ?ol = "create_oplog chain" and ?e = "as_verified h p"
  show v: "verify_entry D ?ol h = Inr ?e"
    using assms(2-5) by (simp add: verify_entry_def assert_clock_def expected_clock_time_def authorise_entry_def
        is_write_list_key_def create_oplog_def)
  have dec: "decode_blocks D ?ol [b] = ([], [h])" using assms(1) by (simp add: create_oplog_def)
  have run: "admit_all (verify_entry D) ?ol (sort_by compare_merge (snd (decode_blocks D ?ol [b]))) = (fst (insert_entry ?ol ?e), [?e], [])"
    unfolding dec using v by (simp add: create_oplog_def)
  show "entries_of (fst (merge_entries D ?ol [b])) = [he_hash h \<mapsto> ?e]" "ol_chain (fst (merge_entries D ?ol [b])) = chain"
    "mr_rejected (snd (merge_entries D ?ol [b])) = []"
    using insert_blocks_parts(1,2,4)[OF run] insert_entry_fields(1,2)[of ?ol ?e] dec
    by (simp_all add: merge_entries_def create_oplog_def)
qed

definition sample_log_chain :: resolved_chain where
  "sample_log_chain = \<lparr>chain_address = ''/record/z/about'', chain_name = ''about'', chain_type = recordstore,
     chain_write_list = [sample_pubkey], chain_cids = \<lparr>cid_manifest = ''m'', cid_wrapper = ''w'', cid_write_list = ''l''\<rparr>\<rparr>"

definition sample_del :: entry_payload where
  "sample_del = DelOperation sample_track_id 9 None"

definition sample_log_deps :: deps where
  "sample_log_deps = sample_deps [signed_fields (sample_sign sample_del [] 1 sample_pubkey)]"

definition sample_hashed :: hashed_entry where
  "sample_hashed = hash_signed_entry sample_log_deps (sample_sign sample_del [] 1 sample_pubkey)"

definition sample_log :: oplog where
  "sample_log = fst (merge_entries sample_log_deps (create_oplog sample_log_chain) [he_bytes sample_hashed])"

lemmas sample_size_defs = signed_fields_def js_strings_def js_clock_def sample_pubkey_def SIGNED_ENTRY_MAX_BYTES_def
  payload_value_def operation_value_def optional_field_def sample_track_id_def signing_digest_def

lemma sample_del_fits: "length (sample_encode (signed_fields (sample_sign sample_del [] 1 sample_pubkey))) \<le> SIGNED_ENTRY_MAX_BYTES"
  by (simp add: sample_size_defs sample_del_def del_value_def) (simp add: sample_deps_def)

lemma sample_hashed_fields [simp]: "parents sample_hashed = []" "e_time sample_hashed = 1" "e_key (he_entry sample_hashed) = sample_pubkey"
  by (simp_all add: sample_hashed_def)

lemma sample_hashed_bytes: "he_bytes sample_hashed = sample_encode (signed_fields (sample_sign sample_del [] 1 sample_pubkey))"
  by (simp add: sample_hashed_def sample_log_deps_def)

lemma sample_decodes: "decode_signed_entry sample_log_deps (he_bytes sample_hashed) = Inr sample_hashed"
  unfolding sample_hashed_bytes unfolding sample_log_deps_def sample_hashed_def
  by (rule sample_decoded_block[OF _ _ _ sample_del_fits]) (simp_all add: pointers_ok_def MAX_SAFE_INTEGER_def)

lemma sample_check: "check_entry sample_log_deps sample_log_chain sample_hashed = Inr sample_del"
  unfolding sample_log_deps_def sample_hashed_def
  by (rule sample_checked[OF _ _ _ _ _ sample_del_fits])
     (simp_all add: pointers_ok_def MAX_SAFE_INTEGER_def sample_log_chain_def payload_ok_def sample_del_def)

lemma sample_verifies: "verify_entry sample_log_deps (create_oplog sample_log_chain) sample_hashed = Inr (as_verified sample_hashed sample_del)"
  by (rule merge_first_block(1)[OF sample_decodes sample_check]) (simp_all add: sample_log_chain_def)

lemma sample_log_entries: "entries_of sample_log = [he_hash sample_hashed \<mapsto> as_verified sample_hashed sample_del]"
  "ol_chain sample_log = sample_log_chain"
  "mr_rejected (snd (merge_entries sample_log_deps (create_oplog sample_log_chain) [he_bytes sample_hashed])) = []"
  unfolding sample_log_def
  by (rule merge_first_block(2-4)[OF sample_decodes sample_check]; simp add: sample_log_chain_def)+

lemma sample_inj [simp]: "inj (multihash_of_digest sample_log_deps)"
  by (simp add: sample_log_deps_def sample_deps_def inj_def)

lemma sample_reachable [simp]: "reachable sample_log_deps (create_oplog sample_log_chain)" "reachable sample_log_deps sample_log"
  unfolding sample_log_def by (intro reachable.created reachable.merged)+

lemma sample_log_values: "set (omap_values (ol_entries sample_log)) = {as_verified sample_hashed sample_del}"
  using ran_distinct[OF reachable_distinct[OF sample_reachable(2)]] by (simp add: sample_log_entries(1))

lemma sample_log_blocks: "set (blocks_of sample_log) = {he_bytes sample_hashed}"
  unfolding blocks_of_def set_map[of he_bytes] sample_log_values by simp

lemma sample_codec_ok: "codec_ok sample_log_deps sample_log" "codec_ok sample_log_deps (create_oplog sample_log_chain)"
proof -
  let ?e = "sample_sign sample_del [] 1 sample_pubkey"
  have "cbor_decode sample_log_deps (cbor_encode sample_log_deps (signed_fields ?e)) = Some (signed_fields ?e)"
    unfolding sample_log_deps_def by (rule sample_codec) simp_all
  then show "codec_ok sample_log_deps sample_log"
    unfolding codec_ok_def sample_log_values by (simp add: sample_hashed_def)
  show "codec_ok sample_log_deps (create_oplog sample_log_chain)" by (simp add: codec_ok_def create_oplog_def)
qed

lemma sample_log_authors: "entries_of sample_log h = Some e \<Longrightarrow> e_key (he_entry e) \<in> write_list sample_log"
  by (auto simp: sample_log_entries sample_log_chain_def split: if_splits)

lemma sample_log_inert: "h \<notin> set (ol_inert sample_log)"
  using reachable_ok[OF sample_reachable(2) sample_inj] sample_log_authors
  by (auto simp: oplog_ok_def access_ok_def inert_spec_def)

section \<open>A capability and a write under it\<close>

definition sample_owner :: string where
  "sample_owner = ''03'' @ replicate 64 (CHR ''a'')"

definition shared_chain :: resolved_chain where
  "shared_chain = sample_log_chain\<lparr>chain_write_list := [sample_owner]\<rparr>"

definition sample_capability :: jsval where
  "sample_capability = build_capability_record 5 sample_grantee [''library.write_label''] JUndefined (Some [sample_condition])"

definition sample_grant :: entry_payload where
  "sample_grant = AccessRecordPut (record_key (sample_deps []) sample_capability) sample_capability None"

definition shared_deps :: deps where
  "shared_deps = sample_deps [signed_fields (sample_sign sample_grant [] 1 sample_owner)]"

definition grant_hashed :: hashed_entry where
  "grant_hashed = hash_signed_entry shared_deps (sample_sign sample_grant [] 1 sample_owner)"

definition shared_log :: oplog where
  "shared_log = fst (merge_entries shared_deps (create_oplog shared_chain) [he_bytes grant_hashed])"

definition sample_write :: entry_payload where
  "sample_write = LabelsPut (record_key (sample_deps []) (labels_value sample_labels)) sample_labels (Some (he_hash grant_hashed))"

definition write_hashed :: hashed_entry where
  "write_hashed = hash_signed_entry shared_deps (sample_sign sample_write [he_hash grant_hashed] 2 sample_pubkey)"

lemma sample_owner_ok [simp]: "is_compressed_pubkey_string sample_owner" "sample_pubkey \<noteq> sample_owner"
  by (simp_all add: sample_owner_def sample_pubkey_def is_compressed_pubkey_string_def is_lower_hex_def list_all_iff)

lemma grant_hashed_fields [simp]: "parents grant_hashed = []" "e_time grant_hashed = 1" "e_key (he_entry grant_hashed) = sample_owner"
  by (simp_all add: grant_hashed_def)

lemma write_hashed_fields [simp]: "parents write_hashed = [he_hash grant_hashed]" "e_time write_hashed = 2"
  "e_key (he_entry write_hashed) = sample_pubkey" "e_payload (he_entry write_hashed) = payload_value sample_write"
  by (simp_all add: write_hashed_def)

lemma sample_record_key_length: "length (record_key (sample_deps table) v) \<le> 32"
  by (simp add: record_key_def) (simp add: sample_deps_def)

lemma sample_grant_fits: "length (sample_encode (signed_fields (sample_sign sample_grant [] 1 sample_owner))) \<le> SIGNED_ENTRY_MAX_BYTES"
  using sample_record_key_length[of "[]" sample_capability]
  by (simp add: sample_size_defs sample_grant_def sample_capability_def build_capability_record_def sample_grantee_def sample_condition_def
      sample_owner_def) (simp add: sample_deps_def)

lemma sample_record_key: "record_key (sample_deps table) v = record_key (sample_deps []) v"
  by (simp add: record_key_def encode_canonical_def sample_deps_def)

lemma sample_capability_open: "\<not> has_extra_fields sample_capability CAPABILITY_FIELDS"
  using keys_build_capability_record[of 5 sample_grantee "[''library.write_label'']" JUndefined "Some [sample_condition]"]
  by (auto simp: has_extra_fields_def list_ex_iff sample_capability_def)

lemma sample_capability_reads [simp]:
  "get ''type'' sample_capability = JStr ''capability''" "get ''v'' sample_capability = JInt 1" "get ''timestamp'' sample_capability = JInt 5"
  "get ''grantee'' sample_capability = sample_grantee" "get ''actions'' sample_capability = js_strings [''library.write_label'']"
  "get ''filter'' sample_capability = JUndefined" "get ''conditions'' sample_capability = JArr [sample_condition]"
  "is_record sample_capability"
  unfolding sample_capability_def by simp_all (simp add: build_capability_record_def)

lemma sample_capability_ok: "payload_ok (sample_deps table) recordstore sample_grant"
proof -
  have "capability_shape sample_capability = shape_ok"
    using sample_capability_open unfolding capability_shape_ok_iff
    by (simp add: array_within_def is_uint_def as_uint_def MAX_SAFE_INTEGER_def js_strings_def is_string_def or_empty_def array_elements_def)
  then show ?thesis
    by (simp add: payload_ok_def sample_grant_def validate_access_record_Inr_iff is_access_record_type_def ACCESS_RECORD_TYPES_def
      sample_record_key[of table])
qed

lemma shared_check: "check_entry shared_deps shared_chain grant_hashed = Inr sample_grant"
  unfolding shared_deps_def grant_hashed_def
  by (rule sample_checked[OF _ _ _ _ sample_capability_ok sample_grant_fits])
     (simp_all add: pointers_ok_def MAX_SAFE_INTEGER_def shared_chain_def sample_log_chain_def)

lemma grant_decodes: "decode_signed_entry shared_deps (he_bytes grant_hashed) = Inr grant_hashed"
proof -
  have "he_bytes grant_hashed = sample_encode (signed_fields (sample_sign sample_grant [] 1 sample_owner))"
    by (simp add: grant_hashed_def shared_deps_def)
  then show ?thesis
    using sample_decoded_block[OF _ _ _ sample_grant_fits] by (simp add: grant_hashed_def shared_deps_def pointers_ok_def MAX_SAFE_INTEGER_def)
qed

lemma shared_log_entries: "entries_of shared_log = [he_hash grant_hashed \<mapsto> as_verified grant_hashed sample_grant]"
  "ol_chain shared_log = shared_chain"
  unfolding shared_log_def by (rule merge_first_block(2,3)[OF grant_decodes shared_check]; simp add: shared_chain_def)+

lemma shared_inj [simp]: "inj (multihash_of_digest shared_deps)"
  by (simp add: shared_deps_def sample_deps_def inj_def)

lemma shared_reachable [simp]: "reachable shared_deps shared_log"
  unfolding shared_log_def by (intro reachable.created reachable.merged)

lemma grant_hash: "is_protocol_cid (JStr (he_hash grant_hashed))" "length (he_hash grant_hashed) \<le> 600"
proof -
  let ?d = "sha3_512 shared_deps (cbor_encode shared_deps (signed_fields (sample_sign sample_grant [] 1 sample_owner)))"
  have h: "he_hash grant_hashed = format_protocol_cid (PROTOCOL_CID_PREFIX @ ?d)" and d: "length ?d = 64"
    by (simp_all add: grant_hashed_def hash_signed_entry_def with_hash_def compute_cid_def shared_deps_def encode_canonical_def)
  show "is_protocol_cid (JStr (he_hash grant_hashed))" unfolding is_protocol_cid_iff h using d by blast
  have "length (encode_base58btc (PROTOCOL_CID_PREFIX @ ?d)) \<le> 8 * 68"
    using encode_base58btc_length[of "PROTOCOL_CID_PREFIX @ ?d"] d by (simp add: PROTOCOL_CID_PREFIX_def)
  then show "length (he_hash grant_hashed) \<le> 600" unfolding h format_protocol_cid_def by simp
qed

lemma sample_write_ok: "payload_ok (sample_deps table) recordstore sample_write"
  by (simp add: payload_ok_def sample_write_def labels_ok_def label_pair_ok_def MAX_SAFE_INTEGER_def sample_labels_def
      sample_record_key[of table]) (simp add: sample_deps_def)

lemma sample_write_fits:
  "length (sample_encode (signed_fields (sample_sign sample_write [he_hash grant_hashed] 2 sample_pubkey))) \<le> SIGNED_ENTRY_MAX_BYTES"
  using sample_record_key_length[of "[]" "labels_value sample_labels"] grant_hash(2)
  by (simp add: sample_size_defs sample_write_def labels_value_def sample_labels_def pair_value_def) (simp add: sample_deps_def)

lemma write_check: "check_entry shared_deps shared_chain write_hashed = Inr sample_write"
  unfolding shared_deps_def write_hashed_def
  by (rule sample_checked[OF _ _ _ _ sample_write_ok sample_write_fits])
     (use grant_hash(1) in \<open>simp_all add: pointers_ok_def MAX_SAFE_INTEGER_def shared_chain_def sample_log_chain_def\<close>)

lemma grant_record [simp]: "capability_record (entries_of shared_log (he_hash grant_hashed)) = Some sample_capability"
  by (simp add: shared_log_entries capability_record_def sample_grant_def)

lemma write_authorised: "authorise_entry shared_log write_hashed sample_write = Inr ()"
proof -
  have ok: "structure_ok shared_deps shared_log" using reachable_ok[OF shared_reachable shared_inj] by (simp add: oplog_ok_def)
  let ?h = "he_hash grant_hashed"
  have past: "in_causal_past (ol_entries shared_log) ?h [?h]"
    using in_causal_past_iff[OF structure_okD(1)[OF ok]] past_of_self[of "[?h]"] by (auto simp: shared_log_entries(1))
  have chain: "capability_chain shared_log (Some ?h) = [?h]"
    unfolding capability_chain_unfold[OF structure_okD(1,2)[OF ok]]
    by (simp add: shared_log_entries capability_record_def sample_grant_def shared_chain_def)
  have "set (omap_values (ol_revocations shared_log)) = {}"
    using revocation_values(1)[OF structure_okD(3,1)[OF ok]]
    by (auto simp: shared_log_entries is_revocation_entry_def is_capability_entry_def is_access_record_def sample_grant_def split: if_splits)
  then have rev: "effective_revocations shared_log (past_revocations shared_log [?h]) = []"
    by (simp add: past_revocations_def effective_revocations_def)
  have check: "check_chain shared_log (labels_value sample_labels) [?h] = Inr ()"
    using sample_capability_open
    by (simp add: capability_fails_closed_def covering_action_def labels_value_def filter_matches_def strings_def js_strings_def
        array_elements_def map_filter_simps condition_failure_def expires_at_def sample_condition_def number_value_def sample_labels_def
        sample_condition_shape[unfolded sample_condition_def] list_all_iff)
  have facts: "\<not> is_write_list_key shared_log sample_pubkey" "chain_type (ol_chain shared_log) = recordstore"
    "op_of sample_write = Some PUT" "cited_capability sample_write = Some ?h" "grantee_matches sample_grantee sample_pubkey"
    "get ''value'' (payload_value sample_write) = labels_value sample_labels" "get ''type'' (labels_value sample_labels) = JStr ''labels''"
    using sample_owner_ok(2)
    by (simp_all add: is_write_list_key_def shared_log_entries(2) shared_chain_def sample_log_chain_def sample_write_def op_of_def
        cited_capability_def grantee_matches_def payload_value_def labels_value_def) (simp add: sample_grantee_def)
  show ?thesis
    using past rev check facts by (simp add: authorise_entry_def Let_def chain MAX_CHAIN_LENGTH_def)
qed

lemma write_verifies: "verify_entry shared_deps shared_log write_hashed = Inr (as_verified write_hashed sample_write)"
proof -
  have "assert_clock shared_log write_hashed = Inr ()"
    by (simp add: assert_clock_def expected_clock_time_def shared_log_entries(1))
  then show ?thesis using write_check write_authorised by (simp add: verify_entry_def shared_log_entries(2))
qed

end
