(* ===== verification/Oplog_Properties.thy ===== *)
theory Oplog_Properties
  imports Sample_Log
begin

text \<open>
  The properties of the entry DAG and its merging, over every oplog a peer can reach.
\<close>

section \<open>Replicas\<close>

lemma restore_accepts: "\<forall>s h e. verify_entry D s h = Inr e \<longrightarrow> restore_entry D s h = Inr e"
  by (auto simp: verify_entry_Inr restore_entry_def check_entry_def result_simps Let_def split: if_splits)

lemma create_replica_ok: "inj (multihash_of_digest D) \<Longrightarrow> replica_ok D (create_oplog chain)"
  by (rule replica_okI[OF reachable.created]) (simp_all add: codec_ok_def create_oplog_def)

text \<open>C1: Two replicas of one library that exchange all their blocks converge: neither rejects
  anything, both hold the union of what they held, and every derived part of their state is the
  same. The hash is assumed not to collide on the blocks involved, and the codec to decode what
  it encoded of the entries held.\<close>

theorem replicas_converge:
  assumes "reachable D a" "reachable D b" "ol_chain a = ol_chain b" "inj (multihash_of_digest D)"
    "inj_on (compute_cid_string D) (set (blocks_of a) \<union> set (blocks_of b))" "codec_ok D a" "codec_ok D b"
  shows "mr_rejected (snd (merge_entries D a (blocks_of b))) = [] \<and> mr_rejected (snd (merge_entries D b (blocks_of a))) = [] \<and>
    entries_of (fst (merge_entries D a (blocks_of b))) = entries_of b ++ entries_of a \<and>
    entries_of (fst (merge_entries D b (blocks_of a))) = entries_of b ++ entries_of a \<and>
    same_state (fst (merge_entries D a (blocks_of b))) (fst (merge_entries D b (blocks_of a)))"
proof -
  have ok: "replica_ok D a" "replica_ok D b" using assms by (simp_all add: replica_okI)
  note ab = replica_insert[where admit = "verify_entry D" and bs = "blocks_of b", OF assms(4) ok(2,1) assms(3) _ _ refl]
    and ba = replica_insert[where admit = "verify_entry D" and bs = "blocks_of a", OF assms(4) ok assms(3)[symmetric] assms(5) _ refl]
  have sym: "inj_on (compute_cid_string D) (set (blocks_of b) \<union> set (blocks_of a))" using assms(5) by (simp add: Un_commute)
  have "entries_of a ++ entries_of b = entries_of b ++ entries_of a"
    using replicas_compatible[OF ok assms(3) sym] by (auto simp: fun_eq_iff map_add_def split: option.splits)
  then show ?thesis
    using ab[OF sym] ba assms(3) same_entries_same_state[OF ab(3)[OF sym] ba(3) assms(4)] by (simp add: merge_entries_def)
qed

theorem replicas_converge_witness:
  "entries_of (fst (merge_entries sample_log_deps (create_oplog sample_log_chain) (blocks_of sample_log))) =
     [he_hash sample_hashed \<mapsto> as_verified sample_hashed sample_del]"
proof -
  have "set (blocks_of (create_oplog sample_log_chain)) = {}" by (simp add: blocks_of_def create_oplog_def)
  then have "inj_on (compute_cid_string sample_log_deps) (set (blocks_of (create_oplog sample_log_chain)) \<union> set (blocks_of sample_log))"
    by (simp add: sample_log_blocks)
  moreover have "ol_chain (create_oplog sample_log_chain) = ol_chain sample_log" by (simp add: sample_log_entries(2) create_oplog_def)
  ultimately show ?thesis
    using replicas_converge[OF sample_reachable _ sample_inj _ sample_codec_ok(2,1)] by (simp add: sample_log_entries(1) create_oplog_def)
qed

text \<open>Inserting exactly the blocks of a replica gives the replica again, verified or not.\<close>

lemma reinserted_replica:
  assumes v: "replica_ok D v" and inj: "inj (multihash_of_digest D)" "inj_on (compute_cid_string D) (set (blocks_of v))"
    and admit: "\<forall>s h e. verify_entry D s h = Inr e \<longrightarrow> admit s h = Inr e" and blocks: "set blocks = set (blocks_of v)"
  shows "mr_rejected (snd (insert_blocks D admit (create_oplog (ol_chain v)) blocks)) = []"
    "entries_of (fst (insert_blocks D admit (create_oplog (ol_chain v)) blocks)) = entries_of v"
    "same_state (fst (insert_blocks D admit (create_oplog (ol_chain v)) blocks)) v"
    "oplog_ok D (fst (insert_blocks D admit (create_oplog (ol_chain v)) blocks))"
    "ol_chain (fst (insert_blocks D admit (create_oplog (ol_chain v)) blocks)) = ol_chain v"
proof -
  let ?s = "create_oplog (ol_chain v)"
  have empty: "set (blocks_of ?s) = {}" "ol_chain ?s = ol_chain v" "entries_of ?s = Map.empty"
    by (simp_all add: blocks_of_def create_oplog_def)
  note r = replica_insert[where admit = admit, OF inj(1) v create_replica_ok[OF inj(1)] empty(2) _ _ blocks]
  have "oplog_ok D v" using v by (simp add: replica_ok_def)
  then show "mr_rejected (snd (insert_blocks D admit ?s blocks)) = []" "entries_of (fst (insert_blocks D admit ?s blocks)) = entries_of v"
    "same_state (fst (insert_blocks D admit ?s blocks)) v" "oplog_ok D (fst (insert_blocks D admit ?s blocks))"
    "ol_chain (fst (insert_blocks D admit ?s blocks)) = ol_chain v"
    using r empty inj(2) admit same_entries_same_state[OF r(3) _ inj(1)] by simp_all
qed

text \<open>C2: A restart restores the library: replaying the stored blocks, in any order and with
  repetitions, without checking signatures and capabilities again rejects nothing and gives the
  entries, heads, current state and access state that were held.\<close>

theorem restart_restores:
  assumes "reachable D ol" "inj (multihash_of_digest D)" "inj_on (compute_cid_string D) (set (blocks_of ol))" "codec_ok D ol"
    "set blocks = set (blocks_of ol)"
  shows "mr_rejected (snd (restore_entries D (create_oplog (ol_chain ol)) blocks)) = [] \<and>
    entries_of (fst (restore_entries D (create_oplog (ol_chain ol)) blocks)) = entries_of ol \<and>
    same_state (fst (restore_entries D (create_oplog (ol_chain ol)) blocks)) ol"
  using reinserted_replica[where admit = "restore_entry D", OF replica_okI[OF assms(1,2,4)] assms(2,3) restore_accepts assms(5)]
  by (simp add: restore_entries_def)

theorem restart_restores_witness:
  "mr_rejected (snd (restore_entries sample_log_deps (create_oplog sample_log_chain)
     [he_bytes sample_hashed, he_bytes sample_hashed])) = [] \<and> entries_of sample_log \<noteq> Map.empty"
  using restart_restores[OF sample_reachable(2) sample_inj _ sample_codec_ok(1), of "[he_bytes sample_hashed, he_bytes sample_hashed]"]
  by (simp add: sample_log_blocks sample_log_entries)

text \<open>Batches that a replica accepts whole may arrive in either order: nothing is rejected in
  either, and the entries and the derived state at the end are the same.\<close>

lemma batches_commute:
  assumes "reachable D ol" "inj (multihash_of_digest D)" "inj_on (compute_cid_string D) (set bs \<union> set cs)"
    "mr_rejected (snd (merge_entries D ol bs)) = []" "mr_rejected (snd (merge_entries D ol cs)) = []"
  shows "mr_rejected (snd (merge_entries D (fst (merge_entries D ol bs)) cs)) = [] \<and>
    mr_rejected (snd (merge_entries D (fst (merge_entries D ol cs)) bs)) = [] \<and>
    entries_of (fst (merge_entries D (fst (merge_entries D ol bs)) cs)) =
      entries_of (fst (merge_entries D (fst (merge_entries D ol cs)) bs)) \<and>
    same_state (fst (merge_entries D (fst (merge_entries D ol bs)) cs)) (fst (merge_entries D (fst (merge_entries D ol cs)) bs))"
proof -
  have ok: "oplog_ok D ol" "oplog_ok D (fst (merge_entries D ol xs))" "oplog_ok D (fst (merge_entries D (fst (merge_entries D ol xs)) ys))"
    for xs ys using assms(1,2) by (auto intro!: reachable_ok reachable.merged)
  have sym: "inj_on (compute_cid_string D) (set cs \<union> set bs)" using assms(3) by (simp add: Un_commute)
  have chain: "ol_chain (fst (merge_entries D (fst (merge_entries D ol xs)) ys)) = ol_chain ol" for xs ys
    using merge_chain[OF ok(1) assms(2)] merge_chain[OF ok(2) assms(2)] by simp
  note eq = merge_commutes[OF ok(1) assms(2-5)]
  show ?thesis
    using merge_after(2)[OF ok(1) assms(2,3,5)] merge_after(2)[OF ok(1) assms(2) sym assms(4)] eq
      same_entries_same_state[OF ok(3) ok(3) assms(2) _ eq] chain by simp
qed

text \<open>C3: The outcome of a merge is a function of the set of blocks: their order and repetitions
  change neither the resulting oplog nor the entries reported as merged, as long as no two decoded
  entries share a hash.\<close>

theorem merge_order_irrelevant:
  assumes "set bs = set bs'" "inj_on he_hash (set (snd (decode_blocks D ol bs)))"
  shows "fst (merge_entries D ol bs) = fst (merge_entries D ol bs') \<and>
    mr_merged (snd (merge_entries D ol bs)) = mr_merged (snd (merge_entries D ol bs')) \<and>
    mr_access (snd (merge_entries D ol bs)) = mr_access (snd (merge_entries D ol bs'))"
  using merge_cong[OF assms] by simp

theorem merge_order_irrelevant_witness:
  "fst (merge_entries sample_log_deps (create_oplog sample_log_chain) [he_bytes sample_hashed, he_bytes sample_hashed]) = sample_log"
  using merge_order_irrelevant[of "[he_bytes sample_hashed, he_bytes sample_hashed]" "[he_bytes sample_hashed]" sample_log_deps
      "create_oplog sample_log_chain"] by (simp add: sample_log_def sample_decodes)

section \<open>The state of one oplog\<close>

text \<open>C4: In every reachable oplog the maintained heads are the heads computed from the entries,
  every parent is held with a smaller clock, entries are held under their own hash, and the
  indices of capabilities, revocations and delegated entries hold exactly the entries of their kind.\<close>

theorem oplog_structure:
  assumes "reachable D ol" "inj (multihash_of_digest D)"
  shows "set (ol_heads ol) = set (compute_heads (omap_values (ol_entries ol))) \<and> distinct (ol_heads ol) \<and>
    (\<forall>h e. entries_of ol h = Some e \<longrightarrow> he_hash e = h \<and> h = compute_cid_string D (he_bytes e) \<and>
       (\<forall>p \<in> set (parents e). \<exists>e'. entries_of ol p = Some e' \<and> e_time e' < e_time e)) \<and>
    (\<forall>h e. omap_get (ol_capabilities ol) h = Some e \<longleftrightarrow> entries_of ol h = Some e \<and> is_capability_entry e) \<and>
    (\<forall>h e. omap_get (ol_revocations ol) h = Some e \<longleftrightarrow> entries_of ol h = Some e \<and> is_revocation_entry e) \<and>
    (\<forall>h. h \<in> set (ol_delegated ol) \<longleftrightarrow> (\<exists>e. entries_of ol h = Some e \<and> e_key (he_entry e) \<notin> write_list ol))"
proof -
  have ok: "structure_ok D ol" using reachable_ok[OF assms] by (simp add: oplog_ok_def)
  have vals: "set (omap_values (ol_entries ol)) = ran (entries_of ol)" using ran_distinct[OF reachable_distinct[OF assms(1)]] by simp
  have "he_hash ` ran (entries_of ol) = dom (entries_of ol)"
    using structure_okD(5)[OF ok] by (force simp: ran_def dom_def image_def)
  then have "set (ol_heads ol) = set (compute_heads (omap_values (ol_entries ol)))"
    using ok unfolding set_compute_heads vals by (simp add: structure_ok_def)
  moreover have "\<forall>h e. entries_of ol h = Some e \<longrightarrow> he_hash e = h \<and> h = compute_cid_string D (he_bytes e) \<and>
       (\<forall>p \<in> set (parents e). \<exists>e'. entries_of ol p = Some e' \<and> e_time e' < e_time e)"
    using structure_okD(4,5)[OF ok] dag_okD(2)[OF structure_okD(1)[OF ok]] by (auto simp: hash_ok_def)
  moreover have "distinct (ol_heads ol)"
    "\<forall>h e. omap_get (ol_capabilities ol) h = Some e \<longleftrightarrow> entries_of ol h = Some e \<and> is_capability_entry e"
    "\<forall>h e. omap_get (ol_revocations ol) h = Some e \<longleftrightarrow> entries_of ol h = Some e \<and> is_revocation_entry e"
    "\<forall>h. h \<in> set (ol_delegated ol) \<longleftrightarrow> (\<exists>e. entries_of ol h = Some e \<and> e_key (he_entry e) \<notin> write_list ol)"
    using ok by (auto simp: structure_ok_def revocations_ok_def split: option.splits)
  ultimately show ?thesis by blast
qed

theorem oplog_structure_witness: "set (ol_heads sample_log) = {he_hash sample_hashed}"
proof -
  have "parents sample_hashed = []" by (simp add: sample_hashed_def hash_signed_entry_def with_hash_def)
  then show ?thesis
    using oplog_structure[OF sample_reachable(2) sample_inj] unfolding set_compute_heads sample_log_values by simp
qed

end
