(* ===== verification/Access_Properties.thy ===== *)
theory Access_Properties
  imports Oplog_Properties
begin

text \<open>
  The access state and the current state of every reachable oplog against their definition from
  scratch, the authorisation of delegated writes, and local append.
\<close>

section \<open>Capability chains\<close>

text \<open>A chain ends at a capability the write list signed.\<close>

lemma chain_rooted:
  assumes ok: "dag_ok (entries_of ol)" "cites_ok ol"
  shows "entries_of ol c = Some ec \<Longrightarrow> capability_record (Some ec) \<noteq> None \<Longrightarrow>
    capability_chain ol (Some c) \<noteq> [] \<and>
    (\<exists>root. entries_of ol (last (capability_chain ol (Some c))) = Some root \<and> e_key (he_entry root) \<in> write_list ol)"
proof (induction "e_time ec" arbitrary: c ec rule: less_induct)
  case less
  show ?case
  proof (cases "e_key (he_entry ec) \<in> write_list ol")
    case True
    with less.prems show ?thesis by (simp add: capability_chain_unfold[OF ok])
  next
    case False
    from cites_okD[OF ok(2) less.prems(1) False] obtain d where
      d: "cited_capability (ve_operation ec) = Some d" "capability_record (entries_of ol d) \<noteq> None"
        "d \<in> past_of (entries_of ol) (parents ec)" by blast
    then obtain ed where ed: "entries_of ol d = Some ed" by (auto simp: capability_record_def split: option.splits)
    have "e_time ed < e_time ec" by (rule past_time[OF ok(1) less.prems(1) d(3) ed])
    from less.hyps[OF this ed] d(1,2) ed less.prems False show ?thesis
      by (simp add: capability_chain_unfold[OF ok, of c])
  qed
qed





section \<open>Properties\<close>

text \<open>C5: The access state, brought up to date incrementally by appends and merges, is the one
  computed from scratch: the effective revocations are those of the procedure over all revocations
  held, and an entry is inert exactly when it was signed outside the write list and is a revocation that is not
  effective, or depends on a capability an effective revocation outside its future names.\<close>

theorem access_state_from_scratch:
  assumes "reachable D ol" "inj (multihash_of_digest D)"
  shows "set (ol_effective ol) = he_hash ` set (effective_revocations ol (omap_values (ol_revocations ol))) \<and>
    (\<forall>h. h \<in> set (ol_inert ol) \<longleftrightarrow> (\<exists>e. entries_of ol h = Some e \<and> e_key (he_entry e) \<notin> write_list ol \<and>
       (if is_revocation_entry e then e \<notin> set (effective_revocations ol (omap_values (ol_revocations ol)))
        else inert_under ol e (effective_revocations ol (omap_values (ol_revocations ol))))))"
  using reachable_ok[OF assms] by (auto simp: oplog_ok_def access_ok_def inert_spec_def effective_spec_def)

theorem access_state_from_scratch_witness: "ol_inert sample_log = []"
proof -
  have "h \<notin> set (ol_inert sample_log)" for h
    using access_state_from_scratch[OF sample_reachable(2) sample_inj, THEN conjunct2, rule_format, of h] sample_log_authors by blast
  then show ?thesis by (cases "ol_inert sample_log") auto
qed

text \<open>C6: The current entry of a state key is the first, in the order of clock, timestamp and multihash
  bytes, of the entries held for that key that are not inert; a key with no such entry has none.\<close>

theorem current_state_resolved:
  assumes "reachable D ol" "inj (multihash_of_digest D)"
  shows "case omap_get (ol_current ol) k of
      None \<Rightarrow> \<nexists>e. entries_of ol (he_hash e) = Some e \<and> k \<in> set (ve_state_keys e) \<and> he_hash e \<notin> set (ol_inert ol)
    | Some c \<Rightarrow> entries_of ol (he_hash c) = Some c \<and> k \<in> set (ve_state_keys c) \<and> he_hash c \<notin> set (ol_inert ol) \<and>
        (\<forall>e. entries_of ol (he_hash e) = Some e \<and> k \<in> set (ve_state_keys e) \<and> he_hash e \<notin> set (ol_inert ol) \<and> e \<noteq> c \<longrightarrow>
           compare_current_state c e < 0)"
proof -
  have ok: "structure_ok D ol" "current_ok ol" using reachable_ok[OF assms] by (simp_all add: oplog_ok_def)
  let ?xs = "List.map_filter (entries_of ol) (live_hashes ol k)"
  have cur: "omap_get (ol_current ol) k = least_by compare_current_state None ?xs"
    using ok(2) by (simp add: current_ok_def resolve_key_def resolve_current_state_def)
  have xs: "set ?xs = live_set ol k" by (rule resolve_key_candidates[OF ok(1)])
  have inj: "inj_on state_key (live_set ol k)" by (rule structure_inj[OF ok(1) assms(2)]) (simp add: live_set_def)
  show ?thesis
  proof (cases "least_by compare_current_state None ?xs")
    case None
    then have "live_set ol k = {}" using xs by (simp add: least_by_None_iff)
    then show ?thesis unfolding cur None by (auto simp: live_set_def)
  next
    case (Some c)
    then have c: "c \<in> live_set ol k" using least_by_in[OF Some] xs by simp
    have "compare_current_state c e < 0" if "e \<in> live_set ol k" "e \<noteq> c" for e
    proof -
      have "compare_current_state c e \<le> 0" using current_order.least_by_least[OF Some] that(1) xs by simp
      moreover have "compare_current_state c e \<noteq> 0" using inj that c by (simp add: current_order.cmp_zero inj_on_def) metis
      ultimately show ?thesis by simp
    qed
    with c show ?thesis unfolding cur Some by (auto simp: live_set_def)
  qed
qed

theorem current_state_resolved_witness:
  "omap_get (ol_current sample_log) sample_track_id = Some (as_verified sample_hashed sample_del)"
proof -
  let ?e = "as_verified sample_hashed sample_del"
  have e: "entries_of sample_log (he_hash ?e) = Some ?e" "sample_track_id \<in> set (ve_state_keys ?e)"
    by (simp_all add: sample_log_entries state_keys_of_def sample_del_def)
  have only: "x = ?e" if "entries_of sample_log (he_hash x) = Some x" for x using that by (auto simp: sample_log_entries split: if_splits)
  note c = current_state_resolved[OF sample_reachable(2) sample_inj, of sample_track_id]
  show ?thesis
  proof (cases "omap_get (ol_current sample_log) sample_track_id")
    case None
    then have "\<not> (entries_of sample_log (he_hash ?e) = Some ?e \<and> sample_track_id \<in> set (ve_state_keys ?e) \<and>
        he_hash ?e \<notin> set (ol_inert sample_log))" using c by (simp only: option.case not_ex not_False_eq_True)
    with e sample_log_inert show ?thesis by simp
  qed (use c only in simp)
qed


text \<open>C7: Whether an entry is accepted depends on its causal past only: two replicas that hold the
  same entries in a parent-closed set containing its parents give the same verdict, error included,
  whatever else they hold.\<close>

theorem acceptance_depends_on_past:
  assumes "reachable D ol" "reachable D ol'" "inj (multihash_of_digest D)" "ol_chain ol = ol_chain ol'"
    "set (parents hashed) \<subseteq> P" "parent_closed (entries_of ol) P" "\<forall>h \<in> P. entries_of ol h = entries_of ol' h"
  shows "verify_entry D ol hashed = verify_entry D ol' hashed"
proof -
  have ok: "structure_ok D ol" "structure_ok D ol'" using reachable_ok assms(1-3) by (auto simp: oplog_ok_def)
  show ?thesis by (rule verify_local[OF ok assms(3) agree_intro[OF ok assms(4,7,6)] assms(5)])
qed

theorem acceptance_depends_on_past_witness:
  "verify_entry sample_log_deps sample_log sample_hashed = Inr (as_verified sample_hashed sample_del)"
proof -
  have "parents sample_hashed = []" by (simp add: sample_hashed_def hash_signed_entry_def with_hash_def)
  then have "verify_entry sample_log_deps (create_oplog sample_log_chain) sample_hashed = verify_entry sample_log_deps sample_log sample_hashed"
    using acceptance_depends_on_past[OF sample_reachable sample_inj, where P = "{}" and hashed = sample_hashed]
    by (simp add: sample_log_entries(2) parent_closed_def create_oplog_def)
  with sample_verifies show ?thesis by simp
qed

text \<open>C10: The causal-past walk, which keeps a stack, visits no entry twice and never descends below
  the clock of the entry it looks for, answers reachability along \<open>next\<close> exactly.\<close>

theorem causal_past_exact:
  assumes "reachable D ol" "inj (multihash_of_digest D)"
  shows "in_causal_past (ol_entries ol) ancestor next_hashes \<longleftrightarrow>
    entries_of ol ancestor \<noteq> None \<and> (\<exists>h \<in> set next_hashes. (h, ancestor) \<in> (parent_rel (entries_of ol))\<^sup>*)"
  using in_causal_past_iff[of "ol_entries ol" ancestor next_hashes] reachable_ok[OF assms] structure_okD(1)[of D ol]
  by (auto simp: past_of_def oplog_ok_def)

theorem causal_past_exact_witness:
  "in_causal_past (ol_entries sample_log) (he_hash sample_hashed) [he_hash sample_hashed]"
  using causal_past_exact[OF sample_reachable(2) sample_inj] by (simp add: sample_log_entries(1))

text \<open>C11: The loop that collects a capability's chain ends in every reachable oplog: one round more
  than there are entries is always enough, more rounds change nothing, and a chain of a capability held
  ends at one signed by the write list.\<close>

theorem capability_chain_ends:
  assumes "reachable D ol" "inj (multihash_of_digest D)"
  shows "(length (ol_entries ol) < n \<longrightarrow> chain_steps n ol capability_id = Some (capability_chain ol capability_id)) \<and>
    (capability_record (entries_of ol c) \<noteq> None \<longrightarrow> (\<exists>root. capability_chain ol (Some c) \<noteq> [] \<and>
       entries_of ol (last (capability_chain ol (Some c))) = Some root \<and> e_key (he_entry root) \<in> write_list ol))"
proof -
  have ok: "dag_ok (entries_of ol)" "cites_ok ol" using reachable_ok[OF assms] structure_okD(1,2)[of D ol] by (simp_all add: oplog_ok_def)
  obtain xs where xs: "chain_steps (Suc (length (ol_entries ol))) ol capability_id = Some xs" using chain_steps_enough[OF ok] by blast
  have "length (ol_entries ol) < n \<longrightarrow> chain_steps n ol capability_id = Some (capability_chain ol capability_id)"
    using chain_steps_mono[OF xs] capability_chain_eq[OF ok xs] by (simp add: Suc_le_eq)
  then show ?thesis using chain_rooted[OF ok, of c] by (cases "entries_of ol c") (auto simp: capability_record_def)
qed

theorem capability_chain_ends_witness:
  "\<exists>root. entries_of shared_log (last (capability_chain shared_log (Some (he_hash grant_hashed)))) = Some root \<and>
     e_key (he_entry root) \<in> write_list shared_log"
  using capability_chain_ends[OF shared_reachable shared_inj, where c = "he_hash grant_hashed"] by auto



end
