(* ===== verification/Append_Properties.thy ===== *)
theory Append_Properties
  imports Sample_Log
begin

text \<open>
  Local append: which heads an entry cites, its clock, and what the append does to the heads.
\<close>

section \<open>Selecting the heads to cite\<close>

definition reaches :: "oplog \<Rightarrow> string option \<Rightarrow> string \<Rightarrow> bool" where
  "reaches ol capability_id h = (case capability_id of None \<Rightarrow> True
     | Some c \<Rightarrow> h = c \<or> in_causal_past (ol_entries ol) c [h])"

definition sorted_heads :: "oplog \<Rightarrow> string list" where
  "sorted_heads ol = sort_by (compare_heads ol) (ol_heads ol)"

lemma select_next_cases:
  obtains "length (ol_heads ol) \<le> 256" "select_next ol c = sort_by compare_strings (sorted_heads ol)"
  | "256 < length (ol_heads ol)" "list_ex (reaches ol c) (take 256 (sorted_heads ol)) \<or> \<not> list_ex (reaches ol c) (drop 256 (sorted_heads ol))"
    "select_next ol c = sort_by compare_strings (take 256 (sorted_heads ol))"
  | h where "256 < length (ol_heads ol)" "h \<in> set (drop 256 (sorted_heads ol))" "reaches ol c h"
    "select_next ol c = sort_by compare_strings ((take 256 (sorted_heads ol))[255 := h])"
proof -
  have len: "length (sorted_heads ol) = length (ol_heads ol)" by (simp add: sorted_heads_def)
  have r: "(\<lambda>h. case c of None \<Rightarrow> True | Some c \<Rightarrow> h = c \<or> in_causal_past (ol_entries ol) c [h]) = reaches ol c"
    by (rule ext) (simp add: reaches_def)
  have eq: "select_next ol c = sort_by compare_strings
      (if 256 < length (ol_heads ol) \<and> \<not> list_ex (reaches ol c) (take 256 (sorted_heads ol))
       then (case List.find (reaches ol c) (drop 256 (sorted_heads ol)) of None \<Rightarrow> take 256 (sorted_heads ol)
           | Some h \<Rightarrow> (take 256 (sorted_heads ol))[length (take 256 (sorted_heads ol)) - 1 := h])
       else take 256 (sorted_heads ol))"
    unfolding select_next_def Let_def MAX_CITED_HEADS_def r sorted_heads_def[symmetric] len ..
  show thesis
  proof (cases "256 < length (ol_heads ol)")
    case False
    then show thesis using that(1) eq len by simp
  next
    case True
    show thesis
    proof (cases "list_ex (reaches ol c) (take 256 (sorted_heads ol))")
      case hit: True
      then show thesis using that(2) eq True by simp
    next
      case miss: False
      show thesis
      proof (cases "List.find (reaches ol c) (drop 256 (sorted_heads ol))")
        case None
        then have "\<not> list_ex (reaches ol c) (drop 256 (sorted_heads ol))" by (simp add: find_None_iff list_ex_iff)
        then show thesis using that(2) eq True None by simp
      next
        case (Some h)
        then have "h \<in> set (drop 256 (sorted_heads ol))" "reaches ol c h" by (metis find_Some_iff nth_mem, metis find_Some_iff)
        then show thesis using that(3)[OF True] eq True miss Some len by simp
      qed
    qed
  qed
qed

lemma select_next_spec:
  assumes "distinct (ol_heads ol)"
  shows "set (select_next ol c) \<subseteq> set (ol_heads ol) \<and> distinct (select_next ol c) \<and> length (select_next ol c) = min 256 (length (ol_heads ol)) \<and>
    ((\<exists>h \<in> set (ol_heads ol). reaches ol c h) \<longrightarrow> (\<exists>h \<in> set (select_next ol c). reaches ol c h))"
proof -
  define heads where "heads = sorted_heads ol"
  have heads: "set heads = set (ol_heads ol)" "length heads = length (ol_heads ol)" "distinct heads"
    using assms by (simp_all add: heads_def sorted_heads_def)
  have parts: "set (take 256 heads) \<union> set (drop 256 heads) = set heads" by (metis append_take_drop_id set_append)
  have apart: "set (take 256 heads) \<inter> set (drop 256 heads) = {}" using heads(3) by (metis append_take_drop_id distinct_append)
  show ?thesis
  proof (cases rule: select_next_cases[of ol c, folded heads_def])
    case 1
    then show ?thesis using heads by auto
  next
    case 2
    have "(\<exists>h \<in> set (ol_heads ol). reaches ol c h) \<longrightarrow> (\<exists>h \<in> set (take 256 heads). reaches ol c h)"
      using 2(2) parts heads(1) by (auto simp: list_ex_iff)
    with 2 heads parts show ?thesis by (auto simp: distinct_take)
  next
    case (3 h)
    have "set ((take 256 heads)[255 := h]) \<subseteq> insert h (set (take 256 heads))" by (rule set_update_subset_insert)
    moreover have "distinct ((take 256 heads)[255 := h])" using heads(3) 3(2) apart by (intro distinct_list_update) auto
    moreover have "h \<in> set ((take 256 heads)[255 := h])" by (rule set_update_memI) (use 3(1) heads(2) in simp)
    ultimately show ?thesis using 3 heads parts by auto
  qed
qed

lemma foldl_max_clock: "foldl (\<lambda>m h. max m (clock_of ol h)) m hs = max m (Max (insert 0 (clock_of ol ` set hs)))"
proof (induction hs arbitrary: m)
  case (Cons h hs)
  have "Max (insert (clock_of ol h) (insert 0 (clock_of ol ` set hs))) = max (clock_of ol h) (Max (insert 0 (clock_of ol ` set hs)))"
    by (rule Max_insert) simp_all
  with Cons show ?case by (simp add: insert_commute max.assoc)
qed simp

lemma sign_local_entry_fields:
  assumes "sign_local_entry D ol payload kp = Inr e"
  shows "parents e = select_next ol (if is_record payload then as_string (get ''capability_id'' payload) else None)"
    "e_time e = foldl (\<lambda>m h. max m (clock_of ol h)) 0 (parents e) + 1" "e_payload (he_entry e) = payload"
    "e_key (he_entry e) = compressed_pubkey_from_private D (private_key kp)" "e_id (he_entry e) = chain_address (ol_chain ol)"
  using assms
  by (auto simp: sign_local_entry_def result_simps Let_def build_unsigned_entry_Inr_iff verify_entry_Inr hash_signed_entry_def with_hash_def
      sign_entry_def unsigned_entry.defs signed_entry.defs)

definition sample_key_pair :: key_pair where
  "sample_key_pair = \<lparr>private_key = utf8ToBytes sample_pubkey, public_key = sample_pubkey\<rparr>"

text \<open>The owner of the sample library appends a first entry.\<close>

lemma sample_append_first:
  assumes "payload_ok (sample_deps table) recordstore p" "\<not> is_put p"
    and "length (sample_encode (signed_fields (sample_sign p [] 1 sample_pubkey))) \<le> SIGNED_ENTRY_MAX_BYTES"
  shows "\<exists>ol' access. append_entry_with_access (sample_deps table) (create_oplog sample_log_chain) (payload_value p) sample_key_pair =
    Inr (ol', as_verified (hash_signed_entry (sample_deps table) (sample_sign p [] 1 sample_pubkey)) p, access)"
proof -
  let ?D = "sample_deps table" and ?ol = "create_oplog sample_log_chain"
  let ?h = "hash_signed_entry ?D (sample_sign p [] 1 sample_pubkey)"
  have "validate_operation ?D (payload_value p) recordstore False = Inr p" by (rule validate_operation_payload_value[OF assms(1)])
  then have dup: "assert_not_duplicate ?D ?ol (payload_value p) = Inr ()"
    using assms(2) by (simp add: assert_not_duplicate_def create_oplog_def sample_log_chain_def is_put_def split: entry_payload.splits)
  have "check_entry ?D sample_log_chain ?h = Inr p"
    by (rule sample_checked[OF _ _ _ _ assms(1,3)]) (simp_all add: pointers_ok_def MAX_SAFE_INTEGER_def sample_log_chain_def)
  then have "verify_entry ?D ?ol ?h = Inr (as_verified ?h p)"
    by (simp add: verify_entry_def assert_clock_def expected_clock_time_def authorise_entry_def is_write_list_key_def create_oplog_def)
       (simp add: sample_log_chain_def)
  moreover have "build_unsigned_entry (chain_address (ol_chain ?ol)) (payload_value p) [] [] \<lparr>clock_id = sample_pubkey, clock_time = 1\<rparr> =
      Inr (sample_unsigned p [] 1 sample_pubkey)"
    by (simp add: build_unsigned_entry_Inr_iff sample_unsigned_def create_oplog_def sample_log_chain_def unsigned_ok_def pointers_ok_def
        MAX_SAFE_INTEGER_def)
  moreover have "select_next ?ol c = []" for c by (simp add: select_next_def create_oplog_def)
  moreover have "sign_entry ?D u k = sign_entry (sample_deps []) u k" for u k
    by (simp add: sign_entry_def signing_digest_def encode_canonical_def compressed_pubkey_from_private_def sample_deps_def)
  ultimately have "sign_local_entry ?D ?ol (payload_value p) sample_key_pair = Inr (as_verified ?h p)"
    using dup by (simp add: sign_local_entry_def Let_def sample_sign_def[symmetric] sample_key_pair_def)
  then show ?thesis by (simp add: append_entry_with_access_def Let_def case_prod_unfold)
qed

lemma sample_append:
  "\<exists>ol' access. append_entry_with_access sample_log_deps (create_oplog sample_log_chain) (payload_value sample_del) sample_key_pair =
     Inr (ol', as_verified sample_hashed sample_del, access)"
  unfolding sample_log_deps_def sample_hashed_def
  by (rule sample_append_first[OF _ _ sample_del_fits]) (simp_all add: payload_ok_def sample_del_def MAX_SAFE_INTEGER_def is_put_def)

section \<open>Property\<close>

text \<open>C9: A local append signs an entry over the library's current heads: every head when there are
  at most 256 and 256 of them otherwise, among them one that has the cited capability in its past when any
  head has; its clock is one more than the greatest it cites. The entry joins the oplog and
  replaces exactly the heads it cites.\<close>

theorem local_append:
  assumes "reachable D ol" "inj (multihash_of_digest D)" "append_entry_with_access D ol payload kp = Inr (ol', e, access)"
    "omap_get (ol_entries ol) (he_hash e) = None"
  shows "set (parents e) \<subseteq> set (ol_heads ol) \<and> distinct (parents e) \<and> length (parents e) = min 256 (length (ol_heads ol)) \<and>
    ((\<exists>h \<in> set (ol_heads ol). reaches ol (if is_record payload then as_string (get ''capability_id'' payload) else None) h) \<longrightarrow>
       (\<exists>h \<in> set (parents e). reaches ol (if is_record payload then as_string (get ''capability_id'' payload) else None) h)) \<and>
    e_time e = Suc (Max (insert 0 (clock_of ol ` set (parents e)))) \<and> e_payload (he_entry e) = payload \<and>
    entries_of ol' = (entries_of ol)(he_hash e \<mapsto> e) \<and>
    set (ol_heads ol') = insert (he_hash e) (set (ol_heads ol) - set (parents e))"
proof -
  have ok: "oplog_ok D ol" "structure_ok D ol" using reachable_ok[OF assms(1,2)] by (simp_all add: oplog_ok_def)
  note a = append_ok[OF ok(1) assms(2-4)]
  from append_Inr[OF assms(3)] have s: "sign_local_entry D ol payload kp = Inr e" by blast
  note f = sign_local_entry_fields[OF s]
  have heads: "set (ol_heads x) = dom (entries_of x) - (\<Union>y \<in> ran (entries_of x). set (parents y))" if "structure_ok D x" for x
    using that by (simp add: structure_ok_def)
  have "set (ol_heads ol') = insert (he_hash e) (set (ol_heads ol) - set (parents e))"
  proof -
    have ran: "ran ((entries_of ol)(he_hash e \<mapsto> e)) = insert e (ran (entries_of ol))" using assms(4) by simp
    have "set (parents y) \<subseteq> dom (entries_of ol)" if "y \<in> ran (entries_of ol)" for y
      using that dag_okD(2)[OF structure_okD(1)[OF ok(2)]] by (fastforce simp: ran_def)
    then have "he_hash e \<notin> (\<Union>y \<in> ran (entries_of ol). set (parents y))" using assms(4) by blast
    moreover have sub: "set (parents e) \<subseteq> set (ol_heads ol)"
      using select_next_spec[of ol] ok(2) unfolding f(1) by (simp add: structure_ok_def)
    then have "he_hash e \<notin> set (parents e)" using heads[OF ok(2)] assms(4) by auto
    ultimately show ?thesis using heads[OF ok(2)] heads[of ol'] a(1,3) ran by (auto simp: oplog_ok_def)
  qed
  then show ?thesis
    using select_next_spec[of ol] ok(2) f(2,3) a(3) unfolding foldl_max_clock f(1) by (simp add: structure_ok_def)
qed

theorem local_append_witness:
  "\<exists>ol' access. append_entry_with_access sample_log_deps (create_oplog sample_log_chain) (payload_value sample_del)
     sample_key_pair = Inr (ol', as_verified sample_hashed sample_del, access) \<and>
     set (ol_heads ol') = {he_hash sample_hashed}"
proof -
  obtain ol' access where a: "append_entry_with_access sample_log_deps (create_oplog sample_log_chain) (payload_value sample_del)
     sample_key_pair = Inr (ol', as_verified sample_hashed sample_del, access)"
    using sample_append by blast
  have "set (ol_heads ol') = {he_hash sample_hashed}"
    using local_append[OF sample_reachable(1) sample_inj a] by (simp add: create_oplog_def)
  with a show ?thesis by blast
qed

end
