(* ===== verification/Traversal.thy ===== *)
theory Traversal
  imports Dag
begin

text \<open>
  The bounded fetch traversal (\<open>src/replication/traversal.ts\<close>) with the check of a fetched entry
  (\<open>verify_fetched\<close> of \<open>replicator.ts\<close>). The closure's variables are the fields of a record, every
  method and every callback of a fetch or its timer is a function on it, and a run is a sequence of
  these events in any order. A fetch is known by a token, as the code knows it by the identity of its
  record, so that the callbacks of a fetch that was settled already are events too.
\<close>

section \<open>State\<close>

record traversal =
  tv_enqueued :: "string oset"
  tv_fetched :: "string oset"
  tv_unresolved :: "string oset"
  tv_rejected :: "(string, protocol_error) omap"
  tv_in_flight :: "(string, nat) omap"
  tv_queue :: "string list"
  tv_paused :: bool
  tv_waiters :: "nat list"
  tv_tokens :: nat
  tv_starts :: "string list"
  tv_entries :: "(string \<times> hashed_entry) list"
  tv_resolved :: "nat list"
  tv_changes :: nat

text \<open>
  The last five fields record what the closure does to its surroundings: the next token, the
  calls of \<open>fetch\<close>, the entries given to \<open>on_entry\<close> since the last discard, the callers of \<open>idle\<close>
  that were resumed, and the calls of \<open>on_change\<close>.
\<close>

definition empty_traversal :: traversal where
  "empty_traversal = \<lparr>tv_enqueued = [], tv_fetched = [], tv_unresolved = [], tv_rejected = [], tv_in_flight = [], tv_queue = [],
     tv_paused = False, tv_waiters = [], tv_tokens = 0, tv_starts = [], tv_entries = [], tv_resolved = [], tv_changes = 0\<rparr>"

definition is_safe_integer :: "rat \<Rightarrow> bool" where
  "is_safe_integer x = (snd (quotient_of x) = 1 \<and> \<bar>fst (quotient_of x)\<bar> \<le> MAX_SAFE_INTEGER)"

text \<open>\<open>None\<close> where the construction throws a RangeError.\<close>

definition create_traversal :: "rat \<Rightarrow> rat \<Rightarrow> traversal option" where
  "create_traversal concurrency timeout_ms =
     (if \<not> is_safe_integer concurrency \<or> concurrency < 1 then None
      else if timeout_ms \<le> 0 then None else Some empty_traversal)"

definition children_of :: "hashed_entry \<Rightarrow> string list" where
  "children_of e = e_next (he_entry e) @ e_refs (he_entry e)"

definition verify_fetched :: "deps \<Rightarrow> resolved_chain \<Rightarrow> string \<Rightarrow> bytes \<Rightarrow> hashed_entry result" where
  "verify_fetched D chain h bs =
     and_then (decode_signed_entry D bs) (\<lambda>hashed.
       if he_hash hashed \<noteq> h then Inl cid_mismatch
       else and_then (check_entry D chain hashed) (\<lambda>_. Inr hashed))"

section \<open>Operations\<close>

definition is_idle :: "traversal \<Rightarrow> bool" where
  "is_idle tv = (length (tv_in_flight tv) = 0 \<and> (tv_paused tv \<or> length (tv_queue tv) = 0))"

definition changed :: "traversal \<Rightarrow> traversal" where
  "changed tv = (let tv1 = tv\<lparr>tv_changes := Suc (tv_changes tv)\<rparr>
     in if \<not> is_idle tv1 then tv1
        else tv1\<lparr>tv_waiters := [], tv_resolved := tv_resolved tv1 @ tv_waiters tv1\<rparr>)"

definition settle :: "string \<Rightarrow> nat \<Rightarrow> traversal \<Rightarrow> traversal option" where
  "settle h token tv = (if omap_get (tv_in_flight tv) h \<noteq> Some token then None
     else Some (tv\<lparr>tv_in_flight := omap_delete h (tv_in_flight tv)\<rparr>))"

fun add_hashes :: "(string \<Rightarrow> bool) \<Rightarrow> string list \<Rightarrow> traversal \<Rightarrow> traversal" where
  "add_hashes is_landed [] tv = tv"
| "add_hashes is_landed (h # hs) tv = add_hashes is_landed hs
     (if is_landed h then tv
      else if h \<notin> set (tv_enqueued tv) then
        tv\<lparr>tv_enqueued := oset_add h (tv_enqueued tv), tv_queue := tv_queue tv @ [h]\<rparr>
      else if h \<in> set (tv_unresolved tv) \<and> \<not> omap_has (tv_in_flight tv) h then
        tv\<lparr>tv_unresolved := oset_delete h (tv_unresolved tv), tv_queue := tv_queue tv @ [h]\<rparr>
      else tv)"

definition land :: "(string \<Rightarrow> bool) \<Rightarrow> (string \<Rightarrow> bytes \<Rightarrow> hashed_entry result) \<Rightarrow> string \<Rightarrow> bytes \<Rightarrow> traversal \<Rightarrow> traversal" where
  "land is_landed verify h bs tv =
     (let tv1 = tv\<lparr>tv_unresolved := oset_delete h (tv_unresolved tv)\<rparr>
      in case verify h bs of
           Inl err \<Rightarrow> tv1\<lparr>tv_rejected := omap_set h err (tv_rejected tv1)\<rparr>
         | Inr e \<Rightarrow> add_hashes is_landed (children_of e)
             (tv1\<lparr>tv_fetched := oset_add h (tv_fetched tv1), tv_entries := tv_entries tv1 @ [(h, e)]\<rparr>))"

definition start :: "string \<Rightarrow> traversal \<Rightarrow> traversal" where
  "start h tv = tv\<lparr>tv_in_flight := omap_set h (tv_tokens tv) (tv_in_flight tv), tv_tokens := Suc (tv_tokens tv),
     tv_starts := tv_starts tv @ [h]\<rparr>"

fun pump_loop :: "(string \<Rightarrow> bool) \<Rightarrow> nat \<Rightarrow> string list \<Rightarrow> traversal \<Rightarrow> traversal" where
  "pump_loop is_landed concurrency [] tv = tv\<lparr>tv_queue := []\<rparr>"
| "pump_loop is_landed concurrency (h # hs) tv =
     (if length (tv_in_flight tv) < concurrency then
        pump_loop is_landed concurrency hs
          (if \<not> is_landed h \<and> h \<notin> set (tv_fetched tv) \<and> \<not> omap_has (tv_in_flight tv) h then start h tv else tv)
      else tv\<lparr>tv_queue := h # hs\<rparr>)"

definition pump :: "(string \<Rightarrow> bool) \<Rightarrow> nat \<Rightarrow> traversal \<Rightarrow> traversal" where
  "pump is_landed concurrency tv =
     changed (if \<not> tv_paused tv then pump_loop is_landed concurrency (tv_queue tv) tv else tv)"

definition enqueue :: "(string \<Rightarrow> bool) \<Rightarrow> nat \<Rightarrow> string list \<Rightarrow> traversal \<Rightarrow> traversal" where
  "enqueue is_landed concurrency hs tv = pump is_landed concurrency (add_hashes is_landed hs tv)"

definition pause :: "traversal \<Rightarrow> traversal" where
  "pause tv = changed (tv\<lparr>tv_paused := True, tv_unresolved := fold oset_add (omap_keys (tv_in_flight tv)) (tv_unresolved tv)\<rparr>)"

definition resume :: "(string \<Rightarrow> bool) \<Rightarrow> nat \<Rightarrow> traversal \<Rightarrow> traversal" where
  "resume is_landed concurrency tv =
     (let waiting = List.filter (\<lambda>h. \<not> is_landed h) (tv_unresolved tv);
          retry = List.filter (\<lambda>h. \<not> omap_has (tv_in_flight tv) h) waiting
      in pump is_landed concurrency
           (tv\<lparr>tv_paused := False, tv_unresolved := fold oset_delete retry waiting,
              tv_queue := retry @ List.filter (\<lambda>h. h \<notin> set retry) (tv_queue tv)\<rparr>))"

definition discard :: "traversal \<Rightarrow> traversal" where
  "discard tv = changed (tv\<lparr>tv_in_flight := [], tv_queue := [], tv_enqueued := [], tv_fetched := [], tv_unresolved := [],
     tv_rejected := [], tv_entries := []\<rparr>)"

definition idle :: "nat \<Rightarrow> traversal \<Rightarrow> traversal" where
  "idle caller tv = (if is_idle tv then tv\<lparr>tv_resolved := tv_resolved tv @ [caller]\<rparr>
     else tv\<lparr>tv_waiters := tv_waiters tv @ [caller]\<rparr>)"

definition outstanding :: "traversal \<Rightarrow> nat" where
  "outstanding tv = length (oset_of (tv_queue tv @ omap_keys (tv_in_flight tv) @ tv_unresolved tv))"

text \<open>The callbacks of a started fetch: its timer, its answer and its failure.\<close>

definition on_timeout :: "(string \<Rightarrow> bool) \<Rightarrow> nat \<Rightarrow> string \<Rightarrow> nat \<Rightarrow> traversal \<Rightarrow> traversal" where
  "on_timeout is_landed concurrency h token tv = (case settle h token tv of
     None \<Rightarrow> tv
   | Some tv1 \<Rightarrow> pump is_landed concurrency (tv1\<lparr>tv_unresolved := oset_add h (tv_unresolved tv1)\<rparr>))"

definition on_answer ::
  "(string \<Rightarrow> bool) \<Rightarrow> nat \<Rightarrow> (string \<Rightarrow> bytes \<Rightarrow> hashed_entry result) \<Rightarrow> string \<Rightarrow> nat \<Rightarrow> bytes option \<Rightarrow> traversal \<Rightarrow> traversal" where
  "on_answer is_landed concurrency verify h token answer tv = (case settle h token tv of
     None \<Rightarrow> tv
   | Some tv1 \<Rightarrow> pump is_landed concurrency (case answer of
       None \<Rightarrow> tv1\<lparr>tv_unresolved := oset_add h (tv_unresolved tv1)\<rparr>
     | Some bs \<Rightarrow> land is_landed verify h bs tv1))"

definition on_failure :: "(string \<Rightarrow> bool) \<Rightarrow> nat \<Rightarrow> string \<Rightarrow> nat \<Rightarrow> traversal \<Rightarrow> traversal" where
  "on_failure is_landed concurrency h token tv = (case settle h token tv of
     None \<Rightarrow> tv
   | Some tv1 \<Rightarrow> pump is_landed concurrency (tv1\<lparr>tv_unresolved := oset_add h (tv_unresolved tv1)\<rparr>))"

section \<open>Runs\<close>

datatype traversal_event =
    Enqueue "string list"
  | Pause
  | Resume
  | Discard
  | Idle nat
  | Answer string nat "bytes option"
  | Failure string nat
  | Timeout string nat

fun handle :: "(string \<Rightarrow> bytes \<Rightarrow> hashed_entry result) \<Rightarrow> nat \<Rightarrow> (string \<Rightarrow> bool) \<Rightarrow> traversal_event \<Rightarrow> traversal \<Rightarrow> traversal" where
  "handle verify n is_landed (Enqueue hs) tv = enqueue is_landed n hs tv"
| "handle verify n is_landed Pause tv = pause tv"
| "handle verify n is_landed Resume tv = resume is_landed n tv"
| "handle verify n is_landed Discard tv = discard tv"
| "handle verify n is_landed (Idle caller) tv = idle caller tv"
| "handle verify n is_landed (Answer h token answer) tv = on_answer is_landed n verify h token answer tv"
| "handle verify n is_landed (Failure h token) tv = on_failure is_landed n h token tv"
| "handle verify n is_landed (Timeout h token) tv = on_timeout is_landed n h token tv"

text \<open>Runs: events in any order, while the set of hashes that landed in the oplog only grows.\<close>

inductive traversal_run :: "(string \<Rightarrow> bytes \<Rightarrow> hashed_entry result) \<Rightarrow> nat \<Rightarrow> string set \<Rightarrow> traversal \<Rightarrow> bool" for verify n where
  created: "traversal_run verify n landed empty_traversal"
| event: "traversal_run verify n landed tv \<Longrightarrow> landed \<subseteq> landed' \<Longrightarrow>
    traversal_run verify n landed' (handle verify n (\<lambda>h. h \<in> landed') ev tv)"

section \<open>Invariant\<close>

abbreviation flying :: "traversal \<Rightarrow> string set" where
  "flying tv \<equiv> fst ` set (tv_in_flight tv)"

abbreviation refused :: "traversal \<Rightarrow> string set" where
  "refused tv \<equiv> fst ` set (tv_rejected tv)"

text \<open>
  Where the hashes are: each is queued, in flight, unresolved, fetched or refused, or landed; only a
  hash in flight can be unresolved as well.
\<close>

definition cell :: "bool \<Rightarrow> bool \<Rightarrow> bool \<Rightarrow> bool \<Rightarrow> bool \<Rightarrow> bool \<Rightarrow> bool \<Rightarrow> bool" where
  "cell q f u e r a l \<longleftrightarrow> (q \<longrightarrow> \<not> f \<and> \<not> u) \<and> (q \<or> f \<or> u \<longrightarrow> \<not> e \<and> \<not> r) \<and> (e \<longrightarrow> \<not> r) \<and>
     (q \<or> f \<or> u \<or> e \<or> r \<longrightarrow> a) \<and> (a \<longrightarrow> q \<or> f \<or> u \<or> e \<or> r \<or> l)"

definition spread :: "'a set \<Rightarrow> 'a set \<Rightarrow> 'a set \<Rightarrow> 'a set \<Rightarrow> 'a set \<Rightarrow> 'a set \<Rightarrow> 'a set \<Rightarrow> bool" where
  "spread Q F U E R A l \<longleftrightarrow> (\<forall>x. cell (x \<in> Q) (x \<in> F) (x \<in> U) (x \<in> E) (x \<in> R) (x \<in> A) (x \<in> l))"

lemma spread_moves:
  assumes "spread Q F U E R A l"
  shows "l \<subseteq> l' \<Longrightarrow> spread Q F U E R A l'"
    "h \<notin> A \<Longrightarrow> spread (insert h Q) F U E R (insert h A) l"
    "h \<in> U \<Longrightarrow> h \<notin> F \<Longrightarrow> spread (insert h Q) F (U - {h}) E R A l"
    "h \<in> Q \<Longrightarrow> spread (Q - {h}) (insert h F) U E R A l"
    "h \<in> l \<Longrightarrow> spread (Q - {h}) F U E R A l"
    "h \<in> F \<Longrightarrow> spread Q (F - {h}) (insert h U) E R A l"
    "h \<in> F \<Longrightarrow> spread Q (F - {h}) (U - {h}) (insert h E) R A l"
    "h \<in> F \<Longrightarrow> spread Q (F - {h}) (U - {h}) E (insert h R) A l"
    "spread Q F (U \<union> F) E R A l"
    "X \<subseteq> U \<Longrightarrow> X \<inter> F = {} \<Longrightarrow> spread (Q \<union> X) F (U - X) E R A l"
    "spread Q F (U - l) E R A l"
proof -
  have c: "cell (x \<in> Q) (x \<in> F) (x \<in> U) (x \<in> E) (x \<in> R) (x \<in> A) (x \<in> l)" for x using assms by (simp add: spread_def)
  note defs = spread_def cell_def
  show "l \<subseteq> l' \<Longrightarrow> spread Q F U E R A l'" unfolding defs using c[unfolded cell_def] by (metis subsetD)
  show "h \<notin> A \<Longrightarrow> spread (insert h Q) F U E R (insert h A) l" unfolding defs using c[unfolded cell_def] by (metis insert_iff)
  show "h \<in> U \<Longrightarrow> h \<notin> F \<Longrightarrow> spread (insert h Q) F (U - {h}) E R A l" unfolding defs using c[unfolded cell_def] by (metis Diff_iff insert_iff singletonD)
  show "h \<in> Q \<Longrightarrow> spread (Q - {h}) (insert h F) U E R A l" unfolding defs using c[unfolded cell_def] by (metis Diff_iff insert_iff singletonD)
  show "h \<in> l \<Longrightarrow> spread (Q - {h}) F U E R A l" unfolding defs using c[unfolded cell_def] by (metis Diff_iff insert_iff singletonD)
  show "h \<in> F \<Longrightarrow> spread Q (F - {h}) (insert h U) E R A l" unfolding defs using c[unfolded cell_def] by (metis Diff_iff insert_iff singletonD)
  show "h \<in> F \<Longrightarrow> spread Q (F - {h}) (U - {h}) (insert h E) R A l" unfolding defs using c[unfolded cell_def] by (metis Diff_iff insert_iff singletonD)
  show "h \<in> F \<Longrightarrow> spread Q (F - {h}) (U - {h}) E (insert h R) A l" unfolding defs using c[unfolded cell_def] by (metis Diff_iff insert_iff singletonD)
  show "spread Q F (U \<union> F) E R A l" unfolding defs using c[unfolded cell_def] by (metis UnE UnI1)
  show "X \<subseteq> U \<Longrightarrow> X \<inter> F = {} \<Longrightarrow> spread (Q \<union> X) F (U - X) E R A l" unfolding defs using c[unfolded cell_def] by (metis Diff_iff Un_iff disjoint_iff subsetD)
  show "spread Q F (U - l) E R A l" unfolding defs using c[unfolded cell_def] by (metis Diff_iff)
qed

lemma spreadD:
  assumes "spread Q F U E R A l"
  shows "x \<in> Q \<Longrightarrow> x \<notin> F \<and> x \<notin> U \<and> x \<notin> E \<and> x \<notin> R \<and> x \<in> A" "x \<in> U \<Longrightarrow> x \<notin> Q \<and> x \<notin> E \<and> x \<notin> R"
    "x \<in> A \<Longrightarrow> x \<notin> l \<Longrightarrow> x \<in> Q \<or> x \<in> F \<or> x \<in> U \<or> x \<in> E \<or> x \<in> R"
    "x \<in> F \<Longrightarrow> x \<notin> E \<and> x \<notin> R \<and> x \<in> A"
  using assms unfolding spread_def cell_def by metis+

definition places_ok :: "string set \<Rightarrow> traversal \<Rightarrow> bool" where
  "places_ok landed tv \<longleftrightarrow> distinct (tv_queue tv) \<and> distinct (omap_keys (tv_in_flight tv)) \<and> distinct (tv_unresolved tv) \<and>
     spread (set (tv_queue tv)) (flying tv) (set (tv_unresolved tv)) (set (tv_fetched tv)) (refused tv) (set (tv_enqueued tv)) landed"

text \<open>The entries handed on are those fetched, and what they point to is enqueued or landed.\<close>

definition entries_ok :: "(string \<Rightarrow> bytes \<Rightarrow> hashed_entry result) \<Rightarrow> string set \<Rightarrow> traversal \<Rightarrow> bool" where
  "entries_ok verify landed tv \<longleftrightarrow> fst ` set (tv_entries tv) = set (tv_fetched tv) \<and>
     (\<forall>(h, e) \<in> set (tv_entries tv). (\<exists>bs. verify h bs = Inr e) \<and> set (children_of e) \<subseteq> set (tv_enqueued tv) \<union> landed)"

definition resting :: "nat \<Rightarrow> traversal \<Rightarrow> bool" where
  "resting n tv \<longleftrightarrow> length (tv_in_flight tv) \<le> n \<and>
     (\<not> tv_paused tv \<longrightarrow> tv_queue tv = [] \<or> length (tv_in_flight tv) = n) \<and> (is_idle tv \<longrightarrow> tv_waiters tv = [])"

lemma changed_fields [simp]:
  "tv_enqueued (changed tv) = tv_enqueued tv" "tv_fetched (changed tv) = tv_fetched tv" "tv_unresolved (changed tv) = tv_unresolved tv"
  "tv_rejected (changed tv) = tv_rejected tv" "tv_in_flight (changed tv) = tv_in_flight tv" "tv_queue (changed tv) = tv_queue tv"
  "tv_paused (changed tv) = tv_paused tv" "tv_entries (changed tv) = tv_entries tv" "tv_starts (changed tv) = tv_starts tv"
  by (simp_all add: changed_def Let_def)

lemma changed_waiters: "is_idle (changed tv) \<Longrightarrow> tv_waiters (changed tv) = []"
  by (auto simp: changed_def is_idle_def Let_def split: if_splits)

lemma changed_ok [simp]: "places_ok l (changed tv) = places_ok l tv" "entries_ok v l (changed tv) = entries_ok v l tv"
  by (simp_all add: places_ok_def entries_ok_def)

lemma entries_ok_fields:
  "tv_entries tv' = tv_entries tv \<Longrightarrow> tv_fetched tv' = tv_fetched tv \<Longrightarrow> tv_enqueued tv' = tv_enqueued tv \<Longrightarrow>
     entries_ok v l tv' = entries_ok v l tv"
  by (simp add: entries_ok_def)

lemma places_ok_mono: "places_ok l tv \<Longrightarrow> l \<subseteq> l' \<Longrightarrow> places_ok l' tv"
  unfolding places_ok_def using spread_moves(1) by blast

lemma entries_ok_mono: "entries_ok v l tv \<Longrightarrow> l \<subseteq> l' \<Longrightarrow> entries_ok v l' tv"
  unfolding entries_ok_def by fast

lemma flying_iff: "h \<in> flying tv \<longleftrightarrow> omap_has (tv_in_flight tv) h"
  by (metis map_of_eq_None_iff)

lemma add_hashes_keeps:
  "tv_fetched (add_hashes p hs tv) = tv_fetched tv" "tv_rejected (add_hashes p hs tv) = tv_rejected tv"
  "tv_in_flight (add_hashes p hs tv) = tv_in_flight tv" "tv_paused (add_hashes p hs tv) = tv_paused tv"
  "tv_entries (add_hashes p hs tv) = tv_entries tv" "tv_starts (add_hashes p hs tv) = tv_starts tv"
  "set (tv_enqueued (add_hashes p hs tv)) = set (tv_enqueued tv) \<union> {h \<in> set hs. \<not> p h}"
  by (induction hs arbitrary: tv) auto

lemma flying_queue: "places_ok l tv \<Longrightarrow> h \<in> set (tv_queue tv) \<Longrightarrow> h \<notin> flying tv \<and> h \<notin> set (tv_fetched tv)"
  unfolding places_ok_def using spreadD(1) by metis

lemma add_hashes_places: "places_ok l tv \<Longrightarrow> places_ok l (add_hashes (\<lambda>h. h \<in> l) hs tv)"
proof (induction hs arbitrary: tv)
  case (Cons h hs)
  have "h \<notin> set (tv_queue tv)" if "h \<notin> set (tv_enqueued tv) \<or> h \<in> set (tv_unresolved tv)"
    using that spreadD(1) Cons.prems unfolding places_ok_def by metis
  then have "places_ok l (if h \<in> l then tv
      else if h \<notin> set (tv_enqueued tv) then tv\<lparr>tv_enqueued := oset_add h (tv_enqueued tv), tv_queue := tv_queue tv @ [h]\<rparr>
      else if h \<in> set (tv_unresolved tv) \<and> \<not> omap_has (tv_in_flight tv) h then
        tv\<lparr>tv_unresolved := oset_delete h (tv_unresolved tv), tv_queue := tv_queue tv @ [h]\<rparr>
      else tv)"
    using Cons.prems flying_iff[of h tv] by (simp add: places_ok_def spread_moves(2,3))
  from Cons.IH[OF this] show ?case by (simp only: add_hashes.simps)
qed simp

lemma start_places:
  assumes "places_ok l (tv\<lparr>tv_queue := h # hs\<rparr>)"
  shows "places_ok l ((start h tv)\<lparr>tv_queue := hs\<rparr>)"
proof -
  have new: "h \<notin> flying tv" using flying_queue[OF assms, of h] by simp
  then have f: "omap_set h (tv_tokens tv) (tv_in_flight tv) = tv_in_flight tv @ [(h, tv_tokens tv)]"
    using flying_iff[of h tv] by (intro omap_set_new) simp
  have d: "distinct (h # hs)" using assms by (simp add: places_ok_def)
  then have "set (h # hs) - {h} = set hs" by auto
  with spread_moves(4)[of "set (h # hs)" "flying tv" _ _ _ _ l h] assms new d show ?thesis
    unfolding start_def by (simp add: places_ok_def f)
qed

lemma skip_places:
  assumes "places_ok l (tv\<lparr>tv_queue := h # hs\<rparr>)" "h \<in> l"
  shows "places_ok l (tv\<lparr>tv_queue := hs\<rparr>)"
proof -
  have d: "distinct (h # hs)" using assms by (simp add: places_ok_def)
  then have "set (h # hs) - {h} = set hs" by auto
  with spread_moves(5)[of "set (h # hs)" "flying tv" _ _ _ _ l h] assms d show ?thesis by (simp add: places_ok_def)
qed

lemma pump_loop_keeps:
  "tv_fetched (pump_loop p n q tv) = tv_fetched tv" "tv_rejected (pump_loop p n q tv) = tv_rejected tv"
  "tv_unresolved (pump_loop p n q tv) = tv_unresolved tv" "tv_enqueued (pump_loop p n q tv) = tv_enqueued tv"
  "tv_entries (pump_loop p n q tv) = tv_entries tv" "tv_paused (pump_loop p n q tv) = tv_paused tv"
  by (induction q arbitrary: tv) (auto simp: start_def)

lemma pump_loop_places:
  "places_ok l (tv\<lparr>tv_queue := q\<rparr>) \<Longrightarrow> places_ok l (pump_loop (\<lambda>h. h \<in> l) n q tv)"
proof (induction q arbitrary: tv)
  case (Cons h hs)
  show ?case
  proof (cases "length (tv_in_flight tv) < n")
    case True
    have "places_ok l ((if h \<notin> l \<and> h \<notin> set (tv_fetched tv) \<and> \<not> omap_has (tv_in_flight tv) h then start h tv else tv)\<lparr>tv_queue := hs\<rparr>)"
      using start_places[OF Cons.prems] skip_places[OF Cons.prems] flying_queue[OF Cons.prems, of h] flying_iff[of h tv] by simp
    from Cons.IH[OF this] True show ?thesis by simp
  qed (use Cons.prems in simp)
qed simp

lemma pump_loop_bound:
  "length (tv_in_flight tv) \<le> n \<Longrightarrow> length (tv_in_flight (pump_loop p n q tv)) \<le> n \<and>
     (tv_queue (pump_loop p n q tv) = [] \<or> length (tv_in_flight (pump_loop p n q tv)) = n)"
proof (induction q arbitrary: tv)
  case (Cons h hs)
  have "length (tv_in_flight (start h tv)) \<le> Suc (length (tv_in_flight tv))"
    unfolding start_def by (simp add: length_omap_set)
  with Cons show ?case by auto
qed simp

text \<open>The hashes a pump starts to fetch are queued ones that have neither landed nor been fetched.\<close>

lemma pump_loop_starts:
  "\<exists>new. tv_starts (pump_loop p n q tv) = tv_starts tv @ new \<and> set new \<subseteq> set q \<and> (\<forall>h \<in> set new. \<not> p h \<and> h \<notin> set (tv_fetched tv))"
proof (induction q arbitrary: tv)
  case (Cons h hs)
  show ?case
  proof (cases "length (tv_in_flight tv) < n")
    case True
    let ?tv = "if \<not> p h \<and> h \<notin> set (tv_fetched tv) \<and> \<not> omap_has (tv_in_flight tv) h then start h tv else tv"
    obtain new where new: "tv_starts (pump_loop p n hs ?tv) = tv_starts ?tv @ new" "set new \<subseteq> set hs"
      "\<forall>h \<in> set new. \<not> p h \<and> h \<notin> set (tv_fetched ?tv)" using Cons.IH by blast
    have same: "tv_fetched ?tv = tv_fetched tv" by (simp add: start_def)
    show ?thesis
    proof (cases "\<not> p h \<and> h \<notin> set (tv_fetched tv) \<and> \<not> omap_has (tv_in_flight tv) h")
      case start: True
      then have "tv_starts ?tv = tv_starts tv @ [h]" by (simp add: start_def)
      with new same start True show ?thesis by (intro exI[of _ "h # new"]) auto
    next
      case False
      then have "?tv = tv" by (rule if_not_P)
      with new True False show ?thesis by (intro exI[of _ new]) auto
    qed
  qed simp
qed simp

lemma pump_places: "places_ok l tv \<Longrightarrow> places_ok l (pump (\<lambda>h. h \<in> l) n tv)"
  using pump_loop_places[where tv = tv and q = "tv_queue tv" and n = n and l = l] by (simp add: pump_def)

lemma pump_entries: "entries_ok v l (pump p n tv) = entries_ok v l tv"
  unfolding pump_def by (simp add: entries_ok_fields[of "pump_loop p n (tv_queue tv) tv" tv] pump_loop_keeps)

lemma pump_resting: "length (tv_in_flight tv) \<le> n \<Longrightarrow> resting n (pump p n tv)"
  using pump_loop_bound[of tv n p "tv_queue tv"] changed_waiters by (auto simp: resting_def pump_def pump_loop_keeps)

lemma flying_delete: "fst ` set (omap_delete h m) = fst ` set m - {h}"
  using delete_keys[of h m] by (simp only: set_map[symmetric] set_removeAll)

text \<open>A settled hash moves to the unresolved, the fetched or the refused ones.\<close>

lemma settled_places:
  assumes "places_ok l tv" "h \<in> flying tv"
  shows "places_ok l (tv\<lparr>tv_in_flight := omap_delete h (tv_in_flight tv), tv_unresolved := oset_add h (tv_unresolved tv)\<rparr>)"
    "places_ok l (tv\<lparr>tv_in_flight := omap_delete h (tv_in_flight tv), tv_unresolved := oset_delete h (tv_unresolved tv),
       tv_fetched := oset_add h (tv_fetched tv), tv_entries := es\<rparr>)"
    "places_ok l (tv\<lparr>tv_in_flight := omap_delete h (tv_in_flight tv), tv_unresolved := oset_delete h (tv_unresolved tv),
       tv_rejected := omap_set h err (tv_rejected tv)\<rparr>)"
proof -
  have "fst ` set (omap_set h err m) = insert h (fst ` set m)" for m :: "(string, protocol_error) omap"
    by (metis dom_map_of_conv_image_fst dom_omap_set)
  note f = this flying_delete and d = distinct_delete[of "tv_in_flight tv" h]
  show "places_ok l (tv\<lparr>tv_in_flight := omap_delete h (tv_in_flight tv), tv_unresolved := oset_add h (tv_unresolved tv)\<rparr>)"
    using assms d by (simp add: places_ok_def f spread_moves(6))
  show "places_ok l (tv\<lparr>tv_in_flight := omap_delete h (tv_in_flight tv), tv_unresolved := oset_delete h (tv_unresolved tv),
       tv_fetched := oset_add h (tv_fetched tv), tv_entries := es\<rparr>)"
    using assms d by (simp add: places_ok_def f spread_moves(7))
  show "places_ok l (tv\<lparr>tv_in_flight := omap_delete h (tv_in_flight tv), tv_unresolved := oset_delete h (tv_unresolved tv),
       tv_rejected := omap_set h err (tv_rejected tv)\<rparr>)"
    using assms d by (simp add: places_ok_def f spread_moves(8))
qed

lemma settle_Some: "settle h token tv = Some tv1 \<Longrightarrow> h \<in> flying tv \<and> tv1 = tv\<lparr>tv_in_flight := omap_delete h (tv_in_flight tv)\<rparr>"
  unfolding flying_iff by (auto simp: settle_def split: if_splits)

lemma entries_ok_grow:
  assumes "entries_ok v l tv" "tv_entries tv' = tv_entries tv" "tv_fetched tv' = tv_fetched tv" "set (tv_enqueued tv) \<subseteq> set (tv_enqueued tv')"
  shows "entries_ok v l tv'"
proof -
  have "(\<exists>bs. v h bs = Inr e) \<and> set (children_of e) \<subseteq> set (tv_enqueued tv') \<union> l" if "(h, e) \<in> set (tv_entries tv)" for h e
    using assms(1,4) that unfolding entries_ok_def by blast
  with assms(1) show ?thesis unfolding entries_ok_def assms(2,3) by blast
qed

lemma land_places:
  assumes "places_ok l tv" "settle h token tv = Some tv1"
  shows "places_ok l (land (\<lambda>h. h \<in> l) verify h bs tv1)"
proof -
  from settle_Some[OF assms(2)] have h: "h \<in> flying tv" and tv1: "tv1 = tv\<lparr>tv_in_flight := omap_delete h (tv_in_flight tv)\<rparr>" by blast+
  show ?thesis
  proof (cases "verify h bs")
    case (Inl err)
    then show ?thesis using settled_places(3)[OF assms(1) h, of err] by (simp add: land_def tv1 Let_def)
  next
    case (Inr e)
    from add_hashes_places[OF settled_places(2)[OF assms(1) h], where hs = "children_of e"] Inr show ?thesis
      by (simp add: land_def tv1 Let_def)
  qed
qed

lemma land_entries:
  assumes "entries_ok verify l tv" "settle h token tv = Some tv1"
  shows "entries_ok verify l (land (\<lambda>h. h \<in> l) verify h bs tv1)"
proof -
  from settle_Some[OF assms(2)] have tv1: "tv1 = tv\<lparr>tv_in_flight := omap_delete h (tv_in_flight tv)\<rparr>" by blast
  show ?thesis
  proof (cases "verify h bs")
    case (Inl err)
    then show ?thesis using assms(1) by (simp add: land_def tv1 Let_def entries_ok_def)
  next
    case (Inr e)
    then show ?thesis using assms(1) unfolding land_def tv1 Let_def
      by (simp add: entries_ok_def add_hashes_keeps) fast
  qed
qed

lemma settle_length: "settle h token tv = Some tv1 \<Longrightarrow> length (tv_in_flight tv1) \<le> length (tv_in_flight tv)"
  by (drule settle_Some) (simp add: length_delete_le)

lemma land_in_flight: "tv_in_flight (land p verify h bs tv) = tv_in_flight tv"
  by (simp add: land_def Let_def add_hashes_keeps split: sum.splits)

definition traversal_ok :: "(string \<Rightarrow> bytes \<Rightarrow> hashed_entry result) \<Rightarrow> nat \<Rightarrow> string set \<Rightarrow> traversal \<Rightarrow> bool" where
  "traversal_ok verify n l tv \<longleftrightarrow> places_ok l tv \<and> entries_ok verify l tv \<and> resting n tv"

lemma pump_ok:
  assumes "places_ok l tv" "entries_ok verify l tv" "length (tv_in_flight tv) \<le> n"
  shows "traversal_ok verify n l (pump (\<lambda>h. h \<in> l) n tv)"
  using pump_places[OF assms(1)] pump_entries assms(2) pump_resting[OF assms(3)] by (simp add: traversal_ok_def)

lemma callback_ok:
  assumes ok: "traversal_ok verify n l tv" and f: "\<And>tv1. settle h token tv = Some tv1 \<Longrightarrow>
      places_ok l (f tv1) \<and> entries_ok verify l (f tv1) \<and> tv_in_flight (f tv1) = tv_in_flight tv1"
  shows "traversal_ok verify n l (case settle h token tv of None \<Rightarrow> tv | Some tv1 \<Rightarrow> pump (\<lambda>h. h \<in> l) n (f tv1))"
proof (cases "settle h token tv")
  case (Some tv1)
  have "length (tv_in_flight tv) \<le> n" using ok by (simp add: traversal_ok_def resting_def)
  with f[OF Some] settle_length[OF Some] Some show ?thesis by (auto intro!: pump_ok)
qed (use ok in simp)

lemma resume_places:
  assumes "places_ok l tv"
  defines "waiting \<equiv> List.filter (\<lambda>h. h \<notin> l) (tv_unresolved tv)"
  defines "retry \<equiv> List.filter (\<lambda>h. \<not> omap_has (tv_in_flight tv) h) waiting"
  shows "places_ok l (tv\<lparr>tv_paused := False, tv_unresolved := fold oset_delete retry waiting,
     tv_queue := retry @ List.filter (\<lambda>h. h \<notin> set retry) (tv_queue tv)\<rparr>)"
proof -
  have fold: "set (fold oset_delete xs ys) = set ys - set xs" for xs ys :: "string list"
    by (induction xs arbitrary: ys) auto
  have w: "set waiting = set (tv_unresolved tv) - l" by (auto simp: waiting_def)
  have r: "set retry \<subseteq> set waiting" by (simp add: retry_def)
  have "h \<notin> flying tv" if "h \<in> set retry" for h using that flying_iff[of h tv] by (simp add: retry_def)
  then have r': "set retry \<inter> flying tv = {}" by blast
  have spread: "spread (set (tv_queue tv)) (flying tv) (set (tv_unresolved tv)) (set (tv_fetched tv)) (refused tv) (set (tv_enqueued tv)) l"
    using assms(1) by (simp add: places_ok_def)
  from spread_moves(10)[OF spread_moves(11)[OF spread] _ r'] w r
  have "spread (set (tv_queue tv) \<union> set retry) (flying tv) (set waiting - set retry) (set (tv_fetched tv)) (refused tv) (set (tv_enqueued tv)) l"
    by simp
  moreover define q where "q = retry @ List.filter (\<lambda>h. h \<notin> set retry) (tv_queue tv)"
  moreover have "set q = set (tv_queue tv) \<union> set retry" by (auto simp: q_def)
  moreover have "distinct (fold oset_delete xs ys)" if "distinct ys" for xs ys :: "string list"
    using that by (induction xs arbitrary: ys) auto
  moreover have "distinct waiting" "distinct retry" using assms(1) by (simp_all add: places_ok_def waiting_def retry_def)
  moreover have "distinct q" using \<open>distinct retry\<close> assms(1) by (auto simp: q_def places_ok_def)
  ultimately show ?thesis
    using assms(1) unfolding q_def[symmetric] by (simp add: places_ok_def fold)
qed

lemma handle_ok:
  assumes "traversal_ok verify n l tv" "l \<subseteq> l'"
  shows "traversal_ok verify n l' (handle verify n (\<lambda>h. h \<in> l') ev tv)"
proof -
  have ok: "traversal_ok verify n l' tv" using assms places_ok_mono entries_ok_mono unfolding traversal_ok_def by blast
  then have p: "places_ok l' tv" and e: "entries_ok verify l' tv" and n: "length (tv_in_flight tv) \<le> n"
    and spread: "spread (set (tv_queue tv)) (flying tv) (set (tv_unresolved tv)) (set (tv_fetched tv)) (refused tv) (set (tv_enqueued tv)) l'"
    by (simp_all add: traversal_ok_def resting_def places_ok_def)
  have unresolved: "places_ok l' (tv1\<lparr>tv_unresolved := oset_add h (tv_unresolved tv1)\<rparr>) \<and>
      entries_ok verify l' (tv1\<lparr>tv_unresolved := oset_add h (tv_unresolved tv1)\<rparr>)" if "settle h token tv = Some tv1" for h token tv1
    using settled_places(1)[OF p] e settle_Some[OF that] by (auto simp: entries_ok_def)
  show ?thesis
  proof (cases ev)
    case (Enqueue hs)
    have "entries_ok verify l' (add_hashes (\<lambda>h. h \<in> l') hs tv)"
      by (rule entries_ok_grow[OF e]) (simp_all add: add_hashes_keeps)
    with pump_ok[OF add_hashes_places[OF p]] n Enqueue show ?thesis by (simp add: enqueue_def add_hashes_keeps)
  next
    case Pause
    have "set (fold oset_add (omap_keys (tv_in_flight tv)) (tv_unresolved tv)) = set (tv_unresolved tv) \<union> flying tv"
      by (auto simp: set_fold_oset_add)
    with spread_moves(9)[OF spread] p e n Pause show ?thesis
      using changed_waiters by (simp add: pause_def traversal_ok_def places_ok_def entries_ok_def resting_def distinct_fold_oset_add)
  next
    case Resume
    show ?thesis unfolding Resume handle.simps resume_def Let_def
      by (rule pump_ok[OF resume_places[OF p]]) (use e n in \<open>simp_all add: entries_ok_def\<close>)
  next
    case Discard
    then show ?thesis using changed_waiters
      by (simp add: discard_def traversal_ok_def places_ok_def entries_ok_def resting_def spread_def cell_def)
  next
    case (Idle c)
    then show ?thesis using ok
      by (auto simp: idle_def traversal_ok_def places_ok_def entries_ok_def resting_def is_idle_def)
  next
    case (Answer h token answer)
    have "places_ok l' (case answer of None \<Rightarrow> tv1\<lparr>tv_unresolved := oset_add h (tv_unresolved tv1)\<rparr> | Some bs \<Rightarrow> land (\<lambda>h. h \<in> l') verify h bs tv1) \<and>
      entries_ok verify l' (case answer of None \<Rightarrow> tv1\<lparr>tv_unresolved := oset_add h (tv_unresolved tv1)\<rparr> | Some bs \<Rightarrow> land (\<lambda>h. h \<in> l') verify h bs tv1) \<and>
      tv_in_flight (case answer of None \<Rightarrow> tv1\<lparr>tv_unresolved := oset_add h (tv_unresolved tv1)\<rparr> | Some bs \<Rightarrow> land (\<lambda>h. h \<in> l') verify h bs tv1) =
        tv_in_flight tv1"
      if "settle h token tv = Some tv1" for tv1
      using unresolved[OF that] land_places[OF p that] land_entries[OF e that] by (cases answer) (simp_all add: land_in_flight)
    from callback_ok[OF ok this] Answer show ?thesis by (simp add: on_answer_def)
  next
    case (Failure h token)
    from callback_ok[OF ok, of h token "\<lambda>tv1. tv1\<lparr>tv_unresolved := oset_add h (tv_unresolved tv1)\<rparr>"] unresolved Failure
    show ?thesis by (simp add: on_failure_def)
  next
    case (Timeout h token)
    from callback_ok[OF ok, of h token "\<lambda>tv1. tv1\<lparr>tv_unresolved := oset_add h (tv_unresolved tv1)\<rparr>"] unresolved Timeout
    show ?thesis by (simp add: on_timeout_def)
  qed
qed

lemma traversal_run_ok: "traversal_run verify n l tv \<Longrightarrow> traversal_ok verify n l tv"
proof (induction rule: traversal_run.induct)
  case (created landed)
  show ?case by (simp add: empty_traversal_def traversal_ok_def places_ok_def entries_ok_def resting_def spread_def cell_def)
qed (rule handle_ok)

section \<open>Progress\<close>

lemma pump_loop_waiting: "set (tv_queue (pump_loop p n q tv)) \<union> flying (pump_loop p n q tv) \<subseteq> set q \<union> flying tv"
proof (induction q arbitrary: tv)
  case (Cons h hs)
  have "flying (start h tv) = insert h (flying tv)"
    unfolding start_def by (simp add: dom_map_of_conv_image_fst[symmetric] dom_omap_set)
  with Cons[of tv] Cons[of "start h tv"] show ?case by auto
qed simp

text \<open>The work left: hashes of a finite universe not settled for good, then those queued or in flight.\<close>

definition work_left :: "string set \<Rightarrow> traversal \<Rightarrow> nat \<times> nat" where
  "work_left U tv = (card (U - set (tv_fetched tv) - refused tv), card (set (tv_queue tv) \<union> flying tv))"

lemma pump_work:
  assumes "\<not> tv_paused tv"
  shows "tv_fetched (pump p n tv) = tv_fetched tv" "tv_rejected (pump p n tv) = tv_rejected tv"
    "set (tv_queue (pump p n tv)) \<union> flying (pump p n tv) \<subseteq> set (tv_queue tv) \<union> flying tv" "\<not> tv_paused (pump p n tv)"
    "tv_enqueued (pump p n tv) = tv_enqueued tv"
  using assms pump_loop_waiting[of p n "tv_queue tv" tv] by (simp_all add: pump_def pump_loop_keeps)

lemma unresolved_work:
  fixes p :: "string \<Rightarrow> bool"
  assumes ok: "traversal_ok verify n l tv" and run: "\<not> tv_paused tv" and s: "settle h token tv = Some tv1"
  defines "tv2 \<equiv> pump p n (tv1\<lparr>tv_unresolved := oset_add h (tv_unresolved tv1)\<rparr>)"
  shows "(work_left U tv2, work_left U tv) \<in> less_than <*lex*> less_than"
proof -
  from settle_Some[OF s] have h: "h \<in> flying tv" and tv1: "tv1 = tv\<lparr>tv_in_flight := omap_delete h (tv_in_flight tv)\<rparr>" by blast+
  have "\<not> tv_paused (tv1\<lparr>tv_unresolved := oset_add h (tv_unresolved tv1)\<rparr>)" using run by (simp add: tv1)
  note w = pump_work[OF this, where p = p and n = n, folded tv2_def]
  have "h \<notin> set (tv_queue tv)" using flying_queue[of l tv h] ok h by (auto simp: traversal_ok_def)
  then have "set (tv_queue tv2) \<union> flying tv2 \<subseteq> (set (tv_queue tv) \<union> flying tv) - {h}"
    using w(3) by (auto simp: tv1 flying_delete)
  then have "set (tv_queue tv2) \<union> flying tv2 \<subset> set (tv_queue tv) \<union> flying tv" using h by blast
  then have "card (set (tv_queue tv2) \<union> flying tv2) < card (set (tv_queue tv) \<union> flying tv)" by (intro psubset_card_mono) simp_all
  then show ?thesis using w(1,2) by (simp add: work_left_def tv1)
qed

lemma landed_work:
  fixes p :: "string \<Rightarrow> bool" and bs :: bytes
  assumes ok: "traversal_ok verify n l tv" and run: "\<not> tv_paused tv" and s: "settle h token tv = Some tv1"
    and U: "finite U" "set (tv_enqueued tv) \<subseteq> U"
  defines "tv2 \<equiv> pump p n (land p verify h bs tv1)"
  shows "(work_left U tv2, work_left U tv) \<in> less_than <*lex*> less_than"
proof -
  from settle_Some[OF s] have h: "h \<in> flying tv" and tv1: "tv1 = tv\<lparr>tv_in_flight := omap_delete h (tv_in_flight tv)\<rparr>" by blast+
  have "h \<in> U" "h \<notin> set (tv_fetched tv)" "h \<notin> refused tv"
    using spreadD(4)[of _ _ _ _ _ _ l h] ok h U(2) unfolding traversal_ok_def places_ok_def by blast+
  then have old: "h \<in> U - set (tv_fetched tv) - refused tv" by blast
  have run': "\<not> tv_paused (land p verify h bs tv1)" using run by (simp add: land_def tv1 Let_def add_hashes_keeps split: sum.splits)
  note w = pump_work[OF run', where p = p and n = n, folded tv2_def]
  have "fst ` set (omap_set h err m) = insert h (fst ` set m)" for err and m :: "(string, protocol_error) omap"
    by (metis dom_map_of_conv_image_fst dom_omap_set)
  then have "U - set (tv_fetched tv2) - refused tv2 = U - set (tv_fetched tv) - refused tv - {h}"
    unfolding w(1,2) by (auto simp: land_def tv1 Let_def add_hashes_keeps split: sum.splits)
  then have "card (U - set (tv_fetched tv2) - refused tv2) < card (U - set (tv_fetched tv) - refused tv)"
    using card_Diff1_less[OF _ old] U(1) by (metis finite_Diff)
  then show ?thesis by (simp add: work_left_def)
qed

text \<open>The events that settle a fetch in flight.\<close>

inductive settles :: "traversal \<Rightarrow> traversal_event \<Rightarrow> bool" where
  answer: "omap_get (tv_in_flight tv) h = Some token \<Longrightarrow> settles tv (Answer h token answer)"
| failure: "omap_get (tv_in_flight tv) h = Some token \<Longrightarrow> settles tv (Failure h token)"
| timeout: "omap_get (tv_in_flight tv) h = Some token \<Longrightarrow> settles tv (Timeout h token)"

inductive_cases settles_elim: "settles tv ev"

lemma settles_work:
  assumes ok: "traversal_ok verify n l tv" and run: "\<not> tv_paused tv" and U: "finite U" "set (tv_enqueued tv) \<subseteq> U"
    and ev: "settles tv ev"
  shows "(work_left U (handle verify n p ev tv), work_left U tv) \<in> less_than <*lex*> less_than"
  using ev
proof (cases rule: settles.cases)
  case (answer h token a)
  then have s: "settle h token tv = Some (tv\<lparr>tv_in_flight := omap_delete h (tv_in_flight tv)\<rparr>)" by (simp add: settle_def)
  from unresolved_work[OF ok run s, where U = U and p = p] landed_work[OF ok run s U, where p = p] show ?thesis
    unfolding answer(1) handle.simps on_answer_def s option.case by (cases a) simp_all
next
  case (failure h token)
  then have s: "settle h token tv = Some (tv\<lparr>tv_in_flight := omap_delete h (tv_in_flight tv)\<rparr>)" by (simp add: settle_def)
  from unresolved_work[OF ok run s, where U = U and p = p] show ?thesis
    unfolding failure(1) handle.simps on_failure_def s option.case by simp
next
  case (timeout h token)
  then have s: "settle h token tv = Some (tv\<lparr>tv_in_flight := omap_delete h (tv_in_flight tv)\<rparr>)" by (simp add: settle_def)
  from unresolved_work[OF ok run s, where U = U and p = p] show ?thesis
    unfolding timeout(1) handle.simps on_timeout_def s option.case by simp
qed

section \<open>Properties\<close>

text \<open>C13: In every run of the traversal no more than \<open>concurrency\<close> fetches are in flight, every
  enqueued hash that has not landed is in exactly one place (queued, being fetched or retried, fetched, or
  refused), an unpaused traversal never leaves the queue waiting while a fetch could start, and no
  caller waits on an idle traversal.\<close>

theorem traversal_invariant:
  assumes "traversal_run verify n landed tv"
  shows "length (tv_in_flight tv) \<le> n \<and> distinct (tv_queue tv) \<and> distinct (omap_keys (tv_in_flight tv)) \<and>
    (\<forall>h \<in> set (tv_enqueued tv). h \<in> landed \<or> h \<in> set (tv_queue tv) \<or> h \<in> flying tv \<or> h \<in> set (tv_unresolved tv) \<or>
       h \<in> set (tv_fetched tv) \<or> h \<in> refused tv) \<and>
    (\<forall>h \<in> set (tv_queue tv). h \<notin> flying tv \<and> h \<notin> set (tv_unresolved tv) \<and> h \<notin> set (tv_fetched tv) \<and> h \<notin> refused tv) \<and>
    (\<forall>h \<in> set (tv_fetched tv). h \<notin> flying tv \<and> h \<notin> set (tv_unresolved tv) \<and> h \<notin> refused tv) \<and>
    (\<not> tv_paused tv \<longrightarrow> tv_queue tv = [] \<or> length (tv_in_flight tv) = n) \<and> (is_idle tv \<longrightarrow> tv_waiters tv = [])"
proof -
  from traversal_run_ok[OF assms] have ok: "places_ok landed tv" "resting n tv" by (simp_all add: traversal_ok_def)
  then have c: "cell (x \<in> set (tv_queue tv)) (x \<in> flying tv) (x \<in> set (tv_unresolved tv)) (x \<in> set (tv_fetched tv)) (x \<in> refused tv)
      (x \<in> set (tv_enqueued tv)) (x \<in> landed)" for x by (simp add: places_ok_def spread_def)
  have "\<forall>h \<in> set (tv_enqueued tv). h \<in> landed \<or> h \<in> set (tv_queue tv) \<or> h \<in> flying tv \<or> h \<in> set (tv_unresolved tv) \<or>
       h \<in> set (tv_fetched tv) \<or> h \<in> refused tv" using c[unfolded cell_def] by metis
  moreover have "\<forall>h \<in> set (tv_queue tv). h \<notin> flying tv \<and> h \<notin> set (tv_unresolved tv) \<and> h \<notin> set (tv_fetched tv) \<and> h \<notin> refused tv"
    using c[unfolded cell_def] by metis
  moreover have "\<forall>h \<in> set (tv_fetched tv). h \<notin> flying tv \<and> h \<notin> set (tv_unresolved tv) \<and> h \<notin> refused tv"
    using c[unfolded cell_def] by metis
  ultimately show ?thesis using ok by (simp add: places_ok_def resting_def)
qed

definition sample_verify :: "string \<Rightarrow> bytes \<Rightarrow> hashed_entry result" where
  "sample_verify h bs = Inl invalid_shape"

definition sample_traversal :: traversal where
  "sample_traversal = handle sample_verify 1 (\<lambda>h. False) (Enqueue [''a'', ''b'', ''a'']) empty_traversal"

lemma sample_traversal_run: "traversal_run sample_verify 1 {} sample_traversal"
  using traversal_run.event[OF traversal_run.created[of sample_verify 1 "{}"], of "{}" "Enqueue [''a'', ''b'', ''a'']"]
  by (simp add: sample_traversal_def)

lemma sample_traversal_fields: "tv_queue sample_traversal = [''b'']" "tv_in_flight sample_traversal = [(''a'', 0)]"
  "tv_paused sample_traversal = False" "tv_fetched sample_traversal = []" "tv_enqueued sample_traversal = [''a'', ''b'']"
  "tv_starts sample_traversal = [''a'']"
  by (simp_all add: sample_traversal_def enqueue_def pump_def changed_def is_idle_def empty_traversal_def start_def oset_add_def Let_def)

theorem traversal_invariant_witness: "length (tv_in_flight sample_traversal) = 1 \<and> tv_queue sample_traversal \<noteq> []"
  using traversal_invariant[OF sample_traversal_run] by (simp add: sample_traversal_fields)

text \<open>Nothing is fetched that is held already: every fetch an event starts is for an enqueued hash that
  has not landed and was not fetched, whether the event enqueues heads again, resumes after
  a pause or lands an entry.\<close>

lemma traversal_never_refetches:
  assumes "traversal_run verify n landed tv" "landed \<subseteq> landed'"
  shows "\<exists>new. tv_starts (handle verify n (\<lambda>h. h \<in> landed') ev tv) = tv_starts tv @ new \<and>
    (\<forall>h \<in> set new. h \<notin> landed' \<and> h \<notin> set (tv_fetched (handle verify n (\<lambda>h. h \<in> landed') ev tv)) \<and>
       h \<in> set (tv_enqueued (handle verify n (\<lambda>h. h \<in> landed') ev tv)))"
proof -
  let ?p = "\<lambda>h. h \<in> landed'"
  have pump: "\<exists>new. tv_starts (pump ?p n tv') = tv_starts tv @ new \<and>
      (\<forall>h \<in> set new. h \<notin> landed' \<and> h \<notin> set (tv_fetched (pump ?p n tv')) \<and> h \<in> set (tv_enqueued (pump ?p n tv')))"
    if "tv_starts tv' = tv_starts tv" "set (tv_queue tv') \<subseteq> set (tv_enqueued tv')" for tv'
  proof (cases "tv_paused tv'")
    case True
    then show ?thesis using that(1) by (simp add: pump_def)
  next
    case False
    then have *: "tv_starts (pump ?p n tv') = tv_starts (pump_loop ?p n (tv_queue tv') tv')" by (simp add: pump_def)
    obtain new where "tv_starts (pump ?p n tv') = tv_starts tv' @ new" "set new \<subseteq> set (tv_queue tv')"
      "\<forall>h \<in> set new. \<not> ?p h \<and> h \<notin> set (tv_fetched tv')"
      unfolding * using pump_loop_starts[of ?p n "tv_queue tv'" tv'] by blast
    moreover have "tv_fetched (pump ?p n tv') = tv_fetched tv'" "tv_enqueued (pump ?p n tv') = tv_enqueued tv'"
      using pump_work[OF False] by blast+
    ultimately show ?thesis using that by (intro exI[of _ new]) auto
  qed
  have queued: "set (tv_queue tv') \<subseteq> set (tv_enqueued tv')" if "places_ok l tv'" for tv' l
  proof
    fix h assume "h \<in> set (tv_queue tv')"
    moreover from that have "spread (set (tv_queue tv')) (flying tv') (set (tv_unresolved tv')) (set (tv_fetched tv')) (refused tv')
        (set (tv_enqueued tv')) l" by (simp add: places_ok_def)
    ultimately show "h \<in> set (tv_enqueued tv')" by (auto simp: spread_def cell_def)
  qed
  have ok: "places_ok landed' tv" using traversal_run_ok[OF assms(1)] places_ok_mono assms(2) by (auto simp: traversal_ok_def)
  have settled: "tv_starts tv1 = tv_starts tv \<and> places_ok landed' (tv1\<lparr>tv_unresolved := oset_add h (tv_unresolved tv1)\<rparr>)"
    if "settle h token tv = Some tv1" for h token tv1
    using settle_Some[OF that] settled_places(1)[OF ok] by auto
  have landed: "tv_starts (land ?p verify h bs tv1) = tv_starts tv" if "settle h token tv = Some tv1" for h token bs tv1
    using settled[OF that] by (simp add: land_def Let_def add_hashes_keeps split: sum.splits)
  show ?thesis
  proof (cases ev)
    case (Enqueue hs)
    then show ?thesis using pump[OF _ queued[OF add_hashes_places[OF ok]]] by (simp add: enqueue_def add_hashes_keeps)
  next
    case Resume
    show ?thesis unfolding Resume handle.simps resume_def Let_def by (rule pump[OF _ queued[OF resume_places[OF ok]]]) simp
  next
    case (Answer h token answer)
    show ?thesis
    proof (cases "settle h token tv")
      case (Some tv1)
      show ?thesis
      proof (cases answer)
        case None
        with Answer Some pump[OF _ queued[OF conjunct2[OF settled[OF Some]]]] settled[OF Some] show ?thesis by (simp add: on_answer_def)
      next
        case (Some bs)
        with Answer \<open>settle h token tv = Some tv1\<close> pump[OF landed queued[OF land_places[OF ok]]] show ?thesis by (simp add: on_answer_def)
      qed
    qed (simp add: Answer on_answer_def)
  next
    case (Failure h token)
    then show ?thesis using pump[OF _ queued[OF conjunct2[OF settled]]] settled by (cases "settle h token tv") (simp_all add: on_failure_def)
  next
    case (Timeout h token)
    then show ?thesis using pump[OF _ queued[OF conjunct2[OF settled]]] settled by (cases "settle h token tv") (simp_all add: on_timeout_def)
  qed (simp_all add: pause_def discard_def idle_def)
qed









text \<open>C14: The traversal ends: from an unpaused state, over any finite universe of hashes that
  holds everything enqueued, a fetch that is answered, fails or times out strictly decreases
  the pair of hashes not yet settled for good and hashes queued or in flight, the traversal stays
  unpaused, and while it is not idle some fetch is in flight to be settled by its timer.\<close>

theorem traversal_terminates:
  assumes "traversal_run verify n landed tv" "\<not> tv_paused tv" "0 < n" "finite U" "set (tv_enqueued tv) \<subseteq> U"
  shows "(\<not> is_idle tv \<longrightarrow> (\<exists>h token. settles tv (Timeout h token))) \<and>
    (\<forall>ev p. settles tv ev \<longrightarrow> (work_left U (handle verify n p ev tv), work_left U tv) \<in> less_than <*lex*> less_than)"
proof (intro conjI impI allI)
  have ok: "traversal_ok verify n landed tv" by (rule traversal_run_ok[OF assms(1)])
  assume "\<not> is_idle tv"
  then have "tv_in_flight tv \<noteq> []" using ok assms(2,3) by (auto simp: is_idle_def traversal_ok_def resting_def)
  then obtain h token rest where "tv_in_flight tv = (h, token) # rest" by (cases "tv_in_flight tv") auto
  then have "omap_get (tv_in_flight tv) h = Some token" by simp
  then show "\<exists>h token. settles tv (Timeout h token)" using settles.timeout by blast
next
  fix ev p assume "settles tv ev"
  then show "(work_left U (handle verify n p ev tv), work_left U tv) \<in> less_than <*lex*> less_than"
    using settles_work[OF traversal_run_ok[OF assms(1)] assms(2,4,5)] by blast
qed

theorem traversal_terminates_witness:
  "(work_left {''a'', ''b''} (handle sample_verify 1 (\<lambda>h. False) (Timeout ''a'' 0) sample_traversal), work_left {''a'', ''b''} sample_traversal)
     \<in> less_than <*lex*> less_than"
proof -
  have "settles sample_traversal (Timeout ''a'' 0)" by (rule settles.timeout) (simp add: sample_traversal_fields)
  then show ?thesis using traversal_terminates[OF sample_traversal_run, of "{''a'', ''b''}"]
    by (simp add: sample_traversal_fields del: handle.simps)
qed

end
