(* ===== verification/Merge_Orchestrator.thy ===== *)
theory Merge_Orchestrator
  imports Oplog
begin

text \<open>
  The merge orchestrator (\<open>replication/merge-orchestrator.ts\<close>): fetched entries wait until everything
  they build on is local or waiting too, then merge in batches, one batch at a time. The closure
  of \<open>create_merge_orchestrator\<close> is the record \<open>orchestrator\<close>; \<open>tail\<close>, the promise chain that runs one
  merge at a time, is the batch whose merge is awaited (\<open>mo_running\<close>) and the run that is
  scheduled behind it (\<open>mo_scheduled\<close>). The theory shows that the readiness walk with its explicit
  stack computes the least set of entries whose ancestors are all there, that every batch is
  closed, and what becomes of the descendants of a rejected entry.
\<close>

section \<open>State\<close>

record orchestrator =
  mo_fetched :: "(string, hashed_entry) omap"
  mo_rejected :: "string oset"
  mo_children :: "(string, string oset) omap"
  mo_scheduled :: bool
  mo_running :: "hashed_entry list option"

definition create_merge_orchestrator :: orchestrator where
  "create_merge_orchestrator = \<lparr>mo_fetched = [], mo_rejected = [], mo_children = [], mo_scheduled = False, mo_running = None\<rparr>"

section \<open>The readiness walk\<close>

lemma card_less_member: "finite A \<Longrightarrow> B \<subseteq> A \<Longrightarrow> x \<in> A \<Longrightarrow> x \<notin> B \<Longrightarrow> card B < card A"
  by (rule psubset_card_mono) auto

text \<open>The loop of \<open>ready_batch\<close> for one root. The head of \<open>stack\<close> is the top: pushing the parents in
  order leaves the last one on top.\<close>

function ready_walk :: "(string \<Rightarrow> bool) \<Rightarrow> (string, hashed_entry) omap \<Rightarrow> string list \<Rightarrow> string oset \<Rightarrow>
    (string, bool) omap \<Rightarrow> (string, bool) omap" where
  "ready_walk is_landed fetched [] on_path ready = ready"
| "ready_walk is_landed fetched (h # stack) on_path ready =
    (case omap_get fetched h of
      Some e \<Rightarrow>
        if omap_has ready h \<or> is_landed h
        then ready_walk is_landed fetched stack on_path (if omap_has ready h then ready else omap_set h (is_landed h) ready)
        else if h \<notin> set on_path
        then let on_path1 = oset_add h on_path
             in ready_walk is_landed fetched
                  (rev (List.filter (\<lambda>parent. \<not> omap_has ready parent \<and> parent \<notin> set on_path1) (parents e)) @ h # stack) on_path1 ready
        else ready_walk is_landed fetched stack (oset_delete h on_path)
               (omap_set h (list_all (\<lambda>parent. omap_get ready parent = Some True) (parents e)) ready)
    | None \<Rightarrow> ready_walk is_landed fetched stack on_path (if omap_has ready h then ready else omap_set h (is_landed h) ready))"
  by pat_completeness auto

termination
proof (relation "measures [\<lambda>(is_landed, fetched, stack, on_path, ready). card (set (omap_keys fetched) - set on_path - dom (map_of ready)),
    \<lambda>(is_landed, fetched, stack, on_path, ready). length stack]", goal_cases)
  case (4 is_landed fetched h stack on_path ready e on_path1)
  then have "h \<in> set (omap_keys fetched)" by (force dest: map_of_SomeD)
  with 4 have "card (set (omap_keys fetched) - set on_path1 - dom (map_of ready)) < card (set (omap_keys fetched) - set on_path - dom (map_of ready))"
    by (intro card_less_member[where x = h]) auto
  then show ?case by simp
next
  case (5 is_landed fetched h stack on_path ready e)
  then have "card (set (omap_keys fetched) - set (oset_delete h on_path) - dom (map_of (omap_set h r ready)))
      \<le> card (set (omap_keys fetched) - set on_path - dom (map_of ready))" for r
    by (intro card_mono) (auto simp: dom_omap_set)
  then show ?case by (simp add: le_eq_less_or_eq del: set_oset_delete)
qed (auto simp: le_eq_less_or_eq[symmetric] dom_omap_set intro!: card_mono)

declare ready_walk.simps [simp del]

definition ready_map :: "(string \<Rightarrow> bool) \<Rightarrow> (string, hashed_entry) omap \<Rightarrow> (string, bool) omap" where
  "ready_map is_landed fetched = fold (\<lambda>root ready. ready_walk is_landed fetched [root] [] ready) (omap_keys fetched) []"

definition ready_batch :: "(string \<Rightarrow> bool) \<Rightarrow> (string, hashed_entry) omap \<Rightarrow> hashed_entry list" where
  "ready_batch is_landed fetched =
     (let ready = ready_map is_landed fetched
      in List.filter (\<lambda>e. omap_get ready (he_hash e) = Some True) (omap_values fetched))"

section \<open>Operations\<close>

definition children_named :: "(string, string oset) omap \<Rightarrow> string \<Rightarrow> string list" where
  "children_named children h = (case omap_get children h of None \<Rightarrow> [] | Some siblings \<Rightarrow> siblings)"

definition remember_parent :: "string \<Rightarrow> string \<Rightarrow> (string, string oset) omap \<Rightarrow> (string, string oset) omap" where
  "remember_parent h parent children =
     omap_set parent (oset_add h (children_named children parent)) children"

definition remember :: "hashed_entry \<Rightarrow> orchestrator \<Rightarrow> orchestrator" where
  "remember e mo = mo\<lparr>mo_fetched := omap_set (he_hash e) e (mo_fetched mo),
     mo_children := fold (remember_parent (he_hash e)) (parents e) (mo_children mo)\<rparr>"

definition forget_parent :: "string \<Rightarrow> string \<Rightarrow> (string, string oset) omap \<Rightarrow> (string, string oset) omap" where
  "forget_parent h parent children = (case omap_get children parent of
     None \<Rightarrow> children
   | Some siblings \<Rightarrow>
       let left = oset_delete h siblings
       in if left = [] then omap_delete parent children else omap_set parent left children)"

definition forget :: "hashed_entry \<Rightarrow> orchestrator \<Rightarrow> orchestrator" where
  "forget e mo = mo\<lparr>mo_fetched := omap_delete (he_hash e) (mo_fetched mo),
     mo_children := fold (forget_parent (he_hash e)) (parents e) (mo_children mo)\<rparr>"

text \<open>One child of \<open>drop_rejected_descendants\<close>; the head of the queue is the end the code pops.\<close>

definition drop_child :: "string \<Rightarrow> orchestrator \<times> string list \<Rightarrow> orchestrator \<times> string list" where
  "drop_child child = (\<lambda>(mo, queue). case omap_get (mo_fetched mo) child of
     None \<Rightarrow> (mo, queue)
   | Some e \<Rightarrow> if child \<in> set (mo_rejected mo) then (mo, queue)
       else ((forget e mo)\<lparr>mo_rejected := oset_add child (mo_rejected mo)\<rparr>, child # queue))"

definition drop_left :: "orchestrator \<Rightarrow> string list \<Rightarrow> nat" where
  "drop_left mo queue = card (set (omap_keys (mo_fetched mo)) - set (mo_rejected mo)) + length queue"

lemma drop_child_left: "drop_left (fst (drop_child c (mo, queue))) (snd (drop_child c (mo, queue))) \<le> drop_left mo queue"
proof (cases "omap_get (mo_fetched mo) c")
  case (Some e)
  show ?thesis
  proof (cases "c \<in> set (mo_rejected mo)")
    case False
    from Some have c: "c \<in> set (omap_keys (mo_fetched mo))" by (force dest: map_of_SomeD)
    have "set (omap_keys (omap_delete (he_hash e) (mo_fetched mo))) - insert c (set (mo_rejected mo))
        \<subseteq> set (omap_keys (mo_fetched mo)) - set (mo_rejected mo)" using delete_keys[of "he_hash e" "mo_fetched mo"] by auto
    then have "card (set (omap_keys (omap_delete (he_hash e) (mo_fetched mo))) - insert c (set (mo_rejected mo)))
        < card (set (omap_keys (mo_fetched mo)) - set (mo_rejected mo))"
      using c False by (intro card_less_member[where x = c]) auto
    with Some False show ?thesis by (simp add: drop_child_def drop_left_def forget_def)
  qed (simp add: Some drop_child_def)
qed (simp add: drop_child_def)

lemma drop_children_left: "drop_left (fst (fold drop_child cs x)) (snd (fold drop_child cs x)) \<le> drop_left (fst x) (snd x)"
proof (induction cs arbitrary: x)
  case (Cons c cs)
  have "drop_left (fst (drop_child c x)) (snd (drop_child c x)) \<le> drop_left (fst x) (snd x)"
    using drop_child_left by (cases x) simp
  with Cons[of "drop_child c x"] show ?case by simp
qed simp

function drop_loop :: "string list \<Rightarrow> orchestrator \<Rightarrow> orchestrator" where
  "drop_loop [] mo = mo"
| "drop_loop (h # queue) mo = (let (mo1, queue1) = fold drop_child (children_named (mo_children mo) h) (mo, queue) in drop_loop queue1 mo1)"
  by pat_completeness auto

termination
proof (relation "measure (\<lambda>(queue, mo). drop_left mo queue)")
  fix h queue mo x mo1 queue1
  assume "x = fold drop_child (children_named (mo_children mo) h) (mo, queue)" "(mo1, queue1) = x"
  then have "drop_left mo1 queue1 \<le> drop_left mo queue"
    using drop_children_left[of "children_named (mo_children mo) h" "(mo, queue)"] by (metis fst_conv snd_conv)
  then show "((queue1, mo1), h # queue, mo) \<in> measure (\<lambda>(queue, mo). drop_left mo queue)" by (simp add: drop_left_def)
qed simp

declare drop_loop.simps [simp del]

definition drop_rejected_descendants :: "string list \<Rightarrow> orchestrator \<Rightarrow> orchestrator" where
  "drop_rejected_descendants roots mo = drop_loop (rev roots) mo"

text \<open>\<open>run\<close> up to its await, and what follows when the merge resolves or throws.\<close>

definition run_start :: "(string \<Rightarrow> bool) \<Rightarrow> orchestrator \<Rightarrow> orchestrator" where
  "run_start is_landed mo = (let mo1 = mo\<lparr>mo_scheduled := False\<rparr>; batch = ready_batch is_landed (mo_fetched mo1)
     in if batch = [] then mo1 else (fold forget batch mo1)\<lparr>mo_running := Some batch\<rparr>)"

definition run_merged :: "(string \<Rightarrow> bool) \<Rightarrow> hashed_entry list \<Rightarrow> orchestrator \<Rightarrow> orchestrator" where
  "run_merged is_landed batch mo =
     (let failed = map he_hash (List.filter (\<lambda>e. \<not> is_landed (he_hash e)) batch)
      in drop_rejected_descendants failed (mo\<lparr>mo_running := None, mo_rejected := fold oset_add failed (mo_rejected mo)\<rparr>))"

definition run_failed :: "hashed_entry list \<Rightarrow> orchestrator \<Rightarrow> orchestrator" where
  "run_failed batch mo = fold remember batch (mo\<lparr>mo_running := None\<rparr>)"

definition add :: "hashed_entry \<Rightarrow> orchestrator \<Rightarrow> orchestrator" where
  "add e mo =
     (if list_ex (\<lambda>parent. parent \<in> set (mo_rejected mo)) (parents e) then mo\<lparr>mo_rejected := oset_add (he_hash e) (mo_rejected mo)\<rparr>
      else (remember e mo)\<lparr>mo_scheduled := True\<rparr>)"

definition pending :: "orchestrator \<Rightarrow> nat" where
  "pending mo = length (mo_fetched mo)"

definition discard :: "orchestrator \<Rightarrow> orchestrator" where
  "discard mo = mo\<lparr>mo_fetched := [], mo_rejected := [], mo_children := []\<rparr>"

text \<open>Nothing scheduled and nothing running: what \<open>settled\<close> waits for.\<close>

definition settled :: "orchestrator \<Rightarrow> bool" where
  "settled mo = (\<not> mo_scheduled mo \<and> mo_running mo = None)"

section \<open>What the walk computes\<close>

text \<open>The reference definition: an entry can merge once everything it builds on has landed or can merge
  too.\<close>

inductive mergeable :: "(string \<Rightarrow> bool) \<Rightarrow> (string, hashed_entry) omap \<Rightarrow> string \<Rightarrow> bool" for is_landed fetched where
  local: "is_landed h \<Longrightarrow> mergeable is_landed fetched h"
| waiting: "omap_get fetched h = Some e \<Longrightarrow> \<forall>parent \<in> set (parents e). mergeable is_landed fetched parent \<Longrightarrow> mergeable is_landed fetched h"

inductive_simps mergeable_iff: "mergeable is_landed fetched h"

definition parents_in :: "(string, hashed_entry) omap \<Rightarrow> string \<Rightarrow> string set" where
  "parents_in fetched h = (case omap_get fetched h of None \<Rightarrow> {} | Some e \<Rightarrow> set (parents e))"

definition needs :: "(string \<Rightarrow> bool) \<Rightarrow> (string, hashed_entry) omap \<Rightarrow> (string \<times> string) set" where
  "needs is_landed fetched = {(a, b). \<not> is_landed a \<and> b \<in> parents_in fetched a}"

lemma mergeable_acyclic: "mergeable is_landed fetched h \<Longrightarrow> (h, h) \<notin> (needs is_landed fetched)\<^sup>+"
proof (induction rule: mergeable.induct)
  case (local h)
  then show ?case by (auto simp: needs_def dest!: tranclD)
next
  case (waiting h e)
  show ?case
  proof
    assume "(h, h) \<in> (needs is_landed fetched)\<^sup>+"
    then obtain x where x: "(h, x) \<in> needs is_landed fetched" "(x, h) \<in> (needs is_landed fetched)\<^sup>*" by (blast dest: tranclD)
    then have "x \<in> set (parents e)" using waiting(1) by (simp add: needs_def parents_in_def)
    with waiting x show False by (meson rtrancl_into_trancl1)
  qed
qed

text \<open>The shape of the stack: the entries on the path, each with the parents it still waits for above
  it. \<open>up\<close> is the parent of the top entry the walk is below.\<close>

fun layered :: "(string, hashed_entry) omap \<Rightarrow> string set \<Rightarrow> string \<Rightarrow> string set \<Rightarrow> string list \<Rightarrow> string list \<Rightarrow> bool" where
  "layered fetched done_set start_hash up st [] = (st = [start_hash] \<and> up = {} \<or> st = [] \<and> (up = {start_hash} \<or> start_hash \<in> done_set))"
| "layered fetched done_set start_hash up st (p # ps) = (\<exists>L st'. st = L @ p # st' \<and> set L \<union> up \<subseteq> parents_in fetched p \<and> set L \<inter> set (p # ps) = {} \<and>
     parents_in fetched p \<subseteq> done_set \<union> set L \<union> up \<union> set (p # ps) \<and> layered fetched done_set start_hash {p} st' ps)"

lemma layered_mono: "layered fetched done_set start_hash up st ps \<Longrightarrow> done_set \<subseteq> done_set' \<Longrightarrow> layered fetched done_set' start_hash up st ps"
proof (induction ps arbitrary: up st)
  case (Cons p ps)
  then obtain L st' where "st = L @ p # st'" "set L \<union> up \<subseteq> parents_in fetched p" "set L \<inter> set (p # ps) = {}"
    "parents_in fetched p \<subseteq> done_set \<union> set L \<union> up \<union> set (p # ps)" "layered fetched done_set start_hash {p} st' ps" by auto
  then show ?case using Cons.IH[of "{p}" st'] Cons.prems(2) unfolding layered.simps by (intro exI[of _ L] exI[of _ st']) blast
qed auto

lemma layered_path:
  assumes "layered fetched done_set start_hash up st (p # ps)" "\<forall>x \<in> set (p # ps). \<not> is_landed x" "q \<in> set (p # ps)"
  shows "(q, p) \<in> (needs is_landed fetched)\<^sup>*"
  using assms
proof (induction ps arbitrary: p up st)
  case (Cons p' ps)
  then obtain st' where st': "layered fetched done_set start_hash {p} st' (p' # ps)" by auto
  then have "(p', p) \<in> needs is_landed fetched" using Cons.prems(2) by (auto simp: needs_def)
  with Cons.IH[OF st'] Cons.prems show ?case by (cases "q = p") (auto intro: rtrancl_into_rtrancl)
qed simp

definition answers_ok :: "(string \<Rightarrow> bool) \<Rightarrow> (string, hashed_entry) omap \<Rightarrow> (string, bool) omap \<Rightarrow> bool" where
  "answers_ok is_landed fetched ready \<longleftrightarrow> (\<forall>h b. omap_get ready h = Some b \<longrightarrow> b = mergeable is_landed fetched h)"

definition path_ok :: "(string \<Rightarrow> bool) \<Rightarrow> (string, hashed_entry) omap \<Rightarrow> (string, bool) omap \<Rightarrow> string list \<Rightarrow> bool" where
  "path_ok is_landed fetched ready ps \<longleftrightarrow> distinct ps \<and> (\<forall>p \<in> set ps. \<not> is_landed p \<and> omap_has fetched p \<and> \<not> omap_has ready p)"

text \<open>The last step at an entry answers for it.\<close>

lemma finished_answer:
  assumes e: "omap_get fetched p = Some e" and ok: "answers_ok is_landed fetched ready" "path_ok is_landed fetched ready (p # ps)"
    and lay: "layered fetched (dom (map_of ready)) start_hash {} (p # st) (p # ps)"
  shows "list_all (\<lambda>parent. omap_get ready parent = Some True) (parents e) = mergeable is_landed fetched p"
proof
  assume "list_all (\<lambda>parent. omap_get ready parent = Some True) (parents e)"
  then show "mergeable is_landed fetched p" using e ok(1) by (intro mergeable.waiting) (auto simp: answers_ok_def list_all_iff)
next
  assume m: "mergeable is_landed fetched p"
  have far: "\<forall>x \<in> set (p # ps). \<not> is_landed x" using ok(2) by (simp add: path_ok_def)
  have up: "\<forall>parent \<in> set (parents e). mergeable is_landed fetched parent" using m e far by (subst (asm) mergeable_iff) auto
  have "parents_in fetched p \<subseteq> dom (map_of ready) \<union> set (p # ps)" using lay by (auto simp: Cons_eq_append_conv)
  moreover have "q \<notin> set (p # ps)" if "q \<in> parents_in fetched p" for q
  proof
    assume "q \<in> set (p # ps)"
    from layered_path[OF lay far this] that far have "(p, p) \<in> (needs is_landed fetched)\<^sup>+"
      by (intro rtrancl_into_trancl2[where b = q]) (auto simp: needs_def)
    with mergeable_acyclic[OF m] show False ..
  qed
  ultimately have "set (parents e) \<subseteq> dom (map_of ready)" using e by (auto simp: parents_in_def)
  with up ok(1) show "list_all (\<lambda>parent. omap_get ready parent = Some True) (parents e)"
    by (force simp: list_all_iff answers_ok_def)
qed

text \<open>The three moves of the walk on the stack.\<close>

lemma layered_pop:
  assumes "layered fetched done_set start_hash {} (h # stack) ps" "h \<notin> set ps" "insert h done_set \<subseteq> done_set'"
  shows "layered fetched done_set' start_hash {} stack ps"
proof (cases ps)
  case Nil
  then show ?thesis using assms by auto
next
  case (Cons p ps')
  with assms(1) obtain L st' where L: "h # stack = L @ p # st'" "set L \<union> {} \<subseteq> parents_in fetched p" "set L \<inter> set (p # ps') = {}"
    "parents_in fetched p \<subseteq> done_set \<union> set L \<union> {} \<union> set (p # ps')" "layered fetched done_set start_hash {p} st' ps'" by auto
  with assms(2) Cons obtain L' where "L = h # L'" by (cases L) auto
  with L assms(3) layered_mono[OF L(5)] show ?thesis unfolding Cons layered.simps by (intro exI[of _ L'] exI[of _ st']) auto
qed

lemma layered_push:
  assumes "layered fetched done_set start_hash {} (h # stack) ps" "h \<notin> set ps"
    and "set pushed = {parent \<in> parents_in fetched h. parent \<notin> done_set \<and> parent \<notin> set (h # ps)}"
  shows "layered fetched done_set start_hash {} (pushed @ h # stack) (h # ps)"
proof -
  have "layered fetched done_set start_hash {h} stack ps"
  proof (cases ps)
    case Nil
    then show ?thesis using assms(1) by auto
  next
    case (Cons p ps')
    with assms(1) obtain L st' where L: "h # stack = L @ p # st'" "set L \<union> {} \<subseteq> parents_in fetched p" "set L \<inter> set (p # ps') = {}"
      "parents_in fetched p \<subseteq> done_set \<union> set L \<union> {} \<union> set (p # ps')" "layered fetched done_set start_hash {p} st' ps'" by auto
    with assms(2) Cons obtain L' where "L = h # L'" by (cases L) auto
    with L show ?thesis unfolding Cons layered.simps by (intro exI[of _ L'] exI[of _ st']) auto
  qed
  moreover have "set pushed \<union> {} \<subseteq> parents_in fetched h" "set pushed \<inter> set (h # ps) = {}"
    "parents_in fetched h \<subseteq> done_set \<union> set pushed \<union> {} \<union> set (h # ps)" using assms(3) by blast+
  ultimately show ?thesis unfolding layered.simps by (intro exI[of _ pushed] exI[of _ stack] conjI refl)
qed

lemma layered_finish:
  assumes "layered fetched done_set start_hash {} (p # stack) (p # ps)"
  shows "layered fetched (insert p done_set) start_hash {} stack ps"
proof -
  from assms have lay: "layered fetched done_set start_hash {p} stack ps" by (auto simp: Cons_eq_append_conv)
  show ?thesis
  proof (cases ps)
    case Nil
    then show ?thesis using lay by auto
  next
    case (Cons p' ps')
    with lay obtain L st' where L: "stack = L @ p' # st'" "set L \<union> {p} \<subseteq> parents_in fetched p'" "set L \<inter> set (p' # ps') = {}"
      "parents_in fetched p' \<subseteq> done_set \<union> set L \<union> {p} \<union> set (p' # ps')" "layered fetched done_set start_hash {p'} st' ps'" by auto
    with layered_mono[OF L(5), of "insert p done_set"] show ?thesis unfolding Cons layered.simps
      by (intro exI[of _ L] exI[of _ st']) auto
  qed
qed

lemma layered_top:
  assumes "layered fetched done_set start_hash {} (h # stack) ps" "h \<in> set ps"
  obtains ps' where "ps = h # ps'"
proof (cases ps)
  case (Cons p ps')
  with assms(1) obtain L st' where "h # stack = L @ p # st'" "set L \<inter> set (p # ps') = {}" by auto
  with assms(2) Cons have "p = h" by (cases L) auto
  with Cons that show ?thesis by blast
qed (use assms in simp)

text \<open>The walk from one entry: every answer is right, and there is one for the entry.\<close>

lemma ready_walk_ok:
  assumes "answers_ok is_landed fetched ready" "path_ok is_landed fetched ready ps"
    and "layered fetched (dom (map_of ready)) start_hash {} stack ps" "set on_path = set ps"
  defines "result \<equiv> ready_walk is_landed fetched stack on_path ready"
  shows "answers_ok is_landed fetched result \<and> insert start_hash (dom (map_of ready)) \<subseteq> dom (map_of result)"
  using assms(1-4) unfolding result_def
proof (induction is_landed fetched stack on_path ready arbitrary: ps rule: ready_walk.induct)
  case (1 is_landed fetched on_path ready)
  then show ?case by (cases ps) (auto simp: ready_walk.simps)
next
  case (2 is_landed fetched h stack on_path ready)
  note ok = \<open>answers_ok is_landed fetched ready\<close> and path = \<open>path_ok is_landed fetched ready ps\<close> and lay = 2(7) and on = \<open>set on_path = set ps\<close>
  let ?noted = "if omap_has ready h then ready else omap_set h (is_landed h) ready"
  show ?case
  proof (cases "omap_get fetched h = None \<or> omap_has ready h \<or> is_landed h")
    case True
    then have h: "h \<notin> set ps" using path by (auto simp: path_ok_def)
    have ans: "answers_ok is_landed fetched ?noted" using ok True mergeable_iff[of is_landed fetched h]
      by (auto simp: answers_ok_def ordered_simps)
    have p': "path_ok is_landed fetched ?noted ps" using path h by (auto simp: path_ok_def ordered_simps)
    have sub: "insert h (dom (map_of ready)) \<subseteq> dom (map_of ?noted)" by (auto simp: dom_omap_set)
    have walk: "ready_walk is_landed fetched (h # stack) on_path ready = ready_walk is_landed fetched stack on_path ?noted"
      using True by (auto simp: ready_walk.simps split: option.split)
    have "answers_ok is_landed fetched (ready_walk is_landed fetched stack on_path ?noted) \<and>
        insert start_hash (dom (map_of ?noted)) \<subseteq> dom (map_of (ready_walk is_landed fetched stack on_path ?noted))"
      using True 2(1)[OF _ ans p' layered_pop[OF lay h sub] on] 2(2)[OF _ _ ans p' layered_pop[OF lay h sub] on]
      by (cases "omap_get fetched h") blast+
    then show ?thesis unfolding walk using sub by blast
  next
    case False
    then obtain e where e: "omap_get fetched h = Some e" by auto
    show ?thesis
    proof (cases "h \<in> set on_path")
      case fresh: False
      let ?pushed = "rev (List.filter (\<lambda>parent. \<not> omap_has ready parent \<and> parent \<notin> set (oset_add h on_path)) (parents e))"
      have p': "path_ok is_landed fetched ready (h # ps)" using path False fresh on by (auto simp: path_ok_def)
      have lay': "layered fetched (dom (map_of ready)) start_hash {} (?pushed @ h # stack) (h # ps)"
        using fresh on e by (intro layered_push[OF lay]) (auto simp: parents_in_def)
      have walk: "ready_walk is_landed fetched (h # stack) on_path ready =
          ready_walk is_landed fetched (?pushed @ h # stack) (oset_add h on_path) ready"
        using False fresh e by (simp add: ready_walk.simps Let_def)
      show ?thesis unfolding walk
        using 2(3)[OF e _ _ refl ok p' lay'] False fresh on by simp
    next
      case True
      with on layered_top[OF lay] obtain ps' where ps: "ps = h # ps'" by auto
      let ?done = "omap_set h (list_all (\<lambda>parent. omap_get ready parent = Some True) (parents e)) ready"
      have ans: "answers_ok is_landed fetched ?done"
        using ok finished_answer[OF e ok path[unfolded ps] lay[unfolded ps]] by (auto simp: answers_ok_def ordered_simps)
      have p': "path_ok is_landed fetched ?done ps'" using path by (auto simp: ps path_ok_def ordered_simps)
      have lay': "layered fetched (dom (map_of ?done)) start_hash {} stack ps'"
        using layered_finish[OF lay[unfolded ps]] by (simp add: dom_omap_set)
      have on': "set (oset_delete h on_path) = set ps'" using on path by (auto simp: ps path_ok_def)
      have walk: "ready_walk is_landed fetched (h # stack) on_path ready = ready_walk is_landed fetched stack (oset_delete h on_path) ?done"
        using False True e by (simp add: ready_walk.simps)
      show ?thesis unfolding walk using 2(4)[OF e _ _ ans p' lay' on'] False True by (auto simp: dom_omap_set)
    qed
  qed
qed

lemma ready_map_ok:
  "answers_ok is_landed fetched (ready_map is_landed fetched) \<and> set (omap_keys fetched) \<subseteq> dom (map_of (ready_map is_landed fetched))"
proof -
  have "answers_ok is_landed fetched (fold (\<lambda>h ready. ready_walk is_landed fetched [h] [] ready) hs ready) \<and>
      set hs \<union> dom (map_of ready) \<subseteq> dom (map_of (fold (\<lambda>h ready. ready_walk is_landed fetched [h] [] ready) hs ready))"
    if "answers_ok is_landed fetched ready" for hs ready using that
  proof (induction hs arbitrary: ready)
    case (Cons h hs)
    let ?ready = "ready_walk is_landed fetched [h] [] ready"
    from ready_walk_ok[OF Cons.prems, of "[]" h "[h]" "[]"]
    have "answers_ok is_landed fetched ?ready" "insert h (dom (map_of ready)) \<subseteq> dom (map_of ?ready)" by (simp_all add: path_ok_def)
    with Cons.IH[of ?ready] show ?case unfolding fold_simps list.set by blast
  qed simp
  from this[of "[]" "omap_keys fetched"] show ?thesis by (auto simp: ready_map_def answers_ok_def)
qed

definition keyed :: "(string, hashed_entry) omap \<Rightarrow> bool" where
  "keyed fetched = list_all (\<lambda>(h, e). he_hash e = h) fetched"

lemma ready_batch_mergeable:
  assumes "keyed fetched"
  shows "ready_batch is_landed fetched = List.filter (\<lambda>e. mergeable is_landed fetched (he_hash e)) (omap_values fetched)"
  unfolding ready_batch_def Let_def
proof (rule filter_cong[OF refl])
  fix e assume "e \<in> set (omap_values fetched)"
  then obtain h where "(h, e) \<in> set fetched" by auto
  then have "he_hash e \<in> set (omap_keys fetched)" using assms by (force simp: keyed_def list_all_iff)
  with ready_map_ok[of is_landed fetched] show "(omap_get (ready_map is_landed fetched) (he_hash e) = Some True) = mergeable is_landed fetched (he_hash e)"
    by (auto simp: answers_ok_def)
qed

section \<open>The index of children\<close>

lemma set_remember_parents: "set (children_named (fold (remember_parent h) ps children) p) =
    set (children_named children p) \<union> (if p \<in> set ps then {h} else {})"
  by (induction ps arbitrary: children) (auto simp: remember_parent_def children_named_def ordered_simps)

lemma set_forget_parent: "set (children_named (forget_parent h q children) p) = set (children_named children p) - (if p = q then {h} else {})"
proof (cases "omap_get children q")
  case (Some siblings)
  have "oset_delete h siblings = [] \<Longrightarrow> set siblings \<subseteq> {h}" by (metis Diff_eq_empty_iff set_empty set_oset_delete)
  with Some show ?thesis by (auto simp: forget_parent_def children_named_def ordered_simps Let_def)
qed (auto simp: forget_parent_def children_named_def)

lemma set_forget_parents: "set (children_named (fold (forget_parent h) ps children) p) =
    set (children_named children p) - (if p \<in> set ps then {h} else {})"
  by (induction ps arbitrary: children) (auto simp: set_forget_parent)

definition index_ok :: "orchestrator \<Rightarrow> bool" where
  "index_ok mo \<longleftrightarrow> distinct (omap_keys (mo_fetched mo)) \<and> keyed (mo_fetched mo) \<and>
     (\<forall>p c. c \<in> set (children_named (mo_children mo) p) \<longleftrightarrow> p \<in> parents_in (mo_fetched mo) c)"

lemma keyed_get: "keyed m \<Longrightarrow> omap_get m h = Some e \<Longrightarrow> he_hash e = h"
  by (auto simp: keyed_def list_all_iff dest!: map_of_SomeD)

lemma keyed_set: "keyed m \<Longrightarrow> keyed (omap_set (he_hash e) e m)"
  by (induction m) (auto simp: keyed_def)

lemma keyed_delete: "keyed m \<Longrightarrow> keyed (omap_delete h m)"
  by (auto simp: keyed_def list_all_iff AList.delete_eq)

lemma remember_index:
  assumes "index_ok mo" "omap_get (mo_fetched mo) (he_hash e) \<in> {None, Some e}"
  shows "index_ok (remember e mo)"
proof -
  have "parents_in (omap_set (he_hash e) e (mo_fetched mo)) c = (if c = he_hash e then set (parents e) else parents_in (mo_fetched mo) c)" for c
    by (simp add: parents_in_def ordered_simps)
  moreover have "parents_in (mo_fetched mo) (he_hash e) \<subseteq> set (parents e)" using assms(2) by (auto simp: parents_in_def)
  ultimately show ?thesis using assms(1)
    by (auto simp: index_ok_def remember_def set_remember_parents keyed_set distinct_update)
qed

lemma forget_index:
  assumes "index_ok mo" "omap_get (mo_fetched mo) (he_hash e) = Some e"
  shows "index_ok (forget e mo)"
proof -
  have "parents_in (omap_delete (he_hash e) (mo_fetched mo)) c = (if c = he_hash e then {} else parents_in (mo_fetched mo) c)" for c
    by (simp add: parents_in_def ordered_simps)
  moreover have "parents_in (mo_fetched mo) (he_hash e) = set (parents e)" using assms(2) by (simp add: parents_in_def)
  ultimately show ?thesis using assms(1)
    by (auto simp: index_ok_def forget_def set_forget_parents keyed_delete distinct_delete)
qed

section \<open>Descendants of a rejected entry\<close>

definition unmixed :: "orchestrator \<Rightarrow> bool" where
  "unmixed mo \<longleftrightarrow> index_ok mo \<and> set (omap_keys (mo_fetched mo)) \<inter> set (mo_rejected mo) = {}"

abbreviation waiting_outside :: "string set \<Rightarrow> (string, hashed_entry) omap \<Rightarrow> (string, hashed_entry) omap" where
  "waiting_outside C fetched \<equiv> List.filter (\<lambda>x. fst x \<notin> C) fetched"

lemma map_of_outside: "omap_get (waiting_outside C m) h = (if h \<in> C then None else omap_get m h)"
  by (induction m) auto

lemma outside_get: "omap_get (waiting_outside C m) h \<in> {None, omap_get m h}"
  unfolding map_of_outside by simp

text \<open>What dropping a set of children changes.\<close>

definition dropped :: "string set \<Rightarrow> orchestrator \<Rightarrow> orchestrator \<Rightarrow> bool" where
  "dropped C mo mo' \<longleftrightarrow> unmixed mo' \<and> mo_fetched mo' = waiting_outside C (mo_fetched mo) \<and>
     set (mo_rejected mo') = set (mo_rejected mo) \<union> C \<inter> set (omap_keys (mo_fetched mo)) \<and>
     mo_running mo' = mo_running mo \<and> mo_scheduled mo' = mo_scheduled mo"

lemma outside_empty: "C \<inter> set (omap_keys m) = {} \<Longrightarrow> waiting_outside C m = m"
  by (induction m) auto

lemma dropped_none: "unmixed mo \<Longrightarrow> C \<inter> set (omap_keys (mo_fetched mo)) = {} \<Longrightarrow> dropped C mo mo"
  by (simp add: dropped_def outside_empty)

lemma dropped_trans: "dropped C mo mo1 \<Longrightarrow> dropped C' mo1 mo2 \<Longrightarrow> dropped (C \<union> C') mo mo2"
  by (auto simp: dropped_def conj_commute image_iff)

lemma drop_child_dropped:
  assumes "unmixed mo"
  shows "dropped {c} mo (fst (drop_child c (mo, queue))) \<and>
    set (snd (drop_child c (mo, queue))) = set queue \<union> {c} \<inter> set (omap_keys (mo_fetched mo))"
proof (cases "omap_get (mo_fetched mo) c")
  case None
  then have "c \<notin> set (omap_keys (mo_fetched mo))" by (simp add: map_of_eq_None_iff)
  with None assms show ?thesis by (simp add: drop_child_def dropped_none)
next
  case (Some e)
  with assms have e: "he_hash e = c" by (auto simp: unmixed_def index_ok_def dest: keyed_get)
  have c: "c \<in> set (omap_keys (mo_fetched mo))" using Some by (force dest: map_of_SomeD)
  then have new: "c \<notin> set (mo_rejected mo)" using assms by (auto simp: unmixed_def)
  have "index_ok (forget e mo)" using assms Some e by (intro forget_index) (simp_all add: unmixed_def)
  moreover have "omap_delete c (mo_fetched mo) = waiting_outside {c} (mo_fetched mo)" by (auto simp: AList.delete_eq intro!: filter_cong)
  ultimately show ?thesis using Some new c e assms
    by (auto simp: drop_child_def dropped_def unmixed_def forget_def index_ok_def)
qed

lemma drop_children_dropped:
  assumes "unmixed mo"
  shows "dropped (set cs) mo (fst (fold drop_child cs (mo, queue))) \<and>
    set (snd (fold drop_child cs (mo, queue))) = set queue \<union> set cs \<inter> set (omap_keys (mo_fetched mo))"
  using assms
proof (induction cs arbitrary: mo queue)
  case Nil
  then show ?case by (simp add: dropped_none)
next
  case (Cons c cs)
  obtain mo1 queue1 where step: "drop_child c (mo, queue) = (mo1, queue1)" by fastforce
  from drop_child_dropped[OF Cons.prems, of c queue, unfolded step]
  have d: "dropped {c} mo mo1" and q: "set queue1 = set queue \<union> {c} \<inter> set (omap_keys (mo_fetched mo))" by simp_all
  have "set (omap_keys (mo_fetched mo1)) = set (omap_keys (mo_fetched mo)) - {c}" using d by (auto simp: dropped_def image_iff)
  with Cons.IH[of mo1 queue1] d q dropped_trans[OF d, of "set cs"] show ?case by (auto simp: step dropped_def)
qed

inductive descends :: "(string, hashed_entry) omap \<Rightarrow> string set \<Rightarrow> string \<Rightarrow> bool" for fetched roots where
  "p \<in> parents_in fetched c \<Longrightarrow> p \<in> roots \<or> descends fetched roots p \<Longrightarrow> descends fetched roots c"

inductive_simps descends_iff: "descends fetched roots c"

lemma descends_step:
  assumes "C = {c. h \<in> parents_in fetched c}"
  shows "descends fetched (insert h Q) c \<longleftrightarrow> c \<in> C \<or> descends (waiting_outside C fetched) (Q \<union> C) c"
proof
  have out: "parents_in (waiting_outside C fetched) c = (if c \<in> C then {} else parents_in fetched c)" for c
    by (simp add: parents_in_def map_of_outside)
  {
    assume "descends fetched (insert h Q) c"
    then show "c \<in> C \<or> descends (waiting_outside C fetched) (Q \<union> C) c"
    proof (induction rule: descends.induct)
      case (1 p c)
      then show ?case using assms out descends.intros[of p "waiting_outside C fetched" c "Q \<union> C"] by (cases "c \<in> C") auto
    qed
  next
    have C: "descends fetched (insert h Q) c" if "c \<in> C" for c
      using that descends.intros[of h fetched c "insert h Q"] by (simp add: assms)
    assume "c \<in> C \<or> descends (waiting_outside C fetched) (Q \<union> C) c"
    moreover have "descends fetched (insert h Q) c" if "descends (waiting_outside C fetched) (Q \<union> C) c" for c using that
    proof (induction rule: descends.induct)
      case (1 p c)
      then have "p \<in> parents_in fetched c" by (simp add: out split: if_splits)
      with 1(2) C[of p] show ?case by (intro descends.intros) auto
    qed
    ultimately show "descends fetched (insert h Q) c" using C by blast
  }
qed

text \<open>\<open>drop_rejected_descendants\<close> drops exactly the waiting descendants.\<close>

lemma drop_loop_dropped: "unmixed mo \<Longrightarrow> dropped {c. descends (mo_fetched mo) (set queue) c} mo (drop_loop queue mo)"
proof (induction queue mo rule: drop_loop.induct)
  case (1 mo)
  have "\<not> descends (mo_fetched mo) {} c" for c
  proof
    assume "descends (mo_fetched mo) {} c"
    then show False by (induction rule: descends.induct) simp
  qed
  then show ?case using 1 by (simp add: drop_loop.simps dropped_none)
next
  case (2 h queue mo)
  obtain mo1 queue1 where step: "fold drop_child (children_named (mo_children mo) h) (mo, queue) = (mo1, queue1)" by fastforce
  define C where "C = {c. h \<in> parents_in (mo_fetched mo) c}"
  have named: "set (children_named (mo_children mo) h) = C" using 2(2) by (auto simp: C_def unmixed_def index_ok_def)
  have keys: "C \<subseteq> set (omap_keys (mo_fetched mo))" by (force simp: C_def parents_in_def dest: map_of_SomeD split: option.splits)
  from drop_children_dropped[OF 2(2), of "children_named (mo_children mo) h" queue, unfolded step named] keys
  have d: "dropped C mo mo1" and q: "set queue1 = set queue \<union> C" by auto
  have "dropped {c. descends (mo_fetched mo1) (set queue1) c} mo1 (drop_loop queue1 mo1)"
    using 2(1)[OF step[symmetric] refl] d by (simp add: dropped_def)
  from dropped_trans[OF d this] have "dropped (C \<union> {c. descends (mo_fetched mo1) (set queue1) c}) mo (drop_loop queue1 mo1)" .
  moreover have "C \<union> {c. descends (mo_fetched mo1) (set queue1) c} = {c. descends (mo_fetched mo) (set (h # queue)) c}"
    using descends_step[OF C_def, of "set queue"] d q by (auto simp: dropped_def)
  ultimately show ?case by (simp add: drop_loop.simps step)
qed

section \<open>Runs\<close>

abbreviation running_hashes :: "orchestrator \<Rightarrow> string set" where
  "running_hashes mo \<equiv> (case mo_running mo of None \<Rightarrow> {} | Some batch \<Rightarrow> he_hash ` set batch)"

text \<open>The events in any order. A hash names one entry (\<open>content\<close>) and what has landed is closed under
  parents, as the oplog is. Every entry is added once, as the traversal fetches it once; a run
  starts only when none is awaited; a merge lands part of its batch, or throws; entries land from outside
  (local appends, an open's restore) at any moment.\<close>

definition past_closed :: "(string \<Rightarrow> hashed_entry) \<Rightarrow> string set \<Rightarrow> bool" where
  "past_closed content landed \<longleftrightarrow> (\<forall>h \<in> landed. set (parents (content h)) \<subseteq> landed)"

datatype orchestrator_event = Added | Started | Merged | Failed | Grown | Discarded

inductive orchestrator_step :: "(string \<Rightarrow> hashed_entry) \<Rightarrow> orchestrator_event \<Rightarrow> string set \<times> orchestrator \<Rightarrow> string set \<times> orchestrator \<Rightarrow> bool"
  for content where
  added: "e = content (he_hash e) \<Longrightarrow> he_hash e \<notin> set (omap_keys (mo_fetched mo)) \<union> set (mo_rejected mo) \<union> running_hashes mo \<Longrightarrow>
    orchestrator_step content Added (landed, mo) (landed, add e mo)"
| started: "mo_scheduled mo \<Longrightarrow> mo_running mo = None \<Longrightarrow>
    orchestrator_step content Started (landed, mo) (landed, run_start (\<lambda>h. h \<in> landed) mo)"
| merged: "mo_running mo = Some batch \<Longrightarrow> landed \<subseteq> landed' \<Longrightarrow> landed' \<subseteq> landed \<union> he_hash ` set batch \<Longrightarrow> past_closed content landed' \<Longrightarrow>
    orchestrator_step content Merged (landed, mo) (landed', run_merged (\<lambda>h. h \<in> landed') batch mo)"
| failed: "mo_running mo = Some batch \<Longrightarrow> orchestrator_step content Failed (landed, mo) (landed, run_failed batch mo)"
| grown: "landed \<subseteq> landed' \<Longrightarrow> past_closed content landed' \<Longrightarrow> orchestrator_step content Grown (landed, mo) (landed', mo)"
| discarded: "orchestrator_step content Discarded (landed, mo) (landed, discard mo)"

inductive orchestrator_run :: "(string \<Rightarrow> hashed_entry) \<Rightarrow> string set \<Rightarrow> orchestrator \<Rightarrow> bool" for content where
  created: "past_closed content landed \<Longrightarrow> orchestrator_run content landed create_merge_orchestrator"
| step: "orchestrator_run content landed mo \<Longrightarrow> orchestrator_step content ev (landed, mo) (landed', mo') \<Longrightarrow> orchestrator_run content landed' mo'"

text \<open>A step on which nothing ready is stranded: a merge throws, or an entry lands from outside, only while
  another run is scheduled to look again.\<close>

inductive looked_after :: "(string \<Rightarrow> hashed_entry) \<Rightarrow> string set \<times> orchestrator \<Rightarrow> string set \<times> orchestrator \<Rightarrow> bool" for content where
  looked: "orchestrator_step content ev (landed, mo) (landed', mo') \<Longrightarrow> ev \<in> {Failed, Grown} \<longrightarrow> mo_scheduled mo \<Longrightarrow>
    looked_after content (landed, mo) (landed', mo')"

definition batch_closed :: "string set \<Rightarrow> hashed_entry list \<Rightarrow> bool" where
  "batch_closed landed batch \<longleftrightarrow> (\<forall>e \<in> set batch. set (parents e) \<subseteq> landed \<union> he_hash ` set batch)"

abbreviation named_by :: "(string \<Rightarrow> hashed_entry) \<Rightarrow> hashed_entry list \<Rightarrow> bool" where
  "named_by content es \<equiv> \<forall>e \<in> set es. content (he_hash e) = e"

definition orchestrator_ok :: "(string \<Rightarrow> hashed_entry) \<Rightarrow> string set \<Rightarrow> orchestrator \<Rightarrow> bool" where
  "orchestrator_ok content landed mo \<longleftrightarrow> past_closed content landed \<and> unmixed mo \<and> named_by content (omap_values (mo_fetched mo)) \<and>
     running_hashes mo \<inter> (set (omap_keys (mo_fetched mo)) \<union> set (mo_rejected mo)) = {} \<and>
     (\<forall>batch. mo_running mo = Some batch \<longrightarrow> distinct (map he_hash batch) \<and> named_by content batch \<and> batch_closed landed batch)"

lemma forget_all_fetched: "mo_fetched (fold forget es mo) = waiting_outside (he_hash ` set es) (mo_fetched mo)"
  by (induction es arbitrary: mo) (auto simp: forget_def AList.delete_eq intro!: filter_cong)

lemma forget_all:
  assumes "unmixed mo" "distinct (map he_hash batch)" "\<forall>e \<in> set batch. omap_get (mo_fetched mo) (he_hash e) = Some e"
  shows "unmixed (fold forget batch mo)"
  using assms
proof (induction batch arbitrary: mo)
  case (Cons e es)
  have f: "mo_fetched (forget e mo) = waiting_outside {he_hash e} (mo_fetched mo)" "mo_rejected (forget e mo) = mo_rejected mo"
    by (auto simp: forget_def AList.delete_eq intro!: filter_cong)
  have "unmixed (forget e mo)" using Cons.prems f forget_index[of mo e] by (auto simp: unmixed_def)
  moreover have "\<forall>x \<in> set es. omap_get (mo_fetched (forget e mo)) (he_hash x) = Some x"
  proof
    fix x assume x: "x \<in> set es"
    then have "he_hash x \<noteq> he_hash e" using Cons.prems(2) by (simp add: image_iff) metis
    with x Cons.prems(3) show "omap_get (mo_fetched (forget e mo)) (he_hash x) = Some x"
      unfolding f(1) map_of_outside by simp
  qed
  ultimately show ?case using Cons.IH Cons.prems(2) by simp
qed simp

lemma remember_all:
  assumes "unmixed mo" "distinct (map he_hash batch)" "he_hash ` set batch \<inter> (set (omap_keys (mo_fetched mo)) \<union> set (mo_rejected mo)) = {}"
  shows "unmixed (fold remember batch mo)"
  using assms
proof (induction batch arbitrary: mo)
  case (Cons e es)
  have keys: "set (omap_keys (mo_fetched (remember e mo))) = insert (he_hash e) (set (omap_keys (mo_fetched mo)))" "mo_rejected (remember e mo) = mo_rejected mo"
    by (simp_all add: remember_def dom_map_of_conv_image_fst[symmetric] dom_omap_set)
  have "omap_get (mo_fetched mo) (he_hash e) = None" using Cons.prems(3) by (auto simp: map_of_eq_None_iff)
  then have "unmixed (remember e mo)" using Cons.prems keys remember_index[of mo e] by (auto simp: unmixed_def)
  then show ?case using Cons.IH[of "remember e mo"] Cons.prems keys by auto
qed simp

lemma batch_get:
  assumes "index_ok mo" "e \<in> set (ready_batch is_landed (mo_fetched mo))"
  shows "omap_get (mo_fetched mo) (he_hash e) = Some e \<and> mergeable is_landed (mo_fetched mo) (he_hash e)"
proof -
  have keyed: "keyed (mo_fetched mo)" using assms(1) by (simp add: index_ok_def)
  with assms(2) obtain h where "(h, e) \<in> set (mo_fetched mo)" by (auto simp: ready_batch_mergeable)
  then have "omap_get (mo_fetched mo) (he_hash e) = Some e" using assms(1) keyed by (auto simp: index_ok_def keyed_def list_all_iff)
  with assms(2) show ?thesis by (auto simp: ready_batch_mergeable[OF keyed])
qed

lemma batch_distinct: "index_ok mo \<Longrightarrow> distinct (map he_hash (ready_batch is_landed (mo_fetched mo)))"
proof -
  assume ok: "index_ok mo"
  have "map he_hash (omap_values m) = omap_keys m" if "keyed m" for m using that by (induction m) (auto simp: keyed_def)
  with ok have "distinct (map he_hash (omap_values (mo_fetched mo)))" unfolding index_ok_def by (simp only:)
  then show ?thesis unfolding ready_batch_def Let_def by (rule distinct_map_filter)
qed

lemma batch_is_closed:
  assumes "index_ok mo" "past_closed content landed" "named_by content (omap_values (mo_fetched mo))"
  shows "batch_closed landed (ready_batch (\<lambda>h. h \<in> landed) (mo_fetched mo))"
  unfolding batch_closed_def
proof (intro ballI subsetI)
  let ?batch = "ready_batch (\<lambda>h. h \<in> landed) (mo_fetched mo)"
  have keyed: "keyed (mo_fetched mo)" using assms by (simp add: index_ok_def)
  fix e p assume e: "e \<in> set ?batch" "p \<in> set (parents e)"
  note get = batch_get[OF assms(1) e(1)]
  show "p \<in> landed \<union> he_hash ` set ?batch"
  proof (cases "he_hash e \<in> landed")
    case True
    have "content (he_hash e) = e" using assms(3) e(1) by (auto simp: ready_batch_mergeable[OF keyed])
    with True e(2) assms(2) show ?thesis unfolding past_closed_def by force
  next
    case False
    with get e(2) have "mergeable (\<lambda>h. h \<in> landed) (mo_fetched mo) p" by (auto elim: mergeable.cases)
    then show ?thesis
    proof (cases rule: mergeable.cases)
      case (waiting x)
      then have "he_hash x = p" "x \<in> set (omap_values (mo_fetched mo))" using keyed by (auto dest: keyed_get omap_value_in)
      with \<open>mergeable (\<lambda>h. h \<in> landed) (mo_fetched mo) p\<close> show ?thesis by (auto simp: ready_batch_mergeable[OF keyed])
    qed simp
  qed
qed

lemma remember_values: "set (omap_values (mo_fetched (remember e mo))) \<subseteq> insert e (set (omap_values (mo_fetched mo)))"
proof -
  have "set (omap_values (omap_set k v m)) \<subseteq> insert v (set (omap_values m))" for k and v :: hashed_entry and m by (induction m) auto
  then show ?thesis by (simp add: remember_def)
qed

lemma remember_all_values:
  "set (omap_values (mo_fetched (fold remember es mo))) \<subseteq> set es \<union> set (omap_values (mo_fetched mo))"
proof (induction es arbitrary: mo)
  case (Cons e es)
  from Cons[of "remember e mo"] remember_values[of e mo] show ?case by auto
qed simp

lemma remember_keeps [simp]: "mo_running (remember e mo) = mo_running mo" "mo_rejected (remember e mo) = mo_rejected mo"
  "mo_scheduled (remember e mo) = mo_scheduled mo"
  by (simp_all add: remember_def)

lemma remember_all_keeps [simp]: "mo_running (fold remember es mo) = mo_running mo" "mo_rejected (fold remember es mo) = mo_rejected mo"
  "mo_scheduled (fold remember es mo) = mo_scheduled mo"
  by (induction es arbitrary: mo) simp_all

lemma forget_all_keeps [simp]: "mo_running (fold forget es mo) = mo_running mo" "mo_scheduled (fold forget es mo) = mo_scheduled mo"
  "mo_rejected (fold forget es mo) = mo_rejected mo"
  by (induction es arbitrary: mo) (simp_all add: forget_def)

lemma index_ok_fields: "mo_fetched mo' = mo_fetched mo \<Longrightarrow> mo_children mo' = mo_children mo \<Longrightarrow> index_ok mo' = index_ok mo"
  by (simp add: index_ok_def)

lemma unmixed_running: "unmixed (mo\<lparr>mo_running := r\<rparr>) = unmixed mo"
  by (simp add: unmixed_def index_ok_fields[of "mo\<lparr>mo_running := r\<rparr>" mo])

lemma batch_closed_mono: "batch_closed landed batch \<Longrightarrow> landed \<subseteq> landed' \<Longrightarrow> batch_closed landed' batch"
  unfolding batch_closed_def by blast

lemma add_ok:
  assumes ok: "orchestrator_ok content landed mo" and e: "e = content (he_hash e)"
    and new: "he_hash e \<notin> set (omap_keys (mo_fetched mo)) \<union> set (mo_rejected mo) \<union> running_hashes mo"
  shows "orchestrator_ok content landed (add e mo)"
proof (cases "list_ex (\<lambda>parent. parent \<in> set (mo_rejected mo)) (parents e)")
  case True
  then show ?thesis using ok new
    by (auto simp: add_def orchestrator_ok_def unmixed_def index_ok_fields[of "mo\<lparr>mo_rejected := r\<rparr>" mo for r])
next
  case False
  have "set (omap_keys (mo_fetched (remember e mo))) = insert (he_hash e) (set (omap_keys (mo_fetched mo)))"
    by (simp add: remember_def dom_map_of_conv_image_fst[symmetric] dom_omap_set)
  moreover have "unmixed (remember e mo)" using remember_all[of mo "[e]"] ok new by (simp add: orchestrator_ok_def)
  moreover have "named_by content (omap_values (mo_fetched (remember e mo)))" 
  proof
    fix x assume "x \<in> set (omap_values (mo_fetched (remember e mo)))"
    with remember_values[of e mo] have "x = e \<or> x \<in> set (omap_values (mo_fetched mo))" by blast
    then show "content (he_hash x) = x" using ok e unfolding orchestrator_ok_def by metis
  qed
  ultimately show ?thesis using ok new False
    by (auto simp: add_def orchestrator_ok_def unmixed_def index_ok_fields[of "x\<lparr>mo_scheduled := r\<rparr>" x for x r])
qed

lemma run_start_ok:
  assumes ok: "orchestrator_ok content landed mo" and idle: "mo_running mo = None"
  shows "orchestrator_ok content landed (run_start (\<lambda>h. h \<in> landed) mo)"
proof -
  define batch where "batch = ready_batch (\<lambda>h. h \<in> landed) (mo_fetched mo)"
  let ?mo = "mo\<lparr>mo_scheduled := False\<rparr>"
  have un: "unmixed ?mo" and ix: "index_ok mo" using ok by (auto simp: orchestrator_ok_def unmixed_def index_ok_fields[of ?mo mo])
  have all: "unmixed (fold forget batch ?mo) \<and> mo_fetched (fold forget batch ?mo) = waiting_outside (he_hash ` set batch) (mo_fetched ?mo) \<and>
      mo_rejected (fold forget batch ?mo) = mo_rejected ?mo"
    using forget_all[OF un] batch_distinct[OF ix] batch_get[OF ix] by (simp add: batch_def forget_all_fetched)
  have batch: "distinct (map he_hash batch)" "batch_closed landed batch"
    using batch_distinct[OF ix] batch_is_closed[OF ix, of content landed] ok by (simp_all add: batch_def orchestrator_ok_def)
  have sub: "set batch \<subseteq> set (omap_values (mo_fetched mo))" "he_hash ` set batch \<subseteq> set (omap_keys (mo_fetched mo))"
  proof -
    have "e \<in> set (omap_values (mo_fetched mo)) \<and> he_hash e \<in> set (omap_keys (mo_fetched mo))" if "e \<in> set batch" for e
      using batch_get[OF ix that[unfolded batch_def]] by (force dest: map_of_SomeD)
    then show "set batch \<subseteq> set (omap_values (mo_fetched mo))" "he_hash ` set batch \<subseteq> set (omap_keys (mo_fetched mo))" by blast+
  qed
  show ?thesis
  proof (cases "batch = []")
    case True
    then show ?thesis using ok un idle by (simp add: run_start_def Let_def batch_def orchestrator_ok_def)
  next
    case False
    have "unmixed ((fold forget batch ?mo)\<lparr>mo_running := Some batch\<rparr>)"
      using all by (simp add: unmixed_running)
    moreover have "he_hash ` set batch \<inter> set (mo_rejected mo) = {}" using sub(2) ok by (auto simp: orchestrator_ok_def unmixed_def)
    moreover have "named_by content batch" using sub(1) ok by (auto simp: orchestrator_ok_def)
    ultimately show ?thesis using False ok all batch by (auto simp: run_start_def Let_def batch_def[symmetric] orchestrator_ok_def)
  qed
qed

text \<open>What a finished merge changes.\<close>

abbreviation lost_in :: "string set \<Rightarrow> hashed_entry list \<Rightarrow> string set" where
  "lost_in landed batch \<equiv> {he_hash e |e. e \<in> set batch \<and> he_hash e \<notin> landed}"

lemma run_merged_dropped:
  assumes ok: "orchestrator_ok content landed mo" and run: "mo_running mo = Some batch"
  obtains r where "set r = set (mo_rejected mo) \<union> lost_in landed' batch"
    and "dropped {c. descends (mo_fetched mo) (lost_in landed' batch) c} (mo\<lparr>mo_running := None, mo_rejected := r\<rparr>)
      (run_merged (\<lambda>h. h \<in> landed') batch mo)"
proof -
  define lost where "lost = map he_hash (List.filter (\<lambda>e. he_hash e \<notin> landed') batch)"
  have set: "set lost = lost_in landed' batch" by (auto simp: lost_def)
  let ?mo = "mo\<lparr>mo_running := None, mo_rejected := fold oset_add lost (mo_rejected mo)\<rparr>"
  have "set lost \<inter> set (omap_keys (mo_fetched mo)) = {}" using ok run by (auto simp: lost_def orchestrator_ok_def)
  then have "unmixed ?mo" using ok
    by (auto simp: orchestrator_ok_def unmixed_def set_fold_oset_add index_ok_fields[of "mo\<lparr>mo_running := r, mo_rejected := s\<rparr>" mo for r s])
  from drop_loop_dropped[OF this, of "rev lost"]
  have "dropped {c. descends (mo_fetched mo) (lost_in landed' batch) c} ?mo (run_merged (\<lambda>h. h \<in> landed') batch mo)"
    by (simp add: run_merged_def drop_rejected_descendants_def Let_def lost_def[symmetric] set)
  then show ?thesis by (rule that[rotated]) (auto simp: set_fold_oset_add set)
qed

lemma run_merged_ok:
  assumes ok: "orchestrator_ok content landed mo" and run: "mo_running mo = Some batch" and grow: "past_closed content landed'"
  shows "orchestrator_ok content landed' (run_merged (\<lambda>h. h \<in> landed') batch mo)"
proof -
  obtain r where "dropped {c. descends (mo_fetched mo) (lost_in landed' batch) c} (mo\<lparr>mo_running := None, mo_rejected := r\<rparr>)
      (run_merged (\<lambda>h. h \<in> landed') batch mo)" using run_merged_dropped[OF ok run] by blast
  with ok grow show ?thesis by (auto simp: orchestrator_ok_def dropped_def)
qed

lemma run_failed_ok:
  assumes ok: "orchestrator_ok content landed mo" and run: "mo_running mo = Some batch"
  shows "orchestrator_ok content landed (run_failed batch mo)"
proof -
  have "unmixed (mo\<lparr>mo_running := None\<rparr>)" using ok by (simp add: orchestrator_ok_def unmixed_running)
  then have "unmixed (run_failed batch mo)" unfolding run_failed_def using ok run by (intro remember_all) (auto simp: orchestrator_ok_def)
  moreover have "named_by content (omap_values (mo_fetched (run_failed batch mo)))"
    using remember_all_values[of batch "mo\<lparr>mo_running := None\<rparr>"] ok run by (fastforce simp: run_failed_def orchestrator_ok_def)
  ultimately show ?thesis using ok by (simp add: orchestrator_ok_def run_failed_def)
qed

lemma orchestrator_step_ok:
  assumes "orchestrator_step content ev (landed, mo) (landed', mo')" "orchestrator_ok content landed mo"
  shows "orchestrator_ok content landed' mo'"
  using assms(1)
proof (cases rule: orchestrator_step.cases)
  case grown
  then show ?thesis using assms(2) batch_closed_mono[OF _ grown(3)] by (auto simp: orchestrator_ok_def)
next
  case discarded
  then show ?thesis using assms(2)
    by (auto simp: orchestrator_ok_def discard_def unmixed_def index_ok_def keyed_def children_named_def parents_in_def)
qed (use assms(2) in \<open>blast intro: add_ok run_start_ok run_merged_ok run_failed_ok\<close>)+

lemma orchestrator_run_ok: "orchestrator_run content landed mo \<Longrightarrow> orchestrator_ok content landed mo"
proof (induction rule: orchestrator_run.induct)
  case (created landed)
  then show ?case by (simp add: orchestrator_ok_def create_merge_orchestrator_def unmixed_def index_ok_def keyed_def children_named_def parents_in_def)
qed (blast intro: orchestrator_step_ok)

section \<open>Progress\<close>

lemma mergeable_mono:
  assumes "mergeable is_landed fetched h" "\<And>x. is_landed x \<Longrightarrow> is_landed' x" "\<And>x. omap_get fetched x \<in> {None, omap_get fetched' x}"
  shows "mergeable is_landed' fetched' h"
  using assms(1)
proof (induction rule: mergeable.induct)
  case (waiting h e)
  then have "omap_get fetched' h = Some e" using assms(3)[of h] by simp
  then show ?case by (rule mergeable.waiting) (use waiting in blast)
qed (blast intro: mergeable.local assms(2))

text \<open>Landing what could merge anyway makes nothing else mergeable.\<close>

lemma mergeable_absorb:
  assumes "mergeable (\<lambda>x. x \<in> landed \<union> B) fetched h" "\<forall>x \<in> B. mergeable (\<lambda>x. x \<in> landed) fetched x"
  shows "mergeable (\<lambda>x. x \<in> landed) fetched h"
  using assms
proof (induction rule: mergeable.induct)
  case (waiting h e)
  show ?case by (rule mergeable.waiting[OF waiting(1)]) (use waiting in blast)
qed (auto intro: mergeable.local)

lemma remember_all_scheduled: "mo_scheduled (fold remember es mo) = mo_scheduled mo"
  by (induction es arbitrary: mo) (simp_all add: remember_def)

definition nothing_stuck :: "string set \<Rightarrow> orchestrator \<Rightarrow> bool" where
  "nothing_stuck landed mo \<longleftrightarrow> mo_scheduled mo \<or>
     (\<forall>h \<in> set (omap_keys (mo_fetched mo)). \<not> mergeable (\<lambda>x. x \<in> landed \<union> running_hashes mo) (mo_fetched mo) h)"

lemma run_start_live:
  assumes "index_ok mo" "mo_running mo = None"
  shows "nothing_stuck landed (run_start (\<lambda>h. h \<in> landed) mo)"
proof -
  define batch where "batch = ready_batch (\<lambda>h. h \<in> landed) (mo_fetched mo)"
  let ?mo = "mo\<lparr>mo_scheduled := False\<rparr>"
  have keyed: "keyed (mo_fetched mo)" using assms(1) by (simp add: index_ok_def)
  have B: "\<forall>x \<in> he_hash ` set batch. mergeable (\<lambda>x. x \<in> landed) (mo_fetched mo) x" using batch_get[OF assms(1)] by (auto simp: batch_def)
  have out: "h \<in> he_hash ` set batch" if h: "h \<in> set (omap_keys (mo_fetched mo))" and m: "mergeable (\<lambda>x. x \<in> landed) (mo_fetched mo) h" for h
  proof -
    from h obtain e where "(h, e) \<in> set (mo_fetched mo)" by auto
    moreover then have "he_hash e = h" using keyed by (auto simp: keyed_def list_all_iff)
    ultimately have "e \<in> set batch" using m by (force simp: batch_def ready_batch_mergeable[OF keyed])
    with \<open>he_hash e = h\<close> show ?thesis by blast
  qed
  have fetched: "mo_fetched (fold forget batch ?mo) = waiting_outside (he_hash ` set batch) (mo_fetched mo)"
    by (simp add: forget_all_fetched)
  have "\<not> mergeable (\<lambda>x. x \<in> landed \<union> he_hash ` set batch) (waiting_outside (he_hash ` set batch) (mo_fetched mo)) h"
    if h: "h \<in> set (omap_keys (waiting_outside (he_hash ` set batch) (mo_fetched mo)))" for h
  proof
    assume "mergeable (\<lambda>x. x \<in> landed \<union> he_hash ` set batch) (waiting_outside (he_hash ` set batch) (mo_fetched mo)) h"
    then have "mergeable (\<lambda>x. x \<in> landed \<union> he_hash ` set batch) (mo_fetched mo) h"
      by (rule mergeable_mono) (auto simp: map_of_outside)
    from mergeable_absorb[OF this B] have "mergeable (\<lambda>x. x \<in> landed) (mo_fetched mo) h" .
    moreover have "h \<in> set (omap_keys (mo_fetched mo))" "h \<notin> he_hash ` set batch" using h by auto
    ultimately show False using out by blast
  qed
  then show ?thesis using out assms(2)
    by (cases "batch = []") (auto simp: nothing_stuck_def run_start_def Let_def batch_def[symmetric] fetched)
qed

lemma run_merged_live:
  assumes ok: "orchestrator_ok content landed mo" and run: "mo_running mo = Some batch" and grow: "landed' \<subseteq> landed \<union> he_hash ` set batch"
    and live: "nothing_stuck landed mo"
  shows "nothing_stuck landed' (run_merged (\<lambda>h. h \<in> landed') batch mo)"
proof -
  let ?mo' = "run_merged (\<lambda>h. h \<in> landed') batch mo"
  obtain r where d: "dropped {c. descends (mo_fetched mo) (lost_in landed' batch) c} (mo\<lparr>mo_running := None, mo_rejected := r\<rparr>) ?mo'"
    using run_merged_dropped[OF ok run] by blast
  have "\<not> mergeable (\<lambda>x. x \<in> landed') (mo_fetched ?mo') h" if "\<not> mo_scheduled mo" "h \<in> set (omap_keys (mo_fetched ?mo'))" for h
  proof
    assume "mergeable (\<lambda>x. x \<in> landed') (mo_fetched ?mo') h"
    then have "mergeable (\<lambda>x. x \<in> landed \<union> he_hash ` set batch) (mo_fetched mo) h"
    proof (rule mergeable_mono)
      have "mo_fetched ?mo' = waiting_outside {c. descends (mo_fetched mo) (lost_in landed' batch) c} (mo_fetched mo)"
        using d unfolding dropped_def by simp
      then show "omap_get (mo_fetched ?mo') x \<in> {None, omap_get (mo_fetched mo) x}" for x by (simp only: outside_get)
    qed (use grow in blast)
    moreover have "h \<in> set (omap_keys (mo_fetched mo))" using that d by (auto simp: dropped_def)
    ultimately show False using live that(1) run by (auto simp: nothing_stuck_def)
  qed
  moreover have "mo_scheduled ?mo' = mo_scheduled mo" "running_hashes ?mo' = {}" using d by (simp_all add: dropped_def)
  ultimately show ?thesis by (auto simp: nothing_stuck_def)
qed

lemma looked_after_live:
  assumes "orchestrator_step content ev (landed, mo) (landed', mo')" "ev \<in> {Failed, Grown} \<longrightarrow> mo_scheduled mo"
    and "orchestrator_ok content landed mo" "nothing_stuck landed mo"
  shows "nothing_stuck landed' mo'"
  using assms(1)
proof (cases rule: orchestrator_step.cases)
  case (added e)
  then show ?thesis using assms(4) by (auto simp: nothing_stuck_def add_def)
next
  case started
  then show ?thesis using run_start_live assms(3) by (simp add: orchestrator_ok_def unmixed_def)
next
  case (merged batch)
  then show ?thesis using run_merged_live assms by blast
next
  case (failed batch)
  then show ?thesis using assms(2) by (simp add: nothing_stuck_def run_failed_def remember_all_scheduled)
qed (use assms(2) in \<open>simp_all add: nothing_stuck_def discard_def\<close>)

lemma looked_after_run:
  assumes "(looked_after content)\<^sup>*\<^sup>* s s'" "orchestrator_run content (fst s) (snd s)" "nothing_stuck (fst s) (snd s)"
  shows "orchestrator_run content (fst s') (snd s') \<and> nothing_stuck (fst s') (snd s')"
  using assms
proof (induction rule: rtranclp_induct)
  case (step t t')
  from step.hyps(2) show ?case
  proof (cases rule: looked_after.cases)
    case (looked ev landed mo landed' mo')
    have t: "orchestrator_run content landed mo" "nothing_stuck landed mo" using step.IH[OF step.prems] looked(1) by simp_all
    show ?thesis using looked_after_live[OF looked(3,4) orchestrator_run_ok[OF t(1)] t(2)] orchestrator_run.step[OF t(1) looked(3)] looked(2) by simp
  qed
qed simp

section \<open>Properties\<close>

definition sample_candidate :: "string \<Rightarrow> string list \<Rightarrow> hashed_entry" where
  "sample_candidate h next = \<lparr>he_hash = h, he_multihash = [], he_bytes = [], he_entry = \<lparr>e_id = [], e_payload = JNull,
     e_next = next, e_refs = [], e_clock = \<lparr>clock_id = [], clock_time = 1\<rparr>, e_key = [], e_sig = []\<rparr>\<rparr>"

lemma sample_candidate_fields [simp]: "he_hash (sample_candidate h next) = h" "parents (sample_candidate h next) = next"
  by (simp_all add: sample_candidate_def)

text \<open>C15: The readiness walk is exact: over the waiting entries, each under its hash, the batch is
  those whose every ancestor has landed or waits with all its ancestors in the same way, in
  their order of arrival. The explicit stack, the shared answers and the cut at cycles change
  nothing against that least fixed point.\<close>

theorem ready_batch_exact:
  assumes "\<forall>(h, e) \<in> set fetched. he_hash e = h"
  shows "ready_batch is_landed fetched = List.filter (\<lambda>e. mergeable is_landed fetched (he_hash e)) (omap_values fetched)"
  using assms by (intro ready_batch_mergeable) (simp add: keyed_def list_all_iff)

theorem ready_batch_exact_witness:
  "ready_batch (\<lambda>h. h = ''a'') [(''b'', sample_candidate ''b'' [''a'']), (''d'', sample_candidate ''d'' [''x''])] =
   List.filter (\<lambda>e. mergeable (\<lambda>h. h = ''a'') [(''b'', sample_candidate ''b'' [''a'']), (''d'', sample_candidate ''d'' [''x''])] (he_hash e))
     [sample_candidate ''b'' [''a''], sample_candidate ''d'' [''x'']]"
  using ready_batch_exact[of "[(''b'', sample_candidate ''b'' [''a'']), (''d'', sample_candidate ''d'' [''x''])]" "\<lambda>h. h = ''a''"] by simp

text \<open>C16: In every run, through adds, merges that land or reject or throw, local appends and discards, each batch
  handed to the merge is closed (every parent of an entry has landed or is in the batch) and free of
  repeats, no entry is at once waiting, rejected or being merged, and the index of children
  names exactly the waiting children of each hash.\<close>

theorem orchestrator_invariant:
  assumes "orchestrator_run content landed mo"
  shows "(\<forall>batch. mo_running mo = Some batch \<longrightarrow> distinct (map he_hash batch) \<and>
       (\<forall>e \<in> set batch. \<forall>p \<in> set (parents e). p \<in> landed \<or> p \<in> he_hash ` set batch)) \<and>
     running_hashes mo \<inter> (set (omap_keys (mo_fetched mo)) \<union> set (mo_rejected mo)) = {} \<and>
     set (omap_keys (mo_fetched mo)) \<inter> set (mo_rejected mo) = {} \<and>
     (\<forall>p c. c \<in> set (children_named (mo_children mo) p) \<longleftrightarrow> (\<exists>e. omap_get (mo_fetched mo) c = Some e \<and> p \<in> set (parents e)))"
proof -
  from orchestrator_run_ok[OF assms] have ok: "orchestrator_ok content landed mo" .
  have "p \<in> parents_in m c \<longleftrightarrow> (\<exists>e. omap_get m c = Some e \<and> p \<in> set (parents e))" for p m c
    by (auto simp: parents_in_def split: option.splits)
  with ok have "\<forall>p c. c \<in> set (children_named (mo_children mo) p) \<longleftrightarrow> (\<exists>e. omap_get (mo_fetched mo) c = Some e \<and> p \<in> set (parents e))"
    unfolding orchestrator_ok_def unmixed_def index_ok_def by blast
  moreover from ok have "\<forall>batch. mo_running mo = Some batch \<longrightarrow> distinct (map he_hash batch) \<and>
       (\<forall>e \<in> set batch. \<forall>p \<in> set (parents e). p \<in> landed \<or> p \<in> he_hash ` set batch)"
    unfolding orchestrator_ok_def batch_closed_def by blast
  ultimately show ?thesis using ok unfolding orchestrator_ok_def unmixed_def by blast
qed

text \<open>A sample: an entry is added and its batch starts.\<close>

lemma sample_orchestrator_run: "orchestrator_run (\<lambda>h. sample_candidate h []) {} (add (sample_candidate ''a'' []) create_merge_orchestrator)"
  by (rule orchestrator_run.step[OF orchestrator_run.created orchestrator_step.added])
    (simp_all add: past_closed_def create_merge_orchestrator_def)

lemma sample_orchestrator_fields: "mo_scheduled (add (sample_candidate ''a'' []) create_merge_orchestrator)"
  "mo_fetched (add (sample_candidate ''a'' []) create_merge_orchestrator) = [(''a'', sample_candidate ''a'' [])]"
  "mo_running (add (sample_candidate ''a'' []) create_merge_orchestrator) = None"
  by (simp_all add: add_def remember_def create_merge_orchestrator_def)

lemma sample_started_run:
  "orchestrator_run (\<lambda>h. sample_candidate h []) {} (run_start (\<lambda>h. h \<in> {}) (add (sample_candidate ''a'' []) create_merge_orchestrator))"
  by (rule orchestrator_run.step[OF sample_orchestrator_run orchestrator_step.started]) (simp_all add: sample_orchestrator_fields)

lemma sample_batch: "ready_batch (\<lambda>h. h \<in> {}) [(''a'', sample_candidate ''a'' [])] = [sample_candidate ''a'' []]"
  by (simp add: ready_batch_def ready_map_def ready_walk.simps Let_def oset_add_def)

lemma sample_started_running:
  "mo_running (run_start (\<lambda>h. h \<in> {}) (add (sample_candidate ''a'' []) create_merge_orchestrator)) = Some [sample_candidate ''a'' []]"
  using sample_batch by (simp add: run_start_def Let_def sample_orchestrator_fields)

theorem orchestrator_invariant_witness:
  "distinct (map he_hash [sample_candidate ''a'' []]) \<and>
   ''a'' \<notin> set (omap_keys (mo_fetched (run_start (\<lambda>h. h \<in> {}) (add (sample_candidate ''a'' []) create_merge_orchestrator))))"
  using orchestrator_invariant[OF sample_started_run] unfolding sample_started_running by auto

text \<open>C17: Nothing that could merge is left behind while runs go on. Take any reachable state, after
  whatever throws, outside landings and discards, in which a run is scheduled (as every accepted add leaves it)
  or nothing waits; follow it by any steps in which no merge throws and nothing lands from outside unless a run is
  scheduled at that moment. Once nothing is scheduled or running, no waiting entry is ready. The
  condition is needed: see \<open>thrown_merge_waits\<close> below.\<close>

theorem orchestrator_settles:
  assumes "orchestrator_run content landed0 mo0" "mo_scheduled mo0 \<or> mo_fetched mo0 = []"
    and "(looked_after content)\<^sup>*\<^sup>* (landed0, mo0) (landed, mo)" "settled mo"
  shows "ready_batch (\<lambda>h. h \<in> landed) (mo_fetched mo) = []"
proof -
  have "nothing_stuck landed0 mo0" using assms(2) by (auto simp: nothing_stuck_def)
  with looked_after_run[OF assms(3)] assms(1) have live: "orchestrator_run content landed mo" "nothing_stuck landed mo" by simp_all
  have ix: "index_ok mo" using orchestrator_run_ok[OF live(1)] by (simp add: orchestrator_ok_def unmixed_def)
  have "\<not> mergeable (\<lambda>x. x \<in> landed) (mo_fetched mo) h" if "h \<in> set (omap_keys (mo_fetched mo))" for h
    using live(2) assms(4) that by (auto simp: nothing_stuck_def settled_def)
  moreover have "\<exists>h. h \<in> set (omap_keys (mo_fetched mo)) \<and> mergeable (\<lambda>x. x \<in> landed) (mo_fetched mo) h"
    if "e \<in> set (ready_batch (\<lambda>h. h \<in> landed) (mo_fetched mo))" for e
    using batch_get[OF ix that] by (force dest: map_of_SomeD)
  ultimately show ?thesis by (cases "ready_batch (\<lambda>h. h \<in> landed) (mo_fetched mo)") auto
qed

text \<open>The sample goes on: while the batch of \<open>a\<close> merges, \<open>d\<close> is added, whose parent \<open>x\<close> is not here; the merge
  lands \<open>a\<close>, a run looks at \<open>d\<close> and leaves it waiting.\<close>

definition waiting_content :: "string \<Rightarrow> hashed_entry" where
  "waiting_content h = sample_candidate h (if h = ''d'' then [''x''] else [])"

definition merging_a :: orchestrator where
  "merging_a = \<lparr>mo_fetched = [], mo_rejected = [], mo_children = [], mo_scheduled = False, mo_running = Some [waiting_content ''a'']\<rparr>"

definition waiting_d :: "bool \<Rightarrow> hashed_entry list option \<Rightarrow> orchestrator" where
  "waiting_d scheduled running = \<lparr>mo_fetched = [(''d'', waiting_content ''d'')], mo_rejected = [], mo_children = [(''x'', [''d''])],
     mo_scheduled = scheduled, mo_running = running\<rparr>"

lemma waiting_steps:
  "run_start (\<lambda>h. h \<in> {}) (add (waiting_content ''a'') create_merge_orchestrator) = merging_a"
  "add (waiting_content ''d'') merging_a = waiting_d True (Some [waiting_content ''a''])"
  "run_merged (\<lambda>h. h \<in> {''a''}) [waiting_content ''a''] (waiting_d True (Some [waiting_content ''a''])) = waiting_d True None"
  "run_start (\<lambda>h. h \<in> {''a''}) (waiting_d True None) = waiting_d False None"
proof -
  show "run_start (\<lambda>h. h \<in> {}) (add (waiting_content ''a'') create_merge_orchestrator) = merging_a"
    using sample_batch
    by (simp add: waiting_content_def merging_a_def run_start_def add_def remember_def forget_def create_merge_orchestrator_def Let_def)
  show "add (waiting_content ''d'') merging_a = waiting_d True (Some [waiting_content ''a''])"
    by (simp add: waiting_content_def merging_a_def waiting_d_def add_def remember_def remember_parent_def children_named_def oset_add_def)
  show "run_merged (\<lambda>h. h \<in> {''a''}) [waiting_content ''a''] (waiting_d True (Some [waiting_content ''a''])) = waiting_d True None"
    by (simp add: waiting_content_def waiting_d_def run_merged_def drop_rejected_descendants_def drop_loop.simps)
  show "run_start (\<lambda>h. h \<in> {''a''}) (waiting_d True None) = waiting_d False None"
    by (simp add: waiting_content_def waiting_d_def run_start_def ready_batch_def ready_map_def ready_walk.simps Let_def oset_add_def)
qed

lemma merging_a_run: "orchestrator_run waiting_content {} merging_a"
proof -
  have "orchestrator_run waiting_content {} (add (waiting_content ''a'') create_merge_orchestrator)"
    by (rule orchestrator_run.step[OF orchestrator_run.created orchestrator_step.added])
      (simp_all add: past_closed_def waiting_content_def create_merge_orchestrator_def)
  from orchestrator_run.step[OF this orchestrator_step.started] show ?thesis
    unfolding waiting_steps(1) by (simp add: add_def waiting_content_def remember_def create_merge_orchestrator_def)
qed

lemma waiting_d_run: "orchestrator_run waiting_content {} (waiting_d True (Some [waiting_content ''a'']))"
  unfolding waiting_steps(2)[symmetric]
  by (rule orchestrator_run.step[OF merging_a_run orchestrator_step.added]) (simp_all add: merging_a_def waiting_content_def)

lemma waiting_d_looked:
  "(looked_after waiting_content)\<^sup>*\<^sup>* ({}, waiting_d True (Some [waiting_content ''a''])) ({''a''}, waiting_d False None)"
proof -
  have "looked_after waiting_content ({}, waiting_d True (Some [waiting_content ''a''])) ({''a''}, waiting_d True None)"
    unfolding waiting_steps(3)[symmetric]
    by (rule looked_after.looked[OF orchestrator_step.merged]) (simp_all add: waiting_d_def waiting_content_def past_closed_def)
  moreover have "looked_after waiting_content ({''a''}, waiting_d True None) ({''a''}, waiting_d False None)"
    unfolding waiting_steps(4)[symmetric]
    by (rule looked_after.looked[OF orchestrator_step.started]) (simp_all add: waiting_d_def)
  ultimately show ?thesis by (meson rtranclp.rtrancl_refl rtranclp.rtrancl_into_rtrancl)
qed

theorem orchestrator_settles_witness:
  "pending (waiting_d False None) = 1 \<and> ready_batch (\<lambda>h. h \<in> {''a''}) (mo_fetched (waiting_d False None)) = []"
proof
  show "ready_batch (\<lambda>h. h \<in> {''a''}) (mo_fetched (waiting_d False None)) = []"
    by (rule orchestrator_settles[OF waiting_d_run _ waiting_d_looked]) (simp_all add: settled_def waiting_d_def)
qed (simp add: pending_def waiting_d_def)

text \<open>A merge that throws while no other run is scheduled leaves the orchestrator settled with its whole batch
  waiting and ready: \<open>run\<close> puts the entries back and schedules nothing, so they merge only after the next
  \<open>add\<close>.\<close>

lemma remember_all_get: "c \<notin> he_hash ` set es \<Longrightarrow> omap_get (mo_fetched (fold remember es mo)) c = omap_get (mo_fetched mo) c"
  by (induction es arbitrary: mo) (auto simp: remember_def ordered_simps)

lemma remember_all_fetched:
  "distinct (map he_hash es) \<Longrightarrow> e \<in> set es \<Longrightarrow> omap_get (mo_fetched (fold remember es mo)) (he_hash e) = Some e"
proof (induction es arbitrary: mo)
  case (Cons x es)
  show ?case
  proof (cases "e = x")
    case True
    have "omap_get (mo_fetched (remember x mo)) (he_hash x) = Some x" by (simp add: remember_def ordered_simps)
    with True show ?thesis using Cons.prems remember_all_get[of "he_hash x" es "remember x mo"] by simp
  qed (use Cons in simp)
qed simp

lemma thrown_merge_waits:
  assumes "orchestrator_run content landed mo" "mo_running mo = Some batch" "\<not> mo_scheduled mo" "e \<in> set batch"
  shows "settled (run_failed batch mo) \<and> omap_get (mo_fetched (run_failed batch mo)) (he_hash e) = Some e \<and>
    set (parents e) \<subseteq> landed \<union> he_hash ` set batch"
proof -
  have ok: "orchestrator_ok content landed mo" by (rule orchestrator_run_ok[OF assms(1)])
  have "mo_running (fold remember es m) = mo_running m" for es m by (induction es arbitrary: m) (simp_all add: remember_def)
  then have "settled (run_failed batch mo)" using assms(3) by (simp add: settled_def run_failed_def remember_all_scheduled)
  then show ?thesis using ok assms(2,4) unfolding orchestrator_ok_def batch_closed_def run_failed_def
    using remember_all_fetched[of batch e] by blast
qed

lemma thrown_merge_stays_ready:
  "orchestrator_run waiting_content {} (run_failed [waiting_content ''a''] merging_a) \<and> settled (run_failed [waiting_content ''a''] merging_a) \<and>
   ready_batch (\<lambda>h. h \<in> {}) (mo_fetched (run_failed [waiting_content ''a''] merging_a)) = [waiting_content ''a'']"
proof (intro conjI)
  show "orchestrator_run waiting_content {} (run_failed [waiting_content ''a''] merging_a)"
    by (rule orchestrator_run.step[OF merging_a_run orchestrator_step.failed]) (simp add: merging_a_def)
  show "ready_batch (\<lambda>h. h \<in> {}) (mo_fetched (run_failed [waiting_content ''a''] merging_a)) = [waiting_content ''a'']"
    using sample_batch by (simp add: run_failed_def merging_a_def waiting_content_def remember_def)
qed (use thrown_merge_waits[OF merging_a_run] in \<open>simp add: merging_a_def\<close>)

text \<open>When a merge rejects entries of its batch, exactly the waiting entries that descend from them
  through waiting entries are dropped and rejected with them.\<close>

lemma rejected_descendants_dropped:
  assumes "orchestrator_run content landed mo" "mo_running mo = Some batch"
    and "mo' = run_merged (\<lambda>h. h \<in> landed') batch mo"
  shows "mo_fetched mo' = List.filter (\<lambda>x. \<not> descends (mo_fetched mo) (lost_in landed' batch) (fst x)) (mo_fetched mo) \<and>
     set (mo_rejected mo') = set (mo_rejected mo) \<union> lost_in landed' batch \<union>
       {h. omap_has (mo_fetched mo) h \<and> descends (mo_fetched mo) (lost_in landed' batch) h}"
proof -
  obtain r where r: "set r = set (mo_rejected mo) \<union> lost_in landed' batch"
    and d: "dropped {c. descends (mo_fetched mo) (lost_in landed' batch) c} (mo\<lparr>mo_running := None, mo_rejected := r\<rparr>) mo'"
    using run_merged_dropped[OF orchestrator_run_ok[OF assms(1)] assms(2)] unfolding assms(3) by blast
  have "{h. omap_has (mo_fetched mo) h \<and> P h} = {h. P h} \<inter> set (omap_keys (mo_fetched mo))" for P
    unfolding omap_has_iff by auto
  with r d show ?thesis unfolding dropped_def by simp
qed

text \<open>An entry whose only parent is rejected while the entry itself still waits.\<close>

definition stranded :: "string \<Rightarrow> string \<Rightarrow> orchestrator \<Rightarrow> bool" where
  "stranded c b mo \<longleftrightarrow> b \<in> set (mo_rejected mo) \<and> parents_in (mo_fetched mo) c = {b}"

lemma parents_in_keys: "x \<in> parents_in m c \<Longrightarrow> c \<in> set (omap_keys m)"
  by (force simp: parents_in_def dest: map_of_SomeD split: option.splits)

lemma stranded_step:
  assumes step: "orchestrator_step content ev (landed, mo) (landed', mo')" "ev \<noteq> Discarded"
    and ok: "orchestrator_ok content landed mo" and away: "b \<notin> landed" "c \<notin> landed" and s: "stranded c b mo"
  shows "stranded c b mo'"
proof -
  have un: "unmixed mo" using ok by (simp add: orchestrator_ok_def)
  have c: "c \<in> set (omap_keys (mo_fetched mo))" using s parents_in_keys[of b] by (auto simp: stranded_def)
  have b: "b \<notin> set (omap_keys (mo_fetched mo))" using un s unfolding unmixed_def stranded_def by blast
  then have gone: "parents_in (mo_fetched mo) b = {}" using parents_in_keys[of _ "mo_fetched mo" b] by blast
  have free: "b \<notin> running_hashes mo" "c \<notin> running_hashes mo" using ok s c unfolding orchestrator_ok_def stranded_def by blast+
  show ?thesis using step(1)
  proof (cases rule: orchestrator_step.cases)
    case (added e)
    with c have "he_hash e \<noteq> c" by auto
    with added s show ?thesis by (auto simp: stranded_def add_def remember_def parents_in_def ordered_simps)
  next
    case started
    let ?batch = "ready_batch (\<lambda>h. h \<in> landed) (mo_fetched mo)"
    have "\<not> mergeable (\<lambda>h. h \<in> landed) (mo_fetched mo) c"
    proof
      assume "mergeable (\<lambda>h. h \<in> landed) (mo_fetched mo) c"
      then have "mergeable (\<lambda>h. h \<in> landed) (mo_fetched mo) b"
        by (rule mergeable.cases) (use away s in \<open>auto simp: stranded_def parents_in_def\<close>)
      moreover have "omap_get (mo_fetched mo) b = None" using b by (simp add: map_of_eq_None_iff)
      ultimately show False using away by (auto elim: mergeable.cases)
    qed
    then have "c \<notin> he_hash ` set ?batch" using batch_get[of mo] un by (auto simp: unmixed_def)
    then have "omap_get (mo_fetched (fold forget ?batch (mo\<lparr>mo_scheduled := False\<rparr>))) c = omap_get (mo_fetched mo) c"
      unfolding forget_all_fetched map_of_outside by simp
    then show ?thesis using s by (simp add: started stranded_def run_start_def Let_def parents_in_def)
  next
    case (merged batch)
    obtain r where r: "set r = set (mo_rejected mo) \<union> lost_in landed' batch"
      and d: "dropped {c. descends (mo_fetched mo) (lost_in landed' batch) c} (mo\<lparr>mo_running := None, mo_rejected := r\<rparr>) mo'"
      using run_merged_dropped[OF ok merged(3)] unfolding merged by blast
    have "b \<notin> lost_in landed' batch" using free(1) merged(3) by auto
    moreover have "\<not> descends (mo_fetched mo) (lost_in landed' batch) b" by (subst descends_iff) (simp add: gone)
    ultimately have "\<not> descends (mo_fetched mo) (lost_in landed' batch) c"
      using s by (subst descends_iff) (simp add: stranded_def)
    moreover have "mo_fetched mo' = waiting_outside {c. descends (mo_fetched mo) (lost_in landed' batch) c} (mo_fetched mo)"
      using d unfolding dropped_def by simp
    ultimately have "parents_in (mo_fetched mo') c = parents_in (mo_fetched mo) c" unfolding parents_in_def by (simp only: map_of_outside) simp
    then show ?thesis using s d r by (simp add: stranded_def dropped_def)
  next
    case (failed batch)
    then have "c \<notin> he_hash ` set batch" using free by simp
    with failed s show ?thesis by (simp add: stranded_def run_failed_def parents_in_def remember_all_get)
  qed (use s step in simp_all)
qed

text \<open>An entry is left behind when \<open>add\<close> rejects its only parent: adding a parent that names a
  rejected entry drops none of the entries that wait for it, and however the run goes on (more
  adds, merges, failures, appends) that entry keeps counting as pending until a discard.\<close>

lemma rejected_parent_strands_child:
  assumes "orchestrator_run content landed mo" "orchestrator_step content Added (landed, mo) (landed, add x mo)"
    and "set (parents x) \<inter> set (mo_rejected mo) \<noteq> {}" "omap_get (mo_fetched mo) c = Some e" "parents e = [he_hash x]"
    and "(\<lambda>s s'. \<exists>ev. orchestrator_step content ev s s' \<and> ev \<noteq> Discarded \<and> fst s \<inter> {c, he_hash x} = {})\<^sup>*\<^sup>*
      (landed, add x mo) (landed', mo')"
  shows "omap_has (mo_fetched mo') c \<and> 0 < pending mo'"
proof -
  have ok: "orchestrator_ok content landed (add x mo)"
    by (rule orchestrator_step_ok[OF assms(2) orchestrator_run_ok[OF assms(1)]])
  have "add x mo = mo\<lparr>mo_rejected := oset_add (he_hash x) (mo_rejected mo)\<rparr>" using assms(3) by (auto simp: add_def list_ex_iff)
  then have "stranded c (he_hash x) (add x mo)" using assms(4,5) by (simp add: stranded_def parents_in_def)
  with ok have "orchestrator_ok content (fst (landed, add x mo)) (snd (landed, add x mo)) \<and> stranded c (he_hash x) (snd (landed, add x mo))" by simp
  with assms(6) have "orchestrator_ok content (fst (landed', mo')) (snd (landed', mo')) \<and> stranded c (he_hash x) (snd (landed', mo'))"
  proof (induction rule: rtranclp_induct)
    case (step s s')
    obtain l m l' m' where s: "s = (l, m)" "s' = (l', m')" by (cases s, cases s')
    with step obtain ev where "orchestrator_step content ev (l, m) (l', m')" "ev \<noteq> Discarded" "he_hash x \<notin> l" "c \<notin> l" by auto
    then show ?case using step orchestrator_step_ok stranded_step unfolding s by (metis fst_conv snd_conv)
  qed
  then have c: "c \<in> set (omap_keys (mo_fetched mo'))" using parents_in_keys[of "he_hash x" _ c] by (simp add: stranded_def)
  then show ?thesis unfolding omap_has_iff pending_def by (cases "mo_fetched mo'") simp_all
qed

definition stranding_content :: "string \<Rightarrow> hashed_entry" where
  "stranding_content h = sample_candidate h (if h = ''c'' then [''b''] else if h = ''b'' then [''a''] else [])"

definition stranding :: orchestrator where
  "stranding = add (stranding_content ''c'') (run_merged (\<lambda>h. h \<in> {}) [stranding_content ''a'']
     (run_start (\<lambda>h. h \<in> {}) (add (stranding_content ''a'') create_merge_orchestrator)))"

lemma stranding_steps:
  "run_start (\<lambda>h. h \<in> {}) (add (stranding_content ''a'') create_merge_orchestrator) =
    \<lparr>mo_fetched = [], mo_rejected = [], mo_children = [], mo_scheduled = False, mo_running = Some [stranding_content ''a'']\<rparr>"
  "stranding = \<lparr>mo_fetched = [(''c'', stranding_content ''c'')], mo_rejected = [''a''], mo_children = [(''b'', [''c''])], mo_scheduled = True, mo_running = None\<rparr>"
proof -
  show start: "run_start (\<lambda>h. h \<in> {}) (add (stranding_content ''a'') create_merge_orchestrator) =
    \<lparr>mo_fetched = [], mo_rejected = [], mo_children = [], mo_scheduled = False, mo_running = Some [stranding_content ''a'']\<rparr>"
    using sample_batch
    by (simp add: stranding_content_def run_start_def add_def remember_def forget_def create_merge_orchestrator_def Let_def)
  show "stranding = \<lparr>mo_fetched = [(''c'', stranding_content ''c'')], mo_rejected = [''a''], mo_children = [(''b'', [''c''])], mo_scheduled = True, mo_running = None\<rparr>"
    unfolding stranding_def start
    by (simp add: stranding_content_def run_merged_def drop_rejected_descendants_def drop_loop.simps children_named_def add_def remember_def
        remember_parent_def oset_add_def Let_def)
qed

lemma stranding_run: "orchestrator_run stranding_content {} stranding"
proof -
  have closed: "past_closed stranding_content {}" by (simp add: past_closed_def)
  have "orchestrator_run stranding_content {} (add (stranding_content ''a'') create_merge_orchestrator)"
    by (rule orchestrator_run.step[OF orchestrator_run.created[OF closed] orchestrator_step.added])
      (simp_all add: stranding_content_def create_merge_orchestrator_def)
  then have "orchestrator_run stranding_content {} (run_start (\<lambda>h. h \<in> {}) (add (stranding_content ''a'') create_merge_orchestrator))"
    by (rule orchestrator_run.step[OF _ orchestrator_step.started]) (simp_all add: add_def stranding_content_def remember_def create_merge_orchestrator_def)
  then have "orchestrator_run stranding_content {} (run_merged (\<lambda>h. h \<in> {}) [stranding_content ''a'']
      (run_start (\<lambda>h. h \<in> {}) (add (stranding_content ''a'') create_merge_orchestrator)))"
    by (rule orchestrator_run.step[OF _ orchestrator_step.merged], unfold stranding_steps(1)) (simp_all add: past_closed_def)
  then show ?thesis unfolding stranding_def
    by (rule orchestrator_run.step[OF _ orchestrator_step.added], unfold stranding_steps(1))
      (simp_all add: stranding_content_def run_merged_def drop_rejected_descendants_def drop_loop.simps children_named_def Let_def oset_add_def)
qed

end
