(* ===== verification/Json.thy ===== *)
theory Json
  imports Js_Value
begin

text \<open>
  The JSON text of the network messages (\<open>src/replication/messages.ts\<close>): what the code uses of
  \<open>JSON.stringify\<close> and \<open>JSON.parse\<close>. Text is a list of UTF-8 bytes. \<open>other\<close> is the text of the
  values no message holds (fractions and integers printed with an exponent, bytes, links,
  bigints); \<open>num\<close> is the double nearest to a number literal, which is used only where
  the literal is not an integer of the safe range, whose value is exact. The parser keeps a counter
  that bounds its recursion; it starts at twice the length of the text, and from there on its value makes no
  difference. The main lemma is the round trip.
\<close>

section \<open>Printing\<close>

definition int_text :: "int \<Rightarrow> string" where
  "int_text i = (if i < 0 then CHR ''-'' # index_name (nat (- i)) else index_name (nat i))"

fun join_comma :: "string list \<Rightarrow> string" where
  "join_comma [] = []"
| "join_comma [x] = x"
| "join_comma (x # y # ys) = x @ CHR '','' # join_comma (y # ys)"

fun json_text :: "(jsval \<Rightarrow> string) \<Rightarrow> jsval \<Rightarrow> string"
  and json_texts :: "(jsval \<Rightarrow> string) \<Rightarrow> jsval list \<Rightarrow> string list"
  and json_fields :: "(jsval \<Rightarrow> string) \<Rightarrow> (string \<times> jsval) list \<Rightarrow> string list" where
  "json_text other JUndefined = ''null''"
| "json_text other JNull = ''null''"
| "json_text other (JBool b) = (if b then ''true'' else ''false'')"
| "json_text other (JInt i) = (if \<bar>i\<bar> < 10 ^ 21 then int_text i else other (JInt i))"
| "json_text other (JFloat r) = other (JFloat r)"
| "json_text other (JBig i) = other (JBig i)"
| "json_text other (JStr s) = json_string s"
| "json_text other (JBytes bs) = other (JBytes bs)"
| "json_text other (JLink bs) = other (JLink bs)"
| "json_text other (JArr xs) = CHR ''['' # join_comma (json_texts other xs) @ [CHR '']'']"
| "json_text other (JObj fs) = CHR ''{'' # join_comma (json_fields other fs) @ [CHR ''}'']"
| "json_texts other [] = []"
| "json_texts other (x # xs) = json_text other x # json_texts other xs"
| "json_fields other [] = []"
| "json_fields other ((k, w) # fs) =
     (if w = JUndefined then json_fields other fs else (json_string k @ CHR '':'' # json_text other w) # json_fields other fs)"

section \<open>Parsing\<close>

definition is_ws :: "char \<Rightarrow> bool" where
  "is_ws c = (c \<in> {CHR '' '', CHR 0x09, CHR 0x0A, CHR 0x0D})"

definition skip_ws :: "string \<Rightarrow> string" where
  "skip_ws s = dropWhile is_ws s"

definition hex_value :: "char \<Rightarrow> nat option" where
  "hex_value c = (let n = of_char c :: nat in
     if 48 \<le> n \<and> n \<le> 57 then Some (n - 48)
     else if 97 \<le> n \<and> n \<le> 102 then Some (n - 87)
     else if 65 \<le> n \<and> n \<le> 70 then Some (n - 55) else None)"

definition hex4 :: "string \<Rightarrow> (nat \<times> string) option" where
  "hex4 s = (case s of
     a # b # c # d # rest \<Rightarrow> (case (hex_value a, hex_value b, hex_value c, hex_value d) of
       (Some w, Some x, Some y, Some z) \<Rightarrow> Some (((w * 16 + x) * 16 + y) * 16 + z, rest)
     | _ \<Rightarrow> None)
   | _ \<Rightarrow> None)"

text \<open>The UTF-8 bytes of a code point.\<close>

definition utf8 :: "nat \<Rightarrow> string" where
  "utf8 n = map char_of
     (if n < 0x80 then [n]
      else if n < 0x800 then [0xC0 + n div 0x40, 0x80 + n mod 0x40]
      else if n < 0x10000 then [0xE0 + n div 0x1000, 0x80 + n div 0x40 mod 0x40, 0x80 + n mod 0x40]
      else [0xF0 + n div 0x40000, 0x80 + n div 0x1000 mod 0x40, 0x80 + n div 0x40 mod 0x40, 0x80 + n mod 0x40])"

text \<open>What follows \<open>\u\<close>: a code unit, or the two units of a surrogate pair.\<close>

definition unicode_escape :: "string \<Rightarrow> (string \<times> string) option" where
  "unicode_escape s = (case hex4 s of
     None \<Rightarrow> None
   | Some (u, rest) \<Rightarrow>
       if 0xD800 \<le> u \<and> u < 0xDC00 \<and> take 2 rest = [CHR 0x5C, CHR ''u''] then
         (case hex4 (drop 2 rest) of
           Some (v, rest') \<Rightarrow> if 0xDC00 \<le> v \<and> v < 0xE000
             then Some (utf8 (0x10000 + (u - 0xD800) * 0x400 + (v - 0xDC00)), rest') else Some (utf8 u, rest)
         | None \<Rightarrow> Some (utf8 u, rest))
       else Some (utf8 u, rest))"

definition simple_escape :: "char \<Rightarrow> char option" where
  "simple_escape c = map_of [(CHR 0x22, CHR 0x22), (CHR 0x5C, CHR 0x5C), (CHR ''/'', CHR ''/''), (CHR ''b'', CHR 0x08),
     (CHR ''f'', CHR 0x0C), (CHR ''n'', CHR 0x0A), (CHR ''r'', CHR 0x0D), (CHR ''t'', CHR 0x09)] c"

lemma hex4_shorter: "hex4 s = Some (n, r) \<Longrightarrow> length r < length s"
  by (auto simp: hex4_def split: list.splits option.splits)

lemma unicode_escape_shorter: "unicode_escape s = Some (x, r) \<Longrightarrow> length r < length s"
  by (auto simp: unicode_escape_def split: option.splits if_splits dest!: hex4_shorter)

text \<open>The rest of a string after its opening quote, and what follows the closing one.\<close>

function string_body :: "string \<Rightarrow> (string \<times> string) option" where
  "string_body [] = None"
| "string_body (c # cs) =
     (if c = CHR 0x22 then Some ([], cs)
      else if c = CHR 0x5C then
        (case cs of
          [] \<Rightarrow> None
        | d # ds \<Rightarrow>
            if d = CHR ''u'' then
              (case unicode_escape ds of
                None \<Rightarrow> None
              | Some (x, rest) \<Rightarrow> map_option (\<lambda>(s, r). (x @ s, r)) (string_body rest))
            else (case simple_escape d of
                None \<Rightarrow> None
              | Some x \<Rightarrow> map_option (\<lambda>(s, r). (x # s, r)) (string_body ds)))
      else if (of_char c :: nat) < 32 then None
      else map_option (\<lambda>(s, r). (c # s, r)) (string_body cs))"
  by pat_completeness auto

termination
  by (relation "measure length") (auto dest: unicode_escape_shorter)

definition is_digit :: "char \<Rightarrow> bool" where
  "is_digit c = (48 \<le> (of_char c :: nat) \<and> (of_char c :: nat) \<le> 57)"

definition digits_value :: "string \<Rightarrow> nat" where
  "digits_value s = foldl (\<lambda>n c. n * 10 + (of_char c - 48)) 0 s"

text \<open>The fraction and the exponent of a number: the characters read and the rest, none of them when
  the part is not there, \<open>None\<close> when it is malformed.\<close>

definition fraction_part :: "string \<Rightarrow> (string \<times> string) option" where
  "fraction_part s = (case s of
     c # cs \<Rightarrow> if c = CHR ''.'' then (if takeWhile is_digit cs = [] then None else Some (c # takeWhile is_digit cs, dropWhile is_digit cs)) else Some ([], s)
   | [] \<Rightarrow> Some ([], s))"

definition exponent_part :: "string \<Rightarrow> (string \<times> string) option" where
  "exponent_part s = (case s of
     c # cs \<Rightarrow> if c \<in> {CHR ''e'', CHR ''E''} then
         (let (sign, ds) = (case cs of d # es \<Rightarrow> if d \<in> {CHR ''+'', CHR ''-''} then ([d], es) else ([], cs) | [] \<Rightarrow> ([], cs))
          in if takeWhile is_digit ds = [] then None else Some (c # sign @ takeWhile is_digit ds, dropWhile is_digit ds))
       else Some ([], s)
   | [] \<Rightarrow> Some ([], s))"

definition parse_number :: "(string \<Rightarrow> jsval) \<Rightarrow> string \<Rightarrow> (jsval \<times> string) option" where
  "parse_number num s =
     (let neg = (s \<noteq> [] \<and> hd s = CHR ''-''); s1 = (if neg then tl s else s); ds = takeWhile is_digit s1; r1 = dropWhile is_digit s1
      in if ds = [] \<or> (hd ds = CHR ''0'' \<and> length ds \<noteq> 1) then None
         else case fraction_part r1 of
           None \<Rightarrow> None
         | Some (fp, r2) \<Rightarrow> (case exponent_part r2 of
             None \<Rightarrow> None
           | Some (ex, r3) \<Rightarrow>
               Some (if fp = [] \<and> ex = [] \<and> int (digits_value ds) \<le> MAX_SAFE_INTEGER
                     then JInt (if neg then - int (digits_value ds) else int (digits_value ds))
                     else num ((if neg then [CHR ''-''] else []) @ ds @ fp @ ex), r3)))"

text \<open>Of several members with one name the last one counts.\<close>

definition object_of :: "(string \<times> jsval) list \<Rightarrow> jsval" where
  "object_of ms = JObj (fold (\<lambda>(k, v). omap_set k v) ms [])"

fun parse_value :: "(string \<Rightarrow> jsval) \<Rightarrow> nat \<Rightarrow> string \<Rightarrow> (jsval \<times> string) option"
  and parse_items :: "(string \<Rightarrow> jsval) \<Rightarrow> nat \<Rightarrow> string \<Rightarrow> (jsval list \<times> string) option"
  and parse_members :: "(string \<Rightarrow> jsval) \<Rightarrow> nat \<Rightarrow> string \<Rightarrow> ((string \<times> jsval) list \<times> string) option" where
  "parse_value num 0 s = None"
| "parse_value num (Suc n) s = (case skip_ws s of
     [] \<Rightarrow> None
   | c # cs \<Rightarrow>
       if c = CHR 0x22 then map_option (\<lambda>(x, r). (JStr x, r)) (string_body cs)
       else if c = CHR ''['' then
         (case skip_ws cs of
           d # ds \<Rightarrow> if d = CHR '']'' then Some (JArr [], ds) else map_option (\<lambda>(xs, r). (JArr xs, r)) (parse_items num n (d # ds))
         | [] \<Rightarrow> None)
       else if c = CHR ''{'' then
         (case skip_ws cs of
           d # ds \<Rightarrow> if d = CHR ''}'' then Some (JObj [], ds) else map_option (\<lambda>(ms, r). (object_of ms, r)) (parse_members num n (d # ds))
         | [] \<Rightarrow> None)
       else if take 4 (c # cs) = ''null'' then Some (JNull, drop 4 (c # cs))
       else if take 4 (c # cs) = ''true'' then Some (JBool True, drop 4 (c # cs))
       else if take 5 (c # cs) = ''false'' then Some (JBool False, drop 5 (c # cs))
       else parse_number num (c # cs))"
| "parse_items num 0 s = None"
| "parse_items num (Suc n) s = (case parse_value num n s of
     None \<Rightarrow> None
   | Some (v, r) \<Rightarrow> (case skip_ws r of
       c # cs \<Rightarrow> if c = CHR '','' then map_option (\<lambda>(vs, q). (v # vs, q)) (parse_items num n cs)
         else if c = CHR '']'' then Some ([v], cs) else None
     | [] \<Rightarrow> None))"
| "parse_members num 0 s = None"
| "parse_members num (Suc n) s = (case skip_ws s of
     [] \<Rightarrow> None
   | c # cs \<Rightarrow> if c \<noteq> CHR 0x22 then None
       else (case string_body cs of
         None \<Rightarrow> None
       | Some (k, r) \<Rightarrow> (case skip_ws r of
           [] \<Rightarrow> None
         | d # ds \<Rightarrow> if d \<noteq> CHR '':'' then None
             else (case parse_value num n ds of
               None \<Rightarrow> None
             | Some (v, q) \<Rightarrow> (case skip_ws q of
                 e # es \<Rightarrow> if e = CHR '','' then map_option (\<lambda>(ms, z). ((k, v) # ms, z)) (parse_members num n es)
                   else if e = CHR ''}'' then Some ([(k, v)], es) else None
               | [] \<Rightarrow> None)))))"

definition json_parse :: "(string \<Rightarrow> jsval) \<Rightarrow> string \<Rightarrow> jsval option" where
  "json_parse num s = (case parse_value num (2 * length s + 2) s of
     None \<Rightarrow> None
   | Some (v, r) \<Rightarrow> if skip_ws r = [] then Some v else None)"

section \<open>Round trip\<close>

declare string_body.simps [simp del]

lemma hex_value_digit: "n < 16 \<Longrightarrow> hex_value (hex_digit n) = Some n"
proof -
  assume "n < 16"
  then have "n \<in> set [0..<16]" by simp
  moreover have "\<forall>m \<in> set [0..<16]. hex_value (hex_digit m) = Some m" by (simp add: hex_value_def hex_digit_def upt_rec)
  ultimately show ?thesis by blast
qed

lemma unicode_escape_control:
  assumes "(n :: nat) < 32"
  shows "unicode_escape (CHR ''0'' # CHR ''0'' # hex_digit (n div 16) # hex_digit (n mod 16) # rest) = Some ([char_of n], rest)"
proof -
  have "hex_value (CHR ''0'') = Some 0" by (simp add: hex_value_def)
  moreover have "hex_value (hex_digit (n div 16)) = Some (n div 16)" "hex_value (hex_digit (n mod 16)) = Some (n mod 16)"
    using assms by (auto intro!: hex_value_digit)
  ultimately show ?thesis using assms by (simp add: unicode_escape_def hex4_def utf8_def)
qed

lemma string_body_escape: "string_body (json_escape c @ rest) = map_option (\<lambda>(s, r). (c # s, r)) (string_body rest)"
proof (cases "(of_char c :: nat) < 32 \<and> c \<notin> {CHR 0x08, CHR 0x09, CHR 0x0A, CHR 0x0C, CHR 0x0D}")
  case True
  have "c \<noteq> CHR 0x22" using True by (intro notI) simp
  moreover have "c \<noteq> CHR 0x5C" using True by (intro notI) simp
  ultimately have esc: "json_escape c = [CHR 0x5C, CHR ''u'', CHR ''0'', CHR ''0'', hex_digit (of_char c div 16), hex_digit (of_char c mod 16)]"
    using True by (simp add: json_escape_def)
  show ?thesis unfolding esc using True by (simp add: string_body.simps unicode_escape_control)
next
  case False
  show ?thesis
  proof (cases "c \<in> {CHR 0x22, CHR 0x5C, CHR 0x08, CHR 0x09, CHR 0x0A, CHR 0x0C, CHR 0x0D}")
    case True
    then show ?thesis by (elim insertE) (simp_all add: json_escape_def string_body.simps(2)[of "CHR 0x5C"] simple_escape_def)
  next
    case plain: False
    with False have "json_escape c = [c]" "\<not> (of_char c :: nat) < 32" by (simp_all add: json_escape_def)
    with plain show ?thesis by (simp add: string_body.simps(2)[of c])
  qed
qed

lemma string_body_escapes: "string_body (concat (map json_escape s) @ CHR 0x22 # rest) = Some (s, rest)"
  by (induction s) (simp_all add: string_body.simps(2)[of "CHR 0x22"] string_body_escape)

text \<open>Decimal numerals.\<close>

lemma digit_char_digit: "n < 10 \<Longrightarrow> is_digit (digit_char n) \<and> (of_char (digit_char n) :: nat) = 48 + n"
  by (simp add: is_digit_def digit_char_def)

lemma index_name_digits: "\<forall>c \<in> set (index_name n). is_digit c"
proof (induction n rule: index_name.induct)
  case (1 n)
  then show ?case by (subst index_name.simps) (auto simp: digit_char_digit)
qed

lemma index_name_value: "digits_value (index_name n) = n"
proof (induction n rule: index_name.induct)
  case (1 n)
  then show ?case by (subst index_name.simps) (auto simp: digits_value_def digit_char_digit)
qed

lemma index_name_nonempty: "index_name n \<noteq> []"
  by (subst index_name.simps) simp

lemma index_name_leading: "hd (index_name n) = CHR ''0'' \<Longrightarrow> length (index_name n) = 1"
proof (induction n rule: index_name.induct)
  case (1 n)
  show ?case
  proof (cases "n < 10")
    case False
    have "hd (index_name n) = hd (index_name (n div 10))" using False index_name_nonempty[of "n div 10"] by (subst index_name.simps) simp
    with 1 False have one: "length (index_name (n div 10)) = 1" "hd (index_name (n div 10)) = CHR ''0''" by simp_all
    then have "index_name (n div 10) = [CHR ''0'']" by (cases "index_name (n div 10)") auto
    then have "n div 10 = 0" using index_name_value[of "n div 10"] by (simp add: digits_value_def)
    with False show ?thesis by simp
  qed (simp add: index_name.simps)
qed

definition number_ends :: "string \<Rightarrow> bool" where
  "number_ends rest \<longleftrightarrow> rest = [] \<or> \<not> is_digit (hd rest) \<and> hd rest \<notin> {CHR ''.'', CHR ''e'', CHR ''E''}"

lemma takeWhile_digits:
  assumes "number_ends rest"
  shows "takeWhile is_digit (index_name n @ rest) = index_name n" "dropWhile is_digit (index_name n @ rest) = rest"
  using assms index_name_digits[of n] by (cases rest; simp add: number_ends_def takeWhile_append dropWhile_append)+

lemma fraction_ends: "number_ends rest \<Longrightarrow> fraction_part rest = Some ([], rest) \<and> exponent_part rest = Some ([], rest)"
  by (cases rest) (auto simp: number_ends_def fraction_part_def exponent_part_def)

lemma parse_int_text:
  assumes "number_ends rest" "\<bar>i\<bar> \<le> MAX_SAFE_INTEGER"
  shows "parse_number num (int_text i @ rest) = Some (JInt i, rest)"
proof -
  have hd: "hd (index_name n @ rest) \<noteq> CHR ''-''" for n
    using index_name_digits[of n] index_name_nonempty[of n] by (cases "index_name n") (auto simp: is_digit_def)
  show ?thesis
  proof (cases "i < 0")
    case True
    then show ?thesis using assms index_name_nonempty[of "nat (- i)"] index_name_leading[of "nat (- i)"]
      by (simp add: parse_number_def int_text_def Let_def takeWhile_digits fraction_ends index_name_value)
  next
    case False
    then show ?thesis using assms hd[of "nat i"] index_name_nonempty[of "nat i"] index_name_leading[of "nat i"]
      by (simp add: parse_number_def int_text_def Let_def takeWhile_digits fraction_ends index_name_value)
  qed
qed

text \<open>The values a message is made of.\<close>

fun plain :: "jsval \<Rightarrow> bool" where
  "plain JNull = True"
| "plain (JBool b) = True"
| "plain (JInt i) = (\<bar>i\<bar> \<le> MAX_SAFE_INTEGER)"
| "plain (JStr s) = True"
| "plain (JArr xs) = list_all plain xs"
| "plain (JObj fs) = (distinct (map fst fs) \<and> list_all (\<lambda>(k, w). plain w) fs)"
| "plain v = False"

lemma plain_defined: "plain v \<Longrightarrow> v \<noteq> JUndefined"
  by auto

lemma int_text_head: "\<exists>c cs. int_text i = c # cs \<and> (c = CHR ''-'' \<or> is_digit c)"
  using index_name_digits[of "nat \<bar>i\<bar>"] index_name_nonempty[of "nat \<bar>i\<bar>"]
  by (cases "index_name (nat \<bar>i\<bar>)") (auto simp: int_text_def abs_if split: if_splits)

lemma digit_not: "is_digit c \<Longrightarrow> \<not> is_ws c \<and> c \<noteq> CHR '']'' \<and> c \<noteq> CHR ''['' \<and> c \<noteq> CHR ''{'' \<and> c \<noteq> CHR 0x22 \<and> c \<noteq> CHR ''n'' \<and> c \<noteq> CHR ''t'' \<and> c \<noteq> CHR ''f''"
  unfolding is_ws_def by (intro conjI notI; (elim insertE)?) (simp_all add: is_digit_def)

lemma json_text_head:
  assumes "plain v"
  shows "\<exists>c cs. json_text other v = c # cs \<and> \<not> is_ws c \<and> c \<noteq> CHR '']''"
proof (cases v)
  case (JInt i)
  then have "json_text other v = int_text i" using assms by (simp add: MAX_SAFE_INTEGER_def)
  with int_text_head[of i] show ?thesis using digit_not by (auto simp: is_ws_def)
qed (use assms in \<open>auto simp: json_string_def is_ws_def\<close>)

lemma skip_ws_head: "\<not> is_ws c \<Longrightarrow> skip_ws (c # cs) = c # cs"
  by (simp add: skip_ws_def)

lemma skip_ws_text: "plain v \<Longrightarrow> skip_ws (json_text other v @ rest) = json_text other v @ rest"
  using json_text_head[of v other] by (auto simp: skip_ws_head)

lemma number_ends_punctuation: "number_ends (CHR '','' # s)" "number_ends (CHR '']'' # s)" "number_ends (CHR ''}'' # s)" "number_ends []"
  by (simp_all add: number_ends_def is_digit_def)

lemma parse_int:
  assumes "number_ends rest" "\<bar>i\<bar> \<le> MAX_SAFE_INTEGER"
  shows "parse_value num (Suc n) (int_text i @ rest) = Some (JInt i, rest)"
proof -
  obtain c cs where c: "int_text i = c # cs" "c = CHR ''-'' \<or> is_digit c" using int_text_head by blast
  then have "\<not> is_ws c \<and> c \<noteq> CHR ''['' \<and> c \<noteq> CHR ''{'' \<and> c \<noteq> CHR 0x22 \<and> c \<noteq> CHR ''n'' \<and> c \<noteq> CHR ''t'' \<and> c \<noteq> CHR ''f''"
    using digit_not[of c] by (elim disjE) (simp_all add: is_ws_def)
  moreover have "parse_number num (c # cs @ rest) = Some (JInt i, rest)" using parse_int_text[OF assms] c(1) by simp
  ultimately show ?thesis by (simp add: c(1) skip_ws_head)
qed

lemma object_of_distinct: "distinct (map fst fs) \<Longrightarrow> object_of fs = JObj fs"
proof -
  have "fold (\<lambda>(k, v). omap_set k v) fs acc = acc @ fs" if "distinct (map fst (acc @ fs))" for acc using that
  proof (induction fs arbitrary: acc)
    case (Cons f fs)
    obtain k v where f: "f = (k, v)" by fastforce
    have "map_of acc k = None" using Cons.prems by (auto simp: f map_of_eq_None_iff)
    then show ?case using Cons.IH[of "acc @ [f]"] Cons.prems by (simp add: f omap_set_new)
  qed simp
  from this[of "[]"] show "distinct (map fst fs) \<Longrightarrow> object_of fs = JObj fs" by (simp add: object_of_def)
qed

lemma join_comma_Cons: "ts \<noteq> [] \<Longrightarrow> join_comma (t # ts) = t @ CHR '','' # join_comma ts"
  by (cases ts) simp_all

text \<open>Parsing the text of a value gives the value back, with any sufficient counter and whatever follows.\<close>

lemma parse_text:
  shows "plain v \<Longrightarrow> number_ends rest \<Longrightarrow> 2 * length (json_text other v) < n \<Longrightarrow>
      parse_value num n (json_text other v @ rest) = Some (v, rest)"
    and "list_all plain xs \<Longrightarrow> xs \<noteq> [] \<Longrightarrow> 2 * length (join_comma (json_texts other xs)) + 1 < n \<Longrightarrow>
      parse_items num n (join_comma (json_texts other xs) @ CHR '']'' # rest) = Some (xs, rest)"
    and "list_all (\<lambda>(k, w). plain w) fs \<Longrightarrow> fs \<noteq> [] \<Longrightarrow> 2 * length (join_comma (json_fields other fs)) + 1 < n \<Longrightarrow>
      parse_members num n (join_comma (json_fields other fs) @ CHR ''}'' # rest) = Some (fs, rest)"
proof (induction other v and other xs and other fs arbitrary: n rest and n rest and n rest rule: json_text_json_texts_json_fields.induct)
  case (4 other i)
  then have "json_text other (JInt i) = int_text i" by (simp add: MAX_SAFE_INTEGER_def)
  with 4 show ?case by (cases n) (simp_all add: parse_int del: json_text.simps parse_value.simps)
next
  case (7 other s)
  then show ?case by (cases n) (simp_all add: json_string_def skip_ws_head is_ws_def string_body_escapes)
next
  case (10 other xs)
  then obtain m where n: "n = Suc m" by (cases n) auto
  show ?case
  proof (cases xs)
    case Nil
    then show ?thesis by (simp add: n skip_ws_head is_ws_def)
  next
    case (Cons x xs')
    obtain c cs where c: "join_comma (json_texts other xs) = c # cs" "\<not> is_ws c" "c \<noteq> CHR '']''"
      using json_text_head[of x other] 10(2) Cons by (cases xs') auto
    have "parse_items num m (join_comma (json_texts other xs) @ CHR '']'' # rest) = Some (xs, rest)"
      using 10 Cons n by simp
    then show ?thesis using c by (simp add: n skip_ws_head is_ws_def[of "CHR ''[''"])
  qed
next
  case (11 other fs)
  then obtain m where n: "n = Suc m" by (cases n) auto
  show ?case
  proof (cases fs)
    case Nil
    then show ?thesis by (simp add: n skip_ws_head is_ws_def)
  next
    case (Cons f fs')
    then obtain k w where f: "f = (k, w)" "w \<noteq> JUndefined" using 11(2) by (cases f) (auto dest: plain_defined)
    obtain cs where c: "join_comma (json_fields other fs) = CHR 0x22 # cs" using Cons f by (cases "json_fields other fs'") (auto simp: json_string_def)
    have "parse_members num m (join_comma (json_fields other fs) @ CHR ''}'' # rest) = Some (fs, rest)" using 11 Cons n by simp
    then show ?thesis using c 11(2) by (simp add: n skip_ws_head is_ws_def object_of_distinct)
  qed
next
  case (13 other x xs)
  then obtain m where n: "n = Suc m" by (cases n) auto
  show ?case
  proof (cases "xs = []")
    case True
    then show ?thesis using 13 number_ends_punctuation by (simp add: n skip_ws_head is_ws_def)
  next
    case False
    then have "json_texts other xs \<noteq> []" by (cases xs) simp_all
    then show ?thesis using 13 False number_ends_punctuation by (simp add: n join_comma_Cons skip_ws_head is_ws_def)
  qed
next
  case (15 other k w fs)
  then obtain m where n: "n = Suc m" by (cases n) auto
  have w: "w \<noteq> JUndefined" "plain w" using 15(4) by (auto dest: plain_defined)
  show ?case
  proof (cases "fs = []")
    case True
    then show ?thesis using 15 w number_ends_punctuation by (simp add: n json_string_def skip_ws_head is_ws_def string_body_escapes)
  next
    case False
    then have "json_fields other fs \<noteq> []" using 15(4) by (cases fs) (auto dest: plain_defined)
    then show ?thesis using 15 False w number_ends_punctuation
      by (simp add: n join_comma_Cons json_string_def skip_ws_head is_ws_def string_body_escapes)
  qed
next
  case (2 other)
  then show ?case by (cases n) (simp_all add: skip_ws_head is_ws_def)
next
  case (3 other b)
  then show ?case by (cases n) (simp_all add: skip_ws_head is_ws_def)
qed simp_all

lemma json_parse_text: "plain v \<Longrightarrow> json_parse num (json_text other v) = Some v"
  using parse_text(1)[of v "[]" other "2 * length (json_text other v) + 2" num] by (simp add: json_parse_def number_ends_punctuation skip_ws_def)

section \<open>The counter is always enough\<close>

lemma skip_ws_length: "length (skip_ws s) \<le> length s"
  by (simp add: skip_ws_def length_dropWhile_le)

lemma skip_ws_Cons: "skip_ws s = c # cs \<Longrightarrow> length cs < length s"
  using skip_ws_length[of s] by simp

lemma string_body_shorter: "string_body s = Some (x, r) \<Longrightarrow> length r < length s"
proof (induction s arbitrary: x r rule: string_body.induct)
  case (2 c cs)
  show ?case
  proof (cases "c = CHR 0x5C")
    case True
    then obtain d ds where cs: "cs = d # ds" using 2(4) by (cases cs) (auto simp: string_body.simps(2)[of "CHR 0x5C"])
    show ?thesis
    proof (cases "d = CHR ''u''")
      case u: True
      then obtain y rest z where "unicode_escape ds = Some (y, rest)" "string_body rest = Some (z, r)"
        using 2(4) True cs by (auto simp: string_body.simps(2)[of "CHR 0x5C"] split: option.splits)
      then show ?thesis using 2(1)[of d ds "(y, rest)" y rest z r] True cs u unicode_escape_shorter by fastforce
    next
      case False
      then obtain y z where "simple_escape d = Some y" "string_body ds = Some (z, r)"
        using 2(4) True cs by (auto simp: string_body.simps(2)[of "CHR 0x5C"] split: option.splits)
      then show ?thesis using 2(2)[of d ds y z r] True cs False by fastforce
    qed
  next
    case False
    then show ?thesis using 2(3,4) by (fastforce simp: string_body.simps(2)[of c] split: if_splits)
  qed
qed (simp add: string_body.simps)

lemma fraction_part_length: "fraction_part s = Some (x, r) \<Longrightarrow> length r \<le> length s"
  using length_dropWhile_le[of is_digit "tl s"] by (cases s) (auto simp: fraction_part_def split: if_splits)

lemma exponent_part_length: "exponent_part s = Some (x, r) \<Longrightarrow> length r \<le> length s"
proof (cases s)
  case (Cons c cs)
  assume e: "exponent_part s = Some (x, r)"
  have "length (dropWhile is_digit cs) \<le> length cs" "length (dropWhile is_digit (tl cs)) \<le> length cs"
    using length_dropWhile_le[of is_digit "tl cs"] by (auto simp: length_dropWhile_le intro: order.trans)
  then show ?thesis using e Cons by (cases cs) (auto simp: exponent_part_def split: if_splits)
qed (simp add: exponent_part_def)

lemma parse_number_shorter: "parse_number num s = Some (v, r) \<Longrightarrow> length r < length s"
proof -
  assume p: "parse_number num s = Some (v, r)"
  define s1 where "s1 = (if s \<noteq> [] \<and> hd s = CHR ''-'' then tl s else s)"
  from p obtain fp r2 ex where ds: "takeWhile is_digit s1 \<noteq> []" and f: "fraction_part (dropWhile is_digit s1) = Some (fp, r2)" and e: "exponent_part r2 = Some (ex, r)"
    unfolding parse_number_def Let_def s1_def[symmetric] by (auto split: option.splits if_splits)
  have "length r2 \<le> length (dropWhile is_digit s1)" using f by (rule fraction_part_length)
  moreover have "length r \<le> length r2" using e by (rule exponent_part_length)
  moreover have "length (dropWhile is_digit s1) < length s1" using ds by (cases s1) (auto simp: less_Suc_eq_le length_dropWhile_le split: if_splits)
  moreover have "length s1 \<le> length s" by (simp add: s1_def)
  ultimately show ?thesis by linarith
qed

lemma parse_shorter:
  shows "parse_value num n s = Some (v, r) \<Longrightarrow> length r < length s"
    and "parse_items num n s = Some (vs, r) \<Longrightarrow> length r < length s"
    and "parse_members num n s = Some (ms, r) \<Longrightarrow> length r < length s"
proof (induction num n s and num n s and num n s arbitrary: v r and vs r and ms r rule: parse_value_parse_items_parse_members.induct)
  case (2 num n s)
  note items = 2(1) and members = 2(2)
  obtain c cs where c: "skip_ws s = c # cs" using 2(3) by (cases "skip_ws s") auto
  note len = skip_ws_Cons[OF c]
  have number: "length r < length s" if "parse_number num (c # cs) = Some (v, r)"
    using parse_number_shorter[OF that] skip_ws_length[of s] c by simp
  show ?case
  proof (cases "c \<in> {CHR ''['', CHR ''{''}")
    case True
    then have "c \<noteq> CHR 0x22" by auto
    with True 2(3) c obtain d ds where d: "skip_ws cs = d # ds" by (cases "skip_ws cs") auto
    note len' = skip_ws_Cons[OF d] and same = skip_ws_length[of cs, unfolded d]
    show ?thesis
    proof (cases "c = CHR ''[''")
      case sq: True
      with 2(3) c d consider "r = ds" | xs where "parse_items num n (d # ds) = Some (xs, r)" "d \<noteq> CHR '']''" by (auto split: if_splits)
      then show ?thesis
      proof cases
        case (2 xs)
        then have "length r < length (d # ds)" using items c d sq by simp
        with same len show ?thesis by simp
      qed (use len len' in simp)
    next
      case False
      with True have br: "c = CHR ''{''" by simp
      with 2(3) c d consider "r = ds" | ms where "parse_members num n (d # ds) = Some (ms, r)" "d \<noteq> CHR ''}''" by (auto split: if_splits)
      then show ?thesis
      proof cases
        case (2 ms)
        then have "length r < length (d # ds)" using members c d br by simp
        with same len show ?thesis by simp
      qed (use len len' in simp)
    qed
  next
    case False
    have "length (drop k (c # cs)) < length s" if "0 < k" for k using that len by simp
    then show ?thesis using False 2(3) c len number by (auto split: if_splits simp del: drop_Cons_numeral dest!: string_body_shorter)
  qed
next
  case (4 num n s)
  then show ?case by (fastforce split: option.splits list.splits if_splits dest!: skip_ws_Cons)
next
  case (6 num n s)
  then show ?case by (fastforce split: option.splits list.splits if_splits dest!: skip_ws_Cons string_body_shorter)
qed simp_all

lemma parse_stable:
  shows "2 * length s < n \<Longrightarrow> parse_value num (Suc n) s = parse_value num n s"
    and "2 * length s + 1 < n \<Longrightarrow> parse_items num (Suc n) s = parse_items num n s"
    and "2 * length s + 1 < n \<Longrightarrow> parse_members num (Suc n) s = parse_members num n s"
proof (induction num n s and num n s and num n s rule: parse_value_parse_items_parse_members.induct)
  case (2 num n s)
  note items = 2(1) and members = 2(2)
  show ?case
  proof (cases "skip_ws s")
    case (Cons c cs)
    note len = skip_ws_Cons[OF Cons]
    show ?thesis
    proof (cases "skip_ws cs")
      case Nil
      then show ?thesis by (subst (1 2) parse_value.simps(2)) (simp add: Cons)
    next
      case (Cons d ds)
      have "length (d # ds) < length s" using skip_ws_length[of cs, unfolded Cons] len by simp
      then have "c = CHR ''['' \<Longrightarrow> d \<noteq> CHR '']'' \<Longrightarrow> parse_items num (Suc n) (d # ds) = parse_items num n (d # ds)"
        and "c = CHR ''{'' \<Longrightarrow> d \<noteq> CHR ''}'' \<Longrightarrow> parse_members num (Suc n) (d # ds) = parse_members num n (d # ds)"
        using items members 2(3) \<open>skip_ws s = c # cs\<close> Cons by simp_all
      then show ?thesis by (subst (1 2) parse_value.simps(2)) (simp add: \<open>skip_ws s = c # cs\<close> Cons)
    qed
  qed simp
next
  case (4 num n s)
  have v: "parse_value num (Suc n) s = parse_value num n s" using 4 by simp
  have rest: "parse_items num (Suc n) cs = parse_items num n cs" if "parse_value num n s = Some (w, r)" "skip_ws r = CHR '','' # cs" for w r cs
    using 4(2)[OF that(1) refl that(2) refl] 4(3) parse_shorter(1)[OF that(1)] skip_ws_Cons[OF that(2)] by simp
  show ?case
  proof (cases "\<exists>w r cs. parse_value num n s = Some (w, r) \<and> skip_ws r = CHR '','' # cs")
    case True
    then obtain w r cs where h: "parse_value num n s = Some (w, r)" "skip_ws r = CHR '','' # cs" by blast
    show ?thesis unfolding parse_items.simps(2)[of num "Suc n" s] parse_items.simps(2)[of num n s] by (simp only: v h rest[OF h] option.case prod.case list.case if_True refl)
  next
    case False
    then show ?thesis unfolding parse_items.simps(2)[of num "Suc n" s] parse_items.simps(2)[of num n s] v by (auto split: option.split list.split simp del: parse_value.simps parse_items.simps parse_members.simps)
  qed
next
  case (6 num n s)
  have v: "parse_value num (Suc n) ds = parse_value num n ds"
    if "skip_ws s = CHR 0x22 # cs" "string_body cs = Some (k, r)" "skip_ws r = CHR '':'' # ds" for cs k r ds
    using 6(1)[OF that(1) _ that(2) refl that(3)] 6(3) string_body_shorter[OF that(2)] skip_ws_Cons[OF that(1)] skip_ws_Cons[OF that(3)] by simp
  have ms: "parse_members num (Suc n) es = parse_members num n es"
    if "skip_ws s = CHR 0x22 # cs" "string_body cs = Some (k, r)" "skip_ws r = CHR '':'' # ds" "parse_value num n ds = Some (w, q)" "skip_ws q = CHR '','' # es"
    for cs k r ds w q es
    using 6(2)[OF that(1) _ that(2) refl that(3) _ that(4) refl that(5)] 6(3) string_body_shorter[OF that(2)]
      skip_ws_Cons[OF that(1)] skip_ws_Cons[OF that(3)] skip_ws_Cons[OF that(5)] parse_shorter(1)[OF that(4)] by simp
  show ?case
  proof (cases "\<exists>cs k r ds. skip_ws s = CHR 0x22 # cs \<and> string_body cs = Some (k, r) \<and> skip_ws r = CHR '':'' # ds")
    case True
    then obtain cs k r ds where h: "skip_ws s = CHR 0x22 # cs" "string_body cs = Some (k, r)" "skip_ws r = CHR '':'' # ds" by blast
    note v = v[OF h] and ms = ms[OF h]
    show ?thesis
    proof (cases "\<exists>w q es. parse_value num n ds = Some (w, q) \<and> skip_ws q = CHR '','' # es")
      case True
      then obtain w q es where q: "parse_value num n ds = Some (w, q)" "skip_ws q = CHR '','' # es" by blast
      show ?thesis unfolding parse_members.simps(2)[of num "Suc n" s] parse_members.simps(2)[of num n s]
        by (simp only: h v q ms[OF q] option.case prod.case list.case if_True not_True_eq_False if_False refl)
    next
      case False
      then show ?thesis unfolding parse_members.simps(2)[of num "Suc n" s] parse_members.simps(2)[of num n s] h option.case list.case prod.case v
        by (auto split: option.split list.split simp del: parse_value.simps parse_items.simps parse_members.simps)
    qed
  next
    case False
    then show ?thesis unfolding parse_members.simps(2)[of num "Suc n" s] parse_members.simps(2)[of num n s] by (auto split: option.split list.split simp del: parse_value.simps parse_items.simps parse_members.simps)
  qed
qed simp_all

text \<open>So any larger counter gives the same result.\<close>

lemma json_parse_counter:
  assumes "2 * length s + 2 \<le> n"
  shows "json_parse num s = (case parse_value num n s of None \<Rightarrow> None | Some (v, r) \<Rightarrow> if skip_ws r = [] then Some v else None)"
proof -
  have "parse_value num n s = parse_value num (2 * length s + 2) s" using assms
  proof (induction n rule: dec_induct)
    case (step m)
    then show ?case using parse_stable(1)[of s m num] by simp
  qed simp
  then show ?thesis by (simp add: json_parse_def)
qed

end
