(* ===== verification/Messages.thy ===== *)
theory Messages
  imports Json Identity
begin

text \<open>
  The bodies of the network messages (\<open>src/replication/messages.ts\<close>): heads messages, split so that
  each fits the size bound, and announcements, shortened from the end until they fit, with their
  decoders. What is left to the platform is one record: the double nearest to a number literal, the
  text of a byte string, and the JSON text of values no message holds.
\<close>

record text_lib =
  nearest_double :: "string \<Rightarrow> jsval"
  text_decode :: "bytes \<Rightarrow> string"
  other_text :: "jsval \<Rightarrow> string"

definition NETWORK_MESSAGE_MAX_BYTES :: nat where
  "NETWORK_MESSAGE_MAX_BYTES = 256 * 1024"

definition byte_length :: "string \<Rightarrow> nat" where
  "byte_length json = length (utf8ToBytes json)"

definition parse_bounded :: "text_lib \<Rightarrow> bytes \<Rightarrow> jsval" where
  "parse_bounded T data = (if length data > NETWORK_MESSAGE_MAX_BYTES then JUndefined
     else case json_parse (nearest_double T) (text_decode T data) of None \<Rightarrow> JUndefined | Some v \<Rightarrow> v)"

section \<open>Heads messages\<close>

definition heads_value :: "string list \<Rightarrow> bool \<Rightarrow> jsval" where
  "heads_value heads incomplete = JObj ([(''type'', JStr ''heads''), (''heads'', JArr (map JStr heads))] @
     (if incomplete then [(''incomplete'', JBool True)] else []))"

definition encode_heads_message :: "text_lib \<Rightarrow> string list \<Rightarrow> bool \<Rightarrow> string" where
  "encode_heads_message T heads incomplete = json_text (other_text T) (heads_value heads incomplete)"

text \<open>One turn of the loop over the heads: the batches closed, the one being filled and its size.\<close>

definition add_head :: "nat \<Rightarrow> nat \<Rightarrow> string \<Rightarrow> string list list \<times> string list \<times> nat \<Rightarrow> string list list \<times> string list \<times> nat" where
  "add_head overhead max_bytes head = (\<lambda>(batches, batch, size).
     let added = byte_length (json_string head) + (if batch \<noteq> [] then 1 else 0)
     in if batch \<noteq> [] \<and> size + added > max_bytes then (batches @ [batch], [head], overhead + added - 1)
        else (batches, batch @ [head], size + added))"

definition heads_batches :: "text_lib \<Rightarrow> string list \<Rightarrow> nat \<Rightarrow> string list list" where
  "heads_batches T heads max_bytes =
     (let overhead = byte_length (encode_heads_message T [] True);
          (batches, batch, size) = fold (add_head overhead max_bytes) heads ([], [], overhead)
      in batches @ [batch])"

definition encode_heads_batches :: "text_lib \<Rightarrow> string list \<Rightarrow> nat \<Rightarrow> bytes list" where
  "encode_heads_batches T heads max_bytes =
     (let batches = heads_batches T heads max_bytes
      in map (\<lambda>(index, batch). utf8ToBytes (encode_heads_message T batch (index < length batches - 1))) (enumerate 0 batches))"

record heads_message =
  hm_heads :: "string list"
  hm_incomplete :: bool

definition decode_heads_message :: "text_lib \<Rightarrow> deps \<Rightarrow> bytes \<Rightarrow> heads_message option" where
  "decode_heads_message T D data = (let v = parse_bounded T data in
     if \<not> is_record v \<or> get ''type'' v \<noteq> JStr ''heads'' then None
     else case as_array (get ''heads'' v) of
       None \<Rightarrow> None
     | Some heads \<Rightarrow> if \<not> list_all (is_cid_string D) heads then None
         else Some \<lparr>hm_heads = List.map_filter as_string heads, hm_incomplete = (get ''incomplete'' v = JBool True)\<rparr>)"

section \<open>Announcements\<close>

text \<open>The signed entries of an announcement are untrusted values until they are verified.\<close>

definition announced_entry :: "signed_entry \<Rightarrow> jsval" where
  "announced_entry e = signed_fields e"

record announced_library =
  al_address :: string
  al_about :: "jsval option"

record announcement =
  an_libraries :: "announced_library list"
  an_profiles :: "jsval list"

definition library_value :: "announced_library \<Rightarrow> jsval" where
  "library_value l = JObj ((''address'', JStr (al_address l)) # (case al_about l of None \<Rightarrow> [] | Some about \<Rightarrow> [(''about'', about)]))"

definition message_of :: "text_lib \<Rightarrow> announcement \<Rightarrow> string" where
  "message_of T a = json_text (other_text T)
     (JObj [(''libraries'', JArr (map library_value (an_libraries a))), (''profiles'', JArr (an_profiles a))])"

text \<open>The profiles a message with the libraries kept carries.\<close>

definition kept_profiles :: "(string, string) omap \<Rightarrow> announced_library list \<Rightarrow> jsval list \<Rightarrow> jsval list" where
  "kept_profiles owners kept profiles =
     (let keys = oset_of (List.map_filter (\<lambda>l. omap_get owners (al_address l)) kept)
      in if owners = [] then profiles else List.filter (\<lambda>p. get ''key'' p \<in> JStr ` set keys) profiles)"

function announcement_loop :: "text_lib \<Rightarrow> jsval list \<Rightarrow> nat \<Rightarrow> (string, string) omap \<Rightarrow> announced_library list \<Rightarrow> bytes option" where
  "announcement_loop T profiles own_count owners kept =
     (let data = utf8ToBytes (message_of T \<lparr>an_libraries = kept, an_profiles = kept_profiles owners kept profiles\<rparr>)
      in if length data \<le> NETWORK_MESSAGE_MAX_BYTES then Some data
         else if length kept \<le> own_count then None
         else announcement_loop T profiles own_count owners (butlast kept))"
  by pat_completeness auto

termination
  by (relation "measure (\<lambda>(T, profiles, own_count, owners, kept). length kept)") auto

declare announcement_loop.simps [simp del]

definition encode_announcement :: "text_lib \<Rightarrow> announcement \<Rightarrow> nat \<Rightarrow> (string, string) omap \<Rightarrow> bytes option" where
  "encode_announcement T a own_count owners = announcement_loop T (an_profiles a) own_count owners (an_libraries a)"

definition entry_like :: "jsval \<Rightarrow> jsval option" where
  "entry_like v = (if is_record v \<and> is_record (get ''payload'' v) \<and> is_string (get ''id'' v) \<and> is_string (get ''key'' v) then Some v else None)"

definition parse_announced_library :: "deps \<Rightarrow> jsval \<Rightarrow> announced_library option" where
  "parse_announced_library D v = (if \<not> is_record v then None
     else case as_string (get ''address'' v) of
       None \<Rightarrow> None
     | Some address \<Rightarrow> (case parse_library_address D address of
         Inl _ \<Rightarrow> None
       | Inr _ \<Rightarrow> Some \<lparr>al_address = address, al_about = entry_like (get ''about'' v)\<rparr>))"

definition decode_announcement :: "text_lib \<Rightarrow> deps \<Rightarrow> bytes \<Rightarrow> announcement option" where
  "decode_announcement T D data = (let v = parse_bounded T data in
     if \<not> is_record v then None
     else case as_array (get ''libraries'' v) of
       None \<Rightarrow> None
     | Some libraries \<Rightarrow> Some \<lparr>an_libraries = List.map_filter (parse_announced_library D) libraries,
         an_profiles = (case as_array (get ''profiles'' v) of None \<Rightarrow> [] | Some ps \<Rightarrow> List.map_filter entry_like ps)\<rparr>)"

section \<open>Batches\<close>

lemma texts_of_strings: "json_texts other (map JStr xs) = map json_string xs"
  by (induction xs) simp_all

lemma length_join: "length (join_comma (ts @ [t])) = length (join_comma ts) + length t + (if ts = [] then 0 else 1)"
  by (induction ts rule: join_comma.induct) (auto simp: join_comma_Cons)

lemma heads_message_length:
  "byte_length (encode_heads_message T heads incomplete) + (if incomplete then 0 else 18) =
     byte_length (encode_heads_message T [] True) + length (join_comma (map json_string heads))"
  by (simp add: byte_length_def encode_heads_message_def heads_value_def texts_of_strings json_string_def json_escape_def)

abbreviation heads_overhead :: "text_lib \<Rightarrow> nat" where
  "heads_overhead T \<equiv> byte_length (encode_heads_message T [] True)"

definition batch_fits :: "text_lib \<Rightarrow> nat \<Rightarrow> string list \<Rightarrow> bool" where
  "batch_fits T max_bytes batch \<longleftrightarrow> heads_overhead T + length (join_comma (map json_string batch)) \<le> max_bytes"

definition batching_ok :: "text_lib \<Rightarrow> nat \<Rightarrow> string list \<Rightarrow> string list list \<times> string list \<times> nat \<Rightarrow> bool" where
  "batching_ok T max_bytes heads = (\<lambda>(batches, batch, size). concat batches @ batch = heads \<and>
     size = heads_overhead T + length (join_comma (map json_string batch)) \<and>
     (\<forall>b \<in> set (batches @ [batch]). batch_fits T max_bytes b) \<and> [] \<notin> set batches)"

lemma add_head_ok:
  assumes "batching_ok T max_bytes heads st" "batch_fits T max_bytes [h]"
  shows "batching_ok T max_bytes (heads @ [h]) (add_head (heads_overhead T) max_bytes h st)"
proof -
  obtain batches batch size where st: "st = (batches, batch, size)" by (cases st)
  have len: "length (join_comma (map json_string (batch @ [h]))) =
      length (join_comma (map json_string batch)) + length (json_string h) + (if batch = [] then 0 else 1)"
    using length_join[of "map json_string batch" "json_string h"] by simp
  show ?thesis
  proof (cases "batch \<noteq> [] \<and> size + (length (json_string h) + 1) > max_bytes")
    case True
    then show ?thesis using assms by (auto simp: st batching_ok_def add_head_def Let_def byte_length_def batch_fits_def)
  next
    case False
    then have "batch_fits T max_bytes (batch @ [h])"
      using assms len by (cases "batch = []") (auto simp: st batching_ok_def batch_fits_def)
    then show ?thesis using assms False len by (auto simp: st batching_ok_def add_head_def Let_def byte_length_def)
  qed
qed

lemma heads_batches_ok:
  assumes "\<forall>h \<in> set heads. batch_fits T max_bytes [h]" "batch_fits T max_bytes []"
  shows "concat (heads_batches T heads max_bytes) = heads \<and> (\<forall>b \<in> set (heads_batches T heads max_bytes). batch_fits T max_bytes b) \<and>
    heads_batches T heads max_bytes \<noteq> [] \<and> [] \<notin> set (butlast (heads_batches T heads max_bytes))"
proof -
  have "batching_ok T max_bytes (done_heads @ heads) (fold (add_head (heads_overhead T) max_bytes) heads st)"
    if "batching_ok T max_bytes done_heads st" for done_heads st using that assms(1)
  proof (induction heads arbitrary: done_heads st)
    case (Cons h hs)
    then show ?case using add_head_ok[OF Cons.prems(1), of h] Cons.IH[of "done_heads @ [h]"] by simp
  qed simp
  from this[of "[]" "([], [], heads_overhead T)"] assms(2) show ?thesis
    by (auto simp: batching_ok_def heads_batches_def Let_def split: prod.splits)
qed

lemma encode_heads_batches_split:
  "encode_heads_batches T heads max_bytes =
     map (\<lambda>b. utf8ToBytes (encode_heads_message T b True)) (butlast (heads_batches T heads max_bytes)) @
     [utf8ToBytes (encode_heads_message T (last (heads_batches T heads max_bytes)) False)]"
proof -
  have ne: "heads_batches T heads max_bytes \<noteq> []" by (simp add: heads_batches_def Let_def split: prod.splits)
  then obtain bs b where b: "heads_batches T heads max_bytes = bs @ [b]" by (metis rev_exhaust)
  have "map (\<lambda>(i, x). f x (i < n)) (enumerate k xs) = map (\<lambda>x. f x True) xs" if "k + length xs \<le> n" for f :: "string list \<Rightarrow> bool \<Rightarrow> bytes" and n k xs
    using that by (induction xs arbitrary: k) simp_all
  from this[of 0 bs "length bs"] show ?thesis by (simp add: encode_heads_batches_def Let_def b enumerate_append_eq)
qed

section \<open>Decoding what was encoded\<close>

definition decodes :: "text_lib \<Rightarrow> string \<Rightarrow> bool" where
  "decodes T s \<longleftrightarrow> text_decode T (utf8ToBytes s) = s"

lemma parse_bounded_text:
  "decodes T (json_text (other_text T) v) \<Longrightarrow> plain v \<Longrightarrow> length (json_text (other_text T) v) \<le> NETWORK_MESSAGE_MAX_BYTES \<Longrightarrow>
     parse_bounded T (utf8ToBytes (json_text (other_text T) v)) = v"
  by (simp add: parse_bounded_def decodes_def json_parse_text)

lemma plain_heads: "plain (heads_value heads incomplete)"
  by (simp add: heads_value_def list_all_iff)

lemma decode_heads:
  assumes "decodes T (encode_heads_message T heads incomplete)" "\<forall>h \<in> set heads. cid_parses D h"
    and "byte_length (encode_heads_message T heads incomplete) \<le> NETWORK_MESSAGE_MAX_BYTES"
  shows "decode_heads_message T D (utf8ToBytes (encode_heads_message T heads incomplete)) = Some \<lparr>hm_heads = heads, hm_incomplete = incomplete\<rparr>"
proof -
  have "parse_bounded T (utf8ToBytes (encode_heads_message T heads incomplete)) = heads_value heads incomplete"
    unfolding encode_heads_message_def using assms plain_heads
    by (intro parse_bounded_text) (simp_all add: encode_heads_message_def byte_length_def)
  moreover have "list_all (is_cid_string D) (map JStr heads)" using assms(2) by (simp add: list_all_iff is_cid_string_def)
  moreover have "List.map_filter as_string (map JStr heads) = heads" by (induction heads) (simp_all add: List.map_filter_simps)
  ultimately show ?thesis by (simp add: decode_heads_message_def heads_value_def)
qed

lemma fits_message:
  assumes "batch_fits T NETWORK_MESSAGE_MAX_BYTES b"
  shows "byte_length (encode_heads_message T b incomplete) \<le> NETWORK_MESSAGE_MAX_BYTES"
  using assms heads_message_length[of T b incomplete] by (simp add: batch_fits_def split: if_splits)

text \<open>The message that announces the first \<open>n\<close> libraries.\<close>

definition shortened :: "announcement \<Rightarrow> (string, string) omap \<Rightarrow> nat \<Rightarrow> announcement" where
  "shortened a owners n = \<lparr>an_libraries = take n (an_libraries a), an_profiles = kept_profiles owners (take n (an_libraries a)) (an_profiles a)\<rparr>"

abbreviation announcement_fits :: "text_lib \<Rightarrow> announcement \<Rightarrow> bool" where
  "announcement_fits T a \<equiv> byte_length (message_of T a) \<le> NETWORK_MESSAGE_MAX_BYTES"

lemma announcement_loop_spec:
  assumes "m \<le> length (an_libraries a)"
  shows "case announcement_loop T (an_profiles a) own_count owners (take m (an_libraries a)) of
      Some data \<Rightarrow> \<exists>n \<le> m. (n = m \<or> own_count \<le> n) \<and> announcement_fits T (shortened a owners n) \<and>
        data = utf8ToBytes (message_of T (shortened a owners n)) \<and> (\<forall>k. n < k \<and> k \<le> m \<longrightarrow> \<not> announcement_fits T (shortened a owners k))
    | None \<Rightarrow> \<forall>n \<le> m. n = m \<or> own_count \<le> n \<longrightarrow> \<not> announcement_fits T (shortened a owners n)"
  using assms
proof (induction m)
  case 0
  then show ?case by (subst announcement_loop.simps) (auto simp: Let_def byte_length_def shortened_def)
next
  case (Suc m)
  have take: "butlast (take (Suc m) (an_libraries a)) = take m (an_libraries a)" "length (take (Suc m) (an_libraries a)) = Suc m"
    using Suc.prems by (simp_all add: butlast_take)
  have step: "announcement_loop T (an_profiles a) own_count owners (take (Suc m) (an_libraries a)) =
      (if announcement_fits T (shortened a owners (Suc m)) then Some (utf8ToBytes (message_of T (shortened a owners (Suc m))))
       else if Suc m \<le> own_count then None else announcement_loop T (an_profiles a) own_count owners (take m (an_libraries a)))"
    by (subst announcement_loop.simps) (simp only: Let_def take byte_length_def shortened_def announcement.simps)
  have grow: "k \<le> Suc m \<longleftrightarrow> k = Suc m \<or> k \<le> m" for k by auto
  consider "announcement_fits T (shortened a owners (Suc m))" | "\<not> announcement_fits T (shortened a owners (Suc m))" "Suc m \<le> own_count"
    | "\<not> announcement_fits T (shortened a owners (Suc m))" "own_count \<le> m" by linarith
  then show ?case
  proof cases
    case 3
    have m: "m \<le> length (an_libraries a)" using Suc.prems by simp
    show ?thesis
    proof (cases "announcement_loop T (an_profiles a) own_count owners (take m (an_libraries a))")
      case None
      with 3 Suc.IH[OF m] show ?thesis unfolding step by (simp add: grow)
    next
      case (Some data)
      with Suc.IH[OF m] obtain n where n: "n \<le> m" "n = m \<or> own_count \<le> n" "announcement_fits T (shortened a owners n)"
        "data = utf8ToBytes (message_of T (shortened a owners n))" "\<forall>k. n < k \<and> k \<le> m \<longrightarrow> \<not> announcement_fits T (shortened a owners k)" by auto
      have "\<forall>k. n < k \<and> k \<le> Suc m \<longrightarrow> \<not> announcement_fits T (shortened a owners k)" using n(5) 3(1) unfolding grow by blast
      moreover have "n \<le> Suc m" "n = Suc m \<or> own_count \<le> n" using n(1,2) 3(2) by auto
      ultimately show ?thesis unfolding step using 3 Some n(3,4) by auto
    qed
  qed (unfold step, auto simp: grow)
qed

text \<open>Announcements built from parts the decoder keeps.\<close>

definition announceable :: "deps \<Rightarrow> announcement \<Rightarrow> bool" where
  "announceable D a \<longleftrightarrow>
     (\<forall>l \<in> set (an_libraries a). (\<exists>r. parse_library_address D (al_address l) = Inr r) \<and>
        (\<forall>about. al_about l = Some about \<longrightarrow> plain about \<and> entry_like about = Some about)) \<and>
     (\<forall>p \<in> set (an_profiles a). plain p \<and> entry_like p = Some p)"

lemma entry_like_undefined: "entry_like JUndefined = None"
  by (simp add: entry_like_def)

lemma map_filter_inverse: "\<forall>x \<in> set xs. g (f x) = Some x \<Longrightarrow> List.map_filter g (map f xs) = xs"
  by (induction xs) (simp_all add: List.map_filter_simps)

lemma decode_message_of:
  assumes "announceable D a" "decodes T (message_of T a)" "announcement_fits T a"
  shows "decode_announcement T D (utf8ToBytes (message_of T a)) = Some a"
proof -
  let ?v = "JObj [(''libraries'', JArr (map library_value (an_libraries a))), (''profiles'', JArr (an_profiles a))]"
  have plain_lib: "plain (library_value l)" and read: "parse_announced_library D (library_value l) = Some l" if "l \<in> set (an_libraries a)" for l
  proof -
    from that assms(1) obtain r where r: "parse_library_address D (al_address l) = Inr r"
      and about: "\<forall>about. al_about l = Some about \<longrightarrow> plain about \<and> entry_like about = Some about" unfolding announceable_def by blast
    then show "plain (library_value l)" "parse_announced_library D (library_value l) = Some l"
      by (cases l; cases "al_about l"; simp add: library_value_def parse_announced_library_def entry_like_undefined)+
  qed
  have "parse_bounded T (utf8ToBytes (message_of T a)) = ?v"
    unfolding message_of_def using assms plain_lib
    by (intro parse_bounded_text) (auto simp: message_of_def byte_length_def list_all_iff announceable_def)
  moreover have "List.map_filter (parse_announced_library D) (map library_value (an_libraries a)) = an_libraries a"
    using read by (intro map_filter_inverse) blast
  moreover have "List.map_filter entry_like (an_profiles a) = an_profiles a"
    using map_filter_inverse[of "an_profiles a" entry_like "\<lambda>x. x"] assms(1) by (simp add: announceable_def)
  ultimately show ?thesis by (simp add: decode_announcement_def Let_def)
qed

lemma shortened_announceable:
  assumes "announceable D a"
  shows "announceable D (shortened a owners n)"
proof -
  have "set (kept_profiles owners kept profiles) \<subseteq> set profiles" for kept profiles by (auto simp: kept_profiles_def Let_def)
  then have "set (an_profiles (shortened a owners n)) \<subseteq> set (an_profiles a)" "set (an_libraries (shortened a owners n)) \<subseteq> set (an_libraries a)"
    by (simp_all add: shortened_def set_take_subset)
  then show ?thesis using assms unfolding announceable_def by (meson subsetD)
qed

section \<open>Properties\<close>

text \<open>An announcement is cut from the end until it fits: what is sent is within 256 KiB, names the longest
  prefix of the libraries that fits with the profiles of their owners, never drops one of the first
  \<open>own_count\<close>, and decodes to exactly that; nothing is sent only when not even these fit.\<close>

lemma announcement_shortened:
  assumes "announceable D a" "\<And>n. decodes T (message_of T (shortened a owners n))"
  shows "case encode_announcement T a own_count owners of
      Some data \<Rightarrow> length data \<le> NETWORK_MESSAGE_MAX_BYTES \<and>
        (\<exists>n \<le> length (an_libraries a). (n = length (an_libraries a) \<or> own_count \<le> n) \<and>
          decode_announcement T D data = Some (shortened a owners n) \<and>
          (\<forall>k. n < k \<and> k \<le> length (an_libraries a) \<longrightarrow> NETWORK_MESSAGE_MAX_BYTES < byte_length (message_of T (shortened a owners k))))
    | None \<Rightarrow> \<forall>n \<le> length (an_libraries a). own_count \<le> n \<longrightarrow> NETWORK_MESSAGE_MAX_BYTES < byte_length (message_of T (shortened a owners n))"
proof -
  have spec: "case encode_announcement T a own_count owners of
      Some data \<Rightarrow> \<exists>n \<le> length (an_libraries a). (n = length (an_libraries a) \<or> own_count \<le> n) \<and> announcement_fits T (shortened a owners n) \<and>
        data = utf8ToBytes (message_of T (shortened a owners n)) \<and> (\<forall>k. n < k \<and> k \<le> length (an_libraries a) \<longrightarrow> \<not> announcement_fits T (shortened a owners k))
    | None \<Rightarrow> \<forall>n \<le> length (an_libraries a). n = length (an_libraries a) \<or> own_count \<le> n \<longrightarrow> \<not> announcement_fits T (shortened a owners n)"
    using announcement_loop_spec[where a = a and m = "length (an_libraries a)"] by (simp add: encode_announcement_def)
  show ?thesis
  proof (cases "encode_announcement T a own_count owners")
    case None
    with spec show ?thesis by (auto simp: not_le)
  next
    case (Some data)
    with spec obtain n where n: "n \<le> length (an_libraries a)" "n = length (an_libraries a) \<or> own_count \<le> n" "announcement_fits T (shortened a owners n)"
      "data = utf8ToBytes (message_of T (shortened a owners n))"
      "\<forall>k. n < k \<and> k \<le> length (an_libraries a) \<longrightarrow> \<not> announcement_fits T (shortened a owners k)" by auto
    have "decode_announcement T D data = Some (shortened a owners n)"
      unfolding n(4) by (rule decode_message_of[OF shortened_announceable[OF assms(1)] assms(2) n(3)])
    with n Some show ?thesis by (auto simp: not_le byte_length_def)
  qed
qed

definition sample_text :: text_lib where
  "sample_text = \<lparr>nearest_double = (\<lambda>_. JNull), text_decode = map (\<lambda>b. char_of (unat b)), other_text = (\<lambda>_. [])\<rparr>"

lemma sample_text_decodes [simp]: "decodes sample_text s"
proof -
  have "char_of (unat (of_nat (of_char c) :: byte)) = c" for c :: char
    by (simp add: unat_of_nat)
  then show ?thesis by (simp add: decodes_def sample_text_def utf8ToBytes_def comp_def)
qed

definition sample_announcement :: announcement where
  "sample_announcement = \<lparr>an_libraries = [\<lparr>al_address = ''/record/z/about'', al_about = None\<rparr>], an_profiles = []\<rparr>"

lemma sample_announceable: "announceable (sample_deps []) sample_announcement"
  by (simp add: announceable_def sample_announcement_def parse_library_address_def strip_prefix_def ADDRESS_PREFIX_def is_cid_string_def sample_deps_def)

end
