(* ===== verification/Heads_Exchange.thy ===== *)
theory Heads_Exchange
  imports Messages
begin

text \<open>
  The exchange of heads on a library's topic (\<open>src/replication/heads-exchange.ts\<close>): the publisher,
  which coalesces triggers into one set of messages per interval, and the receiver, which assembles
  each sender's parts into snapshots. A timer is the time it is due; the times at which a send was due
  are recorded in \<open>pb_sent\<close>. A send is asynchronous: it is chained behind the sends before it
  (\<open>pb_queued\<close> counts those that have not begun), reads the heads when it begins, and publishes one message
  after the other (\<open>pb_parts\<close> holds those still to publish), with other events in between.
\<close>

section \<open>Publisher\<close>

record publisher =
  pb_last_sent :: "int option"
  pb_scheduled :: "int option"
  pb_paused :: bool
  pb_sent :: "int list"
  pb_queued :: nat
  pb_parts :: "bytes list option"
  pb_published :: "bytes list"

definition create_heads_publisher :: publisher where
  "create_heads_publisher = \<lparr>pb_last_sent = None, pb_scheduled = None, pb_paused = False, pb_sent = [],
     pb_queued = 0, pb_parts = None, pb_published = []\<rparr>"

definition heads_data :: "text_lib \<Rightarrow> string list \<Rightarrow> bytes list" where
  "heads_data T heads = encode_heads_batches T heads NETWORK_MESSAGE_MAX_BYTES"

text \<open>\<open>last_sent\<close> starts at minus infinity, so the first message waits for nothing.\<close>

definition publish_delay :: "int \<Rightarrow> int \<Rightarrow> publisher \<Rightarrow> int" where
  "publish_delay interval_ms now pb = (case pb_last_sent pb of None \<Rightarrow> 0 | Some t \<Rightarrow> max 0 (t + interval_ms - now))"

definition trigger :: "int \<Rightarrow> int \<Rightarrow> publisher \<Rightarrow> publisher" where
  "trigger interval_ms now pb = (if pb_paused pb \<or> pb_scheduled pb \<noteq> None then pb
     else pb\<lparr>pb_scheduled := Some (now + publish_delay interval_ms now pb)\<rparr>)"

definition flush :: "int \<Rightarrow> publisher \<Rightarrow> publisher" where
  "flush now pb = (let pb1 = pb\<lparr>pb_scheduled := None\<rparr> in
     if pb_paused pb1 then pb1
     else pb1\<lparr>pb_last_sent := Some now, pb_sent := pb_sent pb1 @ [now], pb_queued := pb_queued pb1 + 1\<rparr>)"

text \<open>\<open>send\<close>: it begins once the send before it has ended, with the heads of that moment, and each turn of its
  loop publishes one message; a publish that fails is a warning.\<close>

definition send_begin :: "text_lib \<Rightarrow> string list \<Rightarrow> publisher \<Rightarrow> publisher" where
  "send_begin T heads pb = pb\<lparr>pb_queued := pb_queued pb - 1, pb_parts := Some (heads_data T heads)\<rparr>"

definition send_next :: "publisher \<Rightarrow> publisher" where
  "send_next pb = (case pb_parts pb of
     Some (data # rest) \<Rightarrow> pb\<lparr>pb_parts := Some rest, pb_published := pb_published pb @ [data]\<rparr>
   | _ \<Rightarrow> pb\<lparr>pb_parts := None\<rparr>)"

definition publisher_pause :: "publisher \<Rightarrow> publisher" where
  "publisher_pause pb = pb\<lparr>pb_paused := True, pb_scheduled := None\<rparr>"

definition publisher_resume :: "publisher \<Rightarrow> publisher" where
  "publisher_resume pb = pb\<lparr>pb_paused := False\<rparr>"

text \<open>Runs, at a clock that does not go back; a timer fires when it is due or later.\<close>

inductive publisher_run :: "text_lib \<Rightarrow> int \<Rightarrow> int \<Rightarrow> publisher \<Rightarrow> bool" for T interval_ms where
  created: "publisher_run T interval_ms now create_heads_publisher"
| later: "publisher_run T interval_ms now pb \<Longrightarrow> now \<le> now' \<Longrightarrow> publisher_run T interval_ms now' pb"
| triggered: "publisher_run T interval_ms now pb \<Longrightarrow> publisher_run T interval_ms now (trigger interval_ms now pb)"
| fired: "publisher_run T interval_ms now pb \<Longrightarrow> pb_scheduled pb = Some due \<Longrightarrow> due \<le> now \<Longrightarrow> publisher_run T interval_ms now (flush now pb)"
| began: "publisher_run T interval_ms now pb \<Longrightarrow> 0 < pb_queued pb \<Longrightarrow> pb_parts pb = None \<Longrightarrow>
    publisher_run T interval_ms now (send_begin T heads pb)"
| sent: "publisher_run T interval_ms now pb \<Longrightarrow> publisher_run T interval_ms now (send_next pb)"
| paused: "publisher_run T interval_ms now pb \<Longrightarrow> publisher_run T interval_ms now (publisher_pause pb)"
| resumed: "publisher_run T interval_ms now pb \<Longrightarrow> publisher_run T interval_ms now (publisher_resume pb)"

definition publisher_ok :: "int \<Rightarrow> int \<Rightarrow> publisher \<Rightarrow> bool" where
  "publisher_ok interval_ms now pb \<longleftrightarrow> (pb_last_sent pb = (if pb_sent pb = [] then None else Some (last (pb_sent pb)))) \<and>
     sorted_wrt (\<lambda>a b. a + interval_ms \<le> b) (pb_sent pb) \<and> (\<forall>t \<in> set (pb_sent pb). t \<le> now) \<and>
     (\<forall>due. pb_scheduled pb = Some due \<longrightarrow> \<not> pb_paused pb \<and> (\<forall>t \<in> set (pb_sent pb). t + interval_ms \<le> due) \<and> due \<le> now + max 0 interval_ms)"

lemma last_largest:
  fixes interval_ms :: int
  assumes "sorted_wrt (\<lambda>a b. a + interval_ms \<le> b) ts" "0 \<le> interval_ms" "t \<in> set ts"
  shows "t \<le> last ts"
  using assms
proof (induction ts)
  case (Cons a ts)
  show ?case
  proof (cases "ts = []")
    case False
    then have "a + interval_ms \<le> last ts" using Cons.prems(1) by simp
    then have "a \<le> last ts" using assms(2) by linarith
    moreover have "t \<in> set ts \<Longrightarrow> t \<le> last ts" using Cons.IH Cons.prems by simp
    ultimately show ?thesis using Cons.prems(3) False by auto
  qed (use Cons.prems in simp)
qed simp

lemma publisher_run_ok:
  assumes "0 \<le> interval_ms"
  shows "publisher_run T interval_ms now pb \<Longrightarrow> publisher_ok interval_ms now pb"
proof (induction rule: publisher_run.induct)
  case (created now)
  show ?case by (simp add: publisher_ok_def create_heads_publisher_def)
next
  case (later now pb now')
  then show ?case by (force simp: publisher_ok_def)
next
  case (triggered now pb)
  have "t + interval_ms \<le> now + publish_delay interval_ms now pb" if "t \<in> set (pb_sent pb)" for t
    using triggered that last_largest[OF _ assms that] by (auto simp: publisher_ok_def publish_delay_def)
  moreover have "publish_delay interval_ms now pb \<le> interval_ms"
    using triggered assms by (auto simp: publisher_ok_def publish_delay_def split: if_splits)
  ultimately show ?case using triggered assms by (auto simp: publisher_ok_def trigger_def)
next
  case (fired now pb due)
  then have "\<forall>t \<in> set (pb_sent pb). t + interval_ms \<le> now" by (auto simp: publisher_ok_def)
  with fired assms show ?case by (auto simp: publisher_ok_def flush_def Let_def sorted_wrt_append)
qed (auto simp: publisher_ok_def publisher_pause_def publisher_resume_def send_begin_def send_next_def split: option.splits list.splits)

text \<open>Sends do not mix: what was published, with what the send under way still has to publish, is the messages of
  one list of heads after another, one list for each send that was due and has begun.\<close>

lemma publisher_sends_whole:
  "publisher_run T interval_ms now pb \<Longrightarrow>
     \<exists>sets. pb_published pb @ (case pb_parts pb of None \<Rightarrow> [] | Some rest \<Rightarrow> rest) = concat (map (heads_data T) sets) \<and>
       length sets + pb_queued pb = length (pb_sent pb)"
proof (induction rule: publisher_run.induct)
  case (began now pb heads)
  then obtain sets where "pb_published pb = concat (map (heads_data T) sets)" "length sets + pb_queued pb = length (pb_sent pb)" by auto
  with began show ?case by (intro exI[of _ "sets @ [heads]"]) (simp add: send_begin_def)
qed (auto simp: create_heads_publisher_def trigger_def flush_def Let_def send_next_def publisher_pause_def publisher_resume_def
    split: option.splits list.splits)

section \<open>Receiver\<close>

definition MAX_PENDING_HEADS :: nat where
  "MAX_PENDING_HEADS = 65536"

type_synonym pending_heads = "(string, string list) omap"

definition receive_heads :: "text_lib \<Rightarrow> deps \<Rightarrow> string \<Rightarrow> bytes \<Rightarrow> pending_heads \<Rightarrow> pending_heads \<times> (string \<times> string list) option" where
  "receive_heads T D from_peer data pending = (case decode_heads_message T D data of
     None \<Rightarrow> (pending, None)
   | Some message \<Rightarrow>
       let heads = (case omap_get pending from_peer of None \<Rightarrow> [] | Some hs \<Rightarrow> hs) @ hm_heads message
       in if hm_incomplete message then
            (if length heads > MAX_PENDING_HEADS then omap_delete from_peer pending else omap_set from_peer heads pending, None)
          else (omap_delete from_peer pending, Some (from_peer, heads)))"

fun receive_all :: "text_lib \<Rightarrow> deps \<Rightarrow> (string \<times> bytes) list \<Rightarrow> pending_heads \<Rightarrow> pending_heads \<times> (string \<times> string list) list" where
  "receive_all T D [] pending = (pending, [])"
| "receive_all T D ((from_peer, data) # messages) pending =
     (let (pending1, snapshot) = receive_heads T D from_peer data pending; (pending2, snapshots) = receive_all T D messages pending1
      in (pending2, (case snapshot of None \<Rightarrow> [] | Some s \<Rightarrow> [s]) @ snapshots))"

text \<open>The heads pending from one sender, and the snapshots handed on from it.\<close>

abbreviation pending_from :: "pending_heads \<Rightarrow> string \<Rightarrow> string list" where
  "pending_from pending p \<equiv> (case omap_get pending p of None \<Rightarrow> [] | Some hs \<Rightarrow> hs)"

abbreviation sent_by :: "string \<Rightarrow> (string \<times> 'a) list \<Rightarrow> 'a list" where
  "sent_by p xs \<equiv> map snd (List.filter (\<lambda>x. fst x = p) xs)"

lemma receive_other:
  assumes "q \<noteq> p" "receive_heads T D q data pending = (pending1, snapshot)"
  shows "omap_get pending1 p = omap_get pending p \<and> (\<forall>s. snapshot = Some s \<longrightarrow> fst s = q)"
  using assms by (auto simp: receive_heads_def Let_def ordered_simps split: option.splits if_splits)

lemma receive_none: "sent_by p messages = [] \<Longrightarrow> sent_by p (snd (receive_all T D messages pending)) = []"
proof (induction messages arbitrary: pending)
  case (Cons m messages)
  obtain q data where m: "m = (q, data)" by fastforce
  with Cons.prems have q: "q \<noteq> p" "sent_by p messages = []" by (auto split: if_splits)
  obtain pending1 snapshot where r: "receive_heads T D q data pending = (pending1, snapshot)" by fastforce
  from receive_other[OF q(1) r] have "sent_by p (case snapshot of None \<Rightarrow> [] | Some s \<Rightarrow> [s]) = []" using q(1) by (cases snapshot) auto
  moreover obtain pending2 snapshots where rest: "receive_all T D messages pending1 = (pending2, snapshots)" by fastforce
  moreover have "sent_by p snapshots = []" using Cons.IH[OF q(2), of pending1] rest by simp
  ultimately show ?case by (simp add: m r)
qed simp

text \<open>A batch from a sender, after what is pending from it, among whatever others send.\<close>

lemma receive_batches:
  assumes good: "\<And>b incomplete. b \<in> set (parts @ [final]) \<Longrightarrow> decode_heads_message T D (enc b incomplete) = Some \<lparr>hm_heads = b, hm_incomplete = incomplete\<rparr>"
    and "sent_by p messages = map (\<lambda>b. enc b True) parts @ [enc final False]"
    and "length (pending_from pending p @ concat parts @ final) \<le> MAX_PENDING_HEADS"
  shows "sent_by p (snd (receive_all T D messages pending)) = [pending_from pending p @ concat parts @ final]"
  using assms
proof (induction messages arbitrary: parts pending)
  case (Cons m messages)
  obtain q data where m: "m = (q, data)" by fastforce
  obtain pending1 snapshot where r: "receive_heads T D q data pending = (pending1, snapshot)" by fastforce
  obtain pending2 snapshots where rest: "receive_all T D messages pending1 = (pending2, snapshots)" by fastforce
  show ?case
  proof (cases "q = p")
    case False
    from receive_other[OF False r] have same: "omap_get pending1 p = omap_get pending p"
      and none: "sent_by p (case snapshot of None \<Rightarrow> [] | Some s \<Rightarrow> [s]) = []" using False by (cases snapshot; auto)+
    have "sent_by p snapshots = [pending_from pending1 p @ concat parts @ final]"
      using Cons.IH[of parts pending1] Cons.prems False same rest by (simp add: m)
    then show ?thesis using none same by (simp add: m r rest)
  next
    case True
    show ?thesis
    proof (cases parts)
      case Nil
      with Cons.prems(2) True have "data = enc final False" "sent_by p messages = []" by (simp_all add: m)
      moreover from this Cons.prems(1)[of final False] r True have "snapshot = Some (p, pending_from pending p @ final)"
        by (auto simp: Nil receive_heads_def Let_def)
      moreover have "sent_by p snapshots = []" using receive_none[OF \<open>sent_by p messages = []\<close>, of T D pending1] rest by simp
      ultimately show ?thesis using r by (simp add: m rest Nil)
    next
      case (Cons b parts')
      with Cons.prems(2) True have data: "data = enc b True" "sent_by p messages = map (\<lambda>b. enc b True) parts' @ [enc final False]" by (simp_all add: m)
      have small: "\<not> length (pending_from pending p @ b) > MAX_PENDING_HEADS" using Cons.prems(3) Cons by simp
      have "decode_heads_message T D data = Some \<lparr>hm_heads = b, hm_incomplete = True\<rparr>" using Cons.prems(1)[of b True] Cons data(1) by simp
      then have "(pending1, snapshot) = (omap_set p (pending_from pending p @ b) pending, None)"
        using r True small by (simp add: receive_heads_def Let_def)
      then have p1: "pending_from pending1 p = pending_from pending p @ b" and none: "snapshot = None" by (simp_all add: ordered_simps)
      have "sent_by p snapshots = [pending_from pending1 p @ concat parts' @ final]"
        using Cons.IH[OF _ data(2), of pending1] Cons.prems(1,3) Cons p1 rest by simp
      then show ?thesis by (simp add: m r rest none p1 Cons)
    qed
  qed
qed simp

section \<open>Properties\<close>

text \<open>C22: Up to 65536 heads reach a subscriber whole: the messages a publisher makes of a list of at most
  \<open>MAX_PENDING_HEADS\<close> heads, each of which fits a message alone and parses, received in order among messages from any
  other senders and with nothing pending from that publisher, give exactly one snapshot from it, and it
  is its heads in order. Beyond that many heads the receiver forgets the parts (\<open>overflow_hands_on_part\<close>).\<close>

theorem heads_delivered:
  assumes "\<forall>h \<in> set heads. cid_parses D h \<and> heads_overhead T + byte_length (json_string h) \<le> NETWORK_MESSAGE_MAX_BYTES"
    and "\<And>b incomplete. set b \<subseteq> set heads \<Longrightarrow> decodes T (encode_heads_message T b incomplete)"
    and "length heads \<le> MAX_PENDING_HEADS" "omap_get pending p = None" "sent_by p messages = heads_data T heads"
  shows "sent_by p (snd (receive_all T D messages pending)) = [heads]"
proof -
  let ?bs = "heads_batches T heads NETWORK_MESSAGE_MAX_BYTES"
  have "\<forall>h \<in> set heads. batch_fits T NETWORK_MESSAGE_MAX_BYTES [h]" using assms(1) by (simp add: batch_fits_def byte_length_def)
  moreover have "batch_fits T NETWORK_MESSAGE_MAX_BYTES []"
    by (simp add: batch_fits_def byte_length_def encode_heads_message_def heads_value_def json_string_def json_escape_def NETWORK_MESSAGE_MAX_BYTES_def)
  ultimately have bs: "concat ?bs = heads" "\<forall>b \<in> set ?bs. batch_fits T NETWORK_MESSAGE_MAX_BYTES b" "?bs \<noteq> []"
    using heads_batches_ok[of heads T NETWORK_MESSAGE_MAX_BYTES] by blast+
  have split: "butlast ?bs @ [last ?bs] = ?bs" using bs(3) by simp
  have "sent_by p (snd (receive_all T D messages pending)) = [pending_from pending p @ concat (butlast ?bs) @ last ?bs]"
  proof (rule receive_batches)
    fix b incomplete assume "b \<in> set (butlast ?bs @ [last ?bs])"
    then have b: "b \<in> set ?bs" unfolding split .
    then have "set b \<subseteq> set heads" using bs(1) by (metis UN_upper set_concat)
    moreover from this have "\<forall>h \<in> set b. cid_parses D h" using assms(1) by blast
    ultimately show "decode_heads_message T D (utf8ToBytes (encode_heads_message T b incomplete)) = Some \<lparr>hm_heads = b, hm_incomplete = incomplete\<rparr>"
      using decode_heads[OF assms(2)] fits_message bs(2) b by blast
  next
    show "sent_by p messages = map (\<lambda>b. utf8ToBytes (encode_heads_message T b True)) (butlast ?bs) @ [utf8ToBytes (encode_heads_message T (last ?bs) False)]"
      using assms(5) by (simp add: heads_data_def encode_heads_batches_split)
    have "concat (butlast ?bs) @ last ?bs = heads" by (metis bs(1) split concat_append concat.simps append_Nil2)
    then show "length (pending_from pending p @ concat (butlast ?bs) @ last ?bs) \<le> MAX_PENDING_HEADS" using assms(3,4) by simp
  qed
  moreover have "concat (butlast ?bs) @ last ?bs = heads" by (metis bs(1) split concat_append concat.simps append_Nil2)
  ultimately show ?thesis using assms(4) by simp
qed

theorem heads_delivered_witness:
  "sent_by ''p'' (snd (receive_all sample_text (sample_deps []) (map (\<lambda>d. (''p'', d)) (heads_data sample_text [''zA'', ''zB''])) [])) = [[''zA'', ''zB'']]"
proof (rule heads_delivered)
  show "\<forall>h \<in> set [''zA'', ''zB'']. cid_parses (sample_deps []) h \<and>
      heads_overhead sample_text + byte_length (json_string h) \<le> NETWORK_MESSAGE_MAX_BYTES"
    by (simp add: sample_deps_def byte_length_def encode_heads_message_def heads_value_def json_string_def json_escape_def NETWORK_MESSAGE_MAX_BYTES_def)
qed (simp_all add: MAX_PENDING_HEADS_def comp_def)

text \<open>The publisher keeps its rate: in every run two sends of heads are at least the interval
  apart, a trigger outside a pause leaves a message scheduled no later than one interval from now, and
  nothing is scheduled during a pause.\<close>

lemma heads_publisher_rate:
  assumes "publisher_run T interval_ms now pb" "0 \<le> interval_ms"
  shows "sorted_wrt (\<lambda>a b. a + interval_ms \<le> b) (pb_sent pb) \<and> (pb_paused pb \<longrightarrow> pb_scheduled pb = None) \<and>
    (\<not> pb_paused pb \<longrightarrow> (\<exists>due. pb_scheduled (trigger interval_ms now pb) = Some due \<and> due \<le> now + interval_ms))"
proof -
  have ok: "publisher_ok interval_ms now pb" "publisher_ok interval_ms now (trigger interval_ms now pb)"
    using publisher_run_ok[OF assms(2)] assms(1) publisher_run.triggered[OF assms(1)] by blast+
  then have bound: "due \<le> now + interval_ms" if "pb_scheduled (trigger interval_ms now pb) = Some due" for due
    using that assms(2) by (simp add: publisher_ok_def)
  have "\<not> pb_paused pb \<Longrightarrow> \<exists>due. pb_scheduled (trigger interval_ms now pb) = Some due" by (auto simp: trigger_def)
  with ok bound show ?thesis by (auto simp: publisher_ok_def)
qed

text \<open>A sender whose parts outgrow the cap: what was pending is forgotten, and its next complete
  message is handed on alone, although it is not all of the sender's heads.\<close>

lemma overflow_hands_on_part:
  assumes "decode_heads_message T D part = Some \<lparr>hm_heads = b, hm_incomplete = True\<rparr>"
    and "decode_heads_message T D final = Some \<lparr>hm_heads = c, hm_incomplete = False\<rparr>"
    and "MAX_PENDING_HEADS < length (pending_from pending p @ b)"
  shows "sent_by p (snd (receive_all T D [(p, part), (p, final)] pending)) = [c]"
  using assms by (simp add: receive_heads_def Let_def ordered_simps)

end
