(* ===== verification/Replicator.thy ===== *)
theory Replicator
  imports Traversal Merge_Orchestrator Heads_Exchange
begin

text \<open>
  One library's replication (\<open>src/replication/replicator.ts\<close>): the traversal, the merge orchestrator, the
  heads publisher and the heads receiver put together, and the states idle, running, paused and
  unlinked. An operation of the traversal hands the entries it lands to the orchestrator and reports
  the status. \<open>start\<close> awaits the subscription, so it is the part before it and the part after;
  \<open>rp_starting\<close> counts the starts that still await it, and the part after runs whatever the state is by then.
  The oplog is seen through the hashes it holds; \<open>rp_reports\<close> records the calls of \<open>on_status\<close>.
\<close>

section \<open>State\<close>

datatype replicator_state = Replicator_Idle | Running | Paused | Unlinked

type_synonym replication_status = "nat \<times> nat"

record replicator =
  rp_state :: replicator_state
  rp_traversal :: traversal
  rp_orchestrator :: orchestrator
  rp_publisher :: publisher
  rp_deferred :: "string oset"
  rp_pending :: pending_heads
  rp_last_status :: "replication_status option"
  rp_reports :: "replication_status list"
  rp_starting :: nat
  rp_subscribed :: bool

definition create_replicator :: replicator where
  "create_replicator = \<lparr>rp_state = Replicator_Idle, rp_traversal = empty_traversal, rp_orchestrator = create_merge_orchestrator,
     rp_publisher = create_heads_publisher, rp_deferred = [], rp_pending = [], rp_last_status = None, rp_reports = [],
     rp_starting = 0, rp_subscribed = False\<rparr>"

text \<open>What the replicator is given: the check of a fetched entry, the bounds, and the text and CID libraries.\<close>

record replicator_env =
  re_verify :: "string \<Rightarrow> bytes \<Rightarrow> hashed_entry result"
  re_concurrency :: nat
  re_interval :: int
  re_text :: text_lib
  re_deps :: deps

section \<open>Operations\<close>

text \<open>\<open>landed\<close> is the list of hashes in the oplog, so its length is \<open>oplog.entries.size\<close>.\<close>

definition status :: "string list \<Rightarrow> replicator \<Rightarrow> replication_status" where
  "status landed rp = (let progress = length landed
     in (progress, progress + outstanding (rp_traversal rp) + pending (rp_orchestrator rp)))"

definition report :: "string list \<Rightarrow> replicator \<Rightarrow> replicator" where
  "report landed rp = (let current = status landed rp
     in if rp_last_status rp = Some current then rp
        else rp\<lparr>rp_last_status := Some current, rp_reports := rp_reports rp @ [current]\<rparr>)"

text \<open>An operation of the traversal: \<open>on_entry\<close> adds what it landed, \<open>on_change\<close> reports.\<close>

definition traverse :: "replicator_env \<Rightarrow> string list \<Rightarrow> traversal_event \<Rightarrow> replicator \<Rightarrow> replicator" where
  "traverse E landed ev rp =
     (let tv = handle (re_verify E) (re_concurrency E) (\<lambda>h. h \<in> set landed) ev (rp_traversal rp);
          new = map snd (drop (length (tv_entries (rp_traversal rp))) (tv_entries tv))
      in report landed (rp\<lparr>rp_traversal := tv, rp_orchestrator := fold Merge_Orchestrator.add new (rp_orchestrator rp)\<rparr>))"

definition publish_heads :: "replicator_env \<Rightarrow> int \<Rightarrow> replicator \<Rightarrow> replicator" where
  "publish_heads E now rp = rp\<lparr>rp_publisher := trigger (re_interval E) now (rp_publisher rp)\<rparr>"

definition start_request :: "replicator \<Rightarrow> replicator" where
  "start_request rp = (if rp_state rp \<noteq> Replicator_Idle then rp else rp\<lparr>rp_starting := rp_starting rp + 1\<rparr>)"

definition start_subscribed :: "replicator_env \<Rightarrow> int \<Rightarrow> replicator \<Rightarrow> replicator" where
  "start_subscribed E now rp = publish_heads E now (rp\<lparr>rp_starting := rp_starting rp - 1, rp_subscribed := True, rp_state := Running\<rparr>)"

definition pause_replicator :: "replicator_env \<Rightarrow> string list \<Rightarrow> replicator \<Rightarrow> replicator" where
  "pause_replicator E landed rp = (if rp_state rp \<noteq> Running then rp
     else traverse E landed Pause (rp\<lparr>rp_state := Paused, rp_publisher := publisher_pause (rp_publisher rp)\<rparr>))"

definition resume_replicator :: "replicator_env \<Rightarrow> string list \<Rightarrow> int \<Rightarrow> replicator \<Rightarrow> replicator" where
  "resume_replicator E landed now rp = (if rp_state rp \<noteq> Paused then rp
     else let rp1 = traverse E landed Resume (rp\<lparr>rp_state := Running\<rparr>);
              rp2 = traverse E landed (Enqueue (rp_deferred rp1)) rp1
          in publish_heads E now (rp2\<lparr>rp_deferred := [], rp_publisher := publisher_resume (rp_publisher rp2)\<rparr>))"

definition unlink_replicator :: "replicator_env \<Rightarrow> string list \<Rightarrow> replicator \<Rightarrow> replicator" where
  "unlink_replicator E landed rp =
     (let subscribed = (rp_state rp = Running \<or> rp_state rp = Paused);
          rp1 = traverse E landed Discard (rp\<lparr>rp_state := Unlinked, rp_publisher := publisher_pause (rp_publisher rp)\<rparr>)
      in rp1\<lparr>rp_orchestrator := Merge_Orchestrator.discard (rp_orchestrator rp1), rp_deferred := [],
           rp_subscribed := (if subscribed then False else rp_subscribed rp1)\<rparr>)"

definition heads_changed :: "replicator_env \<Rightarrow> int \<Rightarrow> replicator \<Rightarrow> replicator" where
  "heads_changed E now rp = (if rp_state rp = Running then publish_heads E now rp else rp)"

definition receive_message :: "replicator_env \<Rightarrow> string list \<Rightarrow> string \<Rightarrow> bytes \<Rightarrow> replicator \<Rightarrow> replicator" where
  "receive_message E landed from_peer data rp =
     (let (pend, snapshot) = receive_heads (re_text E) (re_deps E) from_peer data (rp_pending rp); rp1 = rp\<lparr>rp_pending := pend\<rparr>
      in case snapshot of
           None \<Rightarrow> rp1
         | Some (_, heads) \<Rightarrow>
             if rp_state rp1 = Running then traverse E landed (Enqueue heads) rp1
             else if rp_state rp1 = Paused then rp1\<lparr>rp_deferred := fold oset_add heads (rp_deferred rp1)\<rparr>
             else rp1)"

text \<open>The merge of a batch, from the start of a run to its end: heads are published when the merge changed
  them, and the status is reported.\<close>

definition merge_start :: "string list \<Rightarrow> replicator \<Rightarrow> replicator" where
  "merge_start landed rp = rp\<lparr>rp_orchestrator := run_start (\<lambda>h. h \<in> set landed) (rp_orchestrator rp)\<rparr>"

definition merge_done :: "replicator_env \<Rightarrow> string list \<Rightarrow> int \<Rightarrow> bool \<Rightarrow> hashed_entry list \<Rightarrow> replicator \<Rightarrow> replicator" where
  "merge_done E landed now heads_differ batch rp =
     (let rp1 = report landed (if heads_differ then publish_heads E now rp else rp)
      in rp1\<lparr>rp_orchestrator := run_merged (\<lambda>h. h \<in> set landed) batch (rp_orchestrator rp1)\<rparr>)"

definition merge_failed :: "hashed_entry list \<Rightarrow> replicator \<Rightarrow> replicator" where
  "merge_failed batch rp = rp\<lparr>rp_orchestrator := run_failed batch (rp_orchestrator rp)\<rparr>"

definition publish_timer :: "int \<Rightarrow> replicator \<Rightarrow> replicator" where
  "publish_timer now rp = rp\<lparr>rp_publisher := flush now (rp_publisher rp)\<rparr>"

definition send_heads_begin :: "replicator_env \<Rightarrow> string list \<Rightarrow> replicator \<Rightarrow> replicator" where
  "send_heads_begin E heads rp = rp\<lparr>rp_publisher := send_begin (re_text E) heads (rp_publisher rp)\<rparr>"

definition send_heads_next :: "replicator \<Rightarrow> replicator" where
  "send_heads_next rp = rp\<lparr>rp_publisher := send_next (rp_publisher rp)\<rparr>"

section \<open>Steps\<close>

text \<open>What happens to a replicator, in any order: the calls of its owner, messages and peers from the network, the
  callbacks of fetches and timers, the publishes of a send under way, the merges, and the end of a
  subscription that \<open>start\<close> awaits.\<close>

inductive replicator_step :: "replicator_env \<Rightarrow> string list \<Rightarrow> int \<Rightarrow> replicator \<Rightarrow> replicator \<Rightarrow> bool" for E landed now where
  start_requested: "replicator_step E landed now rp (start_request rp)"
| started: "0 < rp_starting rp \<Longrightarrow> replicator_step E landed now rp (start_subscribed E now rp)"
| paused: "replicator_step E landed now rp (pause_replicator E landed rp)"
| resumed: "replicator_step E landed now rp (resume_replicator E landed now rp)"
| unlinked: "replicator_step E landed now rp (unlink_replicator E landed rp)"
| changed: "replicator_step E landed now rp (heads_changed E now rp)"
| received: "rp_subscribed rp \<Longrightarrow> replicator_step E landed now rp (receive_message E landed from_peer data rp)"
| joined: "rp_subscribed rp \<Longrightarrow> replicator_step E landed now rp (publish_heads E now rp)"
| fetched: "settles (rp_traversal rp) ev \<Longrightarrow> replicator_step E landed now rp (traverse E landed ev rp)"
| merging: "mo_scheduled (rp_orchestrator rp) \<Longrightarrow> mo_running (rp_orchestrator rp) = None \<Longrightarrow> replicator_step E landed now rp (merge_start landed rp)"
| merged: "mo_running (rp_orchestrator rp) = Some batch \<Longrightarrow> replicator_step E landed now rp (merge_done E landed now differ batch rp)"
| failed: "mo_running (rp_orchestrator rp) = Some batch \<Longrightarrow> replicator_step E landed now rp (merge_failed batch rp)"
| timer: "pb_scheduled (rp_publisher rp) = Some due \<Longrightarrow> due \<le> now \<Longrightarrow> replicator_step E landed now rp (publish_timer now rp)"
| began: "0 < pb_queued (rp_publisher rp) \<Longrightarrow> pb_parts (rp_publisher rp) = None \<Longrightarrow> replicator_step E landed now rp (send_heads_begin E heads rp)"
| sent: "replicator_step E landed now rp (send_heads_next rp)"

inductive replicator_run :: "replicator_env \<Rightarrow> string list \<Rightarrow> int \<Rightarrow> replicator \<Rightarrow> bool" for E where
  created: "replicator_run E landed now create_replicator"
| later: "replicator_run E landed now rp \<Longrightarrow> set landed \<subseteq> set landed' \<Longrightarrow> now \<le> now' \<Longrightarrow> replicator_run E landed' now' rp"
| step: "replicator_run E landed now rp \<Longrightarrow> replicator_step E landed now rp rp' \<Longrightarrow> replicator_run E landed now rp'"

section \<open>Invariant\<close>

lemma handle_paused:
  "tv_paused (handle verify n p ev tv) = (case ev of Pause \<Rightarrow> True | Resume \<Rightarrow> False | _ \<Rightarrow> tv_paused tv)"
proof -
  have "tv_paused (pump p n tv) = tv_paused tv" for tv by (simp add: pump_def pump_loop_keeps)
  moreover have "settle h token tv = Some tv1 \<Longrightarrow> tv_paused tv1 = tv_paused tv" for h token tv1 by (auto simp: settle_def split: if_splits)
  moreover have "tv_paused (land p verify h bs tv) = tv_paused tv" for h bs tv
    by (simp add: land_def Let_def add_hashes_keeps split: sum.splits)
  ultimately show ?thesis
    by (cases ev) (auto simp: enqueue_def pause_def resume_def Traversal.discard_def idle_def on_answer_def on_failure_def on_timeout_def
        add_hashes_keeps Let_def split: option.splits)
qed

lemma paused_starts:
  assumes "tv_paused tv" "ev \<noteq> Resume"
  shows "tv_starts (handle verify n p ev tv) = tv_starts tv"
proof -
  have "tv_starts (pump p n tv) = tv_starts tv" if "tv_paused tv" for tv using that by (simp add: pump_def)
  moreover have "settle h token tv = Some tv1 \<Longrightarrow> tv_paused tv1 \<and> tv_starts tv1 = tv_starts tv" for h token tv1
    using assms(1) by (auto simp: settle_def split: if_splits)
  moreover have "tv_paused (land p verify h bs tv) = tv_paused tv \<and> tv_starts (land p verify h bs tv) = tv_starts tv" for h bs tv
    by (simp add: land_def Let_def add_hashes_keeps split: sum.splits)
  ultimately show ?thesis using assms
    by (cases ev) (auto simp: enqueue_def pause_def Traversal.discard_def idle_def on_answer_def on_failure_def on_timeout_def
        add_hashes_keeps split: option.splits)
qed

declare handle.simps [simp del]

lemma report_keeps [simp]:
  "rp_state (report landed rp) = rp_state rp" "rp_traversal (report landed rp) = rp_traversal rp" "rp_publisher (report landed rp) = rp_publisher rp"
  "rp_deferred (report landed rp) = rp_deferred rp" "rp_starting (report landed rp) = rp_starting rp" "rp_subscribed (report landed rp) = rp_subscribed rp"
  "rp_orchestrator (report landed rp) = rp_orchestrator rp" "rp_pending (report landed rp) = rp_pending rp"
  by (simp_all add: report_def Let_def)

lemma traverse_keeps [simp]:
  "rp_state (traverse E landed ev rp) = rp_state rp" "rp_publisher (traverse E landed ev rp) = rp_publisher rp"
  "rp_deferred (traverse E landed ev rp) = rp_deferred rp" "rp_starting (traverse E landed ev rp) = rp_starting rp"
  "rp_subscribed (traverse E landed ev rp) = rp_subscribed rp"
  "rp_traversal (traverse E landed ev rp) = handle (re_verify E) (re_concurrency E) (\<lambda>h. h \<in> set landed) ev (rp_traversal rp)"
  by (simp_all add: traverse_def Let_def)

lemma publish_heads_keeps [simp]:
  "rp_state (publish_heads E now rp) = rp_state rp" "rp_traversal (publish_heads E now rp) = rp_traversal rp"
  "rp_deferred (publish_heads E now rp) = rp_deferred rp" "rp_starting (publish_heads E now rp) = rp_starting rp"
  "rp_subscribed (publish_heads E now rp) = rp_subscribed rp"
  "rp_publisher (publish_heads E now rp) = trigger (re_interval E) now (rp_publisher rp)"
  by (simp_all add: publish_heads_def)

lemma trigger_paused: "pb_paused (trigger i now pb) = pb_paused pb" "pb_paused pb \<Longrightarrow> trigger i now pb = pb" "pb_sent (trigger i now pb) = pb_sent pb"
  by (simp_all add: trigger_def)

text \<open>A paused replicator has its parts paused.\<close>

definition replicator_ok :: "replicator_env \<Rightarrow> string list \<Rightarrow> replicator \<Rightarrow> bool" where
  "replicator_ok E landed rp \<longleftrightarrow> traversal_ok (re_verify E) (re_concurrency E) (set landed) (rp_traversal rp) \<and>
     (rp_state rp = Paused \<longrightarrow> tv_paused (rp_traversal rp) \<and> pb_paused (rp_publisher rp) \<and> pb_scheduled (rp_publisher rp) = None)"

lemma settles_not_control: "settles tv ev \<Longrightarrow> ev \<noteq> Pause \<and> ev \<noteq> Resume"
  by (auto elim: settles.cases)

lemma settles_paused: "settles tv ev \<Longrightarrow> tv_paused (handle verify n p ev tv') = tv_paused tv'"
  using settles_not_control[of tv ev] by (auto simp: handle_paused split: traversal_event.split)

lemma replicator_step_ok:
  assumes "replicator_step E landed now rp rp'" "replicator_ok E landed rp"
  shows "replicator_ok E landed rp'"
proof -
  have tv: "traversal_ok (re_verify E) (re_concurrency E) (set landed) (handle (re_verify E) (re_concurrency E) (\<lambda>h. h \<in> set landed) ev tv)"
    if "traversal_ok (re_verify E) (re_concurrency E) (set landed) tv" for ev tv
    using that by (rule handle_ok) simp
  from assms show ?thesis
  proof (cases rule: replicator_step.cases)
    case paused
    then show ?thesis using assms(2) tv by (auto simp: replicator_ok_def pause_replicator_def handle_paused publisher_pause_def)
  next
    case resumed
    then show ?thesis using assms(2) tv
      by (auto simp: replicator_ok_def resume_replicator_def Let_def handle_paused publisher_resume_def trigger_paused)
  next
    case unlinked
    then show ?thesis using assms(2) tv
      by (cases "rp_state rp") (auto simp: replicator_ok_def unlink_replicator_def Let_def publisher_pause_def)
  next
    case (received from_peer data)
    then show ?thesis using assms(2) tv
      by (auto simp: replicator_ok_def receive_message_def Let_def handle_paused split: prod.splits option.splits)
  next
    case (fetched ev)
    then show ?thesis using assms(2) tv settles_paused[OF fetched(2)] by (auto simp: replicator_ok_def)
  next
    case (merged batch differ)
    then show ?thesis using assms(2) by (auto simp: replicator_ok_def merge_done_def Let_def trigger_paused)
  next
    case (timer due)
    then show ?thesis using assms(2) by (auto simp: replicator_ok_def publish_timer_def flush_def Let_def)
  qed (use assms(2) in \<open>auto simp: replicator_ok_def start_request_def start_subscribed_def heads_changed_def merge_start_def merge_failed_def
      send_heads_begin_def send_heads_next_def send_begin_def send_next_def trigger_paused split: option.splits list.splits\<close>)
qed

lemma replicator_run_ok: "replicator_run E landed now rp \<Longrightarrow> replicator_ok E landed rp"
proof (induction rule: replicator_run.induct)
  case (created landed now)
  have "traversal_ok (re_verify E) (re_concurrency E) (set landed) empty_traversal" by (rule traversal_run_ok[OF traversal_run.created])
  then show ?case by (simp add: replicator_ok_def create_replicator_def)
next
  case (later landed now rp landed' now')
  then show ?case using places_ok_mono entries_ok_mono unfolding replicator_ok_def traversal_ok_def by blast
qed (rule replicator_step_ok)

text \<open>Where a resumed traversal has the hashes it held back.\<close>

lemma pump_flying: "flying tv \<subseteq> flying (pump p n tv)"
proof -
  have "flying tv \<subseteq> flying (pump_loop p n q tv)" for q tv
  proof (induction q arbitrary: tv)
    case (Cons h q)
    have "flying tv \<subseteq> flying (start h tv)" unfolding subset_iff flying_iff by (simp add: start_def ordered_simps)
    then have "flying tv \<subseteq> flying (pump_loop p n q (start h tv))" using Cons[of "start h tv"] by (rule order.trans)
    with Cons[of tv] show ?case by simp
  qed simp
  then show ?thesis by (simp add: pump_def)
qed

lemma add_hashes_unresolved: "set (tv_unresolved (add_hashes p hs tv)) \<subseteq> set (tv_unresolved tv)"
proof (induction hs arbitrary: tv)
  case (Cons h hs)
  show ?case unfolding add_hashes.simps by (rule order.trans[OF Cons]) auto
qed simp

lemma pump_keeps:
  "tv_fetched (pump p n tv) = tv_fetched tv" "tv_rejected (pump p n tv) = tv_rejected tv" "tv_unresolved (pump p n tv) = tv_unresolved tv"
  "tv_enqueued (pump p n tv) = tv_enqueued tv"
  by (simp_all add: pump_def pump_loop_keeps)

lemma resumed_places:
  assumes "traversal_ok verify n l tv" "tv'' = enqueue (\<lambda>h. h \<in> l) n hs (resume (\<lambda>h. h \<in> l) n tv)"
  shows "\<forall>h \<in> set (tv_unresolved tv). h \<in> l \<or> h \<in> set (tv_queue tv'') \<or> omap_has (tv_in_flight tv'') h"
    "\<forall>h \<in> set hs. h \<in> l \<or> h \<in> set (tv_queue tv'') \<or> omap_has (tv_in_flight tv'') h \<or> h \<in> set (tv_fetched tv) \<or> omap_has (tv_rejected tv) h"
proof -
  let ?tv1 = "resume (\<lambda>h. h \<in> l) n tv"
  have ok: "traversal_ok verify n l tv''"
    using handle_ok[of verify n l "resume (\<lambda>h. h \<in> l) n tv" l "Enqueue hs"] handle_ok[OF assms(1), of l Resume] assms(2) by (simp add: handle.simps)
  have keeps: "tv_fetched tv'' = tv_fetched tv" "tv_rejected tv'' = tv_rejected tv"
    "set (tv_enqueued tv'') = set (tv_enqueued tv) \<union> {h \<in> set hs. h \<notin> l}"
    by (simp_all add: assms(2) enqueue_def resume_def Let_def pump_keeps add_hashes_keeps)
  have "flying tv \<subseteq> flying ?tv1" using pump_flying by (force simp: resume_def Let_def)
  moreover have "flying ?tv1 \<subseteq> flying tv''" unfolding assms(2) enqueue_def using pump_flying add_hashes_keeps(3) by metis
  moreover have "set (tv_unresolved tv'') \<subseteq> set (tv_unresolved ?tv1)"
    unfolding assms(2) enqueue_def pump_keeps by (rule add_hashes_unresolved)
  moreover have "set (fold oset_delete xs ys) = set ys - set xs" for xs ys :: "string list" by (induction xs arbitrary: ys) auto
  then have "set (tv_unresolved ?tv1) \<subseteq> flying tv" unfolding subset_iff flying_iff by (auto simp: resume_def Let_def pump_keeps)
  ultimately have flown: "set (tv_unresolved tv'') \<subseteq> flying tv''" by (metis order.trans)
  have spread: "spread (set (tv_queue tv)) (flying tv) (set (tv_unresolved tv)) (set (tv_fetched tv)) (refused tv) (set (tv_enqueued tv)) l"
    "spread (set (tv_queue tv'')) (flying tv'') (set (tv_unresolved tv'')) (set (tv_fetched tv'')) (refused tv'') (set (tv_enqueued tv'')) l"
    using ok assms(1) by (simp_all add: traversal_ok_def places_ok_def)
  have found: "h \<in> l \<or> h \<in> set (tv_queue tv'') \<or> omap_has (tv_in_flight tv'') h \<or> h \<in> set (tv_fetched tv) \<or> omap_has (tv_rejected tv) h"
    if "h \<in> set (tv_enqueued tv'')" for h
    using spreadD(3)[OF spread(2) that] flown keeps(1,2) unfolding flying_iff[symmetric] omap_has_iff by auto
  then show "\<forall>h \<in> set hs. h \<in> l \<or> h \<in> set (tv_queue tv'') \<or> omap_has (tv_in_flight tv'') h \<or> h \<in> set (tv_fetched tv) \<or> omap_has (tv_rejected tv) h"
    unfolding keeps(3) by blast
  show "\<forall>h \<in> set (tv_unresolved tv). h \<in> l \<or> h \<in> set (tv_queue tv'') \<or> omap_has (tv_in_flight tv'') h"
  proof
    fix h assume u: "h \<in> set (tv_unresolved tv)"
    then have "h \<in> set (tv_enqueued tv'')" using spread(1) unfolding keeps(3) spread_def cell_def by blast
    from found[OF this] spreadD(2)[OF spread(1) u] show "h \<in> l \<or> h \<in> set (tv_queue tv'') \<or> omap_has (tv_in_flight tv'') h"
      unfolding omap_has_iff by auto
  qed
qed

section \<open>Properties\<close>

text \<open>The sends that are due and have not published all their messages.\<close>

definition sends_left :: "publisher \<Rightarrow> nat" where
  "sends_left pb = pb_queued pb + (case pb_parts pb of None \<Rightarrow> 0 | Some _ \<Rightarrow> 1)"

text \<open>C21: Pause and resume, in every interleaving of the replicator's events, starts that end late and unlinks among
  them. A step that leaves a paused replicator paused starts no fetch, loses none of the heads it received meanwhile
  and makes no send of heads due; it publishes only for a send that was due before the pause, whose
  messages still go out one by one, and nothing once those are out. Resuming puts it back to running: what was
  unresolved has landed or is queued or in flight again, each head received during the pause has landed, is
  queued or in flight, or was fetched or refused before, and the local heads are scheduled to go out.\<close>

theorem replicator_pause_resume:
  assumes "replicator_run E landed now rp" "rp_state rp = Paused"
    and "rp'' = resume_replicator E landed now rp"
  shows "(\<forall>rp'. replicator_step E landed now rp rp' \<and> rp_state rp' = Paused \<longrightarrow>
      tv_starts (rp_traversal rp') = tv_starts (rp_traversal rp) \<and> set (rp_deferred rp) \<subseteq> set (rp_deferred rp') \<and>
      pb_sent (rp_publisher rp') = pb_sent (rp_publisher rp) \<and> sends_left (rp_publisher rp') \<le> sends_left (rp_publisher rp) \<and>
      (sends_left (rp_publisher rp) = 0 \<longrightarrow> pb_published (rp_publisher rp') = pb_published (rp_publisher rp))) \<and>
    rp_state rp'' = Running \<and>
    (\<forall>h \<in> set (tv_unresolved (rp_traversal rp)). h \<in> set landed \<or> h \<in> set (tv_queue (rp_traversal rp'')) \<or> omap_has (tv_in_flight (rp_traversal rp'')) h) \<and>
    (\<forall>h \<in> set (rp_deferred rp). h \<in> set landed \<or> h \<in> set (tv_queue (rp_traversal rp'')) \<or> omap_has (tv_in_flight (rp_traversal rp'')) h \<or>
       h \<in> set (tv_fetched (rp_traversal rp)) \<or> omap_has (tv_rejected (rp_traversal rp)) h) \<and>
    pb_scheduled (rp_publisher rp'') \<noteq> None"
proof -
  have ok: "replicator_ok E landed rp" by (rule replicator_run_ok[OF assms(1)])
  then have paused: "tv_paused (rp_traversal rp)" "pb_paused (rp_publisher rp)" "pb_scheduled (rp_publisher rp) = None"
    and tv: "traversal_ok (re_verify E) (re_concurrency E) (set landed) (rp_traversal rp)"
    using assms(2) by (simp_all add: replicator_ok_def)
  have "rp_state rp'' = Running" using assms(2,3) by (simp add: resume_replicator_def Let_def)
  moreover have "pb_scheduled (rp_publisher rp'') \<noteq> None"
    using assms(2,3) paused by (simp add: resume_replicator_def Let_def publisher_resume_def trigger_def)
  moreover have "rp_traversal rp'' = enqueue (\<lambda>h. h \<in> set landed) (re_concurrency E) (rp_deferred rp)
      (resume (\<lambda>h. h \<in> set landed) (re_concurrency E) (rp_traversal rp))"
    using assms(2,3) by (simp add: resume_replicator_def Let_def handle.simps)
  note resumed_places[OF tv this]
  moreover have "tv_starts (rp_traversal rp') = tv_starts (rp_traversal rp) \<and> set (rp_deferred rp) \<subseteq> set (rp_deferred rp') \<and>
      pb_sent (rp_publisher rp') = pb_sent (rp_publisher rp) \<and> sends_left (rp_publisher rp') \<le> sends_left (rp_publisher rp) \<and>
      (sends_left (rp_publisher rp) = 0 \<longrightarrow> pb_published (rp_publisher rp') = pb_published (rp_publisher rp))"
    if step: "replicator_step E landed now rp rp'" and still: "rp_state rp' = Paused" for rp'
    using step
  proof (cases rule: replicator_step.cases)
    case (received from_peer data)
    then show ?thesis using assms(2) by (auto simp: receive_message_def Let_def set_fold_oset_add split: prod.splits option.splits)
  next
    case (fetched ev)
    then show ?thesis using paused settles_not_control[OF fetched(2)] by (simp add: paused_starts)
  next
    case (merged batch differ)
    then show ?thesis using paused by (simp add: merge_done_def Let_def trigger_paused)
  next
    case (began heads)
    then show ?thesis by (simp add: send_heads_begin_def send_begin_def sends_left_def)
  next
    case sent
    then show ?thesis by (auto simp: send_heads_next_def send_next_def sends_left_def split: option.splits list.splits)
  qed (use assms(2) still paused in \<open>simp_all add: start_request_def start_subscribed_def pause_replicator_def resume_replicator_def
      unlink_replicator_def heads_changed_def merge_start_def merge_failed_def Let_def trigger_paused\<close>)
  ultimately show ?thesis by blast
qed

definition sample_env :: replicator_env where
  "sample_env = \<lparr>re_verify = sample_verify, re_concurrency = 1, re_interval = 1000, re_text = sample_text, re_deps = sample_deps []\<rparr>"

text \<open>A sample: \<open>zA\<close> is fetched when the pause comes, and \<open>zB\<close> is received during it.\<close>

definition sample_message :: "string \<Rightarrow> bytes" where
  "sample_message h = utf8ToBytes (encode_heads_message sample_text [h] False)"

definition sample_paused :: replicator where
  "sample_paused = receive_message sample_env [] ''p'' (sample_message ''zB'') (pause_replicator sample_env []
     (receive_message sample_env [] ''p'' (sample_message ''zA'') (start_subscribed sample_env 0 (start_request create_replicator))))"

lemma sample_received:
  assumes "h \<in> {''zA'', ''zB''}"
  shows "receive_heads (re_text sample_env) (re_deps sample_env) p (sample_message h) [] = ([], Some (p, [h]))"
proof -
  have "decode_heads_message sample_text (sample_deps []) (sample_message h) = Some \<lparr>hm_heads = [h], hm_incomplete = False\<rparr>"
    unfolding sample_message_def using assms
    by (intro decode_heads)
      (auto simp: sample_deps_def byte_length_def encode_heads_message_def heads_value_def json_string_def json_escape_def NETWORK_MESSAGE_MAX_BYTES_def)
  then show ?thesis by (simp add: receive_heads_def sample_env_def)
qed

lemma sample_receive:
  assumes "rp_pending rp = []" "h \<in> {''zA'', ''zB''}"
  shows "receive_message sample_env landed p (sample_message h) rp = (if rp_state rp = Running then traverse sample_env landed (Enqueue [h]) (rp\<lparr>rp_pending := []\<rparr>)
    else if rp_state rp = Paused then rp\<lparr>rp_pending := [], rp_deferred := oset_add h (rp_deferred rp)\<rparr> else rp\<lparr>rp_pending := []\<rparr>)"
  using assms by (simp add: receive_message_def sample_received)

lemma traverse_pending [simp]: "rp_pending (traverse E landed ev rp) = rp_pending rp"
  by (simp add: traverse_def Let_def)

abbreviation sample_running :: replicator where
  "sample_running \<equiv> start_subscribed sample_env 0 (start_request create_replicator)"

lemma sample_running_fields:
  "rp_state sample_running = Running" "rp_pending sample_running = []" "rp_subscribed sample_running"
  "rp_deferred sample_running = []" "rp_traversal sample_running = empty_traversal"
  by (simp_all add: start_subscribed_def start_request_def create_replicator_def publish_heads_def)

lemma sample_paused_eq:
  "sample_paused = (pause_replicator sample_env [] (traverse sample_env [] (Enqueue [''zA'']) (sample_running\<lparr>rp_pending := []\<rparr>)))
     \<lparr>rp_pending := [], rp_deferred := [''zB'']\<rparr>"
  unfolding sample_paused_def by (simp add: sample_receive sample_running_fields pause_replicator_def oset_add_def)

lemma sample_paused_run: "replicator_run sample_env [] 0 sample_paused"
proof -
  have "replicator_run sample_env [] 0 (start_request create_replicator)"
    by (rule replicator_run.step[OF replicator_run.created replicator_step.start_requested])
  then have "replicator_run sample_env [] 0 sample_running"
    by (rule replicator_run.step[OF _ replicator_step.started]) (simp add: start_request_def create_replicator_def)
  then have "replicator_run sample_env [] 0 (receive_message sample_env [] ''p'' (sample_message ''zA'') sample_running)"
    by (rule replicator_run.step[OF _ replicator_step.received]) (simp add: sample_running_fields)
  then have "replicator_run sample_env [] 0 (pause_replicator sample_env [] (receive_message sample_env [] ''p'' (sample_message ''zA'') sample_running))"
    by (rule replicator_run.step[OF _ replicator_step.paused])
  then show ?thesis unfolding sample_paused_def
    by (rule replicator_run.step[OF _ replicator_step.received]) (simp add: sample_receive sample_running_fields pause_replicator_def)
qed

lemma sample_paused_fields:
  "rp_state sample_paused = Paused" "rp_deferred sample_paused = [''zB'']" "tv_unresolved (rp_traversal sample_paused) = [''zA'']"
proof -
  have "tv_unresolved (pause (enqueue (\<lambda>h. False) 1 [''zA''] empty_traversal)) = [''zA'']"
    by (simp add: pause_def enqueue_def pump_def empty_traversal_def start_def oset_add_def)
  then show "tv_unresolved (rp_traversal sample_paused) = [''zA'']"
    by (simp add: sample_paused_eq pause_replicator_def sample_running_fields handle.simps) (simp add: sample_env_def)
qed (simp_all add: sample_paused_eq pause_replicator_def sample_running_fields)

theorem replicator_pause_resume_witness:
  "let tv = rp_traversal (resume_replicator sample_env [] 0 sample_paused) in
   rp_state (resume_replicator sample_env [] 0 sample_paused) = Running \<and>
   (''zA'' \<in> set (tv_queue tv) \<or> omap_has (tv_in_flight tv) ''zA'') \<and> pb_scheduled (rp_publisher (resume_replicator sample_env [] 0 sample_paused)) \<noteq> None"
  using replicator_pause_resume[OF sample_paused_run sample_paused_fields(1) refl] by (simp add: sample_paused_fields Let_def)

text \<open>Pausing does not stop a send that is under way: its next message goes out during the pause.\<close>

lemma send_outlives_pause:
  assumes "rp_state rp = Running" "pb_parts (rp_publisher rp) = Some (data # rest)"
  shows "let rp' = send_heads_next (pause_replicator E landed rp)
    in rp_state rp' = Paused \<and> pb_published (rp_publisher rp') = pb_published (rp_publisher rp) @ [data]"
  using assms by (simp add: Let_def send_heads_next_def send_next_def pause_replicator_def publisher_pause_def)

text \<open>An unlink while \<open>start\<close> awaits its subscription is undone when the subscription resolves: the
  replicator ends up running and subscribed, with its publisher paused for good.\<close>

lemma unlink_during_start:
  assumes "rp_state rp = Replicator_Idle" "rp' = start_subscribed E now (unlink_replicator E landed (start_request rp))"
  shows "rp_state rp' = Running \<and> rp_subscribed rp' \<and> pb_paused (rp_publisher rp')"
  using assms by (simp add: start_subscribed_def unlink_replicator_def start_request_def Let_def publisher_pause_def trigger_paused)

end
