(* ===== verification/Accepted.thy ===== *)
theory Accepted
  imports Sample_Log
begin

text \<open>
  What holds of every entry and index of an oplog built by appends and merges: its entries passed the checks
  of acceptance, and each state key and each capability has one row.
\<close>

section \<open>Entries\<close>

lemma reachable_checked:
  assumes "reachable D ol" "inj (multihash_of_digest D)" "entries_of ol h = Some e"
  obtains hashed operation where "check_entry D (ol_chain ol) hashed = Inr operation" "e = as_verified hashed operation"
proof -
  have "\<exists>hashed operation. check_entry D (ol_chain ol) hashed = Inr operation \<and> e = as_verified hashed operation"
    using assms
  proof (induction arbitrary: h e rule: reachable.induct)
    case (created chain)
    then show ?case by (simp add: create_oplog_def)
  next
    case (appended ol payload kp ol' e' access)
    note a = append_ok[OF reachable_ok[OF appended(1,5)] appended(5,2,3)]
    from appended(2) obtain hashed where "verify_entry D ol hashed = Inr e'"
      by (auto elim!: append_Inr dest: sign_local_entry_verified)
    then show ?case using appended.IH[OF appended(5)] appended(6) unfolding a(3,4) by (auto simp: verify_entry_Inr split: if_splits)
  next
    case (merged ol blocks)
    note ok = reachable_ok[OF merged(1,3)]
    have chain: "ol_chain (fst (merge_entries D ol blocks)) = ol_chain ol" by (rule merge_chain[OF ok merged(3)])
    show ?case
    proof (cases "entries_of ol h")
      case None
      from merge_origin[OF ok merged(3,4) None] show ?thesis by (auto simp: verify_entry_Inr)
    next
      case (Some x)
      with merge_agrees[OF ok merged(3), of blocks] merged(4) have "entries_of ol h = Some e" unfolding agree_on_def by (metis domI)
      with merged.IH[OF merged(3)] show ?thesis by (simp add: chain)
    qed
  qed
  with that show thesis by blast
qed

lemma checked_operation:
  "check_entry D chain hashed = Inr operation \<Longrightarrow>
     validate_operation D (e_payload (he_entry hashed)) (chain_type chain) (e_key (he_entry hashed) \<in> set (chain_write_list chain)) = Inr operation"
  by (auto simp: check_entry_def result_simps Let_def split: if_splits)

lemma reachable_state_keys: "reachable D ol \<Longrightarrow> inj (multihash_of_digest D) \<Longrightarrow> entries_of ol h = Some e \<Longrightarrow> ve_state_keys e = state_keys_of (ve_operation e)"
proof -
  assume "reachable D ol" "inj (multihash_of_digest D)" "entries_of ol h = Some e"
  then obtain hashed operation where "e = as_verified hashed operation" by (rule reachable_checked)
  then show "ve_state_keys e = state_keys_of (ve_operation e)" by (simp add: as_verified_def hashed_entry.defs verified_entry.defs)
qed

section \<open>Indices\<close>

text \<open>Each state key has one row in the index.\<close>

lemma index_keys_distinct: "distinct (omap_keys m) \<Longrightarrow> distinct (omap_keys (index_keys h ks m))"
  by (induction ks arbitrary: m) (simp_all add: distinct_update)

lemma insert_entry_index: "distinct (omap_keys (ol_key_entries ol)) \<Longrightarrow> distinct (omap_keys (ol_key_entries (fst (insert_entry ol e))))"
  by (simp add: insert_entry_def Let_def case_prod_unfold index_keys_distinct)

lemma admit_all_index: "distinct (omap_keys (ol_key_entries ol)) \<Longrightarrow> distinct (omap_keys (ol_key_entries (fst (admit_all admit ol hs))))"
  by (induction hs arbitrary: ol) (auto simp: Let_def case_prod_unfold insert_entry_index split: sum.splits)

lemma refresh_index [simp]:
  "ol_key_entries (refresh_current_state ol ks) = ol_key_entries ol"
  "ol_key_entries (fst (refresh_access_state ol added)) = ol_key_entries ol"
proof -
  show "ol_key_entries (refresh_current_state ol ks) = ol_key_entries ol" by (induction ks arbitrary: ol) (simp_all split: option.splits)
  show "ol_key_entries (fst (refresh_access_state ol added)) = ol_key_entries ol"
    by (simp add: refresh_access_state_def refresh_effective_def Let_def case_prod_unfold)
qed

lemma reachable_index: "reachable D ol \<Longrightarrow> distinct (omap_keys (ol_key_entries ol))"
proof (induction rule: reachable.induct)
  case (created chain)
  then show ?case by (simp add: create_oplog_def)
next
  case (appended ol payload kp ol' e access)
  from appended(2) obtain ol2 where "refresh_access_state (fst (insert_entry ol e)) [e] = (ol2, access)"
    "ol' = refresh_current_state ol2 (oset_of (ac_keys access @ ve_state_keys e))" by (auto elim!: append_Inr)
  with refresh_index(2)[of "fst (insert_entry ol e)" "[e]"] insert_entry_index[OF appended(4)] show ?case by simp
next
  case (merged ol blocks)
  then show ?case
    by (simp add: merge_entries_def insert_blocks_def Let_def case_prod_unfold admit_all_index)
qed

text \<open>A row of the index names at least one entry.\<close>

lemma set_update_values: "set (map snd (AList.update k v m)) \<subseteq> insert v (set (map snd m))"
  by (induction m) auto

lemma index_keys_nonempty: "[] \<notin> set (map snd m) \<Longrightarrow> [] \<notin> set (map snd (index_keys h ks m))"
proof (induction ks arbitrary: m)
  case (Cons k ks)
  let ?hs = "oset_add h (case omap_get m k of None \<Rightarrow> [] | Some hs \<Rightarrow> hs)"
  have "h \<in> set ?hs" by simp
  then have "?hs \<noteq> []" by (metis empty_iff list.set(1))
  with Cons.prems subsetD[OF set_update_values[of k ?hs m], of "[]"] have "[] \<notin> set (map snd (AList.update k ?hs m))" by auto
  from Cons.IH[OF this] show ?case by simp
qed simp

lemma admit_all_nonempty:
  "[] \<notin> set (map snd (ol_key_entries ol)) \<Longrightarrow> [] \<notin> set (map snd (ol_key_entries (fst (admit_all admit ol hs))))"
proof (induction hs arbitrary: ol)
  case (Cons h hs)
  have "[] \<notin> set (map snd (ol_key_entries (fst (insert_entry ol e))))" for e
    using index_keys_nonempty[OF Cons.prems] Cons.prems by (simp add: insert_entry_def Let_def case_prod_unfold)
  with Cons show ?case by (simp add: Let_def case_prod_unfold split: sum.split)
qed simp

lemma reachable_rows_nonempty: "reachable D ol \<Longrightarrow> [] \<notin> set (map snd (ol_key_entries ol))"
proof (induction rule: reachable.induct)
  case (created chain)
  then show ?case by (simp add: create_oplog_def)
next
  case (appended ol payload kp ol' e access)
  from appended(2) obtain ol2 where "refresh_access_state (fst (insert_entry ol e)) [e] = (ol2, access)"
    "ol' = refresh_current_state ol2 (oset_of (ac_keys access @ ve_state_keys e))" by (auto elim!: append_Inr)
  with refresh_index(2)[of "fst (insert_entry ol e)" "[e]"] have "ol_key_entries ol' = ol_key_entries (fst (insert_entry ol e))" by simp
  with index_keys_nonempty[OF appended(4)] appended(4) show ?case by (simp add: insert_entry_def Let_def case_prod_unfold)
next
  case (merged ol blocks)
  from admit_all_nonempty[OF this(2)] show ?case
    by (simp add: merge_entries_def insert_blocks_def Let_def case_prod_unfold)
qed

text \<open>Each capability has one row in the index.\<close>

lemma insert_entry_capabilities:
  "distinct (omap_keys (ol_capabilities ol)) \<Longrightarrow> distinct (omap_keys (ol_capabilities (fst (insert_entry ol e))))"
  by (simp add: insert_entry_def Let_def case_prod_unfold distinct_update)

lemma admit_all_capabilities:
  "distinct (omap_keys (ol_capabilities ol)) \<Longrightarrow> distinct (omap_keys (ol_capabilities (fst (admit_all admit ol hs))))"
  by (induction hs arbitrary: ol) (auto simp: Let_def case_prod_unfold insert_entry_capabilities split: sum.splits)

lemma refresh_capabilities [simp]:
  "ol_capabilities (refresh_current_state ol ks) = ol_capabilities ol"
  "ol_capabilities (fst (refresh_access_state ol added)) = ol_capabilities ol"
proof -
  show "ol_capabilities (refresh_current_state ol ks) = ol_capabilities ol" by (induction ks arbitrary: ol) (simp_all split: option.splits)
  show "ol_capabilities (fst (refresh_access_state ol added)) = ol_capabilities ol"
    by (simp add: refresh_access_state_def refresh_effective_def Let_def case_prod_unfold)
qed

lemma reachable_capabilities: "reachable D ol \<Longrightarrow> distinct (omap_keys (ol_capabilities ol))"
proof (induction rule: reachable.induct)
  case (created chain)
  then show ?case by (simp add: create_oplog_def)
next
  case (appended ol payload kp ol' e access)
  from appended(2) obtain ol2 where "refresh_access_state (fst (insert_entry ol e)) [e] = (ol2, access)"
    "ol' = refresh_current_state ol2 (oset_of (ac_keys access @ ve_state_keys e))" by (auto elim!: append_Inr)
  with refresh_capabilities(2)[of "fst (insert_entry ol e)" "[e]"] insert_entry_capabilities[OF appended(4)] show ?case by simp
next
  case (merged ol blocks)
  then show ?case by (simp add: merge_entries_def insert_blocks_def Let_def case_prod_unfold admit_all_capabilities)
qed

end
