(* ===== verification/Identity_Library.thy ===== *)
theory Identity_Library
  imports Accepted
begin

text \<open>
  The state an identity library records (\<open>src/oplog/identity-library.ts\<close>) and the append of a listen
  (\<open>src/oplog/listens.ts\<close>): the libraries an identity claims, retired by any deletion, its links, pins and
  profile, read off the entries of its oplog.
\<close>

section \<open>State\<close>

record identity_library_fields =
  il_libraries :: "(string, bool \<times> verified_entry) omap"
  il_links :: "(string, string option) omap"
  il_pins :: "string oset"
  il_profile :: "identity_record option"

definition operation_of :: "verified_entry option \<Rightarrow> entry_payload option" where
  "operation_of entry = (case entry of
     None \<Rightarrow> None
   | Some e \<Rightarrow> if is_identity_operation (ve_operation e) then Some (ve_operation e) else None)"

text \<open>\<open>operation.value.type\<close> of an identity operation.\<close>

definition value_type :: "entry_payload \<Rightarrow> identity_record_type option" where
  "value_type operation = (case operation of
     IdentityPut k r \<Rightarrow> Some (identity_record_type_of r)
   | IdentityDel k t ts \<Rightarrow> Some t
   | _ \<Rightarrow> None)"

fun least_entry_from :: "'a hashed_entry_scheme option \<Rightarrow> 'a hashed_entry_scheme list \<Rightarrow> 'a hashed_entry_scheme option" where
  "least_entry_from least [] = least"
| "least_entry_from least (entry # entries) = least_entry_from
     (case least of None \<Rightarrow> Some entry | Some l \<Rightarrow> if compare_current_state entry l > 0 then Some entry else least) entries"

definition least_entry :: "'a hashed_entry_scheme list \<Rightarrow> 'a hashed_entry_scheme option" where
  "least_entry entries = least_entry_from None entries"

text \<open>The loop body: the entries of one state key, its current operation, and what they record.\<close>

definition key_operations :: "oplog \<Rightarrow> string oset \<Rightarrow> verified_entry list" where
  "key_operations ol hashes = List.map_filter (\<lambda>hash. case omap_get (ol_entries ol) hash of
     None \<Rightarrow> None
   | Some e \<Rightarrow> if operation_of (Some e) = None then None else Some e) hashes"

definition recorded_library :: "verified_entry list \<Rightarrow> (string \<times> bool \<times> verified_entry) option" where
  "recorded_library entries =
     (case least_entry (List.filter (\<lambda>e. op_of (ve_operation e) = Some PUT) entries) of
        None \<Rightarrow> None
      | Some first \<Rightarrow> (case ve_operation first of
          IdentityPut k (LibraryRecord t address) \<Rightarrow>
            Some (address, list_ex (\<lambda>e. op_of (ve_operation e) = Some DEL) entries, first)
        | _ \<Rightarrow> None))"

definition record_key_state :: "oplog \<Rightarrow> string \<times> string oset \<Rightarrow> identity_library_fields \<Rightarrow> identity_library_fields" where
  "record_key_state ol row st =
     (let entries = key_operations ol (snd row);
          current = operation_of (omap_get (ol_current ol) (fst row));
          type = (case entries of [] \<Rightarrow> None | e # _ \<Rightarrow> value_type (ve_operation e))
      in if type = Some library_t then
           (case recorded_library entries of
              None \<Rightarrow> st
            | Some (address, x) \<Rightarrow> st\<lparr>il_libraries := omap_set address x (il_libraries st)\<rparr>)
         else if type = Some link_t then
           (case current of
              Some (IdentityPut k (LinkRecord t address alias)) \<Rightarrow> st\<lparr>il_links := omap_set address alias (il_links st)\<rparr>
            | _ \<Rightarrow> st)
         else if type = Some pin_t then
           (case current of
              Some (IdentityPut k (PinRecord t cid)) \<Rightarrow> st\<lparr>il_pins := oset_add cid (il_pins st)\<rparr>
            | _ \<Rightarrow> st)
         else if type = Some profile_t then
           (case current of
              Some (IdentityPut k (ProfileRecord t name bio avatar)) \<Rightarrow> st\<lparr>il_profile := Some (ProfileRecord t name bio avatar)\<rparr>
            | _ \<Rightarrow> st)
         else st)"

definition identity_library_state :: "oplog \<Rightarrow> identity_library_fields" where
  "identity_library_state ol = fold (record_key_state ol) (ol_key_entries ol)
     \<lparr>il_libraries = [], il_links = [], il_pins = [], il_profile = None\<rparr>"

section \<open>Listens\<close>

definition append_listen ::
  "deps \<Rightarrow> oplog \<Rightarrow> string \<Rightarrow> string \<Rightarrow> key_pair \<Rightarrow> nat \<Rightarrow> (oplog \<times> verified_entry) result" where
  "append_listen D ol track_id address kp timestamp =
     (if chain_type (ol_chain ol) \<noteq> listens then Inl invalid_operation
      else and_then (build_listen_payload track_id address timestamp) (\<lambda>payload.
        append_entry D ol (payload_value (ListenPayload payload)) kp))"

section \<open>What the entries of a library satisfy\<close>

text \<open>Every entry held was accepted: its state keys are those of its operation, and an identity record
  is held under its own key.\<close>

definition operations_ok :: "deps \<Rightarrow> oplog \<Rightarrow> bool" where
  "operations_ok D ol = (\<forall>h e. entries_of ol h = Some e \<longrightarrow> ve_state_keys e = state_keys_of (ve_operation e) \<and>
     (chain_type (ol_chain ol) = identity \<longrightarrow> (\<forall>k r. ve_operation e = IdentityPut k r \<longrightarrow> k = identity_record_key D r)))"

lemma validated_identity_put: "validate_identity_operation D p = Inr (IdentityPut k r) \<Longrightarrow> k = identity_record_key D r"
  by (auto simp: validate_identity_operation_def result_simps Let_def split: if_splits option.splits)

lemma reachable_operations: "reachable D ol \<Longrightarrow> inj (multihash_of_digest D) \<Longrightarrow> operations_ok D ol"
  unfolding operations_ok_def
proof (intro allI impI conjI)
  fix h e assume r: "reachable D ol" "inj (multihash_of_digest D)" "entries_of ol h = Some e"
  then show "ve_state_keys e = state_keys_of (ve_operation e)" by (rule reachable_state_keys)
  fix k r assume t: "chain_type (ol_chain ol) = identity" "ve_operation e = IdentityPut k r"
  from reachable_checked[OF r] obtain hashed operation where "check_entry D (ol_chain ol) hashed = Inr operation" "e = as_verified hashed operation" .
  with checked_operation[of D "ol_chain ol"] t have "validate_identity_operation D (e_payload (he_entry hashed)) = Inr (IdentityPut k r)"
    by (simp add: validate_operation_def)
  then show "k = identity_record_key D r" by (rule validated_identity_put)
qed

section \<open>Rows of the index\<close>

lemma set_key_operations:
  assumes "structure_ok D ol" "operations_ok D ol" "distinct (omap_keys (ol_key_entries ol))" "(k, hs) \<in> set (ol_key_entries ol)"
  shows "set (key_operations ol hs) =
    {e. entries_of ol (he_hash e) = Some e \<and> is_identity_operation (ve_operation e) \<and> k \<in> set (state_keys_of (ve_operation e))}"
proof -
  from assms(3,4) have "key_hashes (ol_key_entries ol) k = hs" by (simp add: key_hashes_def)
  with structure_okD(7)[OF assms(1), of k]
  have hs: "set hs = {h. \<exists>e. entries_of ol h = Some e \<and> k \<in> set (ve_state_keys e)}" by simp
  have mem: "h \<in> set hs \<longleftrightarrow> k \<in> set (state_keys_of (ve_operation e))" if "entries_of ol h = Some e" for h e
    using that assms(2) unfolding hs operations_ok_def by auto
  have "e \<in> set (key_operations ol hs) \<longleftrightarrow> (\<exists>h \<in> set hs. entries_of ol h = Some e \<and> is_identity_operation (ve_operation e))" for e
    unfolding key_operations_def set_map_filter_eq by (auto simp: operation_of_def split: option.splits if_splits)
  then show ?thesis using mem structure_okD(5)[OF assms(1)] by blast
qed

text \<open>A state key of an identity record names its type and its key.\<close>

lemma state_key_name_inj: "identity_type_name t @ CHR '':'' # k = identity_type_name t' @ CHR '':'' # k' \<longleftrightarrow> t = t' \<and> k = k'"
  by (cases t; cases t') (auto simp: identity_type_name_def)

definition library_puts :: "oplog \<Rightarrow> string \<Rightarrow> verified_entry set" where
  "library_puts ol address = {e. entries_of ol (he_hash e) = Some e \<and> (\<exists>k t. ve_operation e = IdentityPut k (LibraryRecord t address))}"

definition library_dels :: "deps \<Rightarrow> oplog \<Rightarrow> string \<Rightarrow> verified_entry set" where
  "library_dels D ol address = {e. entries_of ol (he_hash e) = Some e \<and> (\<exists>ts. ve_operation e = IdentityDel (sha256_hex D address) library_t ts)}"

lemma least_entry_from_spec:
  "least_entry_from acc es = Some x \<Longrightarrow> x \<in> set_option acc \<union> set es \<and> (\<forall>e \<in> set_option acc \<union> set es. compare_current_state e x \<le> 0)"
proof (induction es arbitrary: acc)
  case Nil
  then show ?case by (simp add: current_order.cmp_refl)
next
  case (Cons y ys)
  define acc' where "acc' = (case acc of None \<Rightarrow> Some y | Some l \<Rightarrow> if compare_current_state y l > 0 then Some y else acc)"
  from Cons.prems have "least_entry_from acc' ys = Some x" by (simp add: acc'_def)
  from Cons.IH[OF this] have ih: "x \<in> set_option acc' \<union> set ys" "\<forall>e \<in> set_option acc' \<union> set ys. compare_current_state e x \<le> 0" by blast+
  obtain w where w: "acc' = Some w" "w = y \<or> acc = Some w" "compare_current_state y w \<le> 0" "\<forall>l \<in> set_option acc. compare_current_state l w \<le> 0"
  proof (cases acc)
    case None
    then show thesis by (intro that[of y]) (simp_all add: acc'_def current_order.cmp_refl)
  next
    case (Some l)
    show thesis
    proof (cases "compare_current_state y l > 0")
      case True
      then have "compare_current_state l y \<le> 0" using current_order.cmp_antisym[of l y] by simp
      with True Some show thesis by (intro that[of y]) (simp_all add: acc'_def current_order.cmp_refl)
    qed (use Some in \<open>intro that[of l]; simp add: acc'_def current_order.cmp_refl\<close>)
  qed
  from ih(2) w(1) have "compare_current_state w x \<le> 0" by simp
  with w current_order.cmp_trans have "\<forall>e \<in> set_option acc \<union> {y}. compare_current_state e x \<le> 0" by (metis UnE singletonD)
  with ih w show ?case by auto
qed

lemma least_entry_None: "least_entry es = None \<longleftrightarrow> es = []"
proof -
  have "least_entry_from (Some a) xs \<noteq> None" for a and xs :: "'a hashed_entry_scheme list"
    by (induction xs arbitrary: a) simp_all
  then show ?thesis by (cases es) (simp_all add: least_entry_def)
qed

definition recorded_addresses :: "oplog \<Rightarrow> string set" where
  "recorded_addresses ol = {address. library_puts ol address \<noteq> {}}"

definition library_slot :: "deps \<Rightarrow> string \<Rightarrow> string" where
  "library_slot D address = identity_type_name library_t @ '':'' @ sha256_hex D address"

text \<open>What is known of an identity library that was built by appends and merges, and whose recorded
  addresses have different digests.\<close>

definition library_ok :: "deps \<Rightarrow> oplog \<Rightarrow> bool" where
  "library_ok D ol = (structure_ok D ol \<and> operations_ok D ol \<and> distinct (omap_keys (ol_key_entries ol)) \<and>
     chain_type (ol_chain ol) = identity \<and> inj_on (sha256_hex D) (recorded_addresses ol) \<and> inj (multihash_of_digest D))"

lemma library_okD:
  assumes "library_ok D ol"
  shows "structure_ok D ol" "operations_ok D ol" "distinct (omap_keys (ol_key_entries ol))" "chain_type (ol_chain ol) = identity"
    "inj_on (sha256_hex D) (recorded_addresses ol)" "inj (multihash_of_digest D)"
  using assms unfolding library_ok_def by blast+

lemma library_put_key:
  assumes "library_ok D ol" "e \<in> library_puts ol address"
  shows "\<exists>t. ve_operation e = IdentityPut (sha256_hex D address) (LibraryRecord t address)"
  using assms library_okD(2,4)[OF assms(1)] unfolding library_puts_def operations_ok_def by (force simp: identity_record_key_def)

lemma slot_entry:
  assumes "library_ok D ol" "address \<in> recorded_addresses ol" "entries_of ol (he_hash e) = Some e"
    and "is_identity_operation (ve_operation e)" "library_slot D address \<in> set (state_keys_of (ve_operation e))"
  shows "e \<in> library_puts ol address \<or> e \<in> library_dels D ol address"
proof (cases "ve_operation e")
  case (IdentityPut k r)
  with assms(5) have r: "identity_record_type_of r = library_t" "k = sha256_hex D address"
    by (auto simp: state_keys_of_def library_slot_def state_key_name_inj)
  then obtain t a where a: "r = LibraryRecord t a" by (cases r) (simp_all add: identity_record_type_of_def)
  with IdentityPut assms(3) have e: "e \<in> library_puts ol a" by (simp add: library_puts_def)
  with library_put_key[OF assms(1) e] IdentityPut r(2) have "sha256_hex D a = sha256_hex D address" by simp
  with library_okD(5)[OF assms(1)] assms(2) e have "a = address" by (auto simp: recorded_addresses_def inj_on_def)
  with e show ?thesis by simp
next
  case (IdentityDel k t ts)
  with assms(3,5) show ?thesis by (auto simp: library_dels_def state_keys_of_def library_slot_def state_key_name_inj)
qed (use assms(4) in \<open>simp_all add: is_identity_operation_def\<close>)

lemma slot_members:
  assumes "library_ok D ol" "address \<in> recorded_addresses ol" "(library_slot D address, hs) \<in> set (ol_key_entries ol)"
  shows "set (key_operations ol hs) = library_puts ol address \<union> library_dels D ol address"
proof -
  have "e \<in> set (key_operations ol hs)" if "e \<in> library_puts ol address" for e
  proof -
    from library_put_key[OF assms(1) that] obtain t where "ve_operation e = IdentityPut (sha256_hex D address) (LibraryRecord t address)" ..
    with that show ?thesis
      unfolding set_key_operations[OF library_okD(1-3)[OF assms(1)] assms(3)]
      by (simp add: library_puts_def is_identity_operation_def state_keys_of_def library_slot_def identity_record_type_of_def)
  qed
  moreover have "e \<in> set (key_operations ol hs)" if "e \<in> library_dels D ol address" for e
    using that unfolding set_key_operations[OF library_okD(1-3)[OF assms(1)] assms(3)]
    by (auto simp: library_dels_def is_identity_operation_def state_keys_of_def library_slot_def)
  moreover have "e \<in> library_puts ol address \<union> library_dels D ol address" if "e \<in> set (key_operations ol hs)" for e
    using that slot_entry[OF assms(1,2)] unfolding set_key_operations[OF library_okD(1-3)[OF assms(1)] assms(3)] by blast
  ultimately show ?thesis by blast
qed

lemma slot_row:
  assumes "library_ok D ol" "e \<in> library_puts ol address"
  shows "\<exists>hs. (library_slot D address, hs) \<in> set (ol_key_entries ol)"
proof -
  from library_put_key[OF assms] obtain t where "ve_operation e = IdentityPut (sha256_hex D address) (LibraryRecord t address)" ..
  moreover from assms(2) have held: "entries_of ol (he_hash e) = Some e" by (simp add: library_puts_def)
  ultimately have "library_slot D address \<in> set (ve_state_keys e)"
    using library_okD(2)[OF assms(1)] by (auto simp: operations_ok_def state_keys_of_def library_slot_def identity_record_type_of_def)
  with held structure_okD(7)[OF library_okD(1)[OF assms(1)], of "library_slot D address"]
  have "key_hashes (ol_key_entries ol) (library_slot D address) \<noteq> []" by auto
  then show ?thesis by (auto simp: key_hashes_def split: option.splits dest: map_of_SomeD)
qed

section \<open>The libraries recorded\<close>

definition library_row :: "oplog \<Rightarrow> string \<times> string oset \<Rightarrow> (string \<times> bool \<times> verified_entry) option" where
  "library_row ol row =
     (case key_operations ol (snd row) of
        [] \<Rightarrow> None
      | e # es \<Rightarrow> if value_type (ve_operation e) = Some library_t then recorded_library (e # es) else None)"

lemma record_key_libraries:
  "il_libraries (record_key_state ol row st) = (case library_row ol row of None \<Rightarrow> il_libraries st | Some (a, x) \<Rightarrow> omap_set a x (il_libraries st))"
  by (auto simp: record_key_state_def library_row_def Let_def split: list.splits option.splits entry_payload.splits identity_record.splits)

definition is_recorded :: "deps \<Rightarrow> oplog \<Rightarrow> string \<Rightarrow> bool \<times> verified_entry \<Rightarrow> bool" where
  "is_recorded D ol address x = (snd x \<in> library_puts ol address \<and>
     (\<forall>e \<in> library_puts ol address. compare_current_state e (snd x) \<le> 0) \<and> (fst x \<longleftrightarrow> library_dels D ol address \<noteq> {}))"

lemma recorded_library_slot:
  assumes ok: "library_ok D ol" and rec: "address \<in> recorded_addresses ol"
    and row: "(library_slot D address, hs) \<in> set (ol_key_entries ol)"
  shows "\<exists>x. recorded_library (key_operations ol hs) = Some (address, x) \<and> is_recorded D ol address x"
proof -
  let ?es = "key_operations ol hs" and ?puts = "List.filter (\<lambda>e. op_of (ve_operation e) = Some PUT) (key_operations ol hs)"
  note members = slot_members[OF assms]
  have kinds: "op_of (ve_operation e) = Some PUT" if "e \<in> library_puts ol address" for e using that by (auto simp: library_puts_def op_of_def)
  have dels: "op_of (ve_operation e) = Some DEL" if "e \<in> library_dels D ol address" for e using that by (auto simp: library_dels_def op_of_def)
  have puts: "set ?puts = library_puts ol address" using kinds dels by (auto simp: members)
  have "library_puts ol address \<noteq> {}" using rec by (simp add: recorded_addresses_def)
  then have "?puts \<noteq> []" unfolding puts[symmetric] by blast
  then obtain first where first: "least_entry ?puts = Some first" using least_entry_None by blast
  from least_entry_from_spec[OF first[unfolded least_entry_def]] puts
  have f: "first \<in> library_puts ol address" "\<forall>e \<in> library_puts ol address. compare_current_state e first \<le> 0" by auto
  from library_put_key[OF ok f(1)] obtain t where "ve_operation first = IdentityPut (sha256_hex D address) (LibraryRecord t address)" ..
  with first have "recorded_library ?es = Some (address, list_ex (\<lambda>e. op_of (ve_operation e) = Some DEL) ?es, first)"
    by (simp add: recorded_library_def)
  moreover have "list_ex (\<lambda>e. op_of (ve_operation e) = Some DEL) ?es \<longleftrightarrow> library_dels D ol address \<noteq> {}"
    using kinds dels by (auto simp: list_ex_iff members)
  ultimately show ?thesis using f by (auto simp: is_recorded_def)
qed

lemma library_row_slot:
  assumes ok: "library_ok D ol" and row: "(k, hs) \<in> set (ol_key_entries ol)" and some: "library_row ol (k, hs) = Some (address, x)"
  shows "k = library_slot D address" "address \<in> recorded_addresses ol"
proof -
  from some obtain first where first: "snd x = first" "least_entry (List.filter (\<lambda>e. op_of (ve_operation e) = Some PUT) (key_operations ol hs)) = Some first"
    "\<exists>k' t. ve_operation first = IdentityPut k' (LibraryRecord t address)"
    by (auto simp: library_row_def recorded_library_def split: list.splits if_splits option.splits entry_payload.splits identity_record.splits)
  from least_entry_from_spec[OF first(2)[unfolded least_entry_def]] have "first \<in> set (key_operations ol hs)" by simp
  then have f: "entries_of ol (he_hash first) = Some first" "k \<in> set (state_keys_of (ve_operation first))"
    unfolding set_key_operations[OF library_okD(1-3)[OF ok] row] by simp_all
  with first(3) have puts: "first \<in> library_puts ol address" by (auto simp: library_puts_def)
  then show "address \<in> recorded_addresses ol" by (auto simp: recorded_addresses_def)
  from library_put_key[OF ok puts] f(2) show "k = library_slot D address"
    by (auto simp: state_keys_of_def library_slot_def identity_record_type_of_def)
qed

lemma slot_library_row:
  assumes ok: "library_ok D ol" and rec: "address \<in> recorded_addresses ol"
    and row: "(library_slot D address, hs) \<in> set (ol_key_entries ol)"
  shows "\<exists>x. library_row ol (library_slot D address, hs) = Some (address, x) \<and> is_recorded D ol address x"
proof -
  have "value_type (ve_operation e) = Some library_t" if "e \<in> set (key_operations ol hs)" for e
    using that unfolding slot_members[OF assms] by (auto simp: library_puts_def library_dels_def value_type_def identity_record_type_of_def)
  moreover from recorded_library_slot[OF assms] have "key_operations ol hs \<noteq> []" by (auto simp: recorded_library_def least_entry_def)
  ultimately show ?thesis using recorded_library_slot[OF assms] by (cases "key_operations ol hs") (auto simp: library_row_def)
qed

lemma fold_library_rows:
  "il_libraries (fold (record_key_state ol) rows st) = fold (\<lambda>row m. case library_row ol row of None \<Rightarrow> m | Some (a, x) \<Rightarrow> omap_set a x m) rows (il_libraries st)"
  by (induction rows arbitrary: st) (simp_all add: record_key_libraries)

lemma fold_rows_origin:
  "map_of (fold (\<lambda>row m. case f row of None \<Rightarrow> m | Some (a, x) \<Rightarrow> omap_set a x m) rows m) a = Some x \<Longrightarrow>
     map_of m a = Some x \<or> (\<exists>row \<in> set rows. f row = Some (a, x))"
proof (induction rows arbitrary: m)
  case (Cons row rows)
  let ?m = "case f row of None \<Rightarrow> m | Some (a, x) \<Rightarrow> omap_set a x m"
  from Cons.prems have "map_of (fold (\<lambda>row m. case f row of None \<Rightarrow> m | Some (a, x) \<Rightarrow> omap_set a x m) rows ?m) a = Some x" by simp
  from Cons.IH[OF this] have "map_of ?m a = Some x \<or> (\<exists>row \<in> set rows. f row = Some (a, x))" .
  then show ?case by (cases "f row") (auto simp: ordered_simps split: if_splits)
qed simp

lemma fold_rows_has:
  "map_of m a \<noteq> None \<or> (\<exists>row \<in> set rows. \<exists>x. f row = Some (a, x)) \<Longrightarrow>
     map_of (fold (\<lambda>row m. case f row of None \<Rightarrow> m | Some (a, x) \<Rightarrow> omap_set a x m) rows m) a \<noteq> None"
proof (induction rows arbitrary: m)
  case (Cons row rows)
  then have "map_of (case f row of None \<Rightarrow> m | Some (a, x) \<Rightarrow> omap_set a x m) a \<noteq> None \<or> (\<exists>row \<in> set rows. \<exists>x. f row = Some (a, x))"
    by (cases "f row") (auto simp: ordered_simps)
  from Cons.IH[OF this] show ?case by simp
qed simp

lemma recorded_unique:
  assumes ok: "library_ok D ol" and "is_recorded D ol address x" "is_recorded D ol address y"
  shows "x = y"
proof -
  have "inj_on state_key (library_puts ol address)"
    by (rule structure_inj[OF library_okD(1,6)[OF ok]]) (simp add: library_puts_def)
  moreover have "state_key (snd x) = state_key (snd y)"
    using assms(2,3) by (intro current_order.cmp_eq) (simp_all add: is_recorded_def)
  ultimately have "snd x = snd y" using assms(2,3) by (simp add: is_recorded_def inj_on_def)
  with assms(2,3) show ?thesis by (simp add: is_recorded_def prod_eq_iff)
qed

lemma libraries_recorded:
  assumes ok: "library_ok D ol"
  shows "omap_get (il_libraries (identity_library_state ol)) address = Some x \<longleftrightarrow> is_recorded D ol address x"
proof
  let ?libs = "il_libraries (identity_library_state ol)"
  have libs: "?libs = fold (\<lambda>row m. case library_row ol row of None \<Rightarrow> m | Some (a, x) \<Rightarrow> omap_set a x m) (ol_key_entries ol) []"
    by (simp add: identity_library_state_def fold_library_rows)
  show rec: "is_recorded D ol address x" if "omap_get ?libs address = Some x" for x
  proof -
    from fold_rows_origin[OF that[unfolded libs]] obtain k hs where row: "(k, hs) \<in> set (ol_key_entries ol)" "library_row ol (k, hs) = Some (address, x)"
      by (auto split: prod.splits)
    note slot = library_row_slot[OF ok row]
    from slot_library_row[OF ok slot(2) row(1)[unfolded slot(1)]] row(2)[unfolded slot(1)] show ?thesis by auto
  qed
  assume x: "is_recorded D ol address x"
  then have put: "snd x \<in> library_puts ol address" by (simp add: is_recorded_def)
  from slot_row[OF ok put] obtain hs where hs: "(library_slot D address, hs) \<in> set (ol_key_entries ol)" ..
  from put have "address \<in> recorded_addresses ol" by (auto simp: recorded_addresses_def)
  from slot_library_row[OF ok this hs] have "\<exists>row \<in> set (ol_key_entries ol). \<exists>x. library_row ol row = Some (address, x)" using hs by blast
  then have "omap_get ?libs address \<noteq> None" unfolding libs by (intro fold_rows_has) blast
  then obtain y where y: "omap_get ?libs address = Some y" by blast
  with recorded_unique[OF ok x rec[OF y]] show "omap_get ?libs address = Some x" by simp
qed

lemma reachable_library:
  assumes "reachable D ol" "inj (multihash_of_digest D)" "chain_type (ol_chain ol) = identity" "inj_on (sha256_hex D) (recorded_addresses ol)"
  shows "library_ok D ol"
  using assms reachable_ok[OF assms(1,2)] reachable_operations[OF assms(1,2)] reachable_index[OF assms(1)]
  by (simp add: library_ok_def oplog_ok_def)

section \<open>An identity library with one record\<close>

abbreviation claimed_address :: string where
  "claimed_address \<equiv> ''/record/z/music''"

definition claim_chain :: resolved_chain where
  "claim_chain = sample_log_chain\<lparr>chain_type := identity\<rparr>"

definition claim :: entry_payload where
  "claim = IdentityPut (sha256_hex (sample_deps []) claimed_address) (LibraryRecord 5 claimed_address)"

definition claim_deps :: deps where
  "claim_deps = sample_deps [signed_fields (sample_sign claim [] 1 sample_pubkey)]"

definition claim_hashed :: hashed_entry where
  "claim_hashed = hash_signed_entry claim_deps (sample_sign claim [] 1 sample_pubkey)"

definition claim_log :: oplog where
  "claim_log = fst (merge_entries claim_deps (create_oplog claim_chain) [he_bytes claim_hashed])"

lemma sample_sha256: "sha256_hex (sample_deps table) address = sha256_hex (sample_deps []) address"
  by (simp add: sha256_hex_def sample_deps_def)

lemma sample_sha256_length: "length (sha256_hex (sample_deps table) address) \<le> 32"
  by (simp add: sha256_hex_def sample_deps_def)

lemma claim_fits: "length (sample_encode (signed_fields (sample_sign claim [] 1 sample_pubkey))) \<le> SIGNED_ENTRY_MAX_BYTES"
  using sample_sha256_length[of "[]" claimed_address]
  by (simp add: sample_size_defs claim_def identity_value_def identity_record_type_of_def identity_type_name_def) (simp add: sample_deps_def)

lemma claimed_address_ok: "is_library_address (sample_deps table) (JStr claimed_address)"
proof -
  have "claimed_address = build_library_address ''z'' ''music''" by (simp add: build_library_address_def ADDRESS_PREFIX_def)
  then have "parse_library_address (sample_deps table) claimed_address = Inr (''z'', ''music'')"
    unfolding parse_library_address_Inr_iff by (simp add: sample_deps_def)
  then show ?thesis by (simp add: is_library_address_def)
qed

lemma claim_decodes: "decode_signed_entry claim_deps (he_bytes claim_hashed) = Inr claim_hashed"
proof -
  have "he_bytes claim_hashed = sample_encode (signed_fields (sample_sign claim [] 1 sample_pubkey))"
    by (simp add: claim_hashed_def claim_deps_def)
  then show ?thesis unfolding claim_deps_def claim_hashed_def
    by (simp only:) (rule sample_decoded_block[OF _ _ _ claim_fits], simp_all add: pointers_ok_def MAX_SAFE_INTEGER_def)
qed

lemma claim_check: "check_entry claim_deps claim_chain claim_hashed = Inr claim"
proof -
  let ?e = "sample_sign claim [] 1 sample_pubkey"
  have "signed_ok ?e" by (simp add: signed_ok_def unsigned_ok_def pointers_ok_def MAX_SAFE_INTEGER_def)
  moreover have "payload_ok claim_deps identity claim"
    by (simp add: payload_ok_def claim_def claim_deps_def identity_ok_def identity_record_key_def sample_sha256[of "_ # _"] claimed_address_ok
        MAX_SAFE_INTEGER_def)
  ultimately show ?thesis
    using sample_sign_verifies[of sample_pubkey "[signed_fields ?e]" claim "[]" 1] claim_fits
      validate_operation_payload_value[of claim_deps identity claim]
    by (simp add: check_entry_def assert_signed_entry_size_def assert_max_def claim_hashed_def claim_deps_def claim_chain_def sample_log_chain_def)
qed

lemma claim_log_facts:
  "entries_of claim_log = [he_hash claim_hashed \<mapsto> as_verified claim_hashed claim]" "ol_chain claim_log = claim_chain"
  "reachable claim_deps claim_log" "inj (multihash_of_digest claim_deps)" "chain_type (ol_chain claim_log) = identity"
proof -
  show "entries_of claim_log = [he_hash claim_hashed \<mapsto> as_verified claim_hashed claim]" and c: "ol_chain claim_log = claim_chain"
    unfolding claim_log_def
    by (rule merge_first_block(2,3)[OF claim_decodes claim_check]; simp add: claim_hashed_def claim_chain_def sample_log_chain_def)+
  show "reachable claim_deps claim_log" unfolding claim_log_def by (rule reachable.merged[OF reachable.created])
  show "inj (multihash_of_digest claim_deps)" by (simp add: claim_deps_def sample_deps_def inj_def)
  show "chain_type (ol_chain claim_log) = identity" unfolding c by (simp add: claim_chain_def)
qed

lemma claim_log_held: "entries_of claim_log (he_hash e) = Some e \<longleftrightarrow> e = as_verified claim_hashed claim"
  unfolding claim_log_facts(1) by (auto split: if_splits)

lemma claim_log_puts: "library_puts claim_log address = (if address = claimed_address then {as_verified claim_hashed claim} else {})"
  by (auto simp: library_puts_def claim_log_held claim_def)

lemma claim_log_dels: "library_dels claim_deps claim_log address = {}"
  by (simp add: library_dels_def claim_log_held claim_def)

lemma claim_log_addresses: "inj_on (sha256_hex claim_deps) (recorded_addresses claim_log)"
  by (simp add: recorded_addresses_def claim_log_puts inj_on_def)

section \<open>Properties\<close>

text \<open>C30: An identity library records exactly the libraries it holds a record for, and retirement is permanent: the
  recorded state of an address is whether any deletion of it is held and its record that comes last in
  current-state order; in any later or larger replica of the library the address is still recorded, still retired
  if it was, and its record is the same or an older one. Recorded addresses have different digests.\<close>

theorem identity_libraries:
  assumes "reachable D ol" "inj (multihash_of_digest D)" "chain_type (ol_chain ol) = identity" "inj_on (sha256_hex D) (recorded_addresses ol)"
    and "reachable D ol'" "ol_chain ol' = ol_chain ol" "entries_of ol \<subseteq>\<^sub>m entries_of ol'" "inj_on (sha256_hex D) (recorded_addresses ol')"
  shows "(omap_get (il_libraries (identity_library_state ol)) address = Some x \<longleftrightarrow> is_recorded D ol address x) \<and>
    (case omap_get (il_libraries (identity_library_state ol)) address of
       None \<Rightarrow> library_puts ol address = {}
     | Some (retired, first) \<Rightarrow> \<exists>retired' first'. omap_get (il_libraries (identity_library_state ol')) address = Some (retired', first') \<and>
         (retired \<longrightarrow> retired') \<and> compare_current_state first first' \<le> 0)"
proof -
  note ok = reachable_library[OF assms(1-4)] reachable_library[OF assms(5,2) _ assms(8), unfolded assms(6), OF assms(3)]
  have exact: "omap_get (il_libraries (identity_library_state s)) address = Some y \<longleftrightarrow> is_recorded D s address y" if "library_ok D s" for s y
    by (rule libraries_recorded[OF that])
  have grow: "library_puts ol address \<subseteq> library_puts ol' address" "library_dels D ol address \<subseteq> library_dels D ol' address"
    using assms(7) unfolding library_puts_def library_dels_def map_le_def by (auto simp: dom_def)
  have present: "\<exists>y. is_recorded D s address y" if "library_ok D s" "library_puts s address \<noteq> {}" for s
  proof -
    from that(2) obtain e where "e \<in> library_puts s address" by blast
    from slot_row[OF that(1) this] slot_library_row[OF that(1), of address] that(2) show ?thesis unfolding recorded_addresses_def by blast
  qed
  show ?thesis
  proof (cases "omap_get (il_libraries (identity_library_state ol)) address")
    case None
    then show ?thesis using exact[OF ok(1)] present[OF ok(1)] by fastforce
  next
    case (Some y)
    then have y: "is_recorded D ol address y" using exact[OF ok(1)] by blast
    then have "snd y \<in> library_puts ol' address" using grow by (auto simp: is_recorded_def)
    then obtain z where z: "is_recorded D ol' address z" using present[OF ok(2)] by blast
    then have "omap_get (il_libraries (identity_library_state ol')) address = Some z" using exact[OF ok(2)] by blast
    moreover have "fst y \<longrightarrow> fst z" "compare_current_state (snd y) (snd z) \<le> 0"
      using y z grow by (auto simp: is_recorded_def)
    ultimately show ?thesis using Some exact[OF ok(1), of x] by (cases y; cases z) auto
  qed
qed

theorem identity_libraries_witness:
  "omap_get (il_libraries (identity_library_state claim_log)) claimed_address = Some (False, as_verified claim_hashed claim)"
proof -
  have "is_recorded claim_deps claim_log claimed_address (False, as_verified claim_hashed claim)"
    by (simp add: is_recorded_def claim_log_puts claim_log_dels current_order.cmp_refl)
  with identity_libraries[OF claim_log_facts(3,4,5) claim_log_addresses claim_log_facts(3) refl map_le_refl claim_log_addresses]
  show ?thesis by blast
qed

end
