(* ===== verification/Announcement.thy ===== *)
theory Announcement
  imports Messages Dag
begin

text \<open>
  Library announcements on the RECORD topic (\<open>src/replication/announcement.ts\<close> and the receiving side of
  \<open>src/peer/announcements.ts\<close>): the announcer, which answers peers that join at most once per interval
  each, the checks of announced libraries and profiles, and what a peer keeps of them. A timer of no
  delay is the flag that it is pending; \<open>ar_flushed\<close> records when an announcement went out and for whom.
\<close>

section \<open>Announcer\<close>

record announcer =
  ar_last_announced :: "(string, int) omap"
  ar_joined :: "string oset"
  ar_scheduled :: bool
  ar_flushed :: "(int \<times> string list) list"
  ar_published :: nat

definition create_announcer :: announcer where
  "create_announcer = \<lparr>ar_last_announced = [], ar_joined = [], ar_scheduled = False, ar_flushed = [], ar_published = 0\<rparr>"

definition publish :: "announcer \<Rightarrow> announcer" where
  "publish a = a\<lparr>ar_published := Suc (ar_published a)\<rparr>"

definition flush_announcer :: "int \<Rightarrow> announcer \<Rightarrow> announcer" where
  "flush_announcer now a =
     (let targets = ar_joined a
      in publish (a\<lparr>ar_scheduled := False, ar_joined := [],
           ar_last_announced := fold (\<lambda>peer_id. omap_set peer_id now) targets (ar_last_announced a),
           ar_flushed := ar_flushed a @ [(now, targets)]\<rparr>))"

definition peer_joined :: "int \<Rightarrow> int \<Rightarrow> string \<Rightarrow> announcer \<Rightarrow> announcer" where
  "peer_joined interval_ms now peer_id a =
     (if (case omap_get (ar_last_announced a) peer_id of None \<Rightarrow> False | Some t \<Rightarrow> now - t < interval_ms) then a
      else a\<lparr>ar_joined := oset_add peer_id (ar_joined a), ar_scheduled := True\<rparr>)"

definition stop_announcer :: "announcer \<Rightarrow> announcer" where
  "stop_announcer a = a\<lparr>ar_scheduled := False\<rparr>"

inductive announcer_run :: "int \<Rightarrow> int \<Rightarrow> announcer \<Rightarrow> bool" for interval_ms where
  created: "announcer_run interval_ms now create_announcer"
| later: "announcer_run interval_ms now a \<Longrightarrow> now \<le> now' \<Longrightarrow> announcer_run interval_ms now' a"
| self: "announcer_run interval_ms now a \<Longrightarrow> announcer_run interval_ms now (publish a)"
| joined: "announcer_run interval_ms now a \<Longrightarrow> announcer_run interval_ms now (peer_joined interval_ms now peer_id a)"
| flushed: "announcer_run interval_ms now a \<Longrightarrow> ar_scheduled a \<Longrightarrow> announcer_run interval_ms now (flush_announcer now a)"
| stopped: "announcer_run interval_ms now a \<Longrightarrow> announcer_run interval_ms now (stop_announcer a)"

section \<open>Verification\<close>

definition verify_announced_entry :: "deps \<Rightarrow> jsval \<Rightarrow> hashed_entry option" where
  "verify_announced_entry D v = (case assert_signed_entry_shape v of
     Inl _ \<Rightarrow> None
   | Inr e \<Rightarrow> let hashed = hash_signed_entry D e in if verify_entry_signature D (he_entry hashed) then Some hashed else None)"

record verified_library =
  vl_chain :: resolved_chain
  vl_about :: "(hashed_entry \<times> about_record) option"

text \<open>\<open>None\<close> where the chain does not resolve.\<close>

definition verify_announced_library ::
  "deps \<Rightarrow> ('s \<Rightarrow> string \<Rightarrow> bytes option result) \<Rightarrow> 's \<Rightarrow> announced_library \<Rightarrow> verified_library option" where
  "verify_announced_library D get_block store announced =
     (case resolve_ac_chain D get_block (al_address announced) store of
       Inl _ \<Rightarrow> None
     | Inr chain \<Rightarrow> Some \<lparr>vl_chain = chain, vl_about =
         (case (case al_about announced of None \<Rightarrow> None | Some about \<Rightarrow> verify_announced_entry D about) of
           None \<Rightarrow> None
         | Some hashed \<Rightarrow>
             if e_id (he_entry hashed) \<noteq> al_address announced \<or> e_key (he_entry hashed) \<notin> set (chain_write_list chain) then None
             else case check_entry D chain hashed of
               Inl _ \<Rightarrow> None
             | Inr operation \<Rightarrow> (case operation of
                 AboutPut key record _ \<Rightarrow> if key = ABOUT_KEY D then Some (hashed, record) else None
               | _ \<Rightarrow> None))\<rparr>)"

record verified_profile =
  vp_hashed :: hashed_entry
  vp_record :: identity_record

definition verify_announced_profile :: "deps \<Rightarrow> jsval \<Rightarrow> verified_profile option" where
  "verify_announced_profile D v = (case verify_announced_entry D v of
     None \<Rightarrow> None
   | Some hashed \<Rightarrow>
       if e_id (he_entry hashed) \<noteq> identity_library_address D (e_key (he_entry hashed)) then None
       else case validate_operation D (e_payload (he_entry hashed)) identity True of
         Inl _ \<Rightarrow> None
       | Inr operation \<Rightarrow> (case operation of
           IdentityPut key record \<Rightarrow>
             if key = PROFILE_KEY D \<and> identity_record_type_of record = profile_t then Some \<lparr>vp_hashed = hashed, vp_record = record\<rparr> else None
         | _ \<Rightarrow> None))"

section \<open>What a peer keeps\<close>

text \<open>Each announcement makes a record of its own, which its verification goes on to fill even after a later
  announcement of the peer took its place or the peer left; a record is known by its number. The
  verification of an announcement awaits one hint at a time, and \<open>verify_job\<close> is what it has left.\<close>

record announced_by =
  ab_hints :: "announced_library list"
  ab_verified :: "string oset"

record verify_job =
  vj_hints :: "announced_library list"
  vj_owners :: "string oset"
  vj_profiles :: "jsval list"

record announced_state =
  as_profiles :: "(string, verified_profile) omap"
  as_owners :: "(string, string) omap"
  as_announced :: "(string, nat) omap"
  as_records :: "announced_by list"
  as_jobs :: "(nat, verify_job) omap"

definition create_announced_state :: announced_state where
  "create_announced_state = \<lparr>as_profiles = [], as_owners = [], as_announced = [], as_records = [], as_jobs = []\<rparr>"

definition announced_by_peer :: "string \<Rightarrow> announced_state \<Rightarrow> announced_by option" where
  "announced_by_peer peer_id st = map_option (\<lambda>n. as_records st ! n) (omap_get (as_announced st) peer_id)"

text \<open>\<open>own_key\<close> is the identity's key, when there is an identity.\<close>

definition keep_profile :: "string option \<Rightarrow> verified_profile \<Rightarrow> announced_state \<Rightarrow> announced_state" where
  "keep_profile own_key profile st = (let key = e_key (he_entry (vp_hashed profile)) in
     if Some key = own_key then st
     else case omap_get (as_profiles st) key of
       Some kept \<Rightarrow> if compare_current_state (vp_hashed profile) (vp_hashed kept) \<ge> 0 then st
         else st\<lparr>as_profiles := omap_set key profile (as_profiles st)\<rparr>
     | None \<Rightarrow> st\<lparr>as_profiles := omap_set key profile (as_profiles st)\<rparr>)"

text \<open>One hint of \<open>verify\<close>, once its chain has resolved or failed against what the store and the network served:
  the owners named so far and the state.\<close>

definition verify_hint ::
  "deps \<Rightarrow> ('s \<Rightarrow> string \<Rightarrow> bytes option result) \<Rightarrow> 's \<Rightarrow> nat \<Rightarrow> announced_library \<Rightarrow> string oset \<Rightarrow> announced_state \<Rightarrow> string oset \<times> announced_state" where
  "verify_hint D get_block store n hint owners st =
     (case verify_announced_library D get_block store hint of
       None \<Rightarrow> (owners, st)
     | Some library \<Rightarrow>
         let r = as_records st ! n;
             st1 = st\<lparr>as_records := (as_records st)[n := r\<lparr>ab_verified := oset_add (al_address hint) (ab_verified r)\<rparr>]\<rparr>
         in case chain_write_list (vl_chain library) of
              [owner] \<Rightarrow> (oset_add owner owners, st1\<lparr>as_owners := omap_set (al_address hint) owner (as_owners st1)\<rparr>)
            | _ \<Rightarrow> (owners, st1))"

definition verify_profile :: "deps \<Rightarrow> string option \<Rightarrow> string oset \<Rightarrow> jsval \<Rightarrow> announced_state \<Rightarrow> announced_state" where
  "verify_profile D own_key owners v st = (case verify_announced_profile D v of
     None \<Rightarrow> st
   | Some profile \<Rightarrow> if e_key (he_entry (vp_hashed profile)) \<in> set owners then keep_profile own_key profile st else st)"

text \<open>\<open>verify\<close> up to its next await: the next hint, or with none left the profiles and the end.\<close>

definition verify_on :: "deps \<Rightarrow> string option \<Rightarrow> nat \<Rightarrow> verify_job \<Rightarrow> announced_state \<Rightarrow> announced_state" where
  "verify_on D own_key n job st =
     (if vj_hints job = [] then (fold (verify_profile D own_key (vj_owners job)) (vj_profiles job) st)\<lparr>as_jobs := omap_delete n (as_jobs st)\<rparr>
      else st\<lparr>as_jobs := omap_set n job (as_jobs st)\<rparr>)"

definition receive_announcement :: "text_lib \<Rightarrow> deps \<Rightarrow> string option \<Rightarrow> string \<Rightarrow> bytes \<Rightarrow> announced_state \<Rightarrow> announced_state" where
  "receive_announcement T D own_key from_peer data st = (case decode_announcement T D data of
     None \<Rightarrow> st
   | Some message \<Rightarrow>
       let n = length (as_records st)
       in verify_on D own_key n \<lparr>vj_hints = an_libraries message, vj_owners = [], vj_profiles = an_profiles message\<rparr>
            (st\<lparr>as_records := as_records st @ [\<lparr>ab_hints = an_libraries message, ab_verified = []\<rparr>],
               as_announced := omap_set from_peer n (as_announced st)\<rparr>))"

definition verify_next ::
  "deps \<Rightarrow> ('s \<Rightarrow> string \<Rightarrow> bytes option result) \<Rightarrow> 's \<Rightarrow> string option \<Rightarrow> nat \<Rightarrow> announced_state \<Rightarrow> announced_state" where
  "verify_next D get_block store own_key n st = (case omap_get (as_jobs st) n of
     None \<Rightarrow> st
   | Some job \<Rightarrow> (case vj_hints job of
       [] \<Rightarrow> st
     | hint # rest \<Rightarrow>
         let (owners, st1) = verify_hint D get_block store n hint (vj_owners job) st
         in verify_on D own_key n (job\<lparr>vj_hints := rest, vj_owners := owners\<rparr>) st1))"

text \<open>A fetch that throws anything but a protocol error ends the verification, and \<open>receive\<close> drops the error.\<close>

definition verify_aborted :: "nat \<Rightarrow> announced_state \<Rightarrow> announced_state" where
  "verify_aborted n st = st\<lparr>as_jobs := omap_delete n (as_jobs st)\<rparr>"

definition peer_left :: "string \<Rightarrow> announced_state \<Rightarrow> announced_state" where
  "peer_left peer_id st = st\<lparr>as_announced := omap_delete peer_id (as_announced st)\<rparr>"

text \<open>Announcements of any peers, verified side by side: between two hints of one, anything else may happen,
  and each hint meets what the stores and the network hold by then. The fetches of one chain are one step.\<close>

inductive announcements_run ::
  "text_lib \<Rightarrow> deps \<Rightarrow> ('s \<Rightarrow> string \<Rightarrow> bytes option result) \<Rightarrow> string option \<Rightarrow> announced_state \<Rightarrow> bool" for T D get_block own_key where
  created: "announcements_run T D get_block own_key create_announced_state"
| received: "announcements_run T D get_block own_key st \<Longrightarrow>
    announcements_run T D get_block own_key (receive_announcement T D own_key from_peer data st)"
| verified: "announcements_run T D get_block own_key st \<Longrightarrow>
    announcements_run T D get_block own_key (verify_next D get_block store own_key n st)"
| aborted: "announcements_run T D get_block own_key st \<Longrightarrow> announcements_run T D get_block own_key (verify_aborted n st)"
| left: "announcements_run T D get_block own_key st \<Longrightarrow> announcements_run T D get_block own_key (peer_left peer_id st)"

section \<open>Trust\<close>

definition owner_of :: "deps \<Rightarrow> ('s \<Rightarrow> string \<Rightarrow> bytes option result) \<Rightarrow> string \<Rightarrow> string \<Rightarrow> bool" where
  "owner_of D get_block address owner \<longleftrightarrow> (\<exists>store chain. resolve_ac_chain D get_block address store = Inr chain \<and> chain_write_list chain = [owner])"

definition profile_trusted :: "deps \<Rightarrow> ('s \<Rightarrow> string \<Rightarrow> bytes option result) \<Rightarrow> string option \<Rightarrow> string \<Rightarrow> verified_profile \<Rightarrow> bool" where
  "profile_trusted D get_block own_key key p \<longleftrightarrow> Some key \<noteq> own_key \<and> (\<exists>address. owner_of D get_block address key) \<and>
     (let e = he_entry (vp_hashed p) in e_key e = key \<and> verify_entry_signature D e \<and> e_id e = identity_library_address D key \<and>
        validate_operation D (e_payload e) identity True = Inr (IdentityPut (PROFILE_KEY D) (vp_record p)) \<and>
        identity_record_type_of (vp_record p) = profile_t)"

definition record_ok :: "deps \<Rightarrow> ('s \<Rightarrow> string \<Rightarrow> bytes option result) \<Rightarrow> announced_by \<Rightarrow> bool" where
  "record_ok D get_block r \<longleftrightarrow> (\<forall>address \<in> set (ab_verified r). address \<in> al_address ` set (ab_hints r) \<and>
     (\<exists>store chain. resolve_ac_chain D get_block address store = Inr chain))"

definition verifying_ok :: "deps \<Rightarrow> ('s \<Rightarrow> string \<Rightarrow> bytes option result) \<Rightarrow> announced_by list \<Rightarrow> nat \<Rightarrow> verify_job \<Rightarrow> bool" where
  "verifying_ok D get_block records n job \<longleftrightarrow> n < length records \<and> set (vj_hints job) \<subseteq> set (ab_hints (records ! n)) \<and>
     (\<forall>owner \<in> set (vj_owners job). \<exists>address. owner_of D get_block address owner)"

definition announced_ok :: "deps \<Rightarrow> ('s \<Rightarrow> string \<Rightarrow> bytes option result) \<Rightarrow> string option \<Rightarrow> announced_state \<Rightarrow> bool" where
  "announced_ok D get_block own_key st \<longleftrightarrow>
     (\<forall>key p. omap_get (as_profiles st) key = Some p \<longrightarrow> profile_trusted D get_block own_key key p) \<and>
     (\<forall>address owner. omap_get (as_owners st) address = Some owner \<longrightarrow> owner_of D get_block address owner) \<and>
     (\<forall>r \<in> set (as_records st). record_ok D get_block r) \<and>
     (\<forall>n job. omap_get (as_jobs st) n = Some job \<longrightarrow> verifying_ok D get_block (as_records st) n job) \<and>
     (\<forall>peer n. omap_get (as_announced st) peer = Some n \<longrightarrow> n < length (as_records st))"

lemma verify_announced_entry_Some:
  "verify_announced_entry D v = Some hashed \<Longrightarrow> verify_entry_signature D (he_entry hashed)"
  by (auto simp: verify_announced_entry_def Let_def split: sum.splits if_splits)

lemma verify_announced_profile_Some:
  assumes "verify_announced_profile D v = Some p"
  defines "e \<equiv> he_entry (vp_hashed p)"
  shows "verify_entry_signature D e \<and> e_id e = identity_library_address D (e_key e) \<and>
    validate_operation D (e_payload e) identity True = Inr (IdentityPut (PROFILE_KEY D) (vp_record p)) \<and>
    identity_record_type_of (vp_record p) = profile_t"
  using assms(1) unfolding e_def
  by (auto simp: verify_announced_profile_def split: option.splits if_splits sum.splits entry_payload.splits dest: verify_announced_entry_Some)

lemma keep_profile_ok:
  assumes "announced_ok D get_block own_key st" "Some (e_key (he_entry (vp_hashed p))) \<noteq> own_key \<longrightarrow> profile_trusted D get_block own_key (e_key (he_entry (vp_hashed p))) p"
  shows "announced_ok D get_block own_key (keep_profile own_key p st)"
  using assms by (auto simp: announced_ok_def keep_profile_def Let_def ordered_simps split: option.splits)

lemma verify_announced_library_Some:
  "verify_announced_library D get_block store hint = Some library \<Longrightarrow> resolve_ac_chain D get_block (al_address hint) store = Inr (vl_chain library)"
  by (auto simp: verify_announced_library_def split: sum.splits)

lemma verifying_ok_update:
  "verifying_ok D get_block records m job \<Longrightarrow> ab_hints r = ab_hints (records ! n) \<Longrightarrow> verifying_ok D get_block (records[n := r]) m job"
  by (cases "m = n") (simp_all add: verifying_ok_def)

lemma verify_hint_ok:
  assumes "announced_ok D get_block own_key st" "verifying_ok D get_block (as_records st) n job" "hint \<in> set (vj_hints job)"
    and "verify_hint D get_block store n hint (vj_owners job) st = (owners, st')"
  shows "announced_ok D get_block own_key st' \<and> verifying_ok D get_block (as_records st') n (job\<lparr>vj_owners := owners\<rparr>)"
proof (cases "verify_announced_library D get_block store hint")
  case None
  then show ?thesis using assms by (auto simp: verify_hint_def verifying_ok_def)
next
  case (Some library)
  note resolved = verify_announced_library_Some[OF Some]
  let ?r = "as_records st ! n"
  let ?r' = "?r\<lparr>ab_verified := oset_add (al_address hint) (ab_verified ?r)\<rparr>"
  have n: "n < length (as_records st)" "set (vj_hints job) \<subseteq> set (ab_hints ?r)" using assms(2) by (simp_all add: verifying_ok_def)
  then have "record_ok D get_block ?r" using assms(1) by (simp add: announced_ok_def)
  with resolved n(2) assms(3) have "record_ok D get_block ?r'" by (auto simp: record_ok_def)
  then have st1: "announced_ok D get_block own_key (st\<lparr>as_records := (as_records st)[n := ?r']\<rparr>)"
    using assms(1) verifying_ok_update[of D get_block "as_records st" _ _ ?r' n] by (auto simp: announced_ok_def dest!: set_update_subset_insert[THEN subsetD])
  have job1: "verifying_ok D get_block ((as_records st)[n := ?r']) n job" using verifying_ok_update[OF assms(2), of ?r' n] by simp
  show ?thesis
  proof (cases "\<exists>owner. chain_write_list (vl_chain library) = [owner]")
    case True
    then obtain owner where w: "chain_write_list (vl_chain library) = [owner]" ..
    with resolved have owner: "owner_of D get_block (al_address hint) owner" unfolding owner_of_def by blast
    have new: "owners = oset_add owner (vj_owners job)"
      "st' = st\<lparr>as_records := (as_records st)[n := ?r'], as_owners := omap_set (al_address hint) owner (as_owners st)\<rparr>"
      using assms(4) w Some by (simp_all add: verify_hint_def Let_def)
    have "verifying_ok D get_block (as_records st') n (job\<lparr>vj_owners := owners\<rparr>)"
      using job1 owner unfolding verifying_ok_def new by auto
    moreover have "announced_ok D get_block own_key st'" using st1 owner unfolding announced_ok_def new by (simp add: ordered_simps)
    ultimately show ?thesis by simp
  next
    case False
    with st1 job1 assms(4) Some show ?thesis by (auto simp: verify_hint_def Let_def split: list.splits)
  qed
qed

lemma verify_profiles_ok:
  assumes "announced_ok D get_block own_key st" "\<forall>owner \<in> set owners. \<exists>address. owner_of D get_block address owner"
  shows "announced_ok D get_block own_key (fold (verify_profile D own_key owners) vs st)"
  using assms(1)
proof (induction vs arbitrary: st)
  case (Cons v vs)
  have "announced_ok D get_block own_key (verify_profile D own_key owners v st)"
  proof (cases "verify_announced_profile D v")
    case (Some p)
    from verify_announced_profile_Some[OF Some] assms(2) Cons.prems show ?thesis unfolding verify_profile_def Some option.case
      by (auto intro!: keep_profile_ok simp: profile_trusted_def Let_def)
  qed (simp add: verify_profile_def Cons.prems)
  then show ?case using Cons.IH by simp
qed simp

lemma verify_profile_keeps:
  "as_records (fold (verify_profile D own_key owners) vs st) = as_records st" "as_announced (fold (verify_profile D own_key owners) vs st) = as_announced st"
proof -
  have "as_records (verify_profile D own_key owners v st) = as_records st \<and> as_announced (verify_profile D own_key owners v st) = as_announced st" for v st
    by (simp add: verify_profile_def keep_profile_def Let_def split: option.splits)
  then show "as_records (fold (verify_profile D own_key owners) vs st) = as_records st" "as_announced (fold (verify_profile D own_key owners) vs st) = as_announced st"
    by (induction vs arbitrary: st) simp_all
qed

lemma verify_on_ok:
  assumes "announced_ok D get_block own_key st" "verifying_ok D get_block (as_records st) n job"
  shows "announced_ok D get_block own_key (verify_on D own_key n job st)"
proof (cases "vj_hints job = []")
  case True
  have "announced_ok D get_block own_key (fold (verify_profile D own_key (vj_owners job)) (vj_profiles job) st)"
    by (rule verify_profiles_ok[OF assms(1)]) (use assms(2) in \<open>simp add: verifying_ok_def\<close>)
  then show ?thesis using assms(1) True by (simp add: verify_on_def announced_ok_def verify_profile_keeps ordered_simps)
next
  case False
  then show ?thesis using assms by (simp add: verify_on_def announced_ok_def ordered_simps)
qed

lemma announcements_run_ok: "announcements_run T D get_block own_key st \<Longrightarrow> announced_ok D get_block own_key st"
proof (induction rule: announcements_run.induct)
  case created
  show ?case by (simp add: announced_ok_def create_announced_state_def)
next
  case (received st from_peer data)
  show ?case
  proof (cases "decode_announcement T D data")
    case (Some message)
    have "announced_ok D get_block own_key (st\<lparr>as_records := as_records st @ [\<lparr>ab_hints = an_libraries message, ab_verified = []\<rparr>],
        as_announced := omap_set from_peer (length (as_records st)) (as_announced st)\<rparr>)"
      using received(2) by (auto simp: announced_ok_def record_ok_def verifying_ok_def nth_append ordered_simps less_Suc_eq split: if_splits)
    then show ?thesis unfolding receive_announcement_def Some option.case Let_def
      by (rule verify_on_ok) (simp add: verifying_ok_def)
  qed (simp add: receive_announcement_def received)
next
  case (verified st store n)
  show ?case
  proof (cases "omap_get (as_jobs st) n")
    case (Some job)
    show ?thesis
    proof (cases "vj_hints job")
      case (Cons hint rest)
      obtain owners st1 where step: "verify_hint D get_block store n hint (vj_owners job) st = (owners, st1)" by fastforce
      have "verifying_ok D get_block (as_records st) n job" using verified(2) Some by (simp add: announced_ok_def)
      from verify_hint_ok[OF verified(2) this _ step] Cons
      have "announced_ok D get_block own_key st1" "verifying_ok D get_block (as_records st1) n (job\<lparr>vj_owners := owners\<rparr>)" by simp_all
      then have "announced_ok D get_block own_key (verify_on D own_key n (job\<lparr>vj_hints := rest, vj_owners := owners\<rparr>) st1)"
        by (intro verify_on_ok) (auto simp: verifying_ok_def Cons)
      then show ?thesis by (simp add: verify_next_def Some Cons step)
    qed (simp add: verify_next_def Some verified)
  qed (simp add: verify_next_def verified)
next
  case (aborted st n)
  then show ?case by (simp add: verify_aborted_def announced_ok_def ordered_simps)
next
  case (left st peer_id)
  then show ?case by (simp add: peer_left_def announced_ok_def ordered_simps)
qed

section \<open>Rate\<close>

text \<open>The times at which an announcement went out for a peer.\<close>

definition announced_at :: "string \<Rightarrow> announcer \<Rightarrow> int list" where
  "announced_at peer_id a = map fst (List.filter (\<lambda>(_, targets). peer_id \<in> set targets) (ar_flushed a))"

definition announcer_ok :: "int \<Rightarrow> int \<Rightarrow> announcer \<Rightarrow> bool" where
  "announcer_ok interval_ms now a \<longleftrightarrow> (\<forall>peer_id. sorted_wrt (\<lambda>s t. s + interval_ms \<le> t) (announced_at peer_id a) \<and>
     (\<forall>t \<in> set (announced_at peer_id a). \<exists>u. omap_get (ar_last_announced a) peer_id = Some u \<and> t \<le> u \<and> u \<le> now) \<and>
     (peer_id \<in> set (ar_joined a) \<longrightarrow> (\<forall>u. omap_get (ar_last_announced a) peer_id = Some u \<longrightarrow> u + interval_ms \<le> now)))"

lemma fold_set_get: "omap_get (fold (\<lambda>k. omap_set k v) ks m) k = (if k \<in> set ks then Some v else omap_get m k)"
  by (induction ks arbitrary: m) (simp_all add: ordered_simps)

lemma announcer_run_ok: "announcer_run interval_ms now a \<Longrightarrow> announcer_ok interval_ms now a"
proof (induction rule: announcer_run.induct)
  case (created now)
  show ?case by (simp add: announcer_ok_def create_announcer_def announced_at_def)
next
  case (later now a now')
  then show ?case by (fastforce simp: announcer_ok_def)
next
  case (self now a)
  then show ?case by (simp add: announcer_ok_def publish_def announced_at_def)
next
  case (joined now a peer_id)
  then show ?case by (auto simp: announcer_ok_def peer_joined_def announced_at_def split: option.splits)
next
  case (flushed now a)
  have "sorted_wrt (\<lambda>s t. s + interval_ms \<le> t) (announced_at p (flush_announcer now a)) \<and>
      (\<forall>t \<in> set (announced_at p (flush_announcer now a)). \<exists>u. omap_get (ar_last_announced (flush_announcer now a)) p = Some u \<and> t \<le> u \<and> u \<le> now)" for p
  proof (cases "p \<in> set (ar_joined a)")
    case True
    have old: "\<forall>t \<in> set (announced_at p a). t + interval_ms \<le> now \<and> t \<le> now"
      using flushed(3) True unfolding announcer_ok_def by (smt (verit, best))
    have "announced_at p (flush_announcer now a) = announced_at p a @ [now]"
      using True by (simp add: announced_at_def flush_announcer_def publish_def Let_def)
    with flushed(3) True old show ?thesis
      by (auto simp: announcer_ok_def sorted_wrt_append flush_announcer_def publish_def Let_def fold_set_get)
  next
    case False
    then have "announced_at p (flush_announcer now a) = announced_at p a"
      by (simp add: announced_at_def flush_announcer_def publish_def Let_def)
    with flushed(3) False show ?thesis
      by (auto simp: announcer_ok_def flush_announcer_def publish_def Let_def fold_set_get)
  qed
  moreover have "ar_joined (flush_announcer now a) = []" by (simp add: flush_announcer_def publish_def Let_def)
  ultimately show ?case by (simp add: announcer_ok_def)
next
  case (stopped now a)
  then show ?case by (simp add: announcer_ok_def stop_announcer_def announced_at_def)
qed

section \<open>Properties\<close>

text \<open>C23: What a peer keeps of announcements is verified: whatever is announced, however the verifications of
  several announcements interleave, and whatever the network serves meanwhile, the addresses a peer's announcement
  counts as verified are among those it announced and their access-control chains resolved; a kept profile is
  signed by the key it is kept under, names that key's identity library, carries a profile record and
  belongs to the single owner of a library whose chain resolved; and a library's recorded
  owner is the single key of its resolved write list.\<close>

theorem announcements_trusted:
  assumes "announcements_run T D get_block own_key st"
  shows "(\<forall>peer r. announced_by_peer peer st = Some r \<longrightarrow> (\<forall>address \<in> set (ab_verified r).
      address \<in> al_address ` set (ab_hints r) \<and> (\<exists>store chain. resolve_ac_chain D get_block address store = Inr chain))) \<and>
    (\<forall>key p. omap_get (as_profiles st) key = Some p \<longrightarrow> Some key \<noteq> own_key \<and>
      e_key (he_entry (vp_hashed p)) = key \<and> verify_entry_signature D (he_entry (vp_hashed p)) \<and>
      e_id (he_entry (vp_hashed p)) = identity_library_address D key \<and>
      validate_operation D (e_payload (he_entry (vp_hashed p))) identity True = Inr (IdentityPut (PROFILE_KEY D) (vp_record p)) \<and>
      (\<exists>address store chain. resolve_ac_chain D get_block address store = Inr chain \<and> chain_write_list chain = [key])) \<and>
    (\<forall>address owner. omap_get (as_owners st) address = Some owner \<longrightarrow>
      (\<exists>store chain. resolve_ac_chain D get_block address store = Inr chain \<and> chain_write_list chain = [owner]))"
proof -
  have ok: "announced_ok D get_block own_key st" by (rule announcements_run_ok[OF assms])
  have "record_ok D get_block r" if "announced_by_peer peer st = Some r" for peer r
    using that ok unfolding announced_ok_def announced_by_peer_def by auto
  with ok show ?thesis unfolding announced_ok_def record_ok_def profile_trusted_def owner_of_def Let_def by blast
qed

text \<open>A sample: a peer announces a library whose chain names one owner, and that owner's profile. All CIDs of the
  sample print as \<open>z\<close>, and its verifier accepts the signature \<open>s\<close>.\<close>

definition sample_trust_deps :: deps where
  "sample_trust_deps = (sample_deps [manifest_value ''music'' recordstore ''w'', wrapper_value ''l'', write_list_value [sample_pubkey]])
     \<lparr>cid_of_digest := (\<lambda>_. []), openssl_verify := (\<lambda>_ _ sig_bytes. Some (sig_bytes = utf8ToBytes ''s''))\<rparr>"

definition sample_chain_block :: "unit \<Rightarrow> string \<Rightarrow> bytes option result" where
  "sample_chain_block _ cid = Inr (if cid = ''m'' then Some (sample_encode (manifest_value ''music'' recordstore ''w''))
     else if cid = ''w'' then Some (sample_encode (wrapper_value ''l''))
     else if cid = ''l'' then Some (sample_encode (write_list_value [sample_pubkey])) else None)"

abbreviation sample_profile_record :: identity_record where
  "sample_profile_record \<equiv> ProfileRecord 5 (Some ''n'') None None"

definition sample_profile :: signed_entry where
  "sample_profile = \<lparr>e_id = ''/record/z/identity'', e_payload = payload_value (IdentityPut (PROFILE_KEY sample_trust_deps) sample_profile_record),
     e_next = [], e_refs = [], e_clock = \<lparr>clock_id = sample_pubkey, clock_time = 1\<rparr>, e_key = sample_pubkey, e_sig = ''s''\<rparr>"

definition sample_trusted_announcement :: announcement where
  "sample_trusted_announcement = \<lparr>an_libraries = [\<lparr>al_address = ''/record/m/music'', al_about = None\<rparr>], an_profiles = [signed_fields sample_profile]\<rparr>"

lemma sample_trust_resolves:
  "verify_announced_library sample_trust_deps sample_chain_block () \<lparr>al_address = ''/record/m/music'', al_about = None\<rparr> =
   Some \<lparr>vl_chain = \<lparr>chain_address = ''/record/m/music'', chain_name = ''music'', chain_type = recordstore, chain_write_list = [sample_pubkey],
     chain_cids = \<lparr>cid_manifest = ''m'', cid_wrapper = ''w'', cid_write_list = ''l''\<rparr>\<rparr>, vl_about = None\<rparr>"
proof -
  have parse: "parse_library_address sample_trust_deps ''/record/m/music'' = Inr (''m'', ''music'')"
    by (simp add: parse_library_address_def strip_prefix_def ADDRESS_PREFIX_def is_cid_string_def sample_trust_deps_def sample_deps_def)
  have table: "distinct (map sample_encode [manifest_value ''music'' recordstore ''w'', wrapper_value ''l'', write_list_value [sample_pubkey]])"
    by (simp add: manifest_value_def wrapper_value_def write_list_value_def utf8ToBytes_def)
  have fetch: "fetch_object sample_trust_deps sample_chain_block () cid = Inr v"
    if "sample_chain_block () cid = Inr (Some (sample_encode v))"
      "v \<in> {manifest_value ''music'' recordstore ''w'', wrapper_value ''l'', write_list_value [sample_pubkey]}" for cid v
  proof -
    have "cbor_decode sample_trust_deps (sample_encode v) = Some v" "cbor_encode sample_trust_deps = sample_encode"
      using sample_codec[OF table, of v] that(2) by (simp_all add: sample_trust_deps_def)
    then show ?thesis using that(1) by (simp add: fetch_object_def decode_canonical_def encode_canonical_def)
  qed
  have "fetch_object sample_trust_deps sample_chain_block () ''m'' = Inr (manifest_value ''music'' recordstore ''w'')"
    "fetch_object sample_trust_deps sample_chain_block () ''w'' = Inr (wrapper_value ''l'')"
    "fetch_object sample_trust_deps sample_chain_block () ''l'' = Inr (write_list_value [sample_pubkey])"
    by (rule fetch; simp add: sample_chain_block_def)+
  moreover have "is_compressed_pubkey_string sample_pubkey" by simp
  ultimately have "resolve_ac_chain sample_trust_deps sample_chain_block ''/record/m/music'' () =
      Inr \<lparr>chain_address = ''/record/m/music'', chain_name = ''music'', chain_type = recordstore, chain_write_list = [sample_pubkey],
        chain_cids = \<lparr>cid_manifest = ''m'', cid_wrapper = ''w'', cid_write_list = ''l''\<rparr>\<rparr>"
    using parse by (simp add: resolve_ac_chain_def manifest_value_def wrapper_value_def write_list_value_def has_exact_fields_def)
  then show ?thesis by (simp add: verify_announced_library_def)
qed

lemma sample_profile_verifies:
  "verify_announced_profile sample_trust_deps (signed_fields sample_profile) =
   Some \<lparr>vp_hashed = hash_signed_entry sample_trust_deps sample_profile, vp_record = sample_profile_record\<rparr>"
proof -
  have address: "identity_library_address sample_trust_deps sample_pubkey = ''/record/z/identity''"
    by (simp add: identity_library_address_def derive_library_address_def build_ac_chain_def chain_object_def Let_def compute_cid_string_def compute_cid_def
        format_protocol_cid_def encode_base58btc_def encode_digits.simps build_library_address_def ADDRESS_PREFIX_def IDENTITY_LIBRARY_NAME_def sample_trust_deps_def)
  have ok: "signed_ok sample_profile"
    by (simp add: signed_ok_def unsigned_ok_def pointers_ok_def sample_profile_def MAX_SAFE_INTEGER_def payload_value_def operation_value_def)
  have "verify_entry_signature sample_trust_deps sample_profile"
    by (simp add: verify_entry_signature_def sample_profile_def is_compressed_pubkey_def sample_trust_deps_def sample_deps_def)
  then have "verify_announced_entry sample_trust_deps (signed_fields sample_profile) = Some (hash_signed_entry sample_trust_deps sample_profile)"
    using ok by (simp add: verify_announced_entry_def Let_def hash_signed_entry_def with_hash_def)
  moreover have "validate_operation sample_trust_deps (e_payload sample_profile) identity True =
      Inr (IdentityPut (PROFILE_KEY sample_trust_deps) sample_profile_record)"
    unfolding sample_profile_def
    by (simp, rule validate_operation_payload_value) (simp add: payload_ok_def identity_ok_def identity_record_key_def MAX_SAFE_INTEGER_def)
  moreover have "he_entry (hash_signed_entry sample_trust_deps sample_profile) = sample_profile" by (simp add: hash_signed_entry_def with_hash_def)
  moreover have "e_id sample_profile = ''/record/z/identity''" "e_key sample_profile = sample_pubkey" by (simp_all add: sample_profile_def)
  ultimately show ?thesis using address by (simp add: verify_announced_profile_def identity_record_type_of_def)
qed

lemma sample_trust_decodes:
  "decode_announcement sample_text sample_trust_deps (utf8ToBytes (message_of sample_text sample_trusted_announcement)) = Some sample_trusted_announcement"
proof (rule decode_message_of)
  show "announceable sample_trust_deps sample_trusted_announcement"
    by (simp add: announceable_def sample_trusted_announcement_def parse_library_address_def strip_prefix_def ADDRESS_PREFIX_def is_cid_string_def
        sample_trust_deps_def sample_deps_def sample_profile_def signed_fields_def entry_like_def payload_value_def operation_value_def identity_value_def
        optional_field_def is_string_def js_strings_def js_clock_def MAX_SAFE_INTEGER_def Let_def identity_record_type_of_def)
  have "length (concat (map json_escape (replicate n CHR ''a''))) = n" for n by (induction n) (simp_all add: json_escape_def)
  then have "length (json_string sample_pubkey) = 68" by (simp add: json_string_def sample_pubkey_def del: map_replicate) (simp add: json_escape_def)
  moreover have "int_text 1 = ''1''" "int_text 2 = ''2''" "int_text 5 = ''5''" by code_simp+
  moreover have "PROFILE_KEY sample_trust_deps = ''profile''" by code_simp
  ultimately show "announcement_fits sample_text sample_trusted_announcement"
    by (simp add: byte_length_def message_of_def sample_trusted_announcement_def library_value_def sample_profile_def signed_fields_def payload_value_def
        operation_value_def identity_value_def optional_field_def js_strings_def js_clock_def identity_record_type_of_def identity_type_name_def Let_def NETWORK_MESSAGE_MAX_BYTES_def)
      (simp add: json_string_def json_escape_def utf8ToBytes_def)
qed simp

definition sample_trusted :: announced_state where
  "sample_trusted = verify_next sample_trust_deps sample_chain_block () None 0 (receive_announcement sample_text sample_trust_deps None ''p''
     (utf8ToBytes (message_of sample_text sample_trusted_announcement)) create_announced_state)"

lemma sample_trusted_eq:
  "sample_trusted = \<lparr>as_profiles = [(sample_pubkey, \<lparr>vp_hashed = hash_signed_entry sample_trust_deps sample_profile, vp_record = sample_profile_record\<rparr>)],
     as_owners = [(''/record/m/music'', sample_pubkey)], as_announced = [(''p'', 0)],
     as_records = [\<lparr>ab_hints = an_libraries sample_trusted_announcement, ab_verified = [''/record/m/music'']\<rparr>], as_jobs = []\<rparr>"
proof -
  have "e_key (he_entry (hash_signed_entry sample_trust_deps sample_profile)) = sample_pubkey"
    by (simp add: hash_signed_entry_def with_hash_def sample_profile_def)
  then show ?thesis unfolding sample_trusted_def receive_announcement_def sample_trust_decodes
    by (simp add: verify_next_def verify_on_def verify_hint_def verify_profile_def keep_profile_def create_announced_state_def
        sample_trusted_announcement_def sample_trust_resolves sample_profile_verifies oset_add_def Let_def)
qed

theorem announcements_trusted_witness:
  "omap_get (as_owners sample_trusted) ''/record/m/music'' = Some sample_pubkey \<and> omap_has (as_profiles sample_trusted) sample_pubkey \<and>
   (\<exists>r. announced_by_peer ''p'' sample_trusted = Some r \<and> ab_verified r = [''/record/m/music'']) \<and>
   (\<exists>store chain. resolve_ac_chain sample_trust_deps sample_chain_block ''/record/m/music'' store = Inr chain \<and> chain_write_list chain = [sample_pubkey])"
proof -
  have run: "announcements_run sample_text sample_trust_deps sample_chain_block None sample_trusted"
    unfolding sample_trusted_def by (intro announcements_run.verified announcements_run.received announcements_run.created)
  have owner: "omap_get (as_owners sample_trusted) ''/record/m/music'' = Some sample_pubkey" by (simp add: sample_trusted_eq)
  with announcements_trusted[OF run]
  have "\<exists>store chain. resolve_ac_chain sample_trust_deps sample_chain_block ''/record/m/music'' store = Inr chain \<and> chain_write_list chain = [sample_pubkey]" by blast
  with owner show ?thesis by (simp add: sample_trusted_eq announced_by_peer_def)
qed

text \<open>The announcer answers a joining peer at most once per interval: in every run the announcements that
  went out for one peer are at least the interval apart.\<close>

lemma announcer_rate:
  assumes "announcer_run interval_ms now a"
  shows "sorted_wrt (\<lambda>s t. s + interval_ms \<le> t) (announced_at peer_id a)"
  using announcer_run_ok[OF assms] by (simp add: announcer_ok_def)

end
