(* ===== verification/Ownership.thy ===== *)
theory Ownership
  imports Identity_Library Announcement
begin

text \<open>
  What a peer derives from its identity library (\<open>src/peer/ownership.ts\<close>), the identity and the guards of
  the shared context (\<open>src/peer/context.ts\<close>), and the announcement it builds of its libraries
  (\<open>src/peer/announcements.ts\<close>). A peer's context is the identity, the open libraries, the stored
  replication policies and what verified announcements carried; a handle is its oplog, whose chain is the
  handle's chain.
\<close>

section \<open>Context\<close>

datatype peer_error =
    Not_found | Conflict | Forbidden | Capability_expired | Capability_revoked | Invalid
  | Refused protocol_error
  | Not_started
  | Identity_not_open
  | Stopping

type_synonym 'a peer_result = "peer_error + 'a"

record peer_identity =
  id_key_pair :: key_pair
  id_address :: string

datatype replication_mode = Full | Selective | Index_only

text \<open>A policy without a filter has \<open>JUndefined\<close> there.\<close>

record stored_policy =
  po_mode :: replication_mode
  po_filter :: jsval

record peer_context =
  pc_identity :: "peer_identity option"
  pc_libraries :: "(string, oplog) omap"
  pc_policies :: "(string, stored_policy) omap"
  pc_announce :: bool
  pc_announced :: announced_state
  pc_stopping :: bool

definition require_identity :: "peer_context \<Rightarrow> peer_identity peer_result" where
  "require_identity ctx = (case pc_identity ctx of None \<Rightarrow> Inl Not_started | Some i \<Rightarrow> Inr i)"

definition refuse_when_stopping :: "peer_context \<Rightarrow> unit peer_result" where
  "refuse_when_stopping ctx = (if pc_stopping ctx then Inl Stopping else Inr ())"

section \<open>Own libraries and links\<close>

definition LISTENS_LIBRARY_NAME :: string where "LISTENS_LIBRARY_NAME = ''listens''"
definition LABELS_LIBRARY_NAME :: string where "LABELS_LIBRARY_NAME = ''labels''"

record own_library =
  ow_address :: string
  ow_type :: library_type
  ow_name :: string
  ow_retired :: bool

record link =
  ln_address :: string
  ln_alias :: "string option"

definition identity_state :: "peer_context \<Rightarrow> identity_library_fields peer_result" where
  "identity_state ctx = and_then (require_identity ctx) (\<lambda>i.
     case omap_get (pc_libraries ctx) (id_address i) of
       None \<Rightarrow> Inl Identity_not_open
     | Some ol \<Rightarrow> Inr (identity_library_state ol))"

definition own_library_of :: "peer_context \<Rightarrow> string \<Rightarrow> string \<times> bool \<times> verified_entry \<Rightarrow> own_library option" where
  "own_library_of ctx owner_key row = (case omap_get (pc_libraries ctx) (fst row) of
     None \<Rightarrow> None
   | Some ol \<Rightarrow>
       if owner_key \<notin> set (chain_write_list (ol_chain ol)) then None
       else Some \<lparr>ow_address = fst row, ow_type = chain_type (ol_chain ol), ow_name = chain_name (ol_chain ol), ow_retired = fst (snd row)\<rparr>)"

definition own_libraries :: "peer_context \<Rightarrow> own_library list peer_result" where
  "own_libraries ctx = and_then (require_identity ctx) (\<lambda>i. and_then (identity_state ctx) (\<lambda>st.
     Inr (List.map_filter (own_library_of ctx (public_key (id_key_pair i))) (il_libraries st))))"

definition find_own_library :: "peer_context \<Rightarrow> string \<Rightarrow> own_library option peer_result" where
  "find_own_library ctx address = and_then (own_libraries ctx) (\<lambda>own. Inr (List.find (\<lambda>l. ow_address l = address) own))"

definition active_own_libraries :: "peer_context \<Rightarrow> library_type \<Rightarrow> own_library list peer_result" where
  "active_own_libraries ctx type = and_then (own_libraries ctx) (\<lambda>own. Inr (List.filter (\<lambda>l. ow_type l = type \<and> \<not> ow_retired l) own))"

definition default_write_target :: "peer_context \<Rightarrow> string option peer_result" where
  "default_write_target ctx = and_then (active_own_libraries ctx recordstore) (\<lambda>active.
     Inr (if length active = 1 then map_option ow_address (List.find (\<lambda>_. True) active) else None))"

text \<open>\<open>by_put\<close> is keyed on the entry; \<open>by_put.get(least)\<close> is the address put last under it.\<close>

definition default_own_library :: "peer_context \<Rightarrow> string option peer_result" where
  "default_own_library ctx = and_then (identity_state ctx) (\<lambda>st. and_then (active_own_libraries ctx recordstore) (\<lambda>active.
     let by_put = fold (\<lambda>(first_put, address). omap_set first_put address)
           (List.map_filter (\<lambda>l. map_option (\<lambda>x. (snd x, ow_address l)) (omap_get (il_libraries st) (ow_address l))) active) []
     in Inr (case least_entry (omap_keys by_put) of None \<Rightarrow> None | Some least \<Rightarrow> omap_get by_put least)))"

definition listens_library :: "peer_context \<Rightarrow> string option peer_result" where
  "listens_library ctx = and_then (active_own_libraries ctx listens) (\<lambda>active. Inr (map_option ow_address (List.find (\<lambda>_. True) active)))"

definition labels_library :: "peer_context \<Rightarrow> string option peer_result" where
  "labels_library ctx = and_then (active_own_libraries ctx labels) (\<lambda>active. Inr (map_option ow_address (List.find (\<lambda>_. True) active)))"

definition link_set :: "peer_context \<Rightarrow> link list peer_result" where
  "link_set ctx = and_then (identity_state ctx) (\<lambda>st.
     Inr (sort_by (\<lambda>a b. compare_strings (ln_address a) (ln_address b))
       (map (\<lambda>(address, alias). \<lparr>ln_address = address, ln_alias = alias\<rparr>) (il_links st))))"

definition linked_addresses :: "peer_context \<Rightarrow> string list peer_result" where
  "linked_addresses ctx = and_then (link_set ctx) (\<lambda>links. Inr (map ln_address links))"

definition own_recordstore_addresses :: "peer_context \<Rightarrow> string list peer_result" where
  "own_recordstore_addresses ctx = and_then (own_libraries ctx) (\<lambda>own. Inr (map ow_address (List.filter (\<lambda>l. ow_type l = recordstore) own)))"

definition visible_addresses :: "peer_context \<Rightarrow> string list peer_result" where
  "visible_addresses ctx = and_then (own_recordstore_addresses ctx) (\<lambda>own. and_then (linked_addresses ctx) (\<lambda>linked. Inr (own @ linked)))"

definition own_label_addresses :: "peer_context \<Rightarrow> string list peer_result" where
  "own_label_addresses ctx = and_then (own_libraries ctx) (\<lambda>own.
     Inr (map ow_address (List.filter (\<lambda>l. ow_type l = recordstore \<or> ow_type l = labels) own)))"

definition default_label_libraries :: "peer_context \<Rightarrow> string list option \<Rightarrow> string list peer_result" where
  "default_label_libraries ctx library_addresses = and_then (own_label_addresses ctx) (\<lambda>own.
     and_then (case library_addresses of Some as \<Rightarrow> Inr as | None \<Rightarrow> linked_addresses ctx) (\<lambda>scope. Inr (oset_of (own @ scope))))"

record library_scope_fields =
  sc_own :: "(string, own_library) omap"
  sc_links :: "(string, link) omap"

definition library_scope :: "peer_context \<Rightarrow> library_scope_fields peer_result" where
  "library_scope ctx = and_then (own_libraries ctx) (\<lambda>own. and_then (link_set ctx) (\<lambda>links.
     Inr \<lparr>sc_own = fold (\<lambda>l. omap_set (ow_address l) l) own [], sc_links = fold (\<lambda>l. omap_set (ln_address l) l) links []\<rparr>))"

section \<open>The announcement\<close>

definition live_entry :: "peer_context \<Rightarrow> string \<Rightarrow> string \<Rightarrow> verified_entry option" where
  "live_entry ctx library_address key = (case omap_get (pc_libraries ctx) library_address of
     None \<Rightarrow> None | Some ol \<Rightarrow> get_live_entry ol key)"

definition about_entry :: "deps \<Rightarrow> peer_context \<Rightarrow> string \<Rightarrow> signed_entry option" where
  "about_entry D ctx library_address = (case live_entry ctx library_address (ABOUT_KEY D) of
     None \<Rightarrow> None
   | Some live \<Rightarrow> if is_about_put (ve_operation live) then Some (he_entry live) else None)"

definition single_owner :: "peer_context \<Rightarrow> string \<Rightarrow> string option" where
  "single_owner ctx library_address = (case omap_get (pc_libraries ctx) library_address of
     None \<Rightarrow> None
   | Some ol \<Rightarrow> (case chain_write_list (ol_chain ol) of [owner] \<Rightarrow> Some owner | _ \<Rightarrow> None))"

definition announced_libraries :: "deps \<Rightarrow> peer_context \<Rightarrow> string list \<Rightarrow> announced_library list" where
  "announced_libraries D ctx addresses =
     map (\<lambda>address. \<lparr>al_address = address, al_about = map_option announced_entry (about_entry D ctx address)\<rparr>) addresses"

definition announced_profiles :: "deps \<Rightarrow> peer_context \<Rightarrow> peer_identity \<Rightarrow> (string, string) omap \<Rightarrow> jsval list" where
  "announced_profiles D ctx i owners =
     (let own = (case live_entry ctx (id_address i) (''profile:'' @ PROFILE_KEY D) of
            None \<Rightarrow> [] | Some e \<Rightarrow> [(public_key (id_key_pair i), announced_entry (he_entry e))])
      in omap_values (fold (\<lambda>owner profiles. case omap_get (as_profiles (pc_announced ctx)) owner of
             None \<Rightarrow> profiles
           | Some profile \<Rightarrow> if omap_has profiles owner then profiles
               else omap_set owner (announced_entry (he_entry (vp_hashed profile))) profiles) (omap_values owners) own))"

definition build_announcement :: "text_lib \<Rightarrow> deps \<Rightarrow> peer_context \<Rightarrow> bytes option peer_result" where
  "build_announcement T D ctx =
     (case pc_identity ctx of
        None \<Rightarrow> Inr None
      | Some i \<Rightarrow>
          if \<not> pc_announce ctx then Inr None
          else and_then (default_own_library ctx) (\<lambda>default_address.
               and_then (own_recordstore_addresses ctx) (\<lambda>recordstores.
               and_then (linked_addresses ctx) (\<lambda>links.
                 let leading = (\<lambda>a. Some a = default_address);
                     own = List.filter leading recordstores @ List.filter (\<lambda>a. \<not> leading a) recordstores;
                     linked = List.filter (\<lambda>a. a \<notin> set own \<and>
                       (case omap_get (pc_libraries ctx) a of None \<Rightarrow> False | Some ol \<Rightarrow> 0 < length (ol_entries ol))) links;
                     libraries = announced_libraries D ctx (own @ linked)
                 in if libraries = [] then Inr None
                    else let owners = fold (\<lambda>(address, owner). omap_set address owner)
                               (List.map_filter (\<lambda>l. map_option (\<lambda>owner. (al_address l, owner)) (single_owner ctx (al_address l))) libraries) []
                         in Inr (encode_announcement T \<lparr>an_libraries = libraries, an_profiles = announced_profiles D ctx i owners\<rparr>
                              (length own) owners)))))"

end
