(* ===== verification/Write_Target.thy ===== *)
theory Write_Target
  imports Ownership Append_Properties
begin

text \<open>
  Write targets (\<open>src/peer/write-target.ts\<close>) and the capabilities a peer lists, issues and revokes
  (\<open>src/peer/capabilities.ts\<close>). A library handle is looked up by its address, so a target is the address
  and the capability the write cites. Queued writes run one at a time: a job is a function of the context
  the jobs before it left. The storing, pinning and indexing of an entry after its append
  (\<open>register\<close>) is not part of these definitions, and \<open>Date.now()\<close> is an argument.
\<close>

section \<open>Write targets\<close>

record write_target =
  wt_address :: string
  wt_capability_id :: "string option"

definition assert_writable :: "peer_context \<Rightarrow> string \<Rightarrow> unit peer_result" where
  "assert_writable ctx address = and_then (find_own_library ctx address) (\<lambda>own. case own of
     Some l \<Rightarrow> if ow_retired l then Inl Conflict else Inr ()
   | None \<Rightarrow> Inr ())"

datatype write_kind = label_write | about_write | track_write

definition takes :: "library_type \<Rightarrow> write_kind \<Rightarrow> bool" where
  "takes type kind = (type = recordstore \<or> (type = labels \<and> kind \<noteq> track_write))"

definition resolve_write_target ::
  "peer_context \<Rightarrow> string option \<Rightarrow> string option \<Rightarrow> write_kind \<Rightarrow> write_target peer_result" where
  "resolve_write_target ctx library_address capability_id kind =
     and_then (case library_address of
         Some a \<Rightarrow> Inr (Some a)
       | None \<Rightarrow> if kind = label_write then labels_library ctx else default_write_target ctx) (\<lambda>named.
     case named of
       None \<Rightarrow> Inl Invalid
     | Some address \<Rightarrow> (case omap_get (pc_libraries ctx) address of
         None \<Rightarrow> Inl Not_found
       | Some ol \<Rightarrow>
           if \<not> takes (chain_type (ol_chain ol)) kind then Inl Invalid
           else and_then (assert_writable ctx address) (\<lambda>_. and_then (require_identity ctx) (\<lambda>i.
             if public_key (id_key_pair i) \<in> set (chain_write_list (ol_chain ol))
             then Inr \<lparr>wt_address = address, wt_capability_id = None\<rparr>
             else case capability_id of
               None \<Rightarrow> Inl Forbidden
             | Some c \<Rightarrow> Inr \<lparr>wt_address = address, wt_capability_id = Some c\<rparr>))))"

definition as_write_refusal :: "peer_error \<Rightarrow> peer_error" where
  "as_write_refusal err = (case err of
     Refused code \<Rightarrow>
       if code = capability_expired then Capability_expired
       else if code = capability_revoked then Capability_revoked
       else if code = capability_denied \<or> code = unauthorised_writer then Forbidden
       else err
   | _ \<Rightarrow> err)"

definition require_library :: "peer_context \<Rightarrow> string \<Rightarrow> oplog peer_result" where
  "require_library ctx library_address = (case omap_get (pc_libraries ctx) library_address of
     None \<Rightarrow> Inl Not_found | Some ol \<Rightarrow> Inr ol)"

text \<open>\<open>append\<close> of the library manager up to \<open>register\<close>. A refused append leaves the oplog as it was.\<close>

definition library_append :: "deps \<Rightarrow> peer_context \<Rightarrow> string \<Rightarrow> jsval \<Rightarrow> key_pair \<Rightarrow> (peer_context \<times> verified_entry) peer_result" where
  "library_append D ctx library_address payload kp =
     and_then (require_library ctx library_address) (\<lambda>ol.
       case append_entry_with_access D ol payload kp of
         Inl err \<Rightarrow> Inl (Refused err)
       | Inr (ol', e, access) \<Rightarrow> Inr (ctx\<lparr>pc_libraries := omap_set library_address ol' (pc_libraries ctx)\<rparr>, e))"

definition append_write :: "deps \<Rightarrow> peer_context \<Rightarrow> write_target \<Rightarrow> jsval \<Rightarrow> (peer_context \<times> verified_entry) peer_result" where
  "append_write D ctx target payload =
     (case and_then (require_identity ctx) (\<lambda>i. library_append D ctx (wt_address target) payload (id_key_pair i)) of
        Inl err \<Rightarrow> Inl (as_write_refusal err)
      | Inr x \<Rightarrow> Inr x)"

definition serialise_write :: "peer_context \<Rightarrow> (peer_context \<Rightarrow> 'a peer_result) \<Rightarrow> 'a peer_result" where
  "serialise_write ctx job = and_then (refuse_when_stopping ctx) (\<lambda>_. job ctx)"

section \<open>Describing capabilities\<close>

datatype capability_status = Active | Expired | Revoked | Inert

record capability =
  cp_capability_id :: string
  cp_library_address :: string
  cp_issuer :: string
  cp_via_capability_id :: "string option"
  cp_grantee :: jsval
  cp_actions :: "string list"
  cp_filter :: jsval
  cp_conditions :: "jsval list"
  cp_issued_at_ms :: jsval
  cp_expires_at_ms :: "rat option"
  cp_status :: capability_status
  cp_revoked_by :: "string option"

definition record_of :: "verified_entry \<Rightarrow> jsval" where
  "record_of e = (case ve_operation e of AccessRecordPut _ v _ \<Rightarrow> v | _ \<Rightarrow> JObj [])"

definition earliest_expiry :: "jsval \<Rightarrow> rat option" where
  "earliest_expiry conditions =
     (let times = map expires_at (List.filter (\<lambda>c. condition_shape c = shape_ok) (array_elements conditions))
      in if times = [] then None else Some (min_list times))"

text \<open>\<open>oplog.entries.get(hash) as VerifiedEntry\<close> for a hash of the oplog; a hash it does not hold would
  throw in the code and reads as no record here; effective revocations and the capabilities of a chain are held.\<close>

definition record_at :: "oplog \<Rightarrow> string \<Rightarrow> jsval" where
  "record_at ol h = (case omap_get (ol_entries ol) h of None \<Rightarrow> JObj [] | Some e \<Rightarrow> record_of e)"

definition revocation_of :: "oplog \<Rightarrow> string \<Rightarrow> string option" where
  "revocation_of ol capability_id = List.find (\<lambda>h. get ''revokes'' (record_at ol h) = JStr capability_id) (ol_effective ol)"

definition first_some :: "'a option list \<Rightarrow> 'a option" where
  "first_some xs = (case List.find (\<lambda>x. x \<noteq> None) xs of None \<Rightarrow> None | Some x \<Rightarrow> x)"

definition capability_expiry :: "oplog \<Rightarrow> string list \<Rightarrow> rat option" where
  "capability_expiry ol chain =
     (let expiries = List.map_filter (\<lambda>h. earliest_expiry (get ''conditions'' (record_at ol h))) chain
      in if expiries = [] then None else Some (min_list expiries))"

definition describe_capability :: "oplog \<Rightarrow> verified_entry \<Rightarrow> nat \<Rightarrow> capability" where
  "describe_capability ol e now =
     (let r = record_of e;
          chain = capability_chain ol (Some (he_hash e));
          revoked_by = first_some (map (revocation_of ol) chain);
          expires_at_ms = capability_expiry ol chain
      in \<lparr>cp_capability_id = he_hash e,
          cp_library_address = chain_address (ol_chain ol),
          cp_issuer = e_key (he_entry e),
          cp_via_capability_id = (if is_write_list_key ol (e_key (he_entry e)) then None else cited_capability (ve_operation e)),
          cp_grantee = get ''grantee'' r,
          cp_actions = strings (get ''actions'' r),
          cp_filter = (if get ''filter'' r = JUndefined then JNull else get ''filter'' r),
          cp_conditions = array_elements (get ''conditions'' r),
          cp_issued_at_ms = get ''timestamp'' r,
          cp_expires_at_ms = expires_at_ms,
          cp_status = (if revoked_by \<noteq> None then Revoked
            else if he_hash e \<in> set (ol_inert ol) then Inert
            else case expires_at_ms of Some t \<Rightarrow> if of_nat now > t then Expired else Active | None \<Rightarrow> Active),
          cp_revoked_by = revoked_by\<rparr>)"

definition list_capabilities :: "peer_context \<Rightarrow> string \<Rightarrow> nat \<Rightarrow> capability list peer_result" where
  "list_capabilities ctx address now = (case omap_get (pc_libraries ctx) address of
     None \<Rightarrow> Inl Not_found
   | Some ol \<Rightarrow> Inr (map (\<lambda>e. describe_capability ol e now) (omap_values (ol_capabilities ol))))"

text \<open>The capabilities of one oplog whose grantee matches a key.\<close>

definition granted_to :: "oplog \<Rightarrow> string \<Rightarrow> nat \<Rightarrow> capability list" where
  "granted_to ol key now = map (\<lambda>e. describe_capability ol e now)
     (List.filter (\<lambda>e. grantee_matches (get ''grantee'' (record_of e)) key) (omap_values (ol_capabilities ol)))"

definition held_capabilities :: "peer_context \<Rightarrow> nat \<Rightarrow> capability list peer_result" where
  "held_capabilities ctx now = and_then (require_identity ctx) (\<lambda>i.
     Inr (concat (map (\<lambda>ol. granted_to ol (public_key (id_key_pair i)) now) (omap_values (pc_libraries ctx)))))"

definition held_capability_ids :: "peer_context \<Rightarrow> string \<Rightarrow> nat \<Rightarrow> string list peer_result" where
  "held_capability_ids ctx address now = (case omap_get (pc_libraries ctx) address of
     None \<Rightarrow> Inr []
   | Some ol \<Rightarrow> and_then (require_identity ctx) (\<lambda>i.
       Inr (map cp_capability_id (List.filter (\<lambda>c. cp_status c = Active) (granted_to ol (public_key (id_key_pair i)) now)))))"

section \<open>Issuing and revoking\<close>

definition lift_error :: "'a result \<Rightarrow> 'a peer_result" where
  "lift_error r = (case r of Inl err \<Rightarrow> Inl (Refused err) | Inr x \<Rightarrow> Inr x)"

definition issue_capability ::
  "deps \<Rightarrow> peer_context \<Rightarrow> nat \<Rightarrow> string \<Rightarrow> jsval \<Rightarrow> string list \<Rightarrow> jsval \<Rightarrow> jsval list option \<Rightarrow> string option \<Rightarrow>
     (peer_context \<times> capability) peer_result" where
  "issue_capability D ctx now library_address grantee actions spec conditions capability_id =
     serialise_write ctx (\<lambda>ctx.
       and_then (resolve_write_target ctx (Some library_address) capability_id track_write) (\<lambda>target.
         let value = build_capability_record now grantee actions spec conditions
         in and_then (lift_error (assert_issuable_capability value)) (\<lambda>_.
            and_then (append_write D ctx target
              (payload_value (build_record_put_operation (record_key D value) value (wt_capability_id target)))) (\<lambda>(ctx', e).
            and_then (require_library ctx' (wt_address target)) (\<lambda>ol.
              Inr (ctx', describe_capability ol e now))))))"

definition revoke_capability ::
  "deps \<Rightarrow> peer_context \<Rightarrow> nat \<Rightarrow> string \<Rightarrow> string \<Rightarrow> string option \<Rightarrow> peer_context peer_result" where
  "revoke_capability D ctx now library_address revokes capability_id =
     serialise_write ctx (\<lambda>ctx.
       and_then (resolve_write_target ctx (Some library_address) capability_id track_write) (\<lambda>target.
       and_then (require_library ctx (wt_address target)) (\<lambda>ol.
         let value = build_revocation_record now revokes;
             append = and_then (append_write D ctx target
               (payload_value (build_record_put_operation (record_key D value) value (wt_capability_id target)))) (\<lambda>(ctx', e). Inr ctx')
         in if wt_capability_id target = None then
              if \<not> is_protocol_cid (JStr revokes) then Inl Not_found
              else if revocation_of ol revokes \<noteq> None then Inr ctx
              else append
            else if \<not> omap_has (ol_capabilities ol) revokes then Inl Not_found
            else append)))"

definition revoked_dependency :: "oplog \<Rightarrow> verified_entry \<Rightarrow> string option" where
  "revoked_dependency ol e =
     (let revoked = oset_of (map (\<lambda>h. get ''revokes'' (record_at ol h)) (ol_effective ol))
      in List.find (\<lambda>h. JStr h \<in> set revoked) (capability_chain ol (cited_capability (ve_operation e))))"

section \<open>What a revocation reaches\<close>

lemma add_effective_grows: "set eff \<subseteq> set (add_effective ol eff rs)"
proof (induction rs arbitrary: eff)
  case (Cons r rs)
  have "set eff \<subseteq> set (if \<not> self_referential ol r \<and> \<not> inert_under ol r eff then eff @ [r] else eff)" by auto
  with Cons show ?case by (metis add_effective.simps(2) subset_trans)
qed simp

text \<open>A revocation of a write-list key is effective as soon as it is held.\<close>

lemma owner_revocation_held:
  assumes "oplog_ok D ol" "entries_of ol h = Some e" "is_revocation_entry e" "e_key (he_entry e) \<in> write_list ol"
  shows "h \<in> set (ol_effective ol)"
proof -
  have st: "structure_ok D ol" "access_ok ol" using assms(1) by (simp_all add: oplog_ok_def)
  have h: "he_hash e = h" by (rule structure_okD(5)[OF st(1) assms(2)])
  then have "e \<in> set (omap_values (ol_revocations ol))"
    using revocation_values(1)[OF structure_okD(3,1)[OF st(1)]] assms(2,3) by blast
  then have "e \<in> set (List.filter (\<lambda>r. is_write_list_key ol (e_key (he_entry r))) (omap_values (ol_revocations ol)))"
    using assms(4) by (simp add: is_write_list_key_def)
  then have "e \<in> effective_spec ol"
    unfolding effective_spec_def effective_revocations_def Let_def using add_effective_grows by blast
  with st(2) h show ?thesis by (auto simp: access_ok_def)
qed

lemma revocation_of_held:
  assumes "h \<in> set (ol_effective ol)" "entries_of ol h = Some e" "get ''revokes'' (record_of e) = JStr c"
  shows "revocation_of ol c \<noteq> None"
  using assms by (auto simp: revocation_of_def find_None_iff record_at_def)

lemma first_some_None: "first_some xs = None \<longleftrightarrow> (\<forall>x \<in> set xs. x = None)"
  by (induction xs) (auto simp: first_some_def)

text \<open>A capability counts as revoked in an oplog: an effective revocation names it, every capability whose
  chain holds it reads as revoked, and nobody holds it.\<close>

definition revoked_in :: "oplog \<Rightarrow> string \<Rightarrow> bool" where
  "revoked_in ol c \<longleftrightarrow> revocation_of ol c \<noteq> None \<and>
     (\<forall>e now. c \<in> set (capability_chain ol (Some (he_hash e))) \<longrightarrow> cp_status (describe_capability ol e now) = Revoked) \<and>
     (\<forall>key now. c \<notin> cp_capability_id ` {x \<in> set (granted_to ol key now). cp_status x = Active})"

lemma capability_value:
  assumes "structure_ok D ol" "distinct (omap_keys (ol_capabilities ol))" "e \<in> set (omap_values (ol_capabilities ol))"
  shows "entries_of ol (he_hash e) = Some e" "capability_record (Some e) \<noteq> None"
proof -
  from assms(3) obtain h where "(h, e) \<in> set (ol_capabilities ol)" by auto
  with assms(2) have "map_of (ol_capabilities ol) h = Some e" by simp
  moreover have "map_of (ol_capabilities ol) h = (case entries_of ol h of None \<Rightarrow> None | Some e \<Rightarrow> if is_capability_entry e then Some e else None)"
    using assms(1) unfolding structure_ok_def by blast
  ultimately have e: "entries_of ol h = Some e" "is_capability_entry e" by (auto split: option.splits if_splits)
  with structure_okD(5)[OF assms(1) e(1)] show "entries_of ol (he_hash e) = Some e" by simp
  from e(2) show "capability_record (Some e) \<noteq> None"
    by (auto simp: is_capability_entry_def capability_record_def split: entry_payload.splits)
qed

lemma revoked_inI:
  assumes "reachable D ol" "inj (multihash_of_digest D)" "revocation_of ol c \<noteq> None"
  shows "revoked_in ol c"
proof -
  have ok: "structure_ok D ol" using reachable_ok[OF assms(1,2)] by (simp add: oplog_ok_def)
  have status: "cp_status (describe_capability ol e now) = Revoked" if "c \<in> set (capability_chain ol (Some (he_hash e)))" for e now
  proof -
    have "first_some (map (revocation_of ol) (capability_chain ol (Some (he_hash e)))) \<noteq> None"
      using that assms(3) by (auto simp: first_some_None)
    then show ?thesis by (simp add: describe_capability_def Let_def)
  qed
  have active: "cp_status (describe_capability ol e now) \<noteq> Active" if "e \<in> set (omap_values (ol_capabilities ol))" "he_hash e = c" for e now
  proof -
    from capability_value[OF ok reachable_capabilities[OF assms(1)] that(1)] that(2)
    have "c \<in> set (capability_chain ol (Some (he_hash e)))"
      unfolding capability_chain_unfold[OF structure_okD(1,2)[OF ok]] by auto
    from status[OF this] show ?thesis by simp
  qed
  have ids: "cp_capability_id (describe_capability ol e now) = he_hash e" for e now by (simp add: describe_capability_def Let_def)
  have "c \<noteq> cp_capability_id x" if "x \<in> set (granted_to ol key now)" "cp_status x = Active" for x key now
  proof -
    from that(1) obtain e where "x = describe_capability ol e now" "e \<in> set (omap_values (ol_capabilities ol))"
      unfolding granted_to_def by auto
    with that(2) active ids show ?thesis by metis
  qed
  then have "c \<notin> cp_capability_id ` {x \<in> set (granted_to ol key now). cp_status x = Active}" for key now by blast
  then show ?thesis using status assms(3) unfolding revoked_in_def by blast
qed

section \<open>Revoking as an owner\<close>

text \<open>The hash of an entry the key signs next is not one the oplog holds.\<close>

definition signs_fresh :: "deps \<Rightarrow> oplog \<Rightarrow> key_pair \<Rightarrow> bool" where
  "signs_fresh D ol kp \<longleftrightarrow> (\<forall>payload e. sign_local_entry D ol payload kp = Inr e \<longrightarrow> omap_get (ol_entries ol) (he_hash e) = None)"

lemma revocation_validated:
  assumes "validate_operation D (payload_value (AccessRecordPut k (build_revocation_record now c) None)) type ws = Inr operation"
    "type = recordstore"
  shows "operation = AccessRecordPut k (build_revocation_record now c) None"
  using assms
  by (auto simp: validate_operation_def validate_record_operation_def validate_record_put_def result_simps Let_def payload_value_def
      build_revocation_record_def is_v1_envelope_def V1_ENVELOPE_TYPES_def ADMITTED_PUTS_def is_access_record_type_def
      ACCESS_RECORD_TYPES_def split: if_splits option.splits)

lemma revocation_entry:
  assumes "ve_operation e = AccessRecordPut k (build_revocation_record now c) None"
  shows "is_revocation_entry e" "get ''revokes'' (record_of e) = JStr c"
  using assms by (simp_all add: is_revocation_entry_def is_access_record_def is_capability_entry_def record_of_def build_revocation_record_def)

text \<open>The entry an owner's revocation appends is a revocation of the write list.\<close>

lemma appended_revocation:
  assumes "append_entry_with_access D ol (payload_value (AccessRecordPut k (build_revocation_record now c) None)) kp = Inr (ol', e, access)"
    and "chain_type (ol_chain ol) = recordstore" "compressed_pubkey_from_private D (private_key kp) \<in> write_list ol"
  shows "is_revocation_entry e" "get ''revokes'' (record_of e) = JStr c" "e_key (he_entry e) \<in> write_list ol"
proof -
  let ?p = "payload_value (AccessRecordPut k (build_revocation_record now c) None)"
  from append_Inr[OF assms(1)] have s: "sign_local_entry D ol ?p kp = Inr e" by blast
  note f = sign_local_entry_fields[OF s]
  from sign_local_entry_verified[OF s] obtain hashed where "verify_entry D ol hashed = Inr e" by blast
  then obtain operation where o: "check_entry D (ol_chain ol) hashed = Inr operation" "e = as_verified hashed operation"
    by (auto simp: verify_entry_Inr)
  with f(3) have "validate_operation D ?p (chain_type (ol_chain ol)) (e_key (he_entry hashed) \<in> set (chain_write_list (ol_chain ol))) = Inr operation"
    by (auto simp: check_entry_def result_simps Let_def split: if_splits)
  from revocation_validated[OF this assms(2)] have "ve_operation e = AccessRecordPut k (build_revocation_record now c) None"
    using o(2) by simp
  from revocation_entry[OF this] f(4) assms(3)
  show "is_revocation_entry e" "get ''revokes'' (record_of e) = JStr c" "e_key (he_entry e) \<in> write_list ol" by simp_all
qed

text \<open>The two ways a revocation of an owner returns.\<close>

lemma owner_revoke_cases:
  assumes "revoke_capability D ctx now address revokes capability_id = Inr ctx'"
    and "pc_identity ctx = Some i" "omap_get (pc_libraries ctx) address = Some ol" "public_key (id_key_pair i) \<in> set (chain_write_list (ol_chain ol))"
  obtains "ctx' = ctx" "revocation_of ol revokes \<noteq> None"
  | ol' e access k where "chain_type (ol_chain ol) = recordstore" "revocation_of ol revokes = None"
    "append_entry_with_access D ol (payload_value (AccessRecordPut k (build_revocation_record now revokes) None)) (id_key_pair i) = Inr (ol', e, access)"
    "omap_get (pc_libraries ctx') address = Some ol'"
proof -
  have target: "t = \<lparr>wt_address = address, wt_capability_id = None\<rparr> \<and> chain_type (ol_chain ol) = recordstore"
    if "resolve_write_target ctx (Some address) capability_id track_write = Inr t" for t
    using that assms(2-4) by (auto simp: resolve_write_target_def takes_def require_identity_def result_simps split: if_splits)
  from assms(1) obtain t where t: "resolve_write_target ctx (Some address) capability_id track_write = Inr t"
    by (auto simp: revoke_capability_def serialise_write_def result_simps)
  from target[OF t] t assms that show thesis
    by (auto simp: revoke_capability_def serialise_write_def result_simps require_library_def append_write_def library_append_def
        require_identity_def build_record_put_operation_def Let_def omap_get_set split: if_splits sum.splits)
qed

text \<open>An effective revocation of another identity makes the owner's call return without a record of its own,
  so the owner's revocation is gone when that one stops being effective.\<close>

lemma owner_revocation_skipped:
  assumes "\<not> pc_stopping ctx" "resolve_write_target ctx (Some address) capability_id track_write = Inr \<lparr>wt_address = address, wt_capability_id = None\<rparr>"
    "omap_get (pc_libraries ctx) address = Some ol" "is_protocol_cid (JStr revokes)" "revocation_of ol revokes \<noteq> None"
  shows "revoke_capability D ctx now address revokes capability_id = Inr ctx"
  using assms by (simp add: revoke_capability_def serialise_write_def refuse_when_stopping_def require_library_def Let_def)

section \<open>A sample context\<close>

text \<open>An owner with an empty identity library and an empty recordstore, revoking a capability that is still
  in flight.\<close>

definition sample_context :: peer_context where
  "sample_context = \<lparr>pc_identity = Some \<lparr>id_key_pair = sample_key_pair, id_address = ''id''\<rparr>,
     pc_libraries = [(''id'', create_oplog (sample_log_chain\<lparr>chain_type := identity\<rparr>)), (''lib'', create_oplog sample_log_chain)],
     pc_policies = [], pc_announce = False, pc_announced = create_announced_state, pc_stopping = False\<rparr>"

definition sample_revocation :: entry_payload where
  "sample_revocation = AccessRecordPut (record_key (sample_deps []) (build_revocation_record 9 (he_hash grant_hashed)))
     (build_revocation_record 9 (he_hash grant_hashed)) None"

lemma sample_context_fields [simp]:
  "pc_identity sample_context = Some \<lparr>id_key_pair = sample_key_pair, id_address = ''id''\<rparr>"
  "omap_get (pc_libraries sample_context) ''lib'' = Some (create_oplog sample_log_chain)" "\<not> pc_stopping sample_context"
  "find_own_library sample_context ''lib'' = Inr None"
  by (simp_all add: sample_context_def find_own_library_def own_libraries_def require_identity_def identity_state_def identity_library_state_def
      create_oplog_def)

lemma sample_revocation_ok: "payload_ok (sample_deps []) recordstore sample_revocation"
  by (simp add: payload_ok_def sample_revocation_def build_revocation_record_def is_access_record_type_def ACCESS_RECORD_TYPES_def
      validate_access_record_def revocation_well_formed_def is_uint_def as_uint_def MAX_SAFE_INTEGER_def is_string_def has_extra_fields_def
      REVOCATION_FIELDS_def)

lemma sample_revocation_fits:
  "length (sample_encode (signed_fields (sample_sign sample_revocation [] 1 sample_pubkey))) \<le> SIGNED_ENTRY_MAX_BYTES"
  using sample_record_key_length[of "[]" "build_revocation_record 9 (he_hash grant_hashed)"] grant_hash(2)
  by (simp add: sample_size_defs sample_revocation_def build_revocation_record_def) (simp add: sample_deps_def)

lemma sample_revoke: "\<exists>ctx'. revoke_capability (sample_deps []) sample_context 9 ''lib'' (he_hash grant_hashed) None = Inr ctx'"
proof -
  have "resolve_write_target sample_context (Some ''lib'') None track_write = Inr \<lparr>wt_address = ''lib'', wt_capability_id = None\<rparr>"
    by (simp add: resolve_write_target_def takes_def assert_writable_def require_identity_def create_oplog_def sample_log_chain_def sample_key_pair_def)
  moreover have "revocation_of (create_oplog sample_log_chain) c = None" for c by (simp add: revocation_of_def create_oplog_def)
  moreover obtain ol' e access where "append_entry_with_access (sample_deps []) (create_oplog sample_log_chain) (payload_value sample_revocation)
      sample_key_pair = Inr (ol', e, access)"
    using sample_append_first[OF sample_revocation_ok _ sample_revocation_fits] by (auto simp: sample_revocation_def is_put_def)
  ultimately show ?thesis
    using grant_hash(1)
    by (simp add: revoke_capability_def serialise_write_def refuse_when_stopping_def require_library_def append_write_def library_append_def
        require_identity_def build_record_put_operation_def Let_def sample_revocation_def)
qed

section \<open>Property\<close>

text \<open>C31: A revocation by an owner takes effect: when it returns, an effective revocation of the library names the
  capability, every capability whose chain holds it is reported as revoked and no key holds it as active; and
  unless another identity's revocation was already effective, this stays so in every later or larger
  replica of the library.\<close>

theorem owner_revocation_effective:
  assumes "revoke_capability D ctx now address revokes capability_id = Inr ctx'"
    and "pc_identity ctx = Some i" "omap_get (pc_libraries ctx) address = Some ol" "public_key (id_key_pair i) \<in> set (chain_write_list (ol_chain ol))"
    and "public_key (id_key_pair i) = compressed_pubkey_from_private D (private_key (id_key_pair i))"
    and "reachable D ol" "inj (multihash_of_digest D)" "signs_fresh D ol (id_key_pair i)"
  shows "\<exists>ol'. omap_get (pc_libraries ctx') address = Some ol' \<and> reachable D ol' \<and> entries_of ol \<subseteq>\<^sub>m entries_of ol' \<and> revoked_in ol' revokes \<and>
    (revocation_of ol revokes = None \<longrightarrow> (\<forall>ol''. reachable D ol'' \<and> ol_chain ol'' = ol_chain ol \<and> entries_of ol' \<subseteq>\<^sub>m entries_of ol'' \<longrightarrow>
       revoked_in ol'' revokes))"
  using assms(1-4)
proof (cases rule: owner_revoke_cases)
  case 1
  then show ?thesis using revoked_inI[OF assms(6,7)] assms(3,6) by auto
next
  case (2 ol' e access k)
  from append_Inr[OF 2(3)] have "sign_local_entry D ol (payload_value (AccessRecordPut k (build_revocation_record now revokes) None)) (id_key_pair i) = Inr e"
    by blast
  with assms(8) have new: "omap_get (ol_entries ol) (he_hash e) = None" unfolding signs_fresh_def by blast
  note a = append_ok[OF reachable_ok[OF assms(6,7)] assms(7) 2(3) new]
  have reach: "reachable D ol'" by (rule reachable.appended[OF assms(6) 2(3) new])
  have le: "entries_of ol \<subseteq>\<^sub>m entries_of ol'" unfolding a(3) using new by (auto simp: map_le_def)
  note r = appended_revocation[OF 2(3,1) assms(4)[unfolded assms(5)]]
  have later: "revoked_in x revokes" if "reachable D x" "ol_chain x = ol_chain ol" "entries_of ol' \<subseteq>\<^sub>m entries_of x" for x
  proof (rule revoked_inI[OF that(1) assms(7)])
    have held: "entries_of x (he_hash e) = Some e" using that(3) unfolding a(3) map_le_def by auto
    moreover have "e_key (he_entry e) \<in> write_list x" using r(3) that(2) by simp
    ultimately have "he_hash e \<in> set (ol_effective x)" by (intro owner_revocation_held[OF reachable_ok[OF that(1) assms(7)] _ r(1)])
    from revocation_of_held[OF this held r(2)] show "revocation_of x revokes \<noteq> None" .
  qed
  with reach le 2(4) a(4) show ?thesis by (auto intro: map_le_refl)
qed

theorem owner_revocation_effective_witness:
  "\<exists>ctx' ol'. revoke_capability (sample_deps []) sample_context 9 ''lib'' (he_hash grant_hashed) None = Inr ctx' \<and>
     omap_get (pc_libraries ctx') ''lib'' = Some ol' \<and> revoked_in ol' (he_hash grant_hashed)"
proof -
  obtain ctx' where r: "revoke_capability (sample_deps []) sample_context 9 ''lib'' (he_hash grant_hashed) None = Inr ctx'"
    using sample_revoke by blast
  have "inj (multihash_of_digest (sample_deps []))"
    "signs_fresh (sample_deps []) (create_oplog sample_log_chain) sample_key_pair"
    "public_key sample_key_pair \<in> set (chain_write_list (ol_chain (create_oplog sample_log_chain)))"
    "public_key sample_key_pair = compressed_pubkey_from_private (sample_deps []) (private_key sample_key_pair)"
    by (simp_all add: signs_fresh_def create_oplog_def sample_log_chain_def sample_key_pair_def compressed_pubkey_from_private_def
        inj_def) (simp_all add: sample_deps_def)
  with owner_revocation_effective[OF r, of "\<lparr>id_key_pair = sample_key_pair, id_address = ''id''\<rparr>" "create_oplog sample_log_chain"] r reachable.created
  show ?thesis by auto
qed

end
