(* ===== verification/Block_Walk.thy ===== *)
theory Block_Walk
  imports Content_Store
begin

text \<open>
  The walk over a pinned DAG (\<open>src/fabric/block.ts\<close>): the links of a block and \<open>walk_blocks\<close>, which
  lists the blocks a pin covers. A decoder of a package throws an error of its own, so the errors of
  a walk are those of the protocol and the failure of a codec. The walk is a function of the blocks
  stored: blocks are addressed by content, and what a walk read stays as it was read while the walk
  goes on, as the pin index shows. \<open>visited\<close> is keyed by the spelling of a CID, as in the code, so a block that is linked under
  two codecs is listed once under each.
\<close>

datatype walk_error = Protocol protocol_error | Codec_failure

type_synonym 'a walk_result = "walk_error + 'a"

fun cbor_links :: "cid_lib \<Rightarrow> jsval \<Rightarrow> cid list" where
  "cbor_links C (JLink bs) = [cid_of_bytes C bs]"
| "cbor_links C (JArr vs) = concat (map (cbor_links C) vs)"
| "cbor_links C (JObj fs) = concat (map (\<lambda>(name, v). cbor_links C v) fs)"
| "cbor_links C _ = []"

definition links_of :: "deps \<Rightarrow> cid_lib \<Rightarrow> cid \<Rightarrow> bytes \<Rightarrow> cid list walk_result" where
  "links_of D C c bs =
     (if cid_code c = RAW_CODE then Inr []
      else if cid_code c = DAG_PB_CODE then (case dag_pb_links C bs of None \<Rightarrow> Inl Codec_failure | Some links \<Rightarrow> Inr links)
      else if cid_code c = DAG_CBOR_CODE then (case cbor_decode D bs of None \<Rightarrow> Inl Codec_failure | Some v \<Rightarrow> Inr (cbor_links C v))
      else Inl (Protocol invalid_cid))"

text \<open>The recursive \<open>visit\<close>, with the links still to visit as a stack: the links of a block come before
  the rest of its parent's.\<close>

function visit :: "deps \<Rightarrow> cid_lib \<Rightarrow> blocks \<Rightarrow> bool \<Rightarrow> cid list \<Rightarrow> (string, cid) omap \<Rightarrow> (string, cid) omap walk_result" where
  "visit D C blocks recursive [] visited = Inr visited"
| "visit D C blocks recursive (c # todo) visited =
     (let key = format_cid C c in
      if omap_has visited key then visit D C blocks recursive todo visited
      else if \<not> recursive \<or> cid_code c = RAW_CODE then
        (if \<not> omap_has blocks key then Inl (Protocol content_unavailable)
         else visit D C blocks recursive todo (omap_set key c visited))
      else (case omap_get blocks key of
          None \<Rightarrow> Inl (Protocol content_unavailable)
        | Some bs \<Rightarrow> and_then (links_of D C c bs) (\<lambda>links. visit D C blocks recursive (links @ todo) (omap_set key c visited))))"
  by pat_completeness auto

termination
proof (relation "measures [\<lambda>(D, C, blocks, recursive, todo, visited). card (dom (map_of blocks) - dom (map_of visited)),
    \<lambda>(D, C, blocks, recursive, todo, visited). length todo]", goal_cases)
  case (3 D C blocks recursive c todo visited key)
  then have "card (dom (map_of blocks) - dom (map_of (omap_set key c visited))) \<le> card (dom (map_of blocks) - dom (map_of visited))"
    by (intro card_mono) (auto simp: dom_omap_set finite_dom_map_of)
  then show ?case by (simp add: le_eq_less_or_eq)
next
  case (4 D C blocks recursive c todo visited key bs links)
  then have "dom (map_of blocks) - dom (map_of (omap_set key c visited)) \<subset> dom (map_of blocks) - dom (map_of visited)"
    by (auto simp: dom_omap_set)
  then show ?case by (simp add: psubset_card_mono finite_dom_map_of)
qed auto

declare visit.simps(2) [simp del]

definition walk_blocks :: "deps \<Rightarrow> cid_lib \<Rightarrow> blocks \<Rightarrow> cid \<Rightarrow> bool \<Rightarrow> cid list walk_result" where
  "walk_blocks D C blocks c recursive = and_then (visit D C blocks recursive [c] []) (\<lambda>visited. Inr (omap_values visited))"

section \<open>What a walk returns\<close>

lemma visit_ConsE [consumes 1, case_names seen leaf node]:
  assumes "visit D C blocks recursive (c # todo) visited = Inr w"
  obtains "omap_has visited (format_cid C c)" "visit D C blocks recursive todo visited = Inr w"
  | "\<not> omap_has visited (format_cid C c)" "\<not> recursive \<or> cid_code c = RAW_CODE" "omap_has blocks (format_cid C c)"
    "visit D C blocks recursive todo (omap_set (format_cid C c) c visited) = Inr w"
  | bs links where "\<not> omap_has visited (format_cid C c)" "recursive" "cid_code c \<noteq> RAW_CODE" "omap_get blocks (format_cid C c) = Some bs"
    "links_of D C c bs = Inr links" "visit D C blocks recursive (links @ todo) (omap_set (format_cid C c) c visited) = Inr w"
  using assms by (subst (asm) visit.simps(2)) (auto simp: Let_def result_simps split: if_splits option.splits)

text \<open>Induction over a walk that succeeds.\<close>

lemma visit_success_induct [consumes 1, case_names stop seen leaf node]:
  assumes "visit D C blocks recursive todo visited = Inr w"
    and "P [] w"
    and "\<And>c todo v. omap_has v (format_cid C c) \<Longrightarrow> visit D C blocks recursive todo v = Inr w \<Longrightarrow> P todo v \<Longrightarrow> P (c # todo) v"
    and "\<And>c todo v. \<not> omap_has v (format_cid C c) \<Longrightarrow> \<not> recursive \<or> cid_code c = RAW_CODE \<Longrightarrow> omap_has blocks (format_cid C c) \<Longrightarrow>
      visit D C blocks recursive todo (omap_set (format_cid C c) c v) = Inr w \<Longrightarrow> P todo (omap_set (format_cid C c) c v) \<Longrightarrow> P (c # todo) v"
    and "\<And>c todo v bs links. \<not> omap_has v (format_cid C c) \<Longrightarrow> recursive \<Longrightarrow> cid_code c \<noteq> RAW_CODE \<Longrightarrow>
      omap_get blocks (format_cid C c) = Some bs \<Longrightarrow> links_of D C c bs = Inr links \<Longrightarrow>
      visit D C blocks recursive (links @ todo) (omap_set (format_cid C c) c v) = Inr w \<Longrightarrow>
      P (links @ todo) (omap_set (format_cid C c) c v) \<Longrightarrow> P (c # todo) v"
  shows "P todo visited"
  using assms
proof (induction D C blocks recursive todo visited rule: visit.induct)
  case (2 D C blocks recursive c todo visited)
  note steps = 2(5-8)
  from 2(4) show ?case
  proof (cases rule: visit_ConsE)
    case seen
    have "P todo visited" by (rule 2(1)[OF refl seen]) (fact steps)+
    then show ?thesis by (rule steps(2)[OF seen])
  next
    case leaf
    from leaf(3) have stored: "\<not> \<not> omap_has blocks (format_cid C c)" by simp
    have "P todo (omap_set (format_cid C c) c visited)" by (rule 2(2)[OF refl leaf(1,2) stored leaf(4)]) (fact steps)+
    then show ?thesis by (rule steps(3)[OF leaf])
  next
    case (node bs links)
    from node(2,3) have inner: "\<not> (\<not> recursive \<or> cid_code c = RAW_CODE)" by simp
    have "P (links @ todo) (omap_set (format_cid C c) c visited)" by (rule 2(3)[OF refl node(1) inner node(4-6)]) (fact steps)+
    then show ?thesis by (rule steps(4)[OF node])
  qed
qed simp

lemma visit_keeps: "visit D C blocks recursive todo visited = Inr w \<Longrightarrow> \<exists>more. w = visited @ more"
  by (induction rule: visit_success_induct) (auto simp: omap_set_new)

text \<open>A walk that succeeded reads the same in every store that agrees on the blocks it covered.\<close>

lemma visit_agrees:
  assumes "visit D C blocks recursive todo visited = Inr w" "\<forall>k \<in> dom (map_of w). map_of blocks' k = map_of blocks k"
  shows "visit D C blocks' recursive todo visited = Inr w"
proof -
  have keep: "map_of blocks' (format_cid C c) = map_of blocks (format_cid C c)"
    if "visit D C blocks recursive todo' (omap_set (format_cid C c) c v) = Inr w" for c v todo'
  proof -
    from visit_keeps[OF that] obtain more where "w = omap_set (format_cid C c) c v @ more" ..
    then have "format_cid C c \<in> dom (map_of w)" by (simp add: dom_omap_set)
    with assms(2) show ?thesis by blast
  qed
  from assms(1) show ?thesis
    by (induction rule: visit_success_induct) (simp_all add: visit.simps keep)
qed

text \<open>Each covered CID is listed once, under its own spelling, and its block is stored.\<close>

definition walked :: "cid_lib \<Rightarrow> blocks \<Rightarrow> (string, cid) omap \<Rightarrow> bool" where
  "walked C blocks w = (distinct (omap_keys w) \<and> (\<forall>(key, c) \<in> set w. key = format_cid C c \<and> omap_has blocks key))"

lemma walked_set: "walked C blocks w \<Longrightarrow> omap_has blocks (format_cid C c) \<Longrightarrow> \<not> omap_has w (format_cid C c) \<Longrightarrow>
    walked C blocks (omap_set (format_cid C c) c w)"
  by (auto simp: walked_def omap_set_new map_of_eq_None_iff)

lemma visit_walked: "visit D C blocks recursive todo visited = Inr w \<Longrightarrow> walked C blocks visited \<Longrightarrow> walked C blocks w"
  by (induction rule: visit_success_induct) (simp_all add: walked_set)

lemma walk_blocks_Inr:
  assumes "walk_blocks D C blocks c recursive = Inr covered"
  shows "\<exists>rest. covered = c # rest" "distinct (map (format_cid C) covered)"
    "\<forall>b \<in> set covered. omap_has blocks (format_cid C b)"
proof -
  from assms obtain w where w: "visit D C blocks recursive [c] [] = Inr w" "covered = omap_values w"
    by (auto simp: walk_blocks_def result_simps)
  from w(1) show "\<exists>rest. covered = c # rest"
    by (cases rule: visit_ConsE) (auto simp: w(2) dest!: visit_keeps)
  from visit_walked[OF w(1)] have ok: "walked C blocks w" by (simp add: walked_def)
  then have keys: "map (format_cid C) covered = omap_keys w"
    by (auto simp: walked_def w(2) comp_def)
  with ok show "distinct (map (format_cid C) covered)" by (simp add: walked_def)
  from ok show "\<forall>b \<in> set covered. omap_has blocks (format_cid C b)" by (auto simp: walked_def w(2))
qed

lemma walk_blocks_agrees:
  assumes "walk_blocks D C blocks c recursive = Inr covered"
    and "\<forall>b \<in> set covered. omap_get blocks' (format_cid C b) = omap_get blocks (format_cid C b)"
  shows "walk_blocks D C blocks' c recursive = Inr covered"
proof -
  from assms(1) obtain w where w: "visit D C blocks recursive [c] [] = Inr w" "covered = omap_values w"
    by (auto simp: walk_blocks_def result_simps)
  from visit_walked[OF w(1)] have ok: "walked C blocks w" by (simp add: walked_def)
  have "\<forall>k \<in> dom (map_of w). map_of blocks' k = map_of blocks k"
  proof
    fix k assume "k \<in> dom (map_of w)"
    then obtain b where "(k, b) \<in> set w" by (auto dest: map_of_SomeD)
    with ok assms(2) w(2) show "map_of blocks' k = map_of blocks k" by (force simp: walked_def)
  qed
  from visit_agrees[OF w(1) this] w(2) show ?thesis by (simp add: walk_blocks_def)
qed

lemma walk_blocks_direct: "walk_blocks D C blocks c False = Inr covered \<Longrightarrow> covered = [c]"
  by (auto simp: walk_blocks_def visit.simps(2) Let_def split: if_splits)

end
