(* ===== verification/Pin_Index.thy ===== *)
theory Pin_Index
  imports Block_Walk
begin

text \<open>
  Pin accounting (\<open>create_pin_index\<close> of \<open>src/fabric/pin-index.ts\<close>) over the map-backed store of
  \<open>src/adapter/memory/content-store.ts\<close>. The two tables are ordered maps keyed on the multihash. A pin,
  an unpin and an eviction run across several turns: the jobs that hold a root's lock and the eviction
  that holds the gate are part of the state, and each stretch of code between two awaits is one
  operation. The statements of a transaction are taken not to fail.
\<close>

type_synonym multihash = "nat \<times> bytes"

section \<open>State\<close>

datatype pin_job =
    Pin_Waiting cid bool "bool option"
  | Pin_Walking cid bool "bool option"
  | Unpinning cid bool

datatype eviction = Evict_Waiting cid | Evict_Removing cid

record pin_index =
  pi_blocks :: blocks
  pi_refs :: "(multihash, int) omap"
  pi_roots :: "(multihash, bool) omap"
  pi_locks :: "(multihash, pin_job) omap"
  pi_walking :: nat
  pi_evicting :: "eviction option"

definition create_pin_index :: pin_index where
  "create_pin_index = \<lparr>pi_blocks = [], pi_refs = [], pi_roots = [], pi_locks = [], pi_walking = 0, pi_evicting = None\<rparr>"

section \<open>Statements\<close>

definition root_kind :: "cid \<Rightarrow> pin_index \<Rightarrow> bool option" where
  "root_kind c st = omap_get (pi_roots st) (multihash c)"

definition reference :: "cid \<Rightarrow> (multihash, int) omap \<Rightarrow> (multihash, int) omap" where
  "reference c refs = omap_set (multihash c) (case omap_get refs (multihash c) of None \<Rightarrow> 1 | Some n \<Rightarrow> n + 1) refs"

definition dereference :: "cid \<Rightarrow> (multihash, int) omap \<Rightarrow> (multihash, int) omap" where
  "dereference c refs = (case omap_get refs (multihash c) of None \<Rightarrow> refs | Some n \<Rightarrow> omap_set (multihash c) (n - 1) refs)"

definition drop_released :: "cid \<Rightarrow> (multihash, int) omap \<Rightarrow> (multihash, int) omap" where
  "drop_released c refs = (case omap_get refs (multihash c) of
     Some n \<Rightarrow> if n \<le> 0 then omap_delete (multihash c) refs else refs
   | None \<Rightarrow> refs)"

definition unlock :: "cid \<Rightarrow> pin_index \<Rightarrow> pin_index" where
  "unlock c st = st\<lparr>pi_locks := omap_delete (multihash c) (pi_locks st)\<rparr>"

section \<open>Pin and unpin\<close>

text \<open>\<open>pin\<close> with its root's lock: up to the gate, through the gate, and from the end of the walk on.\<close>

definition pin_start :: "cid \<Rightarrow> bool \<Rightarrow> pin_index \<Rightarrow> pin_index" where
  "pin_start c recursive st =
     (let kind = root_kind c st in
      if kind = Some True \<or> (kind = Some False \<and> \<not> recursive) then st
      else st\<lparr>pi_locks := omap_set (multihash c) (Pin_Waiting c recursive kind) (pi_locks st)\<rparr>)"

definition pin_walk :: "cid \<Rightarrow> bool \<Rightarrow> bool option \<Rightarrow> pin_index \<Rightarrow> pin_index" where
  "pin_walk c recursive kind st =
     st\<lparr>pi_walking := pi_walking st + 1, pi_locks := omap_set (multihash c) (Pin_Walking c recursive kind) (pi_locks st)\<rparr>"

definition pin_commit :: "cid \<Rightarrow> bool \<Rightarrow> bool option \<Rightarrow> cid list \<Rightarrow> pin_index \<Rightarrow> pin_index" where
  "pin_commit c recursive kind covered st =
     st\<lparr>pi_refs := fold reference (if kind = Some False then tl covered else covered) (pi_refs st),
        pi_roots := omap_set (multihash c) recursive (pi_roots st)\<rparr>"

definition pin_done :: "deps \<Rightarrow> cid_lib \<Rightarrow> cid \<Rightarrow> bool \<Rightarrow> bool option \<Rightarrow> pin_index \<Rightarrow> pin_index" where
  "pin_done D C c recursive kind st =
     (let st1 = (case walk_blocks D C (pi_blocks st) c recursive of
                   Inl e \<Rightarrow> st
                 | Inr covered \<Rightarrow> pin_commit c recursive kind covered st)
      in unlock c (st1\<lparr>pi_walking := pi_walking st1 - 1\<rparr>))"

text \<open>A walk also fails where a block is missing when it is read, though it is stored by the time the
  walk ends.\<close>

definition pin_failed :: "cid \<Rightarrow> pin_index \<Rightarrow> pin_index" where
  "pin_failed c st = unlock c (st\<lparr>pi_walking := pi_walking st - 1\<rparr>)"

definition unpin_start :: "cid \<Rightarrow> pin_index \<Rightarrow> pin_index" where
  "unpin_start c st = (case root_kind c st of
     None \<Rightarrow> st
   | Some kind \<Rightarrow> st\<lparr>pi_locks := omap_set (multihash c) (Unpinning c kind) (pi_locks st)\<rparr>)"

definition unpin_commit :: "cid \<Rightarrow> cid list \<Rightarrow> pin_index \<Rightarrow> pin_index" where
  "unpin_commit c covered st =
     st\<lparr>pi_roots := omap_delete (multihash c) (pi_roots st),
        pi_refs := fold (\<lambda>block refs. drop_released block (dereference block refs)) covered (pi_refs st)\<rparr>"

definition unpin_done :: "deps \<Rightarrow> cid_lib \<Rightarrow> cid \<Rightarrow> bool \<Rightarrow> pin_index \<Rightarrow> pin_index" where
  "unpin_done D C c kind st =
     unlock c (case walk_blocks D C (pi_blocks st) c kind of
       Inl e \<Rightarrow> st
     | Inr covered \<Rightarrow> unpin_commit c covered st)"

definition is_pinned :: "cid \<Rightarrow> pin_index \<Rightarrow> bool" where
  "is_pinned c st = omap_has (pi_refs st) (multihash c)"

section \<open>Eviction\<close>

text \<open>\<open>evict\<close>: taking the gate, the check once no pin walks, and the removal.\<close>

definition evict_start :: "cid \<Rightarrow> pin_index \<Rightarrow> pin_index" where
  "evict_start c st = st\<lparr>pi_evicting := Some (Evict_Waiting c)\<rparr>"

definition evict_check :: "cid_lib \<Rightarrow> cid \<Rightarrow> pin_index \<Rightarrow> pin_index" where
  "evict_check C c st =
     (if omap_has (pi_refs st) (multihash c) \<or> \<not> omap_has (pi_blocks st) (format_cid C c)
      then st\<lparr>pi_evicting := None\<rparr> else st\<lparr>pi_evicting := Some (Evict_Removing c)\<rparr>)"

definition evict_remove :: "cid_lib \<Rightarrow> cid \<Rightarrow> pin_index \<Rightarrow> pin_index" where
  "evict_remove C c st = st\<lparr>pi_blocks := omap_delete (format_cid C c) (pi_blocks st), pi_evicting := None\<rparr>"

section \<open>Runs\<close>

text \<open>
  Every interleaving of the operations on one store. A job starts only when no other holds its root's
  lock; a pin passes the gate only while no eviction holds it, and an eviction goes ahead only once no
  pin walks. Storing a block again stores the same bytes. Every root is pinned and unpinned through one
  CID, \<open>cid_of\<close> of its multihash: this is a condition on the callers. The code takes any CID of the
  multihash, and \<open>unpin_other_codec_leaks\<close> below shows what goes wrong then.
\<close>

inductive pin_run :: "deps \<Rightarrow> cid_lib \<Rightarrow> (multihash \<Rightarrow> cid) \<Rightarrow> pin_index \<Rightarrow> bool" for D C cid_of where
  created: "pin_run D C cid_of create_pin_index"
| stored: "pin_run D C cid_of st \<Longrightarrow> omap_get (pi_blocks st) key \<in> {None, Some bs} \<Longrightarrow>
    pin_run D C cid_of (st\<lparr>pi_blocks := omap_set key bs (pi_blocks st)\<rparr>)"
| pin: "pin_run D C cid_of st \<Longrightarrow> \<not> omap_has (pi_locks st) (multihash c) \<Longrightarrow> cid_of (multihash c) = c \<Longrightarrow>
    pin_run D C cid_of (pin_start c recursive st)"
| walk: "pin_run D C cid_of st \<Longrightarrow> omap_get (pi_locks st) (multihash c) = Some (Pin_Waiting c recursive kind) \<Longrightarrow>
    pi_evicting st = None \<Longrightarrow> pin_run D C cid_of (pin_walk c recursive kind st)"
| pinned: "pin_run D C cid_of st \<Longrightarrow> omap_get (pi_locks st) (multihash c) = Some (Pin_Walking c recursive kind) \<Longrightarrow>
    pin_run D C cid_of (pin_done D C c recursive kind st)"
| pin_failed: "pin_run D C cid_of st \<Longrightarrow> omap_get (pi_locks st) (multihash c) = Some (Pin_Walking c recursive kind) \<Longrightarrow>
    pin_run D C cid_of (pin_failed c st)"
| unpin: "pin_run D C cid_of st \<Longrightarrow> \<not> omap_has (pi_locks st) (multihash c) \<Longrightarrow> cid_of (multihash c) = c \<Longrightarrow>
    pin_run D C cid_of (unpin_start c st)"
| unpinned: "pin_run D C cid_of st \<Longrightarrow> omap_get (pi_locks st) (multihash c) = Some (Unpinning c kind) \<Longrightarrow>
    pin_run D C cid_of (unpin_done D C c kind st)"
| evict: "pin_run D C cid_of st \<Longrightarrow> pi_evicting st = None \<Longrightarrow> pin_run D C cid_of (evict_start c st)"
| evict_check: "pin_run D C cid_of st \<Longrightarrow> pi_evicting st = Some (Evict_Waiting c) \<Longrightarrow> pi_walking st = 0 \<Longrightarrow>
    pin_run D C cid_of (evict_check C c st)"
| evict_remove: "pin_run D C cid_of st \<Longrightarrow> pi_evicting st = Some (Evict_Removing c) \<Longrightarrow>
    pin_run D C cid_of (evict_remove C c st)"

section \<open>Sums over a table\<close>

definition total :: "('k \<Rightarrow> 'v \<Rightarrow> nat) \<Rightarrow> ('k, 'v) omap \<Rightarrow> nat" where
  "total f m = sum_list (map (\<lambda>(k, v). f k v) m)"

lemma total_Nil [simp]: "total f [] = 0"
  by (simp add: total_def)

lemma total_Cons [simp]: "total f ((k, v) # m) = f k v + total f m"
  by (simp add: total_def)

lemma total_set_new: "omap_get m k = None \<Longrightarrow> total f (omap_set k v m) = total f m + f k v"
  by (simp add: total_def omap_set_new)

lemma total_set: "distinct (omap_keys m) \<Longrightarrow> omap_get m k = Some u \<Longrightarrow> total f (omap_set k v m) + f k u = total f m + f k v"
  by (induction m) (auto split: if_splits)

lemma set_omap_set: "set (omap_set k v m) \<subseteq> insert (k, v) (set m)"
  by (induction m) auto

lemma delete_absent: "k \<notin> fst ` set m \<Longrightarrow> omap_delete k m = m"
  by (induction m) auto

lemma total_delete: "distinct (omap_keys m) \<Longrightarrow> omap_get m k = Some u \<Longrightarrow> total f (omap_delete k m) + f k u = total f m"
  by (induction m) (auto simp: delete_absent split: if_splits)

lemma total_zero_iff: "total f m = 0 \<longleftrightarrow> (\<forall>(k, v) \<in> set m. f k v = 0)"
  by (induction m) auto

lemma total_cong: "(\<And>k v. (k, v) \<in> set m \<Longrightarrow> f k v = g k v) \<Longrightarrow> total f m = total g m"
  by (auto simp: total_def intro!: arg_cong[where f = sum_list])

section \<open>Reference counts\<close>

definition count_row :: "nat \<Rightarrow> int option" where
  "count_row n = (if n = 0 then None else Some (int n))"

definition times_in :: "multihash \<Rightarrow> cid list \<Rightarrow> nat" where
  "times_in key cs = count_list (map multihash cs) key"

lemma times_in_simps [simp]:
  "times_in key [] = 0"
  "times_in key (c # cs) = (if multihash c = key then 1 else 0) + times_in key cs"
  by (simp_all add: times_in_def)

lemma times_in_pos: "0 < times_in key cs \<longleftrightarrow> key \<in> multihash ` set cs"
  by (induction cs) auto

lemma times_in_zero: "times_in key cs = 0 \<longleftrightarrow> key \<notin> multihash ` set cs"
  using times_in_pos[of key cs] by linarith

lemma fold_reference:
  "omap_get refs key = count_row n \<Longrightarrow> omap_get (fold reference cs refs) key = count_row (n + times_in key cs)"
proof (induction cs arbitrary: refs n)
  case (Cons c cs)
  have "omap_get (reference c refs) key = count_row (n + (if multihash c = key then 1 else 0))"
    using Cons.prems by (auto simp: reference_def ordered_simps count_row_def)
  from Cons.IH[OF this] show ?case by simp
qed simp

lemma fold_dereference:
  "omap_get refs key = count_row (n + times_in key cs) \<Longrightarrow>
     omap_get (fold (\<lambda>c refs. drop_released c (dereference c refs)) cs refs) key = count_row n"
proof (induction cs arbitrary: refs)
  case (Cons c cs)
  have "omap_get (drop_released c (dereference c refs)) key = count_row (n + times_in key cs)"
  proof (cases "multihash c = key")
    case True
    with Cons.prems show ?thesis
      by (auto simp: dereference_def drop_released_def ordered_simps count_row_def)
  next
    case False
    have "omap_get (drop_released c (dereference c refs)) key = omap_get refs key"
      using False by (auto simp: dereference_def drop_released_def ordered_simps split: option.splits)
    with Cons.prems False show ?thesis by simp
  qed
  from Cons.IH[OF this] show ?case by simp
qed simp

section \<open>Invariant\<close>

text \<open>The blocks a root's pin covers in a store, and the number of times pinned roots cover a block.\<close>

definition cover :: "deps \<Rightarrow> cid_lib \<Rightarrow> blocks \<Rightarrow> cid \<Rightarrow> bool \<Rightarrow> cid list" where
  "cover D C blocks c kind = (case walk_blocks D C blocks c kind of Inl e \<Rightarrow> [] | Inr covered \<Rightarrow> covered)"

definition pin_count :: "deps \<Rightarrow> cid_lib \<Rightarrow> (multihash \<Rightarrow> cid) \<Rightarrow> blocks \<Rightarrow> (multihash, bool) omap \<Rightarrow> multihash \<Rightarrow> nat" where
  "pin_count D C cid_of blocks roots key = total (\<lambda>mh kind. times_in key (cover D C blocks (cid_of mh) kind)) roots"

definition is_walking :: "pin_job \<Rightarrow> bool" where
  "is_walking job = (case job of Pin_Walking _ _ _ \<Rightarrow> True | _ \<Rightarrow> False)"

definition job_ok :: "(multihash \<Rightarrow> cid) \<Rightarrow> (multihash, bool) omap \<Rightarrow> multihash \<Rightarrow> pin_job \<Rightarrow> bool" where
  "job_ok cid_of roots mh job = (case job of
     Pin_Waiting c recursive kind \<Rightarrow> multihash c = mh \<and> cid_of mh = c \<and> omap_get roots mh = kind \<and> kind \<noteq> Some True \<and> (kind = Some False \<longrightarrow> recursive)
   | Pin_Walking c recursive kind \<Rightarrow> multihash c = mh \<and> cid_of mh = c \<and> omap_get roots mh = kind \<and> kind \<noteq> Some True \<and> (kind = Some False \<longrightarrow> recursive)
   | Unpinning c kind \<Rightarrow> multihash c = mh \<and> cid_of mh = c \<and> omap_get roots mh = Some kind)"

definition walkable :: "deps \<Rightarrow> cid_lib \<Rightarrow> (multihash \<Rightarrow> cid) \<Rightarrow> blocks \<Rightarrow> (multihash, bool) omap \<Rightarrow> bool" where
  "walkable D C cid_of blocks roots =
     (\<forall>(mh, kind) \<in> set roots. \<exists>covered. walk_blocks D C blocks (cid_of mh) kind = Inr covered)"

definition counted :: "deps \<Rightarrow> cid_lib \<Rightarrow> (multihash \<Rightarrow> cid) \<Rightarrow> pin_index \<Rightarrow> bool" where
  "counted D C cid_of st = (distinct (omap_keys (pi_roots st)) \<and> walkable D C cid_of (pi_blocks st) (pi_roots st) \<and>
     (\<forall>key. omap_get (pi_refs st) key = count_row (pin_count D C cid_of (pi_blocks st) (pi_roots st) key)))"

definition gated :: "(multihash \<Rightarrow> cid) \<Rightarrow> pin_index \<Rightarrow> bool" where
  "gated cid_of st = (distinct (omap_keys (pi_locks st)) \<and>
     (\<forall>mh job. omap_get (pi_locks st) mh = Some job \<longrightarrow> job_ok cid_of (pi_roots st) mh job) \<and>
     pi_walking st = total (\<lambda>mh job. if is_walking job then 1 else 0) (pi_locks st) \<and>
     (\<forall>c. pi_evicting st = Some (Evict_Removing c) \<longrightarrow> pi_walking st = 0 \<and> \<not> omap_has (pi_refs st) (multihash c)))"

lemma cover_Inr [simp]: "walk_blocks D C blocks c kind = Inr covered \<Longrightarrow> cover D C blocks c kind = covered"
  by (simp add: cover_def)

lemma counted_frame [simp]:
  "counted D C cid_of (st\<lparr>pi_walking := n\<rparr>) = counted D C cid_of st"
  "counted D C cid_of (st\<lparr>pi_locks := locks\<rparr>) = counted D C cid_of st"
  "counted D C cid_of (st\<lparr>pi_evicting := ev\<rparr>) = counted D C cid_of st"
  "counted D C cid_of (unlock c st) = counted D C cid_of st"
  by (simp_all add: counted_def unlock_def)

lemma counted_blocks:
  assumes counted: "counted D C cid_of st"
    and agree: "\<And>mh kind b. (mh, kind) \<in> set (pi_roots st) \<Longrightarrow> b \<in> set (cover D C (pi_blocks st) (cid_of mh) kind) \<Longrightarrow>
      omap_get blocks' (format_cid C b) = omap_get (pi_blocks st) (format_cid C b)"
  shows "counted D C cid_of (st\<lparr>pi_blocks := blocks'\<rparr>)"
proof -
  have walk: "walk_blocks D C blocks' (cid_of mh) kind = walk_blocks D C (pi_blocks st) (cid_of mh) kind"
    if "(mh, kind) \<in> set (pi_roots st)" for mh kind
  proof -
    from counted that obtain covered where w: "walk_blocks D C (pi_blocks st) (cid_of mh) kind = Inr covered"
      unfolding counted_def walkable_def by blast
    from agree[OF that] w have "walk_blocks D C blocks' (cid_of mh) kind = Inr covered"
      by (intro walk_blocks_agrees[OF w]) simp
    with w show ?thesis by simp
  qed
  have "pin_count D C cid_of blocks' (pi_roots st) key = pin_count D C cid_of (pi_blocks st) (pi_roots st) key" for key
    unfolding pin_count_def cover_def by (intro total_cong) (simp add: walk)
  moreover have "walkable D C cid_of blocks' (pi_roots st)"
    using counted walk unfolding counted_def walkable_def by fastforce
  ultimately show ?thesis using counted by (simp add: counted_def)
qed

lemma pin_commit_counted:
  assumes counted: "counted D C cid_of st" and walk: "walk_blocks D C (pi_blocks st) c recursive = Inr covered"
    and c: "cid_of (multihash c) = c" and kind: "omap_get (pi_roots st) (multihash c) = kind" "kind \<noteq> Some True" "kind = Some False \<longrightarrow> recursive"
  shows "counted D C cid_of (pin_commit c recursive kind covered st)"
proof -
  let ?roots = "omap_set (multihash c) recursive (pi_roots st)"
  let ?new = "if kind = Some False then tl covered else covered"
  have row: "omap_get (pi_refs st) key = count_row (pin_count D C cid_of (pi_blocks st) (pi_roots st) key)" for key
    using counted unfolding counted_def by blast
  have count: "pin_count D C cid_of (pi_blocks st) ?roots key = pin_count D C cid_of (pi_blocks st) (pi_roots st) key + times_in key ?new" for key
  proof (cases kind)
    case None
    with kind walk c show ?thesis by (simp add: pin_count_def total_set_new)
  next
    case (Some k)
    with kind have k: "omap_get (pi_roots st) (multihash c) = Some False" "recursive" by (cases k; simp)+
    from counted map_of_SomeD[OF k(1)] c obtain direct where direct: "walk_blocks D C (pi_blocks st) c False = Inr direct"
      unfolding counted_def walkable_def by force
    with walk_blocks_direct[OF direct] have "cover D C (pi_blocks st) c False = [c]" by simp
    moreover from walk_blocks_Inr(1)[OF walk] obtain rest where "covered = c # rest" ..
    moreover from counted have "distinct (omap_keys (pi_roots st))" by (simp add: counted_def)
    ultimately show ?thesis
      using total_set[of "pi_roots st" "multihash c" False "\<lambda>mh kind. times_in key (cover D C (pi_blocks st) (cid_of mh) kind)" recursive]
        k walk c kind(1) by (simp add: pin_count_def)
  qed
  have "walkable D C cid_of (pi_blocks st) ?roots"
    using counted walk c unfolding counted_def walkable_def
    by (auto dest!: set_mp[OF set_omap_set] split: if_splits)
  then show ?thesis
    using counted fold_reference[OF row] by (auto simp: counted_def pin_commit_def count distinct_update)
qed

lemma unpin_commit_counted:
  assumes counted: "counted D C cid_of st" and walk: "walk_blocks D C (pi_blocks st) c kind = Inr covered"
    and c: "cid_of (multihash c) = c" and kind: "omap_get (pi_roots st) (multihash c) = Some kind"
  shows "counted D C cid_of (unpin_commit c covered st)"
proof -
  from counted have "distinct (omap_keys (pi_roots st))" by (simp add: counted_def)
  from total_delete[OF this kind] walk c
  have count: "pin_count D C cid_of (pi_blocks st) (pi_roots st) key =
      pin_count D C cid_of (pi_blocks st) (omap_delete (multihash c) (pi_roots st)) key + times_in key covered" for key
    by (metis (no_types, lifting) cover_Inr pin_count_def)
  have "walkable D C cid_of (pi_blocks st) (omap_delete (multihash c) (pi_roots st))"
    using counted unfolding counted_def walkable_def by (auto simp: AList.delete_eq)
  moreover have "distinct (omap_keys (omap_delete (multihash c) (pi_roots st)))"
    using counted by (simp add: counted_def distinct_delete)
  ultimately show ?thesis
    using counted fold_dereference by (simp add: counted_def unpin_commit_def count)
qed

lemma job_ok_cong: "omap_get roots' mh = omap_get roots mh \<Longrightarrow> job_ok cid_of roots' mh job = job_ok cid_of roots mh job"
  by (cases job) (simp_all add: job_ok_def)

lemma gated_blocks [simp]: "gated cid_of (st\<lparr>pi_blocks := blocks\<rparr>) = gated cid_of st"
  by (simp add: gated_def)

lemma gatedD:
  assumes "gated cid_of st"
  shows "distinct (omap_keys (pi_locks st))"
    "omap_get (pi_locks st) mh = Some job \<Longrightarrow> job_ok cid_of (pi_roots st) mh job"
    "pi_walking st = total (\<lambda>mh job. if is_walking job then 1 else 0) (pi_locks st)"
    "pi_evicting st = Some (Evict_Removing c) \<Longrightarrow> pi_walking st = 0 \<and> \<not> omap_has (pi_refs st) (multihash c)"
  using assms unfolding gated_def by blast+

text \<open>Taking a lock for a job that does not walk yet.\<close>

lemma gated_lock:
  assumes "gated cid_of st" "\<not> omap_has (pi_locks st) mh" "job_ok cid_of (pi_roots st) mh job" "\<not> is_walking job"
  shows "gated cid_of (st\<lparr>pi_locks := omap_set mh job (pi_locks st)\<rparr>)"
proof -
  from assms(2,4) have "total (\<lambda>mh job. if is_walking job then 1 else 0) (omap_set mh job (pi_locks st)) = total (\<lambda>mh job. if is_walking job then 1 else 0) (pi_locks st)"
    by (subst total_set_new) simp_all
  then show ?thesis unfolding gated_def using gatedD[OF assms(1)] assms(3) by (simp add: distinct_update ordered_simps)
qed

lemma pin_walk_gated:
  assumes gated: "gated cid_of st" and job: "omap_get (pi_locks st) (multihash c) = Some (Pin_Waiting c recursive kind)"
    and "pi_evicting st = None"
  shows "gated cid_of (pin_walk c recursive kind st)"
proof -
  from gatedD(2)[OF gated job] have "job_ok cid_of (pi_roots st) (multihash c) (Pin_Walking c recursive kind)"
    by (simp add: job_ok_def)
  moreover have "total (\<lambda>mh job. if is_walking job then 1 else 0) (omap_set (multihash c) (Pin_Walking c recursive kind) (pi_locks st)) = Suc (pi_walking st)"
    using total_set[OF gatedD(1)[OF gated] job, of "\<lambda>mh job. if is_walking job then 1 else 0" "Pin_Walking c recursive kind"] gatedD(3)[OF gated]
    by (simp add: is_walking_def)
  ultimately show ?thesis
    unfolding gated_def pin_walk_def using gatedD[OF gated] assms(3) by (simp add: distinct_update ordered_simps)
qed

text \<open>The end of a job: its lock goes, and only its own root and counts of its own changed.\<close>

lemma gated_unlock:
  assumes gated: "gated cid_of st" and job: "omap_get (pi_locks st) (multihash c) = Some job"
    and st': "pi_locks st' = pi_locks st" "pi_evicting st' = pi_evicting st"
      "pi_walking st' + (if is_walking job then 1 else 0) = pi_walking st"
      "\<And>mh. mh \<noteq> multihash c \<Longrightarrow> omap_get (pi_roots st') mh = omap_get (pi_roots st) mh"
    and refs: "is_walking job \<or> (\<forall>d. omap_get (pi_refs st) (multihash d) = None \<longrightarrow> omap_get (pi_refs st') (multihash d) = None)"
  shows "gated cid_of (unlock c st')"
proof -
  let ?locks = "omap_delete (multihash c) (pi_locks st)"
  have "total (\<lambda>mh job. if is_walking job then 1 else 0) ?locks = pi_walking st'"
    using total_delete[OF gatedD(1)[OF gated] job, of "\<lambda>mh job. if is_walking job then 1 else 0"] gatedD(3)[OF gated] st'(3) by simp
  moreover have "job_ok cid_of (pi_roots st') mh j" if "omap_get ?locks mh = Some j" for mh j
    using that gatedD(2)[OF gated, of mh j] job_ok_cong[OF st'(4), of mh] by (simp add: ordered_simps split: if_splits)
  moreover have "pi_walking st' = 0 \<and> \<not> omap_has (pi_refs st') (multihash d)" if "pi_evicting st' = Some (Evict_Removing d)" for d
    using gatedD(4)[OF gated, of d] that st'(2,3) refs by auto
  ultimately show ?thesis
    unfolding gated_def unlock_def using gatedD(1)[OF gated] st'(1) by (simp add: distinct_delete)
qed

lemma dereference_None: "omap_get refs key = None \<Longrightarrow> omap_get (drop_released c (dereference c refs)) key = None"
  by (auto simp: dereference_def drop_released_def ordered_simps split: option.splits)

lemma fold_dereference_None:
  "omap_get refs key = None \<Longrightarrow> omap_get (fold (\<lambda>c refs. drop_released c (dereference c refs)) cs refs) key = None"
  by (induction cs arbitrary: refs) (simp_all add: dereference_None)

section \<open>Runs keep the counts\<close>

lemma pin_done_ok:
  assumes "counted D C cid_of st" "gated cid_of st"
    and job: "omap_get (pi_locks st) (multihash c) = Some (Pin_Walking c recursive kind)"
  shows "counted D C cid_of (pin_done D C c recursive kind st)" "gated cid_of (pin_done D C c recursive kind st)"
proof -
  from gatedD(2)[OF assms(2) job]
  have j: "cid_of (multihash c) = c" "omap_get (pi_roots st) (multihash c) = kind" "kind \<noteq> Some True" "kind = Some False \<longrightarrow> recursive"
    by (simp_all add: job_ok_def)
  show "counted D C cid_of (pin_done D C c recursive kind st)"
    using assms(1) pin_commit_counted[OF assms(1) _ j]
    by (cases "walk_blocks D C (pi_blocks st) c recursive") (simp_all add: pin_done_def Let_def)
  from total_delete[OF gatedD(1)[OF assms(2)] job, of "\<lambda>mh job. if is_walking job then 1 else 0"] gatedD(3)[OF assms(2)]
  have pos: "0 < pi_walking st" by (simp add: is_walking_def)
  show "gated cid_of (pin_done D C c recursive kind st)"
    unfolding pin_done_def Let_def using pos
    by (intro gated_unlock[OF assms(2) job])
       (auto simp: pin_commit_def is_walking_def ordered_simps split: sum.splits)
qed

lemma pin_failed_ok:
  assumes "counted D C cid_of st" "gated cid_of st"
    and job: "omap_get (pi_locks st) (multihash c) = Some (Pin_Walking c recursive kind)"
  shows "counted D C cid_of (pin_failed c st)" "gated cid_of (pin_failed c st)"
proof -
  show "counted D C cid_of (pin_failed c st)" using assms(1) by (simp add: pin_failed_def)
  from total_delete[OF gatedD(1)[OF assms(2)] job, of "\<lambda>mh job. if is_walking job then 1 else 0"] gatedD(3)[OF assms(2)]
  have "0 < pi_walking st" by (simp add: is_walking_def)
  then show "gated cid_of (pin_failed c st)"
    unfolding pin_failed_def by (intro gated_unlock[OF assms(2) job]) (auto simp: is_walking_def)
qed

lemma unpin_done_ok:
  assumes "counted D C cid_of st" "gated cid_of st"
    and job: "omap_get (pi_locks st) (multihash c) = Some (Unpinning c kind)"
  shows "counted D C cid_of (unpin_done D C c kind st)" "gated cid_of (unpin_done D C c kind st)"
proof -
  from gatedD(2)[OF assms(2) job] have j: "cid_of (multihash c) = c" "omap_get (pi_roots st) (multihash c) = Some kind"
    by (simp_all add: job_ok_def)
  show "counted D C cid_of (unpin_done D C c kind st)"
    using assms(1) unpin_commit_counted[OF assms(1) _ j]
    by (cases "walk_blocks D C (pi_blocks st) c kind") (simp_all add: unpin_done_def)
  show "gated cid_of (unpin_done D C c kind st)"
    unfolding unpin_done_def
    by (intro gated_unlock[OF assms(2) job])
       (auto simp: unpin_commit_def is_walking_def ordered_simps dest: fold_dereference_None split: sum.splits)
qed

lemma counted_covered:
  assumes "counted D C cid_of st" "(mh, kind) \<in> set (pi_roots st)" "b \<in> set (cover D C (pi_blocks st) (cid_of mh) kind)"
  shows "omap_has (pi_blocks st) (format_cid C b)" "omap_has (pi_refs st) (multihash b)"
proof -
  from assms(1,2) obtain covered where w: "walk_blocks D C (pi_blocks st) (cid_of mh) kind = Inr covered"
    unfolding counted_def walkable_def by blast
  with assms(3) walk_blocks_Inr(3)[OF w] show "omap_has (pi_blocks st) (format_cid C b)" by simp
  have "0 < times_in (multihash b) (cover D C (pi_blocks st) (cid_of mh) kind)" using assms(3) by (simp add: times_in_pos)
  with assms(2) have "pin_count D C cid_of (pi_blocks st) (pi_roots st) (multihash b) \<noteq> 0"
    unfolding pin_count_def total_zero_iff by fastforce
  moreover from assms(1) have "omap_get (pi_refs st) (multihash b) = count_row (pin_count D C cid_of (pi_blocks st) (pi_roots st) (multihash b))"
    unfolding counted_def by blast
  ultimately show "omap_has (pi_refs st) (multihash b)" by (simp add: count_row_def)
qed

lemma pin_run_ok: "pin_run D C cid_of st \<Longrightarrow> inj (cid_format C) \<Longrightarrow> counted D C cid_of st \<and> gated cid_of st"
proof (induction rule: pin_run.induct)
  case created
  show ?case by (simp add: create_pin_index_def counted_def gated_def walkable_def pin_count_def count_row_def)
next
  case (stored st key bs)
  then have "counted D C cid_of (st\<lparr>pi_blocks := omap_set key bs (pi_blocks st)\<rparr>)"
    by (intro counted_blocks) (auto simp: ordered_simps dest!: counted_covered(1))
  with stored show ?case by simp
next
  case (pin st c recursive)
  then show ?case
    by (auto simp: pin_start_def Let_def root_kind_def is_walking_def job_ok_def intro!: gated_lock)
next
  case (walk st c recursive kind)
  then have "counted D C cid_of (pin_walk c recursive kind st)" by (simp add: pin_walk_def counted_def)
  with walk show ?case by (simp add: pin_walk_gated)
next
  case (pinned st c recursive kind)
  then show ?case by (simp add: pin_done_ok)
next
  case (pin_failed st c recursive kind)
  then show ?case using pin_failed_ok by blast
next
  case (unpin st c)
  then show ?case
    by (auto simp: unpin_start_def root_kind_def is_walking_def job_ok_def intro!: gated_lock split: option.splits)
next
  case (unpinned st c kind)
  then show ?case by (simp add: unpin_done_ok)
next
  case (evict st c)
  then show ?case by (simp add: evict_start_def gated_def)
next
  case (evict_check st c)
  then show ?case by (simp add: evict_check_def gated_def)
next
  case (evict_remove st c)
  then have free: "\<not> omap_has (pi_refs st) (multihash c)" using gatedD(4) by blast
  have "counted D C cid_of (st\<lparr>pi_blocks := omap_delete (format_cid C c) (pi_blocks st)\<rparr>)"
  proof (rule counted_blocks)
    fix mh kind b
    assume "(mh, kind) \<in> set (pi_roots st)" "b \<in> set (cover D C (pi_blocks st) (cid_of mh) kind)"
    with counted_covered(2) evict_remove have "omap_has (pi_refs st) (multihash b)" by blast
    with free have "b \<noteq> c" by auto
    with evict_remove have "format_cid C b \<noteq> format_cid C c" by (simp add: format_cid_def inj_eq)
    then show "omap_get (omap_delete (format_cid C c) (pi_blocks st)) (format_cid C b) = omap_get (pi_blocks st) (format_cid C b)"
      by (simp add: ordered_simps)
  qed (use evict_remove in simp)
  moreover have "gated cid_of (evict_remove C c st)" using evict_remove by (simp add: evict_remove_def gated_def)
  ultimately show ?case by (simp add: evict_remove_def counted_def)
qed

lemma times_in_distinct: "distinct (map multihash cs) \<Longrightarrow> times_in key cs = (if key \<in> multihash ` set cs then 1 else 0)"
  by (induction cs) auto

lemma pin_count_distinct:
  "\<forall>(mh, kind) \<in> set roots. distinct (map multihash (cover D C blocks (cid_of mh) kind)) \<Longrightarrow>
   pin_count D C cid_of blocks roots key =
     length (List.filter (\<lambda>(mh, kind). key \<in> multihash ` set (cover D C blocks (cid_of mh) kind)) roots)"
  by (induction roots) (auto simp: pin_count_def times_in_distinct)

section \<open>Properties\<close>

text \<open>C18: Pins are counted exactly and keep their blocks: in every interleaving of pins, unpins, evictions and
  stores in which each root is pinned and unpinned through one CID, each block's row holds the number of times the
  walks of the pinned roots list it (no row when none does), a block counts as pinned exactly when a pinned root
  covers it, every block a pinned root covers is stored, so no eviction ever deletes one, and where no walk lists
  a block under two CIDs the row is the number of pinned roots that cover it. Different CIDs have
  different spellings.\<close>

theorem pins_keep_blocks:
  assumes "pin_run D C cid_of st" "inj (cid_format C)"
  shows "(\<forall>key. omap_get (pi_refs st) key = count_row (pin_count D C cid_of (pi_blocks st) (pi_roots st) key)) \<and>
    (\<forall>c. is_pinned c st \<longleftrightarrow>
       (\<exists>(mh, kind) \<in> set (pi_roots st). multihash c \<in> multihash ` set (cover D C (pi_blocks st) (cid_of mh) kind))) \<and>
    (\<forall>(mh, kind) \<in> set (pi_roots st). \<exists>covered. walk_blocks D C (pi_blocks st) (cid_of mh) kind = Inr covered \<and>
       (\<forall>b \<in> set covered. omap_has (pi_blocks st) (format_cid C b))) \<and>
    ((\<forall>(mh, kind) \<in> set (pi_roots st). distinct (map multihash (cover D C (pi_blocks st) (cid_of mh) kind))) \<longrightarrow>
       (\<forall>key. omap_get (pi_refs st) key = count_row (length
         (List.filter (\<lambda>(mh, kind). key \<in> multihash ` set (cover D C (pi_blocks st) (cid_of mh) kind)) (pi_roots st)))))"
proof (intro conjI)
  from pin_run_ok[OF assms] have ok: "counted D C cid_of st" ..
  show rows: "\<forall>key. omap_get (pi_refs st) key = count_row (pin_count D C cid_of (pi_blocks st) (pi_roots st) key)"
    using ok unfolding counted_def by blast
  have "is_pinned c st \<longleftrightarrow> pin_count D C cid_of (pi_blocks st) (pi_roots st) (multihash c) \<noteq> 0" for c
    unfolding is_pinned_def rows[rule_format] by (simp add: count_row_def)
  then show "\<forall>c. is_pinned c st \<longleftrightarrow>
      (\<exists>(mh, kind) \<in> set (pi_roots st). multihash c \<in> multihash ` set (cover D C (pi_blocks st) (cid_of mh) kind))"
    by (simp add: pin_count_def total_zero_iff times_in_zero split_beta)
  show "\<forall>(mh, kind) \<in> set (pi_roots st). \<exists>covered. walk_blocks D C (pi_blocks st) (cid_of mh) kind = Inr covered \<and>
      (\<forall>b \<in> set covered. omap_has (pi_blocks st) (format_cid C b))"
    using ok walk_blocks_Inr(3) unfolding counted_def walkable_def by fastforce
  show "(\<forall>(mh, kind) \<in> set (pi_roots st). distinct (map multihash (cover D C (pi_blocks st) (cid_of mh) kind))) \<longrightarrow>
      (\<forall>key. omap_get (pi_refs st) key = count_row (length
        (List.filter (\<lambda>(mh, kind). key \<in> multihash ` set (cover D C (pi_blocks st) (cid_of mh) kind)) (pi_roots st))))"
    by (simp add: rows pin_count_distinct)
qed

section \<open>An example\<close>

text \<open>A dag-pb block with one raw leaf, and the root's block read as raw bytes.\<close>

definition sample_leaf :: cid where
  "sample_leaf = \<lparr>cid_version = 1, cid_code = RAW_CODE, cid_mh_code = SHA2_256_CODE, cid_digest = [2]\<rparr>"

definition sample_root :: cid where
  "sample_root = \<lparr>cid_version = 1, cid_code = DAG_PB_CODE, cid_mh_code = SHA2_256_CODE, cid_digest = [1]\<rparr>"

definition sample_raw_root :: cid where
  "sample_raw_root = sample_root\<lparr>cid_code := RAW_CODE\<rparr>"

definition sample_dag_lib :: cid_lib where
  "sample_dag_lib = sample_cid_lib\<lparr>dag_pb_links := (\<lambda>bs. if bs = [1] then Some [sample_leaf] else Some [])\<rparr>"

lemma sample_dag_format_inj: "inj (cid_format sample_dag_lib)"
  using cid_format_inj by (simp add: sample_dag_lib_def)

lemma sample_dag_format_eq [simp]: "format_cid sample_dag_lib a = format_cid sample_dag_lib b \<longleftrightarrow> a = b"
  unfolding format_cid_def by (rule inj_eq[OF sample_dag_format_inj])

lemma sample_cids [simp]:
  "sample_leaf \<noteq> sample_root" "sample_root \<noteq> sample_leaf" "sample_raw_root \<noteq> sample_root" "sample_root \<noteq> sample_raw_root"
  "sample_leaf \<noteq> sample_raw_root" "sample_raw_root \<noteq> sample_leaf"
  "cid_code sample_root = DAG_PB_CODE" "cid_code sample_leaf = RAW_CODE" "cid_code sample_raw_root = RAW_CODE" "DAG_PB_CODE \<noteq> RAW_CODE"
  "multihash sample_raw_root = multihash sample_root" "multihash sample_leaf \<noteq> multihash sample_root" "multihash sample_root \<noteq> multihash sample_leaf"
  by (simp_all add: sample_leaf_def sample_root_def sample_raw_root_def DAG_PB_CODE_def RAW_CODE_def multihash_def)

lemma sample_links [simp]: "links_of D sample_dag_lib sample_root [1] = Inr [sample_leaf]"
  by (simp add: links_of_def sample_dag_lib_def)

abbreviation sample_blocks :: blocks where
  "sample_blocks \<equiv> [(format_cid sample_dag_lib sample_root, [1]), (format_cid sample_dag_lib sample_leaf, [2]),
     (format_cid sample_dag_lib sample_raw_root, [1])]"

lemma sample_walk [simp]:
  "walk_blocks D sample_dag_lib sample_blocks sample_root True = Inr [sample_root, sample_leaf]"
  "walk_blocks D sample_dag_lib sample_blocks sample_raw_root True = Inr [sample_raw_root]"
  by (simp_all add: walk_blocks_def visit.simps(2) Let_def)

definition sample_pin :: "pin_index \<Rightarrow> pin_index" where
  "sample_pin st = pin_done (sample_deps []) sample_dag_lib sample_root True None (pin_walk sample_root True None (pin_start sample_root True st))"

lemma sample_pin_result:
  "sample_pin (create_pin_index\<lparr>pi_blocks := sample_blocks\<rparr>) = create_pin_index\<lparr>pi_blocks := sample_blocks,
     pi_refs := [(multihash sample_root, 1), (multihash sample_leaf, 1)], pi_roots := [(multihash sample_root, True)]\<rparr>"
  by (simp add: sample_pin_def pin_start_def pin_walk_def pin_done_def pin_commit_def unlock_def create_pin_index_def root_kind_def reference_def Let_def)

lemma sample_stored: "pin_run D sample_dag_lib cid_of (create_pin_index\<lparr>pi_blocks := sample_blocks\<rparr>)"
proof -
  let ?f = "format_cid sample_dag_lib"
  have "pin_run D sample_dag_lib cid_of (create_pin_index\<lparr>pi_blocks := [(?f sample_root, [1])]\<rparr>)"
    using pin_run.stored[OF pin_run.created, of "?f sample_root" "[1]"] by (simp add: create_pin_index_def)
  from pin_run.stored[OF this, of "?f sample_leaf" "[2]"]
  have "pin_run D sample_dag_lib cid_of (create_pin_index\<lparr>pi_blocks := [(?f sample_root, [1]), (?f sample_leaf, [2])]\<rparr>)"
    by (simp add: create_pin_index_def)
  from pin_run.stored[OF this, of "?f sample_raw_root" "[1]"] show ?thesis by (simp add: create_pin_index_def)
qed

lemma sample_pin_run: "pin_run (sample_deps []) sample_dag_lib (\<lambda>_. sample_root) (sample_pin (create_pin_index\<lparr>pi_blocks := sample_blocks\<rparr>))"
  unfolding sample_pin_def
  by (intro pin_run.pinned pin_run.walk pin_run.pin sample_stored)
     (simp_all add: pin_start_def pin_walk_def create_pin_index_def root_kind_def Let_def)

theorem pins_keep_blocks_witness:
  "is_pinned sample_leaf (sample_pin (create_pin_index\<lparr>pi_blocks := sample_blocks\<rparr>)) \<and>
   multihash sample_leaf \<in> multihash ` set (cover (sample_deps []) sample_dag_lib sample_blocks sample_root True)"
  using pins_keep_blocks[OF sample_pin_run sample_dag_format_inj]
  by (simp add: sample_pin_result is_pinned_def)

text \<open>A root's kind is looked up by multihash while the walk of an unpin starts from the CID it was given:
  unpinned through a CID of another codec, the root goes but its children stay counted for good.\<close>

lemma unpin_other_codec_leaks:
  "unpin_done (sample_deps []) sample_dag_lib sample_raw_root True
     (unpin_start sample_raw_root (sample_pin (create_pin_index\<lparr>pi_blocks := sample_blocks\<rparr>))) =
   create_pin_index\<lparr>pi_blocks := sample_blocks, pi_refs := [(multihash sample_leaf, 1)]\<rparr>"
  unfolding sample_pin_result
  by (simp add: unpin_done_def unpin_start_def unpin_commit_def unlock_def create_pin_index_def root_kind_def
      dereference_def drop_released_def)

text \<open>A walk lists each CID once, not each block: where a DAG links one block both as dag-pb and as raw bytes,
  a single pin counts that block twice.\<close>

definition sample_pb_leaf :: cid where
  "sample_pb_leaf = sample_leaf\<lparr>cid_code := DAG_PB_CODE\<rparr>"

definition twice_lib :: cid_lib where
  "twice_lib = sample_cid_lib\<lparr>dag_pb_links := (\<lambda>bs. if bs = [1] then Some [sample_leaf, sample_pb_leaf] else Some [])\<rparr>"

lemma one_pin_counts_twice:
  "let blocks = [(format_cid twice_lib sample_root, [1]), (format_cid twice_lib sample_leaf, [2]), (format_cid twice_lib sample_pb_leaf, [2])] in
   pin_done D twice_lib sample_root True None (pin_walk sample_root True None (pin_start sample_root True (create_pin_index\<lparr>pi_blocks := blocks\<rparr>))) =
   create_pin_index\<lparr>pi_blocks := blocks, pi_refs := [(multihash sample_root, 1), (multihash sample_leaf, 2)],
     pi_roots := [(multihash sample_root, True)]\<rparr>"
proof -
  have eq: "format_cid twice_lib a = format_cid twice_lib b \<longleftrightarrow> a = b" for a b
    unfolding format_cid_def twice_lib_def using cid_format_inj by (simp add: inj_eq)
  have ne: "sample_pb_leaf \<noteq> sample_root" "sample_root \<noteq> sample_pb_leaf" "sample_pb_leaf \<noteq> sample_leaf" "sample_leaf \<noteq> sample_pb_leaf"
    "cid_code sample_pb_leaf = DAG_PB_CODE" "multihash sample_pb_leaf = multihash sample_leaf"
    by (simp_all add: sample_pb_leaf_def sample_leaf_def sample_root_def DAG_PB_CODE_def RAW_CODE_def multihash_def)
  have links: "links_of D twice_lib sample_root [1] = Inr [sample_leaf, sample_pb_leaf]" "links_of D twice_lib sample_pb_leaf [2] = Inr []"
    by (simp_all add: links_of_def twice_lib_def ne)
  show ?thesis
    by (simp add: pin_start_def pin_walk_def pin_done_def pin_commit_def unlock_def create_pin_index_def root_kind_def reference_def
        walk_blocks_def visit.simps(2) eq ne links Let_def)
qed

end
