(* ===== verification/Commit_Batch.thy ===== *)
theory Commit_Batch
  imports Prelude
begin

text \<open>
  The batching of commits on one SQLite connection (\<open>src/fabric/commit-batch.ts\<close>) and
  \<open>in_transaction\<close> of \<open>src/fabric/pin-index.ts\<close>. A connection is the committed content of its tables and,
  while a transaction is open, the content its own statements see. What the engine does is documented
  behaviour: \<open>BEGIN\<close> inside a transaction throws, \<open>ROLLBACK\<close> drops it, and a \<open>COMMIT\<close> that throws either
  leaves the transaction open or has rolled it back.
\<close>

section \<open>Connections\<close>

record 'db connection =
  db_committed :: 'db
  db_working :: "'db option"

datatype commit_outcome = Committed | Commit_Left_Open | Commit_Rolled_Back

definition view :: "'db connection \<Rightarrow> 'db" where
  "view db = (case db_working db of None \<Rightarrow> db_committed db | Some w \<Rightarrow> w)"

definition exec_commit :: "commit_outcome \<Rightarrow> 'db connection \<Rightarrow> 'db connection" where
  "exec_commit outcome db = (case outcome of
     Committed \<Rightarrow> db\<lparr>db_committed := view db, db_working := None\<rparr>
   | Commit_Left_Open \<Rightarrow> db
   | Commit_Rolled_Back \<Rightarrow> db\<lparr>db_working := None\<rparr>)"

definition exec_rollback :: "'db connection \<Rightarrow> 'db connection" where
  "exec_rollback db = db\<lparr>db_working := None\<rparr>"

section \<open>The batcher\<close>

record commit_policy =
  window_ms :: int
  max_transactions :: nat


text \<open>The timer is the time it fires at; \<open>cb_nudges\<close> counts the calls of the checkpointer.\<close>

record 'db batcher =
  cb_db :: "'db connection"
  cb_open :: bool
  cb_count :: nat
  cb_timer :: "int option"
  cb_nudges :: nat


text \<open>\<open>commit\<close>, which is also \<open>flush\<close>, \<open>close\<close> and the callback of the timer. The second component is
  whether it throws.\<close>

definition commit :: "commit_outcome \<Rightarrow> 'db batcher \<Rightarrow> 'db batcher \<times> bool" where
  "commit outcome cb =
     (if cb_open cb
      then (cb\<lparr>cb_open := False, cb_count := 0, cb_db := exec_commit outcome (cb_db cb), cb_timer := None,
              cb_nudges := cb_nudges cb + (if outcome = Committed then 1 else 0)\<rparr>, outcome \<noteq> Committed)
      else (cb\<lparr>cb_timer := None\<rparr>, False))"

definition schedule :: "commit_policy \<Rightarrow> int \<Rightarrow> 'db batcher \<Rightarrow> 'db batcher" where
  "schedule policy now cb = (if cb_timer cb = None then cb\<lparr>cb_timer := Some (now + window_ms policy)\<rparr> else cb)"

text \<open>\<open>run (fn)\<close>: \<open>fn\<close> is \<open>None\<close> on tables it throws on.\<close>

definition run :: "commit_policy \<Rightarrow> int \<Rightarrow> commit_outcome \<Rightarrow> ('db \<Rightarrow> 'db option) \<Rightarrow> 'db batcher \<Rightarrow> 'db batcher \<times> bool" where
  "run policy now outcome fn cb =
     (if \<not> cb_open cb \<and> db_working (cb_db cb) \<noteq> None then (cb, True)
      else (case fn (view (cb_db cb)) of
          None \<Rightarrow> (cb\<lparr>cb_db := exec_rollback (cb_db cb), cb_open := False, cb_count := 0, cb_timer := None\<rparr>, True)
        | Some tables \<Rightarrow>
            let cb1 = cb\<lparr>cb_db := (cb_db cb)\<lparr>db_working := Some tables\<rparr>, cb_open := True, cb_count := cb_count cb + 1\<rparr>
            in if max_transactions policy \<le> cb_count cb1 then commit outcome cb1 else (schedule policy now cb1, False)))"

text \<open>\<open>in_transaction\<close> without a batcher.\<close>

definition in_transaction :: "commit_outcome \<Rightarrow> ('db \<Rightarrow> 'db option) \<Rightarrow> 'db connection \<Rightarrow> 'db connection \<times> bool" where
  "in_transaction outcome fn db =
     (if db_working db \<noteq> None then (db, True)
      else (case fn (db_committed db) of
          None \<Rightarrow> (exec_rollback db, True)
        | Some tables \<Rightarrow>
            let db1 = db\<lparr>db_working := Some tables\<rparr>
            in if outcome = Committed then (exec_commit Committed db1, False) else (exec_rollback db1, True)))"

section \<open>Runs\<close>

text \<open>What a list of transactions makes of the tables.\<close>

definition apply_all :: "('db \<Rightarrow> 'db option) list \<Rightarrow> 'db \<Rightarrow> 'db" where
  "apply_all fns db = fold (\<lambda>fn db. case fn db of None \<Rightarrow> db | Some db' \<Rightarrow> db') fns db"




lemma apply_all_simps [simp]:
  "apply_all [] db = db"
  "apply_all (xs @ ys) db = apply_all ys (apply_all xs db)"
  "apply_all [fn] db = (case fn db of None \<Rightarrow> db | Some db' \<Rightarrow> db')"
  by (simp_all add: apply_all_def)



section \<open>Properties\<close>



text \<open>The batch is marked closed before the \<open>COMMIT\<close>: one that throws and leaves the transaction open
  makes every later run throw at \<open>BEGIN\<close>, and no flush ends the transaction.\<close>

lemma commit_left_open:
  assumes "cb_open cb" "db_working (cb_db cb) = Some w"
  defines "stuck \<equiv> fst (commit Commit_Left_Open cb)"
  shows "run policy now outcome fn stuck = (stuck, True)" "fst (commit outcome stuck) = stuck"
  using assms(1,2) by (simp_all add: stuck_def run_def commit_def exec_commit_def)

text \<open>The window counts from the first transaction of a batch: a later one does not put it off.\<close>

lemma window_from_first_run:
  assumes "cb_timer cb = Some t" "cb_open cb" "fn (view (cb_db cb)) = Some db'" "cb_count cb + 1 < max_transactions policy"
  shows "cb_timer (fst (run policy now outcome fn cb)) = Some t"
  using assms by (simp add: run_def schedule_def Let_def)

end
