(* ===== verification/Pin_Record.thy ===== *)
theory Pin_Record
  imports Prelude
begin

text \<open>
  The recorded pin set of each library (\<open>create_library_pin_record\<close> of \<open>src/fabric/pin-index.ts\<close>): two
  tables, the sets with their numeric id and clean mark and the pins of each id, as ordered maps. Each
  operation is the body of one transaction. A row inserted without an id gets one more than the largest id
  of the table.
\<close>

record pin_tables =
  library_pin_sets :: "(string, nat \<times> bool) omap"
  library_pins :: "(nat \<times> string, bool) omap"

definition empty_tables :: pin_tables where
  "empty_tables = \<lparr>library_pin_sets = [], library_pins = []\<rparr>"

section \<open>Statements\<close>

definition next_id :: "pin_tables \<Rightarrow> nat" where
  "next_id t = Suc (Max (set (0 # map (fst \<circ> snd) (library_pin_sets t))))"

definition insert_set :: "string \<Rightarrow> pin_tables \<Rightarrow> pin_tables" where
  "insert_set library t = (if omap_has (library_pin_sets t) library then t
     else t\<lparr>library_pin_sets := omap_set library (next_id t, False) (library_pin_sets t)\<rparr>)"

definition set_clean :: "bool \<Rightarrow> string \<Rightarrow> pin_tables \<Rightarrow> pin_tables" where
  "set_clean clean library t = (case omap_get (library_pin_sets t) library of
     None \<Rightarrow> t
   | Some (sid, _) \<Rightarrow> t\<lparr>library_pin_sets := omap_set library (sid, clean) (library_pin_sets t)\<rparr>)"

definition select_pins :: "nat \<Rightarrow> pin_tables \<Rightarrow> (string, bool) omap" where
  "select_pins sid t = map (\<lambda>((set_id, cid), recursive). (cid, recursive)) (List.filter (\<lambda>((set_id, cid), recursive). set_id = sid) (library_pins t))"

definition upsert_pin :: "nat \<Rightarrow> string \<times> bool \<Rightarrow> pin_tables \<Rightarrow> pin_tables" where
  "upsert_pin sid row t = t\<lparr>library_pins := omap_set (sid, fst row) (snd row) (library_pins t)\<rparr>"

definition delete_pin :: "nat \<Rightarrow> string \<Rightarrow> pin_tables \<Rightarrow> pin_tables" where
  "delete_pin sid cid t = t\<lparr>library_pins := omap_delete (sid, cid) (library_pins t)\<rparr>"

definition delete_pins :: "nat \<Rightarrow> pin_tables \<Rightarrow> pin_tables" where
  "delete_pins sid t = t\<lparr>library_pins := List.filter (\<lambda>((set_id, cid), recursive). set_id \<noteq> sid) (library_pins t)\<rparr>"

definition delete_set :: "string \<Rightarrow> pin_tables \<Rightarrow> pin_tables" where
  "delete_set library t = t\<lparr>library_pin_sets := omap_delete library (library_pin_sets t)\<rparr>"

definition set_id :: "string \<Rightarrow> pin_tables \<Rightarrow> nat" where
  "set_id library t = (case omap_get (library_pin_sets (insert_set library t)) library of Some (sid, _) \<Rightarrow> sid | None \<Rightarrow> 0)"

section \<open>Operations\<close>

definition load_pins :: "string \<Rightarrow> pin_tables \<Rightarrow> (string, bool) omap option" where
  "load_pins library t = (case omap_get (library_pin_sets t) library of
     Some (sid, True) \<Rightarrow> Some (fold (\<lambda>(cid, recursive). omap_set cid recursive) (select_pins sid t) [])
   | _ \<Rightarrow> None)"

definition begin_pins :: "string \<Rightarrow> pin_tables \<Rightarrow> pin_tables" where
  "begin_pins library t = set_clean False library t"

definition set_pins :: "string \<Rightarrow> (string \<times> bool) list \<Rightarrow> pin_tables \<Rightarrow> pin_tables" where
  "set_pins library pins t = (if pins = [] then t
     else let sid = set_id library t in fold (upsert_pin sid) pins (insert_set library t))"

definition delete_cids :: "string \<Rightarrow> string list \<Rightarrow> pin_tables \<Rightarrow> pin_tables" where
  "delete_cids library cids t = (case omap_get (library_pin_sets t) library of
     None \<Rightarrow> t
   | Some (sid, _) \<Rightarrow> if cids = [] then t else fold (delete_pin sid) cids t)"

definition settle_pins :: "string \<Rightarrow> pin_tables \<Rightarrow> pin_tables" where
  "settle_pins library t = set_clean True library (insert_set library t)"

definition clear_pins :: "string \<Rightarrow> pin_tables \<Rightarrow> pin_tables" where
  "clear_pins library t = (case omap_get (library_pin_sets t) library of
     None \<Rightarrow> t
   | Some (sid, _) \<Rightarrow> delete_set library (delete_pins sid t))"

datatype record_op =
    Begin string
  | Set string "(string \<times> bool) list"
  | Delete string "string list"
  | Settle string
  | Clear string

definition perform :: "record_op \<Rightarrow> pin_tables \<Rightarrow> pin_tables" where
  "perform rop = (case rop of
     Begin library \<Rightarrow> begin_pins library
   | Set library pins \<Rightarrow> set_pins library pins
   | Delete library cids \<Rightarrow> delete_cids library cids
   | Settle library \<Rightarrow> settle_pins library
   | Clear library \<Rightarrow> clear_pins library)"

section \<open>Specification\<close>

text \<open>What the record promises: for each library with a set, whether it is clean and its pins.\<close>

type_synonym recorded = "string \<Rightarrow> (bool \<times> (string \<Rightarrow> bool option)) option"

definition or_empty :: "(bool \<times> (string \<Rightarrow> bool option)) option \<Rightarrow> bool \<times> (string \<Rightarrow> bool option)" where
  "or_empty x = (case x of None \<Rightarrow> (False, Map.empty) | Some y \<Rightarrow> y)"

definition spec :: "record_op \<Rightarrow> recorded \<Rightarrow> recorded" where
  "spec rop r = (case rop of
     Begin library \<Rightarrow> r(library := map_option (\<lambda>(clean, pins). (False, pins)) (r library))
   | Set library pins \<Rightarrow> if pins = [] then r else r(library \<mapsto> (fst (or_empty (r library)), snd (or_empty (r library)) ++ map_of (rev pins)))
   | Delete library cids \<Rightarrow> r(library := map_option (\<lambda>(clean, pins). (clean, \<lambda>cid. if cid \<in> set cids then None else pins cid)) (r library))
   | Settle library \<Rightarrow> r(library \<mapsto> (True, snd (or_empty (r library))))
   | Clear library \<Rightarrow> r(library := None))"

definition recorded_by :: "pin_tables \<Rightarrow> recorded" where
  "recorded_by t library = map_option (\<lambda>(sid, clean). (clean, \<lambda>cid. omap_get (library_pins t) (sid, cid))) (omap_get (library_pin_sets t) library)"

section \<open>Refinement\<close>

text \<open>Each set has an id of its own, and every pin is one of a set.\<close>

definition own_ids :: "(string, nat \<times> bool) omap \<Rightarrow> bool" where
  "own_ids sets = (\<forall>l l' sid c c'. omap_get sets l = Some (sid, c) \<longrightarrow> omap_get sets l' = Some (sid, c') \<longrightarrow> l = l')"

definition has_id :: "nat \<Rightarrow> (string, nat \<times> bool) omap \<Rightarrow> bool" where
  "has_id sid sets = (\<exists>l c. omap_get sets l = Some (sid, c))"

definition tables_ok :: "pin_tables \<Rightarrow> bool" where
  "tables_ok t = (distinct (omap_keys (library_pins t)) \<and> own_ids (library_pin_sets t) \<and>
     (\<forall>sid cid. omap_has (library_pins t) (sid, cid) \<longrightarrow> has_id sid (library_pin_sets t)))"

lemma next_id_fresh: "\<not> has_id (next_id t) (library_pin_sets t)"
proof
  assume "has_id (next_id t) (library_pin_sets t)"
  then have "next_id t \<in> set (0 # map (fst \<circ> snd) (library_pin_sets t))" by (force simp: has_id_def dest: map_of_SomeD)
  from Max_ge[OF _ this] have "next_id t \<le> Max (set (0 # map (fst \<circ> snd) (library_pin_sets t)))" by blast
  then show False by (simp add: next_id_def)
qed

lemma own_ids_set: "own_ids sets \<Longrightarrow> (\<And>l c'. omap_get sets l = Some (sid, c') \<Longrightarrow> l = library) \<Longrightarrow> own_ids (omap_set library (sid, c) sets)"
  unfolding own_ids_def omap_get_set by (metis option.inject prod.inject)

lemma has_id_set: "has_id sid (omap_set library (sid', c) sets) \<longleftrightarrow> sid = sid' \<or> (\<exists>l c'. l \<noteq> library \<and> omap_get sets l = Some (sid, c'))"
  unfolding has_id_def omap_get_set by (metis option.inject prod.inject)

lemma insert_set_ok:
  assumes "tables_ok t"
  shows "tables_ok (insert_set library t)"
proof (cases "omap_has (library_pin_sets t) library")
  case False
  have "own_ids (omap_set library (next_id t, False) (library_pin_sets t))"
    using assms next_id_fresh[of t] by (intro own_ids_set) (auto simp: tables_ok_def has_id_def)
  moreover have "has_id sid (omap_set library (next_id t, False) (library_pin_sets t))" if "has_id sid (library_pin_sets t)" for sid
    using that False unfolding has_id_set by (metis has_id_def option.distinct(1))
  ultimately show ?thesis using assms False by (simp add: tables_ok_def insert_set_def)
qed (use assms in \<open>simp add: insert_set_def\<close>)

lemma fresh_unpinned: "tables_ok t \<Longrightarrow> omap_get (library_pins t) (next_id t, cid) = None"
  using next_id_fresh[of t] unfolding tables_ok_def by blast

lemma recorded_insert_set:
  assumes "tables_ok t"
  shows "recorded_by (insert_set library t) = (recorded_by t)(library \<mapsto> or_empty (recorded_by t library))"
proof
  fix l
  show "recorded_by (insert_set library t) l = ((recorded_by t)(library \<mapsto> or_empty (recorded_by t library))) l"
  proof (cases "omap_get (library_pin_sets t) library")
    case None
    then show ?thesis by (simp add: recorded_by_def insert_set_def or_empty_def ordered_simps fresh_unpinned[OF assms])
  next
    case (Some x)
    then show ?thesis by (simp add: recorded_by_def insert_set_def or_empty_def)
  qed
qed

lemma own_ids_eq:
  assumes "tables_ok t" "omap_get (library_pin_sets t) library = Some (sid, c)" "omap_get (library_pin_sets t) l = Some (sid', c')"
  shows "sid' = sid \<longleftrightarrow> l = library"
  using assms unfolding tables_ok_def own_ids_def by (metis option.inject prod.inject)

lemma set_clean_ok:
  assumes "tables_ok t"
  shows "tables_ok (set_clean clean library t)"
proof (cases "omap_get (library_pin_sets t) library")
  case (Some x)
  then obtain sid c where sid: "omap_get (library_pin_sets t) library = Some (sid, c)" by (cases x) auto
  have "own_ids (omap_set library (sid, clean) (library_pin_sets t))"
    using assms sid own_ids_eq[OF assms sid] by (intro own_ids_set) (auto simp: tables_ok_def)
  moreover have "has_id s (omap_set library (sid, clean) (library_pin_sets t))" if "has_id s (library_pin_sets t)" for s
    using that sid unfolding has_id_set by (metis has_id_def option.inject prod.inject)
  ultimately show ?thesis using assms sid by (simp add: tables_ok_def set_clean_def)
qed (use assms in \<open>simp add: set_clean_def\<close>)

lemma recorded_set_clean:
  "recorded_by (set_clean clean library t) = (recorded_by t)(library := map_option (\<lambda>(_, pins). (clean, pins)) (recorded_by t library))"
  by (auto simp: recorded_by_def set_clean_def ordered_simps fun_eq_iff split: option.splits)

lemma fold_upsert [simp]: "library_pin_sets (fold (upsert_pin sid) pins t) = library_pin_sets t"
  by (induction pins arbitrary: t) (simp_all add: upsert_pin_def)

lemma fold_upsert_pins:
  "omap_get (library_pins (fold (upsert_pin sid) pins t)) (s, cid) =
     (if s = sid then ((\<lambda>cid. omap_get (library_pins t) (sid, cid)) ++ map_of (rev pins)) cid else omap_get (library_pins t) (s, cid))"
  by (induction pins arbitrary: t) (auto simp: upsert_pin_def ordered_simps map_add_def split: option.splits)

lemma fold_upsert_distinct: "distinct (omap_keys (library_pins t)) \<Longrightarrow> distinct (omap_keys (library_pins (fold (upsert_pin sid) pins t)))"
  by (induction pins arbitrary: t) (simp_all add: upsert_pin_def distinct_update)

lemma fold_delete [simp]: "library_pin_sets (fold (delete_pin sid) cids t) = library_pin_sets t"
  by (induction cids arbitrary: t) (simp_all add: delete_pin_def)

lemma fold_delete_pins:
  "omap_get (library_pins (fold (delete_pin sid) cids t)) (s, cid) =
     (if s = sid \<and> cid \<in> set cids then None else omap_get (library_pins t) (s, cid))"
  by (induction cids arbitrary: t) (auto simp: delete_pin_def ordered_simps)

lemma fold_delete_distinct: "distinct (omap_keys (library_pins t)) \<Longrightarrow> distinct (omap_keys (library_pins (fold (delete_pin sid) cids t)))"
  by (induction cids arbitrary: t) (simp_all add: delete_pin_def distinct_delete)

lemma tables_ok_pins:
  assumes "tables_ok t" "library_pin_sets t' = library_pin_sets t" "distinct (omap_keys (library_pins t'))"
    and "\<And>s cid. omap_has (library_pins t') (s, cid) \<Longrightarrow> omap_has (library_pins t) (s, cid) \<or> has_id s (library_pin_sets t)"
  shows "tables_ok t'"
  using assms(1,3,4) unfolding tables_ok_def assms(2) by blast

text \<open>Changing the pins of one id changes what is recorded of its library only.\<close>

lemma recorded_own:
  assumes ok: "tables_ok t" and sid: "omap_get (library_pin_sets t) library = Some (sid, c)"
    and t': "library_pin_sets t' = library_pin_sets t"
      "\<And>s cid. s \<noteq> sid \<Longrightarrow> omap_get (library_pins t') (s, cid) = omap_get (library_pins t) (s, cid)"
  shows "recorded_by t' = (recorded_by t)(library \<mapsto> (c, \<lambda>cid. omap_get (library_pins t') (sid, cid)))"
proof
  fix l
  show "recorded_by t' l = ((recorded_by t)(library \<mapsto> (c, \<lambda>cid. omap_get (library_pins t') (sid, cid)))) l"
  proof (cases "l = library \<or> omap_get (library_pin_sets t) l = None")
    case True
    then show ?thesis using sid by (auto simp: recorded_by_def t'(1))
  next
    case False
    then obtain s c' where s: "omap_get (library_pin_sets t) l = Some (s, c')" by auto
    with own_ids_eq[OF ok sid s] False have "s \<noteq> sid" by simp
    with s False show ?thesis by (simp add: recorded_by_def t')
  qed
qed

lemma fold_upsert_ok:
  assumes "tables_ok t" "has_id sid (library_pin_sets t)"
  shows "tables_ok (fold (upsert_pin sid) pins t)"
proof (rule tables_ok_pins[OF assms(1)])
  show "distinct (omap_keys (library_pins (fold (upsert_pin sid) pins t)))"
    using assms(1) by (simp add: tables_ok_def fold_upsert_distinct)
  show "omap_has (library_pins t) (s, cid) \<or> has_id s (library_pin_sets t)"
    if "omap_has (library_pins (fold (upsert_pin sid) pins t)) (s, cid)" for s cid
    using that assms(2) unfolding fold_upsert_pins by (cases "s = sid") simp_all
qed simp

lemma fold_delete_ok:
  assumes "tables_ok t"
  shows "tables_ok (fold (delete_pin sid) cids t)"
proof (rule tables_ok_pins[OF assms])
  show "distinct (omap_keys (library_pins (fold (delete_pin sid) cids t)))"
    using assms by (simp add: tables_ok_def fold_delete_distinct)
  show "omap_has (library_pins t) (s, cid) \<or> has_id s (library_pin_sets t)"
    if "omap_has (library_pins (fold (delete_pin sid) cids t)) (s, cid)" for s cid
    using that unfolding fold_delete_pins by (cases "s = sid \<and> cid \<in> set cids") simp_all
qed simp

lemma set_pins_ok:
  assumes "tables_ok t" "pins \<noteq> []"
  shows "tables_ok (set_pins library pins t)"
    "recorded_by (set_pins library pins t) = (recorded_by t)(library \<mapsto> (fst (or_empty (recorded_by t library)), snd (or_empty (recorded_by t library)) ++ map_of (rev pins)))"
proof -
  define t1 where "t1 = insert_set library t"
  from assms(1) have ok: "tables_ok t1" by (simp add: t1_def insert_set_ok)
  obtain sid c where sid: "omap_get (library_pin_sets t1) library = Some (sid, c)"
    by (cases "omap_get (library_pin_sets t) library") (auto simp: t1_def insert_set_def ordered_simps)
  with assms(2) have t': "set_pins library pins t = fold (upsert_pin sid) pins t1"
    by (simp add: set_pins_def set_id_def t1_def)
  have "has_id sid (library_pin_sets t1)" using sid by (auto simp: has_id_def)
  then show "tables_ok (set_pins library pins t)"
    using ok unfolding t' by (intro fold_upsert_ok)
  have "recorded_by (fold (upsert_pin sid) pins t1) = (recorded_by t1)(library \<mapsto> (c, \<lambda>cid. omap_get (library_pins (fold (upsert_pin sid) pins t1)) (sid, cid)))"
    by (rule recorded_own[OF ok sid]) (simp_all add: fold_upsert_pins)
  then have "recorded_by (fold (upsert_pin sid) pins t1) = (recorded_by t1)(library \<mapsto> (c, (\<lambda>cid. omap_get (library_pins t1) (sid, cid)) ++ map_of (rev pins)))"
    by (simp add: fold_upsert_pins)
  moreover have "or_empty (recorded_by t library) = (c, \<lambda>cid. omap_get (library_pins t1) (sid, cid))"
    using recorded_insert_set[OF assms(1), of library] sid by (auto simp: fun_eq_iff recorded_by_def t1_def dest: spec[of _ library])
  ultimately show "recorded_by (set_pins library pins t) = (recorded_by t)(library \<mapsto> (fst (or_empty (recorded_by t library)), snd (or_empty (recorded_by t library)) ++ map_of (rev pins)))"
    using recorded_insert_set[OF assms(1), of library] by (simp add: t' t1_def[symmetric])
qed

lemma delete_cids_ok:
  assumes "tables_ok t"
  shows "tables_ok (delete_cids library cids t)"
    "recorded_by (delete_cids library cids t) = (recorded_by t)(library := map_option (\<lambda>(clean, pins). (clean, \<lambda>cid. if cid \<in> set cids then None else pins cid)) (recorded_by t library))"
proof -
  from assms show "tables_ok (delete_cids library cids t)" by (simp add: delete_cids_def fold_delete_ok split: option.splits prod.splits)
  show "recorded_by (delete_cids library cids t) = (recorded_by t)(library := map_option (\<lambda>(clean, pins). (clean, \<lambda>cid. if cid \<in> set cids then None else pins cid)) (recorded_by t library))"
  proof (cases "omap_get (library_pin_sets t) library")
    case (Some x)
    then obtain sid c where sid: "omap_get (library_pin_sets t) library = Some (sid, c)" by (cases x) auto
    have "recorded_by (fold (delete_pin sid) cids t) = (recorded_by t)(library \<mapsto> (c, \<lambda>cid. omap_get (library_pins (fold (delete_pin sid) cids t)) (sid, cid)))"
      by (rule recorded_own[OF assms sid]) (simp_all add: fold_delete_pins)
    moreover have "delete_cids library cids t = fold (delete_pin sid) cids t" by (simp add: delete_cids_def sid)
    moreover have "recorded_by t library = Some (c, \<lambda>cid. omap_get (library_pins t) (sid, cid))" by (simp add: recorded_by_def sid)
    ultimately show ?thesis by (simp add: fold_delete_pins)
  qed (auto simp: delete_cids_def recorded_by_def)
qed

lemma delete_pins_get: "omap_get (library_pins (delete_pins sid t)) (s, cid) = (if s = sid then None else omap_get (library_pins t) (s, cid))"
proof -
  have "map_of (List.filter (\<lambda>((set_id, cid), recursive). set_id \<noteq> sid) m) (s, cid) = (if s = sid then None else map_of m (s, cid))" for m :: "(nat \<times> string, bool) omap"
    by (induction m) auto
  then show ?thesis by (simp add: delete_pins_def)
qed

lemma clear_pins_ok:
  assumes "tables_ok t"
  shows "tables_ok (clear_pins library t)" "recorded_by (clear_pins library t) = (recorded_by t)(library := None)"
proof -
  show "tables_ok (clear_pins library t)"
  proof (cases "omap_get (library_pin_sets t) library")
    case (Some x)
    then obtain sid c where sid: "omap_get (library_pin_sets t) library = Some (sid, c)" by (cases x) auto
    have "own_ids (omap_delete library (library_pin_sets t))"
      using assms unfolding tables_ok_def own_ids_def omap_get_delete by (metis option.distinct(1))
    moreover have "has_id s (omap_delete library (library_pin_sets t))" if "omap_has (library_pins (delete_pins sid t)) (s, cid)" for s cid
    proof -
      from that have "s \<noteq> sid" "omap_has (library_pins t) (s, cid)" unfolding delete_pins_get by (cases "s = sid"; simp)+
      with assms obtain l c' where "omap_get (library_pin_sets t) l = Some (s, c')" unfolding tables_ok_def has_id_def by blast
      moreover from this own_ids_eq[OF assms sid this] \<open>s \<noteq> sid\<close> have "l \<noteq> library" by simp
      ultimately show ?thesis unfolding has_id_def omap_get_delete by metis
    qed
    moreover have "distinct (omap_keys (library_pins (delete_pins sid t)))"
      using assms by (simp add: tables_ok_def delete_pins_def distinct_map_filter)
    ultimately show ?thesis using sid by (auto simp: tables_ok_def clear_pins_def delete_set_def delete_pins_def)
  qed (use assms in \<open>simp add: clear_pins_def\<close>)
  show "recorded_by (clear_pins library t) = (recorded_by t)(library := None)"
  proof (cases "omap_get (library_pin_sets t) library")
    case (Some x)
    then obtain sid c where sid: "omap_get (library_pin_sets t) library = Some (sid, c)" by (cases x) auto
    have "recorded_by (delete_pins sid t) = (recorded_by t)(library \<mapsto> (c, \<lambda>cid. omap_get (library_pins (delete_pins sid t)) (sid, cid)))"
      by (rule recorded_own[OF assms sid]) (simp_all add: delete_pins_get, simp add: delete_pins_def)
    moreover have "recorded_by (delete_set library t') = (recorded_by t')(library := None)" for t'
      by (auto simp: recorded_by_def delete_set_def ordered_simps fun_eq_iff)
    ultimately show ?thesis using sid by (simp add: clear_pins_def)
  qed (auto simp: clear_pins_def recorded_by_def)
qed

lemma perform_refines:
  assumes "tables_ok t"
  shows "tables_ok (perform rop t)" "recorded_by (perform rop t) = spec rop (recorded_by t)"
proof -
  show "tables_ok (perform rop t)"
    using assms set_pins_ok(1)[OF assms] set_clean_ok insert_set_ok delete_cids_ok clear_pins_ok
    by (cases rop) (auto simp: perform_def begin_pins_def settle_pins_def, metis set_pins_def)
  show "recorded_by (perform rop t) = spec rop (recorded_by t)"
    using assms
    by (cases rop)
       (simp_all add: perform_def spec_def begin_pins_def settle_pins_def recorded_set_clean recorded_insert_set delete_cids_ok clear_pins_ok
         set_pins_ok(2) set_pins_def[of _ "[]"] split_beta)
qed

lemma run_refines: "tables_ok t \<Longrightarrow> tables_ok (fold perform rops t) \<and> recorded_by (fold perform rops t) = fold spec rops (recorded_by t)"
  by (induction rops arbitrary: t) (simp_all add: perform_refines)

lemma tables_ok_empty: "tables_ok empty_tables"
  by (simp add: tables_ok_def empty_tables_def own_ids_def)

lemma select_pins_get: "map_of (select_pins sid t) cid = omap_get (library_pins t) (sid, cid)"
proof -
  have "map_of (map (\<lambda>((set_id, cid), recursive). (cid, recursive)) (List.filter (\<lambda>((set_id, cid), recursive). set_id = sid) m)) cid = map_of m (sid, cid)"
    for m :: "(nat \<times> string, bool) omap"
    by (induction m) auto
  then show ?thesis by (simp add: select_pins_def)
qed

lemma select_pins_distinct: "distinct (omap_keys (library_pins t)) \<Longrightarrow> distinct (map fst (select_pins sid t))"
proof -
  have "distinct (omap_keys m) \<Longrightarrow>
      distinct (map fst (map (\<lambda>((set_id, cid), recursive). (cid, recursive)) (List.filter (\<lambda>((set_id, cid), recursive). set_id = sid) m)))"
    for m :: "(nat \<times> string, bool) omap"
    by (induction m) force+
  then show "distinct (omap_keys (library_pins t)) \<Longrightarrow> ?thesis" by (simp add: select_pins_def)
qed

lemma map_of_rev: "distinct (map fst xs) \<Longrightarrow> map_of (rev xs) = map_of xs"
proof (induction xs)
  case (Cons x xs)
  then have "map_of xs (fst x) = None" by (simp add: map_of_eq_None_iff)
  with Cons show ?case by (cases x) (auto simp: map_add_def fun_eq_iff split: option.splits)
qed simp

lemma fold_omap_set: "map_of (fold (\<lambda>(k, v). omap_set k v) rows m) = map_of m ++ map_of (rev rows)"
  by (induction rows arbitrary: m) (auto simp: update_conv')

lemma load_pins_refines:
  assumes "tables_ok t"
  shows "map_option map_of (load_pins library t) = (case recorded_by t library of Some (True, pins) \<Rightarrow> Some pins | _ \<Rightarrow> None)"
proof -
  from assms have d: "distinct (omap_keys (library_pins t))" by (simp add: tables_ok_def)
  have "map_of (rev (select_pins sid t)) = (\<lambda>cid. omap_get (library_pins t) (sid, cid))" for sid
    using select_pins_distinct[OF d] by (simp add: map_of_rev select_pins_get fun_eq_iff)
  then show ?thesis
    by (auto simp: load_pins_def recorded_by_def fold_omap_set split: option.splits bool.splits)
qed

section \<open>Properties\<close>

text \<open>Whether the last operation that marks a library's set, if any, was the settling one.\<close>

definition mark :: "string \<Rightarrow> record_op \<Rightarrow> bool \<Rightarrow> bool" where
  "mark library rop settled = (case rop of
     Begin l \<Rightarrow> settled \<and> l \<noteq> library
   | Clear l \<Rightarrow> settled \<and> l \<noteq> library
   | Settle l \<Rightarrow> settled \<or> l = library
   | _ \<Rightarrow> settled)"

definition settled_last :: "string \<Rightarrow> record_op list \<Rightarrow> bool" where
  "settled_last library rops = fold (mark library) rops False"

definition clean :: "recorded \<Rightarrow> string \<Rightarrow> bool" where
  "clean r library = (case r library of None \<Rightarrow> False | Some (c, pins) \<Rightarrow> c)"

lemma clean_spec: "clean (spec rop r) library = mark library rop (clean r library)"
  by (cases rop) (auto simp: clean_def spec_def mark_def or_empty_def split: option.splits)

lemma clean_settled_last: "clean (fold spec rops r) library = fold (mark library) rops (clean r library)"
  by (induction rops arbitrary: r) (simp_all add: clean_spec)

text \<open>C19: The pin record implements its specification: after any sequence of begin, set, delete, settle and clear
  calls for any libraries, each library's recorded set is the one the calls for that library alone give, load
  returns exactly its pins when the set is clean, and nothing otherwise, and it is clean exactly when the
  last begin, settle or clear of that library was a settle.\<close>

theorem pin_record_refines:
  "recorded_by (fold perform rops empty_tables) = fold spec rops Map.empty \<and>
   map_option map_of (load_pins library (fold perform rops empty_tables)) =
     (case fold spec rops Map.empty library of Some (True, pins) \<Rightarrow> Some pins | _ \<Rightarrow> None) \<and>
   (load_pins library (fold perform rops empty_tables) \<noteq> None \<longleftrightarrow> settled_last library rops)"
proof -
  have "recorded_by empty_tables = Map.empty" by (simp add: recorded_by_def empty_tables_def fun_eq_iff)
  with run_refines[OF tables_ok_empty, of rops]
  have r: "tables_ok (fold perform rops empty_tables)" "recorded_by (fold perform rops empty_tables) = fold spec rops Map.empty" by simp_all
  note load = load_pins_refines[OF r(1), of library, unfolded r(2)]
  moreover from load have "load_pins library (fold perform rops empty_tables) \<noteq> None \<longleftrightarrow> clean (fold spec rops Map.empty) library"
    by (cases "load_pins library (fold perform rops empty_tables)") (auto simp: clean_def split: option.splits bool.splits)
  moreover have "\<not> clean Map.empty library" by (simp add: clean_def)
  ultimately show ?thesis using r(2) by (simp add: clean_settled_last settled_last_def)
qed

end
