(* ===== verification/Query_Index.thy ===== *)
theory Query_Index
  imports Sample_Log "HOL-Library.Log_Nat"
begin

text \<open>
  The query index and its projector (\<open>src/query-db/projector.ts\<close>), over the tables and triggers of
  \<open>src/query-db/schema.ts\<close>. A table is a list of rows with its primary key; an INSERT of a key that is there
  fails, and with it its transaction, and INSERT OR IGNORE leaves the table. The list-valued columns and the marker
  hold lists where the database holds their JSON text. The full-text search tables, which only searches
  read, are not part of the model, nor are I/O errors of the content store.

  A job of the projector awaits the content of each key it writes, and the oplog may move on meanwhile:
  a job is split at its awaits into the start, the loads and the write of each round.
\<close>

section \<open>Tables\<close>

record entry_row =
  en_library :: string
  en_key :: string
  en_hash :: string
  en_op :: op
  en_type :: string
  en_clock_time :: nat
  en_timestamp :: nat

record track_row =
  tr_library :: string
  tr_track_id :: string
  tr_hash :: string
  tr_content_cid :: string
  tr_audio_cid :: "string option"
  tr_audio_size_bytes :: "rat option"
  tr_title :: "string option"
  tr_artist :: "string option"
  tr_artists :: "string list"
  tr_album :: "string option"
  tr_album_artist :: "string option"
  tr_remixer :: "string option"
  tr_genre :: "string list"
  tr_bpm :: "rat option"
  tr_duration_seconds :: "rat option"
  tr_bitrate :: "rat option"
  tr_codec :: "string option"
  tr_sample_rate :: "rat option"
  tr_lossless :: "bool option"
  tr_artwork :: "string list"
  tr_added_at_ms :: "nat option"
  tr_listen_count :: int

record resolver_row =
  rr_library :: string
  rr_track_id :: string
  rr_extractor :: string
  rr_id :: string
  rr_fulltitle :: "string option"
  rr_thumbnail :: "string option"
  rr_artist :: "string option"
  rr_alt_title :: "string option"
  rr_upload_date :: "string option"
  rr_webpage_url :: "string option"
  rr_duration_seconds :: "rat option"

record about_row =
  ab_library :: string
  ab_about_id :: string
  ab_hash :: string
  ab_name :: string

record tag_row =
  tg_library :: string
  tg_track_id :: string
  tg_tag :: string
  tg_hash :: string

record listen_row =
  ls_library :: string
  ls_hash :: string
  ls_track_id :: string
  ls_address :: string
  ls_timestamp :: nat

record totals =
  to_track_count :: int
  to_audio_size_bytes :: rat
  to_put_count :: int

record marker =
  mk_heads :: "string list"
  mk_pending :: "string list"

record index_db =
  db_entries :: "entry_row list"
  db_tracks :: "track_row list"
  db_resolvers :: "resolver_row list"
  db_about :: "about_row list"
  db_tags :: "tag_row list"
  db_listens :: "listen_row list"
  db_totals :: "(string, totals) omap"
  db_heads :: "(string, marker) omap"

definition empty_index :: index_db where
  "empty_index = \<lparr>db_entries = [], db_tracks = [], db_resolvers = [], db_about = [], db_tags = [], db_listens = [], db_totals = [], db_heads = []\<rparr>"

definition insert_new :: "('r \<Rightarrow> 'k) \<Rightarrow> 'r \<Rightarrow> 'r list \<Rightarrow> 'r list option" where
  "insert_new key r rows = (if key r \<in> set (map key rows) then None else Some (rows @ [r]))"

definition insert_or_ignore :: "('r \<Rightarrow> 'k) \<Rightarrow> 'r \<Rightarrow> 'r list \<Rightarrow> 'r list" where
  "insert_or_ignore key r rows = (if key r \<in> set (map key rows) then rows else rows @ [r])"

section \<open>Triggers\<close>

text \<open>Addition in SQLite: two 64-bit integers give an integer unless the sum leaves that range; otherwise the sum is
  a double, the one nearest to it with ties to the even one (53 significant bits, multiples of
  \<open>2 ^ -1074\<close>). A column of integer affinity stores a double that is an integer of the range as that integer, so
  that a number is its value here. Sums beyond the largest double do not occur.\<close>

definition int64 :: "rat \<Rightarrow> bool" where
  "int64 x \<longleftrightarrow> of_int \<lfloor>x\<rfloor> = x \<and> - (2 ^ 63) \<le> x \<and> x < 2 ^ 63"

definition round_even :: "rat \<Rightarrow> int" where
  "round_even x = (let below = \<lfloor>x\<rfloor>; rest = x - of_int below
     in if rest < 1 / 2 \<or> rest = 1 / 2 \<and> even below then below else below + 1)"

definition nearest_double :: "rat \<Rightarrow> rat" where
  "nearest_double x =
     (let scaled = \<bar>x\<bar> * 2 ^ 1074; grid = 2 ^ (floorlog 2 (nat \<lfloor>scaled\<rfloor>) - 53)
      in sgn x * of_int (round_even (scaled / grid)) * grid / 2 ^ 1074)"

definition sqlite_add :: "rat \<Rightarrow> rat \<Rightarrow> rat" where
  "sqlite_add x y = (if int64 x \<and> int64 y \<and> int64 (x + y) then x + y else nearest_double (x + y))"

text \<open>\<open>counted\<close>: the deltas of a row join or leave the totals of its library. The two counts are numbers of rows,
  far from the bounds of an integer; the sum of the sizes, which entries declare, is not.\<close>

definition counted_totals :: "string \<Rightarrow> int \<Rightarrow> rat \<Rightarrow> int \<Rightarrow> (string, totals) omap \<Rightarrow> (string, totals) omap" where
  "counted_totals library tracks bytes puts m =
     (let t = (case omap_get m library of None \<Rightarrow> \<lparr>to_track_count = 0, to_audio_size_bytes = 0, to_put_count = 0\<rparr> | Some t \<Rightarrow> t)
      in omap_set library \<lparr>to_track_count = to_track_count t + tracks, to_audio_size_bytes = sqlite_add (to_audio_size_bytes t) bytes,
           to_put_count = to_put_count t + puts\<rparr> m)"

definition counted_track :: "int \<Rightarrow> track_row \<Rightarrow> (string, totals) omap \<Rightarrow> (string, totals) omap" where
  "counted_track sign r = counted_totals (tr_library r) sign
     (of_int sign * (case tr_audio_size_bytes r of None \<Rightarrow> 0 | Some n \<Rightarrow> n)) 0"

definition counted_entry :: "int \<Rightarrow> entry_row \<Rightarrow> (string, totals) omap \<Rightarrow> (string, totals) omap" where
  "counted_entry sign r = counted_totals (en_library r) 0 0 (sign * (if en_op r = PUT then 1 else 0))"

definition listens_counted :: "int \<Rightarrow> listen_row \<Rightarrow> track_row list \<Rightarrow> track_row list" where
  "listens_counted sign l rows =
     map (\<lambda>r. if tr_track_id r = ls_track_id l then r\<lparr>tr_listen_count := tr_listen_count r + sign\<rparr> else r) rows"

section \<open>Statements\<close>

definition delete_tracks :: "(track_row \<Rightarrow> bool) \<Rightarrow> index_db \<Rightarrow> index_db" where
  "delete_tracks P db = db\<lparr>db_tracks := List.filter (\<lambda>r. \<not> P r) (db_tracks db),
     db_totals := fold (counted_track (-1)) (List.filter P (db_tracks db)) (db_totals db)\<rparr>"

definition delete_entries :: "(entry_row \<Rightarrow> bool) \<Rightarrow> index_db \<Rightarrow> index_db" where
  "delete_entries P db = db\<lparr>db_entries := List.filter (\<lambda>r. \<not> P r) (db_entries db),
     db_totals := fold (counted_entry (-1)) (List.filter P (db_entries db)) (db_totals db)\<rparr>"

definition delete_listens :: "(listen_row \<Rightarrow> bool) \<Rightarrow> index_db \<Rightarrow> index_db" where
  "delete_listens P db = db\<lparr>db_listens := List.filter (\<lambda>r. \<not> P r) (db_listens db),
     db_tracks := fold (listens_counted (-1)) (List.filter P (db_listens db)) (db_tracks db)\<rparr>"

definition clear_key :: "string \<Rightarrow> string \<Rightarrow> index_db \<Rightarrow> index_db" where
  "clear_key library key db =
     (let db1 = delete_tracks (\<lambda>r. tr_library r = library \<and> tr_track_id r = key) db
      in db1\<lparr>db_resolvers := List.filter (\<lambda>r. \<not> (rr_library r = library \<and> rr_track_id r = key)) (db_resolvers db1),
             db_about := List.filter (\<lambda>r. \<not> (ab_library r = library \<and> ab_about_id r = key)) (db_about db1)\<rparr>)"

definition insert_entry_row :: "entry_row \<Rightarrow> index_db \<Rightarrow> index_db option" where
  "insert_entry_row r db = map_option (\<lambda>rows. db\<lparr>db_entries := rows, db_totals := counted_entry 1 r (db_totals db)\<rparr>)
     (insert_new (\<lambda>r. (en_library r, en_key r)) r (db_entries db))"

text \<open>The \<open>listen_count\<close> of a new row counts the listens of its track.\<close>

definition insert_track_row :: "track_row \<Rightarrow> index_db \<Rightarrow> index_db option" where
  "insert_track_row r db =
     (let row = r\<lparr>tr_listen_count := int (length (List.filter (\<lambda>l. ls_track_id l = tr_track_id r) (db_listens db)))\<rparr>
      in map_option (\<lambda>rows. db\<lparr>db_tracks := rows, db_totals := counted_track 1 row (db_totals db)\<rparr>)
           (insert_new (\<lambda>r. (tr_library r, tr_track_id r)) row (db_tracks db)))"

definition resolver_pk :: "resolver_row \<Rightarrow> string \<times> string \<times> string \<times> string" where
  "resolver_pk r = (rr_library r, rr_track_id r, rr_extractor r, rr_id r)"

definition insert_about_row :: "about_row \<Rightarrow> index_db \<Rightarrow> index_db option" where
  "insert_about_row r db = map_option (\<lambda>rows. db\<lparr>db_about := rows\<rparr>) (insert_new (\<lambda>r. (ab_library r, ab_about_id r)) r (db_about db))"

definition tag_pk :: "tag_row \<Rightarrow> string \<times> string \<times> string" where
  "tag_pk r = (tg_library r, tg_track_id r, tg_tag r)"

definition insert_label :: "tag_row \<Rightarrow> index_db \<Rightarrow> index_db option" where
  "insert_label r db = map_option (\<lambda>rows. db\<lparr>db_tags := rows\<rparr>) (insert_new tag_pk r (db_tags db))"

definition insert_listen :: "listen_row \<Rightarrow> index_db \<Rightarrow> index_db" where
  "insert_listen r db =
     (if (ls_library r, ls_hash r) \<in> set (map (\<lambda>r. (ls_library r, ls_hash r)) (db_listens db)) then db
      else db\<lparr>db_listens := db_listens db @ [r], db_tracks := listens_counted 1 r (db_tracks db)\<rparr>)"

section \<open>Columns\<close>

definition numeric_of :: "jsval \<Rightarrow> rat option" where
  "numeric_of v = (if is_number v then Some (number_value v) else None)"

definition record_or_empty :: "jsval \<Rightarrow> jsval" where
  "record_or_empty v = (if is_record v then v else JObj [])"

definition artists_of :: "jsval \<Rightarrow> string list" where
  "artists_of v = (case v of JStr s \<Rightarrow> [s] | _ \<Rightarrow> strings v)"

definition bool_of :: "jsval \<Rightarrow> bool option" where
  "bool_of v = (case v of JBool b \<Rightarrow> Some b | _ \<Rightarrow> None)"

text \<open>\<open>Number.POSITIVE_INFINITY\<close>, of a key with no PUT, is \<open>None\<close>.\<close>

definition added_at_of :: "oplog \<Rightarrow> string \<Rightarrow> nat option" where
  "added_at_of ol key =
     (let times = List.map_filter (\<lambda>h. case omap_get (ol_entries ol) h of
            None \<Rightarrow> None
          | Some e \<Rightarrow> (case ve_operation e of PutOperation _ envelope _ \<Rightarrow> Some (env_timestamp envelope) | _ \<Rightarrow> None))
            (case omap_get (ol_key_entries ol) key of None \<Rightarrow> [] | Some hs \<Rightarrow> hs)
      in if times = [] then None else Some (min_list times))"

section \<open>Writing a key\<close>

text \<open>\<open>content?.field\<close> of content that may be missing is a field of an empty object.\<close>

definition track_of :: "string \<Rightarrow> verified_entry \<Rightarrow> envelope \<Rightarrow> jsval option \<Rightarrow> nat option \<Rightarrow> track_row" where
  "track_of library e envelope content added_at =
     (let c = (case content of None \<Rightarrow> JObj [] | Some c \<Rightarrow> c);
          tags = record_or_empty (get ''tags'' c);
          audio = record_or_empty (get ''audio'' c)
      in \<lparr>tr_library = library, tr_track_id = env_id envelope, tr_hash = he_hash e, tr_content_cid = env_content envelope,
          tr_audio_cid = as_string (get ''hash'' c), tr_audio_size_bytes = numeric_of (get ''size'' c),
          tr_title = as_string (get ''title'' tags), tr_artist = as_string (get ''artist'' tags),
          tr_artists = artists_of (get ''artists'' tags), tr_album = as_string (get ''album'' tags),
          tr_album_artist = as_string (get ''albumartist'' tags), tr_remixer = as_string (get ''remixer'' tags),
          tr_genre = strings (get ''genre'' tags), tr_bpm = numeric_of (get ''bpm'' tags),
          tr_duration_seconds = numeric_of (get ''duration'' audio), tr_bitrate = numeric_of (get ''bitrate'' audio),
          tr_codec = as_string (get ''codec'' audio), tr_sample_rate = numeric_of (get ''sampleRate'' audio),
          tr_lossless = bool_of (get ''lossless'' audio), tr_artwork = strings (get ''artwork'' c),
          tr_added_at_ms = added_at, tr_listen_count = 0\<rparr>)"

text \<open>\<open>extractor\<close> and \<open>id\<close> are NOT NULL, so the insert ignores a resolver without them.\<close>

definition resolver_of :: "string \<Rightarrow> string \<Rightarrow> jsval \<Rightarrow> resolver_row option" where
  "resolver_of library track_id resolver =
     (let r = record_or_empty resolver
      in case (as_string (get ''extractor'' r), as_string (get ''id'' r)) of
           (Some extractor, Some i) \<Rightarrow> Some \<lparr>rr_library = library, rr_track_id = track_id, rr_extractor = extractor, rr_id = i,
             rr_fulltitle = as_string (get ''fulltitle'' r), rr_thumbnail = as_string (get ''thumbnail'' r), rr_artist = as_string (get ''artist'' r),
             rr_alt_title = as_string (get ''alt_title'' r), rr_upload_date = as_string (get ''upload_date'' r),
             rr_webpage_url = as_string (get ''webpage_url'' r), rr_duration_seconds = numeric_of (get ''duration'' r)\<rparr>
         | _ \<Rightarrow> None)"

definition resolvers_of :: "string \<Rightarrow> string \<Rightarrow> jsval option \<Rightarrow> resolver_row list" where
  "resolvers_of library track_id content = (case content of
     None \<Rightarrow> []
   | Some c \<Rightarrow> List.map_filter (resolver_of library track_id) (array_elements (get ''resolver'' c)))"

definition write_track ::
  "string \<Rightarrow> verified_entry \<Rightarrow> envelope \<Rightarrow> jsval option \<Rightarrow> nat option \<Rightarrow> index_db \<Rightarrow> index_db option" where
  "write_track library e envelope content added_at db =
     map_option (\<lambda>db1. db1\<lparr>db_resolvers := fold (insert_or_ignore resolver_pk) (resolvers_of library (env_id envelope) content) (db_resolvers db1)\<rparr>)
       (insert_track_row (track_of library e envelope content added_at) db)"

definition write_put :: "oplog \<Rightarrow> verified_entry \<Rightarrow> envelope \<Rightarrow> jsval option \<Rightarrow> index_db \<Rightarrow> index_db option" where
  "write_put ol e envelope content db =
     write_track (chain_address (ol_chain ol)) e envelope content (added_at_of ol (env_id envelope)) db"

definition write_key ::
  "oplog \<Rightarrow> string \<Rightarrow> verified_entry option \<Rightarrow> jsval option \<Rightarrow> index_db \<Rightarrow> index_db option" where
  "write_key ol key entry content db =
     (let library = chain_address (ol_chain ol);
          db1 = delete_entries (\<lambda>r. en_library r = library \<and> en_key r = key) (clear_key library key db);
          row = (\<lambda>e operation type timestamp. \<lparr>en_library = library, en_key = key, en_hash = he_hash e, en_op = operation, en_type = type,
            en_clock_time = e_time e, en_timestamp = timestamp\<rparr>)
      in case entry of
           None \<Rightarrow> Some db1
         | Some e \<Rightarrow> (case ve_operation e of
             AboutPut k r c \<Rightarrow> Option.bind (insert_entry_row (row e PUT ''about'' (ar_timestamp r)) db1)
               (insert_about_row \<lparr>ab_library = library, ab_about_id = key, ab_hash = he_hash e, ab_name = ar_name r\<rparr>)
           | PutOperation k envelope c \<Rightarrow> Option.bind (insert_entry_row (row e PUT ''track'' (env_timestamp envelope)) db1)
               (write_put ol e envelope content)
           | DelOperation k t c \<Rightarrow> insert_entry_row (row e DEL ''track'' t) db1
           | _ \<Rightarrow> Some db1))"

definition write_label :: "oplog \<Rightarrow> string \<Rightarrow> index_db \<Rightarrow> index_db option" where
  "write_label ol key db =
     (let library = chain_address (ol_chain ol);
          (track_id, label) = label_pair_of key;
          db1 = db\<lparr>db_tags := List.filter (\<lambda>r. tag_pk r \<noteq> (library, track_id, label)) (db_tags db)\<rparr>
      in case omap_get (ol_current ol) key of
           None \<Rightarrow> Some db1
         | Some e \<Rightarrow> (case ve_operation e of
             LabelsPut k r c \<Rightarrow>
               if applies_label r key
               then insert_label \<lparr>tg_library = library, tg_track_id = track_id, tg_tag = label, tg_hash = he_hash e\<rparr> db1 else Some db1
           | _ \<Rightarrow> Some db1))"

definition write_listen :: "string \<Rightarrow> verified_entry \<Rightarrow> index_db \<Rightarrow> index_db" where
  "write_listen library e db = (case ve_operation e of
     ListenPayload l \<Rightarrow> insert_listen \<lparr>ls_library = library, ls_hash = he_hash e, ls_track_id = li_track_id l,
       ls_address = li_address l, ls_timestamp = li_timestamp l\<rparr> db
   | _ \<Rightarrow> db)"

section \<open>Markers\<close>

definition heads_of :: "oplog \<Rightarrow> string list" where
  "heads_of ol = sort_by compare_strings (ol_heads ol)"

definition pending_of :: "string \<Rightarrow> index_db \<Rightarrow> string oset" where
  "pending_of library db = (case omap_get (db_heads db) library of None \<Rightarrow> [] | Some marker \<Rightarrow> mk_pending marker)"

type_synonym loaded = "string \<times> verified_entry option \<times> jsval option"

definition touch_pending :: "loaded \<Rightarrow> string oset \<Rightarrow> string oset" where
  "touch_pending item pending = (case item of (key, entry, content) \<Rightarrow>
     if (case entry of None \<Rightarrow> False | Some e \<Rightarrow> is_put (ve_operation e)) \<and> content = None
     then oset_add key (oset_delete key pending) else oset_delete key pending)"

definition upsert_marker :: "oplog \<Rightarrow> string list \<Rightarrow> index_db \<Rightarrow> index_db" where
  "upsert_marker ol pending db =
     db\<lparr>db_heads := omap_set (chain_address (ol_chain ol)) \<lparr>mk_heads = heads_of ol, mk_pending = pending\<rparr> (db_heads db)\<rparr>"

definition touch_marker :: "oplog \<Rightarrow> loaded list \<Rightarrow> index_db \<Rightarrow> index_db" where
  "touch_marker ol items db =
     upsert_marker ol (sort_by compare_strings (fold touch_pending items (pending_of (chain_address (ol_chain ol)) db))) db"

definition projection_state :: "string \<Rightarrow> index_db \<Rightarrow> marker option" where
  "projection_state library db = omap_get (db_heads db) library"

section \<open>Jobs\<close>

text \<open>Reading a content payload block by CID.\<close>

type_synonym content_reader = "string \<Rightarrow> bytes option"

definition load_content :: "deps \<Rightarrow> content_reader \<Rightarrow> verified_entry option \<Rightarrow> jsval option" where
  "load_content D read_content entry = (case entry of
     None \<Rightarrow> None
   | Some e \<Rightarrow> (case ve_operation e of
       PutOperation k envelope c \<Rightarrow> (case read_content (env_content envelope) of
           None \<Rightarrow> None
         | Some bs \<Rightarrow> (case and_then (decode_payload D bs) (validate_track_content D) of Inl _ \<Rightarrow> None | Inr content \<Rightarrow> Some content))
     | _ \<Rightarrow> None))"

text \<open>The keys a round of \<open>write_keys\<close> loads, each with the entry it saw and its content once loaded; the label
  keys are written with the first round.\<close>

record write_round =
  wr_library :: string
  wr_labels :: "string list"
  wr_items :: "(string \<times> verified_entry option \<times> jsval option option) list"

definition begin_round :: "oplog \<Rightarrow> string list \<Rightarrow> string oset \<Rightarrow> write_round" where
  "begin_round ol label_keys pending = \<lparr>wr_library = chain_address (ol_chain ol), wr_labels = label_keys,
     wr_items = map (\<lambda>key. (key, omap_get (ol_current ol) key, None)) pending\<rparr>"

definition begin_keys :: "oplog \<Rightarrow> string list \<Rightarrow> write_round" where
  "begin_keys ol ks = begin_round ol (List.filter is_label_key ks) (oset_of (List.filter (\<lambda>k. \<not> is_label_key k) ks))"

definition load_item :: "deps \<Rightarrow> content_reader \<Rightarrow> string \<Rightarrow> write_round \<Rightarrow> write_round" where
  "load_item D read_content key wr =
     wr\<lparr>wr_items := map (\<lambda>(k, entry, content). if k = key then (k, entry, Some (load_content D read_content entry)) else (k, entry, content)) (wr_items wr)\<rparr>"

definition loaded_items :: "write_round \<Rightarrow> loaded list" where
  "loaded_items wr = map (\<lambda>(k, entry, content). (k, entry, Option.bind content id)) (wr_items wr)"

definition stable_items :: "oplog \<Rightarrow> loaded list \<Rightarrow> loaded list" where
  "stable_items ol items = List.filter (\<lambda>(k, entry, content). omap_get (ol_current ol) k = entry) items"

fun write_all :: "('a \<Rightarrow> 'b \<Rightarrow> 'b option) \<Rightarrow> 'a list \<Rightarrow> 'b \<Rightarrow> 'b option" where
  "write_all f [] db = Some db"
| "write_all f (x # xs) db = Option.bind (f x db) (write_all f xs)"

text \<open>The transaction of a round; \<open>None\<close> when a statement fails.\<close>

definition round_transaction :: "oplog \<Rightarrow> write_round \<Rightarrow> index_db \<Rightarrow> index_db option" where
  "round_transaction ol wr db =
     Option.bind (write_all (write_label ol) (wr_labels wr) db) (\<lambda>db1.
     Option.bind (write_all (\<lambda>(k, entry, content). write_key ol k entry content) (stable_items ol (loaded_items wr)) db1) (\<lambda>db2.
       Some (touch_marker ol (stable_items ol (loaded_items wr)) db2)))"

definition retry_keys :: "oplog \<Rightarrow> write_round \<Rightarrow> string oset" where
  "retry_keys ol wr = oset_of (map fst (List.filter (\<lambda>x. x \<notin> set (stable_items ol (loaded_items wr))) (loaded_items wr)))"

text \<open>The end of a round: what it wrote, and the next round when a key moved on. A failed transaction is
  rolled back and ends the job.\<close>

definition finish_round :: "oplog \<Rightarrow> write_round \<Rightarrow> index_db \<Rightarrow> index_db \<times> write_round option" where
  "finish_round ol wr db = (case round_transaction ol wr db of
     None \<Rightarrow> (db, None)
   | Some db' \<Rightarrow> (db', if retry_keys ol wr = [] then None else Some (begin_round ol [] (retry_keys ol wr))))"

definition write_listens :: "oplog \<Rightarrow> verified_entry list \<Rightarrow> index_db \<Rightarrow> index_db" where
  "write_listens ol entries db = upsert_marker ol [] (fold (write_listen (chain_address (ol_chain ol))) entries db)"

definition write_identity :: "oplog \<Rightarrow> index_db \<Rightarrow> index_db" where
  "write_identity ol db = upsert_marker ol [] db"

definition remove_library :: "string \<Rightarrow> index_db \<Rightarrow> index_db" where
  "remove_library library db =
     (let db1 = delete_tracks (\<lambda>r. tr_library r = library) db;
          db2 = db1\<lparr>db_resolvers := List.filter (\<lambda>r. rr_library r \<noteq> library) (db_resolvers db1),
            db_about := List.filter (\<lambda>r. ab_library r \<noteq> library) (db_about db1),
            db_tags := List.filter (\<lambda>r. tg_library r \<noteq> library) (db_tags db1)\<rparr>;
          db3 = delete_listens (\<lambda>r. ls_library r = library) (delete_entries (\<lambda>r. en_library r = library) db2)
      in db3\<lparr>db_totals := omap_delete library (db_totals db3), db_heads := omap_delete library (db_heads db3)\<rparr>)"

datatype job =
    Project_entries string "verified_entry list" "string list"
  | Project_keys string "string list"
  | Project_library string
  | Remove_library string

text \<open>The first stretch of a job: the writes that await nothing, or the first round.\<close>

definition start_entries :: "oplog \<Rightarrow> verified_entry list \<Rightarrow> string list \<Rightarrow> index_db \<Rightarrow> index_db \<times> write_round option" where
  "start_entries ol entries ks db =
     (if chain_type (ol_chain ol) = listens then (write_listens ol entries db, None)
      else if chain_type (ol_chain ol) = identity then (write_identity ol db, None)
      else (db, Some (begin_keys ol (fold oset_add (concat (map ve_state_keys entries)) (oset_of ks)))))"

definition start_keys :: "oplog \<Rightarrow> string list \<Rightarrow> index_db \<Rightarrow> index_db \<times> write_round option" where
  "start_keys ol ks db =
     (if chain_type (ol_chain ol) = recordstore \<or> chain_type (ol_chain ol) = labels then (db, Some (begin_keys ol ks)) else (db, None))"

definition start_library :: "oplog \<Rightarrow> index_db \<Rightarrow> index_db \<times> write_round option" where
  "start_library ol db =
     (if chain_type (ol_chain ol) = listens then (write_listens ol (omap_values (ol_entries ol)) db, None)
      else if chain_type (ol_chain ol) = identity then (write_identity ol db, None)
      else (db, Some (begin_keys ol (omap_keys (ol_key_entries ol)))))"

definition start_job :: "(string \<Rightarrow> oplog) \<Rightarrow> job \<Rightarrow> index_db \<Rightarrow> index_db \<times> write_round option" where
  "start_job logs j db = (case j of
     Project_entries a entries ks \<Rightarrow> start_entries (logs a) entries ks db
   | Project_keys a ks \<Rightarrow> start_keys (logs a) ks db
   | Project_library a \<Rightarrow> start_library (logs a) db
   | Remove_library a \<Rightarrow> (remove_library a db, None))"

end
