(* ===== verification/Projection.thy ===== *)
theory Projection
  imports Query_Index Accepted
begin

text \<open>
  The query index follows the oplogs: what a run of the projector leaves in the tables is what a rebuild from
  the oplogs would write (\<open>src/query-db/rebuild.ts\<close>), whatever appends, merges and content arrived while its jobs
  awaited their loads.
\<close>

section \<open>The rows of a key\<close>

type_synonym key_rows = "entry_row set \<times> track_row set \<times> resolver_row set \<times> about_row set"

definition uncounted :: "track_row \<Rightarrow> track_row" where
  "uncounted r = r\<lparr>tr_listen_count := 0\<rparr>"

definition rows_of :: "index_db \<Rightarrow> string \<Rightarrow> string \<Rightarrow> key_rows" where
  "rows_of db a k = ({r \<in> set (db_entries db). en_library r = a \<and> en_key r = k},
     uncounted ` {r \<in> set (db_tracks db). tr_library r = a \<and> tr_track_id r = k},
     {r \<in> set (db_resolvers db). rr_library r = a \<and> rr_track_id r = k},
     {r \<in> set (db_about db). ab_library r = a \<and> ab_about_id r = k})"

definition tags_of :: "index_db \<Rightarrow> string \<Rightarrow> string \<Rightarrow> tag_row set" where
  "tags_of db a k = {r \<in> set (db_tags db). tag_pk r = (a, label_pair_of k)}"

abbreviation no_rows :: key_rows where
  "no_rows \<equiv> ({}, {}, {}, {})"

abbreviation library_of :: "oplog \<Rightarrow> string" where
  "library_of ol \<equiv> chain_address (ol_chain ol)"

text \<open>The rows of a key are those a write into an empty index gives it.\<close>

definition written_rows :: "oplog \<Rightarrow> string \<Rightarrow> verified_entry option \<Rightarrow> jsval option \<Rightarrow> key_rows" where
  "written_rows ol k entry content = (case write_key ol k entry content empty_index of
     None \<Rightarrow> no_rows | Some db \<Rightarrow> rows_of db (library_of ol) k)"

definition written_tags :: "oplog \<Rightarrow> string \<Rightarrow> tag_row set" where
  "written_tags ol k = (case write_label ol k empty_index of
     None \<Rightarrow> {} | Some db \<Rightarrow> tags_of db (library_of ol) k)"

text \<open>An entry is current under the id of its envelope.\<close>

definition keyed_entry :: "string \<Rightarrow> verified_entry option \<Rightarrow> bool" where
  "keyed_entry k entry \<longleftrightarrow> (\<forall>e k' envelope c. entry = Some e \<and> ve_operation e = PutOperation k' envelope c \<longrightarrow> env_id envelope = k)"

lemma set_insert_or_ignore:
  "{r \<in> set (fold (insert_or_ignore resolver_pk) rs rows). rr_library r = a \<and> rr_track_id r = k} =
   {r \<in> set (fold (insert_or_ignore resolver_pk) (List.filter (\<lambda>r. rr_library r = a \<and> rr_track_id r = k) rs)
      (List.filter (\<lambda>r. rr_library r = a \<and> rr_track_id r = k) rows)). True}"
proof (induction rs arbitrary: rows)
  case (Cons x xs)
  let ?P = "\<lambda>r. rr_library r = a \<and> rr_track_id r = k"
  have "List.filter ?P (insert_or_ignore resolver_pk x rows) =
      (if ?P x then insert_or_ignore resolver_pk x (List.filter ?P rows) else List.filter ?P rows)"
    by (auto simp: insert_or_ignore_def resolver_pk_def)
  with Cons show ?case by simp
qed simp

lemma resolver_of_keyed: "resolver_of a k v = Some r \<Longrightarrow> rr_library r = a \<and> rr_track_id r = k"
  by (auto simp: resolver_of_def Let_def split: option.splits)

lemma resolvers_of_keyed: "r \<in> set (resolvers_of a k content) \<Longrightarrow> rr_library r = a \<and> rr_track_id r = k"
  using resolver_of_keyed by (auto simp: resolvers_of_def set_map_filter_eq split: option.splits)

lemma track_of_fields [simp]:
  "tr_library (track_of a e envelope c t) = a" "tr_track_id (track_of a e envelope c t) = env_id envelope"
  "uncounted (track_of a e envelope c t\<lparr>tr_listen_count := n\<rparr>) = track_of a e envelope c t"
  by (simp_all add: track_of_def uncounted_def Let_def)

text \<open>What a write of a key does to the tables: the rows of the key make room for new ones, which do not depend
  on the index.\<close>

definition writes_rows ::
  "string \<Rightarrow> string \<Rightarrow> (index_db \<Rightarrow> index_db option) \<Rightarrow> entry_row list \<Rightarrow> track_row list \<Rightarrow> resolver_row list \<Rightarrow> about_row list \<Rightarrow> bool" where
  "writes_rows a k f es ts rs bs \<longleftrightarrow>
     (\<forall>r \<in> set es. en_library r = a \<and> en_key r = k) \<and> (\<forall>r \<in> set ts. tr_library r = a \<and> tr_track_id r = k) \<and>
     (\<forall>r \<in> set rs. rr_library r = a \<and> rr_track_id r = k) \<and> (\<forall>r \<in> set bs. ab_library r = a \<and> ab_about_id r = k) \<and>
     (\<forall>db. \<exists>db'. f db = Some db' \<and>
        db_entries db' = List.filter (\<lambda>r. \<not> (en_library r = a \<and> en_key r = k)) (db_entries db) @ es \<and>
        map uncounted (db_tracks db') = map uncounted (List.filter (\<lambda>r. \<not> (tr_library r = a \<and> tr_track_id r = k)) (db_tracks db)) @ ts \<and>
        db_resolvers db' = fold (insert_or_ignore resolver_pk) rs
          (List.filter (\<lambda>r. \<not> (rr_library r = a \<and> rr_track_id r = k)) (db_resolvers db)) \<and>
        db_about db' = List.filter (\<lambda>r. \<not> (ab_library r = a \<and> ab_about_id r = k)) (db_about db) @ bs \<and>
        db_tags db' = db_tags db \<and> db_listens db' = db_listens db \<and> db_heads db' = db_heads db)"

lemmas row_statements = clear_key_def delete_tracks_def delete_entries_def insert_entry_row_def insert_track_row_def insert_about_row_def
  insert_new_def write_put_def write_track_def Let_def

lemma writes_nothing: "writes_rows (library_of ol) k (write_key ol k None content) [] [] [] []"
  by (simp add: writes_rows_def write_key_def row_statements)

lemma write_key_other:
  assumes "\<not> is_put (ve_operation e)" "\<not> is_about_put (ve_operation e)" "\<not> is_envelope_operation (ve_operation e)"
  shows "write_key ol k (Some e) content = write_key ol k None content"
  using assms by (cases "ve_operation e") (auto simp: write_key_def Let_def is_put_def is_about_put_def is_envelope_operation_def)

lemma write_key_writes:
  assumes "keyed_entry k entry"
  shows "\<exists>es ts rs bs. writes_rows (library_of ol) k (write_key ol k entry content) es ts rs bs"
proof (cases entry)
  case None
  then show ?thesis using writes_nothing by blast
next
  case (Some e)
  let ?row = "\<lambda>operation type timestamp. \<lparr>en_library = library_of ol, en_key = k, en_hash = he_hash e, en_op = operation, en_type = type,
      en_clock_time = e_time e, en_timestamp = timestamp\<rparr>"
  show ?thesis
  proof (cases "ve_operation e")
    case (PutOperation k' envelope c)
    with assms Some have "env_id envelope = k" by (simp add: keyed_entry_def)
    with Some PutOperation have "writes_rows (library_of ol) k (write_key ol k entry content) [?row PUT ''track'' (env_timestamp envelope)]
        [track_of (library_of ol) e envelope content (added_at_of ol k)] (resolvers_of (library_of ol) k content) []"
      using resolvers_of_keyed[of _ "library_of ol" k content] by (auto simp: writes_rows_def write_key_def row_statements)
    then show ?thesis by blast
  next
    case (AboutPut k' r c)
    with Some have "writes_rows (library_of ol) k (write_key ol k entry content) [?row PUT ''about'' (ar_timestamp r)] [] []
        [\<lparr>ab_library = library_of ol, ab_about_id = k, ab_hash = he_hash e, ab_name = ar_name r\<rparr>]"
      by (auto simp: writes_rows_def write_key_def row_statements)
    then show ?thesis by blast
  next
    case (DelOperation k' t c)
    with Some have "writes_rows (library_of ol) k (write_key ol k entry content) [?row DEL ''track'' t] [] [] []"
      by (auto simp: writes_rows_def write_key_def row_statements)
    then show ?thesis by blast
  qed (use Some writes_nothing[of ol k content] in \<open>metis write_key_other is_put_def is_about_put_def is_envelope_operation_def entry_payload.simps\<close>)+
qed

lemma uncounted_fields [simp]: "tr_library (uncounted r) = tr_library r" "tr_track_id (uncounted r) = tr_track_id r" "uncounted (uncounted r) = uncounted r"
  by (simp_all add: uncounted_def)

lemma rows_of_tracks:
  "uncounted ` {r \<in> set (db_tracks db). tr_library r = a \<and> tr_track_id r = k} = {r \<in> set (map uncounted (db_tracks db)). tr_library r = a \<and> tr_track_id r = k}"
  by auto

lemma writes_rows_of:
  assumes "writes_rows a k f es ts rs bs"
  obtains db' where "f db = Some db'" "db_tags db' = db_tags db" "db_listens db' = db_listens db" "db_heads db' = db_heads db"
    "rows_of db' a k = (set es, set ts, set (fold (insert_or_ignore resolver_pk) rs []), set bs)"
    "\<And>a' k'. (a', k') \<noteq> (a, k) \<Longrightarrow> rows_of db' a' k' = rows_of db a' k'"
proof -
  from assms have keyed: "\<forall>r \<in> set es. en_library r = a \<and> en_key r = k" "\<forall>r \<in> set ts. tr_library r = a \<and> tr_track_id r = k"
    "\<forall>r \<in> set rs. rr_library r = a \<and> rr_track_id r = k" "\<forall>r \<in> set bs. ab_library r = a \<and> ab_about_id r = k"
    unfolding writes_rows_def by simp_all
  from assms obtain db' where f: "f db = Some db'" "db_tags db' = db_tags db" "db_listens db' = db_listens db" "db_heads db' = db_heads db"
    and e: "db_entries db' = List.filter (\<lambda>r. \<not> (en_library r = a \<and> en_key r = k)) (db_entries db) @ es"
    and t: "map uncounted (db_tracks db') = map uncounted (List.filter (\<lambda>r. \<not> (tr_library r = a \<and> tr_track_id r = k)) (db_tracks db)) @ ts"
    and r: "db_resolvers db' = fold (insert_or_ignore resolver_pk) rs (List.filter (\<lambda>r. \<not> (rr_library r = a \<and> rr_track_id r = k)) (db_resolvers db))"
    and b: "db_about db' = List.filter (\<lambda>r. \<not> (ab_library r = a \<and> ab_about_id r = k)) (db_about db) @ bs"
    unfolding writes_rows_def by blast
  have res: "{x \<in> set (db_resolvers db'). rr_library x = a' \<and> rr_track_id x = k'} = (if (a', k') = (a, k)
      then set (fold (insert_or_ignore resolver_pk) rs []) else {x \<in> set (db_resolvers db). rr_library x = a' \<and> rr_track_id x = k'})" for a' k'
  proof (cases "(a', k') = (a, k)")
    case True
    have "List.filter (\<lambda>r. rr_library r = a \<and> rr_track_id r = k) rs = rs" using keyed(3) by (simp add: filter_id_conv)
    then show ?thesis using True unfolding r set_insert_or_ignore by simp
  next
    case False
    have "List.filter (\<lambda>r. rr_library r = a' \<and> rr_track_id r = k') rs = []" using keyed(3) False by (auto simp: filter_empty_conv)
    then show ?thesis using False unfolding r set_insert_or_ignore by auto
  qed
  show thesis
  proof (rule that[OF f])
    show "rows_of db' a k = (set es, set ts, set (fold (insert_or_ignore resolver_pk) rs []), set bs)"
      unfolding rows_of_def rows_of_tracks res e t b using keyed by auto
    show "rows_of db' a' k' = rows_of db a' k'" if "(a', k') \<noteq> (a, k)" for a' k'
      unfolding rows_of_def rows_of_tracks res e t b using keyed that by auto
  qed
qed

lemma write_key_rows:
  assumes "keyed_entry k entry"
  obtains db' where "write_key ol k entry content db = Some db'" "db_tags db' = db_tags db" "db_listens db' = db_listens db" "db_heads db' = db_heads db"
    "rows_of db' (library_of ol) k = written_rows ol k entry content"
    "\<And>a' k'. (a', k') \<noteq> (library_of ol, k) \<Longrightarrow> rows_of db' a' k' = rows_of db a' k'"
proof -
  from write_key_writes[OF assms] obtain es ts rs bs where w: "writes_rows (library_of ol) k (write_key ol k entry content) es ts rs bs" by blast
  have "written_rows ol k entry content = (set es, set ts, set (fold (insert_or_ignore resolver_pk) rs []), set bs)"
    by (rule writes_rows_of[OF w, of empty_index]) (simp add: written_rows_def)
  then show thesis using writes_rows_of[OF w, of db] that by metis
qed

lemma write_label_tags:
  obtains db' where "write_label ol k db = Some db'" "db' = db\<lparr>db_tags := db_tags db'\<rparr>"
    "tags_of db' (library_of ol) k = written_tags ol k"
    "\<And>a' k'. (a', label_pair_of k') \<noteq> (library_of ol, label_pair_of k) \<Longrightarrow> tags_of db' a' k' = tags_of db a' k'"
proof -
  obtain i l where il: "label_pair_of k = (i, l)" by fastforce
  let ?rest = "\<lambda>db. List.filter (\<lambda>r. tag_pk r \<noteq> (library_of ol, i, l)) (db_tags db)"
  define new where "new = (case omap_get (ol_current ol) k of None \<Rightarrow> [] | Some e \<Rightarrow> (case ve_operation e of
      LabelsPut k' r c \<Rightarrow> if applies_label r k then [\<lparr>tg_library = library_of ol, tg_track_id = i, tg_tag = l, tg_hash = he_hash e\<rparr>] else [] | _ \<Rightarrow> []))"
  have new: "\<forall>r \<in> set new. tag_pk r = (library_of ol, i, l)"
    by (auto simp: new_def tag_pk_def split: option.splits entry_payload.splits)
  have w: "write_label ol k x = Some (x\<lparr>db_tags := ?rest x @ new\<rparr>)" for x
    by (simp add: write_label_def il new_def Let_def insert_label_def insert_new_def split: option.splits entry_payload.splits)
       (auto simp: tag_pk_def)
  show thesis
  proof (rule that[OF w])
    show "tags_of (db\<lparr>db_tags := ?rest db @ new\<rparr>) (library_of ol) k = written_tags ol k"
      using new by (auto simp: tags_of_def written_tags_def w il empty_index_def)
    show "tags_of (db\<lparr>db_tags := ?rest db @ new\<rparr>) a' k' = tags_of db a' k'" if "(a', label_pair_of k') \<noteq> (library_of ol, label_pair_of k)" for a' k'
      using new that by (auto simp: tags_of_def il)
  qed simp
qed

section \<open>A round\<close>

definition label_ok :: "string \<Rightarrow> bool" where
  "label_ok k \<longleftrightarrow> (\<exists>p. k = label_state_key p \<and> length (fst p) = 64)"

lemma label_ok_key: "label_ok k \<Longrightarrow> is_label_key k"
  by (auto simp: label_ok_def)

lemma label_ok_inj: "label_ok k \<Longrightarrow> label_ok k' \<Longrightarrow> label_pair_of k = label_pair_of k' \<longleftrightarrow> k = k'"
  by (auto simp: label_ok_def)

lemma rows_of_cong: "db_entries db = db_entries db' \<Longrightarrow> db_tracks db = db_tracks db' \<Longrightarrow> db_resolvers db = db_resolvers db' \<Longrightarrow>
   db_about db = db_about db' \<Longrightarrow> rows_of db a k = rows_of db' a k"
  by (simp add: rows_of_def)

lemma rows_of_upsert [simp]: "rows_of (upsert_marker ol ks db) a k = rows_of db a k" "tags_of (upsert_marker ol ks db) a k = tags_of db a k"
  by (simp_all add: upsert_marker_def rows_of_def tags_of_def)

lemma write_labels_tags:
  assumes "\<forall>k \<in> set ks. label_ok k"
  obtains db' where "write_all (write_label ol) ks db = Some db'" "db' = db\<lparr>db_tags := db_tags db'\<rparr>"
    "\<And>k. label_ok k \<Longrightarrow> tags_of db' (library_of ol) k = (if k \<in> set ks then written_tags ol k else tags_of db (library_of ol) k)"
    "\<And>a k. a \<noteq> library_of ol \<Longrightarrow> tags_of db' a k = tags_of db a k"
  using assms
proof (induction ks arbitrary: db thesis)
  case Nil
  then show ?case by simp
next
  case (Cons x xs)
  obtain d where d: "write_label ol x db = Some d" "d = db\<lparr>db_tags := db_tags d\<rparr>" "tags_of d (library_of ol) x = written_tags ol x"
    "\<And>a' k'. (a', label_pair_of k') \<noteq> (library_of ol, label_pair_of x) \<Longrightarrow> tags_of d a' k' = tags_of db a' k'"
    using write_label_tags[of ol x db] by blast
  from Cons.prems(2) have ok: "label_ok x" "\<forall>k \<in> set xs. label_ok k" by simp_all
  obtain d' where d': "write_all (write_label ol) xs d = Some d'" "d' = d\<lparr>db_tags := db_tags d'\<rparr>"
    "\<And>k. label_ok k \<Longrightarrow> tags_of d' (library_of ol) k = (if k \<in> set xs then written_tags ol k else tags_of d (library_of ol) k)"
    "\<And>a k. a \<noteq> library_of ol \<Longrightarrow> tags_of d' a k = tags_of d a k"
    using Cons.IH[OF _ ok(2), of d] by blast
  show ?case
  proof (rule Cons.prems(1)[of d'])
    show "write_all (write_label ol) (x # xs) db = Some d'" using d(1) d'(1) by simp
    have "d' = (db\<lparr>db_tags := db_tags d\<rparr>)\<lparr>db_tags := db_tags d'\<rparr>" by (rule trans[OF d'(2)]) (subst d(2), rule refl)
    then show "d' = db\<lparr>db_tags := db_tags d'\<rparr>" by simp
    show "tags_of d' (library_of ol) k = (if k \<in> set (x # xs) then written_tags ol k else tags_of db (library_of ol) k)" if "label_ok k" for k
      using d'(3)[OF that] d(3) d(4)[of "library_of ol" k] label_ok_inj[OF that ok(1)] by auto
    show "tags_of d' a k = tags_of db a k" if "a \<noteq> library_of ol" for a k using d'(4)[OF that] d(4) that by simp
  qed
qed

abbreviation write_item :: "oplog \<Rightarrow> loaded \<Rightarrow> index_db \<Rightarrow> index_db option" where
  "write_item ol \<equiv> (\<lambda>(k, entry, content). write_key ol k entry content)"

lemma write_items_rows:
  assumes "distinct (map fst items)" "\<forall>(k, entry, content) \<in> set items. keyed_entry k entry"
  obtains db' where "write_all (write_item ol) items db = Some db'" "db_tags db' = db_tags db" "db_listens db' = db_listens db" "db_heads db' = db_heads db"
    "\<And>k entry content. (k, entry, content) \<in> set items \<Longrightarrow> rows_of db' (library_of ol) k = written_rows ol k entry content"
    "\<And>a k. a \<noteq> library_of ol \<or> k \<notin> fst ` set items \<Longrightarrow> rows_of db' a k = rows_of db a k"
  using assms
proof (induction items arbitrary: db thesis)
  case Nil
  show ?case by (rule Nil(1)[of db]) simp_all
next
  case (Cons x xs)
  obtain k entry content where x: "x = (k, entry, content)" by (cases x)
  with Cons.prems(2,3) have ok: "keyed_entry k entry" "k \<notin> fst ` set xs" "distinct (map fst xs)"
    "\<forall>(k, entry, content) \<in> set xs. keyed_entry k entry" by auto
  obtain d where d: "write_key ol k entry content db = Some d" "db_tags d = db_tags db" "db_listens d = db_listens db" "db_heads d = db_heads db"
    "rows_of d (library_of ol) k = written_rows ol k entry content"
    "\<And>a' k'. (a', k') \<noteq> (library_of ol, k) \<Longrightarrow> rows_of d a' k' = rows_of db a' k'"
    using write_key_rows[OF ok(1)] by blast
  obtain d' where d': "write_all (write_item ol) xs d = Some d'" "db_tags d' = db_tags d" "db_listens d' = db_listens d" "db_heads d' = db_heads d"
    "\<And>k entry content. (k, entry, content) \<in> set xs \<Longrightarrow> rows_of d' (library_of ol) k = written_rows ol k entry content"
    "\<And>a k. a \<noteq> library_of ol \<or> k \<notin> fst ` set xs \<Longrightarrow> rows_of d' a k = rows_of d a k"
    using Cons.IH[OF _ ok(3,4), of d] by blast
  show ?case
  proof (rule Cons.prems(1)[of d'])
    show "write_all (write_item ol) (x # xs) db = Some d'" using d(1) d'(1) x by simp
    show "rows_of d' (library_of ol) k' = written_rows ol k' entry' content'" if "(k', entry', content') \<in> set (x # xs)" for k' entry' content'
    proof (cases "(k', entry', content') \<in> set xs")
      case False
      with that x have "k' = k" "entry' = entry" "content' = content" by auto
      with d(5) d'(6)[of "library_of ol" k] ok(2) show ?thesis by simp
    qed (rule d'(5))
    show "rows_of d' a k' = rows_of db a k'" if "a \<noteq> library_of ol \<or> k' \<notin> fst ` set (x # xs)" for a k'
      using that x d(6)[of a k'] d'(6)[of a k'] by auto
  qed (use d d' in simp_all)
qed

definition awaits_content :: "verified_entry option \<Rightarrow> jsval option \<Rightarrow> bool" where
  "awaits_content entry content \<longleftrightarrow> (case entry of None \<Rightarrow> False | Some e \<Rightarrow> is_put (ve_operation e)) \<and> content = None"

lemma set_touch_pending:
  assumes "distinct (map fst items)"
  shows "k \<in> set (fold touch_pending items p) \<longleftrightarrow>
    (if k \<in> fst ` set items then \<exists>entry content. (k, entry, content) \<in> set items \<and> awaits_content entry content else k \<in> set p)"
  using assms
proof (induction items arbitrary: p)
  case (Cons x xs)
  obtain k' entry content where x: "x = (k', entry, content)" by (cases x)
  with Cons.prems have new: "k' \<notin> fst ` set xs" by auto
  have "k \<in> set (touch_pending x p) \<longleftrightarrow> (if k = k' then awaits_content entry content else k \<in> set p)"
    by (auto simp: x touch_pending_def awaits_content_def)
  with Cons new x show ?case by (auto simp: image_iff) force+
qed simp

definition round_ok :: "write_round \<Rightarrow> bool" where
  "round_ok wr \<longleftrightarrow> (\<forall>k \<in> set (wr_labels wr). label_ok k) \<and> distinct (map fst (wr_items wr))"

lemma map_fst_loaded [simp]: "map fst (loaded_items wr) = map fst (wr_items wr)"
  by (simp add: loaded_items_def comp_def case_prod_unfold)

lemma set_retry_keys:
  assumes "distinct (map fst (wr_items wr))"
  shows "set (retry_keys ol wr) = fst ` set (wr_items wr) - fst ` set (stable_items ol (loaded_items wr))"
proof -
  let ?items = "loaded_items wr" and ?stable = "stable_items ol (loaded_items wr)"
  have sub: "set ?stable \<subseteq> set ?items" by (auto simp: stable_items_def)
  have "inj_on fst (set ?items)" using assms by (metis distinct_map map_fst_loaded)
  then have "fst ` (set ?items - set ?stable) = fst ` set ?items - fst ` set ?stable"
    by (rule inj_on_image_set_diff) (use sub in auto)
  moreover have "fst ` set ?items = fst ` set (wr_items wr)" by (metis map_fst_loaded set_map)
  ultimately show ?thesis by (simp add: retry_keys_def set_diff_eq)
qed

lemma pending_of_upsert: "pending_of a (upsert_marker ol ks db) = (if a = library_of ol then ks else pending_of a db)"
  by (simp add: pending_of_def upsert_marker_def omap_get_set)

text \<open>What a round leaves in the index: the tags of its labels and the rows of the keys that stood still are
  written, and nothing else changes.\<close>

definition round_effect :: "oplog \<Rightarrow> string list \<Rightarrow> loaded list \<Rightarrow> index_db \<Rightarrow> index_db \<Rightarrow> bool" where
  "round_effect ol ls items db db' \<longleftrightarrow>
     (\<forall>k. label_ok k \<longrightarrow> tags_of db' (library_of ol) k = (if k \<in> set ls then written_tags ol k else tags_of db (library_of ol) k)) \<and>
     (\<forall>a k. a \<noteq> library_of ol \<longrightarrow> tags_of db' a k = tags_of db a k) \<and>
     (\<forall>k entry content. (k, entry, content) \<in> set items \<longrightarrow> rows_of db' (library_of ol) k = written_rows ol k entry content) \<and>
     (\<forall>a k. a \<noteq> library_of ol \<or> k \<notin> fst ` set items \<longrightarrow> rows_of db' a k = rows_of db a k) \<and>
     (\<forall>k entry content. (k, entry, content) \<in> set items \<and> awaits_content entry content \<longrightarrow> k \<in> set (pending_of (library_of ol) db')) \<and>
     (\<forall>a k. a \<noteq> library_of ol \<or> k \<notin> fst ` set items \<longrightarrow> k \<in> set (pending_of a db') \<longleftrightarrow> k \<in> set (pending_of a db))"

lemma round_effectD:
  assumes "round_effect ol ls items db db'"
  shows "label_ok k \<Longrightarrow> tags_of db' (library_of ol) k = (if k \<in> set ls then written_tags ol k else tags_of db (library_of ol) k)"
    "a \<noteq> library_of ol \<Longrightarrow> tags_of db' a k = tags_of db a k"
    "(k, entry, content) \<in> set items \<Longrightarrow> rows_of db' (library_of ol) k = written_rows ol k entry content"
    "a \<noteq> library_of ol \<or> k \<notin> fst ` set items \<Longrightarrow> rows_of db' a k = rows_of db a k"
    "(k, entry, content) \<in> set items \<Longrightarrow> awaits_content entry content \<Longrightarrow> k \<in> set (pending_of (library_of ol) db')"
    "a \<noteq> library_of ol \<or> k \<notin> fst ` set items \<Longrightarrow> k \<in> set (pending_of a db') \<longleftrightarrow> k \<in> set (pending_of a db)"
  using assms by (simp_all add: round_effect_def) metis

lemma touch_marker_effect:
  assumes "distinct (map fst items)"
    and d: "\<And>k. label_ok k \<Longrightarrow> tags_of d (library_of ol) k = (if k \<in> set ls then written_tags ol k else tags_of db (library_of ol) k)"
      "\<And>a k. a \<noteq> library_of ol \<Longrightarrow> tags_of d a k = tags_of db a k"
      "\<And>k entry content. (k, entry, content) \<in> set items \<Longrightarrow> rows_of d (library_of ol) k = written_rows ol k entry content"
      "\<And>a k. a \<noteq> library_of ol \<or> k \<notin> fst ` set items \<Longrightarrow> rows_of d a k = rows_of db a k"
      "db_heads d = db_heads db"
  shows "round_effect ol ls items db (touch_marker ol items d)"
proof -
  have pend: "pending_of a d = pending_of a db" for a by (simp add: pending_of_def d(5))
  have mine: "k \<in> set (pending_of (library_of ol) (touch_marker ol items d)) \<longleftrightarrow>
      (if k \<in> fst ` set items then \<exists>entry content. (k, entry, content) \<in> set items \<and> awaits_content entry content else k \<in> set (pending_of (library_of ol) db))" for k
    by (simp add: touch_marker_def pending_of_upsert pend set_touch_pending[OF assms(1)])
  have other: "pending_of a (touch_marker ol items d) = pending_of a db" if "a \<noteq> library_of ol" for a
    using that by (simp add: touch_marker_def pending_of_upsert pend)
  have rows: "rows_of (touch_marker ol items d) a k = rows_of d a k" "tags_of (touch_marker ol items d) a k = tags_of d a k" for a k
    by (simp_all add: touch_marker_def)
  show ?thesis unfolding round_effect_def rows
  proof (intro conjI allI impI)
    show "k \<in> set (pending_of (library_of ol) (touch_marker ol items d))" if "(k, entry, content) \<in> set items \<and> awaits_content entry content" for k entry content
      unfolding mine using that by (metis fst_conv image_eqI)
    show "k \<in> set (pending_of a (touch_marker ol items d)) \<longleftrightarrow> k \<in> set (pending_of a db)" if "a \<noteq> library_of ol \<or> k \<notin> fst ` set items" for a k
      using mine[of k] other[of a] that by (cases "a = library_of ol") simp_all
  qed (use d(1-4) in simp_all)
qed

lemma finish_round_effect:
  assumes "round_ok wr" "\<forall>(k, entry, content) \<in> set (stable_items ol (loaded_items wr)). keyed_entry k entry"
  obtains db' where "finish_round ol wr db = (db', if retry_keys ol wr = [] then None else Some (begin_round ol [] (retry_keys ol wr)))"
    "round_effect ol (wr_labels wr) (stable_items ol (loaded_items wr)) db db'"
proof -
  let ?stable = "stable_items ol (loaded_items wr)"
  have dist: "distinct (map fst ?stable)"
    using assms(1) map_fst_loaded[of wr] unfolding round_ok_def stable_items_def by (metis distinct_map_filter)
  obtain d where d: "write_all (write_label ol) (wr_labels wr) db = Some d" "d = db\<lparr>db_tags := db_tags d\<rparr>"
    "\<And>k. label_ok k \<Longrightarrow> tags_of d (library_of ol) k = (if k \<in> set (wr_labels wr) then written_tags ol k else tags_of db (library_of ol) k)"
    "\<And>a k. a \<noteq> library_of ol \<Longrightarrow> tags_of d a k = tags_of db a k"
    using write_labels_tags[of "wr_labels wr" ol db] assms(1) unfolding round_ok_def by blast
  have same: "db_heads d = db_heads db" "rows_of d a k = rows_of db a k" for a k by (subst d(2), simp add: rows_of_def)+
  obtain d' where d': "write_all (write_item ol) ?stable d = Some d'" "db_tags d' = db_tags d" "db_heads d' = db_heads d"
    "\<And>k entry content. (k, entry, content) \<in> set ?stable \<Longrightarrow> rows_of d' (library_of ol) k = written_rows ol k entry content"
    "\<And>a k. a \<noteq> library_of ol \<or> k \<notin> fst ` set ?stable \<Longrightarrow> rows_of d' a k = rows_of d a k"
    by (rule write_items_rows[OF dist assms(2), of ol d]) (rule that; assumption)
  show thesis
  proof (rule that[of "touch_marker ol ?stable d'"])
    show "finish_round ol wr db = (touch_marker ol ?stable d', if retry_keys ol wr = [] then None else Some (begin_round ol [] (retry_keys ol wr)))"
      using d(1) d'(1) by (simp add: finish_round_def round_transaction_def)
    have "tags_of d' a k = tags_of d a k" for a k by (simp add: tags_of_def d'(2))
    then show "round_effect ol (wr_labels wr) ?stable db (touch_marker ol ?stable d')"
      by (intro touch_marker_effect[OF dist]) (use d d' same in simp_all)
  qed
qed

section \<open>Keys of an oplog\<close>

lemma with_capability_put: "with_capability p c = PutOperation k envelope c' \<Longrightarrow> \<exists>c''. p = PutOperation k envelope c''"
  "with_capability p c = LabelsPut k r c' \<Longrightarrow> \<exists>c''. p = LabelsPut k r c''" "with_capability p c = AboutPut k b c' \<Longrightarrow> \<exists>c''. p = AboutPut k b c''"
  by (cases "(p, c)" rule: with_capability.cases; auto)+

lemma validated_record_put:
  "validate_record_put D k' v s ws = Inr (PutOperation k envelope c) \<Longrightarrow> env_id envelope = k \<and> is_track_id k"
  "validate_record_put D k' v s ws = Inr (LabelsPut k r c) \<Longrightarrow> labels_ok D r"
  "validate_record_put D k' v s ws = Inr (AboutPut k b c) \<Longrightarrow> k = ABOUT_KEY D"
  by (auto simp: validate_record_put_def result_simps Let_def validate_about_record_def validate_envelope_def
      dest: validate_labels_record_Inr split: if_splits option.splits)

text \<open>A put of a record comes out of the validation of records.\<close>

lemma validated_identity_kind:
  "validate_identity_operation D p = Inr operation \<Longrightarrow> \<not> is_put operation \<and> \<not> is_labels_put operation \<and> \<not> is_about_put operation"
  by (auto simp: validate_identity_operation_def result_simps Let_def is_put_def is_labels_put_def is_about_put_def split: if_splits option.splits)

lemma validated_by_record_put:
  assumes "validate_operation D p type ws = Inr operation" "is_put operation \<or> is_labels_put operation \<or> is_about_put operation"
  shows "\<exists>k v s q c. validate_record_put D k v s ws = Inr q \<and> with_capability q c = operation"
proof -
  from assms validated_identity_kind[of D p operation] obtain s where "validate_record_operation D p s ws = Inr operation"
    by (auto simp: validate_operation_def result_simps is_put_def is_labels_put_def is_about_put_def split: if_splits)
  moreover have "with_capability (DelOperation k t None) c \<noteq> operation" for k t c
    using assms(2) by (cases c) (auto simp: is_put_def is_labels_put_def is_about_put_def)
  ultimately show ?thesis using assms(2)
    by (auto simp: validate_record_operation_def result_simps Let_def is_put_def is_labels_put_def is_about_put_def split: if_splits option.splits) blast+
qed

lemma validated_put:
  assumes v: "validate_operation D p type ws = Inr operation"
  shows "operation = PutOperation k envelope c \<Longrightarrow> env_id envelope = k \<and> is_track_id k"
    "operation = LabelsPut k r c \<Longrightarrow> labels_ok D r" "operation = AboutPut k b c \<Longrightarrow> k = ABOUT_KEY D"
proof -
  note w = validated_by_record_put[OF v, unfolded is_put_def is_labels_put_def is_about_put_def]
  show "operation = PutOperation k envelope c \<Longrightarrow> env_id envelope = k \<and> is_track_id k"
    using w by (auto dest: with_capability_put(1) validated_record_put(1))
  show "operation = LabelsPut k r c \<Longrightarrow> labels_ok D r" using w by (auto dest: with_capability_put(2) validated_record_put(2))
  show "operation = AboutPut k b c \<Longrightarrow> k = ABOUT_KEY D" using w by (auto dest: with_capability_put(3) validated_record_put(3))
qed

lemma validated_del:
  assumes "validate_operation D p type ws = Inr (DelOperation k t c)"
  shows "is_track_id k"
proof -
  have "with_capability q c' = DelOperation k t c \<Longrightarrow> \<exists>c''. q = DelOperation k t c''" for q c'
    by (cases "(q, c')" rule: with_capability.cases) auto
  moreover have "validate_record_put D k' v s ws \<noteq> Inr (DelOperation k t c')" for k' v s c'
    by (auto simp: validate_record_put_def result_simps Let_def split: if_splits)
  ultimately show ?thesis using assms
    by (auto simp: validate_operation_def validate_record_operation_def validate_identity_operation_def result_simps Let_def
        split: if_splits option.splits) metis+
qed

lemma track_id_not_label: "is_track_id k \<Longrightarrow> \<not> is_label_key k"
proof
  assume t: "is_track_id k" "is_label_key k"
  then obtain x where "k = ''label:'' @ x" by (auto simp: is_label_key_def strip_prefix_Some_iff LABEL_KEY_PREFIX_def)
  with t(1) show False by (simp add: is_track_id_def is_lower_hex_def)
qed

lemma validated_keys:
  assumes v: "validate_operation D p type ws = Inr operation" and "\<not> is_label_key (ABOUT_KEY D)"
    and k: "k \<in> set (state_keys_of operation)" "is_label_key k"
  shows "label_ok k"
proof (cases operation)
  case (LabelsPut k' r c)
  then have "labels_ok D r" by (rule validated_put(2)[OF v])
  moreover obtain q where "q \<in> set (lr_set r) \<union> set (lr_unset r)" "k = label_state_key q" using k(1) LabelsPut by (auto simp: state_keys_of_def)
  ultimately have "length (fst q) = 64" by (simp add: labels_ok_def label_pair_ok_def is_track_id_def)
  with \<open>k = label_state_key q\<close> show ?thesis unfolding label_ok_def by blast
next
  case (PutOperation k' envelope c)
  then have "is_track_id k'" using validated_put(1)[OF v] by blast
  then show ?thesis using k PutOperation track_id_not_label by (simp add: state_keys_of_def)
next
  case (AboutPut k' b c)
  then have "k' = ABOUT_KEY D" by (rule validated_put(3)[OF v])
  then show ?thesis using k AboutPut assms(2) by (simp add: state_keys_of_def)
next
  case (DelOperation k' t c)
  then show ?thesis using k track_id_not_label validated_del v by (auto simp: state_keys_of_def)
qed (use k in \<open>auto simp: state_keys_of_def is_label_key_def strip_prefix_Some_iff LABEL_KEY_PREFIX_def identity_type_name_def split: identity_record_type.splits\<close>)

lemma reachable_keys:
  assumes "reachable D ol" "inj (multihash_of_digest D)" "\<not> is_label_key (ABOUT_KEY D)" "entries_of ol h = Some e" "k \<in> set (ve_state_keys e)"
  shows "keyed_entry k (Some e)" "is_label_key k \<Longrightarrow> label_ok k"
proof -
  from reachable_checked[OF assms(1,2,4)] obtain hashed operation where o: "check_entry D (ol_chain ol) hashed = Inr operation" "e = as_verified hashed operation" .
  have k: "k \<in> set (state_keys_of (ve_operation e))" using reachable_state_keys[OF assms(1,2,4)] assms(5) by simp
  have e: "ve_operation e = operation" using o(2) by simp
  note v = checked_operation[OF o(1)]
  show "is_label_key k \<Longrightarrow> label_ok k" using validated_keys[OF v assms(3)] k e by simp
  have "env_id envelope = k" if "operation = PutOperation k' envelope c" for k' envelope c
    using validated_put(1)[OF v that] that k e by (simp add: state_keys_of_def)
  then show "keyed_entry k (Some e)" by (auto simp: keyed_entry_def e)
qed

section \<open>What an append or a merge moves\<close>

definition key_used :: "oplog \<Rightarrow> string \<Rightarrow> bool" where
  "key_used ol k \<longleftrightarrow> (\<exists>h e. entries_of ol h = Some e \<and> k \<in> set (ve_state_keys e))"

definition put_time :: "verified_entry \<Rightarrow> nat option" where
  "put_time e = (case ve_operation e of PutOperation _ envelope _ \<Rightarrow> Some (env_timestamp envelope) | _ \<Rightarrow> None)"

definition put_times :: "oplog \<Rightarrow> string \<Rightarrow> nat set" where
  "put_times ol k = {t. \<exists>h e. entries_of ol h = Some e \<and> k \<in> set (ve_state_keys e) \<and> put_time e = Some t}"

lemma added_at_of_times:
  assumes "structure_ok D ol"
  shows "added_at_of ol k = (if put_times ol k = {} then None else Some (Min (put_times ol k)))"
proof -
  define times where "times = List.map_filter (\<lambda>h. case omap_get (ol_entries ol) h of None \<Rightarrow> None | Some e \<Rightarrow> put_time e) (key_hashes (ol_key_entries ol) k)"
  have "set times = put_times ol k"
    unfolding times_def set_map_filter_eq structure_okD(7)[OF assms] put_times_def by (auto split: option.splits)
  moreover have "added_at_of ol k = (if times = [] then None else Some (min_list times))"
    unfolding added_at_of_def times_def key_hashes_def put_time_def[abs_def] Let_def ..
  ultimately show ?thesis using min_list_Min[of times] by (auto simp flip: set_empty)
qed

text \<open>One oplog follows another: its entries are kept, and outside some keys the current entry and the time of
  the first put are the same.\<close>

definition grown :: "deps \<Rightarrow> oplog \<Rightarrow> oplog \<Rightarrow> string set \<Rightarrow> bool" where
  "grown D ol ol' ks \<longleftrightarrow> reachable D ol' \<and> ol_chain ol' = ol_chain ol \<and> entries_of ol \<subseteq>\<^sub>m entries_of ol' \<and>
     (\<forall>k. k \<notin> ks \<longrightarrow> omap_get (ol_current ol') k = omap_get (ol_current ol) k \<and> added_at_of ol' k = added_at_of ol k)"

lemma grown_refresh:
  assumes ext: "extended D ol ol1 added" and chain: "ol_chain ol1 = ol_chain ol" and res: "refresh_access_state ol1 added = (ol2, change)"
    and ks: "set ks = set (ac_keys change) \<union> (\<Union>e \<in> set added. set (ve_state_keys e))" and ok: "reachable D (refresh_current_state ol2 ks)"
    "inj (multihash_of_digest D)"
  shows "grown D ol (refresh_current_state ol2 ks) (set ks)"
proof -
  note e = extendedD[OF ext] and f = refresh_access_fields[where ol = ol1 and added = added, unfolded res fst_conv]
  let ?ol = "refresh_current_state ol2 ks"
  have st: "structure_ok D ?ol" using reachable_ok[OF ok] by (simp add: oplog_ok_def)
  have entries: "entries_of ?ol = entries_of ol1" by (simp add: refresh_current_fields f(1))
  have "put_times ?ol k = put_times ol k" if "k \<notin> set ks" for k
  proof -
    have "entries_of ol1 h = Some x \<and> k \<in> set (ve_state_keys x) \<longleftrightarrow> entries_of ol h = Some x \<and> k \<in> set (ve_state_keys x)" for h x
      using e(6,7)[of h x] that unfolding ks by blast
    then show ?thesis unfolding put_times_def entries by metis
  qed
  then have "added_at_of ?ol k = added_at_of ol k" if "k \<notin> set ks" for k
    using that by (simp add: added_at_of_times[OF st] added_at_of_times[OF e(1)])
  moreover have "omap_get (ol_current ?ol) k = omap_get (ol_current ol) k" if "k \<notin> set ks" for k
    using that by (simp add: refresh_current_get f(3) e(10))
  moreover have "entries_of ol \<subseteq>\<^sub>m entries_of ?ol" unfolding entries map_le_def using e(7) by (auto simp: dom_def)
  ultimately show ?thesis using ok(1) chain by (simp add: grown_def refresh_current_fields f(2))
qed

lemma append_grown:
  assumes "reachable D ol" "inj (multihash_of_digest D)" "append_entry_with_access D ol payload kp = Inr (ol', e, access)"
    "omap_get (ol_entries ol) (he_hash e) = None"
  shows "grown D ol ol' (set (ac_keys access) \<union> set (ve_state_keys e))"
proof -
  note a = append_ok[OF reachable_ok[OF assms(1,2)] assms(2-4)]
  from append_Inr[OF assms(3)] obtain ol2 where r: "refresh_access_state (fst (insert_entry ol e)) [e] = (ol2, access)"
    "ol' = refresh_current_state ol2 (oset_of (ac_keys access @ ve_state_keys e))" by blast
  have "grown D ol ol' (set (oset_of (ac_keys access @ ve_state_keys e)))"
    unfolding r(2) by (rule grown_refresh[OF a(2) _ r(1)])
      (use insert_entry_fields[OF assms(4)] reachable.appended[OF assms(1,3,4)] assms(2) r(2) in auto)
  then show ?thesis by simp
qed

lemma merge_grown:
  assumes "reachable D ol" "inj (multihash_of_digest D)" "merge_entries D ol blocks = (ol', result)"
  shows "grown D ol ol' (set (ac_keys (mr_access result)) \<union> (\<Union>e \<in> set (mr_merged result). set (ve_state_keys e)))"
    "mr_merged result = [] \<Longrightarrow> ac_keys (mr_access result) = []"
proof -
  obtain undecodable decoded where d: "decode_blocks D ol blocks = (undecodable, decoded)" by (meson surj_pair)
  obtain ol1 m refused where a: "admit_all (verify_entry D) ol (sort_by compare_merge decoded) = (ol1, m, refused)" by (meson prod_cases3)
  obtain ol2 access where r: "refresh_access_state ol1 m = (ol2, access)" by (meson surj_pair)
  let ?ks = "fold oset_add (concat (map ve_state_keys m)) (ac_keys access)"
  have eq: "ol' = refresh_current_state ol2 ?ks" "mr_merged result = m" "mr_access result = access"
    using assms(3) by (auto simp: merge_entries_def insert_blocks_def d a r)
  have ok: "structure_ok D ol" using reachable_ok[OF assms(1,2)] by (simp add: oplog_ok_def)
  have ext: "extended D ol ol1 m"
    by (rule admit_all_extended[OF ok _ a]) (use decoded_hash_ok[of _ D ol blocks] d in simp)
  have reach: "reachable D ol'" using reachable.merged[OF assms(1), of blocks] assms(3) by simp
  have chain: "ol_chain ol1 = ol_chain ol"
    using merge_chain[OF reachable_ok[OF assms(1,2)] assms(2), of blocks] assms(3) refresh_access_fields(2)[of ol1 m] r
    by (simp add: eq refresh_current_fields)
  have "grown D ol ol' (set ?ks)"
    unfolding eq(1) by (rule grown_refresh[OF ext chain r]) (use reach eq(1) assms(2) in \<open>auto simp: set_fold_oset_add\<close>)
  then show "grown D ol ol' (set (ac_keys (mr_access result)) \<union> (\<Union>e \<in> set (mr_merged result). set (ve_state_keys e)))"
    by (simp add: set_fold_oset_add eq(2,3) Un_commute)
  show "ac_keys (mr_access result) = []" if "mr_merged result = []"
    using r that unfolding eq(2,3) by (auto simp: refresh_access_state_def Let_def case_prod_unfold split: if_splits)
qed

end
