(* ===== verification/Index_Run.thy ===== *)
theory Index_Run
  imports Projection
begin

text \<open>
  Runs of the projector beside the oplogs: appends and merges move an oplog at once and leave a projection to
  make, jobs run one at a time, content arrives and the loads of a job finish in any order, and a round is
  written when all its loads have. A run is one run of the process from an empty index: every library is opened
  once and projected whole. Opens that find a marker of an earlier run and skip the replay, removals of a library and restarts
  are not steps of it.
\<close>

section \<open>Runs\<close>

record index_state =
  ix_open :: "string set"
  ix_logs :: "string \<Rightarrow> oplog"
  ix_reader :: content_reader
  ix_db :: index_db
  ix_owed :: "job list"
  ix_queue :: "job list"
  ix_round :: "write_round option"

definition all_loaded :: "write_round \<Rightarrow> bool" where
  "all_loaded wr \<longleftrightarrow> (\<forall>(k, entry, content) \<in> set (wr_items wr). content \<noteq> None)"

inductive index_run :: "deps \<Rightarrow> index_state \<Rightarrow> bool" for D where
  fresh: "index_run D \<lparr>ix_open = {}, ix_logs = logs, ix_reader = reader, ix_db = empty_index, ix_owed = [], ix_queue = [], ix_round = None\<rparr>"
| opened: "index_run D r \<Longrightarrow> a \<notin> ix_open r \<Longrightarrow> reachable D ol \<Longrightarrow> library_of ol = a \<Longrightarrow>
    index_run D (r\<lparr>ix_open := insert a (ix_open r), ix_logs := (ix_logs r)(a := ol), ix_owed := ix_owed r @ [Project_library a]\<rparr>)"
| appended: "index_run D r \<Longrightarrow> a \<in> ix_open r \<Longrightarrow> append_entry_with_access D (ix_logs r a) payload kp = Inr (ol', e, access) \<Longrightarrow>
    omap_get (ol_entries (ix_logs r a)) (he_hash e) = None \<Longrightarrow>
    index_run D (r\<lparr>ix_logs := (ix_logs r)(a := ol'), ix_owed := ix_owed r @ [Project_entries a [e] (ac_keys access)]\<rparr>)"
| merged: "index_run D r \<Longrightarrow> a \<in> ix_open r \<Longrightarrow> merge_entries D (ix_logs r a) blocks = (ol', result) \<Longrightarrow>
    index_run D (r\<lparr>ix_logs := (ix_logs r)(a := ol'), ix_owed := ix_owed r @
      (if mr_merged result = [] then [] else [Project_entries a (mr_merged result) (ac_keys (mr_access result))])\<rparr>)"
| reindexed: "index_run D r \<Longrightarrow> a \<in> ix_open r \<Longrightarrow> \<forall>e \<in> set entries. entries_of (ix_logs r a) (he_hash e) = Some e \<Longrightarrow>
    index_run D (r\<lparr>ix_owed := ix_owed r @ [Project_keys a (concat (map ve_state_keys entries))]\<rparr>)"
| enqueued: "index_run D r \<Longrightarrow> j \<in> set (ix_owed r) \<Longrightarrow>
    index_run D (r\<lparr>ix_owed := remove1 j (ix_owed r), ix_queue := ix_queue r @ [j]\<rparr>)"
| started: "index_run D r \<Longrightarrow> ix_round r = None \<Longrightarrow> ix_queue r = j # q \<Longrightarrow> start_job (ix_logs r) j (ix_db r) = (db', wr) \<Longrightarrow>
    index_run D (r\<lparr>ix_queue := q, ix_db := db', ix_round := wr\<rparr>)"
| loaded: "index_run D r \<Longrightarrow> ix_round r = Some wr \<Longrightarrow>
    index_run D (r\<lparr>ix_round := Some (load_item D (ix_reader r) k wr)\<rparr>)"
| written: "index_run D r \<Longrightarrow> ix_round r = Some wr \<Longrightarrow> all_loaded wr \<Longrightarrow> finish_round (ix_logs r (wr_library wr)) wr (ix_db r) = (db', wr') \<Longrightarrow>
    index_run D (r\<lparr>ix_db := db', ix_round := wr'\<rparr>)"
| stored: "index_run D r \<Longrightarrow> ix_reader r \<subseteq>\<^sub>m reader \<Longrightarrow> index_run D (r\<lparr>ix_reader := reader\<rparr>)"

section \<open>What is still to be written\<close>

fun job_keys :: "job \<Rightarrow> string \<Rightarrow> string set" where
  "job_keys (Project_entries b es ks) a = (if a = b then set ks \<union> (\<Union>e \<in> set es. set (ve_state_keys e)) else {})"
| "job_keys (Project_keys b ks) a = (if a = b then set ks else {})"
| "job_keys (Project_library b) a = (if a = b then UNIV else {})"
| "job_keys (Remove_library b) a = {}"

definition round_keys :: "write_round \<Rightarrow> string \<Rightarrow> string set" where
  "round_keys wr a = (if wr_library wr = a then set (wr_labels wr) \<union> fst ` set (wr_items wr) else {})"

definition outstanding :: "index_state \<Rightarrow> string \<Rightarrow> string set" where
  "outstanding r a = (\<Union>j \<in> set (ix_owed r) \<union> set (ix_queue r). job_keys j a) \<union>
     (case ix_round r of None \<Rightarrow> {} | Some wr \<Rightarrow> round_keys wr a)"

section \<open>The invariant\<close>

definition keyed_library :: "oplog \<Rightarrow> bool" where
  "keyed_library ol \<longleftrightarrow> chain_type (ol_chain ol) = recordstore \<or> chain_type (ol_chain ol) = labels"

definition job_ok :: "index_state \<Rightarrow> job \<Rightarrow> bool" where
  "job_ok r j \<longleftrightarrow> (case j of
     Project_entries a es ks \<Rightarrow> a \<in> ix_open r \<and> (\<forall>k \<in> job_keys j a. key_used (ix_logs r a) k)
   | Project_keys a ks \<Rightarrow> a \<in> ix_open r \<and> (\<forall>k \<in> set ks. key_used (ix_logs r a) k)
   | Project_library a \<Rightarrow> a \<in> ix_open r
   | Remove_library a \<Rightarrow> False)"

definition round_run_ok :: "deps \<Rightarrow> index_state \<Rightarrow> write_round \<Rightarrow> bool" where
  "round_run_ok D r wr \<longleftrightarrow> wr_library wr \<in> ix_open r \<and> keyed_library (ix_logs r (wr_library wr)) \<and> round_ok wr \<and>
     (\<forall>(k, entry, content) \<in> set (wr_items wr). \<not> is_label_key k \<and>
        (\<forall>c. content = Some c \<longrightarrow> c = None \<or> c = load_content D (ix_reader r) entry))"

definition row_ok :: "deps \<Rightarrow> index_state \<Rightarrow> string \<Rightarrow> string \<Rightarrow> bool" where
  "row_ok D r a k \<longleftrightarrow> (let current = omap_get (ol_current (ix_logs r a)) k in
     \<exists>c. rows_of (ix_db r) a k = written_rows (ix_logs r a) k current c \<and>
       (c = None \<and> k \<in> set (pending_of a (ix_db r)) \<or> c = load_content D (ix_reader r) current \<and> \<not> awaits_content current c))"

definition library_rows_ok :: "deps \<Rightarrow> index_state \<Rightarrow> string \<Rightarrow> bool" where
  "library_rows_ok D r a \<longleftrightarrow>
     (\<forall>k. \<not> is_label_key k \<and> k \<notin> outstanding r a \<longrightarrow> row_ok D r a k) \<and>
     (\<forall>k. label_ok k \<and> k \<notin> outstanding r a \<longrightarrow> tags_of (ix_db r) a k = written_tags (ix_logs r a) k)"

definition unused_empty :: "index_state \<Rightarrow> string \<Rightarrow> bool" where
  "unused_empty r a \<longleftrightarrow> (\<forall>k. a \<notin> ix_open r \<or> \<not> key_used (ix_logs r a) k \<longrightarrow>
     rows_of (ix_db r) a k = no_rows \<and> (label_ok k \<longrightarrow> tags_of (ix_db r) a k = {}))"

definition index_ok :: "deps \<Rightarrow> index_state \<Rightarrow> bool" where
  "index_ok D r \<longleftrightarrow> (\<forall>a \<in> ix_open r. reachable D (ix_logs r a) \<and> library_of (ix_logs r a) = a) \<and>
     (\<forall>j \<in> set (ix_owed r) \<union> set (ix_queue r). job_ok r j) \<and>
     (\<forall>wr. ix_round r = Some wr \<longrightarrow> round_run_ok D r wr) \<and>
     (\<forall>a. unused_empty r a) \<and>
     (\<forall>a \<in> ix_open r. keyed_library (ix_logs r a) \<longrightarrow> library_rows_ok D r a)"

section \<open>Current entries\<close>

lemma current_used:
  assumes "reachable D ol" "inj (multihash_of_digest D)" "omap_get (ol_current ol) k = Some e"
  shows "entries_of ol (he_hash e) = Some e" "k \<in> set (ve_state_keys e)" "key_used ol k"
proof -
  have ok: "structure_ok D ol" "current_ok ol" using reachable_ok[OF assms(1,2)] by (simp_all add: oplog_ok_def)
  with assms(3) have "least_by compare_current_state None (List.map_filter (entries_of ol) (live_hashes ol k)) = Some e"
    by (simp add: current_ok_def resolve_key_def resolve_current_state_def)
  from least_by_in[OF this] have "e \<in> live_set ol k" using resolve_key_candidates[OF ok(1)] by simp
  then show "entries_of ol (he_hash e) = Some e" "k \<in> set (ve_state_keys e)" "key_used ol k" by (auto simp: live_set_def key_used_def)
qed

lemma current_keyed:
  assumes "reachable D ol" "inj (multihash_of_digest D)" "\<not> is_label_key (ABOUT_KEY D)"
  shows "keyed_entry k (omap_get (ol_current ol) k)"
proof (cases "omap_get (ol_current ol) k")
  case (Some e)
  then show ?thesis using reachable_keys(1)[OF assms] current_used(1,2)[OF assms(1,2)] by metis
qed (simp add: keyed_entry_def)

lemma used_label_ok:
  "reachable D ol \<Longrightarrow> inj (multihash_of_digest D) \<Longrightarrow> \<not> is_label_key (ABOUT_KEY D) \<Longrightarrow> key_used ol k \<Longrightarrow> is_label_key k \<Longrightarrow> label_ok k"
  using reachable_keys(2) unfolding key_used_def by blast

lemma written_unused:
  assumes "reachable D ol" "inj (multihash_of_digest D)" "\<not> key_used ol k"
  shows "omap_get (ol_current ol) k = None" "written_rows ol k (omap_get (ol_current ol) k) c = no_rows" "written_tags ol k = {}"
proof -
  show none: "omap_get (ol_current ol) k = None" using current_used(3)[OF assms(1,2)] assms(3) by (cases "omap_get (ol_current ol) k") auto
  from writes_nothing[of ol k c] show "written_rows ol k (omap_get (ol_current ol) k) c = no_rows"
    unfolding none by (rule writes_rows_of[of _ _ _ _ _ _ _ empty_index]) (simp add: written_rows_def)
  show "written_tags ol k = {}"
    using none by (simp add: written_tags_def write_label_def tags_of_def empty_index_def Let_def case_prod_unfold)
qed

lemma load_content_mono:
  assumes "reader \<subseteq>\<^sub>m reader'" "load_content D reader entry = Some c"
  shows "load_content D reader' entry = Some c"
proof -
  from assms(2) obtain e k envelope c' bs where e: "entry = Some e" "ve_operation e = PutOperation k envelope c'" "reader (env_content envelope) = Some bs"
    by (auto simp: load_content_def split: option.splits entry_payload.splits)
  then have "reader' (env_content envelope) = Some bs" using assms(1) by (auto simp: map_le_def dom_def)
  with assms(2) e show ?thesis by (simp add: load_content_def)
qed

lemma load_content_not_put: "\<not> awaits_content entry None \<Longrightarrow> load_content D reader entry = None"
  by (auto simp: awaits_content_def load_content_def is_put_def split: option.splits entry_payload.splits)

lemma written_rows_cong:
  assumes "ol_chain ol' = ol_chain ol" "added_at_of ol' k = added_at_of ol k" "keyed_entry k entry"
  shows "written_rows ol' k entry c = written_rows ol k entry c"
proof -
  have "write_key ol' k entry c = write_key ol k entry c"
    using assms by (intro ext) (auto simp: write_key_def write_put_def[abs_def] Let_def keyed_entry_def split: option.splits entry_payload.splits)
  then show ?thesis unfolding written_rows_def assms(1) by simp
qed

lemma written_tags_cong:
  assumes "ol_chain ol' = ol_chain ol" "omap_get (ol_current ol') k = omap_get (ol_current ol) k"
  shows "written_tags ol' k = written_tags ol k"
  unfolding written_tags_def write_label_def assms ..

lemma key_used_grown: "grown D ol ol' ks \<Longrightarrow> key_used ol k \<Longrightarrow> key_used ol' k"
  unfolding grown_def key_used_def map_le_def by (metis domI)

text \<open>The keys an access change names are keys of entries.\<close>

lemma judge_all_used:
  "k \<in> set (ac_keys (snd (judge_all ol eff hs acc))) \<Longrightarrow> k \<in> set (ac_keys (snd acc)) \<or> key_used ol k"
proof (induction hs arbitrary: acc)
  case (Cons h hs)
  obtain inert change where acc: "acc = (inert, change)" by (cases acc)
  show ?case
  proof (cases "entries_of ol h")
    case None
    with Cons acc show ?thesis by auto
  next
    case (Some e)
    show ?thesis
    proof (cases "judge ol eff e = (h \<in> set inert)")
      case True
      with Cons.prems acc Some Cons.IH[of "(inert, change)"] show ?thesis by simp
    next
      case False
      let ?acc = "(if judge ol eff e then oset_add h inert else oset_delete h inert,
          \<lparr>ac_inert = (if judge ol eff e then ac_inert change @ [e] else ac_inert change), ac_keys = fold oset_add (ve_state_keys e) (ac_keys change)\<rparr>)"
      from False Some acc have "judge_all ol eff (h # hs) acc = judge_all ol eff hs ?acc" by (simp add: Let_def)
      with Cons.prems Cons.IH[of ?acc] have "k \<in> set (fold oset_add (ve_state_keys e) (ac_keys change)) \<or> key_used ol k" by simp
      then show ?thesis using Some acc by (auto simp: set_fold_oset_add key_used_def)
    qed
  qed
qed simp

lemma refresh_access_used:
  assumes "refresh_access_state ol added = (ol', change)" "k \<in> set (ac_keys change)"
  shows "key_used ol k"
proof -
  define none where "none = \<lparr>ac_inert = [], ac_keys = ([] :: string list)\<rparr>"
  define b where "b = list_ex (\<lambda>e. omap_has (ol_revocations ol) (he_hash e)) added"
  define ol1 where "ol1 = (if b then refresh_effective ol else ol)"
  define eff where "eff = List.map_filter (omap_get (ol_entries ol1)) (ol_effective ol1)"
  define hs where "hs = (if b then ol_delegated ol1 else map he_hash (List.filter (\<lambda>e. he_hash e \<in> set (ol_delegated ol1)) added))"
  have "change = (if \<not> b \<and> length (ol_effective ol1) = 0 \<and> length (ol_inert ol1) = 0 then none else snd (judge_all ol1 eff hs (ol_inert ol1, none)))"
    using assms(1) unfolding refresh_access_state_def Let_def case_prod_unfold b_def[symmetric] ol1_def[symmetric] eff_def[symmetric] hs_def[symmetric]
      none_def[symmetric] by (metis snd_conv)
  moreover have "k \<notin> set (ac_keys none)" by (simp add: none_def)
  ultimately have "key_used ol1 k" using assms(2) judge_all_used[of k ol1 eff hs "(ol_inert ol1, none)"] by (auto split: if_splits)
  then show ?thesis by (simp add: key_used_def ol1_def split: if_splits)
qed

lemma merge_used:
  assumes "reachable D ol" "inj (multihash_of_digest D)" "merge_entries D ol blocks = (ol', result)"
    "k \<in> set (ac_keys (mr_access result)) \<union> (\<Union>e \<in> set (mr_merged result). set (ve_state_keys e))"
  shows "key_used ol' k"
proof -
  obtain undecodable decoded where d: "decode_blocks D ol blocks = (undecodable, decoded)" by (meson surj_pair)
  obtain ol1 m refused where a: "admit_all (verify_entry D) ol (sort_by compare_merge decoded) = (ol1, m, refused)" by (meson prod_cases3)
  obtain ol2 access where r: "refresh_access_state ol1 m = (ol2, access)" by (meson surj_pair)
  have eq: "ol' = refresh_current_state ol2 (fold oset_add (concat (map ve_state_keys m)) (ac_keys access))" "mr_merged result = m" "mr_access result = access"
    using assms(3) by (auto simp: merge_entries_def insert_blocks_def d a r)
  have ok: "structure_ok D ol" using reachable_ok[OF assms(1,2)] by (simp add: oplog_ok_def)
  have ext: "extended D ol ol1 m" by (rule admit_all_extended[OF ok _ a]) (use decoded_hash_ok[of _ D ol blocks] d in simp)
  have "key_used ol1 k" using assms(4) extendedD(4)[OF ext] refresh_access_used[OF r] unfolding eq(2,3) by (auto simp: key_used_def)
  moreover have "entries_of ol' = entries_of ol1" using refresh_access_fields(1)[of ol1 m] r by (simp add: eq(1) refresh_current_fields)
  ultimately show ?thesis by (simp add: key_used_def)
qed

section \<open>Steps that move an oplog\<close>

lemma index_okD:
  assumes "index_ok D r"
  shows "a \<in> ix_open r \<Longrightarrow> reachable D (ix_logs r a)" "a \<in> ix_open r \<Longrightarrow> library_of (ix_logs r a) = a"
    "j \<in> set (ix_owed r) \<union> set (ix_queue r) \<Longrightarrow> job_ok r j" "ix_round r = Some wr \<Longrightarrow> round_run_ok D r wr" "unused_empty r a"
    "a \<in> ix_open r \<Longrightarrow> keyed_library (ix_logs r a) \<Longrightarrow> library_rows_ok D r a"
  using assms unfolding index_ok_def by simp_all

lemma index_okI:
  assumes "\<And>a. a \<in> ix_open r \<Longrightarrow> reachable D (ix_logs r a) \<and> library_of (ix_logs r a) = a" "\<And>j. j \<in> set (ix_owed r) \<union> set (ix_queue r) \<Longrightarrow> job_ok r j"
    "\<And>wr. ix_round r = Some wr \<Longrightarrow> round_run_ok D r wr" "\<And>a. unused_empty r a"
    "\<And>a. a \<in> ix_open r \<Longrightarrow> keyed_library (ix_logs r a) \<Longrightarrow> library_rows_ok D r a"
  shows "index_ok D r"
  using assms unfolding index_ok_def by blast

text \<open>The state after an oplog followed another, with the projection of the keys that moved owed.\<close>

definition moved :: "index_state \<Rightarrow> string \<Rightarrow> oplog \<Rightarrow> job list \<Rightarrow> index_state" where
  "moved r a ol js = r\<lparr>ix_logs := (ix_logs r)(a := ol), ix_owed := ix_owed r @ js\<rparr>"

lemma moved_fields [simp]:
  "ix_open (moved r a ol js) = ix_open r" "ix_logs (moved r a ol js) = (ix_logs r)(a := ol)" "ix_reader (moved r a ol js) = ix_reader r"
  "ix_db (moved r a ol js) = ix_db r" "ix_owed (moved r a ol js) = ix_owed r @ js" "ix_queue (moved r a ol js) = ix_queue r"
  "ix_round (moved r a ol js) = ix_round r"
  by (simp_all add: moved_def)

lemma outstanding_moved: "outstanding (moved r a ol js) b = outstanding r b \<union> (\<Union>j \<in> set js. job_keys j b)"
  by (auto simp: outstanding_def)

lemma keyed_grown: "grown D ol ol' ks \<Longrightarrow> keyed_library ol' = keyed_library ol"
  by (simp add: grown_def keyed_library_def)

lemma job_ok_moved: "grown D (ix_logs r a) ol ks \<Longrightarrow> job_ok r j \<Longrightarrow> job_ok (moved r a ol js) j"
  by (cases j) (auto simp: job_ok_def dest: key_used_grown)

lemma moved_rows:
  assumes ok: "index_ok D r" and inj: "inj (multihash_of_digest D)" "\<not> is_label_key (ABOUT_KEY D)" and a: "a \<in> ix_open r"
    and g: "grown D (ix_logs r a) ol ks" and js: "ks \<subseteq> (\<Union>j \<in> set js. job_keys j a)" and lib: "keyed_library (ix_logs r b)" "b \<in> ix_open r"
  shows "library_rows_ok D (moved r a ol js) b"
proof (cases "b = a")
  case False
  then show ?thesis using index_okD(6)[OF ok lib(2,1)] by (auto simp: library_rows_ok_def row_ok_def outstanding_moved)
next
  case True
  let ?r = "moved r a ol js" and ?ol = "ix_logs r a"
  have old: "library_rows_ok D r a" using index_okD(6)[OF ok lib(2,1)] True by simp
  have same: "omap_get (ol_current ol) k = omap_get (ol_current ?ol) k" "added_at_of ol k = added_at_of ?ol k" "ol_chain ol = ol_chain ?ol"
    "k \<notin> outstanding r a" if "k \<notin> outstanding ?r a" for k
    using that g js by (auto simp: grown_def outstanding_moved)
  have "row_ok D ?r a k" if "\<not> is_label_key k" "k \<notin> outstanding ?r a" for k
    using old that(1) same[OF that(2)] written_rows_cong[OF same(3,2)[OF that(2)] current_keyed[OF index_okD(1)[OF ok a] inj]]
    unfolding library_rows_ok_def row_ok_def by simp
  moreover have "tags_of (ix_db ?r) a k = written_tags (ix_logs ?r a) k" if "label_ok k" "k \<notin> outstanding ?r a" for k
    using old that(1) same[OF that(2)] written_tags_cong[OF same(3,1)[OF that(2)]] unfolding library_rows_ok_def by simp
  ultimately show ?thesis unfolding True library_rows_ok_def by simp
qed

lemma moved_ok:
  assumes ok: "index_ok D r" and inj: "inj (multihash_of_digest D)" "\<not> is_label_key (ABOUT_KEY D)" and a: "a \<in> ix_open r"
    and g: "grown D (ix_logs r a) ol ks" and js: "ks \<subseteq> (\<Union>j \<in> set js. job_keys j a)" "\<forall>j \<in> set js. job_ok (moved r a ol js) j"
  shows "index_ok D (moved r a ol js)"
proof -
  let ?r = "moved r a ol js"
  have "\<forall>b \<in> ix_open r. reachable D (ix_logs ?r b) \<and> library_of (ix_logs ?r b) = b"
    using index_okD(1,2)[OF ok] g by (auto simp: grown_def)
  moreover have "\<forall>j \<in> set (ix_owed ?r) \<union> set (ix_queue ?r). job_ok ?r j"
    using index_okD(3)[OF ok] job_ok_moved[OF g] js(2) by auto
  moreover have "\<forall>wr. ix_round ?r = Some wr \<longrightarrow> round_run_ok D ?r wr"
    using index_okD(4)[OF ok] keyed_grown[OF g] by (auto simp: round_run_ok_def)
  moreover have "unused_empty ?r b" for b
    using index_okD(5)[OF ok, of b] key_used_grown[OF g] by (auto simp: unused_empty_def)
  moreover have "\<forall>b \<in> ix_open r. keyed_library (ix_logs ?r b) \<longrightarrow> library_rows_ok D ?r b"
    using moved_rows[OF ok inj a g js(1)] keyed_grown[OF g] by auto
  ultimately show ?thesis by (simp add: index_ok_def)
qed

section \<open>Opening, queueing and storing\<close>

lemma opened_ok:
  assumes ok: "index_ok D r" and a: "a \<notin> ix_open r" "reachable D ol" "library_of ol = a"
  shows "index_ok D (r\<lparr>ix_open := insert a (ix_open r), ix_logs := (ix_logs r)(a := ol), ix_owed := ix_owed r @ [Project_library a]\<rparr>)" (is "index_ok D ?r")
proof -
  have jobs: "job_ok ?r j" if "job_ok r j" for j using that a(1) by (cases j) (auto simp: job_ok_def)
  have out: "outstanding ?r b = (if b = a then UNIV else outstanding r b)" for b by (auto simp: outstanding_def)
  have "\<forall>b \<in> ix_open ?r. reachable D (ix_logs ?r b) \<and> library_of (ix_logs ?r b) = b" using index_okD(1,2)[OF ok] a by auto
  moreover have "\<forall>j \<in> set (ix_owed ?r) \<union> set (ix_queue ?r). job_ok ?r j" using index_okD(3)[OF ok] jobs by (auto simp: job_ok_def)
  moreover have "\<forall>wr. ix_round ?r = Some wr \<longrightarrow> round_run_ok D ?r wr" using index_okD(4)[OF ok] a(1) by (auto simp: round_run_ok_def)
  moreover have "unused_empty ?r b" for b using index_okD(5)[OF ok, of b] a(1) by (auto simp: unused_empty_def)
  moreover have "library_rows_ok D ?r b" if "b \<in> ix_open ?r" "keyed_library (ix_logs ?r b)" for b
    using that index_okD(6)[OF ok, of b] by (cases "b = a") (auto simp: library_rows_ok_def row_ok_def out)
  ultimately show ?thesis by (simp add: index_ok_def)
qed

lemma enqueued_ok:
  assumes ok: "index_ok D r" and j: "j \<in> set (ix_owed r)"
  shows "index_ok D (r\<lparr>ix_owed := remove1 j (ix_owed r), ix_queue := ix_queue r @ [j]\<rparr>)" (is "index_ok D ?r")
proof -
  have jobs: "set (ix_owed ?r) \<union> set (ix_queue ?r) = set (ix_owed r) \<union> set (ix_queue r)"
    using j by (auto dest: set_remove1_subset[THEN subsetD])
  then have out: "outstanding ?r b = outstanding r b" for b unfolding outstanding_def by simp
  have "job_ok ?r i = job_ok r i" for i by (cases i) (auto simp: job_ok_def)
  with ok jobs show ?thesis
    by (simp add: index_ok_def round_run_ok_def unused_empty_def library_rows_ok_def row_ok_def out)
qed

lemma grown_refl: "reachable D ol \<Longrightarrow> grown D ol ol {}"
  by (simp add: grown_def)

lemma reindexed_ok:
  assumes ok: "index_ok D r" and inj: "inj (multihash_of_digest D)" "\<not> is_label_key (ABOUT_KEY D)"
    and a: "a \<in> ix_open r" "\<forall>e \<in> set entries. entries_of (ix_logs r a) (he_hash e) = Some e"
  shows "index_ok D (r\<lparr>ix_owed := ix_owed r @ [Project_keys a (concat (map ve_state_keys entries))]\<rparr>)"
proof -
  let ?js = "[Project_keys a (concat (map ve_state_keys entries))]"
  have "index_ok D (moved r a (ix_logs r a) ?js)"
    by (rule moved_ok[OF ok inj a(1) grown_refl[OF index_okD(1)[OF ok a(1)]]]) (use a in \<open>auto simp: job_ok_def key_used_def\<close>)
  then show ?thesis by (simp add: moved_def)
qed

lemma stored_ok:
  assumes ok: "index_ok D r" and reader: "ix_reader r \<subseteq>\<^sub>m reader"
  shows "index_ok D (r\<lparr>ix_reader := reader\<rparr>)" (is "index_ok D ?r")
proof -
  have later: "c = load_content D reader e" if "c = load_content D (ix_reader r) e" "\<not> awaits_content e c" for c e
    using that load_content_mono[OF reader] load_content_not_put by (cases c) fastforce+
  have "job_ok ?r i = job_ok r i" for i by (cases i) (auto simp: job_ok_def)
  moreover have "outstanding ?r b = outstanding r b" for b by (simp add: outstanding_def)
  moreover have "round_run_ok D ?r wr" if "round_run_ok D r wr" for wr
  proof -
    have "c = None \<or> c = load_content D reader e" if "c = None \<or> c = load_content D (ix_reader r) e" for c e
      using that load_content_mono[OF reader, of D e] by (metis option.exhaust)
    then show ?thesis using that unfolding round_run_ok_def by (simp add: case_prod_unfold)
  qed
  moreover have "row_ok D ?r a k" if "row_ok D r a k" for a k
  proof -
    let ?e = "omap_get (ol_current (ix_logs r a)) k"
    from that obtain c where c: "rows_of (ix_db r) a k = written_rows (ix_logs r a) k ?e c"
      "c = None \<and> k \<in> set (pending_of a (ix_db r)) \<or> c = load_content D (ix_reader r) ?e \<and> \<not> awaits_content ?e c"
      unfolding row_ok_def Let_def by blast
    have "c = None \<and> k \<in> set (pending_of a (ix_db r)) \<or> c = load_content D reader ?e \<and> \<not> awaits_content ?e c"
      by (rule disjE[OF c(2)]) (simp, metis later)
    with c(1) show ?thesis unfolding row_ok_def Let_def by auto
  qed
  ultimately show ?thesis using ok by (simp add: index_ok_def unused_empty_def library_rows_ok_def)
qed

lemma loaded_ok:
  assumes ok: "index_ok D r" and wr: "ix_round r = Some wr"
  shows "index_ok D (r\<lparr>ix_round := Some (load_item D (ix_reader r) k wr)\<rparr>)" (is "index_ok D ?r")
proof -
  let ?wr = "load_item D (ix_reader r) k wr"
  have ks: "map fst (wr_items ?wr) = map fst (wr_items wr)" by (auto simp: load_item_def)
  then have "fst ` set (wr_items ?wr) = fst ` set (wr_items wr)" by (metis set_map)
  then have out: "outstanding ?r b = outstanding r b" for b using wr by (simp add: outstanding_def round_keys_def load_item_def)
  have "job_ok ?r i = job_ok r i" for i by (cases i) (auto simp: job_ok_def)
  moreover have "round_run_ok D ?r ?wr"
  proof -
    have fields: "wr_library ?wr = wr_library wr" "wr_labels ?wr = wr_labels wr" by (simp_all add: load_item_def)
    then have "round_ok ?wr = round_ok wr" unfolding round_ok_def ks by simp
    moreover have "\<not> is_label_key k' \<and> (\<forall>c. content = Some c \<longrightarrow> c = None \<or> c = load_content D (ix_reader r) entry)"
      if "(k', entry, content) \<in> set (wr_items ?wr)" for k' entry content
      using index_okD(4)[OF ok wr] that unfolding round_run_ok_def by (auto simp: load_item_def split: if_splits)
    ultimately show ?thesis using index_okD(4)[OF ok wr] fields unfolding round_run_ok_def by auto
  qed
  ultimately show ?thesis using ok by (simp add: index_ok_def unused_empty_def library_rows_ok_def row_ok_def out)
qed

section \<open>Starting a job\<close>

lemma uncounted_image:
  assumes "\<And>r. uncounted (f r) = uncounted r"
  shows "uncounted ` {r \<in> f ` X. tr_library r = b \<and> tr_track_id r = k} = uncounted ` {r \<in> X. tr_library r = b \<and> tr_track_id r = k}"
proof -
  have "tr_library (f r) = tr_library r" "tr_track_id (f r) = tr_track_id r" for r
    using arg_cong[OF assms[of r], of tr_library] arg_cong[OF assms[of r], of tr_track_id] by simp_all
  then have "{r \<in> f ` X. tr_library r = b \<and> tr_track_id r = k} = f ` {r \<in> X. tr_library r = b \<and> tr_track_id r = k}" by auto
  then show ?thesis by (simp add: image_image assms)
qed

lemma rows_of_listen [simp]: "rows_of (write_listen a e db) b k = rows_of db b k" "tags_of (write_listen a e db) b k = tags_of db b k"
  "db_heads (write_listen a e db) = db_heads db"
proof -
  have "uncounted (if tr_track_id r = i then r\<lparr>tr_listen_count := tr_listen_count r + n\<rparr> else r) = uncounted r" for r i n
    by (simp add: uncounted_def)
  from uncounted_image[OF this] show "rows_of (write_listen a e db) b k = rows_of db b k"
    by (simp add: rows_of_def write_listen_def insert_listen_def listens_counted_def split: entry_payload.split)
qed (auto simp: write_listen_def insert_listen_def tags_of_def split: entry_payload.split)

lemma rows_of_listens [simp]: "rows_of (fold (write_listen a) es db) b k = rows_of db b k" "tags_of (fold (write_listen a) es db) b k = tags_of db b k"
  "db_heads (fold (write_listen a) es db) = db_heads db"
  by (induction es arbitrary: db) simp_all

text \<open>A job that only writes listens or a marker of a library without keyed rows.\<close>

lemma marked_ok:
  assumes ok: "index_ok D r" and q: "ix_round r = None" "ix_queue r = j # q" and a: "\<not> keyed_library (ix_logs r a)" "\<forall>b. b \<noteq> a \<longrightarrow> job_keys j b = {}"
    and db: "\<And>b k. rows_of db' b k = rows_of (ix_db r) b k" "\<And>b k. tags_of db' b k = tags_of (ix_db r) b k"
      "\<And>b. b \<noteq> a \<Longrightarrow> pending_of b db' = pending_of b (ix_db r)"
  shows "index_ok D (r\<lparr>ix_queue := q, ix_db := db', ix_round := None\<rparr>)" (is "index_ok D ?r")
proof -
  have jobs: "job_ok ?r i = job_ok r i" for i by (cases i) (auto simp: job_ok_def)
  have out: "outstanding ?r b = outstanding r b" if "b \<noteq> a" for b using that a(2) q by (auto simp: outstanding_def)
  have "library_rows_ok D ?r b" if "library_rows_ok D r b" "b \<noteq> a" for b
    using that by (simp add: library_rows_ok_def row_ok_def out db)
  then have "library_rows_ok D ?r b" if "b \<in> ix_open r" "keyed_library (ix_logs r b)" for b using index_okD(6)[OF ok that] a(1) that by metis
  moreover have "unused_empty ?r b" for b using index_okD(5)[OF ok, of b] by (simp add: unused_empty_def db)
  ultimately show ?thesis using index_okD(1-3)[OF ok] q(2) by (intro index_okI) (simp_all add: jobs)
qed

lemma key_entries_used:
  assumes "reachable D ol" "inj (multihash_of_digest D)"
  shows "k \<in> set (omap_keys (ol_key_entries ol)) \<longleftrightarrow> key_used ol k"
proof -
  have ok: "structure_ok D ol" using reachable_ok[OF assms] by (simp add: oplog_ok_def)
  have "key_used ol k \<longleftrightarrow> key_hashes (ol_key_entries ol) k \<noteq> []"
    using structure_okD(7)[OF ok, of k] by (auto simp: key_used_def simp flip: set_empty)
  moreover have "k \<in> set (omap_keys (ol_key_entries ol)) \<longleftrightarrow> key_hashes (ol_key_entries ol) k \<noteq> []"
    using reachable_rows_nonempty[OF assms(1)]
    by (force simp: key_hashes_def map_of_eq_None_iff image_iff split: option.split dest: map_of_SomeD)
  ultimately show ?thesis by blast
qed

lemma begin_keys_fields [simp]:
  "wr_library (begin_keys ol ks) = library_of ol" "round_keys (begin_keys ol ks) a = (if library_of ol = a then set ks else {})"
  by (auto simp: begin_keys_def begin_round_def round_keys_def image_image)

lemma begin_round_ok: "\<forall>k \<in> set ls. label_ok k \<Longrightarrow> distinct ks \<Longrightarrow> round_ok (begin_round ol ls ks)"
  by (simp add: begin_round_def round_ok_def comp_def)

lemma begun_ok:
  assumes ok: "index_ok D r" and inj: "inj (multihash_of_digest D)" and q: "ix_round r = None" "ix_queue r = j # q"
    and a: "a \<in> ix_open r" "keyed_library (ix_logs r a)" "\<forall>b. b \<noteq> a \<longrightarrow> job_keys j b = {}"
    and ks: "job_keys j a \<subseteq> set ks \<union> {k. \<not> key_used (ix_logs r a) k}" "\<forall>k \<in> set ks. is_label_key k \<longrightarrow> label_ok k"
  shows "index_ok D (r\<lparr>ix_queue := q, ix_round := Some (begin_keys (ix_logs r a) ks)\<rparr>)" (is "index_ok D ?r")
proof -
  have lib: "library_of (ix_logs r a) = a" "reachable D (ix_logs r a)" using index_okD(1,2)[OF ok a(1)] by simp_all
  have jobs: "job_ok ?r i = job_ok r i" for i by (cases i) (auto simp: job_ok_def)
  have out: "outstanding r b = outstanding ?r b" if "b \<noteq> a" for b using that a(3) q lib by (auto simp: outstanding_def)
  have out_a: "k \<in> outstanding ?r a \<or> \<not> key_used (ix_logs r a) k" if "k \<in> outstanding r a" for k
    using that ks(1) q lib by (auto simp: outstanding_def)
  have unused: "row_ok D ?r a k \<and> (label_ok k \<longrightarrow> tags_of (ix_db ?r) a k = written_tags (ix_logs ?r a) k)" if "\<not> key_used (ix_logs r a) k" for k
    using index_okD(5)[OF ok, of a] that written_unused[OF lib(2) inj that]
    by (auto simp: row_ok_def unused_empty_def Let_def awaits_content_def load_content_def)
  have "round_run_ok D ?r (begin_keys (ix_logs r a) ks)"
  proof -
    have "round_ok (begin_keys (ix_logs r a) ks)" unfolding begin_keys_def by (rule begin_round_ok) (use ks(2) in auto)
    then show ?thesis using a lib unfolding round_run_ok_def by (auto simp: begin_keys_def begin_round_def)
  qed
  moreover have "library_rows_ok D ?r b" if "library_rows_ok D r b" for b
  proof (cases "b = a")
    case True
    have same: "row_ok D r a k = row_ok D ?r a k" "tags_of (ix_db ?r) a k = tags_of (ix_db r) a k" "written_tags (ix_logs ?r a) k = written_tags (ix_logs r a) k" for k
      by (simp_all add: row_ok_def)
    have "k \<notin> outstanding r a \<or> \<not> key_used (ix_logs r a) k" if "k \<notin> outstanding ?r a" for k using out_a that by blast
    then show ?thesis using that unused unfolding True library_rows_ok_def same by blast
  next
    case False
    then show ?thesis using that out[OF False] by (simp add: library_rows_ok_def row_ok_def)
  qed
  moreover have "unused_empty ?r b" for b using index_okD(5)[OF ok, of b] by (simp add: unused_empty_def)
  ultimately show ?thesis using index_okD(1-3,6)[OF ok] q(2) by (intro index_okI) (simp_all add: jobs)
qed

lemma unkeyed: "\<not> keyed_library ol \<Longrightarrow> chain_type (ol_chain ol) = listens \<or> chain_type (ol_chain ol) = identity"
  by (cases "chain_type (ol_chain ol)") (simp_all add: keyed_library_def)

lemma started_ok:
  assumes ok: "index_ok D r" and inj: "inj (multihash_of_digest D)" "\<not> is_label_key (ABOUT_KEY D)"
    and q: "ix_round r = None" "ix_queue r = j # q" and s: "start_job (ix_logs r) j (ix_db r) = (db', wr)"
  shows "index_ok D (r\<lparr>ix_queue := q, ix_db := db', ix_round := wr\<rparr>)"
proof -
  have j: "job_ok r j" using index_okD(3)[OF ok] q(2) by simp
  have keyed: "index_ok D (r\<lparr>ix_queue := q, ix_db := ix_db r, ix_round := Some (begin_keys (ix_logs r a) ks)\<rparr>)"
    if a: "a \<in> ix_open r" "keyed_library (ix_logs r a)" "\<forall>b. b \<noteq> a \<longrightarrow> job_keys j b = {}"
      and ks: "job_keys j a \<subseteq> set ks \<union> {k. \<not> key_used (ix_logs r a) k}" "\<forall>k \<in> set ks. key_used (ix_logs r a) k" for a ks
    using begun_ok[OF ok inj(1) q a ks(1)] ks(2) used_label_ok[OF index_okD(1)[OF ok a(1)] inj] by simp
  have plain: "index_ok D (r\<lparr>ix_queue := q, ix_db := db', ix_round := None\<rparr>)"
    if "\<not> keyed_library (ix_logs r a)" "a \<in> ix_open r" "\<forall>b. b \<noteq> a \<longrightarrow> job_keys j b = {}"
      "db' = ix_db r \<or> (\<exists>es. db' = upsert_marker (ix_logs r a) [] (fold (write_listen a) es (ix_db r)))" for a
  proof (rule marked_ok[OF ok q that(1,3)])
    show "rows_of db' b k = rows_of (ix_db r) b k" "tags_of db' b k = tags_of (ix_db r) b k" for b k using that(4) by auto
    show "pending_of b db' = pending_of b (ix_db r)" if "b \<noteq> a" for b
      using \<open>db' = ix_db r \<or> _\<close> that index_okD(2)[OF ok \<open>a \<in> ix_open r\<close>] by (auto simp: pending_of_upsert) (simp_all add: pending_of_def)
  qed
  note defs = start_job_def start_entries_def start_keys_def start_library_def write_listens_def write_identity_def keyed_library_def
  show ?thesis
  proof (cases j)
    case (Project_entries a es ks)
    with j have a: "a \<in> ix_open r" "\<forall>k \<in> job_keys j a. key_used (ix_logs r a) k" by (simp_all add: job_ok_def)
    show ?thesis
    proof (cases "keyed_library (ix_logs r a)")
      case True
      then have "db' = ix_db r" "wr = Some (begin_keys (ix_logs r a) (fold oset_add (concat (map ve_state_keys es)) (oset_of ks)))"
        using s Project_entries by (auto simp: defs)
      then show ?thesis using keyed[OF a(1) True, of "fold oset_add (concat (map ve_state_keys es)) (oset_of ks)"] a(2) Project_entries
        by (simp add: set_fold_oset_add Un_commute)
    next
      case False
      then have "wr = None" "\<exists>es. db' = upsert_marker (ix_logs r a) [] (fold (write_listen a) es (ix_db r))"
        using s Project_entries index_okD(2)[OF ok a(1)] unkeyed[OF False] by (auto simp: defs split: if_splits intro: exI[of _ "[]"])
      then show ?thesis using plain[OF False a(1)] Project_entries by simp
    qed
  next
    case (Project_keys a ks)
    with j have a: "a \<in> ix_open r" "\<forall>k \<in> set ks. key_used (ix_logs r a) k" by (simp_all add: job_ok_def)
    show ?thesis
    proof (cases "keyed_library (ix_logs r a)")
      case True
      then have "db' = ix_db r" "wr = Some (begin_keys (ix_logs r a) ks)" using s Project_keys by (auto simp: defs)
      then show ?thesis using keyed[OF a(1) True, of ks] a(2) Project_keys by simp
    next
      case False
      then have "wr = None" "db' = ix_db r" using s Project_keys by (auto simp: defs split: if_splits)
      then show ?thesis using plain[OF False a(1)] Project_keys by simp
    qed
  next
    case (Project_library a)
    with j have a: "a \<in> ix_open r" by (simp add: job_ok_def)
    show ?thesis
    proof (cases "keyed_library (ix_logs r a)")
      case True
      then have "db' = ix_db r" "wr = Some (begin_keys (ix_logs r a) (omap_keys (ol_key_entries (ix_logs r a))))"
        using s Project_library by (auto simp: defs)
      then show ?thesis using keyed[OF a(1) True, of "omap_keys (ol_key_entries (ix_logs r a))"] key_entries_used[OF index_okD(1)[OF ok a] inj(1)] Project_library
        by auto
    next
      case False
      then have "wr = None" "\<exists>es. db' = upsert_marker (ix_logs r a) [] (fold (write_listen a) es (ix_db r))"
        using s Project_library index_okD(2)[OF ok a(1)] unkeyed[OF False] by (auto simp: defs split: if_splits intro: exI[of _ "[]"])
      then show ?thesis using plain[OF False a(1)] Project_library by simp
    qed
  next
    case (Remove_library a)
    with j show ?thesis by (simp add: job_ok_def)
  qed
qed

section \<open>Writing a round\<close>

lemma stable_current: "(k, entry, content) \<in> set (stable_items ol items) \<Longrightarrow> entry = omap_get (ol_current ol) k \<and> (k, entry, content) \<in> set items"
  by (auto simp: stable_items_def)

lemma loaded_content:
  assumes "round_run_ok D r wr" "(k, entry, content) \<in> set (loaded_items wr)"
  shows "\<not> is_label_key k" "content = None \<or> content = load_content D (ix_reader r) entry"
proof -
  from assms(2) obtain c where c: "(k, entry, c) \<in> set (wr_items wr)" "content = Option.bind c id" by (auto simp: loaded_items_def)
  with assms(1) have "\<not> is_label_key k \<and> (\<forall>x. c = Some x \<longrightarrow> x = None \<or> x = load_content D (ix_reader r) entry)"
    unfolding round_run_ok_def by auto
  then show "\<not> is_label_key k" "content = None \<or> content = load_content D (ix_reader r) entry" using c(2) by (cases c; simp)+
qed

text \<open>The stable items of a round hold current entries and content that was loaded for them.\<close>

definition items_ok :: "deps \<Rightarrow> index_state \<Rightarrow> string \<Rightarrow> loaded list \<Rightarrow> bool" where
  "items_ok D r a items \<longleftrightarrow> (\<forall>(k, entry, content) \<in> set items. \<not> is_label_key k \<and> entry = omap_get (ol_current (ix_logs r a)) k \<and>
     (content = None \<or> content = load_content D (ix_reader r) entry))"

lemma effect_row_ok:
  assumes "round_effect (ix_logs r a) ls items (ix_db r) db'" "library_of (ix_logs r a) = a" "items_ok D r a items" "k \<in> fst ` set items"
  shows "row_ok D (r\<lparr>ix_db := db', ix_round := wr\<rparr>) a k"
proof -
  from assms(4) obtain entry content where i: "(k, entry, content) \<in> set items" by force
  with assms(3) have e: "entry = omap_get (ol_current (ix_logs r a)) k" "content = None \<or> content = load_content D (ix_reader r) entry"
    unfolding items_ok_def by auto
  note d = round_effectD[OF assms(1), unfolded assms(2)]
  have "content = None \<and> k \<in> set (pending_of a db') \<or> content = load_content D (ix_reader r) entry \<and> \<not> awaits_content entry content"
  proof (cases "awaits_content entry content")
    case True
    then show ?thesis using d(5)[OF i] by (simp add: awaits_content_def)
  next
    case False
    then show ?thesis using e(2) load_content_not_put[of entry D "ix_reader r"] by auto
  qed
  then show ?thesis unfolding row_ok_def Let_def using d(3)[OF i] e(1) by auto
qed

lemma effect_unused:
  assumes ok: "index_ok D r" "inj (multihash_of_digest D)" "a \<in> ix_open r" and e: "round_effect (ix_logs r a) ls items (ix_db r) db'" "items_ok D r a items"
  shows "unused_empty (r\<lparr>ix_db := db', ix_round := wr\<rparr>) b"
proof (cases "b = a")
  case False
  note d = round_effectD[OF e(1), unfolded index_okD(2)[OF ok(1,3)]]
  show ?thesis using index_okD(5)[OF ok(1), of b] False by (simp add: unused_empty_def d(2,4))
next
  case True
  note d = round_effectD[OF e(1), unfolded index_okD(2)[OF ok(1,3)]]
  have "rows_of db' a k = no_rows \<and> (label_ok k \<longrightarrow> tags_of db' a k = {})" if u: "\<not> key_used (ix_logs r a) k" for k
  proof -
    have old: "rows_of (ix_db r) a k = no_rows" "label_ok k \<Longrightarrow> tags_of (ix_db r) a k = {}"
      using index_okD(5)[OF ok(1), of a] u by (auto simp: unused_empty_def)
    note none = written_unused[OF index_okD(1)[OF ok(1,3)] ok(2) u]
    have "rows_of db' a k = no_rows"
    proof (cases "k \<in> fst ` set items")
      case True
      then obtain entry content where i: "(k, entry, content) \<in> set items" by force
      with e(2) have "entry = omap_get (ol_current (ix_logs r a)) k" unfolding items_ok_def by auto
      then show ?thesis using d(3)[OF i] none(2) by simp
    qed (simp add: d(4) old)
    then show ?thesis using d(1)[of k] none(3) old(2) by simp
  qed
  then show ?thesis using True ok(3) by (simp add: unused_empty_def)
qed

lemma effect_rows:
  assumes ok: "index_ok D r" "a \<in> ix_open r" and e: "round_effect (ix_logs r a) ls items (ix_db r) db'" "items_ok D r a items" "\<forall>k \<in> set ls. label_ok k"
    and out: "\<And>b k. k \<in> outstanding r b \<Longrightarrow> k \<in> outstanding (r\<lparr>ix_db := db', ix_round := wr\<rparr>) b \<or> b = a \<and> (k \<in> set ls \<or> k \<in> fst ` set items)"
    and old: "library_rows_ok D r b"
  shows "library_rows_ok D (r\<lparr>ix_db := db', ix_round := wr\<rparr>) b" (is "library_rows_ok D ?r b")
proof -
  have lib: "library_of (ix_logs r a) = a" by (rule index_okD(2)[OF ok])
  note d = round_effectD[OF e(1), unfolded lib]
  have items: "\<not> label_ok k" if "k \<in> fst ` set items" for k using that e(2) label_ok_key unfolding items_ok_def by fastforce
  have "row_ok D ?r b k" if k: "\<not> is_label_key k" "k \<notin> outstanding ?r b" for k
  proof (cases "b = a \<and> k \<in> fst ` set items")
    case True
    then show ?thesis using effect_row_ok[OF e(1) lib e(2)] by simp
  next
    case False
    have "k \<notin> set ls" using k(1) e(3) label_ok_key by blast
    then have "row_ok D r b k" using out[of k b] k False old by (auto simp: library_rows_ok_def)
    moreover have "rows_of db' b k = rows_of (ix_db r) b k" "k \<in> set (pending_of b db') \<longleftrightarrow> k \<in> set (pending_of b (ix_db r))"
      using d(4,6)[of b k] False by blast+
    ultimately show ?thesis by (simp add: row_ok_def)
  qed
  moreover have "tags_of (ix_db ?r) b k = written_tags (ix_logs ?r b) k" if k: "label_ok k" "k \<notin> outstanding ?r b" for k
  proof (cases "b = a \<and> k \<in> set ls")
    case True
    then show ?thesis using d(1)[OF k(1)] by simp
  next
    case False
    then have "tags_of (ix_db r) b k = written_tags (ix_logs r b) k" using out[of k b] k old items[of k] by (auto simp: library_rows_ok_def)
    then show ?thesis using d(1)[OF k(1)] d(2)[of b k] False by (cases "b = a") auto
  qed
  ultimately show ?thesis by (simp add: library_rows_ok_def)
qed

lemma written_ok:
  assumes ok: "index_ok D r" and inj: "inj (multihash_of_digest D)" "\<not> is_label_key (ABOUT_KEY D)"
    and wr: "ix_round r = Some wr" and f: "finish_round (ix_logs r (wr_library wr)) wr (ix_db r) = (db', wr')"
  shows "index_ok D (r\<lparr>ix_db := db', ix_round := wr'\<rparr>)" (is "index_ok D ?r")
proof -
  note w = index_okD(4)[OF ok wr]
  define a where "a = wr_library wr"
  define ol where "ol = ix_logs r a"
  define items where "items = stable_items ol (loaded_items wr)"
  from w have a: "a \<in> ix_open r" "keyed_library ol" "round_ok wr" by (simp_all add: round_run_ok_def a_def ol_def)
  have lib: "library_of ol = a" "reachable D ol" using index_okD(1,2)[OF ok a(1)] by (simp_all add: ol_def)
  have stable: "items_ok D r a items"
    using stable_current[of _ _ _ ol "loaded_items wr"] loaded_content[OF w] unfolding items_ok_def items_def ol_def by blast
  then have "\<forall>(k, entry, content) \<in> set items. keyed_entry k entry"
    using current_keyed[OF lib(2) inj] unfolding items_ok_def ol_def by auto
  then obtain d where d: "finish_round ol wr (ix_db r) = (d, if retry_keys ol wr = [] then None else Some (begin_round ol [] (retry_keys ol wr)))"
    "round_effect ol (wr_labels wr) items (ix_db r) d"
    using finish_round_effect[OF a(3)] unfolding items_def by blast
  have eq: "d = db'" "wr' = (if retry_keys ol wr = [] then None else Some (begin_round ol [] (retry_keys ol wr)))"
    using f d by (simp_all add: ol_def a_def)
  note effect = d(2)[unfolded eq(1) ol_def]
  have retry: "set (retry_keys ol wr) = fst ` set (wr_items wr) - fst ` set items"
    unfolding items_def by (rule set_retry_keys) (use a(3) in \<open>simp add: round_ok_def\<close>)
  have next_keys: "(case wr' of None \<Rightarrow> {} | Some x \<Rightarrow> round_keys x b) = (if b = a then set (retry_keys ol wr) else {})" for b
    unfolding eq(2) using lib(1) by (auto simp: begin_round_def round_keys_def image_image)
  have out: "k \<in> outstanding ?r b \<or> b = a \<and> (k \<in> set (wr_labels wr) \<or> k \<in> fst ` set items)" if "k \<in> outstanding r b" for k b
    using that wr retry next_keys[of b] unfolding outstanding_def by (auto simp: round_keys_def a_def[symmetric] split: if_splits)
  have jobs: "job_ok ?r j = job_ok r j" for j by (cases j) (auto simp: job_ok_def)
  show ?thesis
  proof (rule index_okI)
    show "unused_empty ?r b" for b by (rule effect_unused[OF ok inj(1) a(1) effect stable])
    show "round_run_ok D ?r x" if "ix_round ?r = Some x" for x
    proof -
      have x: "x = begin_round ol [] (retry_keys ol wr)" using that eq(2) by (simp split: if_splits)
      have "\<not> is_label_key k" if "k \<in> set (retry_keys ol wr)" for k using that retry w unfolding round_run_ok_def by fastforce
      moreover have "round_ok x" unfolding x by (rule begin_round_ok) (simp_all add: retry_keys_def)
      ultimately show ?thesis using a lib(1) unfolding round_run_ok_def x by (auto simp: begin_round_def ol_def)
    qed
    show "library_rows_ok D ?r b" if "b \<in> ix_open ?r" "keyed_library (ix_logs ?r b)" for b
      by (rule effect_rows[OF ok a(1) effect stable _ out]) (use a(3) index_okD(6)[OF ok] that in \<open>simp_all add: round_ok_def\<close>)
  qed (use index_okD(1-3)[OF ok] jobs in auto)
qed

section \<open>Every run\<close>

lemma index_run_ok:
  assumes "index_run D r" "inj (multihash_of_digest D)" "\<not> is_label_key (ABOUT_KEY D)"
  shows "index_ok D r"
  using assms(1)
proof (induction rule: index_run.induct)
  case (fresh logs reader)
  show ?case by (rule index_okI) (simp_all add: unused_empty_def rows_of_def tags_of_def empty_index_def)
next
  case (opened r a ol)
  then show ?case by (intro opened_ok)
next
  case (appended r a payload kp ol' e access)
  note ok = index_okD(1)[OF appended.IH appended(2)]
  note a = append_ok[OF reachable_ok[OF ok assms(2)] assms(2) appended(3,4)]
  note g = append_grown[OF ok assms(2) appended(3,4)]
  have "key_used ol' k" if "k \<in> set (ac_keys access) \<union> set (ve_state_keys e)" for k
  proof (cases "k \<in> set (ve_state_keys e)")
    case True
    then show ?thesis using a(3) by (auto simp: key_used_def)
  next
    case False
    from append_Inr[OF appended(3)] obtain ol2 where "refresh_access_state (fst (insert_entry (ix_logs r a) e)) [e] = (ol2, access)" by blast
    with False that have "key_used (fst (insert_entry (ix_logs r a) e)) k" by (auto intro: refresh_access_used)
    then show ?thesis using a(3) insert_entry_fields(1)[OF appended(4)] by (simp add: key_used_def)
  qed
  then have "index_ok D (moved r a ol' [Project_entries a [e] (ac_keys access)])"
    by (intro moved_ok[OF appended.IH assms(2,3) appended(2) g]) (use appended(2) in \<open>auto simp: job_ok_def\<close>)
  then show ?case by (simp add: moved_def)
next
  case (merged r a blocks ol' result)
  note ok = index_okD(1)[OF merged.IH merged(2)]
  note g = merge_grown[OF ok assms(2) merged(3)]
  let ?js = "if mr_merged result = [] then [] else [Project_entries a (mr_merged result) (ac_keys (mr_access result))]"
  have "index_ok D (moved r a ol' ?js)"
    by (rule moved_ok[OF merged.IH assms(2,3) merged(2) g(1)]) (use g(2) merged(2) merge_used[OF ok assms(2) merged(3)] in \<open>auto simp: job_ok_def\<close>)
  then show ?case by (simp add: moved_def)
next
  case (reindexed r a entries)
  then show ?case by (intro reindexed_ok[OF _ assms(2,3)])
next
  case (enqueued r j)
  then show ?case by (intro enqueued_ok)
next
  case (started r j q db' wr)
  then show ?case by (intro started_ok[OF _ assms(2,3)])
next
  case (loaded r wr k)
  then show ?case by (intro loaded_ok)
next
  case (written r wr db' wr')
  then show ?case by (intro written_ok[OF _ assms(2,3)])
next
  case (stored r reader)
  then show ?case by (intro stored_ok)
qed

end
