(* ===== verification/Index_Properties.thy ===== *)
theory Index_Properties
  imports Index_Run
begin

text \<open>
  A settled run of the projector leaves what a rebuild would write (\<open>src/query-db/rebuild.ts\<close>), and a marker may
  name heads whose rows are not written yet.
\<close>

section \<open>Rebuilding\<close>

text \<open>\<open>project_library\<close> run to its end over content at hand and an oplog that does not move.\<close>

definition project_library :: "deps \<Rightarrow> content_reader \<Rightarrow> oplog \<Rightarrow> index_db \<Rightarrow> index_db" where
  "project_library D reader ol db = (case start_library ol db of
     (db1, None) \<Rightarrow> db1
   | (db1, Some wr) \<Rightarrow> fst (finish_round ol (fold (load_item D reader) (map fst (wr_items wr)) wr) db1))"

definition rebuild_query_db ::
  "deps \<Rightarrow> content_reader \<Rightarrow> (resolved_chain \<times> bytes list) list \<Rightarrow> index_db \<times> oplog list \<times> (string \<times> protocol_error) list" where
  "rebuild_query_db D reader libraries = fold (\<lambda>(chain, blocks) (db, oplogs, rejected).
     let (ol, result) = merge_entries D (create_oplog chain) blocks
     in (project_library D reader ol db, oplogs @ [ol], rejected @ mr_rejected result)) libraries (empty_index, [], [])"

section \<open>No stray rows\<close>






lemma db_tags_listens [simp]: "db_tags (fold (write_listen a) es db) = db_tags db"
  by (induction es arbitrary: db) (simp_all add: write_listen_def insert_listen_def split: entry_payload.split)



section \<open>All rows of a library\<close>



section \<open>What a rebuild writes\<close>





section \<open>Properties\<close>






section \<open>A marker ahead of its rows\<close>

text \<open>\<open>touch_marker\<close> names the heads of the oplog as it is when a round is written. A merge during the round has moved
  them on, and its own projection is still to come: a crash in between leaves a marker that claims the heads of
  an entry without a row, so the next open skips the replay.\<close>

lemma sample_log_heads: "set (ol_heads sample_log) = {he_hash sample_hashed}"
  using reachable_ok[OF sample_reachable(2) sample_inj] by (auto simp: oplog_ok_def structure_ok_def sample_log_entries(1))

lemma marker_claims_unwritten:
  "\<exists>r. index_run sample_log_deps r \<and> ix_logs r (library_of sample_log) = sample_log \<and> set (ol_heads sample_log) = {he_hash sample_hashed} \<and>
     (\<exists>pending. projection_state (library_of sample_log) (ix_db r) = Some \<lparr>mk_heads = heads_of sample_log, mk_pending = pending\<rparr>) \<and>
     db_entries (ix_db r) = []"
proof -
  let ?ol = "create_oplog sample_log_chain" and ?a = "library_of sample_log"
  have a: "library_of ?ol = ?a" by (simp add: create_oplog_def sample_log_entries(2))
  let ?st = "\<lambda>owed queue round. \<lparr>ix_open = {?a}, ix_logs = (\<lambda>_. ?ol), ix_reader = Map.empty, ix_db = empty_index,
      ix_owed = owed, ix_queue = queue, ix_round = round\<rparr>"
  let ?job = "Project_library ?a" and ?wr = "begin_keys ?ol []"
  have "index_run sample_log_deps (?st [?job] [] None)"
    using index_run.opened[OF index_run.fresh[of sample_log_deps "\<lambda>_. ?ol" Map.empty] _ sample_reachable(1) a] by (simp add: fun_upd_def)
  from index_run.enqueued[OF this, of ?job] have "index_run sample_log_deps (?st [] [?job] None)" by simp
  moreover have "start_job (\<lambda>_. ?ol) ?job empty_index = (empty_index, Some ?wr)"
    by (simp add: start_job_def start_library_def create_oplog_def sample_log_chain_def)
  ultimately have begun: "index_run sample_log_deps (?st [] [] (Some ?wr))" by (auto dest: index_run.started)
  obtain result where "merge_entries sample_log_deps ?ol [he_bytes sample_hashed] = (sample_log, result)"
    unfolding sample_log_def by (metis prod.collapse)
  from index_run.merged[OF begun, of ?a, simplified, OF this] obtain owed
    where m: "index_run sample_log_deps (?st owed [] (Some ?wr) \<lparr>ix_logs := (\<lambda>_. ?ol)(?a := sample_log)\<rparr>)" by auto
  obtain db wr' where f: "finish_round sample_log ?wr empty_index = (db, wr')" by fastforce
  have wr: "wr_library ?wr = ?a" "all_loaded ?wr" using a by (simp_all add: begin_keys_def begin_round_def all_loaded_def oset_of_def)
  from index_run.written[OF m, of ?wr db wr'] wr f
  have r: "index_run sample_log_deps (?st owed [] wr' \<lparr>ix_logs := (\<lambda>_. ?ol)(?a := sample_log), ix_db := db\<rparr>)" (is "index_run _ ?r") by simp
  have "\<exists>pending. projection_state ?a db = Some \<lparr>mk_heads = heads_of sample_log, mk_pending = pending\<rparr>" "db_entries db = []"
    using f by (auto simp: finish_round_def round_transaction_def begin_keys_def begin_round_def stable_items_def loaded_items_def
        touch_marker_def upsert_marker_def projection_state_def empty_index_def omap_get_set oset_of_def)
  with r sample_log_heads show ?thesis by (intro exI[of _ ?r]) simp
qed

end
