(* ===== verification/Index_Counts.thy ===== *)
theory Index_Counts
  imports Query_Index
begin

text \<open>
  The counts of the query index: the triggers of \<open>src/query-db/schema.ts\<close> keep the totals of a library and the
  listens of a track exact under every write of the projector, the sum of audio sizes as long as the sizes a
  library holds and is about to hold stay below \<open>2 ^ 63\<close>.
\<close>

section \<open>Counts\<close>

definition total_of :: "(string, totals) omap \<Rightarrow> string \<Rightarrow> totals" where
  "total_of m a = (case omap_get m a of None \<Rightarrow> \<lparr>to_track_count = 0, to_audio_size_bytes = 0, to_put_count = 0\<rparr> | Some t \<Rightarrow> t)"

definition audio_bytes :: "track_row \<Rightarrow> rat" where
  "audio_bytes r = (case tr_audio_size_bytes r of None \<Rightarrow> 0 | Some n \<Rightarrow> n)"

definition summed :: "index_db \<Rightarrow> string \<Rightarrow> totals" where
  "summed db a = (let rows = List.filter (\<lambda>r. tr_library r = a) (db_tracks db)
     in \<lparr>to_track_count = int (length rows), to_audio_size_bytes = sum_list (map audio_bytes rows),
         to_put_count = int (length (List.filter (\<lambda>r. en_library r = a \<and> en_op r = PUT) (db_entries db)))\<rparr>)"

definition listens_of :: "index_db \<Rightarrow> string \<Rightarrow> int" where
  "listens_of db k = int (length (List.filter (\<lambda>l. ls_track_id l = k) (db_listens db)))"

text \<open>The sizes of a library's rows, and those of the contents a round is about to write.\<close>

definition audio_sum :: "index_db \<Rightarrow> string \<Rightarrow> rat" where
  "audio_sum db a = sum_list (map audio_bytes (List.filter (\<lambda>r. tr_library r = a) (db_tracks db)))"

definition content_bytes :: "jsval option \<Rightarrow> rat" where
  "content_bytes content = (case content of None \<Rightarrow> 0 | Some c \<Rightarrow> (case numeric_of (get ''size'' c) of None \<Rightarrow> 0 | Some n \<Rightarrow> n))"

definition whole_content :: "jsval option \<Rightarrow> bool" where
  "whole_content content \<longleftrightarrow> 0 \<le> content_bytes content \<and> content_bytes content \<in> \<int>"

abbreviation items_bytes :: "loaded list \<Rightarrow> rat" where
  "items_bytes items \<equiv> sum_list (map (\<lambda>(k, entry, content). content_bytes content) items)"

text \<open>The databases the projector can leave behind: whatever jobs are started and whatever rounds are written, over
  whatever oplogs. The contents of a round were read by \<open>load_content\<close>, and their sizes and those of the library's
  rows together stay below \<open>2 ^ 63\<close>.\<close>

definition round_loaded :: "deps \<Rightarrow> write_round \<Rightarrow> bool" where
  "round_loaded D wr \<longleftrightarrow> (\<forall>(k, entry, content) \<in> set (loaded_items wr). content = None \<or> (\<exists>read. content = load_content D read entry))"

inductive projected :: "deps \<Rightarrow> index_db \<Rightarrow> bool" for D where
  projected_empty: "projected D empty_index"
| projected_job: "projected D db \<Longrightarrow> start_job logs j db = (db', wr) \<Longrightarrow> projected D db'"
| projected_round: "projected D db \<Longrightarrow> round_loaded D wr \<Longrightarrow>
    audio_sum db (chain_address (ol_chain ol)) + items_bytes (loaded_items wr) < 2 ^ 63 \<Longrightarrow>
    finish_round ol wr db = (db', wr') \<Longrightarrow> projected D db'"

definition sizes_ok :: "index_db \<Rightarrow> bool" where
  "sizes_ok db \<longleftrightarrow> (\<forall>r \<in> set (db_tracks db). 0 \<le> audio_bytes r \<and> audio_bytes r \<in> \<int>) \<and> (\<forall>a. audio_sum db a < 2 ^ 63)"

definition counts_ok :: "index_db \<Rightarrow> bool" where
  "counts_ok db \<longleftrightarrow> sizes_ok db \<and> (\<forall>a. total_of (db_totals db) a = summed db a) \<and>
     (\<forall>r \<in> set (db_tracks db). tr_listen_count r = listens_of db (tr_track_id r))"

lemma total_of_counted: "total_of (counted_totals b tracks bytes puts m) a = (if a = b then
    \<lparr>to_track_count = to_track_count (total_of m a) + tracks, to_audio_size_bytes = sqlite_add (to_audio_size_bytes (total_of m a)) bytes,
     to_put_count = to_put_count (total_of m a) + puts\<rparr> else total_of m a)"
  by (simp add: total_of_def counted_totals_def Let_def omap_get_set)

text \<open>Within the range the sum is exact.\<close>

lemma int64_iff: "int64 x \<longleftrightarrow> x \<in> \<int> \<and> - (2 ^ 63) \<le> x \<and> x < 2 ^ 63"
  by (auto simp: int64_def Ints_def)

lemma sqlite_add_exact:
  assumes "x \<in> \<int>" "y \<in> \<int>" "0 \<le> x" "x < 2 ^ 63" "0 \<le> x + y" "x + y < 2 ^ 63"
  shows "sqlite_add x y = x + y"
proof -
  have "- (2 ^ 63) \<le> y" "y < 2 ^ 63" using assms(3-6) by linarith+
  then have "int64 x" "int64 y" "int64 (x + y)" using assms by (simp_all add: int64_iff)
  then show ?thesis by (simp add: sqlite_add_def)
qed

lemma sum_whole:
  "\<forall>r \<in> set rows. 0 \<le> audio_bytes r \<and> audio_bytes r \<in> \<int> \<Longrightarrow>
     0 \<le> sum_list (map audio_bytes rows) \<and> sum_list (map audio_bytes rows) \<in> \<int>"
  by (induction rows) auto

lemma totals_eqI:
  fixes x y :: totals
  shows "to_track_count x = to_track_count y \<Longrightarrow> to_audio_size_bytes x = to_audio_size_bytes y \<Longrightarrow> to_put_count x = to_put_count y \<Longrightarrow> x = y"
  by simp

lemma total_of_tracks:
  "to_track_count (total_of (fold (counted_track (-1)) rows m) a) = to_track_count (total_of m a) - int (length (List.filter (\<lambda>r. tr_library r = a) rows))"
  "to_put_count (total_of (fold (counted_track (-1)) rows m) a) = to_put_count (total_of m a)"
  by (induction rows arbitrary: m) (simp_all add: counted_track_def total_of_counted audio_bytes_def)

lemma total_of_sizes:
  assumes "\<forall>r \<in> set rows. 0 \<le> audio_bytes r \<and> audio_bytes r \<in> \<int>" "to_audio_size_bytes (total_of m a) \<in> \<int>"
    and "to_audio_size_bytes (total_of m a) < 2 ^ 63" "sum_list (map audio_bytes (List.filter (\<lambda>r. tr_library r = a) rows)) \<le> to_audio_size_bytes (total_of m a)"
  shows "to_audio_size_bytes (total_of (fold (counted_track (-1)) rows m) a) =
     to_audio_size_bytes (total_of m a) - sum_list (map audio_bytes (List.filter (\<lambda>r. tr_library r = a) rows))"
  using assms
proof (induction rows arbitrary: m)
  case (Cons r rows)
  let ?t = "to_audio_size_bytes (total_of m a)" and ?m = "counted_track (-1) r m"
  have rest: "0 \<le> sum_list (map audio_bytes (List.filter (\<lambda>r. tr_library r = a) rows))"
    using sum_whole[of "List.filter (\<lambda>r. tr_library r = a) rows"] Cons.prems(1) by simp
  have r: "0 \<le> audio_bytes r" "audio_bytes r \<in> \<int>" using Cons.prems(1) by simp_all
  have step: "to_audio_size_bytes (total_of ?m a) = ?t - (if tr_library r = a then audio_bytes r else 0)"
  proof (cases "tr_library r = a")
    case True
    then have "sqlite_add ?t (- audio_bytes r) = ?t - audio_bytes r"
      using Cons.prems r rest by (subst sqlite_add_exact) auto
    with True show ?thesis by (simp add: counted_track_def total_of_counted audio_bytes_def)
  qed (simp add: counted_track_def total_of_counted)
  have "to_audio_size_bytes (total_of (fold (counted_track (-1)) rows ?m) a) =
      to_audio_size_bytes (total_of ?m a) - sum_list (map audio_bytes (List.filter (\<lambda>r. tr_library r = a) rows))"
    using Cons.prems r rest step by (intro Cons.IH) (auto split: if_splits)
  then show ?case using step by simp
qed simp

lemma total_of_entries:
  "to_track_count (total_of (fold (counted_entry (-1)) rows m) a) = to_track_count (total_of m a)"
  "to_put_count (total_of (fold (counted_entry (-1)) rows m) a) =
     to_put_count (total_of m a) - int (length (List.filter (\<lambda>r. en_library r = a \<and> en_op r = PUT) rows))"
  by (induction rows arbitrary: m) (simp_all add: counted_entry_def total_of_counted)

text \<open>A trigger on entries adds zero to the sizes.\<close>

lemma total_of_entry_sizes:
  assumes "to_audio_size_bytes (total_of m a) \<in> \<int>" "0 \<le> to_audio_size_bytes (total_of m a)" "to_audio_size_bytes (total_of m a) < 2 ^ 63"
  shows "to_audio_size_bytes (total_of (counted_entry sign r m) a) = to_audio_size_bytes (total_of m a)"
    "to_audio_size_bytes (total_of (fold (counted_entry sign) rows m) a) = to_audio_size_bytes (total_of m a)"
proof -
  have one: "to_audio_size_bytes (total_of (counted_entry sign r m) a) = to_audio_size_bytes (total_of m a)"
    if "to_audio_size_bytes (total_of m a) \<in> \<int>" "0 \<le> to_audio_size_bytes (total_of m a)" "to_audio_size_bytes (total_of m a) < 2 ^ 63" for r m
    using that sqlite_add_exact[of "to_audio_size_bytes (total_of m a)" 0] by (auto simp: counted_entry_def total_of_counted)
  then show "to_audio_size_bytes (total_of (counted_entry sign r m) a) = to_audio_size_bytes (total_of m a)" using assms by blast
  show "to_audio_size_bytes (total_of (fold (counted_entry sign) rows m) a) = to_audio_size_bytes (total_of m a)"
    using assms by (induction rows arbitrary: m) (simp_all add: one)
qed

lemma length_filter_split: "length (List.filter Q xs) = length (List.filter Q (List.filter P xs)) + length (List.filter Q (List.filter (\<lambda>x. \<not> P x) xs))"
  by (induction xs) auto

lemma sum_filter_split:
  fixes f :: "'a \<Rightarrow> rat"
  shows "sum_list (map f (List.filter Q xs)) = sum_list (map f (List.filter Q (List.filter P xs))) + sum_list (map f (List.filter Q (List.filter (\<lambda>x. \<not> P x) xs)))"
  by (induction xs) auto

text \<open>What the totals of a library say of its sizes.\<close>

lemma counts_sizes:
  assumes "counts_ok db"
  shows "to_audio_size_bytes (total_of (db_totals db) a) = audio_sum db a" "audio_sum db a \<in> \<int>" "0 \<le> audio_sum db a" "audio_sum db a < 2 ^ 63"
proof -
  have "total_of (db_totals db) a = summed db a" using assms by (simp add: counts_ok_def)
  then show "to_audio_size_bytes (total_of (db_totals db) a) = audio_sum db a" by (simp add: summed_def audio_sum_def Let_def)
  show "audio_sum db a \<in> \<int>" "0 \<le> audio_sum db a" "audio_sum db a < 2 ^ 63"
    using assms sum_whole[of "List.filter (\<lambda>r. tr_library r = a) (db_tracks db)"] by (simp_all add: counts_ok_def sizes_ok_def audio_sum_def)
qed

lemma counts_cong:
  "db_tracks db' = db_tracks db \<Longrightarrow> db_entries db' = db_entries db \<Longrightarrow> db_listens db' = db_listens db \<Longrightarrow> db_totals db' = db_totals db \<Longrightarrow>
   counts_ok db' = counts_ok db \<and> audio_sum db' a = audio_sum db a"
  by (simp add: counts_ok_def sizes_ok_def audio_sum_def summed_def listens_of_def)

lemma delete_tracks_counts:
  assumes ok: "counts_ok db"
  shows "counts_ok (delete_tracks P db)" "audio_sum (delete_tracks P db) a \<le> audio_sum db a"
proof -
  let ?gone = "List.filter P (db_tracks db)"
  have whole: "\<forall>r \<in> set (db_tracks db). 0 \<le> audio_bytes r \<and> audio_bytes r \<in> \<int>" using ok by (simp add: counts_ok_def sizes_ok_def)
  have split: "audio_sum db a = sum_list (map audio_bytes (List.filter (\<lambda>r. tr_library r = a) ?gone)) + audio_sum (delete_tracks P db) a" for a
    using sum_filter_split[of audio_bytes "\<lambda>r. tr_library r = a" "db_tracks db" P] by (simp add: audio_sum_def delete_tracks_def)
  have gone: "0 \<le> sum_list (map audio_bytes (List.filter (\<lambda>r. tr_library r = a) ?gone))" for a
    using sum_whole[of "List.filter (\<lambda>r. tr_library r = a) ?gone"] whole by simp
  then show less: "audio_sum (delete_tracks P db) a \<le> audio_sum db a" for a using split[of a] by (metis add_increasing order_refl)
  have left: "0 \<le> audio_sum (delete_tracks P db) a" for a
    using sum_whole[of "List.filter (\<lambda>r. tr_library r = a) (List.filter (\<lambda>r. \<not> P r) (db_tracks db))"] whole by (simp add: audio_sum_def delete_tracks_def)
  have "total_of (db_totals (delete_tracks P db)) a = summed (delete_tracks P db) a" for a
  proof (rule totals_eqI)
    have t: "total_of (db_totals db) a = summed db a" using ok by (simp add: counts_ok_def)
    then show "to_track_count (total_of (db_totals (delete_tracks P db)) a) = to_track_count (summed (delete_tracks P db) a)"
      using length_filter_split[of "\<lambda>r. tr_library r = a" "db_tracks db" P] by (simp add: delete_tracks_def total_of_tracks summed_def Let_def)
    show "to_put_count (total_of (db_totals (delete_tracks P db)) a) = to_put_count (summed (delete_tracks P db) a)"
      using t by (simp add: delete_tracks_def total_of_tracks summed_def Let_def)
    have "to_audio_size_bytes (total_of (fold (counted_track (-1)) ?gone (db_totals db)) a) =
        audio_sum db a - sum_list (map audio_bytes (List.filter (\<lambda>r. tr_library r = a) ?gone))"
      using whole counts_sizes[OF ok, of a] split[of a] left[of a] by (subst total_of_sizes) auto
    then show "to_audio_size_bytes (total_of (db_totals (delete_tracks P db)) a) = to_audio_size_bytes (summed (delete_tracks P db) a)"
      using split[of a] by (simp add: delete_tracks_def summed_def audio_sum_def Let_def)
  qed
  moreover have "set (db_tracks (delete_tracks P db)) \<subseteq> set (db_tracks db)" by (auto simp: delete_tracks_def)
  then have "sizes_ok (delete_tracks P db)"
    using ok less whole unfolding counts_ok_def sizes_ok_def by (meson le_less_trans subsetD)
  ultimately show "counts_ok (delete_tracks P db)" using ok by (simp add: counts_ok_def delete_tracks_def listens_of_def)
qed

lemma delete_entries_counts:
  assumes ok: "counts_ok db"
  shows "counts_ok (delete_entries P db)" "audio_sum (delete_entries P db) a = audio_sum db a"
proof -
  show sum: "audio_sum (delete_entries P db) a = audio_sum db a" for a by (simp add: audio_sum_def delete_entries_def)
  have "total_of (db_totals (delete_entries P db)) a = summed (delete_entries P db) a" for a
  proof -
    have "total_of (db_totals db) a = summed db a" using ok by (simp add: counts_ok_def)
    then show ?thesis
      using length_filter_split[of "\<lambda>r. en_library r = a \<and> en_op r = PUT" "db_entries db" P] counts_sizes[OF ok, of a]
      by (intro totals_eqI) (simp_all add: delete_entries_def total_of_entries total_of_entry_sizes summed_def Let_def)
  qed
  then show "counts_ok (delete_entries P db)" using ok by (simp add: counts_ok_def sizes_ok_def sum) (simp add: delete_entries_def listens_of_def)
qed

lemma insert_entry_counts:
  assumes ok: "counts_ok db" and ins: "insert_entry_row r db = Some db'"
  shows "counts_ok db'" "audio_sum db' a = audio_sum db a"
proof -
  have db': "db' = db\<lparr>db_entries := db_entries db @ [r], db_totals := counted_entry 1 r (db_totals db)\<rparr>"
    using ins by (auto simp: insert_entry_row_def insert_new_def split: if_splits)
  show sum: "audio_sum db' a = audio_sum db a" for a by (simp add: audio_sum_def db')
  have "total_of (db_totals db') a = summed db' a" for a
  proof -
    have "total_of (db_totals db) a = summed db a" using ok by (simp add: counts_ok_def)
    moreover have "to_audio_size_bytes (total_of (db_totals db') a) = to_audio_size_bytes (total_of (db_totals db) a)"
      using counts_sizes[OF ok, of a] total_of_entry_sizes(1)[of "db_totals db" a 1 r] by (simp add: db')
    ultimately show ?thesis by (intro totals_eqI) (auto simp: db' counted_entry_def total_of_counted summed_def Let_def)
  qed
  then show "counts_ok db'" using ok by (simp add: counts_ok_def sizes_ok_def sum) (simp add: db' listens_of_def)
qed

lemma insert_track_counts:
  assumes ok: "counts_ok db" and ins: "insert_track_row r db = Some db'"
    and size: "0 \<le> audio_bytes r" "audio_bytes r \<in> \<int>" "audio_sum db (tr_library r) + audio_bytes r < 2 ^ 63"
  shows "counts_ok db'" "audio_sum db' a = audio_sum db a + (if a = tr_library r then audio_bytes r else 0)"
proof -
  let ?r = "r\<lparr>tr_listen_count := listens_of db (tr_track_id r)\<rparr>"
  have db': "db' = db\<lparr>db_tracks := db_tracks db @ [?r], db_totals := counted_track 1 ?r (db_totals db)\<rparr>"
    using ins by (auto simp: insert_track_row_def insert_new_def listens_of_def Let_def split: if_splits)
  have bytes: "audio_bytes ?r = audio_bytes r" by (simp add: audio_bytes_def)
  show sum: "audio_sum db' a = audio_sum db a + (if a = tr_library r then audio_bytes r else 0)" for a
    by (simp add: audio_sum_def db' bytes)
  have "total_of (db_totals db') a = summed db' a" for a
  proof (rule totals_eqI)
    have t: "total_of (db_totals db) a = summed db a" using ok by (simp add: counts_ok_def)
    then show "to_track_count (total_of (db_totals db') a) = to_track_count (summed db' a)"
      "to_put_count (total_of (db_totals db') a) = to_put_count (summed db' a)"
      by (auto simp: db' counted_track_def total_of_counted summed_def Let_def)
    have "sqlite_add (audio_sum db (tr_library r)) (audio_bytes r) = audio_sum db (tr_library r) + audio_bytes r"
      using counts_sizes[OF ok, of "tr_library r"] size by (intro sqlite_add_exact) auto
    then have "to_audio_size_bytes (total_of (db_totals db') a) = audio_sum db' a"
      unfolding sum using counts_sizes(1)[OF ok] by (simp add: db' counted_track_def total_of_counted audio_bytes_def)
    then show "to_audio_size_bytes (total_of (db_totals db') a) = to_audio_size_bytes (summed db' a)" by (simp add: summed_def audio_sum_def Let_def)
  qed
  moreover have "\<forall>r \<in> set (db_tracks db'). 0 \<le> audio_bytes r \<and> audio_bytes r \<in> \<int>"
    using ok size(1,2) unfolding counts_ok_def sizes_ok_def db' by (simp add: bytes)
  then have "sizes_ok db'" using ok size(3) by (simp add: counts_ok_def sizes_ok_def sum)
  ultimately show "counts_ok db'" using ok by (auto simp: counts_ok_def) (auto simp: db' listens_of_def)
qed

lemma listens_counted_fold:
  "fold (listens_counted s) ls rows = map (\<lambda>r. r\<lparr>tr_listen_count := tr_listen_count r + s * int (length (List.filter (\<lambda>l. ls_track_id l = tr_track_id r) ls))\<rparr>) rows"
  by (induction ls arbitrary: rows) (auto simp: listens_counted_def comp_def algebra_simps)

lemma recounted:
  assumes "\<And>r. tr_library (f r) = tr_library r" "\<And>r. tr_audio_size_bytes (f r) = tr_audio_size_bytes r"
  shows "summed (db\<lparr>db_listens := ls, db_tracks := map f (db_tracks db)\<rparr>) a = summed db a"
    "sizes_ok (db\<lparr>db_listens := ls, db_tracks := map f (db_tracks db)\<rparr>) = sizes_ok db"
  by (simp_all add: summed_def sizes_ok_def audio_sum_def Let_def filter_map comp_def assms audio_bytes_def[abs_def])

lemma insert_listen_counts:
  assumes ok: "counts_ok db"
  shows "counts_ok (insert_listen r db)"
proof -
  let ?f = "\<lambda>x. if tr_track_id x = ls_track_id r then x\<lparr>tr_listen_count := tr_listen_count x + 1\<rparr> else x"
  have "counts_ok (db\<lparr>db_listens := db_listens db @ [r], db_tracks := map ?f (db_tracks db)\<rparr>)"
    using ok recounted[where f = ?f and ls = "db_listens db @ [r]"] by (auto simp: counts_ok_def listens_of_def)
  then show ?thesis using ok by (simp add: insert_listen_def listens_counted_def)
qed

lemma delete_listens_counts:
  assumes ok: "counts_ok db"
  shows "counts_ok (delete_listens P db)"
proof -
  let ?f = "\<lambda>r. r\<lparr>tr_listen_count := tr_listen_count r + (-1) * int (length (List.filter (\<lambda>l. ls_track_id l = tr_track_id r) (List.filter P (db_listens db))))\<rparr>"
  let ?db = "db\<lparr>db_listens := List.filter (\<lambda>r. \<not> P r) (db_listens db), db_tracks := map ?f (db_tracks db)\<rparr>"
  have "listens_of db k - int (length (List.filter (\<lambda>l. ls_track_id l = k) (List.filter P (db_listens db)))) = listens_of ?db k" for k
    using length_filter_split[of "\<lambda>l. ls_track_id l = k" "db_listens db" P] by (simp add: listens_of_def)
  then have "\<forall>r \<in> set (db_tracks ?db). tr_listen_count r = listens_of ?db (tr_track_id r)" using ok by (auto simp: counts_ok_def)
  then have "counts_ok ?db"
    using ok recounted[where f = ?f and ls = "List.filter (\<lambda>r. \<not> P r) (db_listens db)"] by (simp add: counts_ok_def)
  then show ?thesis by (simp add: delete_listens_def listens_counted_fold)
qed

lemma write_all_counts:
  assumes "\<And>x db db'. f x db = Some db' \<Longrightarrow> counts_ok db \<Longrightarrow> counts_ok db' \<and> (\<forall>a. audio_sum db' a = audio_sum db a)"
    and "write_all f xs db = Some db'" "counts_ok db"
  shows "counts_ok db' \<and> (\<forall>a. audio_sum db' a = audio_sum db a)"
  using assms(2,3)
proof (induction xs arbitrary: db)
  case (Cons x xs)
  then obtain db1 where x: "f x db = Some db1" "write_all f xs db1 = Some db'" by (auto simp: bind_eq_Some_conv)
  with assms(1)[OF x(1)] Cons.prems Cons.IH[OF x(2)] show ?case by simp
qed simp

lemma clear_key_counts:
  assumes "counts_ok db"
  shows "counts_ok (clear_key b k db)" "audio_sum (clear_key b k db) a \<le> audio_sum db a"
  using delete_tracks_counts[OF assms] by (simp_all add: clear_key_def Let_def counts_ok_def sizes_ok_def audio_sum_def summed_def listens_of_def)

lemma track_bytes: "audio_bytes (track_of b e envelope content added) = content_bytes content" "tr_library (track_of b e envelope content added) = b"
proof -
  have "numeric_of (get ''size'' (JObj [])) = None" by (simp add: numeric_of_def is_number_def)
  then show "audio_bytes (track_of b e envelope content added) = content_bytes content" "tr_library (track_of b e envelope content added) = b"
    by (simp_all add: audio_bytes_def track_of_def content_bytes_def Let_def split: option.split)
qed

lemma write_put_counts:
  assumes "counts_ok db" "write_put ol e envelope content db = Some db'"
    and "whole_content content" "audio_sum db (chain_address (ol_chain ol)) + content_bytes content < 2 ^ 63"
  shows "counts_ok db' \<and> audio_sum db' (chain_address (ol_chain ol)) \<le> audio_sum db (chain_address (ol_chain ol)) + content_bytes content"
proof -
  let ?row = "track_of (chain_address (ol_chain ol)) e envelope content (added_at_of ol (env_id envelope))"
  from assms(2) obtain db1 where z: "insert_track_row ?row db = Some db1" and db': "counts_ok db' = counts_ok db1" "audio_sum db' = audio_sum db1"
    by (auto simp: write_put_def write_track_def counts_ok_def sizes_ok_def audio_sum_def[abs_def] summed_def listens_of_def)
  with insert_track_counts[OF assms(1) z] assms(3,4) show ?thesis
    by (simp add: track_bytes whole_content_def)
qed

lemma write_key_counts:
  assumes "write_key ol k entry content db = Some db'" "counts_ok db"
    and size: "whole_content content" "audio_sum db (chain_address (ol_chain ol)) + content_bytes content < 2 ^ 63"
  shows "counts_ok db' \<and> audio_sum db' (chain_address (ol_chain ol)) \<le> audio_sum db (chain_address (ol_chain ol)) + content_bytes content"
proof -
  let ?a = "chain_address (ol_chain ol)"
  define db1 where "db1 = delete_entries (\<lambda>r. en_library r = ?a \<and> en_key r = k) (clear_key ?a k db)"
  have ok: "counts_ok db1" and sum: "audio_sum db1 ?a \<le> audio_sum db ?a"
    using clear_key_counts[OF assms(2)] unfolding db1_def by (simp_all add: delete_entries_counts)
  have grow: "counts_ok x \<and> audio_sum x ?a \<le> audio_sum db1 ?a + content_bytes content \<Longrightarrow>
      counts_ok x \<and> audio_sum x ?a \<le> audio_sum db ?a + content_bytes content" for x using sum by linarith
  have base: "audio_sum db1 ?a \<le> audio_sum db1 ?a + content_bytes content" using size(1) by (simp add: whole_content_def)
  have about: "counts_ok y = counts_ok x \<and> audio_sum y ?a = audio_sum x ?a" if "insert_about_row r x = Some y" for r x y
    using that counts_cong[of y x ?a] by (auto simp: insert_about_row_def)
  have entry: "counts_ok y \<and> audio_sum y ?a = audio_sum db1 ?a" if "insert_entry_row r db1 = Some y" for r y
    using insert_entry_counts[OF ok that] by simp
  have put: "counts_ok y \<and> audio_sum y ?a \<le> audio_sum db1 ?a + content_bytes content"
    if "insert_entry_row r db1 = Some x" "write_put ol e envelope content x = Some y" for r x e envelope y
    using write_put_counts[OF _ that(2) size(1)] entry[OF that(1)] size(2) sum by auto
  note w = assms(1)[unfolded write_key_def Let_def, folded db1_def]
  show ?thesis
  proof (rule grow, cases entry)
    case None
    with w ok base show "counts_ok db' \<and> audio_sum db' ?a \<le> audio_sum db1 ?a + content_bytes content" by simp
  next
    case (Some e)
    note w' = w[unfolded Some option.case]
    show "counts_ok db' \<and> audio_sum db' ?a \<le> audio_sum db1 ?a + content_bytes content"
    proof (cases "ve_operation e")
      case (PutOperation key envelope c)
      from w'[unfolded this entry_payload.case bind_eq_Some_conv] show ?thesis using put by blast
    next
      case (AboutPut key r c)
      from w'[unfolded this entry_payload.case bind_eq_Some_conv] show ?thesis using entry about base by metis
    next
      case (DelOperation key t c)
      from w'[unfolded this entry_payload.case] entry base show ?thesis by metis
    qed (use w' ok base in simp_all)
  qed
qed

lemma write_items_counts:
  assumes "write_all (\<lambda>(k, entry, content). write_key ol k entry content) items db = Some db'" "counts_ok db"
    and "\<forall>(k, entry, content) \<in> set items. whole_content content" "audio_sum db (chain_address (ol_chain ol)) + items_bytes items < 2 ^ 63"
  shows "counts_ok db'"
  using assms
proof (induction items arbitrary: db)
  case (Cons x items)
  obtain k entry content where x: "x = (k, entry, content)" by (cases x)
  from Cons.prems(1) x obtain db1 where s: "write_key ol k entry content db = Some db1"
    "write_all (\<lambda>(k, entry, content). write_key ol k entry content) items db1 = Some db'" by (auto simp: bind_eq_Some_conv)
  have rest: "0 \<le> items_bytes items" using Cons.prems(3) by (intro sum_list_nonneg) (auto simp: whole_content_def)
  have "counts_ok db1 \<and> audio_sum db1 (chain_address (ol_chain ol)) \<le> audio_sum db (chain_address (ol_chain ol)) + content_bytes content"
    by (rule write_key_counts[OF s(1) Cons.prems(2)]) (use Cons.prems(3,4) x rest in auto)
  then show ?case using Cons.prems(3,4) x by (intro Cons.IH[OF s(2)]) auto
qed simp

lemma write_label_counts: "write_label ol k db = Some db' \<Longrightarrow> counts_ok db \<Longrightarrow> counts_ok db' \<and> (\<forall>a. audio_sum db' a = audio_sum db a)"
  by (auto simp: write_label_def insert_label_def counts_ok_def sizes_ok_def audio_sum_def summed_def listens_of_def Let_def
      split: option.splits entry_payload.splits if_splits prod.splits)

lemma upsert_marker_counts [simp]: "counts_ok (upsert_marker ol ks db) = counts_ok db"
  by (simp add: upsert_marker_def counts_ok_def sizes_ok_def audio_sum_def summed_def listens_of_def)

text \<open>A content that was read has passed \<open>validate_track_content\<close>, so its size is an unsigned integer.\<close>

lemma load_content_whole: "whole_content (load_content D read entry)"
proof -
  have "is_uint (get ''size'' v)" if "and_then (decode_payload D bs) (validate_track_content D) = Inr v" for bs v
    using that by (auto simp: result_simps validate_track_content_def split: if_splits option.splits)
  moreover have "whole_content (Some v)" if "is_uint (get ''size'' v)" for v
    using that by (auto simp: whole_content_def content_bytes_def numeric_of_def is_uint_iff number_value_def)
  moreover have "whole_content None" by (simp add: whole_content_def content_bytes_def)
  ultimately show ?thesis by (auto simp: load_content_def split: option.split entry_payload.split sum.split)
qed

lemma finish_round_counts:
  assumes "finish_round ol wr db = (db', wr')" "counts_ok db" "round_loaded D wr"
    and size: "audio_sum db (chain_address (ol_chain ol)) + items_bytes (loaded_items wr) < 2 ^ 63"
  shows "counts_ok db'"
proof (cases "round_transaction ol wr db")
  case None
  with assms show ?thesis by (simp add: finish_round_def)
next
  case (Some x)
  let ?items = "stable_items ol (loaded_items wr)"
  from Some obtain d1 d2 where d: "write_all (write_label ol) (wr_labels wr) db = Some d1"
    "write_all (\<lambda>(k, entry, content). write_key ol k entry content) ?items d1 = Some d2"
    "x = touch_marker ol ?items d2" by (auto simp: round_transaction_def bind_eq_Some_conv)
  have "whole_content None" by (simp add: whole_content_def content_bytes_def)
  then have whole: "\<forall>(k, entry, content) \<in> set (loaded_items wr). whole_content content"
    using assms(3) load_content_whole unfolding round_loaded_def by fastforce
  have "items_bytes (List.filter P items) \<le> items_bytes items" if "\<forall>(k, entry, content) \<in> set items. whole_content content" for P items
    using that by (induction items) (auto simp: whole_content_def)
  then have less: "items_bytes ?items \<le> items_bytes (loaded_items wr)" using whole unfolding stable_items_def by blast
  have d1: "counts_ok d1" "audio_sum d1 (chain_address (ol_chain ol)) = audio_sum db (chain_address (ol_chain ol))"
    using write_all_counts[OF write_label_counts d(1) assms(2)] by auto
  have "counts_ok d2"
    by (rule write_items_counts[OF d(2) d1(1)]) (use whole size less d1(2) in \<open>auto simp: stable_items_def\<close>)
  then have "counts_ok x" by (simp add: d(3) touch_marker_def)
  then show ?thesis using assms(1) Some by (simp add: finish_round_def)
qed

lemma write_listens_counts: "counts_ok db \<Longrightarrow> counts_ok (fold (write_listen a) es db)"
  by (induction es arbitrary: db) (simp_all add: write_listen_def insert_listen_counts split: entry_payload.split)

lemma remove_library_counts:
  assumes ok: "counts_ok db"
  shows "counts_ok (remove_library a db)"
proof -
  define d where "d = delete_listens (\<lambda>r. ls_library r = a) (delete_entries (\<lambda>r. en_library r = a) ((delete_tracks (\<lambda>r. tr_library r = a) db)
     \<lparr>db_resolvers := List.filter (\<lambda>r. rr_library r \<noteq> a) (db_resolvers db), db_about := List.filter (\<lambda>r. ab_library r \<noteq> a) (db_about db),
      db_tags := List.filter (\<lambda>r. tg_library r \<noteq> a) (db_tags db)\<rparr>))"
  have "counts_ok d" unfolding d_def
    by (intro delete_listens_counts delete_entries_counts(1))
      (use delete_tracks_counts(1)[OF ok] in \<open>simp add: counts_ok_def sizes_ok_def audio_sum_def summed_def listens_of_def\<close>)
  moreover have "summed d a = \<lparr>to_track_count = 0, to_audio_size_bytes = 0, to_put_count = 0\<rparr>"
    by (simp add: d_def summed_def delete_listens_def listens_counted_fold filter_map comp_def delete_entries_def delete_tracks_def Let_def)
  moreover have "remove_library a db = d\<lparr>db_totals := omap_delete a (db_totals d), db_heads := omap_delete a (db_heads d)\<rparr>"
    by (simp add: remove_library_def d_def delete_tracks_def Let_def)
  ultimately show ?thesis by (auto simp: counts_ok_def sizes_ok_def audio_sum_def summed_def listens_of_def total_of_def omap_get_delete)
qed

lemma start_job_counts: "start_job logs j db = (db', wr) \<Longrightarrow> counts_ok db \<Longrightarrow> counts_ok db'"
  by (auto simp: start_job_def start_entries_def start_keys_def start_library_def write_listens_def write_identity_def
      write_listens_counts remove_library_counts split: job.splits if_splits)

section \<open>Beyond the range\<close>

text \<open>1024 tracks of the largest size a content can declare still sum to an integer of the range; one more makes the
  total a double, off by 1023, and taking the track away again leaves it off by 1024.\<close>

lemma nearest_double_between:
  assumes "2 ^ (52 + k) \<le> n" "n < 2 ^ (53 + k)"
  shows "nearest_double (of_nat n) = of_int (round_even (of_nat n / 2 ^ k)) * 2 ^ k"
proof -
  have pos: "0 < n" using assms(1) by (metis gr0I not_le zero_less_numeral zero_less_power)
  have "floorlog 2 n \<le> 53 + k" using assms(2) by (intro floorlog_leI) simp_all
  moreover have "53 + k \<le> floorlog 2 n" using assms(1) by (intro floorlog_geI) simp_all
  ultimately have "floorlog 2 (n * 2 ^ 1074) = 53 + k + 1074" using pos floorlog_power[of n 2 1074] by simp
  moreover have "(of_nat n :: rat) * 2 ^ 1074 = of_nat (n * 2 ^ 1074)" by simp
  then have "nat \<lfloor>(of_nat n :: rat) * 2 ^ 1074\<rfloor> = n * 2 ^ 1074" by (metis floor_of_nat nat_int)
  moreover have "(of_nat n :: rat) * 2 ^ 1074 / 2 ^ (k + 1074) = of_nat n / 2 ^ k" by (simp only: power_add) (simp del: power_numeral)
  ultimately show ?thesis using pos
    by (simp add: nearest_double_def Let_def power_add del: power_numeral of_nat_mult) 
qed

lemma overflowing_total:
  "sqlite_add (1024 * (2 ^ 53 - 1)) (2 ^ 53 - 1) = 1025 * (2 ^ 53 - 1) - 1023"
  "sqlite_add (1025 * (2 ^ 53 - 1) - 1023) (- (2 ^ 53 - 1)) = 1024 * (2 ^ 53 - 1) - 1024"
proof -
  have "nearest_double (of_nat 9232379236109515775) = of_int (round_even (of_nat 9232379236109515775 / 2 ^ 11)) * 2 ^ 11"
    by (rule nearest_double_between) simp_all
  moreover have "\<lfloor>9232379236109515775 / 2048 :: rat\<rfloor> = 4507997673881599" by (simp add: floor_eq_iff)
  ultimately show "sqlite_add (1024 * (2 ^ 53 - 1)) (2 ^ 53 - 1) = 1025 * (2 ^ 53 - 1) - 1023"
    by (simp add: sqlite_add_def int64_def round_even_def Let_def)
  have "nearest_double (of_nat 9223372036854773761) = of_int (round_even (of_nat 9223372036854773761 / 2 ^ 10)) * 2 ^ 10"
    by (rule nearest_double_between) simp_all
  moreover have "\<lfloor>9223372036854773761 / 1024 :: rat\<rfloor> = 9007199254740990" by (simp add: floor_eq_iff)
  ultimately show "sqlite_add (1025 * (2 ^ 53 - 1) - 1023) (- (2 ^ 53 - 1)) = 1024 * (2 ^ 53 - 1) - 1024"
    by (simp add: sqlite_add_def int64_def round_even_def Let_def)
qed

section \<open>A library with a track and a listen\<close>

definition counted_content :: jsval where
  "counted_content = JObj [(''hash'', JStr ''a''), (''size'', JInt 5), (''tags'', JObj [(''acoustid_fingerprint'', JStr ''f'')]),
     (''audio'', JObj []), (''artwork'', JArr []), (''resolver'', JArr [])]"

definition counted_deps :: deps where
  "counted_deps = sample_deps [counted_content]"

definition counted_put :: verified_entry where
  "counted_put = as_verified sample_hashed (PutOperation ''k'' \<lparr>env_id = ''k'', env_timestamp = 3, env_content = ''c''\<rparr> None)"

definition counted_listen :: verified_entry where
  "counted_listen = as_verified sample_hashed (ListenPayload \<lparr>li_track_id = ''k'', li_address = ''m'', li_timestamp = 4\<rparr>)"

definition counted_log :: oplog where
  "counted_log = (create_oplog sample_log_chain)\<lparr>ol_current := [(''k'', counted_put)]\<rparr>"

definition listened_log :: oplog where
  "listened_log = create_oplog (sample_log_chain\<lparr>chain_address := ''l'', chain_type := listens\<rparr>)"

definition counted_round :: write_round where
  "counted_round = load_item counted_deps (\<lambda>_. Some (sample_encode counted_content)) ''k'' (begin_keys counted_log [''k''])"

definition listened_index :: index_db where
  "listened_index = fst (start_job (\<lambda>_. listened_log) (Project_entries ''l'' [counted_listen] []) empty_index)"

definition counted_index :: index_db where
  "counted_index = fst (finish_round counted_log counted_round listened_index)"

lemma counted_content_loaded: "load_content counted_deps (\<lambda>_. Some (sample_encode counted_content)) (Some counted_put) = Some counted_content"
proof -
  have "decode_canonical counted_deps (sample_encode counted_content) = Inr (counted_content, sample_encode counted_content)"
    by (simp add: decode_canonical_def encode_canonical_def counted_deps_def) (simp add: sample_deps_def)
  moreover have "assert_payload_size (sample_encode counted_content) = Inr ()"
    by (simp add: assert_payload_size_def assert_max_def counted_content_def utf8ToBytes_def PAYLOAD_MAX_BYTES_def)
  moreover have "validate_track_content counted_deps counted_content = Inr counted_content"
    by (simp add: validate_track_content_def counted_content_def is_cid_string_def counted_deps_def sample_deps_def
      is_uint_iff MAX_SAFE_INTEGER_def validate_resolver_entries_def and_then_def)
  ultimately show ?thesis by (simp add: load_content_def counted_put_def decode_payload_def and_then_def)
qed


lemma counted_round_items: "counted_round = \<lparr>wr_library = chain_address sample_log_chain, wr_labels = [], wr_items = [(''k'', Some counted_put, Some (Some counted_content))]\<rparr>"
proof -
  have "begin_keys counted_log [''k''] = \<lparr>wr_library = chain_address sample_log_chain, wr_labels = [], wr_items = [(''k'', Some counted_put, None)]\<rparr>"
    by (simp add: begin_keys_def begin_round_def counted_log_def is_label_key_def strip_prefix_def LABEL_KEY_PREFIX_def create_oplog_def oset_of_def oset_add_def)
  then show ?thesis by (simp add: counted_round_def load_item_def counted_content_loaded)
qed

lemma listened_index_tables: "db_tracks listened_index = []" "db_entries listened_index = []" "db_totals listened_index = []"
   "listens_of listened_index ''k'' = 1" "db_about listened_index = []" "db_resolvers listened_index = []"
  by (simp_all add: listened_index_def start_job_def start_entries_def listened_log_def create_oplog_def write_listens_def counted_listen_def
    write_listen_def as_verified_def insert_listen_def empty_index_def upsert_marker_def listens_counted_def listens_of_def hashed_entry.defs verified_entry.defs)

lemma counted_index_tables:
  "map (\<lambda>r. (tr_library r, tr_track_id r, tr_audio_size_bytes r, tr_listen_count r)) (db_tracks counted_index) =
     [(''/record/z/about'', ''k'', Some 5, 1)]"
  "map (\<lambda>r. (en_library r, en_op r)) (db_entries counted_index) = [(''/record/z/about'', PUT)]"
proof -
  have "int (length (List.filter (\<lambda>l. ls_track_id l = ''k'') (db_listens listened_index))) = 1"
    using listened_index_tables(4) by (simp add: listens_of_def)
  then show "map (\<lambda>r. (tr_library r, tr_track_id r, tr_audio_size_bytes r, tr_listen_count r)) (db_tracks counted_index) =
     [(''/record/z/about'', ''k'', Some 5, 1)]"
    "map (\<lambda>r. (en_library r, en_op r)) (db_entries counted_index) = [(''/record/z/about'', PUT)]"
    by (simp_all add: counted_index_def finish_round_def round_transaction_def counted_round_items loaded_items_def stable_items_def counted_log_def create_oplog_def
   write_key_def counted_put_def as_verified_def clear_key_def delete_entries_def delete_tracks_def listened_index_tables verified_entry.defs
   hashed_entry.defs track_of_def numeric_of_def is_number_def number_value_def counted_content_def sample_log_chain_def
   insert_entry_row_def insert_new_def write_put_def write_track_def insert_track_row_def Let_def touch_marker_def upsert_marker_def)
qed

lemma counted_index_projected: "projected counted_deps counted_index"
proof -
  have l: "projected counted_deps listened_index"
    unfolding listened_index_def by (rule projected_job[OF projected_empty]) (rule prod.collapse[symmetric])
  have "round_loaded counted_deps counted_round"
    using counted_content_loaded[symmetric] by (auto simp: round_loaded_def counted_round_items loaded_items_def)
  moreover have "audio_sum listened_index (chain_address (ol_chain counted_log)) + items_bytes (loaded_items counted_round) < 2 ^ 63"
    by (simp add: audio_sum_def listened_index_tables counted_round_items loaded_items_def content_bytes_def numeric_of_def is_number_def
      number_value_def counted_content_def)
  ultimately show ?thesis unfolding counted_index_def
    by (rule projected_round[OF l]) (rule prod.collapse[symmetric])
qed

section \<open>Properties\<close>

text \<open>C33: Whatever jobs the projector starts and rounds it writes, removals, failed and rolled-back transactions included, the
  totals row of a library is the number of its tracks, the sum of their audio sizes and the number of its PUT
  entries, and the listen count of a track is the number of listens of its id; provided that, when a round is written,
  the sizes its contents declare and those of the library's rows add up to less than \<open>2 ^ 63\<close>, where
  SQLite's integers end (\<open>overflowing_total\<close> shows what happens there).\<close>

theorem index_counts_exact:
  assumes "projected D db"
  shows "total_of (db_totals db) a = summed db a \<and> (\<forall>r \<in> set (db_tracks db). tr_listen_count r = listens_of db (tr_track_id r))"
proof -
  have "counts_ok db" using assms
  proof induction
    case projected_empty
    show ?case by (simp add: counts_ok_def sizes_ok_def audio_sum_def total_of_def summed_def empty_index_def)
  qed (auto intro: start_job_counts finish_round_counts)
  then show ?thesis by (simp add: counts_ok_def)
qed

theorem index_counts_exact_witness:
  "map tr_listen_count (db_tracks counted_index) = [1] \<and>
   total_of (db_totals counted_index) ''/record/z/about'' = \<lparr>to_track_count = 1, to_audio_size_bytes = 5, to_put_count = 1\<rparr> \<and>
   map (\<lambda>r. listens_of counted_index (tr_track_id r)) (db_tracks counted_index) = [1]"
proof -
  note t = counted_index_tables
  have "summed counted_index ''/record/z/about'' = \<lparr>to_track_count = 1, to_audio_size_bytes = 5, to_put_count = 1\<rparr>"
    using t by (auto simp: summed_def audio_bytes_def map_eq_Cons_conv)
  with index_counts_exact[OF counted_index_projected, of "''/record/z/about''"] t show ?thesis by (auto simp: map_eq_Cons_conv)
qed

end
