(* ===== verification/Entry_Cache.thy ===== *)
theory Entry_Cache
  imports Oplog_Properties
begin

text \<open>
  The entry block cache (\<open>src/query-db/entry-blocks.ts\<close>) and how an open reads a library's oplog back
  (\<open>src/peer/load.ts\<close>, \<open>load_oplog\<close> of \<open>src/peer/library.ts\<close>). A cache last written at the persisted heads is
  restored without verifying its entries again; the properties are that no unverified entry ever comes in that way,
  that the shortcut changes nothing, and that an open recovers the oplog from the stored blocks whatever the cache holds.
\<close>

section \<open>The cache\<close>

record block_row =
  br_library :: string
  br_hash :: string
  br_bytes :: bytes

text \<open>The rows in rowid order, and per library the heads and rules version of its last write.\<close>

record entry_cache =
  ec_blocks :: "block_row list"
  ec_verified :: "(string, string list \<times> nat) omap"

definition VERIFICATION_RULES_VERSION :: nat where "VERIFICATION_RULES_VERSION = 2"

definition empty_cache :: entry_cache where
  "empty_cache = \<lparr>ec_blocks = [], ec_verified = []\<rparr>"

definition insert_block :: "string \<Rightarrow> string \<times> bytes \<Rightarrow> entry_cache \<Rightarrow> entry_cache" where
  "insert_block library row c = (case row of (h, bs) \<Rightarrow>
     if (library, h) \<in> set (map (\<lambda>r. (br_library r, br_hash r)) (ec_blocks c)) then c
     else c\<lparr>ec_blocks := ec_blocks c @ [\<lparr>br_library = library, br_hash = h, br_bytes = bs\<rparr>]\<rparr>)"

definition insert_all :: "string \<Rightarrow> (string \<times> bytes) list \<Rightarrow> entry_cache \<Rightarrow> entry_cache" where
  "insert_all library entries c = fold (insert_block library) entries c"

definition remove_blocks :: "string \<Rightarrow> entry_cache \<Rightarrow> entry_cache" where
  "remove_blocks library c = c\<lparr>ec_blocks := List.filter (\<lambda>r. br_library r \<noteq> library) (ec_blocks c)\<rparr>"

definition record_verified :: "string \<Rightarrow> string list \<Rightarrow> entry_cache \<Rightarrow> entry_cache" where
  "record_verified library heads c =
     c\<lparr>ec_verified := omap_set library (sort_by compare_strings heads, VERIFICATION_RULES_VERSION) (ec_verified c)\<rparr>"

definition cache_load :: "string \<Rightarrow> entry_cache \<Rightarrow> bytes list \<times> string list option" where
  "cache_load library c =
     (map br_bytes (List.filter (\<lambda>r. br_library r = library) (ec_blocks c)),
      case omap_get (ec_verified c) library of
        None \<Rightarrow> None
      | Some (heads, version) \<Rightarrow> if version = VERIFICATION_RULES_VERSION then Some heads else None)"

definition cache_save :: "string \<Rightarrow> (string \<times> bytes) list \<Rightarrow> string list \<Rightarrow> entry_cache \<Rightarrow> entry_cache" where
  "cache_save library entries heads c = record_verified library heads (insert_all library entries c)"

definition cache_replace :: "string \<Rightarrow> (string \<times> bytes) list \<Rightarrow> string list \<Rightarrow> entry_cache \<Rightarrow> entry_cache" where
  "cache_replace library entries heads c = record_verified library heads (insert_all library entries (remove_blocks library c))"

definition mark_verified :: "string \<Rightarrow> string list \<Rightarrow> entry_cache \<Rightarrow> entry_cache" where
  "mark_verified library heads c = record_verified library heads c"

definition cache_remove :: "string \<Rightarrow> entry_cache \<Rightarrow> entry_cache" where
  "cache_remove library c = (remove_blocks library c)\<lparr>ec_verified := omap_delete library (ec_verified c)\<rparr>"

section \<open>Reading an oplog back\<close>

text \<open>The blocks the content store returns; a block it lacks or refuses to return is skipped.\<close>

type_synonym block_reader = "(string, bytes) omap"

definition entry_links :: "deps \<Rightarrow> bytes \<Rightarrow> string list" where
  "entry_links D bs = (case decode_signed_entry D bs of Inl _ \<Rightarrow> [] | Inr hashed \<Rightarrow> e_next (he_entry hashed) @ e_refs (he_entry hashed))"

function load_walk :: "deps \<Rightarrow> block_reader \<Rightarrow> string oset \<Rightarrow> string list \<Rightarrow> bytes list" where
  "load_walk D store seen [] = []"
| "load_walk D store seen (h # queue) =
     (if h \<in> set seen then load_walk D store seen queue
      else case omap_get store h of
        None \<Rightarrow> load_walk D store (oset_add h seen) queue
      | Some bs \<Rightarrow> bs # load_walk D store (oset_add h seen) (queue @ entry_links D bs))"
  by pat_completeness auto
termination
proof (relation "inv_image (less_than <*lex*> less_than) (\<lambda>(D, store, seen, queue). (card (dom (map_of store) - set seen), length queue))", goal_cases)
  case (3 D store seen h queue)
  then have "dom (map_of store) - set (oset_add h seen) = dom (map_of store) - set seen" by auto
  then show ?case by simp
next
  case (4 D store seen h queue bs)
  then have "dom (map_of store) - set (oset_add h seen) \<subset> dom (map_of store) - set seen" by auto
  then have "card (dom (map_of store) - set (oset_add h seen)) < card (dom (map_of store) - set seen)"
    by (intro psubset_card_mono) (simp add: finite_dom_map_of)
  then show ?case by simp
qed auto

definition load_entry_blocks :: "deps \<Rightarrow> string list \<Rightarrow> block_reader \<Rightarrow> bytes list" where
  "load_entry_blocks D heads store = load_walk D store [] heads"

definition same_heads :: "string list \<Rightarrow> string list \<Rightarrow> bool" where
  "same_heads a b = (sort_by compare_strings a = sort_by compare_strings b)"

definition load_oplog :: "deps \<Rightarrow> resolved_chain \<Rightarrow> string list \<Rightarrow> block_reader \<Rightarrow> entry_cache \<Rightarrow> oplog \<times> merge_result \<times> entry_cache" where
  "load_oplog D chain heads store cache =
     (let library = chain_address chain;
          (blocks, verified_heads) = cache_load library cache;
          trusted = (case verified_heads of None \<Rightarrow> False | Some vh \<Rightarrow> same_heads vh heads);
          (cached, from_cache) = (if trusted then restore_entries D (create_oplog chain) blocks else merge_entries D (create_oplog chain) blocks)
      in if mr_rejected from_cache = [] \<and> same_heads (ol_heads cached) heads
         then (cached, from_cache, if trusted then cache else mark_verified library (ol_heads cached) cache)
         else let (ol, loaded) = merge_entries D (create_oplog chain) (load_entry_blocks D heads store)
              in (ol, loaded, cache_replace library (map (\<lambda>e. (he_hash e, he_bytes e)) (omap_values (ol_entries ol))) (ol_heads ol) cache))"

section \<open>Oplogs with the same heads\<close>

text \<open>The heads and the blocks an oplog was read from determine it: every entry descends from a head, and a hash
  names one block.\<close>

definition read_back :: "deps \<Rightarrow> oplog \<Rightarrow> bool" where
  "read_back D ol \<longleftrightarrow> (\<forall>g e. entries_of ol g = Some e \<longrightarrow>
     (\<exists>h. decode_signed_entry D (he_bytes e) = Inr h \<and> he_hash h = g \<and> parents h = parents e))"

lemma heads_cover:
  assumes ok: "heads_ok ol" and h: "entries_of ol h = Some e"
  shows "h \<in> past_of (entries_of ol) (ol_heads ol)"
proof -
  let ?es = "entries_of ol" and ?t = "\<lambda>h. e_time (the (entries_of ol h))"
  have dag: "dag_ok ?es" and heads: "set (ol_heads ol) = dom ?es - (\<Union>e \<in> ran ?es. set (parents e))" using ok by (simp_all add: heads_ok_def)
  have fin: "finite (?t ` dom ?es)" by (simp add: finite_dom_map_of)
  show ?thesis using h
  proof (induction "Max (?t ` dom ?es) - e_time e" arbitrary: h e rule: less_induct)
    case less
    show ?case
    proof (cases "h \<in> set (ol_heads ol)")
      case True
      then show ?thesis using past_of_self[of "ol_heads ol" ?es] by blast
    next
      case False
      then obtain g x where x: "?es g = Some x" "h \<in> set (parents x)" using less.prems heads by (auto simp: ran_def)
      then have "e_time e < e_time x" using dag_okD(2)[OF dag x] less.prems by auto
      moreover have "e_time x \<le> Max (?t ` dom ?es)" using x(1) by (intro Max_ge[OF fin]) force
      ultimately have "g \<in> past_of ?es (ol_heads ol)" by (intro less.hyps[OF _ x(1)]) linarith
      then show ?thesis using parent_closed_past[of ?es "ol_heads ol"] x unfolding parent_closed_def by blast
    qed
  qed
qed

lemma same_hash_same_block:
  assumes "read_back D x" "read_back D y" "inj_on (compute_cid_string D) (set (blocks_of x) \<union> set (blocks_of y))"
    "entries_of x g = Some a" "entries_of y g = Some b"
  shows "he_bytes a = he_bytes b" "parents a = parents b"
proof -
  have "he_bytes a \<in> set (blocks_of x)" "he_bytes b \<in> set (blocks_of y)"
    using assms(4,5) by (force simp: blocks_of_def dest!: map_of_SomeD)+
  moreover obtain h k where hk: "decode_signed_entry D (he_bytes a) = Inr h" "he_hash h = g" "parents h = parents a"
    "decode_signed_entry D (he_bytes b) = Inr k" "he_hash k = g" "parents k = parents b" using assms(1,2,4,5) unfolding read_back_def by metis
  moreover have "compute_cid_string D (he_bytes a) = g" "compute_cid_string D (he_bytes b) = g"
    using hk decode_signed_entry_Inr[OF hk(1)] decode_signed_entry_Inr[OF hk(4)] decode_hash_ok[OF hk(1)] decode_hash_ok[OF hk(4)]
    by (metis hash_ok_def with_hash_def hashed_entry.select_convs(3))+
  ultimately show eq: "he_bytes a = he_bytes b" using inj_onD[OF assms(3)] by simp
  with hk show "parents a = parents b" by simp
qed

lemma same_heads_held:
  assumes "heads_ok x" "heads_ok y" "read_back D x" "read_back D y" "inj_on (compute_cid_string D) (set (blocks_of x) \<union> set (blocks_of y))"
    "set (ol_heads x) = set (ol_heads y)"
  shows "dom (entries_of x) \<subseteq> dom (entries_of y)"
proof -
  let ?P = "dom (entries_of x) \<inter> dom (entries_of y)"
  have dag: "dag_ok (entries_of x)" "dag_ok (entries_of y)" using assms(1,2) by (simp_all add: heads_ok_def)
  have "parent_closed (entries_of x) ?P"
    unfolding parent_closed_def
  proof (intro ballI allI impI subsetI)
    fix g a p assume g: "g \<in> ?P" "entries_of x g = Some a" "p \<in> set (parents a)"
    then obtain b where b: "entries_of y g = Some b" by auto
    with g same_hash_same_block(2)[OF assms(3-5) g(2) b] show "p \<in> ?P"
      using dag_okD(2)[OF dag(1) g(2)] dag_okD(2)[OF dag(2) b] by auto
  qed
  moreover have "set (ol_heads x) \<subseteq> ?P" using assms(1,2,6) by (auto simp: heads_ok_def)
  ultimately have "past_of (entries_of x) (ol_heads x) \<subseteq> ?P" by (rule past_of_subset)
  then show ?thesis using heads_cover[OF assms(1)] by blast
qed

section \<open>What an insertion of blocks reads\<close>

lemma refresh_heads [simp]:
  "ol_heads (refresh_current_state ol ks) = ol_heads ol" "ol_referenced (refresh_current_state ol ks) = ol_referenced ol"
  "ol_heads (fst (refresh_access_state ol added)) = ol_heads ol" "ol_referenced (fst (refresh_access_state ol added)) = ol_referenced ol"
  by (induction ks arbitrary: ol) (simp_all add: refresh_access_state_def refresh_effective_def Let_def case_prod_unfold)

lemma decoded_bytes: "decode_signed_entry D b = Inr h \<Longrightarrow> he_bytes h = b"
proof -
  assume "decode_signed_entry D b = Inr h"
  then have "h = with_hash D (he_entry h) b" using decode_signed_entry_Inr by blast
  then have "he_bytes h = he_bytes (with_hash D (he_entry h) b)" by simp
  then show ?thesis by (simp add: with_hash_def)
qed

lemma decoded_all: "fst (decode_blocks D s bs) = [] \<Longrightarrow> b \<in> set bs \<Longrightarrow> \<exists>h. decode_signed_entry D b = Inr h"
  by (induction bs) (auto simp: Let_def case_prod_unfold split: sum.splits if_splits)

lemma replica_parts:
  assumes "replica_ok D v"
  shows "heads_ok v" "read_back D v"
proof -
  show "heads_ok v" using assms structure_heads by (auto simp: replica_ok_def oplog_ok_def)
  show "read_back D v" unfolding read_back_def
  proof (intro allI impI)
    fix g e assume "entries_of v g = Some e"
    from replica_held(4)[OF assms this] show "\<exists>h. decode_signed_entry D (he_bytes e) = Inr h \<and> he_hash h = g \<and> parents h = parents e"
      by (auto simp: verify_entry_Inr)
  qed
qed

text \<open>What an insertion of blocks relies on: an entry is admitted unchanged and only with its parents held. Verifying and
  restoring both promise it.\<close>

locale admission =
  fixes admit :: "oplog \<Rightarrow> hashed_entry \<Rightarrow> verified_entry result"
  assumes admitted: "admit s h = Inr e \<Longrightarrow> assert_clock s h = Inr () \<and> (\<exists>p. e = as_verified h p)"
begin

lemma admit_all_heads:
  assumes "admit_all admit s hs = (s1, m, rejected)" "heads_ok s"
  shows "heads_ok s1 \<and> ol_chain s1 = ol_chain s \<and> entries_of s \<subseteq>\<^sub>m entries_of s1 \<and>
    (\<forall>g e. entries_of s1 g = Some e \<longrightarrow> entries_of s g = Some e \<or> (\<exists>h \<in> set hs. he_hash h = g \<and> (\<exists>p. e = as_verified h p))) \<and>
    (rejected = [] \<longrightarrow> (\<forall>h \<in> set hs. he_hash h \<in> dom (entries_of s1)))"
  using assms
proof (induction hs arbitrary: s m rejected)
  case (Cons h hs)
  show ?case
  proof (cases "omap_has (ol_entries s) (he_hash h)")
    case True
    with Cons.prems have ih: "admit_all admit s hs = (s1, m, rejected)" "he_hash h \<in> dom (entries_of s)" by (auto simp: omap_has_iff)
    from Cons.IH[OF ih(1) Cons.prems(2)] map_le_implies_dom_le[of "entries_of s" "entries_of s1"] ih(2) show ?thesis by auto
  next
    case False
    then have new: "entries_of s (he_hash h) = None" by (simp add: omap_has_iff)
    show ?thesis
    proof (cases "admit s h")
      case (Inl err)
      obtain s' m' r where r: "admit_all admit s hs = (s', m', r)" by (meson prod_cases3)
      with Cons.prems False Inl have eq: "s1 = s'" "m = m'" "rejected = (he_hash h, err) # r" by auto
      from Cons.IH[OF r[folded eq] Cons.prems(2)] eq(3) show ?thesis by auto
    next
      case (Inr e)
      then obtain p where p: "assert_clock s h = Inr ()" "e = as_verified h p" using admitted by blast
      let ?s = "fst (insert_entry s e)"
      obtain s' m' r' where q: "admit_all admit ?s hs = (s', m', r')" by (meson prod_cases3)
      with Cons.prems False Inr have "s1 = s'" "rejected = r'" by auto
      with q have r: "admit_all admit ?s hs = (s1, m', rejected)" by simp
      have new': "entries_of s (he_hash e) = None" using new p(2) by simp
      have "heads_ok ?s" by (rule insert_entry_heads[OF Cons.prems(2) new']) (use assert_clock_parents[OF p(1)] p(2) in auto)
      note f = insert_entry_fields(1,2)[OF new'] and ih = Cons.IH[OF r this]
      have he: "he_hash e = he_hash h" using p(2) by simp
      have le: "entries_of s \<subseteq>\<^sub>m entries_of ?s" "entries_of ?s (he_hash h) = Some e" using new he by (auto simp: f map_le_def)
      from ih have le': "entries_of ?s \<subseteq>\<^sub>m entries_of s1" by blast
      have "entries_of s \<subseteq>\<^sub>m entries_of s1" by (rule map_le_trans[OF le(1) le'])
      moreover have "he_hash h \<in> dom (entries_of s1)" using map_le_implies_dom_le[OF le'] le(2) by blast
      moreover have "entries_of s g = Some x \<or> (\<exists>k \<in> set (h # hs). he_hash k = g \<and> (\<exists>p. x = as_verified k p))" if "entries_of s1 g = Some x" for g x
      proof -
        from ih that have "entries_of ?s g = Some x \<or> (\<exists>k \<in> set hs. he_hash k = g \<and> (\<exists>p. x = as_verified k p))" by blast
        then have "entries_of s g = Some x \<or> he_hash h = g \<and> x = e \<or> (\<exists>k \<in> set hs. he_hash k = g \<and> (\<exists>p. x = as_verified k p))"
          using he by (auto simp: f(1) split: if_splits)
        then show ?thesis using p(2) by auto
      qed
      ultimately show ?thesis using ih f(2) by auto
    qed
  qed
qed auto

text \<open>Blocks inserted into an empty oplog with nothing rejected are the blocks of the oplog.\<close>

lemma inserted_blocks:
  assumes "insert_blocks D admit (create_oplog chain) blocks = (ol, result)"
  shows "heads_ok ol" "read_back D ol" "ol_chain ol = chain" "set (blocks_of ol) \<subseteq> set blocks"
    "mr_rejected result = [] \<Longrightarrow> b \<in> set blocks \<Longrightarrow> \<exists>h. decode_signed_entry D b = Inr h \<and> he_hash h \<in> dom (entries_of ol)"
proof -
  let ?s = "create_oplog chain"
  obtain s1 m refused where a: "admit_all admit ?s (sort_by compare_merge (snd (decode_blocks D ?s blocks))) = (s1, m, refused)"
    by (meson prod_cases3)
  note parts = insert_blocks_parts[OF a]
  have "heads_ok ?s" by (simp add: heads_ok_def create_oplog_def dag_ok_def)
  note h = admit_all_heads[OF a this]
  have ol: "ol = fst (insert_blocks D admit ?s blocks)" "result = snd (insert_blocks D admit ?s blocks)" using assms by simp_all
  have heads: "ol_heads ol = ol_heads s1" "ol_referenced ol = ol_referenced s1"
    using a ol(1) by (simp_all add: insert_blocks_def Let_def case_prod_unfold)
  show "heads_ok ol" using h parts(1) heads by (simp add: heads_ok_def ol(1))
  show "ol_chain ol = chain" using h parts(2) by (simp add: ol(1) create_oplog_def)
  have entry: "\<exists>b \<in> set blocks. decode_signed_entry D b = Inr k \<and> he_bytes k = b" if "k \<in> set (sort_by compare_merge (snd (decode_blocks D ?s blocks)))" for k
    using that set_decode_blocks[of D ?s blocks] decoded_bytes by auto
  have held: "\<exists>k \<in> set (sort_by compare_merge (snd (decode_blocks D ?s blocks))). he_hash k = g \<and> (\<exists>p. e = as_verified k p)"
    if "entries_of ol g = Some e" for g e using that h parts(1) by (auto simp: ol(1) create_oplog_def)
  show "read_back D ol" unfolding read_back_def using held entry by fastforce
  have dist: "distinct (omap_keys (ol_entries ol))"
    using admit_all_distinct[OF a] a by (simp add: ol(1) insert_blocks_def Let_def case_prod_unfold refresh_current_fields refresh_access_fields create_oplog_def)
  show "set (blocks_of ol) \<subseteq> set blocks"
  proof
    fix b assume "b \<in> set (blocks_of ol)"
    then obtain g e where "entries_of ol g = Some e" "b = he_bytes e" using dist by (auto simp: blocks_of_def)
    then show "b \<in> set blocks" using held entry by fastforce
  qed
  show "\<exists>h. decode_signed_entry D b = Inr h \<and> he_hash h \<in> dom (entries_of ol)" if rej: "mr_rejected result = []" and b: "b \<in> set blocks"
  proof -
    have none: "fst (decode_blocks D ?s blocks) = []" "refused = []" using rej parts(4) by (simp_all add: ol(2))
    obtain k where k: "decode_signed_entry D b = Inr k" using decoded_all[OF none(1) b] by blast
    then have "k \<in> set (sort_by compare_merge (snd (decode_blocks D ?s blocks)))" using b set_decode_blocks[of D ?s blocks] by (auto simp: create_oplog_def)
    with h none(2) parts(1) k show ?thesis by (auto simp: ol(1))
  qed
qed

text \<open>Blocks that give the heads of a replica with nothing rejected are the replica's blocks.\<close>

lemma reproduced_blocks:
  assumes v: "replica_ok D v" "ol_chain v = chain" and inj: "inj_on (compute_cid_string D) (set blocks \<union> set (blocks_of v))"
    and ins: "insert_blocks D admit (create_oplog chain) blocks = (ol, result)"
    and whole: "mr_rejected result = []" "set (ol_heads ol) = set (ol_heads v)"
  shows "set blocks = set (blocks_of v)"
proof -
  note i = inserted_blocks[OF ins] and p = replica_parts[OF v(1)]
  have inj': "inj_on (compute_cid_string D) (set (blocks_of ol) \<union> set (blocks_of v))" using i(4) inj by (auto intro: inj_on_subset)
  have dom: "dom (entries_of ol) = dom (entries_of v)"
    using same_heads_held[OF i(1) p(1) i(2) p(2) inj' whole(2)] same_heads_held[OF p(1) i(1) p(2) i(2) _ whole(2)[symmetric]] inj' by (simp add: Un_commute)
  have cid: "compute_cid_string D b = he_hash h" if "decode_signed_entry D b = Inr h" for b h
    using decode_hash_ok[OF that] decoded_bytes[OF that] by (simp add: hash_ok_def)
  show ?thesis
  proof (intro equalityI subsetI)
    fix b assume b: "b \<in> set blocks"
    then obtain h e where h: "decode_signed_entry D b = Inr h" "entries_of v (he_hash h) = Some e" using i(5)[OF whole(1)] dom by blast
    note held = replica_held(1,3)[OF v(1) h(2)]
    have "b = he_bytes e" by (rule inj_onD[OF inj]) (use cid[OF h(1)] held b in simp_all)
    with held(1) show "b \<in> set (blocks_of v)" by simp
  next
    fix b assume "b \<in> set (blocks_of v)"
    then obtain g e where e: "entries_of v g = Some e" "b = he_bytes e" using v(1) by (auto simp: replica_ok_def blocks_of_def)
    then obtain x where x: "entries_of ol g = Some x" using dom by blast
    have "he_bytes x \<in> set (blocks_of ol)" using x by (force simp: blocks_of_def dest!: map_of_SomeD)
    then show "b \<in> set blocks" using same_hash_same_block(1)[OF i(2) p(2) inj' x e(1)] e(2) i(4) by auto
  qed
qed

end

interpretation verifying: admission "verify_entry D" for D
  by unfold_locales (auto simp: verify_entry_Inr)

interpretation restoring: admission "restore_entry D" for D
  by unfold_locales (auto simp: restore_entry_def result_simps Let_def)

section \<open>The walk from the heads\<close>

text \<open>The store holds every block of a replica and no entry of it refers outside.\<close>

definition wholly_stored :: "deps \<Rightarrow> block_reader \<Rightarrow> oplog \<Rightarrow> bool" where
  "wholly_stored D store v \<longleftrightarrow> (\<forall>g e. entries_of v g = Some e \<longrightarrow>
     omap_get store g = Some (he_bytes e) \<and> set (e_refs (he_entry e)) \<subseteq> dom (entries_of v))"

lemma replica_links:
  assumes "replica_ok D v" "entries_of v g = Some e"
  shows "entry_links D (he_bytes e) = parents e @ e_refs (he_entry e)"
  using replica_held(4)[OF assms] by (auto simp: entry_links_def verify_entry_Inr)

lemma stored_links:
  assumes "replica_ok D v" "wholly_stored D store v" "g \<in> dom (entries_of v)"
  shows "\<exists>e. entries_of v g = Some e \<and> omap_get store g = Some (he_bytes e) \<and> he_bytes e \<in> set (blocks_of v) \<and>
    set (parents e) \<subseteq> set (entry_links D (he_bytes e)) \<and> set (entry_links D (he_bytes e)) \<subseteq> dom (entries_of v)"
proof -
  from assms(3) obtain e where e: "entries_of v g = Some e" by auto
  then have st: "omap_get store g = Some (he_bytes e)" "set (e_refs (he_entry e)) \<subseteq> dom (entries_of v)" using assms(2) by (auto simp: wholly_stored_def)
  have "dag_ok (entries_of v)" using replica_parts(1)[OF assms(1)] by (simp add: heads_ok_def)
  then have "set (parents e) \<subseteq> dom (entries_of v)" using dag_okD(2) e by fast
  with e st show ?thesis by (simp add: replica_links[OF assms(1) e] replica_held(1)[OF assms(1) e])
qed

lemma load_walk_sound:
  "replica_ok D v \<Longrightarrow> wholly_stored D store v \<Longrightarrow> set queue \<subseteq> dom (entries_of v) \<Longrightarrow> set (load_walk D store seen queue) \<subseteq> set (blocks_of v)"
proof (induction D store seen queue rule: load_walk.induct)
  case (2 D store seen h queue)
  have "h \<in> dom (entries_of v)" using "2.prems"(3) by simp
  from stored_links[OF "2.prems"(1,2) this] obtain e where "entries_of v h = Some e" and e: "omap_get store h = Some (he_bytes e)" "he_bytes e \<in> set (blocks_of v)"
    "set (entry_links D (he_bytes e)) \<subseteq> dom (entries_of v)" by blast
  show ?case
  proof (cases "h \<in> set seen")
    case True
    then show ?thesis using "2.IH"(1) "2.prems" by simp
  next
    case False
    then show ?thesis using "2.IH"(3)[OF False e(1) "2.prems"(1,2)] e "2.prems"(3) by simp
  qed
qed simp

text \<open>Everything reachable from what was seen or is queued has been seen or is collected.\<close>

lemma load_walk_complete:
  "replica_ok D v \<Longrightarrow> wholly_stored D store v \<Longrightarrow> set queue \<subseteq> dom (entries_of v) \<Longrightarrow>
   (\<And>x e. x \<in> set seen \<Longrightarrow> entries_of v x = Some e \<Longrightarrow> set (parents e) \<subseteq> set seen \<union> set queue) \<Longrightarrow>
   a \<in> past_of (entries_of v) (seen @ queue) \<Longrightarrow> entries_of v a = Some x \<Longrightarrow> a \<in> set seen \<or> he_bytes x \<in> set (load_walk D store seen queue)"
proof (induction D store seen queue rule: load_walk.induct)
  case (1 D store seen)
  then have "parent_closed (entries_of v) (set seen)" by (auto simp: parent_closed_def)
  then have "past_of (entries_of v) (seen @ []) \<subseteq> set seen" by (rule past_of_subset) simp
  with 1 show ?case by blast
next
  case (2 D store seen h queue)
  have "h \<in> dom (entries_of v)" using "2.prems"(3) by simp
  from stored_links[OF "2.prems"(1,2) this] obtain e where e: "entries_of v h = Some e" "omap_get store h = Some (he_bytes e)"
    "set (parents e) \<subseteq> set (entry_links D (he_bytes e))" "set (entry_links D (he_bytes e)) \<subseteq> dom (entries_of v)" by blast
  have mono: "a \<in> past_of (entries_of v) ns" if "set (seen @ h # queue) \<subseteq> set ns" for ns
    using "2.prems"(5) that unfolding past_of_def by (meson Image_mono order_refl subsetD)
  show ?case
  proof (cases "h \<in> set seen")
    case True
    then show ?thesis using "2.IH"(1)[OF True "2.prems"(1,2) _ _ mono "2.prems"(6)] "2.prems"(3,4) by force
  next
    case False
    let ?rest = "load_walk D store (oset_add h seen) (queue @ entry_links D (he_bytes e))"
    have "a \<in> set (oset_add h seen) \<or> he_bytes x \<in> set ?rest"
    proof (rule "2.IH"(3)[OF False e(2) "2.prems"(1,2) _ _ mono "2.prems"(6)])
      show "set (queue @ entry_links D (he_bytes e)) \<subseteq> dom (entries_of v)" using "2.prems"(3) e(4) by simp
      show "set (parents y) \<subseteq> set (oset_add h seen) \<union> set (queue @ entry_links D (he_bytes e))"
        if "g \<in> set (oset_add h seen)" "entries_of v g = Some y" for g y
        using that "2.prems"(4)[of g y] e(1,3) by (cases "g = h") auto
    qed auto
    moreover have "load_walk D store seen (h # queue) = he_bytes e # ?rest" using False e(2) by simp
    ultimately show ?thesis using e(1) "2.prems"(6) by auto
  qed
qed

lemma load_entry_blocks_exact:
  assumes "replica_ok D v" "wholly_stored D store v" "set heads = set (ol_heads v)"
  shows "set (load_entry_blocks D heads store) = set (blocks_of v)"
proof (intro equalityI subsetI)
  note p = replica_parts(1)[OF assms(1)]
  have heads: "set heads \<subseteq> dom (entries_of v)" using p assms(3) by (auto simp: heads_ok_def)
  then show "b \<in> set (blocks_of v)" if "b \<in> set (load_entry_blocks D heads store)" for b
    using load_walk_sound[OF assms(1,2) heads] that by (auto simp: load_entry_blocks_def)
  fix b assume "b \<in> set (blocks_of v)"
  then obtain g e where e: "entries_of v g = Some e" "b = he_bytes e" using assms(1) by (auto simp: replica_ok_def blocks_of_def)
  have "g \<in> past_of (entries_of v) ([] @ heads)" using heads_cover[OF p e(1)] assms(3) by (simp add: past_of_def)
  from load_walk_complete[OF assms(1,2) heads _ this e(1)] e(2) show "b \<in> set (load_entry_blocks D heads store)"
    by (simp add: load_entry_blocks_def)
qed

end
