(* ===== verification/Cache_Run.thy ===== *)
theory Cache_Run
  imports Entry_Cache
begin

text \<open>
  Runs of one library over its entry block cache: opens, appends, merges, saves, commits and crashes in any order.
\<close>

section \<open>Replicas grow\<close>

lemma replica_append:
  assumes ok: "replica_ok D ol" and inj: "inj (multihash_of_digest D)"
    and app: "append_entry_with_access D ol payload kp = Inr (ol', e, access)" and new: "omap_get (ol_entries ol) (he_hash e) = None"
    and codec: "cbor_decode D (cbor_encode D (signed_fields (he_entry e))) = Some (signed_fields (he_entry e))"
  shows "replica_ok D ol'" "ol_chain ol' = ol_chain ol" "set (blocks_of ol') \<subseteq> insert (he_bytes e) (set (blocks_of ol))"
proof -
  have ok': "oplog_ok D ol" "distinct (omap_keys (ol_entries ol))" using ok by (simp_all add: replica_ok_def)
  note a = append_ok[OF ok'(1) inj app new]
  have dist: "distinct (omap_keys (ol_entries ol'))" by (rule append_distinct[OF app ok'(2)])
  have "decode_signed_entry D (he_bytes e) = Inr (hash_signed_entry D u)" if v: "verify_entry D ol (hash_signed_entry D u) = Inr e" for u
  proof -
    from v obtain p where p: "check_entry D (ol_chain ol) (hash_signed_entry D u) = Inr p" "e = as_verified (hash_signed_entry D u) p"
      by (auto simp: verify_entry_Inr)
    have "stored D (hash_signed_entry D u)" by (simp add: stored_def hash_signed_entry_def with_hash_def)
    from stored_decodes[OF this p(1)] codec p(2) show ?thesis by simp
  qed
  from append_origin[where Q = "\<lambda>e h. decode_signed_entry D (he_bytes e) = Inr h", OF ok'(1) inj app new _ this] ok a(1) dist
  show "replica_ok D ol'" by (simp add: replica_ok_def)
  show "ol_chain ol' = ol_chain ol" by (rule a(4))
  show "set (blocks_of ol') \<subseteq> insert (he_bytes e) (set (blocks_of ol))"
  proof
    fix b assume "b \<in> set (blocks_of ol')"
    then obtain g x where "entries_of ol' g = Some x" "b = he_bytes x" using dist by (auto simp: blocks_of_def)
    then show "b \<in> insert (he_bytes e) (set (blocks_of ol))" using a(3) replica_held(1)[OF ok] by (auto split: if_splits)
  qed
qed

lemma replica_merge:
  fixes blocks :: "bytes list"
  assumes ok: "replica_ok D ol" and inj: "inj (multihash_of_digest D)"
  defines "ol' \<equiv> fst (merge_entries D ol blocks)"
  shows "replica_ok D ol'" "ol_chain ol' = ol_chain ol" "set (blocks_of ol') \<subseteq> set (blocks_of ol) \<union> set blocks"
proof -
  have ok': "oplog_ok D ol" "distinct (omap_keys (ol_entries ol))" using ok by (simp_all add: replica_ok_def)
  have dist: "distinct (omap_keys (ol_entries ol'))" unfolding ol'_def by (rule merge_distinct[OF ok'(2)])
  have "\<forall>g e. entries_of ol' g = Some e \<longrightarrow> (\<exists>h. decode_signed_entry D (he_bytes e) = Inr h \<and> verify_entry D ol' h = Inr e)"
    unfolding ol'_def by (rule merge_origin_extend[OF ok'(1) inj]) (use ok decoded_bytes in \<open>auto simp: replica_ok_def\<close>)
  then show "replica_ok D ol'" using insert_blocks_ok(1)[OF ok'(1) inj] dist by (simp add: replica_ok_def ol'_def)
  show "ol_chain ol' = ol_chain ol" unfolding ol'_def by (rule merge_chain[OF ok'(1) inj])
  show "set (blocks_of ol') \<subseteq> set (blocks_of ol) \<union> set blocks"
  proof
    fix b assume "b \<in> set (blocks_of ol')"
    then obtain g e where e: "entries_of ol' g = Some e" "b = he_bytes e" using dist by (auto simp: blocks_of_def)
    show "b \<in> set (blocks_of ol) \<union> set blocks"
    proof (cases "entries_of ol g")
      case None
      from merge_origin[OF ok'(1) inj e(1)[unfolded ol'_def] None] obtain c h where
        "c \<in> set blocks" "decode_signed_entry D c = Inr h" "verify_entry D ol' h = Inr e" unfolding ol'_def by blast
      then show ?thesis using e(2) decoded_bytes by (auto simp: verify_entry_Inr)
    next
      case (Some x)
      then have "x = e" using merge_agrees[OF ok'(1) inj, of blocks] e(1) unfolding agree_on_def ol'_def by (metis domI option.inject)
      then show ?thesis using replica_held(1)[OF ok Some] e(2) by simp
    qed
  qed
qed

lemma replica_same_entries:
  assumes "replica_ok D v" "inj (multihash_of_digest D)" "oplog_ok D ol" "entries_of ol = entries_of v" "ol_chain ol = ol_chain v"
    "distinct (omap_keys (ol_entries ol))"
  shows "replica_ok D ol"
proof -
  have st: "structure_ok D v" "structure_ok D ol" using assms(1,3) by (simp_all add: replica_ok_def oplog_ok_def)
  have agree: "agree_on v ol (dom (entries_of v))"
    by (rule agree_intro[OF st assms(5)[symmetric] _ parent_closed_dom[OF structure_okD(1)[OF st(1)]]]) (simp add: assms(4))
  have "\<forall>g e. entries_of ol g = Some e \<longrightarrow> (\<exists>h. decode_signed_entry D (he_bytes e) = Inr h \<and> verify_entry D ol h = Inr e)"
    by (rule origin_extend[OF _ st assms(2) agree]) (use assms(1,4) in \<open>auto simp: replica_ok_def\<close>)
  with assms(3,6) show ?thesis by (simp add: replica_ok_def)
qed

section \<open>Runs\<close>

text \<open>An open library's oplog, its persisted heads, the blocks its store returns, and the cache as the connection sees it
  and as the disk holds it.\<close>

record open_state =
  os_oplog :: "oplog option"
  os_heads :: "string list"
  os_store :: block_reader
  os_cache :: entry_cache
  os_disk :: entry_cache

definition cache_entries :: "verified_entry list \<Rightarrow> (string \<times> bytes) list" where
  "cache_entries entries = map (\<lambda>e. (he_hash e, he_bytes e)) entries"

text \<open>\<open>B\<close> is the set of blocks that ever occur.\<close>

inductive cache_run :: "deps \<Rightarrow> resolved_chain \<Rightarrow> bytes set \<Rightarrow> open_state \<Rightarrow> bool" for D chain B where
  started: "cache_run D chain B \<lparr>os_oplog = None, os_heads = heads, os_store = [], os_cache = empty_cache, os_disk = empty_cache\<rparr>"
| opened: "cache_run D chain B r \<Longrightarrow> os_oplog r = None \<Longrightarrow> load_oplog D chain (os_heads r) (os_store r) (os_cache r) = (ol, loaded, cache) \<Longrightarrow>
    cache_run D chain B (r\<lparr>os_oplog := Some ol, os_cache := cache\<rparr>)"
| appended: "cache_run D chain B r \<Longrightarrow> os_oplog r = Some ol \<Longrightarrow> append_entry_with_access D ol payload kp = Inr (ol', e, access) \<Longrightarrow>
    omap_get (ol_entries ol) (he_hash e) = None \<Longrightarrow> he_bytes e \<in> B \<Longrightarrow>
    cbor_decode D (cbor_encode D (signed_fields (he_entry e))) = Some (signed_fields (he_entry e)) \<Longrightarrow>
    cache_run D chain B (r\<lparr>os_oplog := Some ol'\<rparr>)"
| merged: "cache_run D chain B r \<Longrightarrow> os_oplog r = Some ol \<Longrightarrow> merge_entries D ol blocks = (ol', result) \<Longrightarrow> set blocks \<subseteq> B \<Longrightarrow>
    cache_run D chain B (r\<lparr>os_oplog := Some ol'\<rparr>)"
| saved: "cache_run D chain B r \<Longrightarrow> os_oplog r = Some ol \<Longrightarrow> set entries \<subseteq> set (omap_values (ol_entries ol)) \<Longrightarrow>
    cache_run D chain B (r\<lparr>os_cache := cache_save (chain_address chain) (cache_entries entries) (ol_heads ol) (os_cache r)\<rparr>)"
| stored: "cache_run D chain B r \<Longrightarrow> set (omap_values store) \<subseteq> B \<Longrightarrow> cache_run D chain B (r\<lparr>os_store := store\<rparr>)"
| heads_saved: "cache_run D chain B r \<Longrightarrow> cache_run D chain B (r\<lparr>os_heads := heads\<rparr>)"
| committed: "cache_run D chain B r \<Longrightarrow> cache_run D chain B (r\<lparr>os_disk := os_cache r\<rparr>)"
| crashed: "cache_run D chain B r \<Longrightarrow> cache_run D chain B (r\<lparr>os_oplog := None, os_cache := os_disk r\<rparr>)"
| unlinked: "cache_run D chain B r \<Longrightarrow> cache_run D chain B (r\<lparr>os_oplog := None, os_cache := cache_remove (chain_address chain) (os_cache r)\<rparr>)"

section \<open>The invariant\<close>

definition log_ok :: "deps \<Rightarrow> resolved_chain \<Rightarrow> bytes set \<Rightarrow> oplog \<Rightarrow> bool" where
  "log_ok D chain B ol \<longleftrightarrow> replica_ok D ol \<and> ol_chain ol = chain \<and> set (blocks_of ol) \<subseteq> B"

definition cache_ok :: "deps \<Rightarrow> resolved_chain \<Rightarrow> bytes set \<Rightarrow> entry_cache \<Rightarrow> bool" where
  "cache_ok D chain B c \<longleftrightarrow> set (fst (cache_load (chain_address chain) c)) \<subseteq> B \<and>
     (\<forall>heads. snd (cache_load (chain_address chain) c) = Some heads \<longrightarrow> (\<exists>v. log_ok D chain B v \<and> set heads = set (ol_heads v)))"

lemma same_heads_set: "same_heads a b \<Longrightarrow> set a = set b"
  unfolding same_heads_def by (metis set_sort_by)

lemma insert_all_load:
  "set (fst (cache_load a (insert_all b entries c))) \<subseteq> set (fst (cache_load a c)) \<union> snd ` set entries"
  "snd (cache_load a (insert_all b entries c)) = snd (cache_load a c)"
proof -
  have one: "set (fst (cache_load a (insert_block b x c))) \<subseteq> set (fst (cache_load a c)) \<union> {snd x}" "ec_verified (insert_block b x c) = ec_verified c" for x c
    by (auto simp: insert_block_def cache_load_def split: prod.splits)
  show "set (fst (cache_load a (insert_all b entries c))) \<subseteq> set (fst (cache_load a c)) \<union> snd ` set entries"
    unfolding insert_all_def
  proof (induction entries arbitrary: c)
    case (Cons x entries)
    from Cons.IH[of "insert_block b x c"] one(1)[of x c] show ?case by auto
  qed simp
  have "ec_verified (insert_all b entries c) = ec_verified c" unfolding insert_all_def using one(2) by (induction entries arbitrary: c) simp_all
  then show "snd (cache_load a (insert_all b entries c)) = snd (cache_load a c)" by (simp add: cache_load_def)
qed

lemma recorded_load [simp]:
  "fst (cache_load a (record_verified b heads c)) = fst (cache_load a c)"
  "snd (cache_load a (record_verified a heads c)) = Some (sort_by compare_strings heads)"
  by (simp_all add: cache_load_def record_verified_def ordered_simps)

lemma recorded_ok:
  assumes "set (fst (cache_load (chain_address chain) c)) \<subseteq> B" "log_ok D chain B ol"
  shows "cache_ok D chain B (record_verified (chain_address chain) (ol_heads ol) c)"
  using assms by (auto simp: cache_ok_def)

lemma log_entries: "log_ok D chain B ol \<Longrightarrow> set entries \<subseteq> set (omap_values (ol_entries ol)) \<Longrightarrow> snd ` set (cache_entries entries) \<subseteq> B"
proof -
  assume ol: "log_ok D chain B ol" "set entries \<subseteq> set (omap_values (ol_entries ol))"
  have "snd ` set (cache_entries entries) = he_bytes ` set entries" by (simp add: cache_entries_def image_image)
  also have "\<dots> \<subseteq> set (blocks_of ol)" using image_mono[OF ol(2), of he_bytes] by (simp only: blocks_of_def set_map)
  finally show ?thesis using ol(1) by (auto simp: log_ok_def)
qed

lemma saved_ok:
  assumes "cache_ok D chain B c" "log_ok D chain B ol" "set entries \<subseteq> set (omap_values (ol_entries ol))"
  shows "cache_ok D chain B (cache_save (chain_address chain) (cache_entries entries) (ol_heads ol) c)"
  unfolding cache_save_def
proof (rule recorded_ok[OF _ assms(2)])
  have "set (fst (cache_load (chain_address chain) c)) \<subseteq> B" using assms(1) by (simp add: cache_ok_def)
  then show "set (fst (cache_load (chain_address chain) (insert_all (chain_address chain) (cache_entries entries) c))) \<subseteq> B"
    using insert_all_load(1)[of "chain_address chain" "chain_address chain" "cache_entries entries" c] log_entries[OF assms(2,3)] by blast
qed

lemma replaced_ok:
  assumes "log_ok D chain B ol"
  shows "cache_ok D chain B (cache_replace (chain_address chain) (cache_entries (omap_values (ol_entries ol))) (ol_heads ol) c)"
  unfolding cache_replace_def
proof (rule recorded_ok[OF _ assms])
  have "fst (cache_load (chain_address chain) (remove_blocks (chain_address chain) c)) = []" by (simp add: cache_load_def remove_blocks_def)
  then show "set (fst (cache_load (chain_address chain) (insert_all (chain_address chain) (cache_entries (omap_values (ol_entries ol)))
      (remove_blocks (chain_address chain) c)))) \<subseteq> B"
    using insert_all_load(1)[of "chain_address chain" "chain_address chain" "cache_entries (omap_values (ol_entries ol))"
        "remove_blocks (chain_address chain) c"] log_entries[OF assms subset_refl] by simp
qed

lemma merged_ok:
  assumes "inj (multihash_of_digest D)" "set blocks \<subseteq> B"
  shows "log_ok D chain B (fst (merge_entries D (create_oplog chain) blocks))"
  using replica_merge[OF create_replica_ok[OF assms(1)] assms(1), of chain blocks] assms(2)
  by (auto simp: log_ok_def create_oplog_def blocks_of_def)

lemma restored_ok:
  assumes v: "log_ok D chain B v" and inj: "inj (multihash_of_digest D)" "inj_on (compute_cid_string D) B" and blocks: "set blocks \<subseteq> B"
    and whole: "mr_rejected (snd (restore_entries D (create_oplog chain) blocks)) = []"
      "set (ol_heads (fst (restore_entries D (create_oplog chain) blocks))) = set (ol_heads v)"
  shows "set blocks = set (blocks_of v)" "log_ok D chain B (fst (restore_entries D (create_oplog chain) blocks))"
    "entries_of (fst (restore_entries D (create_oplog chain) blocks)) = entries_of v"
    "same_state (fst (restore_entries D (create_oplog chain) blocks)) v"
proof -
  let ?ol = "fst (restore_entries D (create_oplog chain) blocks)"
  have v': "replica_ok D v" "ol_chain v = chain" "set (blocks_of v) \<subseteq> B" using v by (simp_all add: log_ok_def)
  have inj': "inj_on (compute_cid_string D) (set blocks \<union> set (blocks_of v))" "inj_on (compute_cid_string D) (set (blocks_of v))"
    using inj(2) blocks v'(3) by (auto intro: inj_on_subset)
  show eq: "set blocks = set (blocks_of v)"
    by (rule restoring.reproduced_blocks[OF v'(1,2) inj'(1), of D "fst (restore_entries D (create_oplog chain) blocks)"
          "snd (restore_entries D (create_oplog chain) blocks)"]) (use whole in \<open>simp_all add: restore_entries_def\<close>)
  note r = reinserted_replica[where admit = "restore_entry D", OF v'(1) inj(1) inj'(2) restore_accepts eq, unfolded v'(2), folded restore_entries_def]
  show "entries_of ?ol = entries_of v" by (rule r(2))
  show "same_state ?ol v" by (rule r(3))
  obtain s1 m refused where a: "admit_all (restore_entry D) (create_oplog chain) (sort_by compare_merge (snd (decode_blocks D (create_oplog chain) blocks))) = (s1, m, refused)"
    by (meson prod_cases3)
  have dist: "distinct (omap_keys (ol_entries ?ol))"
    using admit_all_distinct[OF a] a by (simp add: restore_entries_def insert_blocks_def Let_def case_prod_unfold refresh_current_fields refresh_access_fields create_oplog_def)
  have "replica_ok D ?ol" by (rule replica_same_entries[OF v'(1) inj(1) r(4,2) _ dist]) (simp add: r(5) v'(2))
  moreover have "set (blocks_of ?ol) \<subseteq> B" using restoring.inserted_blocks(4)[of D D chain blocks ?ol "snd (restore_entries D (create_oplog chain) blocks)"] blocks
    by (simp add: restore_entries_def)
  ultimately show "log_ok D chain B ?ol" using r(5) by (simp add: log_ok_def)
qed

text \<open>The paths of an open; the cache is whole when it reproduces the heads with nothing rejected.\<close>

definition trusted_cache :: "resolved_chain \<Rightarrow> string list \<Rightarrow> entry_cache \<Rightarrow> bool" where
  "trusted_cache chain heads c \<longleftrightarrow> (\<exists>vh. snd (cache_load (chain_address chain) c) = Some vh \<and> same_heads vh heads)"

definition from_cache :: "deps \<Rightarrow> resolved_chain \<Rightarrow> string list \<Rightarrow> entry_cache \<Rightarrow> oplog \<times> merge_result" where
  "from_cache D chain heads c = (if trusted_cache chain heads c then restore_entries else merge_entries)
     D (create_oplog chain) (fst (cache_load (chain_address chain) c))"

definition whole_cache :: "deps \<Rightarrow> resolved_chain \<Rightarrow> string list \<Rightarrow> entry_cache \<Rightarrow> bool" where
  "whole_cache D chain heads c \<longleftrightarrow> mr_rejected (snd (from_cache D chain heads c)) = [] \<and> same_heads (ol_heads (fst (from_cache D chain heads c))) heads"

lemma load_oplog_eq:
  "load_oplog D chain heads store c = (if whole_cache D chain heads c
     then (fst (from_cache D chain heads c), snd (from_cache D chain heads c),
       if trusted_cache chain heads c then c else mark_verified (chain_address chain) (ol_heads (fst (from_cache D chain heads c))) c)
     else let w = merge_entries D (create_oplog chain) (load_entry_blocks D heads store)
          in (fst w, snd w, cache_replace (chain_address chain) (cache_entries (omap_values (ol_entries (fst w)))) (ol_heads (fst w)) c))"
proof -
  obtain blocks vh where load: "cache_load (chain_address chain) c = (blocks, vh)" by (meson surj_pair)
  have t: "(case vh of None \<Rightarrow> False | Some vh \<Rightarrow> same_heads vh heads) = trusted_cache chain heads c"
    by (simp add: trusted_cache_def load split: option.split)
  have f: "from_cache D chain heads c = (if trusted_cache chain heads c then restore_entries D (create_oplog chain) blocks else merge_entries D (create_oplog chain) blocks)"
    by (simp add: from_cache_def load)
  show ?thesis unfolding load_oplog_def Let_def load case_prod_unfold fst_conv snd_conv unfolding t f[symmetric] whole_cache_def cache_entries_def ..
qed

lemma load_oplog_cases:
  assumes "load_oplog D chain heads store c = (ol, loaded, c')"
  obtains (trusted) vh where "snd (cache_load (chain_address chain) c) = Some vh" "same_heads vh heads"
      "(ol, loaded) = restore_entries D (create_oplog chain) (fst (cache_load (chain_address chain) c))" "mr_rejected loaded = []"
      "same_heads (ol_heads ol) heads" "c' = c"
  | (verified) "\<not> trusted_cache chain heads c"
      "(ol, loaded) = merge_entries D (create_oplog chain) (fst (cache_load (chain_address chain) c))" "mr_rejected loaded = []"
      "same_heads (ol_heads ol) heads" "c' = mark_verified (chain_address chain) (ol_heads ol) c"
  | (walked) "\<not> whole_cache D chain heads c" "(ol, loaded) = merge_entries D (create_oplog chain) (load_entry_blocks D heads store)"
      "c' = cache_replace (chain_address chain) (cache_entries (omap_values (ol_entries ol))) (ol_heads ol) c"
proof (cases "whole_cache D chain heads c")
  case True
  then have l: "ol = fst (from_cache D chain heads c)" "loaded = snd (from_cache D chain heads c)"
    "c' = (if trusted_cache chain heads c then c else mark_verified (chain_address chain) (ol_heads ol) c)" using assms by (auto simp: load_oplog_eq)
  from True have w: "mr_rejected loaded = []" "same_heads (ol_heads ol) heads" by (simp_all add: whole_cache_def l)
  show thesis
  proof (cases "trusted_cache chain heads c")
    case True
    then obtain v where "snd (cache_load (chain_address chain) c) = Some v" "same_heads v heads" by (auto simp: trusted_cache_def)
    then show thesis by (rule trusted) (use True l w in \<open>simp_all add: from_cache_def\<close>)
  next
    case False
    then show thesis by (rule verified) (use False l w in \<open>simp_all add: from_cache_def\<close>)
  qed
next
  case False
  then show thesis by (rule walked) (use assms False in \<open>auto simp: load_oplog_eq Let_def\<close>)
qed

lemma load_walk_blocks: "set (load_walk D store seen queue) \<subseteq> set (omap_values store)"
  by (induction D store seen queue rule: load_walk.induct) (auto split: option.splits dest!: map_of_SomeD intro: rev_image_eqI)

lemma load_oplog_ok:
  assumes c: "cache_ok D chain B c" and store: "set (omap_values store) \<subseteq> B"
    and inj: "inj (multihash_of_digest D)" "inj_on (compute_cid_string D) B"
    and load: "load_oplog D chain heads store c = (ol, loaded, c')"
  shows "log_ok D chain B ol \<and> cache_ok D chain B c'"
proof (rule load_oplog_cases[OF load])
  let ?blocks = "fst (cache_load (chain_address chain) c)"
  have blocks: "set ?blocks \<subseteq> B" using c by (simp add: cache_ok_def)
  {
    fix vh assume t: "snd (cache_load (chain_address chain) c) = Some vh" "same_heads vh heads"
      "(ol, loaded) = restore_entries D (create_oplog chain) ?blocks" "mr_rejected loaded = []" "same_heads (ol_heads ol) heads" "c' = c"
    from c t(1) obtain v where v: "log_ok D chain B v" "set vh = set (ol_heads v)" by (auto simp: cache_ok_def)
    have ol: "ol = fst (restore_entries D (create_oplog chain) ?blocks)" "loaded = snd (restore_entries D (create_oplog chain) ?blocks)"
      using t(3) by (metis fst_conv snd_conv)+
    have "set (ol_heads ol) = set (ol_heads v)" using same_heads_set[OF t(2)] same_heads_set[OF t(5)] v(2) by simp
    from restored_ok(2)[OF v(1) inj blocks] this t(4) have "log_ok D chain B ol" unfolding ol by blast
    with c t(6) show ?thesis by simp
  }
  {
    assume m: "(ol, loaded) = merge_entries D (create_oplog chain) ?blocks" "c' = mark_verified (chain_address chain) (ol_heads ol) c"
    then have "log_ok D chain B ol" using merged_ok[OF inj(1) blocks, of chain] by (metis fst_conv)
    with recorded_ok[OF blocks this] m(2) show ?thesis by (simp add: mark_verified_def)
  }
  {
    assume w: "(ol, loaded) = merge_entries D (create_oplog chain) (load_entry_blocks D heads store)"
      "c' = cache_replace (chain_address chain) (cache_entries (omap_values (ol_entries ol))) (ol_heads ol) c"
    have "set (load_entry_blocks D heads store) \<subseteq> B" using load_walk_blocks store by (fastforce simp: load_entry_blocks_def)
    from merged_ok[OF inj(1) this, of chain] w(1) have "log_ok D chain B ol" by (metis fst_conv)
    with replaced_ok[OF this] w(2) show ?thesis by simp
  }
qed

definition run_ok :: "deps \<Rightarrow> resolved_chain \<Rightarrow> bytes set \<Rightarrow> open_state \<Rightarrow> bool" where
  "run_ok D chain B r \<longleftrightarrow> (\<forall>ol. os_oplog r = Some ol \<longrightarrow> log_ok D chain B ol) \<and> cache_ok D chain B (os_cache r) \<and>
     cache_ok D chain B (os_disk r) \<and> set (omap_values (os_store r)) \<subseteq> B"

lemma cache_run_ok:
  assumes "cache_run D chain B r" "inj (multihash_of_digest D)" "inj_on (compute_cid_string D) B"
  shows "run_ok D chain B r"
  using assms(1)
proof (induction rule: cache_run.induct)
  case (started heads)
  show ?case by (simp add: run_ok_def cache_ok_def cache_load_def empty_cache_def)
next
  case (opened r ol loaded cache)
  then show ?case using load_oplog_ok[OF _ _ assms(2,3) opened(3)] by (auto simp: run_ok_def)
next
  case (appended r ol payload kp ol' e access)
  then have ol: "log_ok D chain B ol" by (simp add: run_ok_def)
  then have "replica_ok D ol" by (simp add: log_ok_def)
  from replica_append[OF this assms(2) appended(3,4,6)] ol appended(5) have "log_ok D chain B ol'" by (auto simp: log_ok_def)
  with appended.IH show ?case by (simp add: run_ok_def)
next
  case (merged r ol blocks ol' result)
  then have ol: "log_ok D chain B ol" by (simp add: run_ok_def)
  then have "replica_ok D ol" by (simp add: log_ok_def)
  from replica_merge[OF this assms(2), of blocks] ol merged(3,4) have "log_ok D chain B ol'" by (auto simp: log_ok_def)
  with merged.IH show ?case by (simp add: run_ok_def)
next
  case (saved r ol entries)
  then show ?case using saved_ok[of D chain B "os_cache r" ol entries] by (auto simp: run_ok_def)
next
  case (unlinked r)
  have "cache_ok D chain B (cache_remove (chain_address chain) (os_cache r))"
    by (simp add: cache_ok_def cache_load_def cache_remove_def remove_blocks_def ordered_simps)
  with unlinked.IH show ?case by (simp add: run_ok_def)
qed (auto simp: run_ok_def)

section \<open>Verifying and restoring\<close>

lemma admit_all_extends:
  assumes "\<forall>s h e. verify s h = Inr e \<longrightarrow> admit s h = Inr e" "admit_all verify s hs = (s1, m, [])"
  shows "admit_all admit s hs = (s1, m, [])"
  using assms(2) by (induction hs arbitrary: s m) (auto simp: assms(1) split: if_splits sum.splits prod.splits)

lemma insert_blocks_extends:
  assumes "\<forall>s h e. verify s h = Inr e \<longrightarrow> admit s h = Inr e" "mr_rejected (snd (insert_blocks D verify s blocks)) = []"
  shows "insert_blocks D admit s blocks = insert_blocks D verify s blocks"
proof -
  obtain s1 m refused where a: "admit_all verify s (sort_by compare_merge (snd (decode_blocks D s blocks))) = (s1, m, refused)" by (meson prod_cases3)
  with assms(2) insert_blocks_parts(4)[OF a] have "refused = []" by simp
  with admit_all_extends[OF assms(1)] a show ?thesis by (simp add: insert_blocks_def case_prod_unfold Let_def)
qed

lemma sorted_heads_cong: "replica_ok D a \<Longrightarrow> replica_ok D b \<Longrightarrow> set (ol_heads a) = set (ol_heads b) \<Longrightarrow> same_heads (ol_heads a) heads = same_heads (ol_heads b) heads"
  using string_order.sort_by_set_cong[of "ol_heads a" "ol_heads b"] replica_parts(1) by (auto simp: same_heads_def heads_ok_def)

section \<open>Properties\<close>

text \<open>C34: An open library holds verified entries only, whatever opens, crashes, lost commits, appends and merges came before, and
  although an open may restore a cache without checking signatures and authority: every entry decodes from its
  bytes, under its hash, to an entry that verifies in full against the oplog.\<close>

theorem opened_entries_verified:
  assumes "cache_run D chain B r" "os_oplog r = Some ol" "inj (multihash_of_digest D)" "inj_on (compute_cid_string D) B" "entries_of ol h = Some e"
  shows "\<exists>hashed. decode_signed_entry D (he_bytes e) = Inr hashed \<and> he_hash hashed = h \<and> verify_entry D ol hashed = Inr e"
proof -
  have "replica_ok D ol" using cache_run_ok[OF assms(1,3,4)] assms(2) by (simp add: run_ok_def log_ok_def)
  from replica_held(4)[OF this assms(5)] show ?thesis .
qed

text \<open>C35: Trusting the cache changes nothing: an open of any state of a run gives the entries and the derived state
  that it gives when the record of verified heads is missing and every entry is verified.\<close>

theorem trusted_open_transparent:
  assumes "cache_run D chain B r" "inj (multihash_of_digest D)" "inj_on (compute_cid_string D) B"
    "load_oplog D chain heads (os_store r) (os_cache r) = (ol, loaded, c)"
    "load_oplog D chain heads (os_store r) ((os_cache r)\<lparr>ec_verified := []\<rparr>) = (ol2, loaded2, c2)"
  shows "entries_of ol = entries_of ol2 \<and> same_state ol ol2"
proof -
  note run = cache_run_ok[OF assms(1-3), unfolded run_ok_def]
  let ?a = "chain_address chain" and ?c = "os_cache r" and ?c2 = "(os_cache r)\<lparr>ec_verified := []\<rparr>"
  have load2: "cache_load ?a ?c2 = (fst (cache_load ?a ?c), None)" by (simp add: cache_load_def)
  have from2: "from_cache D chain heads ?c2 = merge_entries D (create_oplog chain) (fst (cache_load ?a ?c))"
    by (simp add: from_cache_def trusted_cache_def load2)
  have blocks: "set (fst (cache_load ?a ?c)) \<subseteq> B" using run by (simp add: cache_ok_def)
  from assms(4) show ?thesis
  proof (cases rule: load_oplog_cases)
    case (trusted vh)
    then obtain v where v: "log_ok D chain B v" "set vh = set (ol_heads v)" using run by (auto simp: cache_ok_def)
    have "set (ol_heads ol) = set (ol_heads v)" using same_heads_set[OF trusted(2)] same_heads_set[OF trusted(5)] v(2) by simp
    note r = restored_ok[OF v(1) assms(2,3) blocks, folded trusted(3), unfolded fst_conv snd_conv, OF trusted(4) this]
    have v': "replica_ok D v" "ol_chain v = chain" "inj_on (compute_cid_string D) (set (blocks_of v))"
      using v(1) assms(3) by (auto simp: log_ok_def intro: inj_on_subset)
    note m = reinserted_replica[where admit = "verify_entry D", OF v'(1) assms(2) v'(3) _ r(1), unfolded v'(2), folded merge_entries_def]
    have "same_heads (ol_heads (fst (merge_entries D (create_oplog chain) (fst (cache_load ?a ?c))))) heads"
      using sorted_heads_cong[of D "fst (merge_entries D (create_oplog chain) (fst (cache_load ?a ?c)))" ol heads] trusted(5) r(2,4) m(3)
        merged_ok[OF assms(2) blocks, of chain] by (simp add: log_ok_def same_state_def)
    then have "ol2 = fst (merge_entries D (create_oplog chain) (fst (cache_load ?a ?c)))"
      using assms(5) m(1) by (simp add: load_oplog_eq whole_cache_def from2)
    then show ?thesis using r(3,4) m(2,3) by (simp add: same_state_def)
  next
    case verified
    have "from_cache D chain heads ?c2 = (ol, loaded)" unfolding from2 verified(2) ..
    then have "ol2 = ol" using assms(5) verified(3,4) by (simp add: load_oplog_eq whole_cache_def)
    then show ?thesis by (simp add: same_state_def)
  next
    case walked
    have "\<not> whole_cache D chain heads ?c2"
    proof
      assume w: "whole_cache D chain heads ?c2"
      have "restore_entries D (create_oplog chain) (fst (cache_load ?a ?c)) = merge_entries D (create_oplog chain) (fst (cache_load ?a ?c))"
        unfolding restore_entries_def merge_entries_def
        by (rule insert_blocks_extends[OF restore_accepts]) (use w in \<open>simp add: whole_cache_def from2 merge_entries_def\<close>)
      then have "from_cache D chain heads ?c = from_cache D chain heads ?c2" unfolding from2 by (simp add: from_cache_def)
      with w have "whole_cache D chain heads ?c" by (simp add: whole_cache_def)
      with walked(1) show False ..
    qed
    then have "ol2 = ol" using assms(5) walked(2) by (simp add: load_oplog_eq Let_def) (metis fst_conv)
    then show ?thesis by (simp add: same_state_def)
  qed
qed

text \<open>C36: An open after a crash recovers the library: when the heads and the blocks of the oplog were persisted, the entries
  and the derived state come back whole and nothing is rejected, whatever part of the cache the crash lost.\<close>

theorem crash_recovers:
  assumes "cache_run D chain B r" "os_oplog r = Some v" "inj (multihash_of_digest D)" "inj_on (compute_cid_string D) B"
    "same_heads (ol_heads v) (os_heads r)" "wholly_stored D (os_store r) v"
    "load_oplog D chain (os_heads r) (os_store r) (os_disk r) = (ol, loaded, c)"
  shows "mr_rejected loaded = [] \<and> entries_of ol = entries_of v \<and> same_state ol v"
proof -
  note run = cache_run_ok[OF assms(1,3,4), unfolded run_ok_def]
  have v: "log_ok D chain B v" "replica_ok D v" "ol_chain v = chain" "set (blocks_of v) \<subseteq> B" using run assms(2) by (auto simp: log_ok_def)
  let ?blocks = "fst (cache_load (chain_address chain) (os_disk r))"
  have blocks: "set ?blocks \<subseteq> B" using run by (simp add: cache_ok_def)
  have inj: "inj_on (compute_cid_string D) (set (blocks_of v))" "inj_on (compute_cid_string D) (set ?blocks \<union> set (blocks_of v))"
    using assms(4) v(4) blocks by (auto intro: inj_on_subset)
  have again: "mr_rejected (snd (merge_entries D (create_oplog chain) bs)) = []" "entries_of (fst (merge_entries D (create_oplog chain) bs)) = entries_of v"
    "same_state (fst (merge_entries D (create_oplog chain) bs)) v" if "set bs = set (blocks_of v)" for bs
    using reinserted_replica[where admit = "verify_entry D", OF v(2) assms(3) inj(1) _ that] v(3) by (simp_all add: merge_entries_def)
  from assms(7) show ?thesis
  proof (cases rule: load_oplog_cases)
    case (trusted vh)
    have "set (ol_heads ol) = set (ol_heads v)" using same_heads_set[OF trusted(5)] same_heads_set[OF assms(5)] by simp
    with restored_ok(3,4)[OF v(1) assms(3,4) blocks] trusted(3,4) show ?thesis by (metis fst_conv snd_conv)
  next
    case verified
    have "set (ol_heads ol) = set (ol_heads v)" using same_heads_set[OF verified(4)] same_heads_set[OF assms(5)] by simp
    with verifying.reproduced_blocks[OF v(2,3) inj(2), of D ol loaded] verified(2,3)
    have "set ?blocks = set (blocks_of v)" by (simp add: merge_entries_def)
    with again verified(2,3) show ?thesis by (metis fst_conv)
  next
    case walked
    have "set (load_entry_blocks D (os_heads r) (os_store r)) = set (blocks_of v)"
      by (rule load_entry_blocks_exact[OF v(2) assms(6)]) (use same_heads_set[OF assms(5)] in simp)
    with again walked(2) show ?thesis by (metis fst_conv snd_conv)
  qed
qed

section \<open>A sample run\<close>

text \<open>A library is opened empty, receives a block, and its cache, heads and blocks are written.\<close>

definition sample_open :: open_state where
  "sample_open = \<lparr>os_oplog = Some sample_log, os_heads = ol_heads sample_log, os_store = [(he_hash sample_hashed, he_bytes sample_hashed)],
     os_cache = cache_save (chain_address sample_log_chain) (cache_entries (omap_values (ol_entries sample_log))) (ol_heads sample_log)
       (mark_verified (chain_address sample_log_chain) [] empty_cache), os_disk = empty_cache\<rparr>"

lemma merge_nothing: "merge_entries D (create_oplog chain) [] = (create_oplog chain, \<lparr>mr_merged = [], mr_rejected = [], mr_access = \<lparr>ac_inert = [], ac_keys = []\<rparr>\<rparr>)"
  by (simp add: merge_entries_def insert_blocks_def refresh_access_state_def create_oplog_def)

lemma sample_run: "cache_run sample_log_deps sample_log_chain {he_bytes sample_hashed} sample_open"
proof -
  let ?run = "cache_run sample_log_deps sample_log_chain {he_bytes sample_hashed}"
  let ?c = "mark_verified (chain_address sample_log_chain) [] empty_cache"
  let ?st = "\<lambda>ol hs store c. \<lparr>os_oplog = Some ol, os_heads = hs, os_store = store, os_cache = c, os_disk = empty_cache\<rparr>"
  have "load_oplog sample_log_deps sample_log_chain [] [] empty_cache = (create_oplog sample_log_chain, \<lparr>mr_merged = [], mr_rejected = [],
      mr_access = \<lparr>ac_inert = [], ac_keys = []\<rparr>\<rparr>, ?c)"
    by (simp add: load_oplog_def cache_load_def empty_cache_def merge_nothing same_heads_def) (simp add: create_oplog_def)
  with cache_run.opened[OF cache_run.started[of sample_log_deps sample_log_chain "{he_bytes sample_hashed}" "[]"]]
  have "?run (?st (create_oplog sample_log_chain) [] [] ?c)" by simp
  moreover obtain result where "merge_entries sample_log_deps (create_oplog sample_log_chain) [he_bytes sample_hashed] = (sample_log, result)"
    unfolding sample_log_def by (metis prod.collapse)
  ultimately have "?run (?st sample_log [] [] ?c)" by (auto dest: cache_run.merged)
  then have "?run (?st sample_log [] [] (cache_save (chain_address sample_log_chain) (cache_entries (omap_values (ol_entries sample_log))) (ol_heads sample_log) ?c))"
    using cache_run.saved[of sample_log_deps sample_log_chain _ "?st sample_log [] [] ?c" sample_log "omap_values (ol_entries sample_log)"] by simp
  from cache_run.heads_saved[OF cache_run.stored[OF this, of "[(he_hash sample_hashed, he_bytes sample_hashed)]"], of "ol_heads sample_log"]
  show ?thesis by (simp add: sample_open_def)
qed

theorem opened_entries_verified_witness:
  "\<exists>hashed. decode_signed_entry sample_log_deps (he_bytes sample_hashed) = Inr hashed \<and> he_hash hashed = he_hash sample_hashed \<and>
     verify_entry sample_log_deps sample_log hashed = Inr (as_verified sample_hashed sample_del)"
  using opened_entries_verified[OF sample_run _ sample_inj, of sample_log "he_hash sample_hashed" "as_verified sample_hashed sample_del"]
  by (simp add: sample_open_def sample_log_entries)

theorem trusted_open_transparent_witness:
  "\<exists>ol ol2. fst (load_oplog sample_log_deps sample_log_chain (ol_heads sample_log) (os_store sample_open) (os_cache sample_open)) = ol \<and>
     fst (load_oplog sample_log_deps sample_log_chain (ol_heads sample_log) (os_store sample_open) ((os_cache sample_open)\<lparr>ec_verified := []\<rparr>)) = ol2 \<and>
     entries_of ol = entries_of ol2 \<and> same_state ol ol2"
proof -
  have "inj_on (compute_cid_string sample_log_deps) {he_bytes sample_hashed}" by simp
  from trusted_open_transparent[OF sample_run sample_inj this, of "ol_heads sample_log"] show ?thesis by (metis prod.collapse)
qed

theorem crash_recovers_witness:
  "\<exists>ol. fst (load_oplog sample_log_deps sample_log_chain (ol_heads sample_log) (os_store sample_open) empty_cache) = ol \<and>
     entries_of ol = [he_hash sample_hashed \<mapsto> as_verified sample_hashed sample_del]"
proof -
  have inj: "inj_on (compute_cid_string sample_log_deps) {he_bytes sample_hashed}" by simp
  have "wholly_stored sample_log_deps (os_store sample_open) sample_log"
    by (auto simp: wholly_stored_def sample_log_entries sample_open_def sample_hashed_def split: if_splits)
  from crash_recovers[OF sample_run _ sample_inj inj _ this] have "\<And>ol loaded c. load_oplog sample_log_deps sample_log_chain (ol_heads sample_log)
      (os_store sample_open) empty_cache = (ol, loaded, c) \<Longrightarrow> entries_of ol = entries_of sample_log"
    by (simp add: sample_open_def same_heads_def)
  then show ?thesis by (metis prod.collapse sample_log_entries(1))
qed

end
