(* ===== verification/Blob_Keeper.thy ===== *)
theory Blob_Keeper
  imports Prelude
begin

text \<open>
  The fetch scheduler of \<open>create_blob_keeper\<close> (\<open>src/peer/blobs.ts\<close>): which blobs are wanted and by whom, a bounded number of
  fetches in flight, and retries under backoff. A job is an object that the map of jobs and an attempt in
  flight may both refer to, so jobs are kept in a list and named by their position. \<open>bk_ready\<close> is the part of \<open>ready\<close>
  from \<open>ready_at\<close> on; \<open>bk_timer_due\<close> is None when no timer is armed. The holds and releases the keeper asks the library manager
  for are not part of this model. A job is named by a CID string, as in the code, so the statements are about strings, and two spellings of one
  blob are two jobs.
\<close>

section \<open>State\<close>

definition RETRY_FIRST_MS :: int where "RETRY_FIRST_MS = 30000"
definition RETRY_MAX_MS :: int where "RETRY_MAX_MS = 30 * 60000"

record blob_job =
  bj_cid :: string
  bj_libraries :: "(string, nat) omap"
  bj_pinned :: bool
  bj_attempts :: nat
  bj_retry_at :: int

record blob_keeper =
  bk_objects :: "blob_job list"
  bk_jobs :: "(string, nat) omap"
  bk_ready :: "string list"
  bk_waiting :: "string oset"
  bk_running :: "string oset"
  bk_fetching :: "nat list"
  bk_landing :: "nat list"
  bk_generations :: "(string, nat) omap"
  bk_timer_due :: "int option"
  bk_stopped :: bool

definition create_blob_keeper :: blob_keeper where
  "create_blob_keeper = \<lparr>bk_objects = [], bk_jobs = [], bk_ready = [], bk_waiting = [], bk_running = [], bk_fetching = [], bk_landing = [],
     bk_generations = [], bk_timer_due = None, bk_stopped = False\<rparr>"

abbreviation job_at :: "blob_keeper \<Rightarrow> nat \<Rightarrow> blob_job" where
  "job_at k i \<equiv> bk_objects k ! i"

section \<open>Who wants a blob\<close>

definition generation :: "blob_keeper \<Rightarrow> string \<Rightarrow> nat" where
  "generation k library = (case omap_get (bk_generations k) library of None \<Rightarrow> 0 | Some g \<Rightarrow> g)"

definition current_libraries :: "blob_keeper \<Rightarrow> blob_job \<Rightarrow> string list" where
  "current_libraries k job = map fst (List.filter (\<lambda>(address, asked). generation k address = asked) (bj_libraries job))"

text \<open>\<open>paused\<close> holds of the libraries whose replicator is paused.\<close>

definition wanted_now :: "(string \<Rightarrow> bool) \<Rightarrow> blob_keeper \<Rightarrow> blob_job \<Rightarrow> bool" where
  "wanted_now paused k job = (bj_pinned job \<or> list_ex (\<lambda>address. \<not> paused address) (current_libraries k job))"

definition forget_if_unowned :: "nat \<Rightarrow> blob_keeper \<Rightarrow> blob_keeper" where
  "forget_if_unowned i k = (let job = job_at k i in
     if bj_pinned job \<or> current_libraries k job \<noteq> [] then k
     else k\<lparr>bk_jobs := omap_delete (bj_cid job) (bk_jobs k), bk_waiting := oset_delete (bj_cid job) (bk_waiting k)\<rparr>)"

section \<open>Fetching\<close>

definition schedule :: "int \<Rightarrow> blob_keeper \<Rightarrow> blob_keeper" where
  "schedule due k = (if bk_stopped k \<or> (case bk_timer_due k of None \<Rightarrow> False | Some d \<Rightarrow> due \<ge> d) then k else k\<lparr>bk_timer_due := Some due\<rparr>)"

text \<open>\<open>run\<close> up to the await of the fetch.\<close>

definition run_job :: "nat \<Rightarrow> blob_keeper \<Rightarrow> blob_keeper" where
  "run_job i k = k\<lparr>bk_running := oset_add (bj_cid (job_at k i)) (bk_running k), bk_fetching := bk_fetching k @ [i]\<rparr>"

fun pump_from :: "(string \<Rightarrow> bool) \<Rightarrow> nat \<Rightarrow> string list \<Rightarrow> blob_keeper \<Rightarrow> blob_keeper" where
  "pump_from paused n [] k = k\<lparr>bk_ready := []\<rparr>"
| "pump_from paused n (cid # rest) k =
     (if length (bk_running k) < n then
        (case omap_get (bk_jobs k) cid of
           None \<Rightarrow> pump_from paused n rest k
         | Some i \<Rightarrow>
             if cid \<in> set (bk_running k) then pump_from paused n rest k
             else let k1 = forget_if_unowned i k in
               if \<not> omap_has (bk_jobs k1) cid then pump_from paused n rest k1
               else if \<not> wanted_now paused k1 (job_at k1 i) then pump_from paused n rest (k1\<lparr>bk_waiting := oset_add cid (bk_waiting k1)\<rparr>)
               else pump_from paused n rest (run_job i k1))
      else k\<lparr>bk_ready := cid # rest\<rparr>)"

definition pump_blobs :: "(string \<Rightarrow> bool) \<Rightarrow> nat \<Rightarrow> blob_keeper \<Rightarrow> blob_keeper" where
  "pump_blobs paused n k = (if bk_stopped k then k else pump_from paused n (bk_ready k) k)"

definition retry_delay :: "nat \<Rightarrow> int" where
  "retry_delay attempts = min (RETRY_FIRST_MS * 2 ^ (attempts - 1)) RETRY_MAX_MS"

text \<open>The end of an attempt, whatever came of it.\<close>

definition attempt_over :: "(string \<Rightarrow> bool) \<Rightarrow> nat \<Rightarrow> nat \<Rightarrow> blob_keeper \<Rightarrow> blob_keeper" where
  "attempt_over paused n i k = pump_blobs paused n (k\<lparr>bk_running := oset_delete (bj_cid (job_at k i)) (bk_running k),
     bk_fetching := remove1 i (bk_fetching k), bk_landing := remove1 i (bk_landing k)\<rparr>)"

definition attempt_failed :: "(string \<Rightarrow> bool) \<Rightarrow> nat \<Rightarrow> int \<Rightarrow> nat \<Rightarrow> blob_keeper \<Rightarrow> blob_keeper" where
  "attempt_failed paused n now i k =
     (let job = job_at k i;
          job' = job\<lparr>bj_attempts := bj_attempts job + 1, bj_retry_at := now + retry_delay (bj_attempts job + 1)\<rparr>
      in attempt_over paused n i (schedule (bj_retry_at job') (k\<lparr>bk_objects := (bk_objects k)[i := job'],
           bk_waiting := oset_add (bj_cid job) (bk_waiting k)\<rparr>)))"

text \<open>A fetch that found every block: the job is forgotten and its blob is being held.\<close>

definition attempt_fetched :: "(string \<Rightarrow> bool) \<Rightarrow> nat \<Rightarrow> int \<Rightarrow> nat \<Rightarrow> blob_keeper \<Rightarrow> blob_keeper" where
  "attempt_fetched paused n now i k = (if bk_stopped k then attempt_failed paused n now i k
     else k\<lparr>bk_jobs := omap_delete (bj_cid (job_at k i)) (bk_jobs k), bk_fetching := remove1 i (bk_fetching k), bk_landing := bk_landing k @ [i]\<rparr>)"

section \<open>Requests\<close>

definition want :: "string \<Rightarrow> string option \<Rightarrow> bool \<Rightarrow> blob_keeper \<Rightarrow> blob_keeper" where
  "want cid library pinned k =
     (let existing = omap_get (bk_jobs k) cid;
          job = (case existing of None \<Rightarrow> \<lparr>bj_cid = cid, bj_libraries = [], bj_pinned = False, bj_attempts = 0, bj_retry_at = 0\<rparr> | Some i \<Rightarrow> job_at k i);
          job' = job\<lparr>bj_libraries := (case library of None \<Rightarrow> bj_libraries job | Some a \<Rightarrow> omap_set a (generation k a) (bj_libraries job)),
                   bj_pinned := (bj_pinned job \<or> pinned)\<rparr>
      in case existing of
           Some i \<Rightarrow> k\<lparr>bk_objects := (bk_objects k)[i := job']\<rparr>
         | None \<Rightarrow> k\<lparr>bk_objects := bk_objects k @ [job'], bk_jobs := omap_set cid (length (bk_objects k)) (bk_jobs k), bk_ready := bk_ready k @ [cid]\<rparr>)"

text \<open>\<open>policy_changed\<close> starts a new generation of a library.\<close>

definition bump_generation :: "string \<Rightarrow> blob_keeper \<Rightarrow> blob_keeper" where
  "bump_generation library k = k\<lparr>bk_generations := omap_set library (generation k library + 1) (bk_generations k)\<rparr>"

text \<open>\<open>sync_pins\<close> for a pin that was removed.\<close>

definition unpin_job :: "string \<Rightarrow> blob_keeper \<Rightarrow> blob_keeper" where
  "unpin_job cid k = (case omap_get (bk_jobs k) cid of
     None \<Rightarrow> k
   | Some i \<Rightarrow> forget_if_unowned i (k\<lparr>bk_objects := (bk_objects k)[i := (job_at k i)\<lparr>bj_pinned := False\<rparr>]\<rparr>))"

section \<open>Retries\<close>

text \<open>One waiting blob when the timer fires, with the earliest retry left.\<close>

definition due_step :: "(string \<Rightarrow> bool) \<Rightarrow> int \<Rightarrow> string \<Rightarrow> blob_keeper \<times> int option \<Rightarrow> blob_keeper \<times> int option" where
  "due_step paused now cid state = (case state of (k, next) \<Rightarrow> (case omap_get (bk_jobs k) cid of
     None \<Rightarrow> (k\<lparr>bk_waiting := oset_delete cid (bk_waiting k)\<rparr>, next)
   | Some i \<Rightarrow>
       if bj_retry_at (job_at k i) > now then (k, Some (case next of None \<Rightarrow> bj_retry_at (job_at k i) | Some d \<Rightarrow> min d (bj_retry_at (job_at k i))))
       else if wanted_now paused k (job_at k i)
       then (k\<lparr>bk_waiting := oset_delete cid (bk_waiting k), bk_ready := bk_ready k @ [cid]\<rparr>, next) else (k, next)))"

definition on_retry_timer :: "(string \<Rightarrow> bool) \<Rightarrow> nat \<Rightarrow> int \<Rightarrow> blob_keeper \<Rightarrow> blob_keeper" where
  "on_retry_timer paused n now k =
     (let (k1, next) = fold (due_step paused now) (bk_waiting k) (k\<lparr>bk_timer_due := None\<rparr>, None);
          k2 = pump_blobs paused n k1
      in case next of None \<Rightarrow> k2 | Some due \<Rightarrow> schedule due k2)"

definition reset_retry :: "string \<Rightarrow> blob_keeper \<Rightarrow> blob_keeper" where
  "reset_retry cid k = (case omap_get (bk_jobs k) cid of
     None \<Rightarrow> k
   | Some i \<Rightarrow> k\<lparr>bk_objects := (bk_objects k)[i := (job_at k i)\<lparr>bj_retry_at := 0\<rparr>]\<rparr>)"

definition retry_blobs :: "(string \<Rightarrow> bool) \<Rightarrow> nat \<Rightarrow> blob_keeper \<Rightarrow> blob_keeper" where
  "retry_blobs paused n k =
     (let k1 = fold reset_retry (bk_waiting k) k
      in pump_blobs paused n (k1\<lparr>bk_ready := bk_ready k1 @ bk_waiting k1, bk_waiting := []\<rparr>))"

definition stop_keeper :: "blob_keeper \<Rightarrow> blob_keeper" where
  "stop_keeper k = k\<lparr>bk_stopped := True, bk_timer_due := None, bk_jobs := [], bk_ready := [], bk_waiting := []\<rparr>"

section \<open>Runs\<close>

text \<open>Events in any order, each with its own view of which libraries are paused; the clock only moves forward.\<close>

inductive blob_run :: "nat \<Rightarrow> int \<Rightarrow> blob_keeper \<Rightarrow> bool" for n where
  created: "0 \<le> now \<Longrightarrow> blob_run n now create_blob_keeper"
| clock: "blob_run n now k \<Longrightarrow> now \<le> now' \<Longrightarrow> blob_run n now' k"
| wanted: "blob_run n now k \<Longrightarrow> blob_run n now (want cid library pinned k)"
| pumped: "blob_run n now k \<Longrightarrow> blob_run n now (pump_blobs paused n k)"
| fetched: "blob_run n now k \<Longrightarrow> i \<in> set (bk_fetching k) \<Longrightarrow> blob_run n now (attempt_fetched paused n now i k)"
| failed: "blob_run n now k \<Longrightarrow> i \<in> set (bk_fetching k) \<Longrightarrow> blob_run n now (attempt_failed paused n now i k)"
| over: "blob_run n now k \<Longrightarrow> i \<in> set (bk_fetching k) \<union> set (bk_landing k) \<Longrightarrow> blob_run n now (attempt_over paused n i k)"
| fired: "blob_run n now k \<Longrightarrow> bk_timer_due k = Some due \<Longrightarrow> due \<le> now \<Longrightarrow> blob_run n now (on_retry_timer paused n now k)"
| retried: "blob_run n now k \<Longrightarrow> blob_run n now (retry_blobs paused n k)"
| policy: "blob_run n now k \<Longrightarrow> blob_run n now (bump_generation library k)"
| unpinned: "blob_run n now k \<Longrightarrow> blob_run n now (unpin_job cid k)"
| halted: "blob_run n now k \<Longrightarrow> blob_run n now (stop_keeper k)"

section \<open>The invariant\<close>

abbreviation cid_at :: "blob_keeper \<Rightarrow> nat \<Rightarrow> string" where
  "cid_at k i \<equiv> bj_cid (job_at k i)"

text \<open>One attempt per running blob, within the limit, on jobs that exist.\<close>

definition slots_ok :: "nat \<Rightarrow> blob_keeper \<Rightarrow> bool" where
  "slots_ok n k \<longleftrightarrow> (\<forall>cid i. omap_get (bk_jobs k) cid = Some i \<longrightarrow> i < length (bk_objects k) \<and> cid_at k i = cid) \<and>
     distinct (bk_fetching k @ bk_landing k) \<and> set (bk_fetching k @ bk_landing k) \<subseteq> {..<length (bk_objects k)} \<and>
     inj_on (cid_at k) (set (bk_fetching k @ bk_landing k)) \<and> set (bk_running k) = cid_at k ` set (bk_fetching k @ bk_landing k) \<and>
     distinct (bk_running k) \<and> length (bk_running k) \<le> n"

text \<open>A job whose retry is still to come waits, with a timer armed in time.\<close>

definition retries_ok :: "int \<Rightarrow> blob_keeper \<Rightarrow> bool" where
  "retries_ok now k \<longleftrightarrow> (\<forall>cid i. omap_get (bk_jobs k) cid = Some i \<and> now < bj_retry_at (job_at k i) \<longrightarrow>
     cid \<in> set (bk_waiting k) \<and> (\<not> bk_stopped k \<longrightarrow> (\<exists>d. bk_timer_due k = Some d \<and> d \<le> bj_retry_at (job_at k i))))"

lemma slots_okD:
  assumes "slots_ok n k"
  shows "omap_get (bk_jobs k) cid = Some i \<Longrightarrow> i < length (bk_objects k)" "omap_get (bk_jobs k) cid = Some i \<Longrightarrow> cid_at k i = cid"
    "distinct (bk_running k)" "length (bk_running k) \<le> n"
  using assms by (simp_all add: slots_ok_def)

lemma forget_fields [simp]:
  "bk_objects (forget_if_unowned i k) = bk_objects k" "bk_running (forget_if_unowned i k) = bk_running k"
  "bk_fetching (forget_if_unowned i k) = bk_fetching k" "bk_landing (forget_if_unowned i k) = bk_landing k"
  "bk_timer_due (forget_if_unowned i k) = bk_timer_due k" "bk_stopped (forget_if_unowned i k) = bk_stopped k"
  "bk_generations (forget_if_unowned i k) = bk_generations k"
  by (simp_all add: forget_if_unowned_def Let_def)

lemma forget_jobs: "omap_get (bk_jobs (forget_if_unowned i k)) cid = Some j \<Longrightarrow>
    omap_get (bk_jobs k) cid = Some j \<and> (cid \<in> set (bk_waiting k) \<longrightarrow> cid \<in> set (bk_waiting (forget_if_unowned i k)))"
  by (auto simp: forget_if_unowned_def Let_def ordered_simps split: if_splits)

lemma forget_ok: "slots_ok n k \<Longrightarrow> slots_ok n (forget_if_unowned i k)" "retries_ok now k \<Longrightarrow> retries_ok now (forget_if_unowned i k)"
proof -
  show "slots_ok n k \<Longrightarrow> slots_ok n (forget_if_unowned i k)" using forget_jobs[of i k] by (auto simp: slots_ok_def)
  show "retries_ok now (forget_if_unowned i k)" if ok: "retries_ok now k"
    unfolding retries_ok_def forget_fields
  proof (intro allI impI, elim conjE)
    fix cid j assume "omap_get (bk_jobs (forget_if_unowned i k)) cid = Some j" "now < bj_retry_at (job_at k j)"
    with forget_jobs[OF this(1)] ok show "cid \<in> set (bk_waiting (forget_if_unowned i k)) \<and>
        (\<not> bk_stopped k \<longrightarrow> (\<exists>d. bk_timer_due k = Some d \<and> d \<le> bj_retry_at (job_at k j)))" unfolding retries_ok_def by blast
  qed
qed

lemma run_job_ok:
  assumes "slots_ok n k" "omap_get (bk_jobs k) cid = Some i" "cid \<notin> set (bk_running k)" "length (bk_running k) < n"
  shows "slots_ok n (run_job i k)"
proof -
  note c = slots_okD(1,2)[OF assms(1,2)]
  have new: "i \<notin> set (bk_fetching k @ bk_landing k)" "cid \<notin> cid_at k ` set (bk_fetching k @ bk_landing k)"
    using assms(1,3) c(2) unfolding slots_ok_def by auto
  let ?A = "set (bk_fetching k @ bk_landing k)"
  have inj: "inj_on (cid_at k) (insert i ?A)" using assms(1) c(2) new unfolding slots_ok_def inj_on_insert by simp
  have fields: "bk_objects (run_job i k) = bk_objects k" "bk_jobs (run_job i k) = bk_jobs k" "bk_landing (run_job i k) = bk_landing k"
    "bk_fetching (run_job i k) = bk_fetching k @ [i]" "bk_running (run_job i k) = bk_running k @ [cid]"
    using assms(3) c(2) by (simp_all add: run_job_def oset_add_def)
  have "set (bk_fetching (run_job i k) @ bk_landing (run_job i k)) = insert i ?A" "distinct (bk_fetching (run_job i k) @ bk_landing (run_job i k))"
    using new(1) assms(1) by (auto simp: fields slots_ok_def)
  then show ?thesis unfolding slots_ok_def fields(1,2) using inj assms(1,3,4) c by (auto simp: slots_ok_def fields(5))
qed

lemma pump_from_ok:
  assumes "slots_ok n k" "retries_ok now k"
  shows "slots_ok n (pump_from paused n cids k) \<and> retries_ok now (pump_from paused n cids k)"
  using assms
proof (induction cids arbitrary: k)
  case Nil
  then show ?case by (simp add: slots_ok_def retries_ok_def)
next
  case (Cons cid cids)
  show ?case
  proof (cases "length (bk_running k) < n")
    case False
    then show ?thesis using Cons.prems by (simp add: slots_ok_def retries_ok_def)
  next
    case room: True
    show ?thesis
    proof (cases "omap_get (bk_jobs k) cid")
      case None
      then show ?thesis using Cons room by simp
    next
      case (Some i)
      show ?thesis
      proof (cases "cid \<in> set (bk_running k)")
        case True
        then show ?thesis using Cons Some room by simp
      next
        case idle: False
        let ?k = "forget_if_unowned i k"
        note f = forget_ok(1)[OF Cons.prems(1), of i] forget_ok(2)[OF Cons.prems(2), of i]
        consider "\<not> omap_has (bk_jobs ?k) cid" | "omap_has (bk_jobs ?k) cid" "\<not> wanted_now paused ?k (job_at ?k i)"
          | "omap_has (bk_jobs ?k) cid" "wanted_now paused ?k (job_at ?k i)" by blast
        then show ?thesis
        proof cases
          case 1
          then show ?thesis using Cons.IH[OF f] Some room idle by (auto simp: Let_def)
        next
          case 2
          let ?w = "?k\<lparr>bk_waiting := oset_add cid (bk_waiting ?k)\<rparr>"
          have "slots_ok n ?w" "retries_ok now ?w" using f by (auto simp: slots_ok_def retries_ok_def)
          from Cons.IH[OF this] 2 Some room idle show ?thesis by (auto simp: Let_def)
        next
          case 3
          then have get: "omap_get (bk_jobs ?k) cid = Some i" using forget_jobs[of i k cid] Some by (auto simp: omap_has_iff)
          have "slots_ok n (run_job i ?k)" by (rule run_job_ok[OF f(1) get]) (use idle room in simp_all)
          moreover have "retries_ok now (run_job i ?k)" using f(2) by (simp add: retries_ok_def run_job_def)
          ultimately show ?thesis using Cons.IH[of "run_job i ?k"] 3 Some room idle by (auto simp: Let_def)
        qed
      qed
    qed
  qed
qed

lemma pump_blobs_ok: "slots_ok n k \<Longrightarrow> retries_ok now k \<Longrightarrow> slots_ok n (pump_blobs paused n k) \<and> retries_ok now (pump_blobs paused n k)"
  using pump_from_ok by (simp add: pump_blobs_def)

lemma schedule_ok: "slots_ok n (schedule due k) = slots_ok n k"
  by (simp add: schedule_def slots_ok_def)

lemma schedule_armed: "\<not> bk_stopped k \<Longrightarrow> \<exists>d. bk_timer_due (schedule due k) = Some d \<and> d \<le> due"
  by (auto simp: schedule_def split: option.splits)

lemma schedule_earlier: "bk_timer_due k = Some d \<Longrightarrow> \<exists>d'. bk_timer_due (schedule due k) = Some d' \<and> d' \<le> d"
  by (auto simp: schedule_def)

lemma schedule_fields [simp]:
  "bk_jobs (schedule due k) = bk_jobs k" "bk_objects (schedule due k) = bk_objects k" "bk_waiting (schedule due k) = bk_waiting k"
  "bk_stopped (schedule due k) = bk_stopped k"
  by (simp_all add: schedule_def)

lemma schedule_retries: "retries_ok now k \<Longrightarrow> retries_ok now (schedule due k)"
  using schedule_earlier[of k _ due] unfolding retries_ok_def by (auto intro: order_trans) (meson order_trans)

lemma nth_update_field: "f x = f (xs ! i) \<Longrightarrow> f (xs[i := x] ! j) = f (xs ! j)"
  by (cases "i < length xs"; cases "i = j") (simp_all add: not_less list_update_beyond)

lemma slots_replace:
  assumes "slots_ok n k" "bj_cid job = cid_at k i"
  shows "slots_ok n (k\<lparr>bk_objects := (bk_objects k)[i := job]\<rparr>)"
proof -
  have eq: "bj_cid ((bk_objects k)[i := job] ! j) = cid_at k j" for j by (rule nth_update_field[where f = bj_cid, OF assms(2)])
  show ?thesis using assms(1) unfolding slots_ok_def by (simp add: eq)
qed

lemma attempt_over_ok:
  assumes "slots_ok n k" "retries_ok now k" "i \<in> set (bk_fetching k) \<union> set (bk_landing k)"
  shows "slots_ok n (attempt_over paused n i k) \<and> retries_ok now (attempt_over paused n i k)"
proof -
  let ?k = "k\<lparr>bk_running := oset_delete (cid_at k i) (bk_running k), bk_fetching := remove1 i (bk_fetching k), bk_landing := remove1 i (bk_landing k)\<rparr>"
  let ?A = "set (bk_fetching k @ bk_landing k)"
  have d: "distinct (bk_fetching k @ bk_landing k)" "inj_on (cid_at k) ?A" "set (bk_running k) = cid_at k ` ?A" using assms(1) by (simp_all add: slots_ok_def)
  have A: "set (remove1 i (bk_fetching k) @ remove1 i (bk_landing k)) = ?A - {i}" "distinct (remove1 i (bk_fetching k) @ remove1 i (bk_landing k))"
    using d(1) by (auto simp: set_remove1_eq distinct_remove1)
  have "set (oset_delete (cid_at k i) (bk_running k)) = cid_at k ` (?A - {i})" using d(2,3) assms(3) by (auto simp: inj_on_def)
  moreover have "length (oset_delete (cid_at k i) (bk_running k)) \<le> n"
    unfolding oset_delete_def removeAll_filter_not_eq by (rule order_trans[OF length_filter_le slots_okD(4)[OF assms(1)]])
  moreover have "inj_on (cid_at k) (?A - {i})" using d(2) by (rule inj_on_subset) auto
  ultimately have "slots_ok n ?k" using assms(1) A unfolding slots_ok_def by auto
  moreover have "retries_ok now ?k" using assms(2) by (simp add: retries_ok_def)
  ultimately show ?thesis unfolding attempt_over_def by (rule pump_blobs_ok)
qed

lemma attempt_failed_ok:
  assumes "slots_ok n k" "retries_ok now k" "i \<in> set (bk_fetching k)"
  shows "slots_ok n (attempt_failed paused n now i k) \<and> retries_ok now (attempt_failed paused n now i k)"
proof -
  define job where "job = (job_at k i)\<lparr>bj_attempts := bj_attempts (job_at k i) + 1, bj_retry_at := now + retry_delay (bj_attempts (job_at k i) + 1)\<rparr>"
  define k1 where "k1 = k\<lparr>bk_objects := (bk_objects k)[i := job], bk_waiting := oset_add (cid_at k i) (bk_waiting k)\<rparr>"
  have "slots_ok n (k\<lparr>bk_objects := (bk_objects k)[i := job]\<rparr>)" by (rule slots_replace[OF assms(1)]) (simp add: job_def)
  then have s: "slots_ok n (schedule (bj_retry_at job) k1)" unfolding schedule_ok by (simp add: k1_def slots_ok_def)
  have "retries_ok now (schedule (bj_retry_at job) k1)"
    unfolding retries_ok_def schedule_fields
  proof (intro allI impI, elim conjE)
    fix cid j assume j: "omap_get (bk_jobs k1) cid = Some j" "now < bj_retry_at (job_at k1 j)"
    then have get: "omap_get (bk_jobs k) cid = Some j" by (simp add: k1_def)
    show "cid \<in> set (bk_waiting k1) \<and> (\<not> bk_stopped k1 \<longrightarrow> (\<exists>d. bk_timer_due (schedule (bj_retry_at job) k1) = Some d \<and> d \<le> bj_retry_at (job_at k1 j)))"
    proof (cases "j = i")
      case True
      then have "job_at k1 j = job" using slots_okD(1)[OF assms(1) get] by (simp add: k1_def)
      then show ?thesis using True slots_okD(2)[OF assms(1) get] schedule_armed[of k1 "bj_retry_at job"] by (simp add: k1_def)
    next
      case False
      then have same: "job_at k1 j = job_at k j" by (simp add: k1_def)
      with assms(2) get j(2) have w: "cid \<in> set (bk_waiting k)" "\<not> bk_stopped k \<Longrightarrow> \<exists>d. bk_timer_due k = Some d \<and> d \<le> bj_retry_at (job_at k j)"
        by (auto simp: retries_ok_def)
      have "\<exists>d. bk_timer_due (schedule (bj_retry_at job) k1) = Some d \<and> d \<le> bj_retry_at (job_at k j)" if "\<not> bk_stopped k"
        using w(2)[OF that] schedule_earlier[of k1 _ "bj_retry_at job"] by (force simp: k1_def intro: order_trans)
      with w(1) same show ?thesis by (simp add: k1_def)
    qed
  qed
  from attempt_over_ok[OF s this, of i paused] assms(3) show ?thesis
    by (simp add: attempt_failed_def Let_def job_def[symmetric] k1_def[symmetric]) (simp add: k1_def job_def schedule_def)
qed

lemma attempt_fetched_ok:
  assumes "slots_ok n k" "retries_ok now k" "i \<in> set (bk_fetching k)"
  shows "slots_ok n (attempt_fetched paused n now i k) \<and> retries_ok now (attempt_fetched paused n now i k)"
proof (cases "bk_stopped k")
  case True
  then show ?thesis using attempt_failed_ok[OF assms] by (simp add: attempt_fetched_def)
next
  case False
  have d: "distinct (bk_fetching k @ bk_landing k)" using assms(1) by (simp add: slots_ok_def)
  have "set (remove1 i (bk_fetching k) @ bk_landing k @ [i]) = set (bk_fetching k @ bk_landing k)" "distinct (remove1 i (bk_fetching k) @ bk_landing k @ [i])"
    using d assms(3) by (auto simp: set_remove1_eq distinct_remove1)
  then show ?thesis using assms(1,2) False unfolding attempt_fetched_def slots_ok_def retries_ok_def by (auto simp: ordered_simps split: if_splits)
qed

lemma want_ok:
  assumes "slots_ok n k" "retries_ok now k" "0 \<le> now"
  shows "slots_ok n (want cid library pinned k) \<and> retries_ok now (want cid library pinned k)"
proof (cases "omap_get (bk_jobs k) cid")
  case (Some i)
  define job where "job = (job_at k i)\<lparr>bj_libraries := (case library of None \<Rightarrow> bj_libraries (job_at k i) | Some a \<Rightarrow> omap_set a (generation k a) (bj_libraries (job_at k i))),
      bj_pinned := (bj_pinned (job_at k i) \<or> pinned)\<rparr>"
  have w: "want cid library pinned k = k\<lparr>bk_objects := (bk_objects k)[i := job]\<rparr>" unfolding want_def Some Let_def option.case job_def ..
  have "bj_retry_at ((bk_objects k)[i := job] ! j) = bj_retry_at (job_at k j)" for j
    by (rule nth_update_field) (simp add: job_def)
  then have "retries_ok now (want cid library pinned k)" using assms(2) by (simp add: w retries_ok_def)
  with slots_replace[OF assms(1), of job i] show ?thesis by (simp add: w job_def)
next
  case None
  define job where "job = \<lparr>bj_cid = cid, bj_libraries = (case library of None \<Rightarrow> [] | Some a \<Rightarrow> omap_set a (generation k a) []),
      bj_pinned = pinned, bj_attempts = 0, bj_retry_at = 0\<rparr>"
  have w: "want cid library pinned k = k\<lparr>bk_objects := bk_objects k @ [job], bk_jobs := omap_set cid (length (bk_objects k)) (bk_jobs k), bk_ready := bk_ready k @ [cid]\<rparr>"
    unfolding want_def None Let_def option.case job_def by (simp split: option.split)
  have old: "(bk_objects k @ [job]) ! j = job_at k j" if "j < length (bk_objects k)" for j using that by (simp add: nth_append)
  let ?A = "set (bk_fetching k @ bk_landing k)" and ?k = "want cid library pinned k"
  have A: "?A \<subseteq> {..<length (bk_objects k)}" using assms(1) by (simp add: slots_ok_def)
  have fields: "bk_fetching ?k = bk_fetching k" "bk_landing ?k = bk_landing k" "bk_running ?k = bk_running k"
    "bk_objects ?k = bk_objects k @ [job]" "bk_jobs ?k = omap_set cid (length (bk_objects k)) (bk_jobs k)" by (simp_all add: w)
  have "inj_on (cid_at ?k) ?A = inj_on (cid_at k) ?A" by (rule inj_on_cong) (use A old in \<open>auto simp: fields\<close>)
  moreover have "cid_at ?k ` ?A = cid_at k ` ?A" by (rule image_cong) (use A old in \<open>auto simp: fields\<close>)
  moreover have "\<forall>c i. omap_get (bk_jobs ?k) c = Some i \<longrightarrow> i < length (bk_objects ?k) \<and> cid_at ?k i = c"
  proof (intro allI impI)
    fix c i assume c: "omap_get (bk_jobs ?k) c = Some i"
    show "i < length (bk_objects ?k) \<and> cid_at ?k i = c"
    proof (cases "c = cid")
      case True
      then show ?thesis using c by (simp add: fields ordered_simps job_def nth_append)
    next
      case False
      then have "omap_get (bk_jobs k) c = Some i" using c by (simp add: fields ordered_simps)
      from slots_okD(1,2)[OF assms(1) this] show ?thesis by (simp add: fields nth_append)
    qed
  qed
  ultimately have "slots_ok n ?k" using assms(1) A unfolding slots_ok_def fields(1-3) by (auto simp: fields(4))
  moreover have "retries_ok now (want cid library pinned k)"
    using assms(2,3) slots_okD(1)[OF assms(1)] unfolding w retries_ok_def by (auto simp: ordered_simps job_def nth_append split: if_splits)
  ultimately show ?thesis ..
qed

lemma unpin_ok:
  assumes "slots_ok n k" "retries_ok now k"
  shows "slots_ok n (unpin_job cid k) \<and> retries_ok now (unpin_job cid k)"
proof (cases "omap_get (bk_jobs k) cid")
  case (Some i)
  let ?job = "(job_at k i)\<lparr>bj_pinned := False\<rparr>"
  let ?k = "k\<lparr>bk_objects := (bk_objects k)[i := ?job]\<rparr>"
  have "bj_retry_at ((bk_objects k)[i := ?job] ! j) = bj_retry_at (job_at k j)" for j
    by (rule nth_update_field) simp
  then have "retries_ok now ?k" using assms(2) by (simp add: retries_ok_def)
  moreover have "slots_ok n ?k" by (rule slots_replace[OF assms(1)]) simp
  ultimately show ?thesis using forget_ok[of n ?k i] forget_ok(2)[of now ?k i] by (simp add: unpin_job_def Some)
qed (use assms in \<open>simp add: unpin_job_def\<close>)

lemma reset_retry_ok:
  assumes "slots_ok n k" "retries_ok now k" "0 \<le> now"
  shows "slots_ok n (reset_retry cid k) \<and> retries_ok now (reset_retry cid k) \<and> bk_waiting (reset_retry cid k) = bk_waiting k \<and>
    (\<forall>c i. omap_get (bk_jobs (reset_retry cid k)) c = Some i \<longrightarrow> omap_get (bk_jobs k) c = Some i \<and>
       (now < bj_retry_at (job_at (reset_retry cid k) i) \<longrightarrow> now < bj_retry_at (job_at k i) \<and> c \<noteq> cid))"
proof (cases "omap_get (bk_jobs k) cid")
  case (Some i)
  let ?job = "(job_at k i)\<lparr>bj_retry_at := 0\<rparr>"
  have i: "i < length (bk_objects k)" by (rule slots_okD(1)[OF assms(1) Some])
  have r: "reset_retry cid k = k\<lparr>bk_objects := (bk_objects k)[i := ?job]\<rparr>" by (simp add: reset_retry_def Some)
  have at: "bj_retry_at ((bk_objects k)[i := ?job] ! j) = (if j = i then 0 else bj_retry_at (job_at k j))" for j using i by simp
  have "slots_ok n (reset_retry cid k)" unfolding r by (rule slots_replace[OF assms(1)]) simp
  moreover have "retries_ok now (reset_retry cid k)" using assms(2,3) unfolding r retries_ok_def by (auto simp: at)
  ultimately show ?thesis using assms(3) Some by (auto simp: r at split: if_splits)
qed (use assms in \<open>auto simp: reset_retry_def\<close>)

lemma reset_retries_ok:
  assumes "slots_ok n k" "retries_ok now k" "0 \<le> now"
  shows "slots_ok n (fold reset_retry cids k) \<and> bk_waiting (fold reset_retry cids k) = bk_waiting k \<and>
    (\<forall>c i. omap_get (bk_jobs (fold reset_retry cids k)) c = Some i \<and> now < bj_retry_at (job_at (fold reset_retry cids k) i) \<longrightarrow>
       omap_get (bk_jobs k) c = Some i \<and> now < bj_retry_at (job_at k i) \<and> c \<in> set (bk_waiting k) - set cids)"
  using assms
proof (induction cids arbitrary: k)
  case Nil
  then show ?case by (auto simp: retries_ok_def)
next
  case (Cons cid cids)
  note step = reset_retry_ok[OF Cons.prems, of cid]
  from step have "slots_ok n (reset_retry cid k)" "retries_ok now (reset_retry cid k)" by simp_all
  note IH = Cons.IH[OF this Cons.prems(3)]
  show ?case using IH step by auto
qed

lemma retry_ok:
  assumes "slots_ok n k" "retries_ok now k" "0 \<le> now"
  shows "slots_ok n (retry_blobs paused n k) \<and> retries_ok now (retry_blobs paused n k)"
proof -
  note r = reset_retries_ok[OF assms, of "bk_waiting k"]
  let ?f = "fold reset_retry (bk_waiting k) k"
  let ?k = "?f\<lparr>bk_ready := bk_ready ?f @ bk_waiting ?f, bk_waiting := []\<rparr>"
  have "slots_ok n ?k" using r by (simp add: slots_ok_def)
  moreover have "retries_ok now ?k" using r by (auto simp: retries_ok_def)
  ultimately show ?thesis unfolding retry_blobs_def Let_def by (rule pump_blobs_ok)
qed

text \<open>What one pass over the waiting blobs keeps, and the bound it computes.\<close>

lemma due_steps:
  assumes "fold (due_step paused now) cids (k, next) = (k', next')"
  shows "bk_jobs k' = bk_jobs k \<and> bk_objects k' = bk_objects k \<and> bk_timer_due k' = bk_timer_due k \<and> bk_stopped k' = bk_stopped k \<and>
    bk_fetching k' = bk_fetching k \<and> bk_landing k' = bk_landing k \<and> bk_running k' = bk_running k \<and>
    (\<forall>d. next = Some d \<longrightarrow> (\<exists>d'. next' = Some d' \<and> d' \<le> d)) \<and>
    (\<forall>cid i. omap_get (bk_jobs k) cid = Some i \<and> now < bj_retry_at (job_at k i) \<longrightarrow>
      (cid \<in> set (bk_waiting k) \<longrightarrow> cid \<in> set (bk_waiting k')) \<and> (cid \<in> set cids \<longrightarrow> (\<exists>d. next' = Some d \<and> d \<le> bj_retry_at (job_at k i))))"
  using assms
proof (induction cids arbitrary: k "next")
  case (Cons cid cids)
  obtain k1 next1 where s: "due_step paused now cid (k, next) = (k1, next1)" by fastforce
  then have same: "bk_jobs k1 = bk_jobs k" "bk_objects k1 = bk_objects k" "bk_timer_due k1 = bk_timer_due k" "bk_stopped k1 = bk_stopped k"
    "bk_fetching k1 = bk_fetching k" "bk_landing k1 = bk_landing k" "bk_running k1 = bk_running k"
    by (auto simp: due_step_def split: option.splits if_splits)
  have less: "\<exists>d'. next1 = Some d' \<and> d' \<le> d" if "next = Some d" for d
    using s that by (auto simp: due_step_def split: option.splits if_splits)
  have one: "(c \<in> set (bk_waiting k) \<longrightarrow> c \<in> set (bk_waiting k1)) \<and> (c = cid \<longrightarrow> (\<exists>d. next1 = Some d \<and> d \<le> bj_retry_at (job_at k i)))"
    if "omap_get (bk_jobs k) c = Some i" "now < bj_retry_at (job_at k i)" for c i
    using s that by (auto simp: due_step_def split: option.splits if_splits)
  have rest: "fold (due_step paused now) cids (k1, next1) = (k', next')" using Cons.prems s by simp
  note IH = Cons.IH[OF rest, unfolded same]
  have "\<exists>d'. next' = Some d' \<and> d' \<le> d" if "next = Some d" for d using IH less[OF that] by (blast intro: order_trans)
  moreover have "(c \<in> set (bk_waiting k) \<longrightarrow> c \<in> set (bk_waiting k')) \<and>
      (c \<in> set (cid # cids) \<longrightarrow> (\<exists>d. next' = Some d \<and> d \<le> bj_retry_at (job_at k i)))"
    if late: "omap_get (bk_jobs k) c = Some i" "now < bj_retry_at (job_at k i)" for c i
  proof -
    have "\<exists>d. next' = Some d \<and> d \<le> bj_retry_at (job_at k i)" if eq: "c = cid"
    proof -
      obtain d where "next1 = Some d" "d \<le> bj_retry_at (job_at k i)" using one[OF late] eq by blast
      with IH show ?thesis by (blast intro: order_trans)
    qed
    then show ?thesis using IH one[OF late] late by auto
  qed
  ultimately show ?case using IH by (intro conjI) (simp, simp, simp, simp, simp, simp, simp, blast, blast)
qed simp

lemma pump_from_timer: "pump_from paused n cids (k\<lparr>bk_timer_due := t\<rparr>) = (pump_from paused n cids k)\<lparr>bk_timer_due := t\<rparr>"
proof (induction cids arbitrary: k)
  case (Cons cid cids)
  have "forget_if_unowned i (k\<lparr>bk_timer_due := t\<rparr>) = (forget_if_unowned i k)\<lparr>bk_timer_due := t\<rparr>" for i
    by (simp add: forget_if_unowned_def current_libraries_def generation_def Let_def)
  moreover have "wanted_now paused (k\<lparr>bk_timer_due := t\<rparr>) = wanted_now paused k" for k :: blob_keeper
    by (simp add: fun_eq_iff wanted_now_def current_libraries_def generation_def)
  moreover have "run_job i (k\<lparr>bk_timer_due := t\<rparr>) = (run_job i k)\<lparr>bk_timer_due := t\<rparr>" for i and k :: blob_keeper by (simp add: run_job_def)
  moreover have "pump_from paused n cids (k\<lparr>bk_timer_due := t, bk_waiting := w\<rparr>) = (pump_from paused n cids (k\<lparr>bk_waiting := w\<rparr>))\<lparr>bk_timer_due := t\<rparr>"
    for w and k :: blob_keeper
  proof -
    have "k\<lparr>bk_timer_due := t, bk_waiting := w\<rparr> = k\<lparr>bk_waiting := w, bk_timer_due := t\<rparr>" by simp
    then show ?thesis using Cons.IH[of "k\<lparr>bk_waiting := w\<rparr>"] by (simp only:)
  qed
  ultimately show ?case using Cons.IH by (simp add: Let_def split: option.split)
qed simp

lemma pump_timer: "pump_blobs paused n (k\<lparr>bk_timer_due := t\<rparr>) = (pump_blobs paused n k)\<lparr>bk_timer_due := t\<rparr>"
  by (simp add: pump_blobs_def pump_from_timer)

lemma on_retry_timer_ok:
  assumes "slots_ok n k" "retries_ok now k"
  shows "slots_ok n (on_retry_timer paused n now k) \<and> retries_ok now (on_retry_timer paused n now k)"
proof -
  obtain k1 "next" where pass: "fold (due_step paused now) (bk_waiting k) (k\<lparr>bk_timer_due := None\<rparr>, None) = (k1, next)" by fastforce
  note d = due_steps[OF pass]
  let ?k2 = "pump_blobs paused n k1"
  have s: "slots_ok n (k1\<lparr>bk_timer_due := next\<rparr>)" using assms(1) d by (simp add: slots_ok_def)
  have "retries_ok now (k1\<lparr>bk_timer_due := next\<rparr>)"
    unfolding retries_ok_def
  proof (intro allI impI, elim conjE)
    fix cid i assume "omap_get (bk_jobs (k1\<lparr>bk_timer_due := next\<rparr>)) cid = Some i" "now < bj_retry_at (job_at (k1\<lparr>bk_timer_due := next\<rparr>) i)"
    then have late: "omap_get (bk_jobs k) cid = Some i" "now < bj_retry_at (job_at k i)" using d by simp_all
    with assms(2) have "cid \<in> set (bk_waiting k)" unfolding retries_ok_def by blast
    with d late show "cid \<in> set (bk_waiting (k1\<lparr>bk_timer_due := next\<rparr>)) \<and> (\<not> bk_stopped (k1\<lparr>bk_timer_due := next\<rparr>) \<longrightarrow>
        (\<exists>d. bk_timer_due (k1\<lparr>bk_timer_due := next\<rparr>) = Some d \<and> d \<le> bj_retry_at (job_at (k1\<lparr>bk_timer_due := next\<rparr>) i)))" by simp
  qed
  from pump_blobs_ok[OF s this, of paused] have p: "slots_ok n ?k2" "retries_ok now (?k2\<lparr>bk_timer_due := next\<rparr>)"
    by (simp_all add: pump_timer slots_ok_def)
  have "pump_blobs paused n (k1\<lparr>bk_timer_due := None\<rparr>) = ?k2\<lparr>bk_timer_due := None\<rparr>" by (rule pump_timer)
  moreover have "k1\<lparr>bk_timer_due := None\<rparr> = k1" using d by simp
  ultimately have none: "bk_timer_due ?k2 = None" by (metis blob_keeper.select_convs(9) blob_keeper.surjective blob_keeper.update_convs(9))
  then have id: "?k2\<lparr>bk_timer_due := None\<rparr> = ?k2" by simp
  show ?thesis
  proof (cases "next")
    case None
    then show ?thesis using p by (simp add: on_retry_timer_def pass id)
  next
    case (Some due)
    have "retries_ok now (schedule due ?k2)" using p(2) none Some by (auto simp: schedule_def retries_ok_def)
    then show ?thesis using p(1) Some by (simp add: on_retry_timer_def pass schedule_ok)
  qed
qed

lemma bump_ok: "slots_ok n (bump_generation library k) = slots_ok n k" "retries_ok now (bump_generation library k) = retries_ok now k"
  unfolding slots_ok_def retries_ok_def by (simp_all add: bump_generation_def)

lemma stop_ok: "slots_ok n k \<Longrightarrow> slots_ok n (stop_keeper k)" "retries_ok now (stop_keeper k)"
  unfolding slots_ok_def retries_ok_def by (simp_all add: stop_keeper_def)

lemma blob_run_ok:
  assumes "blob_run n now k"
  shows "0 \<le> now \<and> slots_ok n k \<and> retries_ok now k"
  using assms
proof induction
  case (created now)
  then show ?case by (simp add: create_blob_keeper_def slots_ok_def retries_ok_def)
next
  case (clock now k now')
  then have "retries_ok now' k" unfolding retries_ok_def by (meson le_less_trans)
  with clock show ?case by simp
next
  case (policy now k library)
  then show ?case by (simp add: bump_ok)
next
  case (halted now k)
  then show ?case by (simp add: stop_ok)
next
  case (wanted now k cid library pinned)
  then show ?case using want_ok[of n k now] by simp
next
  case (pumped now k paused)
  then show ?case using pump_blobs_ok[of n k now] by simp
next
  case (fetched now k i paused)
  then show ?case using attempt_fetched_ok[of n k now] by simp
next
  case (failed now k i paused)
  then show ?case using attempt_failed_ok[of n k now] by simp
next
  case (over now k i paused)
  then show ?case using attempt_over_ok[of n k now] by simp
next
  case (fired now k due paused)
  then show ?case using on_retry_timer_ok[of n k now] by simp
next
  case (retried now k paused)
  then show ?case using retry_ok[of n k now] by simp
next
  case (unpinned now k cid)
  then show ?case using unpin_ok[of n k now] by simp
qed

section \<open>How long a retry waits\<close>

definition delays_ok :: "int \<Rightarrow> blob_keeper \<Rightarrow> bool" where
  "delays_ok now k \<longleftrightarrow> (\<forall>job \<in> set (bk_objects k). bj_retry_at job \<le> now + RETRY_MAX_MS)"

lemma retry_delay_le: "retry_delay attempts \<le> RETRY_MAX_MS"
  by (simp add: retry_delay_def)

lemma pump_objects [simp]: "bk_objects (pump_from paused n cids k) = bk_objects k" "bk_objects (pump_blobs paused n k) = bk_objects k"
proof -
  show "bk_objects (pump_from paused n cids k) = bk_objects k" for cids and k :: blob_keeper
    by (induction cids arbitrary: k) (simp_all add: Let_def run_job_def split: option.split)
  then show "bk_objects (pump_blobs paused n k) = bk_objects k" by (simp add: pump_blobs_def)
qed

lemma replaced_job: "x \<in> set (xs[i := y]) \<Longrightarrow> x = y \<or> x \<in> set xs"
  using set_update_subset_insert[of xs i y] by auto

lemma delays_replace:
  "delays_ok now k \<Longrightarrow> bk_objects k' = (bk_objects k)[i := job] \<Longrightarrow> bj_retry_at job \<le> now + RETRY_MAX_MS \<Longrightarrow> delays_ok now k'"
  by (auto simp: delays_ok_def dest!: replaced_job)

lemma delays_same: "bk_objects k' = bk_objects k \<Longrightarrow> delays_ok now k \<Longrightarrow> delays_ok now k'"
  by (simp add: delays_ok_def)

lemma attempt_failed_objects:
  "bk_objects (attempt_failed paused n now i k) = (bk_objects k)[i := (job_at k i)\<lparr>bj_attempts := bj_attempts (job_at k i) + 1,
     bj_retry_at := now + retry_delay (bj_attempts (job_at k i) + 1)\<rparr>]"
  by (simp add: attempt_failed_def attempt_over_def Let_def)

lemma attempt_failed_delays: "delays_ok now k \<Longrightarrow> delays_ok now (attempt_failed paused n now i k)"
  by (erule delays_replace[OF _ attempt_failed_objects]) (simp add: retry_delay_le)

lemma attempt_fetched_delays: "delays_ok now k \<Longrightarrow> delays_ok now (attempt_fetched paused n now i k)"
  using attempt_failed_delays[of now k] by (simp add: attempt_fetched_def delays_ok_def)

lemma job_at_delay: "delays_ok now k \<Longrightarrow> i < length (bk_objects k) \<Longrightarrow> bj_retry_at (job_at k i) \<le> now + RETRY_MAX_MS"
  by (simp add: delays_ok_def)

lemma want_delays:
  assumes "delays_ok now k" "slots_ok n k" "0 \<le> now"
  shows "delays_ok now (want cid library pinned k)"
proof (cases "omap_get (bk_jobs k) cid")
  case None
  then show ?thesis using assms(1,3) by (auto simp: want_def Let_def delays_ok_def RETRY_MAX_MS_def)
next
  case (Some i)
  show ?thesis by (rule delays_replace[OF assms(1), of _ i])
    (simp add: want_def Let_def Some, use job_at_delay[OF assms(1) slots_okD(1)[OF assms(2) Some]] in simp)
qed

lemma unpin_delays:
  assumes "delays_ok now k" "slots_ok n k"
  shows "delays_ok now (unpin_job cid k)"
proof (cases "omap_get (bk_jobs k) cid")
  case None
  then show ?thesis using assms(1) by (simp add: unpin_job_def)
next
  case (Some i)
  show ?thesis by (rule delays_replace[OF assms(1), of _ i])
    (simp add: unpin_job_def Some, use job_at_delay[OF assms(1) slots_okD(1)[OF assms(2) Some]] in simp)
qed

lemma reset_delays: "0 \<le> now \<Longrightarrow> delays_ok now k \<Longrightarrow> delays_ok now (fold reset_retry cids k)"
proof (induction cids arbitrary: k)
  case (Cons cid cids)
  have "delays_ok now (reset_retry cid k)"
    using Cons.prems by (auto simp: reset_retry_def delays_ok_def RETRY_MAX_MS_def dest!: replaced_job split: option.split)
  then show ?case using Cons by simp
qed simp

lemma on_retry_timer_objects: "bk_objects (on_retry_timer paused n now k) = bk_objects k"
proof -
  obtain k1 "next" where pass: "fold (due_step paused now) (bk_waiting k) (k\<lparr>bk_timer_due := None\<rparr>, None) = (k1, next)" by fastforce
  from due_steps[OF this] show ?thesis by (simp add: on_retry_timer_def pass Let_def split: option.split)
qed

lemma blob_run_delays:
  assumes "blob_run n now k"
  shows "delays_ok now k"
  using assms
proof induction
  case (created now)
  then show ?case by (simp add: create_blob_keeper_def delays_ok_def)
next
  case (clock now k now')
  then show ?case by (force simp: delays_ok_def)
next
  case (wanted now k cid library pinned)
  then show ?case using blob_run_ok[OF wanted(1)] by (blast intro: want_delays)
next
  case (unpinned now k cid)
  then show ?case using blob_run_ok[OF unpinned(1)] by (blast intro: unpin_delays)
next
  case (retried now k paused)
  then show ?case using reset_delays[of now k "bk_waiting k"] blob_run_ok[OF retried(1)] by (simp add: retry_blobs_def Let_def delays_ok_def)
next
  case (fired now k due paused)
  then show ?case using delays_same[OF on_retry_timer_objects] by blast
qed (simp_all add: delays_same[of _ _ _] attempt_fetched_delays attempt_failed_delays, simp_all add: delays_ok_def attempt_over_def bump_generation_def stop_keeper_def)

section \<open>Blobs left behind\<close>

text \<open>A pin on a blob that waits for a paused library starts no fetch: the job exists, so it is not made ready again.\<close>

definition paused_wait :: blob_keeper where
  "paused_wait = pump_blobs (\<lambda>address. address = ''lib'') 2 (want ''blob'' (Some ''lib'') False create_blob_keeper)"

lemma pin_of_paused_blob_waits:
  "let k = pump_blobs (\<lambda>address. address = ''lib'') 2 (want ''blob'' None True paused_wait)
   in bk_fetching k = [] \<and> bk_ready k = [] \<and> bk_timer_due k = None \<and> wanted_now (\<lambda>address. address = ''lib'') k (job_at k 0) \<and>
      omap_get (bk_jobs k) ''blob'' = Some 0"
  by code_simp

text \<open>An unpinned blob whose fetch is in flight and that a library asks for meanwhile: the fetch, once complete, forgets the library's job
  and holds the blob for no library.\<close>

definition unpinned_in_flight :: blob_keeper where
  "unpinned_in_flight = unpin_job ''blob'' (pump_blobs (\<lambda>_. False) 2 (want ''blob'' None True create_blob_keeper))"

lemma new_job_forgotten:
  "let k = pump_blobs (\<lambda>_. False) 2 (want ''blob'' (Some ''lib'') False unpinned_in_flight);
       k' = attempt_over (\<lambda>_. False) 2 0 (attempt_fetched (\<lambda>_. False) 2 0 0 k)
   in omap_get (bk_jobs k) ''blob'' = Some 1 \<and> current_libraries k' (job_at k' 0) = [] \<and> \<not> bj_pinned (job_at k' 0) \<and>
      omap_get (bk_jobs k') ''blob'' = None \<and> bk_fetching k' = [] \<and> bk_ready k' = [] \<and> bk_waiting k' = []"
  by code_simp

text \<open>A fetch that throws leaves its job in the map and in no queue, where neither a retry nor a new request reaches it.\<close>

lemma thrown_fetch_never_retried:
  "let k = attempt_over (\<lambda>_. False) 2 0 (pump_blobs (\<lambda>_. False) 2 (want ''blob'' None True create_blob_keeper));
       k' = retry_blobs (\<lambda>_. False) 2 (want ''blob'' None True k)
   in omap_get (bk_jobs k') ''blob'' = Some 0 \<and> bk_fetching k' = [] \<and> bk_ready k' = [] \<and> bk_waiting k' = [] \<and> bk_timer_due k' = None"
  by code_simp

text \<open>A job is named by the CID string it was asked under, and \<open>running\<close> holds such strings. The pins of the
  identity library are base32 and the content of an entry may spell the same blob in base58btc: with two slots free
  both are fetched at once.\<close>

lemma two_spellings_fetched_at_once:
  assumes "pinned_cid \<noteq> content_cid" "\<not> paused library"
  shows "let k = pump_blobs paused 2 (want content_cid (Some library) False (want pinned_cid None True create_blob_keeper))
     in bk_fetching k = [0, 1] \<and> map (cid_at k) (bk_fetching k) = [pinned_cid, content_cid]"
  using assms by (simp add: create_blob_keeper_def want_def pump_blobs_def run_job_def forget_if_unowned_def current_libraries_def wanted_now_def
      generation_def Let_def oset_add_def oset_delete_def)

section \<open>The keeper's guarantees\<close>

text \<open>C37: In every run of the blob keeper, whatever order requests, policy changes, completed and failed fetches and timers come in, on a clock
  that never moves back and until the keeper is stopped, at most the configured number of jobs is being fetched or held, no two of them under the same CID string, and a job whose retry is still to come
  waits with a timer armed no later than that retry, which is at most the maximal backoff away. Two spellings of one
  blob are two jobs (\<open>two_spellings_fetched_at_once\<close>).\<close>

theorem blob_fetches_bounded:
  assumes "blob_run n now k" "\<not> bk_stopped k"
  shows "length (bk_fetching k @ bk_landing k) \<le> n \<and> distinct (map (cid_at k) (bk_fetching k @ bk_landing k)) \<and>
    (\<forall>cid i. omap_get (bk_jobs k) cid = Some i \<and> now < bj_retry_at (job_at k i) \<longrightarrow>
       cid \<in> set (bk_waiting k) \<and> (\<exists>d. bk_timer_due k = Some d \<and> d \<le> bj_retry_at (job_at k i) \<and> d \<le> now + RETRY_MAX_MS))"
proof (intro conjI allI impI, goal_cases)
  note ok = blob_run_ok[OF assms(1)]
  {
    case 1
    have "length (bk_running k) = card (cid_at k ` set (bk_fetching k @ bk_landing k))" using ok unfolding slots_ok_def by (metis distinct_card)
    also have "\<dots> = length (bk_fetching k @ bk_landing k)" using ok unfolding slots_ok_def by (metis card_image distinct_card)
    finally show ?case using ok unfolding slots_ok_def by metis
  next
    case 2
    then show ?case using ok by (simp only: slots_ok_def distinct_map)
  next
    case (3 cid i)
    then show ?case using ok by (auto simp: retries_ok_def)
  next
    case (4 cid i)
    then obtain d where "bk_timer_due k = Some d" "d \<le> bj_retry_at (job_at k i)" using ok assms(2) unfolding retries_ok_def by blast
    moreover have "bj_retry_at (job_at k i) \<le> now + RETRY_MAX_MS"
      using 4 ok by (blast intro: job_at_delay[OF blob_run_delays[OF assms(1)]] slots_okD(1))
    ultimately show ?case by (auto intro: order_trans)
  }
qed

text \<open>Two blobs with one slot: the first failed and waits, the second is fetched.\<close>

definition retry_sample :: blob_keeper where
  "retry_sample = attempt_failed (\<lambda>_. False) 1 5 0 (pump_blobs (\<lambda>_. False) 1 (want ''b'' None True (want ''a'' None True create_blob_keeper)))"

lemma retry_sample_run: "blob_run 1 5 retry_sample"
  unfolding retry_sample_def
  by (intro blob_run.failed blob_run.pumped blob_run.wanted blob_run.created) (simp, code_simp)

theorem blob_fetches_bounded_witness:
  "length (bk_fetching retry_sample @ bk_landing retry_sample) \<le> 1 \<and> bk_fetching retry_sample = [1] \<and> \<not> bk_stopped retry_sample \<and>
   omap_get (bk_jobs retry_sample) ''a'' = Some 0 \<and> bj_retry_at (job_at retry_sample 0) = 30005 \<and> bk_timer_due retry_sample = Some 30005"
proof -
  have "\<not> bk_stopped retry_sample" by code_simp
  from blob_fetches_bounded[OF retry_sample_run this] have "length (bk_fetching retry_sample @ bk_landing retry_sample) \<le> 1" by blast
  moreover have "bk_fetching retry_sample = [1] \<and> \<not> bk_stopped retry_sample \<and> omap_get (bk_jobs retry_sample) ''a'' = Some 0 \<and>
     bj_retry_at (job_at retry_sample 0) = 30005 \<and> bk_timer_due retry_sample = Some 30005" by code_simp
  ultimately show ?thesis by blast
qed

end
