(* ===== verification/Library_Policy.thy ===== *)
theory Library_Policy
  imports Ownership Query_Index
begin

text \<open>
  Which content a library keeps (\<open>src/peer/policy.ts\<close>) and what an entry pins (\<open>src/peer/pins.ts\<close>). The predicate
  \<open>keeps_blobs\<close> returns is a closure over the policy it read: here a value, \<open>keeps_decision\<close>, that \<open>keeps\<close> applies to an
  entry and its content. \<open>JNull\<close> stands for a policy's missing filter.
\<close>

section \<open>The policy of a library\<close>

record effective_policy_fields =
  ep_mode :: replication_mode
  ep_filter :: jsval

definition nullish :: "jsval \<Rightarrow> jsval \<Rightarrow> jsval" where
  "nullish v fallback = (if v = JUndefined \<or> v = JNull then fallback else v)"

definition effective_policy ::
  "peer_context \<Rightarrow> string \<Rightarrow> library_scope_fields option \<Rightarrow> effective_policy_fields option peer_result" where
  "effective_policy ctx address scope =
     and_then (case scope of None \<Rightarrow> find_own_library ctx address | Some s \<Rightarrow> Inr (omap_get (sc_own s) address)) (\<lambda>own.
     if own \<noteq> None then Inr (Some \<lparr>ep_mode = Full, ep_filter = JNull\<rparr>)
     else and_then (case scope of
         None \<Rightarrow> and_then (link_set ctx) (\<lambda>links. Inr (List.find (\<lambda>l. ln_address l = address) links))
       | Some s \<Rightarrow> Inr (omap_get (sc_links s) address)) (\<lambda>found.
     if found = None then Inr None
     else Inr (Some (case omap_get (pc_policies ctx) address of
         Some policy \<Rightarrow> \<lparr>ep_mode = po_mode policy, ep_filter = (if po_mode policy = Selective then nullish (po_filter policy) JNull else JNull)\<rparr>
       | None \<Rightarrow> \<lparr>ep_mode = Full, ep_filter = JNull\<rparr>))))"

text \<open>\<open>paused\<close> holds of the libraries whose replicator is paused.\<close>

definition connected :: "(string \<Rightarrow> bool) \<Rightarrow> string \<Rightarrow> bool" where
  "connected paused address = (\<not> paused address)"

definition get_replication_policy :: "peer_context \<Rightarrow> (string \<Rightarrow> bool) \<Rightarrow> string \<Rightarrow> (effective_policy_fields \<times> bool) peer_result" where
  "get_replication_policy ctx paused address = and_then (effective_policy ctx address None) (\<lambda>policy.
     case policy of None \<Rightarrow> Inl Not_found | Some p \<Rightarrow> Inr (p, connected paused address))"

definition validate_policy :: "replication_mode \<Rightarrow> jsval \<Rightarrow> stored_policy peer_result" where
  "validate_policy mode spec =
     (if mode \<noteq> Selective then Inr \<lparr>po_mode = mode, po_filter = JUndefined\<rparr>
      else if spec = JUndefined \<or> spec = JNull then Inl Invalid
      else if filter_shape 1 spec \<noteq> shape_ok then Inl Invalid
      else Inr \<lparr>po_mode = mode, po_filter = spec\<rparr>)"

section \<open>What a filter reads\<close>

text \<open>The value of a Put operation is a track envelope.\<close>

definition is_track :: "verified_entry \<Rightarrow> bool" where
  "is_track e = is_put (ve_operation e)"

text \<open>\<open>content\<close> is validated, so its resolver entries are records.\<close>

definition track_view :: "string \<Rightarrow> verified_entry \<Rightarrow> jsval \<Rightarrow> string list \<Rightarrow> jsval" where
  "track_view library_address entry content tags_applied =
     (let tags = nullish (get ''tags'' content) (JObj []); audio = nullish (get ''audio'' content) (JObj []);
          view = [(''library_address'', JStr library_address), (''added_by'', JStr (e_key (he_entry entry))),
            (''added_at'', case ve_operation entry of PutOperation _ envelope _ \<Rightarrow> JInt (int (env_timestamp envelope)) | _ \<Rightarrow> JUndefined),
            (''tags'', js_strings tags_applied), (''cid'', get ''hash'' content), (''audio_size_bytes'', get ''size'' content),
            (''duration_seconds'', get ''duration'' audio), (''title'', get ''title'' tags), (''artist'', get ''artist'' tags),
            (''source'', js_strings (concat (map (\<lambda>r. strings (JArr [get ''extractor'' r])) (array_elements (get ''resolver'' content)))))]
      in JObj (List.filter (\<lambda>(_, v). v \<noteq> JUndefined \<and> v \<noteq> JNull) view))"

text \<open>\<open>SELECT DISTINCT tag \<dots> ORDER BY tag\<close>.\<close>

definition track_labels :: "index_db \<Rightarrow> string \<Rightarrow> string list \<Rightarrow> string list" where
  "track_labels db track_id label_libraries = sort_by compare_strings (remdups (map tg_tag
     (List.filter (\<lambda>r. tg_track_id r = track_id \<and> tg_library r \<in> set label_libraries) (db_tags db))))"

section \<open>Deciding\<close>

datatype keeps_decision = Keep_all | Keep_none | Keep_matching string jsval

definition keeps_blobs :: "peer_context \<Rightarrow> resolved_chain \<Rightarrow> keeps_decision peer_result" where
  "keeps_blobs ctx chain = (case pc_identity ctx of
     None \<Rightarrow> Inr Keep_all
   | Some i \<Rightarrow>
       if public_key (id_key_pair i) \<in> set (chain_write_list chain) then Inr Keep_all
       else and_then (effective_policy ctx (chain_address chain) None) (\<lambda>policy.
         Inr (case policy of
             None \<Rightarrow> Keep_none
           | Some p \<Rightarrow> (case ep_mode p of Index_only \<Rightarrow> Keep_none | Full \<Rightarrow> Keep_all | Selective \<Rightarrow> Keep_matching (chain_address chain) (ep_filter p)))))"

definition entry_labels :: "peer_context \<Rightarrow> index_db \<Rightarrow> string \<Rightarrow> verified_entry \<Rightarrow> string list peer_result" where
  "entry_labels ctx db library_address entry = (case ve_operation entry of
     PutOperation key _ _ \<Rightarrow> and_then (own_label_addresses ctx) (\<lambda>own. Inr (track_labels db key (library_address # own)))
   | _ \<Rightarrow> Inr [])"

definition keeps :: "peer_context \<Rightarrow> index_db \<Rightarrow> keeps_decision \<Rightarrow> verified_entry \<Rightarrow> jsval \<Rightarrow> bool peer_result" where
  "keeps ctx db decision entry content = (case decision of
     Keep_all \<Rightarrow> Inr True
   | Keep_none \<Rightarrow> Inr False
   | Keep_matching library_address spec \<Rightarrow>
       if \<not> is_track entry then Inr True
       else and_then (entry_labels ctx db library_address entry) (\<lambda>tags_applied.
         Inr (filter_matches (nullish spec (JObj [(''type'', JStr ''unknown'')])) (track_view library_address entry content tags_applied))))"

section \<open>What an entry pins\<close>

text \<open>A CID with whether its pin is recursive.\<close>

type_synonym pin_item = "string \<times> bool"

definition chain_pins :: "resolved_chain \<Rightarrow> pin_item list" where
  "chain_pins chain = map (\<lambda>cid. (cid, False)) [cid_manifest (chain_cids chain), cid_wrapper (chain_cids chain), cid_write_list (chain_cids chain)]"

definition stored_content :: "deps \<Rightarrow> content_reader \<Rightarrow> string \<Rightarrow> (jsval \<Rightarrow> jsval result) \<Rightarrow> jsval option" where
  "stored_content D read_content content_cid validate = (case read_content content_cid of
     None \<Rightarrow> None
   | Some bs \<Rightarrow> (case and_then (decode_payload D bs) validate of Inl _ \<Rightarrow> None | Inr v \<Rightarrow> Some v))"

definition stored_track_content :: "deps \<Rightarrow> content_reader \<Rightarrow> string \<Rightarrow> jsval option" where
  "stored_track_content D read_content content_cid = stored_content D read_content content_cid (validate_track_content D)"

text \<open>Validated content has a CID string as hash and an array of CID strings as artwork.\<close>

definition track_blobs :: "jsval \<Rightarrow> string list" where
  "track_blobs content = strings (JArr [get ''hash'' content]) @ strings (get ''artwork'' content)"

definition profile_avatar :: "verified_entry \<Rightarrow> string option" where
  "profile_avatar e = (case ve_operation e of IdentityPut _ (ProfileRecord _ _ _ avatar) \<Rightarrow> avatar | _ \<Rightarrow> None)"

definition has_item_6 :: "verified_entry \<Rightarrow> bool" where
  "has_item_6 e = (is_put (ve_operation e) \<or> profile_avatar e \<noteq> None)"

definition stored_item_6 :: "deps \<Rightarrow> content_reader \<Rightarrow> verified_entry \<Rightarrow> (jsval \<times> string list) option" where
  "stored_item_6 D read_content e = (case ve_operation e of
     IdentityPut _ r \<Rightarrow> map_option (\<lambda>avatar. (identity_value r, [avatar])) (profile_avatar e)
   | PutOperation _ envelope _ \<Rightarrow> map_option (\<lambda>content. (content, track_blobs content)) (stored_track_content D read_content (env_content envelope))
   | _ \<Rightarrow> None)"

definition entry_pins :: "deps \<Rightarrow> content_reader \<Rightarrow> (verified_entry \<Rightarrow> jsval \<Rightarrow> bool peer_result) \<Rightarrow> verified_entry \<Rightarrow> pin_item list peer_result" where
  "entry_pins D read_content keep e =
     (let pins = (he_hash e, False) # (case ve_operation e of PutOperation _ envelope _ \<Rightarrow> [(env_content envelope, False)] | _ \<Rightarrow> [])
      in if \<not> is_put (ve_operation e) \<and> \<not> has_item_6 e then Inr pins
         else case stored_item_6 D read_content e of
           None \<Rightarrow> Inr pins
         | Some (content, blobs) \<Rightarrow> and_then (keep e content) (\<lambda>kept. Inr (if kept then pins @ map (\<lambda>cid. (cid, True)) blobs else pins)))"

section \<open>Facts\<close>

lemma find_Some_iff: "List.find P xs \<noteq> None \<longleftrightarrow> (\<exists>x \<in> set xs. P x)"
  by (auto simp: find_None_iff)

lemma has_fold_omap_set: "omap_has (fold (\<lambda>l. omap_set (f l) l) xs m) a \<longleftrightarrow> a \<in> f ` set xs \<or> omap_has m a"
  by (induction xs arbitrary: m) (auto simp: ordered_simps)

text \<open>The policy read through a scope that was derived once is the policy derived for the library alone, whenever the scope
  can be derived.\<close>

lemma scoped_policy_same:
  assumes "library_scope ctx = Inr scope"
  shows "effective_policy ctx address (Some scope) = effective_policy ctx address None"
proof -
  from assms obtain own links where l: "own_libraries ctx = Inr own" "link_set ctx = Inr links"
    and scope: "scope = \<lparr>sc_own = fold (\<lambda>l. omap_set (ow_address l) l) own [], sc_links = fold (\<lambda>l. omap_set (ln_address l) l) links []\<rparr>"
    by (auto simp: library_scope_def and_then_def split: sum.splits)
  have "omap_has (sc_own scope) address \<longleftrightarrow> List.find (\<lambda>l. ow_address l = address) own \<noteq> None"
    unfolding find_Some_iff using has_fold_omap_set[of ow_address own "[]" address] by (auto simp: scope)
  moreover have "omap_has (sc_links scope) address \<longleftrightarrow> List.find (\<lambda>l. ln_address l = address) links \<noteq> None"
    unfolding find_Some_iff using has_fold_omap_set[of ln_address links "[]" address] by (auto simp: scope)
  ultimately show ?thesis by (auto simp: effective_policy_def find_own_library_def l and_then_def)
qed

end
