(* ===== verification/Library_Pins.thy ===== *)
theory Library_Pins
  imports Library_Policy Pin_Index Pin_Record
begin

text \<open>
  The pin sets of the open libraries (\<open>pin_into\<close> of \<open>src/peer/pins.ts\<close>, the pin bookkeeping of \<open>create_library_manager\<close> in
  \<open>src/peer/library.ts\<close>): what each library holds, the record of it that the next open takes back, and the
  releases that spare what another library holds. The content store is an interface (\<open>ContentStore\<close>), given by
  its operations \<open>pin_ops\<close>. A stretch between two awaits is one operation, and so is a pin or an unpin of the store together with the
  lines up to the next await; jobs in flight are the \<open>pin_change\<close>s of the state. A task is what is
  left of the items of one entry with the pins it added so far.
\<close>

section \<open>State\<close>

type_synonym pin_map = "(string, bool) omap"

record 's pin_ops =
  op_pin :: "string \<Rightarrow> bool \<Rightarrow> 's \<Rightarrow> 's walk_result"
  op_unpin :: "string \<Rightarrow> 's \<Rightarrow> 's walk_result"

text \<open>\<open>ps_pass\<close> is the re-pin pass an open queued and that has not begun: the chain pins to record, and the items of each entry.\<close>

record pin_state =
  ps_changing :: nat
  ps_complete :: bool
  ps_pass :: "(pin_item list \<times> pin_item list list) option"

type_synonym pin_task = "pin_item list \<times> pin_item list"

datatype pin_change =
    Pinning bool string "pin_task list"
  | Releasing string "string list" "string oset"
  | Freeing "string list" "string oset"

record 's pin_manager =
  pm_store :: 's
  pm_open :: "(string, pin_map) omap"
  pm_states :: "(string, pin_state) omap"
  pm_record :: pin_tables
  pm_changes :: "pin_change list"
  pm_retained :: "string oset"
  pm_stopped :: bool

definition create_manager :: "'s \<Rightarrow> string oset \<Rightarrow> 's pin_manager" where
  "create_manager store retained = \<lparr>pm_store = store, pm_open = [], pm_states = [], pm_record = empty_tables, pm_changes = [],
     pm_retained = retained, pm_stopped = False\<rparr>"

section \<open>Pinning\<close>

definition pin_covered :: "pin_item \<Rightarrow> pin_map \<Rightarrow> bool" where
  "pin_covered item pins = (case item of (cid, recursive) \<Rightarrow> omap_get pins cid = Some True \<or> omap_get pins cid = Some recursive)"

definition land_pin :: "'s pin_ops \<Rightarrow> pin_item \<Rightarrow> pin_map \<Rightarrow> 's \<Rightarrow> (pin_map \<times> 's \<times> pin_item list) walk_result" where
  "land_pin ops item pins store = (case item of (cid, recursive) \<Rightarrow>
     case op_pin ops cid recursive store of
       Inr store' \<Rightarrow> Inr (omap_set cid recursive pins, store', [(cid, recursive)])
     | Inl e \<Rightarrow> if e = Protocol content_unavailable then Inr (pins, store, []) else Inl e)"

definition pin_one :: "'s pin_ops \<Rightarrow> pin_item \<Rightarrow> pin_map \<Rightarrow> 's \<Rightarrow> (pin_map \<times> 's \<times> pin_item list) walk_result" where
  "pin_one ops item pins store = (if pin_covered item pins then Inr (pins, store, []) else land_pin ops item pins store)"

fun pin_into :: "'s pin_ops \<Rightarrow> pin_item list \<Rightarrow> pin_map \<Rightarrow> 's \<Rightarrow> (pin_map \<times> 's \<times> pin_item list) walk_result" where
  "pin_into ops [] pins store = Inr (pins, store, [])"
| "pin_into ops (item # items) pins store = and_then (pin_one ops item pins store) (\<lambda>(pins1, store1, new).
     and_then (pin_into ops items pins1 store1) (\<lambda>(pins2, store2, added). Inr (pins2, store2, new @ added)))"

section \<open>Changes\<close>

text \<open>\<open>changing_pins\<close> up to its job, and from the end of its job on.\<close>

definition begin_change :: "string \<Rightarrow> pin_change \<Rightarrow> 's pin_manager \<Rightarrow> 's pin_manager" where
  "begin_change library change m = (case omap_get (pm_states m) library of
     None \<Rightarrow> m
   | Some st \<Rightarrow> m\<lparr>pm_states := omap_set library (st\<lparr>ps_changing := ps_changing st + 1\<rparr>) (pm_states m),
       pm_record := (if ps_changing st = 0 then begin_pins library (pm_record m) else pm_record m), pm_changes := change # pm_changes m\<rparr>)"

definition finish_change :: "string \<Rightarrow> bool \<Rightarrow> 's pin_manager \<Rightarrow> 's pin_manager" where
  "finish_change library pass m = (case omap_get (pm_states m) library of
     None \<Rightarrow> m
   | Some st \<Rightarrow>
       let st' = st\<lparr>ps_changing := ps_changing st - 1, ps_complete := (ps_complete st \<or> pass \<and> \<not> pm_stopped m)\<rparr>
       in m\<lparr>pm_states := omap_set library st' (pm_states m),
            pm_record := (if ps_changing st' = 0 \<and> ps_complete st' then settle_pins library (pm_record m) else pm_record m)\<rparr>)"

definition end_change :: "pin_change \<Rightarrow> 's pin_manager \<Rightarrow> 's pin_manager" where
  "end_change change m = (let m' = m\<lparr>pm_changes := remove1 change (pm_changes m)\<rparr> in case change of
     Pinning pass library tasks \<Rightarrow> finish_change library pass m'
   | Releasing library cids held \<Rightarrow> finish_change library False m'
   | Freeing cids held \<Rightarrow> m')"

definition replace_change :: "pin_change \<Rightarrow> pin_change \<Rightarrow> 's pin_manager \<Rightarrow> 's pin_manager" where
  "replace_change change change' m = m\<lparr>pm_changes := change' # remove1 change (pm_changes m)\<rparr>"

text \<open>\<open>pin_entries\<close> and \<open>hold_blobs\<close>: the items of each entry, then one item of a task, then its record. Between the look at the pin
  set and the moment the pin of the store has landed other tasks of the library run, so an item is left out when the set covers
  it (\<open>cover_step\<close>) and lands whatever the set says by then (\<open>pin_step\<close>).\<close>

definition start_pins :: "string \<Rightarrow> pin_item list list \<Rightarrow> 's pin_manager \<Rightarrow> 's pin_manager" where
  "start_pins library entries m = begin_change library (Pinning False library (map (\<lambda>items. (items, [])) entries)) m"

definition pin_step :: "'s pin_ops \<Rightarrow> bool \<Rightarrow> string \<Rightarrow> pin_task list \<Rightarrow> pin_task \<Rightarrow> 's pin_manager \<Rightarrow> 's pin_manager walk_result" where
  "pin_step ops pass library tasks task m = (case (omap_get (pm_open m) library, task) of
     (Some pins, (item # items, added)) \<Rightarrow> and_then (land_pin ops item pins (pm_store m)) (\<lambda>(pins', store', new).
       Inr (replace_change (Pinning pass library tasks) (Pinning pass library ((items, added @ new) # remove1 task tasks))
         (m\<lparr>pm_store := store', pm_open := omap_set library pins' (pm_open m)\<rparr>)))
   | _ \<Rightarrow> Inr m)"


definition record_step :: "bool \<Rightarrow> string \<Rightarrow> pin_task list \<Rightarrow> pin_task \<Rightarrow> 's pin_manager \<Rightarrow> 's pin_manager" where
  "record_step pass library tasks task m = replace_change (Pinning pass library tasks) (Pinning pass library (remove1 task tasks))
     (m\<lparr>pm_record := set_pins library (snd task) (pm_record m)\<rparr>)"


section \<open>Releases\<close>

definition canonical_or_self :: "deps \<Rightarrow> string \<Rightarrow> string" where
  "canonical_or_self D cid = (case canonical_cid D cid of Inl _ \<Rightarrow> cid | Inr c \<Rightarrow> c)"

definition held_elsewhere :: "deps \<Rightarrow> string \<Rightarrow> 's pin_manager \<Rightarrow> string oset" where
  "held_elsewhere D library m = fold oset_add
     (concat (map (\<lambda>(address, pins). map (canonical_or_self D) (omap_keys pins)) (List.filter (\<lambda>(address, pins). address \<noteq> library) (pm_open m))))
     (pm_retained m)"

text \<open>\<open>release_blobs\<close>: a refused release still is a change.\<close>

definition release_start :: "deps \<Rightarrow> string \<Rightarrow> string list \<Rightarrow> 's pin_manager \<Rightarrow> 's pin_manager" where
  "release_start D library cids m = (case omap_get (pm_open m) library of
     None \<Rightarrow> m
   | Some pins \<Rightarrow> begin_change library (Releasing library (if pm_stopped m then [] else List.filter (\<lambda>cid. omap_get pins cid = Some True) cids)
       (held_elsewhere D library m)) m)"

definition unpin_unless_held :: "'s pin_ops \<Rightarrow> deps \<Rightarrow> string \<Rightarrow> string oset \<Rightarrow> 's \<Rightarrow> 's walk_result" where
  "unpin_unless_held ops D cid held store = (if canonical_or_self D cid \<in> set held then Inr store else op_unpin ops cid store)"

definition release_step :: "'s pin_ops \<Rightarrow> deps \<Rightarrow> string \<Rightarrow> string list \<Rightarrow> string oset \<Rightarrow> 's pin_manager \<Rightarrow> 's pin_manager walk_result" where
  "release_step ops D library cids held m = (case (omap_get (pm_open m) library, cids) of
     (Some pins, cid # rest) \<Rightarrow> and_then (unpin_unless_held ops D cid held (pm_store m)) (\<lambda>store'.
       Inr (replace_change (Releasing library cids held) (Releasing library rest held)
         (m\<lparr>pm_store := store', pm_open := omap_set library (omap_delete cid pins) (pm_open m),
            pm_record := (if omap_has pins cid then delete_cids library [cid] (pm_record m) else pm_record m)\<rparr>)))
   | _ \<Rightarrow> Inr m)"




section \<open>Opening\<close>

text \<open>An entry of the library: its hash, its content payload if it is a PUT, and the items it pins.\<close>

type_synonym entry_items = "string \<times> string option \<times> pin_item list"

definition unpinned_entries :: "pin_map option \<Rightarrow> entry_items list \<Rightarrow> entry_items list" where
  "unpinned_entries recorded entries = (case recorded of
     None \<Rightarrow> entries
   | Some r \<Rightarrow> List.filter (\<lambda>(hash, content, items). \<not> omap_has r hash \<or> (case content of None \<Rightarrow> False | Some c \<Rightarrow> \<not> omap_has r c)) entries)"

definition take_back :: "pin_map option \<Rightarrow> pin_map \<Rightarrow> pin_map" where
  "take_back recorded pins = (case recorded of
     None \<Rightarrow> pins
   | Some r \<Rightarrow> fold (\<lambda>(cid, recursive) pins. if omap_get pins cid = Some True then pins else omap_set cid recursive pins) r pins)"

definition open_pins :: "'s pin_ops \<Rightarrow> string \<Rightarrow> pin_item list \<Rightarrow> entry_items list \<Rightarrow> 's pin_manager \<Rightarrow> 's pin_manager walk_result" where
  "open_pins ops library chain entries m = and_then (pin_into ops chain [] (pm_store m)) (\<lambda>(pins, store', chain_held).
     let recorded = load_pins library (pm_record m);
         unrecorded = (case recorded of None \<Rightarrow> chain_held | Some r \<Rightarrow> List.filter (\<lambda>(cid, recursive). omap_get r cid \<noteq> Some recursive) chain_held)
     in Inr (m\<lparr>pm_store := store', pm_open := omap_set library (take_back recorded pins) (pm_open m),
          pm_states := omap_set library \<lparr>ps_changing = 0, ps_complete = False,
            ps_pass = Some (unrecorded, map (\<lambda>(_, _, items). items) (unpinned_entries recorded entries))\<rparr> (pm_states m),
          pm_record := (if recorded = None then clear_pins library (pm_record m) else pm_record m)\<rparr>))"

definition start_pass :: "string \<Rightarrow> 's pin_manager \<Rightarrow> 's pin_manager" where
  "start_pass library m = (case omap_get (pm_states m) library of
     None \<Rightarrow> m
   | Some st \<Rightarrow> (case ps_pass st of
       None \<Rightarrow> m
     | Some (unrecorded, entries) \<Rightarrow>
         if entries = [] \<and> unrecorded = []
         then m\<lparr>pm_states := omap_set library (st\<lparr>ps_complete := True, ps_pass := None\<rparr>) (pm_states m)\<rparr>
         else let m1 = begin_change library (Pinning True library (map (\<lambda>items. (items, [])) entries))
                    (m\<lparr>pm_states := omap_set library (st\<lparr>ps_pass := None\<rparr>) (pm_states m)\<rparr>)
              in m1\<lparr>pm_record := set_pins library unrecorded (pm_record m1)\<rparr>))"



section \<open>Runs\<close>














section \<open>What the operations of the record do\<close>










section \<open>Accounts\<close>












































section \<open>The items of a library\<close>

text \<open>What a library holds, recorded or about to be, each CID with the kind of its pin.\<close>

definition recorded_items :: "pin_tables \<Rightarrow> string \<Rightarrow> pin_item set" where
  "recorded_items t library = {(cid, recursive). snd (or_empty (recorded_by t library)) cid = Some recursive}"








lemma record_items [simp]:
  assumes "tables_ok t"
  shows "recorded_items (begin_pins library t) l = recorded_items t l" "recorded_items (settle_pins library t) l = recorded_items t l"
    "recorded_items (clear_pins library t) l = (if l = library then {} else recorded_items t l)"
    "recorded_items (delete_cids library cids t) l = {(c, k) \<in> recorded_items t l. l = library \<longrightarrow> c \<notin> set cids}"
proof -
  note r = perform_refines(2)[OF assms, unfolded perform_def spec_def]
  show "recorded_items (begin_pins library t) l = recorded_items t l" "recorded_items (settle_pins library t) l = recorded_items t l"
    "recorded_items (clear_pins library t) l = (if l = library then {} else recorded_items t l)"
    using r[of "Begin library"] r[of "Settle library"] r[of "Clear library"] by (simp_all add: recorded_items_def or_empty_def split: option.split)
  show "recorded_items (delete_cids library cids t) l = {(c, k) \<in> recorded_items t l. l = library \<longrightarrow> c \<notin> set cids}"
    using r[of "Delete library cids"] by (auto simp: recorded_items_def or_empty_def split: option.splits if_splits)
qed





section \<open>The store\<close>

















section \<open>The memory store\<close>







section \<open>Where runs go wrong\<close>

text \<open>A store in which every block is local and a CID names its own root, to run the manager on.\<close>

definition list_ops :: "string oset pin_ops" where
  "list_ops = \<lparr>op_pin = (\<lambda>cid recursive s. if cid = ''?'' then Inl (Protocol invalid_cid) else Inr (oset_add cid s)), op_unpin = (\<lambda>cid s. Inr (oset_delete cid s))\<rparr>"

definition two_libraries :: "string oset pin_manager" where
  "two_libraries = (create_manager [''x''] [])\<lparr>pm_open := [(''a'', [(''x'', True)]), (''b'', [])],
     pm_states := [(''a'', \<lparr>ps_changing = 0, ps_complete = True, ps_pass = None\<rparr>), (''b'', \<lparr>ps_changing = 0, ps_complete = True, ps_pass = None\<rparr>)],
     pm_record := settle_pins ''b'' (settle_pins ''a'' (set_pins ''a'' [(''x'', True)] empty_tables))\<rparr>"

text \<open>\<open>pin_entries\<close> does not queue with the releases: a blob another library pins after a release read what is held is unpinned under it.\<close>

lemma release_overlaps_pin:
  "let m = start_pins ''b'' [[(''x'', True)]] (release_start (sample_deps []) ''a'' [''x''] two_libraries)
   in (case pin_step list_ops False ''b'' [([(''x'', True)], [])] ([(''x'', True)], []) m of
         Inl _ \<Rightarrow> False
       | Inr m1 \<Rightarrow> (case release_step list_ops (sample_deps []) ''a'' [''x''] [] m1 of
           Inl _ \<Rightarrow> False
         | Inr m2 \<Rightarrow> omap_get (pm_open m2) ''b'' = Some [(''x'', True)] \<and> pm_store m2 = []))"
  by code_simp

text \<open>A library that is not open, as after another identity was imported, is not looked at by a release, and its clean record later gives back a pin
  the store no longer has.\<close>

definition other_closed :: "string oset pin_manager" where
  "other_closed = (create_manager [''x''] [])\<lparr>pm_open := [(''a'', [(''x'', True)])],
     pm_states := [(''a'', \<lparr>ps_changing = 0, ps_complete = True, ps_pass = None\<rparr>)],
     pm_record := settle_pins ''b'' (set_pins ''b'' [(''x'', True)] (settle_pins ''a'' (set_pins ''a'' [(''x'', True)] empty_tables)))\<rparr>"

lemma closed_library_loses_pin:
  "(case release_step list_ops (sample_deps []) ''a'' [''x''] [] (release_start (sample_deps []) ''a'' [''x''] other_closed) of
      Inl _ \<Rightarrow> False
    | Inr m1 \<Rightarrow> (case open_pins list_ops ''b'' [] [] m1 of
        Inl _ \<Rightarrow> False
      | Inr m2 \<Rightarrow> omap_get (pm_open m2) ''b'' = Some [(''x'', True)] \<and> pm_store m2 = []))"
  by code_simp

text \<open>A pin that fails ends its change with the pins made so far unrecorded and the record marked clean.\<close>

lemma failed_pin_unrecorded:
  "let m = start_pins ''b'' [[(''y'', True), (''?'', True)]] two_libraries;
       tasks = [([(''y'', True), (''?'', True)], [])]; tasks1 = [([(''?'', True)], [(''y'', True)])]
   in (case pin_step list_ops False ''b'' tasks (hd tasks) m of
         Inl _ \<Rightarrow> False
       | Inr m1 \<Rightarrow> pin_step list_ops False ''b'' tasks1 (hd tasks1) m1 = Inl (Protocol invalid_cid) \<and>
           (let m2 = end_change (Pinning False ''b'' tasks1) m1
            in omap_get (pm_open m2) ''b'' = Some [(''y'', True)] \<and> load_pins ''b'' (pm_record m2) = Some []))"
  by code_simp

text \<open>A CID asked for both ways by two entries of one change: the entries record their pins in the order they end, not the order the pins
  landed in, and the record then says of a recursive pin that it is direct. The next open takes that back, and a release, which
  looks for recursive pins, passes the blob over.\<close>

lemma kinds_recorded_apart:
  "let tasks = [([(''y'', False)], []), ([(''y'', True)], [])]; tasks1 = [([], [(''y'', False)]), ([(''y'', True)], [])];
       tasks2 = [([], [(''y'', True)]), ([], [(''y'', False)])]; tasks3 = [([], [(''y'', False)])];
       m = start_pins ''b'' [[(''y'', False)], [(''y'', True)]] two_libraries
   in (case pin_step list_ops False ''b'' tasks (hd tasks) m of
         Inl _ \<Rightarrow> False
       | Inr m1 \<Rightarrow> (case pin_step list_ops False ''b'' tasks1 ([(''y'', True)], []) m1 of
           Inl _ \<Rightarrow> False
         | Inr m2 \<Rightarrow> (let m3 = end_change (Pinning False ''b'' []) (record_step False ''b'' tasks3 (hd tasks3) (record_step False ''b'' tasks2 (hd tasks2) m2))
             in omap_get (pm_open m3) ''b'' = Some [(''y'', True)] \<and> load_pins ''b'' (pm_record m3) = Some [(''y'', False)] \<and> pm_changes m3 = [])))"
  by code_simp

text \<open>A chain object recorded as a recursive pin is pinned directly by the open before the record is read, counts as unrecorded and
  is recorded as a direct pin, while the pin set takes the recorded kind back.\<close>

lemma chain_pin_recorded_down:
  "(case open_pins list_ops ''b'' [(''x'', False)] [] other_closed of
      Inl _ \<Rightarrow> False
    | Inr m1 \<Rightarrow> (let m2 = end_change (Pinning True ''b'' []) (start_pass ''b'' m1)
        in omap_get (pm_open m2) ''b'' = Some [(''x'', True)] \<and> load_pins ''b'' (pm_record m2) = Some [(''x'', False)]))"
  by code_simp

text \<open>What \<open>redecide\<close> of \<open>src/peer/blobs.ts\<close> releases: the blobs of the given entries that are no longer kept, also those
  another entry of the library keeps.\<close>

fun redecide_released :: "deps \<Rightarrow> content_reader \<Rightarrow> (verified_entry \<Rightarrow> jsval \<Rightarrow> bool peer_result) \<Rightarrow> verified_entry list \<Rightarrow> string list peer_result" where
  "redecide_released D read_content keep [] = Inr []"
| "redecide_released D read_content keep (e # es) =
     and_then (case stored_item_6 D read_content e of
         None \<Rightarrow> Inr []
       | Some (content, blobs) \<Rightarrow> and_then (keep e content) (\<lambda>kept. Inr (if kept then [] else blobs))) (\<lambda>released.
     and_then (redecide_released D read_content keep es) (\<lambda>rest. Inr (released @ rest)))"

lemma shared_blob_released:
  assumes "stored_item_6 D read_content e = Some (content, blobs)" "keep e content = Inr False" "cid \<in> set blobs"
    and "stored_item_6 D read_content other = Some (content', blobs')" "keep other content' = Inr True" "cid \<in> set blobs'"
  shows "\<exists>released. redecide_released D read_content keep [e] = Inr released \<and> cid \<in> set released"
  using assms by simp

section \<open>The manager's guarantees\<close>



text \<open>A library with one chain object, opened, its pass, and a blob it then pins recursively.\<close>

definition sample_cid_text :: string where
  "sample_cid_text = format_protocol_cid (PROTOCOL_CID_PREFIX @ [7])"

definition sample_blob_text :: string where
  "sample_blob_text = format_protocol_cid (PROTOCOL_CID_PREFIX @ [8])"







lemma sample_parse [simp]: "parse_content_cid sample_cid_lib sample_cid_text = Inr (protocol_cid [7])"
  "parse_content_cid sample_cid_lib sample_blob_text = Inr (protocol_cid [8])"
  by (simp_all add: parse_content_cid_def sample_cid_text_def sample_blob_text_def)

lemma sample_format [simp]: "format_cid sample_cid_lib (protocol_cid [7]) = sample_cid_text" "format_cid sample_cid_lib (protocol_cid [8]) = sample_blob_text"
  by (simp_all add: format_cid_def sample_cid_text_def sample_blob_text_def)

lemma sample_apart [simp]: "sample_cid_text \<noteq> sample_blob_text" "sample_blob_text \<noteq> sample_cid_text" "multihash (protocol_cid [7]) \<noteq> multihash (protocol_cid [8])"
  "multihash (protocol_cid [8]) \<noteq> multihash (protocol_cid [7])"
proof -
  show m: "multihash (protocol_cid [7]) \<noteq> multihash (protocol_cid [8])" by (simp add: multihash_def protocol_cid_def)
  then show "multihash (protocol_cid [8]) \<noteq> multihash (protocol_cid [7])" by simp
  show "sample_cid_text \<noteq> sample_blob_text" using sample_parse m by (metis Inr_inject)
  then show "sample_blob_text \<noteq> sample_cid_text" by simp
qed












end
