(* ===== verification/Access_Tokens.thy ===== *)
theory Access_Tokens
  imports Records
begin

text \<open>
  The access tokens of the remote listener (\<open>src/api/access-tokens.ts\<close>) and the checks a request passes
  (\<open>src/api/middleware.ts\<close>). The store is a file that a rename replaces as a whole; its text is modelled by the value JSON reads it
  as. \<open>tw_key\<close> stands for the inode, time and size \<open>stat\<close> reports, which each rename changes: it is a counter, so a rename whose
  inode, time and size all repeat an earlier one's is left out, and so are edits in place and deletion of the file. A hash is its hex text, as two digests are equal when
  their texts are. Commands that issue or revoke a token and requests to the node are split at their awaits.
\<close>

section \<open>The store\<close>

record access_token =
  at_id :: string
  at_label :: string
  at_sha256 :: string
  at_created :: string
  at_revoked :: "string option"

datatype token_file = File_missing | File_broken | File_value jsval

definition token_sha256 :: "deps \<Rightarrow> string \<Rightarrow> string" where
  "token_sha256 D token = sha256_hex D token"

text \<open>\<open>is_entry\<close>, with the entry it recognises.\<close>

definition as_token :: "jsval \<Rightarrow> access_token option" where
  "as_token v = (if \<not> is_record v then None
     else case (as_string (get ''id'' v), as_string (get ''label'' v), as_string (get ''token_sha256'' v), as_string (get ''created_at'' v)) of
       (Some i, Some label, Some h, Some created) \<Rightarrow>
         if length h = 64 \<and> list_all is_lower_hex h \<and> (get ''revoked_at'' v = JNull \<or> is_string (get ''revoked_at'' v))
         then Some \<lparr>at_id = i, at_label = label, at_sha256 = h, at_created = created, at_revoked = as_string (get ''revoked_at'' v)\<rparr>
         else None
     | _ \<Rightarrow> None)"

definition token_value :: "access_token \<Rightarrow> jsval" where
  "token_value e = JObj [(''id'', JStr (at_id e)), (''label'', JStr (at_label e)), (''token_sha256'', JStr (at_sha256 e)), (''created_at'', JStr (at_created e)),
     (''revoked_at'', case at_revoked e of None \<Rightarrow> JNull | Some at_time \<Rightarrow> JStr at_time)]"

definition read_access_tokens :: "token_file \<Rightarrow> access_token list option" where
  "read_access_tokens f = (case f of
     File_missing \<Rightarrow> Some []
   | File_broken \<Rightarrow> None
   | File_value v \<Rightarrow> (case as_array v of
       None \<Rightarrow> None
     | Some vs \<Rightarrow> if list_all (\<lambda>x. as_token x \<noteq> None) vs then Some (List.map_filter as_token vs) else None))"

definition write_access_tokens :: "access_token list \<Rightarrow> token_file" where
  "write_access_tokens entries = File_value (JArr (map token_value entries))"

definition summary_of :: "access_token \<Rightarrow> string \<times> string \<times> string \<times> string option" where
  "summary_of e = (at_id e, at_label e, at_created e, at_revoked e)"

definition list_access_tokens :: "token_file \<Rightarrow> (string \<times> string \<times> string \<times> string option) list option" where
  "list_access_tokens f = map_option (map summary_of) (read_access_tokens f)"

section \<open>Issuing and revoking\<close>

text \<open>The bytes the random generator gives are part of the change: ids until one is new, and the token.\<close>

datatype token_change =
    Issue "string list" string string string
  | Revoke string string

datatype change_outcome = Rewrite "access_token list" | Unchanged | Refused

definition issue_access_token :: "deps \<Rightarrow> string list \<Rightarrow> string \<Rightarrow> string \<Rightarrow> string \<Rightarrow> access_token list \<Rightarrow> change_outcome" where
  "issue_access_token D candidates token label now entries = (case List.find (\<lambda>i. i \<notin> set (map at_id entries)) candidates of
     None \<Rightarrow> Refused
   | Some i \<Rightarrow> Rewrite (entries @ [\<lparr>at_id = i, at_label = label, at_sha256 = token_sha256 D token, at_created = now, at_revoked = None\<rparr>]))"

fun revoke_first :: "string \<Rightarrow> string \<Rightarrow> access_token list \<Rightarrow> access_token list" where
  "revoke_first i now [] = []"
| "revoke_first i now (e # es) = (if at_id e = i then e\<lparr>at_revoked := Some now\<rparr> # es else e # revoke_first i now es)"

definition revoke_access_token :: "string \<Rightarrow> string \<Rightarrow> access_token list \<Rightarrow> change_outcome" where
  "revoke_access_token i now entries = (case List.find (\<lambda>e. at_id e = i) entries of
     None \<Rightarrow> Refused
   | Some e \<Rightarrow> if at_revoked e \<noteq> None then Unchanged else Rewrite (revoke_first i now entries))"

definition apply_change :: "deps \<Rightarrow> token_change \<Rightarrow> access_token list \<Rightarrow> change_outcome" where
  "apply_change D change entries = (case change of
     Issue candidates token label now \<Rightarrow> issue_access_token D candidates token label now entries
   | Revoke i now \<Rightarrow> revoke_access_token i now entries)"

section \<open>Commands\<close>

text \<open>Commands under \<open>with_store_lock\<close>: the lock file with the command that made it and its time.\<close>

definition LOCK_STALE_MS :: int where "LOCK_STALE_MS = 10000"

datatype command = Waiting token_change | Stale_seen token_change | Locked token_change | Have_read token_change "access_token list" | Over

record token_world =
  tw_file :: token_file
  tw_key :: nat
  tw_lock :: "(nat \<times> int) option"
  tw_commands :: "(nat, command) omap"
  tw_cached :: "(nat \<times> (string \<times> string) list) option"
  tw_calls :: "nat list"

definition set_command :: "nat \<Rightarrow> command \<Rightarrow> token_world \<Rightarrow> token_world" where
  "set_command p c w = w\<lparr>tw_commands := omap_set p c (tw_commands w)\<rparr>"

definition try_lock :: "nat \<Rightarrow> int \<Rightarrow> token_world \<Rightarrow> token_world" where
  "try_lock p now w = (case (omap_get (tw_commands w) p, tw_lock w) of
     (Some (Waiting change), None) \<Rightarrow> set_command p (Locked change) (w\<lparr>tw_lock := Some (p, now)\<rparr>)
   | _ \<Rightarrow> w)"

definition see_lock :: "nat \<Rightarrow> int \<Rightarrow> token_world \<Rightarrow> token_world" where
  "see_lock p now w = (case (omap_get (tw_commands w) p, tw_lock w) of
     (Some (Waiting change), Some (_, since)) \<Rightarrow> if now - since > LOCK_STALE_MS then set_command p (Stale_seen change) w else w
   | _ \<Rightarrow> w)"

definition remove_lock :: "nat \<Rightarrow> token_world \<Rightarrow> token_world" where
  "remove_lock p w = (case omap_get (tw_commands w) p of
     Some (Stale_seen change) \<Rightarrow> set_command p (Waiting change) (w\<lparr>tw_lock := None\<rparr>)
   | _ \<Rightarrow> w)"

definition read_store :: "nat \<Rightarrow> token_world \<Rightarrow> token_world" where
  "read_store p w = (case omap_get (tw_commands w) p of
     Some (Locked change) \<Rightarrow> (case read_access_tokens (tw_file w) of
         None \<Rightarrow> set_command p Over (w\<lparr>tw_lock := None\<rparr>)
       | Some entries \<Rightarrow> set_command p (Have_read change entries) w)
   | _ \<Rightarrow> w)"

text \<open>The write of the changed entries, by rename, and the removal of the lock.\<close>

definition write_store :: "deps \<Rightarrow> nat \<Rightarrow> token_world \<Rightarrow> token_world" where
  "write_store D p w = (case omap_get (tw_commands w) p of
     Some (Have_read change entries) \<Rightarrow>
       (let w1 = set_command p Over (w\<lparr>tw_lock := None\<rparr>) in case apply_change D change entries of
          Rewrite entries' \<Rightarrow> w1\<lparr>tw_file := write_access_tokens entries', tw_key := tw_key w + 1\<rparr>
        | _ \<Rightarrow> w1)
   | _ \<Rightarrow> w)"

section \<open>Requests\<close>

definition active_of :: "access_token list \<Rightarrow> (string \<times> string) list" where
  "active_of entries = map (\<lambda>e. (at_id e, at_sha256 e)) (List.filter (\<lambda>e. at_revoked e = None) entries)"

definition identify_in :: "deps \<Rightarrow> (string \<times> string) list \<Rightarrow> string \<Rightarrow> string option" where
  "identify_in D hashes token = (if token = [] then None
     else fold (\<lambda>(i, h) matched. if h = token_sha256 D token then Some i else matched) hashes None)"

text \<open>\<open>None\<close> is the fault of a store that cannot be read.\<close>

type_synonym token_answer = "string option option"

text \<open>\<open>active_hashes\<close>: the stat, which answers from the cache when its key is the file's, and the read of a call that missed.\<close>

definition stat_call :: "token_world \<Rightarrow> token_world \<times> (string \<times> string) list option" where
  "stat_call w = (case tw_cached w of
     Some (key, hashes) \<Rightarrow> if key = tw_key w then (w, Some hashes) else (w\<lparr>tw_calls := tw_key w # tw_calls w\<rparr>, None)
   | None \<Rightarrow> (w\<lparr>tw_calls := tw_key w # tw_calls w\<rparr>, None))"

definition read_call :: "nat \<Rightarrow> token_world \<Rightarrow> token_world \<times> (string \<times> string) list option" where
  "read_call key w = (let w1 = w\<lparr>tw_calls := remove1 key (tw_calls w)\<rparr> in case read_access_tokens (tw_file w) of
     None \<Rightarrow> (w1, None)
   | Some entries \<Rightarrow> (w1\<lparr>tw_cached := Some (key, active_of entries)\<rparr>, Some (active_of entries)))"

text \<open>The answer to a request that is not interleaved with others; without a token only the store is read.\<close>

definition answer_now :: "deps \<Rightarrow> token_world \<Rightarrow> string option \<Rightarrow> token_answer" where
  "answer_now D w token =
     (let hashes = (case stat_call w of (w1, Some hs) \<Rightarrow> Some hs | (w1, None) \<Rightarrow> snd (read_call (tw_key w) w1))
      in case hashes of None \<Rightarrow> None | Some hs \<Rightarrow> Some (case token of None \<Rightarrow> None | Some t \<Rightarrow> identify_in D hs t))"

definition lower_char :: "char \<Rightarrow> char" where
  "lower_char c = (let n = of_char c in if 65 \<le> n \<and> n \<le> (90 :: nat) then char_of (n + 32) else c)"

definition bearer_token :: "string option \<Rightarrow> string option" where
  "bearer_token header = (case header of
     None \<Rightarrow> None
   | Some h \<Rightarrow> if map lower_char (take 7 h) = ''bearer '' \<and> drop 7 h \<noteq> [] \<and> list_all (\<lambda>c. c \<noteq> CHR 0x0A \<and> c \<noteq> CHR 0x0D) (drop 7 h)
       then Some (drop 7 h) else None)"

datatype admission = Admitted "string option" | Unauthorized | Store_fault

text \<open>\<open>required\<close>: the listener has an \<open>authenticate\<close>; \<open>identifying\<close>: it has an \<open>identify\<close>.\<close>

definition authenticate_requests :: "bool \<Rightarrow> bool \<Rightarrow> (string option \<Rightarrow> token_answer) \<Rightarrow> string option \<Rightarrow> admission" where
  "authenticate_requests required identifying ask header =
     (let token = bearer_token header;
          named = (if token \<noteq> None \<and> identifying
                   then case ask token of None \<Rightarrow> Store_fault | Some None \<Rightarrow> Unauthorized | Some (Some i) \<Rightarrow> Admitted (Some i)
                   else Admitted None)
      in if required then (case ask token of None \<Rightarrow> Store_fault | Some None \<Rightarrow> Unauthorized | Some (Some i) \<Rightarrow> named) else named)"

text \<open>\<open>None\<close> is the refusal; \<open>library_address\<close> is None when the write names no library.\<close>

definition assert_label_writer :: "(string, string) omap \<Rightarrow> string option \<Rightarrow> string option \<Rightarrow> unit option" where
  "assert_label_writer managed token_id library_address = (case library_address of
     None \<Rightarrow> Some ()
   | Some a \<Rightarrow> (case omap_get managed a of
       None \<Rightarrow> Some ()
     | Some owner \<Rightarrow> if token_id = Some owner then Some () else None))"

definition origin_allowed :: "string list \<Rightarrow> string option \<Rightarrow> bool" where
  "origin_allowed cors_origins header_origin = (case header_origin of None \<Rightarrow> True | Some h \<Rightarrow> h \<noteq> ''null'' \<and> h \<in> set cors_origins)"

section \<open>Runs\<close>

text \<open>
  Commands and requests in any order. No lock grows stale: a command that holds the lock is done within \<open>LOCK_STALE_MS\<close>, so none
  passes \<open>see_lock\<close> to \<open>remove_lock\<close>.
\<close>

inductive token_run :: "deps \<Rightarrow> token_world \<Rightarrow> bool" for D where
  created: "token_run D \<lparr>tw_file = f, tw_key = 0, tw_lock = None, tw_commands = [], tw_cached = None, tw_calls = []\<rparr>"
| started: "token_run D w \<Longrightarrow> omap_get (tw_commands w) p = None \<Longrightarrow> token_run D (set_command p (Waiting change) w)"
| locked: "token_run D w \<Longrightarrow> token_run D (try_lock p now w)"
| loaded: "token_run D w \<Longrightarrow> token_run D (read_store p w)"
| written: "token_run D w \<Longrightarrow> token_run D (write_store D p w)"
| gave_up: "token_run D w \<Longrightarrow> omap_get (tw_commands w) p = Some (Waiting change) \<Longrightarrow> token_run D (set_command p Over w)"
| called: "token_run D w \<Longrightarrow> token_run D (fst (stat_call w))"
| answered: "token_run D w \<Longrightarrow> key \<in> set (tw_calls w) \<Longrightarrow> token_run D (fst (read_call key w))"

definition in_section :: "token_world \<Rightarrow> nat \<Rightarrow> bool" where
  "in_section w p = (case omap_get (tw_commands w) p of Some (Locked _) \<Rightarrow> True | Some (Have_read _ _) \<Rightarrow> True | _ \<Rightarrow> False)"

text \<open>Only the command that made the lock is in its section; what it read is in the file; a cache with the file's key holds the
  file's active tokens.\<close>

definition tokens_ok :: "token_world \<Rightarrow> bool" where
  "tokens_ok w \<longleftrightarrow> (\<forall>p. in_section w p \<longrightarrow> (\<exists>since. tw_lock w = Some (p, since))) \<and>
     (\<forall>p change entries. omap_get (tw_commands w) p = Some (Have_read change entries) \<longrightarrow> read_access_tokens (tw_file w) = Some entries) \<and>
     (\<forall>key \<in> set (tw_calls w). key \<le> tw_key w) \<and>
     (\<forall>key hashes. tw_cached w = Some (key, hashes) \<longrightarrow> key \<le> tw_key w \<and>
        (key = tw_key w \<longrightarrow> (\<exists>entries. read_access_tokens (tw_file w) = Some entries \<and> hashes = active_of entries)))"

lemma section_set: "in_section (set_command p c w) q = (if q = p then (case c of Locked _ \<Rightarrow> True | Have_read _ _ \<Rightarrow> True | _ \<Rightarrow> False) else in_section w q)"
  by (simp add: in_section_def set_command_def ordered_simps)

lemma set_command_fields [simp]:
  "tw_file (set_command p c w) = tw_file w" "tw_key (set_command p c w) = tw_key w" "tw_lock (set_command p c w) = tw_lock w"
  "tw_cached (set_command p c w) = tw_cached w" "tw_calls (set_command p c w) = tw_calls w"
  "omap_get (tw_commands (set_command p c w)) q = (if q = p then Some c else omap_get (tw_commands w) q)"
  by (simp_all add: set_command_def ordered_simps)

lemma tokens_okD:
  assumes "tokens_ok w"
  shows "in_section w p \<Longrightarrow> \<exists>since. tw_lock w = Some (p, since)"
    "omap_get (tw_commands w) p = Some (Have_read change entries) \<Longrightarrow> read_access_tokens (tw_file w) = Some entries"
    "key \<in> set (tw_calls w) \<Longrightarrow> key \<le> tw_key w" "tw_cached w = Some (key, hashes) \<Longrightarrow> key \<le> tw_key w"
    "tw_cached w = Some (tw_key w, hashes) \<Longrightarrow> \<exists>entries. read_access_tokens (tw_file w) = Some entries \<and> hashes = active_of entries"
  using assms unfolding tokens_ok_def by blast+

lemma in_section_lock [simp]: "in_section (w\<lparr>tw_lock := l\<rparr>) = in_section w" "tw_commands (w\<lparr>tw_lock := l\<rparr>) = tw_commands w"
  by (simp_all add: in_section_def fun_eq_iff)

text \<open>A command that leaves its section or never was in it.\<close>

lemma leave_section:
  assumes "tokens_ok w" "c = Over \<or> (\<exists>change. c = Waiting change) \<and> \<not> in_section w p"
    and "w' = set_command p c (if in_section w p then w\<lparr>tw_lock := None\<rparr> else w)"
  shows "tokens_ok w'"
proof -
  have out: "(case c of Locked _ \<Rightarrow> True | Have_read _ _ \<Rightarrow> True | _ \<Rightarrow> False) = False" using assms(2) by auto
  have "\<exists>since. tw_lock w' = Some (q, since)" if q: "in_section w' q" for q
  proof -
    from q have q': "q \<noteq> p" "in_section w q" unfolding assms(3) section_set out by (simp_all split: if_splits)
    with tokens_okD(1)[OF assms(1)] have "\<not> in_section w p" by (metis option.inject prod.inject)
    with q' tokens_okD(1)[OF assms(1) q'(2)] show ?thesis by (simp add: assms(3))
  qed
  moreover have "read_access_tokens (tw_file w') = Some entries" if "omap_get (tw_commands w') q = Some (Have_read change entries)" for q change entries
    using that assms(2) tokens_okD(2)[OF assms(1), of q] by (auto simp: assms(3) split: if_splits)
  ultimately show ?thesis using assms(1) unfolding tokens_ok_def by (simp add: assms(3))
qed

lemma try_lock_ok:
  assumes "tokens_ok w"
  shows "tokens_ok (try_lock p now w)"
proof (cases "\<exists>change. omap_get (tw_commands w) p = Some (Waiting change) \<and> tw_lock w = None")
  case True
  then obtain change where c: "omap_get (tw_commands w) p = Some (Waiting change)" "tw_lock w = None" by blast
  then have "\<not> in_section w q" for q using tokens_okD(1)[OF assms, of q] by auto
  moreover have "try_lock p now w = set_command p (Locked change) (w\<lparr>tw_lock := Some (p, now)\<rparr>)" by (simp add: try_lock_def c)
  ultimately show ?thesis using assms unfolding tokens_ok_def by (auto simp: section_set split: if_splits)
next
  case False
  then have "try_lock p now w = w" by (auto simp: try_lock_def split: option.splits command.splits)
  then show ?thesis using assms by simp
qed

lemma read_store_ok:
  assumes "tokens_ok w"
  shows "tokens_ok (read_store p w)"
proof (cases "\<exists>change. omap_get (tw_commands w) p = Some (Locked change)")
  case True
  then obtain change where c: "omap_get (tw_commands w) p = Some (Locked change)" by blast
  then have p: "in_section w p" by (simp add: in_section_def)
  show ?thesis
  proof (cases "read_access_tokens (tw_file w)")
    case None
    then show ?thesis using leave_section[OF assms, of Over p] p by (simp add: read_store_def c)
  next
    case (Some entries)
    then have "read_store p w = set_command p (Have_read change entries) w" by (simp add: read_store_def c)
    then show ?thesis using assms Some tokens_okD(1)[OF assms p] unfolding tokens_ok_def by (auto simp: section_set split: if_splits)
  qed
next
  case False
  then have "read_store p w = w" by (auto simp: read_store_def split: option.splits command.splits)
  then show ?thesis using assms by simp
qed

lemma write_store_ok:
  assumes "tokens_ok w"
  shows "tokens_ok (write_store D p w)"
proof (cases "\<exists>change entries. omap_get (tw_commands w) p = Some (Have_read change entries)")
  case True
  then obtain change entries where c: "omap_get (tw_commands w) p = Some (Have_read change entries)" by blast
  then have p: "in_section w p" by (simp add: in_section_def)
  let ?w1 = "set_command p Over (w\<lparr>tw_lock := None\<rparr>)"
  have w1: "tokens_ok ?w1" using leave_section[OF assms, of Over p] p by simp
  have none: "\<not> in_section ?w1 q" for q using tokens_okD(1)[OF w1, of q] by auto
  show ?thesis
  proof (cases "apply_change D change entries")
    case (Rewrite entries')
    then have w: "write_store D p w = ?w1\<lparr>tw_file := write_access_tokens entries', tw_key := tw_key w + 1\<rparr>" by (simp add: write_store_def c)
    have "in_section (write_store D p w) q = in_section ?w1 q" for q unfolding w by (simp add: in_section_def)
    moreover have "omap_get (tw_commands (write_store D p w)) q \<noteq> Some (Have_read change' es)" for q change' es
      using none[of q] calculation[of q] by (auto simp: in_section_def)
    ultimately show ?thesis using none tokens_okD(3,4)[OF assms] unfolding tokens_ok_def by (auto simp: w intro: le_SucI dest: le_imp_less_Suc)
  qed (use w1 in \<open>simp_all add: write_store_def c\<close>)
next
  case False
  then have "write_store D p w = w" by (auto simp: write_store_def split: option.splits command.splits)
  then show ?thesis using assms by simp
qed

lemma calls_ok:
  assumes "tokens_ok w"
  shows "tokens_ok (fst (stat_call w))" "key \<in> set (tw_calls w) \<Longrightarrow> tokens_ok (fst (read_call key w))"
proof -
  show "tokens_ok (fst (stat_call w))"
    using assms unfolding tokens_ok_def by (auto simp: stat_call_def in_section_def split: option.splits)
  show "tokens_ok (fst (read_call key w))" if "key \<in> set (tw_calls w)"
  proof (cases "read_access_tokens (tw_file w)")
    case None
    then show ?thesis using assms unfolding tokens_ok_def by (auto simp: read_call_def in_section_def dest: set_mp[OF set_remove1_subset])
  next
    case (Some entries)
    then show ?thesis using assms that unfolding tokens_ok_def by (auto simp: read_call_def in_section_def dest: set_mp[OF set_remove1_subset])
  qed
qed

lemma token_run_ok: "token_run D w \<Longrightarrow> tokens_ok w"
proof (induction rule: token_run.induct)
  case (created f)
  then show ?case by (simp add: tokens_ok_def in_section_def)
next
  case (started w p change)
  then show ?case using leave_section[of w "Waiting change" p] by (simp add: in_section_def)
next
  case (gave_up w p change)
  then show ?case using leave_section[of w Over p] by (simp add: in_section_def)
qed (simp_all add: try_lock_ok read_store_ok write_store_ok calls_ok)

section \<open>What holds of tokens\<close>

lemma token_value_read: "length (at_sha256 e) = 64 \<Longrightarrow> list_all is_lower_hex (at_sha256 e) \<Longrightarrow> as_token (token_value e) = Some e"
  by (cases e) (auto simp: as_token_def token_value_def is_string_def as_string_def split: option.splits)

lemma written_tokens_read:
  assumes "\<forall>e \<in> set entries. length (at_sha256 e) = 64 \<and> list_all is_lower_hex (at_sha256 e)"
  shows "read_access_tokens (write_access_tokens entries) = Some entries"
proof -
  have "list_all (\<lambda>x. as_token x \<noteq> None) (map token_value entries) \<and> List.map_filter as_token (map token_value entries) = entries"
    using assms by (induction entries) (simp_all add: token_value_read List.map_filter_def)
  then show ?thesis by (simp add: read_access_tokens_def write_access_tokens_def)
qed

lemma identify_matches: "token \<noteq> [] \<Longrightarrow> identify_in D hashes token \<noteq> None \<longleftrightarrow> (\<exists>i. (i, token_sha256 D token) \<in> set hashes)"
proof -
  assume "token \<noteq> []"
  moreover have "fold (\<lambda>(i, h) matched. if h = x then Some i else matched) hashes m \<noteq> None \<longleftrightarrow> m \<noteq> None \<or> (\<exists>i. (i, x) \<in> set hashes)" for x m
    by (induction hashes arbitrary: m) (auto split: if_splits)
  ultimately show ?thesis by (simp add: identify_in_def)
qed

lemma answer_from_file:
  assumes "tokens_ok w"
  shows "answer_now D w token = (case read_access_tokens (tw_file w) of
    None \<Rightarrow> None | Some entries \<Rightarrow> Some (case token of None \<Rightarrow> None | Some t \<Rightarrow> identify_in D (active_of entries) t))"
proof (cases "\<exists>hashes. tw_cached w = Some (tw_key w, hashes)")
  case True
  then obtain hashes where c: "tw_cached w = Some (tw_key w, hashes)" by blast
  with tokens_okD(5)[OF assms c] show ?thesis by (auto simp: answer_now_def stat_call_def)
next
  case False
  then have "stat_call w = (w\<lparr>tw_calls := tw_key w # tw_calls w\<rparr>, None)" by (auto simp: stat_call_def split: option.splits)
  then show ?thesis by (simp add: answer_now_def read_call_def Let_def split: option.split)
qed

lemma bearer_not_empty: "bearer_token header = Some token \<Longrightarrow> token \<noteq> []"
  by (auto simp: bearer_token_def split: option.splits if_splits)

lemma admitted_iff:
  "(\<exists>named. authenticate_requests True identifying ask header = Admitted named) \<longleftrightarrow> (\<exists>i. ask (bearer_token header) = Some (Some i))"
  by (auto simp: authenticate_requests_def Let_def split: option.splits)

text \<open>C40: In every interleaving of token commands and requests, with the cache of parsed hashes in whatever state earlier requests left it, a listener that
  requires a token admits a request exactly when its bearer token hashes to an entry of the token file as it is at that moment that is not revoked: a
  revoked token is refused from the next request on.\<close>

theorem active_tokens_admitted:
  assumes "token_run D w"
  shows "(\<exists>named. authenticate_requests True identifying (answer_now D w) header = Admitted named) \<longleftrightarrow>
    (\<exists>token entries e. bearer_token header = Some token \<and> read_access_tokens (tw_file w) = Some entries \<and> e \<in> set entries \<and>
       at_revoked e = None \<and> at_sha256 e = token_sha256 D token)"
proof -
  have active: "(\<exists>i. (i, h) \<in> set (active_of entries)) \<longleftrightarrow> (\<exists>e \<in> set entries. at_revoked e = None \<and> at_sha256 e = h)" for h entries
    by (auto simp: active_of_def)
  note answer = answer_from_file[OF token_run_ok[OF assms], of D "bearer_token header"]
  show ?thesis
  proof (cases "\<exists>token entries. bearer_token header = Some token \<and> read_access_tokens (tw_file w) = Some entries")
    case True
    then obtain token entries where t: "bearer_token header = Some token" and f: "read_access_tokens (tw_file w) = Some entries" by blast
    have "(\<exists>i. answer_now D w (bearer_token header) = Some (Some i)) \<longleftrightarrow> identify_in D (active_of entries) token \<noteq> None" unfolding answer by (simp add: t f)
    then show ?thesis unfolding admitted_iff identify_matches[OF bearer_not_empty[OF t]] active by (auto simp: t f)
  next
    case False
    then show ?thesis unfolding admitted_iff answer by (auto split: option.splits)
  qed
qed

text \<open>While no lock grows stale, commands that issue and revoke tokens change the file one at a time: what a command read is in the file until it writes,
  and no other command is between its lock and its write, so no revocation is lost.\<close>

lemma token_changes_serialised:
  assumes "token_run D w" "omap_get (tw_commands w) p = Some (Have_read change entries)"
  shows "read_access_tokens (tw_file w) = Some entries \<and> (\<forall>q. in_section w q \<longrightarrow> q = p)"
proof -
  note ok = token_run_ok[OF assms(1)]
  have "in_section w p" using assms(2) by (simp add: in_section_def)
  then have "in_section w q \<Longrightarrow> q = p" for q using tokens_okD(1)[OF ok, of q] tokens_okD(1)[OF ok, of p] by auto
  with tokens_okD(2)[OF ok assms(2)] show ?thesis by blast
qed

section \<open>A stale lock\<close>

text \<open>Two commands that both saw a lock left by a dead one: each removes the lock it finds, the second that of the first, both read the same entries, and the
  revocation the first reported is overwritten.\<close>

definition stale_world :: token_world where
  "stale_world = \<lparr>tw_file = write_access_tokens [\<lparr>at_id = ''a'', at_label = [], at_sha256 = replicate 64 (CHR ''0''), at_created = [], at_revoked = None\<rparr>], tw_key = 0,
     tw_lock = Some (0, 0), tw_commands = [(1, Waiting (Revoke ''a'' ''now'')), (2, Waiting (Issue [''b''] ''t'' [] []))], tw_cached = None, tw_calls = []\<rparr>"

lemma stale_lock_loses_revocation:
  "let both = read_store 2 (try_lock 2 20000 (remove_lock 2 (read_store 1 (try_lock 1 20000 (remove_lock 1 (see_lock 2 20000 (see_lock 1 20000 stale_world)))))));
       revoked = write_store (sample_deps []) 1 both; issued = write_store (sample_deps []) 2 revoked
   in map_option (map at_revoked) (read_access_tokens (tw_file revoked)) = Some [Some ''now''] \<and>
      (case tw_file issued of File_value (JArr (v # vs)) \<Rightarrow> get ''revoked_at'' v = JNull | _ \<Rightarrow> False)"
  by code_simp

section \<open>Witnesses\<close>

definition sample_token :: string where
  "sample_token = replicate 32 (CHR ''a'')"

definition token_deps :: deps where
  "token_deps = (sample_deps [])\<lparr>bytesToHex := (\<lambda>bs. replicate 64 (if bs = utf8ToBytes sample_token then CHR ''1'' else CHR ''0''))\<rparr>"

definition issued_world :: token_world where
  "issued_world = write_store token_deps 1 (read_store 1 (try_lock 1 5 (set_command 1 (Waiting (Issue [''id''] sample_token ''phone'' ''now''))
     \<lparr>tw_file = File_missing, tw_key = 0, tw_lock = None, tw_commands = [], tw_cached = None, tw_calls = []\<rparr>)))"

lemma issued_world_run: "token_run token_deps issued_world"
  unfolding issued_world_def by (intro token_run.written token_run.loaded token_run.locked token_run.started token_run.created) simp

theorem active_tokens_admitted_witness:
  "(\<exists>named. authenticate_requests True True (answer_now token_deps issued_world) (Some (''Bearer '' @ sample_token)) = Admitted named) \<and>
   \<not> (\<exists>named. authenticate_requests True True (answer_now token_deps issued_world) (Some ''Bearer other'') = Admitted named)"
proof -
  have f: "read_access_tokens (tw_file issued_world) =
      Some [\<lparr>at_id = ''id'', at_label = ''phone'', at_sha256 = token_sha256 token_deps sample_token, at_created = ''now'', at_revoked = None\<rparr>]" by code_simp
  have b: "bearer_token (Some (''Bearer '' @ sample_token)) = Some sample_token" "bearer_token (Some ''Bearer other'') = Some ''other''" by code_simp+
  have "token_sha256 token_deps ''other'' \<noteq> token_sha256 token_deps sample_token" by code_simp
  then show ?thesis unfolding active_tokens_admitted[OF issued_world_run] b f by simp
qed

end
