(* ===== verification/Spec2Isabelle.thy ===== *)
theory Spec2Isabelle
  imports Access_Properties Append_Properties Replicator Write_Target Pin_Index Commit_Batch Pin_Record Index_Properties Index_Counts Cache_Run Blob_Keeper Library_Pins Access_Tokens
begin

text \<open>
  The record node: a peer that keeps music libraries as signed, append-only logs, exchanges them with other peers and
  serves queries over them. This development models its protocol core and the parts of the peer that keep state on
  disk, under \<open>src/src/\<close> of the repository, and proves what makes them correct.

  \<^bold>\<open>The parts and how they interact.\<close> A library is a set of signed entries, each naming its parents by hash. An entry
  is built and signed locally (\<open>entry/\<close>, \<open>identity/\<close>) or decoded from a block a peer sent. The oplog (\<open>oplog/\<close>) admits it
  after checking shape, signature, clock and authority (\<open>access-control/\<close>), and keeps heads, the current entry
  of every state key and the entries a revocation made inert. Replication (\<open>replication/\<close>) announces heads, fetches
  missing ancestors, orders them and hands batches to the merge. The fabric (\<open>fabric/\<close>) stores blocks, counts
  pins and batches commits. The query index (\<open>query-db/\<close>) projects the oplogs into tables and caches verified blocks for
  the next open. The peer (\<open>peer/\<close>) derives from its identity library which libraries are its own, which are
  linked, what it replicates and pins, and where a write goes.

  \<^bold>\<open>Theories.\<close> A theory follows the source file it models and keeps its names.
  \<^item> \<open>Prelude\<close>: results as sums, JavaScript maps and sets as insertion-ordered lists, stable sorting by a comparator (the
    locale \<open>comparator\<close>, interpreted on every order the code sorts by), words and bytes.
  \<^item> \<open>Js_Value\<close>, \<open>Json\<close>: values, their accessors and guards, the JSON text codec.
  \<^item> \<open>Base58\<close>, \<open>Encoding\<close>: \<open>encoding/\<close>: base58btc at 32 bit width, canonical bytes, CIDs, size bounds, library addresses.
  \<^item> \<open>Identity\<close>: \<open>identity/\<close>, \<open>entry/build.ts\<close>, \<open>entry/signed.ts\<close>: keys, signatures with the key cache, signed entries.
  \<^item> \<open>Filter_Spec\<close>, \<open>Capability_Record\<close>, \<open>Capability\<close>: \<open>access-control/\<close>: filters, capability and revocation records, chains, effective
    revocations and the authorisation of an entry.
  \<^item> \<open>Records\<close>, \<open>Identity_Record\<close>, \<open>Operations\<close>: the records of \<open>entry/\<close> and the operations of the four library types.
  \<^item> \<open>Content_Store\<close>, \<open>Ac_Chain\<close>, \<open>Block_Walk\<close>: blocks and their verification, the chain objects of a library over the locale
    \<open>block_store\<close>, interpreted on the memory store, and the walk over the blocks of a pin.
  \<^item> \<open>Oplog\<close>, \<open>Dag\<close>: \<open>oplog/\<close>: the state with its indices, acceptance, append, merge and restoring.
  \<^item> \<open>Oplog_Structure\<close>, \<open>Oplog_Invariant\<close>, \<open>Convergence\<close>, \<open>Replicas\<close>, \<open>Accepted\<close>: the invariant of every oplog a peer can
    reach, and that verdicts and derived state depend on the entries only. \<open>Sample_Log\<close> holds the concrete logs
    of the witnesses. \<open>Oplog_Properties\<close>, \<open>Access_Properties\<close>, \<open>Append_Properties\<close> state the properties.
  \<^item> \<open>Traversal\<close>, \<open>Merge_Orchestrator\<close>, \<open>Messages\<close>, \<open>Heads_Exchange\<close>, \<open>Replicator\<close>, \<open>Announcement\<close>: \<open>replication/\<close>: closures are records, a
    function is one stretch between two awaits, and a run is an inductive relation over events in any order.
  \<^item> \<open>Pin_Index\<close>, \<open>Pin_Record\<close>, \<open>Commit_Batch\<close>: \<open>fabric/\<close>: pins as interleaved steps, the tables of the pin record, batched
    transactions with crashes.
  \<^item> \<open>Query_Index\<close>, \<open>Projection\<close>, \<open>Index_Run\<close>, \<open>Index_Properties\<close>, \<open>Index_Counts\<close>: \<open>query-db/projector.ts\<close>, the tables and triggers of
    \<open>schema.ts\<close>, \<open>rebuild.ts\<close>: rows of a key, runs beside moving oplogs, totals.
  \<^item> \<open>Entry_Cache\<close>, \<open>Cache_Run\<close>: \<open>query-db/entry-blocks.ts\<close>, \<open>peer/load.ts\<close>, \<open>load_oplog\<close> of \<open>peer/library.ts\<close>: opening a library.
  \<^item> \<open>Identity_Library\<close>, \<open>Ownership\<close>, \<open>Write_Target\<close>: \<open>oplog/identity-library.ts\<close>, \<open>peer/ownership.ts\<close>, \<open>peer/write-target.ts\<close>,
    \<open>peer/capabilities.ts\<close>: what a peer owns and may write, issuing and revoking capabilities.
  \<^item> \<open>Library_Policy\<close>: \<open>peer/policy.ts\<close>, \<open>peer/pins.ts\<close>: the replication policy of a library, what its filter reads and what an
    entry pins.
  \<^item> \<open>Library_Pins\<close>: the pin sets of \<open>peer/library.ts\<close>: what libraries hold, releases, the record the next open takes back, over the
    locale \<open>pinning_store\<close>, interpreted on the memory store.
  \<^item> \<open>Blob_Keeper\<close>: \<open>peer/blobs.ts\<close>: which blobs are wanted, fetches within their slots and retries under backoff.
  \<^item> \<open>Access_Tokens\<close>: \<open>api/access-tokens.ts\<close> and the checks of \<open>api/middleware.ts\<close>: tokens issued and revoked under a lock file, requests
    answered from a cache.

  \<^bold>\<open>What the lemmas show.\<close> Replicas that hold the same entries agree on everything derived from them, merges commute
  with the order of arrival, and a restart restores what was held. Acceptance depends on an entry's causal past only, the
  incremental access state is the one computed from scratch, and a delegated entry was covered by a live
  capability chain. The traversal fetches everything reachable and ends; the orchestrator merges only batches whose
  parents are there and, as long as a run is scheduled or nothing waits, strands nothing that could merge (a merge that throws
  leaves its batch waiting with nothing scheduled). Pinned blocks stay stored in every interleaving of pins and
  unpins that name a root by one CID; a crash loses whole transactions, also after a COMMIT that threw and
  left its transaction open. A paused replicator starts no publication and a resumed one looks again at everything it deferred or
  could not resolve; heads sets of at most 65536 heads arrive whole. The query index of a settled peer, in one run of the process from an empty index, is what a rebuild
  writes, and its counts are exact below the \<open>2 ^ 63\<close> bytes at which SQLite's sums cease to be integers.
  What an open library holds is pinned in the store, of the kind it says, and a clean record names
  exactly that, in runs without the overlaps that \<open>Library_Pins\<close> lists. A request is admitted exactly when its token is
  active in the token file at that moment. The blob keeper stays within its slots, fetches no CID string twice at a time and always has a
  timer armed for the next retry. An open admits verified entries only, though it may skip verification, and recovers from a crash. Codecs and builders are
  inverse to their parsers, and filters fail closed. Beside these, lemmas on concrete runs show where the code misses what its comments
  promise; \<open>PROJECT.json\<close> lists them as findings.

  \<^bold>\<open>Conventions.\<close> Errors are values: \<open>protocol_error + 'a\<close> without the message text, and \<open>peer_error + 'a\<close> at the peer. Strings are the
  characters of their UTF-8 bytes. Numbers the code keeps at a width are words; safe integers are \<open>int\<close> or \<open>nat\<close> with the
  bounds the code checks. Packages the code calls are parameters: the record \<open>deps\<close> (CBOR codec, hashes, CID class,
  signature scheme), \<open>cid_lib\<close> and \<open>text_lib\<close>. What a property needs of them is a hypothesis: \<open>inj (multihash_of_digest D)\<close>
  (a digest is read back from its multihash), \<open>inj_on (compute_cid_string D)\<close> on the blocks involved (no collision), and
  \<open>codec_ok\<close> (the codec decodes what it encoded, objects read in the codec's field order). \<open>sample_deps\<close> satisfies them in the witnesses.
  SQL tables are row lists with their primary keys; an INSERT that conflicts fails and rolls its transaction back. Sums of sizes are 64-bit
  integers that SQLite turns into doubles on overflow.

  \<^bold>\<open>Termination and fuel.\<close> Loops are functions with termination proofs: the causal walk, the block walks and the load walk by
  the hashes not yet seen, the readiness walk by the entries not yet decided, announcements by the libraries
  left. \<open>capability_chain\<close> takes one step per entry and one more, which \<open>capability_chain_ends\<close> shows to be enough. The JSON
  parser counts down from twice the length of the text and two, and every recursive call consumes a
  character or leaves a container.

  \<^bold>\<open>Not modelled.\<close> The libp2p adapter and the pubsub and unixfs bindings (calls into packages); the HTTP routes and
  the command line (request plumbing); ingest (subprocesses, media tools and downloads); the SQL of \<open>query-db/queries.ts\<close> but \<open>track_labels\<close>
  and the search tables (query text for the database engine); the census, the WAL checkpointer, locks,
  configuration and file handling (I/O); peer notifications and media serving. \<open>PROJECT.json\<close> lists them part by part.
\<close>

end
